(* ===== verification/Prelude.thy ===== *)
theory Prelude
  imports Main
begin

text \<open>
  What every component of the development shares: the error values, the state and error
  monad in which the code's stateful operations are written, the total-correctness
  judgement \<open>keeps\<close> with its rules, and generic facts on lists and residues.

  The C++ code signals failure by throwing; a failed \<open>assert\<close>, an access outside a
  \<open>vector\<close> and a recursion that never returns are failures too. Each is a constructor of
  \<open>err\<close>, so that every raise and early exit of the source is a branch of the model.
\<close>

section \<open>Errors\<close>

datatype err =
    Assertion_failed            \<comment> \<open>a failed C \<open>assert\<close>\<close>
  | Out_of_range                \<comment> \<open>an access outside a vector (undefined behaviour in C++)\<close>
  | Disagreement                \<comment> \<open>the parties would go on with different clear values\<close>
  | Diverges                    \<comment> \<open>a recursion that calls itself on the same arguments\<close>
  | Out_of_fuel                 \<comment> \<open>the bound given to a model of an unbounded loop is used up\<close>
  | Invalid_length
  | Bad_value
  | Division_by_zero
  | Not_implemented
  | Invalid_commitment
  | Invalid_program
  | Invalid_params
  | Invalid_argument
  | Mac_fail
  | Processor_Error string
  | Runtime_error string
  | Thrown_string string        \<comment> \<open>the code's \<open>throw "..."\<close>\<close>

section \<open>The state and error monad\<close>

type_synonym ('s, 'a) m = "'s \<Rightarrow> err + ('a \<times> 's)"

definition ret :: "'a \<Rightarrow> ('s, 'a) m" where
  "ret x = (\<lambda>s. Inr (x, s))"

definition throw :: "err \<Rightarrow> ('s, 'a) m" where
  "throw e = (\<lambda>s. Inl e)"

definition bnd :: "('s, 'a) m \<Rightarrow> ('a \<Rightarrow> ('s, 'b) m) \<Rightarrow> ('s, 'b) m" where
  "bnd p f = (\<lambda>s. case p s of Inl e \<Rightarrow> Inl e | Inr (x, t) \<Rightarrow> f x t)"

text \<open>\<open>check b e\<close> is the code's \<open>if (!b) throw e\<close> (or \<open>assert(b)\<close>).\<close>

definition check :: "bool \<Rightarrow> err \<Rightarrow> ('s, unit) m" where
  "check b e = (if b then ret () else throw e)"

definition gets :: "('s \<Rightarrow> 'a) \<Rightarrow> ('s, 'a) m" where
  "gets f = (\<lambda>s. Inr (f s, s))"

definition modify :: "('s \<Rightarrow> 's) \<Rightarrow> ('s, unit) m" where
  "modify f = (\<lambda>s. Inr ((), f s))"

text \<open>A loop over a vector that collects one result per element, and one that folds.\<close>

fun mapM :: "('a \<Rightarrow> ('s, 'b) m) \<Rightarrow> 'a list \<Rightarrow> ('s, 'b list) m" where
  "mapM f [] = ret []"
| "mapM f (x # xs) = bnd (f x) (\<lambda>y. bnd (mapM f xs) (\<lambda>ys. ret (y # ys)))"

fun foldM :: "('a \<Rightarrow> 'b \<Rightarrow> ('s, 'b) m) \<Rightarrow> 'a list \<Rightarrow> 'b \<Rightarrow> ('s, 'b) m" where
  "foldM f [] acc = ret acc"
| "foldM f (x # xs) acc = bnd (f x acc) (\<lambda>acc'. foldM f xs acc')"

text \<open>Reading a vector at an index that the code does not check.\<close>

definition at :: "'a list \<Rightarrow> nat \<Rightarrow> ('s, 'a) m" where
  "at xs i = (if i < length xs then ret (xs ! i) else throw Out_of_range)"

text \<open>\<open>std::vector::resize\<close> with the value new elements get.\<close>

definition resize :: "'a \<Rightarrow> nat \<Rightarrow> 'a list \<Rightarrow> 'a list" where
  "resize z n xs = take n xs @ replicate (n - length xs) z"

lemma length_resize [simp]: "length (resize z n xs) = n"
  by (simp add: resize_def)

lemma resize_id [simp]: "length xs = n \<Longrightarrow> resize z n xs = xs"
  by (simp add: resize_def)

lemma bnd_ret [simp]: "bnd (ret x) f = f x"
  by (simp add: bnd_def ret_def)

lemma bnd_throw [simp]: "bnd (throw e) f = throw e"
  by (simp add: bnd_def throw_def)

lemma bnd_assoc: "bnd (bnd p f) g = bnd p (\<lambda>x. bnd (f x) g)"
  by (auto simp: bnd_def fun_eq_iff split: sum.splits)

lemma bnd_right [simp]: "bnd p ret = p"
  by (auto simp: bnd_def ret_def fun_eq_iff split: sum.splits)

lemma check_simps [simp]: "check True e = ret ()" "check False e = throw e"
  by (simp_all add: check_def)

lemma at_simp [simp]: "i < length xs \<Longrightarrow> at xs i = ret (xs ! i)"
  by (simp add: at_def)

lemmas monad_defs = ret_def throw_def bnd_def check_def gets_def modify_def at_def

text \<open>Sequencing of what may fail but has no state.\<close>

definition ebnd :: "err + 'a \<Rightarrow> ('a \<Rightarrow> err + 'b) \<Rightarrow> err + 'b" where
  "ebnd x f = (case x of Inl e \<Rightarrow> Inl e | Inr y \<Rightarrow> f y)"

lemma ebnd_simps [simp]: "ebnd (Inr x) f = f x" "ebnd (Inl e) f = Inl e"
  by (simp_all add: ebnd_def)

section \<open>Total correctness\<close>

text \<open>
  \<open>keeps I p Q E\<close>: from every state that satisfies the invariant \<open>I\<close>, running \<open>p\<close>
  either returns a result that satisfies \<open>Q\<close> in a state that satisfies \<open>I\<close> again, or
  throws an error that satisfies \<open>E\<close>. \<open>runs I p Q\<close> is the case where nothing may be
  thrown: \<open>p\<close> returns.
\<close>

definition keeps :: "('s \<Rightarrow> bool) \<Rightarrow> ('s, 'a) m \<Rightarrow> ('a \<Rightarrow> bool) \<Rightarrow> (err \<Rightarrow> bool) \<Rightarrow> bool" where
  "keeps I p Q E \<longleftrightarrow>
     (\<forall>s. I s \<longrightarrow> (case p s of Inl e \<Rightarrow> E e | Inr (x, t) \<Rightarrow> I t \<and> Q x))"

abbreviation runs :: "('s \<Rightarrow> bool) \<Rightarrow> ('s, 'a) m \<Rightarrow> ('a \<Rightarrow> bool) \<Rightarrow> bool" where
  "runs I p Q \<equiv> keeps I p Q (\<lambda>_. False)"

named_theorems prog \<open>rules for the operations of the model, for proofs about programs\<close>

lemma keeps_ret [prog]: "Q x \<Longrightarrow> keeps I (ret x) Q E"
  by (simp add: keeps_def ret_def)

lemma keeps_throw: "E e \<Longrightarrow> keeps I (throw e) Q E"
  by (simp add: keeps_def throw_def)

lemma keeps_bnd [prog]:
  "keeps I p P E \<Longrightarrow> (\<And>x. P x \<Longrightarrow> keeps I (f x) Q E) \<Longrightarrow> keeps I (bnd p f) Q E"
proof -
  assume p: "keeps I p P E" and f: "\<And>x. P x \<Longrightarrow> keeps I (f x) Q E"
  show ?thesis
    unfolding keeps_def
  proof (intro allI impI)
    fix s assume s: "I s"
    show "case bnd p f s of Inl e \<Rightarrow> E e | Inr (x, t) \<Rightarrow> I t \<and> Q x"
    proof (cases "p s")
      case (Inl e)
      then show ?thesis using p s by (auto simp: keeps_def bnd_def dest: spec [of _ s])
    next
      case (Inr r)
      obtain x t where r: "r = (x, t)" by (cases r)
      have "I t \<and> P x" using p s Inr r by (auto simp: keeps_def dest: spec [of _ s])
      then show ?thesis using f Inr r by (auto simp: keeps_def bnd_def)
    qed
  qed
qed

lemma keeps_check [prog]: "b \<Longrightarrow> keeps I (check b e) (\<lambda>_. True) E"
  by (simp add: keeps_def ret_def)

lemma keeps_conseq:
  "keeps I p P F \<Longrightarrow> (\<And>x. P x \<Longrightarrow> Q x) \<Longrightarrow> (\<And>e. F e \<Longrightarrow> E e) \<Longrightarrow> keeps I p Q E"
proof -
  assume p: "keeps I p P F" and q: "\<And>x. P x \<Longrightarrow> Q x" and e: "\<And>e. F e \<Longrightarrow> E e"
  show ?thesis
    unfolding keeps_def
  proof (intro allI impI)
    fix s assume "I s"
    then have "case p s of Inl e \<Rightarrow> F e | Inr (x, t) \<Rightarrow> I t \<and> P x"
      using p by (simp add: keeps_def)
    then show "case p s of Inl e \<Rightarrow> E e | Inr (x, t) \<Rightarrow> I t \<and> Q x"
      using q e by (auto split: sum.splits prod.splits)
  qed
qed

lemma runs_keeps: "runs I p Q \<Longrightarrow> keeps I p Q E"
  by (erule keeps_conseq) auto

lemma runs_post: "keeps I p P E \<Longrightarrow> (\<And>x. P x \<Longrightarrow> Q x) \<Longrightarrow> keeps I p Q E"
  by (erule keeps_conseq) auto

lemma keeps_mapM:
  assumes "\<And>x. x \<in> set xs \<Longrightarrow> keeps I (f x) (R x) E"
  shows "keeps I (mapM f xs) (\<lambda>ys. list_all2 R xs ys) E"
  using assms
proof (induction xs)
  case Nil
  then show ?case by (simp add: keeps_ret)
next
  case (Cons x xs)
  have "keeps I (f x) (R x) E" "keeps I (mapM f xs) (\<lambda>ys. list_all2 R xs ys) E"
    using Cons by auto
  then show ?case by (auto intro!: keeps_bnd keeps_ret)
qed

lemma keeps_foldM_upt:
  assumes "\<And>i acc. a \<le> i \<Longrightarrow> i < b \<Longrightarrow> J i acc \<Longrightarrow> keeps I (f i acc) (J (Suc i)) E"
    and "a \<le> b" "J a acc"
  shows "keeps I (foldM f [a..<b] acc) (J b) E"
  using assms
proof (induction "b - a" arbitrary: a acc)
  case 0
  then show ?case by (simp add: keeps_ret)
next
  case (Suc n)
  then have a: "a < b" "[a..<b] = a # [Suc a..<b]" by (simp_all add: upt_conv_Cons)
  have k: "keeps I (f a acc) (J (Suc a)) E" using Suc.prems a by simp
  have "keeps I (foldM f [Suc a..<b] acc') (J b) E" if "J (Suc a) acc'" for acc'
    by (rule Suc.hyps(1)) (use Suc.hyps(2) Suc.prems(1) a that in auto)
  then show ?case unfolding a(2) foldM.simps by (rule keeps_bnd [OF k])
qed

lemma mapM_ret: "(\<And>x. x \<in> set xs \<Longrightarrow> f x = ret (g x)) \<Longrightarrow> mapM f xs = ret (map g xs)"
  by (induction xs) auto

lemma runs_returns:
  "runs I p Q \<Longrightarrow> I s \<Longrightarrow> \<exists>x t. p s = Inr (x, t) \<and> I t \<and> Q x"
  by (cases "p s") (auto simp: keeps_def dest: spec [of _ s])

lemma keeps_stateI:
  assumes "\<And>s. I s \<Longrightarrow> \<exists>x t. p s = Inr (x, t) \<and> I t \<and> Q x"
  shows "keeps I p Q E"
  unfolding keeps_def
proof (intro allI impI)
  fix s assume "I s"
  then obtain x t where "p s = Inr (x, t)" "I t" "Q x" using assms by blast
  then show "case p s of Inl e \<Rightarrow> E e | Inr (x, t) \<Rightarrow> I t \<and> Q x" by simp
qed

lemma keeps_throws:
  "keeps I p (\<lambda>_. False) E \<Longrightarrow> I s \<Longrightarrow> \<exists>e. p s = Inl e \<and> E e"
  by (cases "p s") (auto simp: keeps_def dest: spec [of _ s])

section \<open>Residues\<close>

named_theorems cong_intros \<open>congruences of sums and products modulo the prime\<close>

lemma mod_add_congI: "(a::int) mod p = a' mod p \<Longrightarrow> b mod p = b' mod p \<Longrightarrow> (a + b) mod p = (a' + b') mod p"
  by (rule mod_add_cong)

lemma mod_sum_list_map2_add:
  fixes xs ys :: "int list"
  assumes "length xs = length ys"
    and "\<And>x y. f x y mod p = (x + y) mod p"
  shows "sum_list (map2 f xs ys) mod p = (sum_list xs + sum_list ys) mod p"
  using assms(1)
proof (induction xs ys rule: list_induct2)
  case Nil
  then show ?case by simp
next
  case (Cons x xs y ys)
  have "sum_list (map2 f (x # xs) (y # ys)) mod p = (f x y mod p + sum_list (map2 f xs ys) mod p) mod p"
    by (simp add: mod_simps)
  also have "\<dots> = ((x + y) mod p + (sum_list xs + sum_list ys) mod p) mod p"
    by (simp only: assms(2) Cons.IH)
  also have "\<dots> = ((x + y) + (sum_list xs + sum_list ys)) mod p"
    by (rule mod_add_eq)
  also have "\<dots> = (sum_list (x # xs) + sum_list (y # ys)) mod p"
    by (simp add: algebra_simps)
  finally show ?case .
qed

lemma mod_sum_list_map:
  fixes xs :: "int list"
  assumes "\<And>x. f x mod p = (x * k) mod p"
  shows "sum_list (map f xs) mod p = (sum_list xs * k) mod p"
proof (induction xs)
  case Nil
  then show ?case by simp
next
  case (Cons x xs)
  have "sum_list (map f (x # xs)) mod p = (f x mod p + sum_list (map f xs) mod p) mod p"
    by (simp add: mod_simps)
  also have "\<dots> = (x * k + sum_list xs * k) mod p"
    by (simp only: assms Cons.IH mod_add_eq)
  also have "\<dots> = (sum_list (x # xs) * k) mod p"
    by (simp add: algebra_simps)
  finally show ?case .
qed

section \<open>Primes\<close>

definition prime_int :: "int \<Rightarrow> bool" where
  "prime_int p \<longleftrightarrow> 1 < p \<and> (\<forall>d \<in> {2..<p}. \<not> d dvd p)"

lemma prime_int_coprime:
  assumes "prime_int p" "0 < x" "x < p"
  shows "coprime x p"
proof -
  have "gcd x p \<le> x" using assms(2) by (simp add: zdvd_imp_le)
  moreover have "0 < gcd x p" using assms(2) by simp
  moreover have "gcd x p dvd p" by simp
  ultimately have "\<not> 2 \<le> gcd x p" using assms unfolding prime_int_def
    by (metis atLeastLessThan_iff le_less_trans)
  then have "gcd x p = 1" using \<open>0 < gcd x p\<close> by linarith
  then show ?thesis by (simp add: coprime_iff_gcd_eq_1)
qed

lemma prime_int_mult:
  assumes "prime_int p" "(x * y) mod p = 0"
  shows "x mod p = 0 \<or> y mod p = 0"
proof (rule disjCI)
  assume y: "y mod p \<noteq> 0"
  have "1 < p" using assms(1) by (simp add: prime_int_def)
  then have "0 \<le> y mod p" "y mod p < p" by simp_all
  then have "0 < y mod p" "y mod p < p" using y by linarith+
  then have "coprime (y mod p) p" using assms(1) by (intro prime_int_coprime)
  then have "coprime y p" using gcd_red_int [of y p] by (simp add: coprime_iff_gcd_eq_1 gcd.commute)
  moreover have "p dvd x * y" using assms(2) by (simp add: dvd_eq_mod_eq_0)
  ultimately show "x mod p = 0"
    by (simp add: coprime_commute coprime_dvd_mult_left_iff dvd_eq_mod_eq_0 [symmetric])
qed

section \<open>Bits of an integer\<close>

text \<open>The number a list of bits stands for, least significant first.\<close>

fun bits_value :: "int list \<Rightarrow> int" where
  "bits_value [] = 0"
| "bits_value (b # bs) = b + 2 * bits_value bs"

definition is_bits :: "int list \<Rightarrow> bool" where
  "is_bits bs \<longleftrightarrow> (\<forall>b \<in> set bs. b = 0 \<or> b = 1)"

lemma is_bits_simps [simp]:
  "is_bits []" "is_bits (b # bs) \<longleftrightarrow> (b = 0 \<or> b = 1) \<and> is_bits bs"
  "is_bits (xs @ ys) \<longleftrightarrow> is_bits xs \<and> is_bits ys"
  by (auto simp: is_bits_def)

lemma bits_value_append: "bits_value (xs @ ys) = bits_value xs + 2 ^ length xs * bits_value ys"
  by (induction xs) (auto simp: algebra_simps)

lemma bits_value_bounds: "is_bits bs \<Longrightarrow> 0 \<le> bits_value bs \<and> bits_value bs < 2 ^ length bs"
  by (induction bs) auto

text \<open>The low \<open>k\<close> bits of a number.\<close>

definition int_bits :: "nat \<Rightarrow> int \<Rightarrow> int list" where
  "int_bits k x = map (\<lambda>i. (x div 2 ^ i) mod 2) [0..<k]"

lemma length_int_bits [simp]: "length (int_bits k x) = k"
  by (simp add: int_bits_def)

lemma int_bits_nth [simp]: "i < k \<Longrightarrow> int_bits k x ! i = (x div 2 ^ i) mod 2"
  by (simp add: int_bits_def)

lemma is_bits_int_bits [simp]: "is_bits (int_bits k x)"
  by (auto simp: is_bits_def int_bits_def)

lemma int_bits_Suc: "int_bits (Suc k) x = (x mod 2) # int_bits k (x div 2)"
  unfolding int_bits_def
  by (simp add: map_upt_Suc zdiv_zmult2_eq [symmetric] del: upt_Suc)

lemma bits_value_int_bits: "bits_value (int_bits k x) = x mod 2 ^ k"
proof (induction k arbitrary: x)
  case 0
  then show ?case by (simp add: int_bits_def)
next
  case (Suc k)
  have "bits_value (int_bits (Suc k) x) = x mod 2 + 2 * ((x div 2) mod 2 ^ k)"
    by (simp add: int_bits_Suc Suc.IH)
  also have "\<dots> = x mod (2 * 2 ^ k)"
    using zmod_zmult2_eq [of "2 ^ k" x 2] by simp
  finally show ?case by simp
qed

lemma bits_value_inj:
  "length xs = length ys \<Longrightarrow> is_bits xs \<Longrightarrow> is_bits ys \<Longrightarrow> bits_value xs = bits_value ys \<Longrightarrow> xs = ys"
proof (induction xs ys rule: list_induct2)
  case Nil
  then show ?case by simp
next
  case (Cons x xs y ys)
  from Cons.prems have "x = 0 \<or> x = 1" "y = 0 \<or> y = 1"
    "x + 2 * bits_value xs = y + 2 * bits_value ys" by simp_all
  then have "x = y \<and> bits_value xs = bits_value ys" by presburger
  then show ?case using Cons by simp
qed

end
