(* ===== verification/Gfp.thy ===== *)
theory Gfp
  imports Prelude
begin

text \<open>
  The prime field: \<open>gfp_\<close> of \<open>Math/gfp.h\<close> and \<open>Math/gfp.hpp\<close> over the routines of
  \<open>Math/modp.hpp\<close> and \<open>Math/Zp_Data.h\<close>. An element is modelled by the integer it stands
  for, in the range \<open>0 \<le> x < p\<close>; \<open>p\<close> is \<open>gfp_::pr()\<close>. Addition, subtraction, negation and
  conversion are written with the comparison or borrow the code uses, and proved to be
  arithmetic modulo \<open>p\<close>. Multiplication is the product of the represented values (the routines on limbs behind it are verified to refine it in the theory \<open>Refine\<close>). GMP's extended gcd and Legendre symbol
  are not part of the repository: they are parameters.
\<close>

section \<open>Addition, subtraction, negation\<close>

text \<open>\<open>Zp_Data::Add\<close>: the sum, less the modulus when it carries or reaches it.\<close>

definition gf_add :: "int \<Rightarrow> int \<Rightarrow> int \<Rightarrow> int" where
  "gf_add p x y = (let s = x + y in if p \<le> s then s - p else s)"

text \<open>\<open>Zp_Data::Sub\<close>: the difference, plus the modulus when it borrows.\<close>

definition gf_sub :: "int \<Rightarrow> int \<Rightarrow> int \<Rightarrow> int" where
  "gf_sub p x y = (if x < y then x - y + p else x - y)"

text \<open>\<open>Negate\<close> of \<open>Math/modp.hpp\<close>.\<close>

definition gf_neg :: "int \<Rightarrow> int \<Rightarrow> int" where
  "gf_neg p x = (if x = 0 then x else p - x)"

definition gf_mul :: "int \<Rightarrow> int \<Rightarrow> int \<Rightarrow> int" where
  "gf_mul p x y = (x * y) mod p"

definition in_field :: "int \<Rightarrow> int \<Rightarrow> bool" where
  "in_field p x \<longleftrightarrow> 0 \<le> x \<and> x < p"

named_theorems gf_cong \<open>the field operations modulo the prime\<close>

lemma gf_add_cong [gf_cong]: "gf_add p x y mod p = (x + y) mod p"
  by (simp add: gf_add_def Let_def minus_mod_self2)

lemma gf_sub_cong [gf_cong]: "gf_sub p x y mod p = (x - y) mod p"
  by (simp add: gf_sub_def)

lemma gf_neg_cong [gf_cong]: "gf_neg p x mod p = (- x) mod p"
  by (simp add: gf_neg_def)

lemma gf_mul_cong [gf_cong]: "gf_mul p x y mod p = (x * y) mod p"
  by (simp add: gf_mul_def)

lemma in_field_add [intro]: "in_field p x \<Longrightarrow> in_field p y \<Longrightarrow> in_field p (gf_add p x y)"
  by (auto simp: in_field_def gf_add_def Let_def)

lemma in_field_sub [intro]: "in_field p x \<Longrightarrow> in_field p y \<Longrightarrow> in_field p (gf_sub p x y)"
  by (auto simp: in_field_def gf_sub_def)

lemma in_field_neg [intro]: "in_field p x \<Longrightarrow> in_field p (gf_neg p x)"
  by (auto simp: in_field_def gf_neg_def)

lemma in_field_mul [intro]: "0 < p \<Longrightarrow> in_field p (gf_mul p x y)"
  by (auto simp: in_field_def gf_mul_def)

lemma in_field_mod [intro]: "0 < p \<Longrightarrow> in_field p (x mod p)"
  by (auto simp: in_field_def)

lemma in_field_id: "in_field p x \<Longrightarrow> x mod p = x"
  by (auto simp: in_field_def)

lemma gf_add_eq: "in_field p x \<Longrightarrow> in_field p y \<Longrightarrow> gf_add p x y = (x + y) mod p"
  using gf_add_cong in_field_id in_field_add by metis

lemma gf_sub_eq: "in_field p x \<Longrightarrow> in_field p y \<Longrightarrow> gf_sub p x y = (x - y) mod p"
  using gf_sub_cong in_field_id in_field_sub by metis

section \<open>Conversion\<close>

text \<open>C++'s remainder of \<open>mpz_class\<close> truncates: its sign is that of the dividend.\<close>

definition tdiv_r :: "int \<Rightarrow> int \<Rightarrow> int" where
  "tdiv_r x p = sgn x * (\<bar>x\<bar> mod \<bar>p\<bar>)"

text \<open>\<open>modp_::convert\<close>: the limbs of \<open>|x|\<close>, taken from \<open>p\<close> when \<open>x\<close> is negative.\<close>

definition gf_convert :: "int \<Rightarrow> int \<Rightarrow> bool \<Rightarrow> int" where
  "gf_convert p src negative = (if negative then p - src else src)"

definition convert_destroy :: "int \<Rightarrow> int \<Rightarrow> int" where
  "convert_destroy p x = (let xx = tdiv_r x p in gf_convert p \<bar>xx\<bar> (xx < 0))"

text \<open>\<open>to_modp\<close> of a big integer, which is also \<open>to_gfp\<close> and the constructor of \<open>gfp_\<close>.\<close>

definition to_gfp :: "int \<Rightarrow> int \<Rightarrow> int" where
  "to_gfp p x = (if x = 0 then 0 else if x = 1 then 1 else convert_destroy p x)"

lemma tdiv_r_cong: "tdiv_r x p mod p = x mod p"
proof (cases "0 \<le> x")
  case True
  have "(x mod \<bar>p\<bar>) mod p = x mod p" by (simp add: mod_mod_cancel)
  with True show ?thesis by (auto simp: tdiv_r_def sgn_if)
next
  case False
  have "(- (- x mod \<bar>p\<bar>)) mod p = (- ((- x mod \<bar>p\<bar>) mod p)) mod p"
    by (simp add: mod_minus_eq)
  also have "(- x mod \<bar>p\<bar>) mod p = - x mod p" by (simp add: mod_mod_cancel)
  also have "(- (- x mod p)) mod p = x mod p" by (simp add: mod_minus_eq)
  finally show ?thesis using False by (auto simp: tdiv_r_def sgn_if)
qed

lemma tdiv_r_bound: "0 < p \<Longrightarrow> \<bar>tdiv_r x p\<bar> < p"
  by (auto simp: tdiv_r_def sgn_if abs_mult)

lemma to_gfp_mod:
  assumes "1 < p"
  shows "to_gfp p x = x mod p"
proof -
  have b: "\<bar>tdiv_r x p\<bar> < p" using assms by (simp add: tdiv_r_bound)
  have "convert_destroy p x = tdiv_r x p mod p"
  proof (cases "tdiv_r x p < 0")
    case True
    then have "tdiv_r x p mod p = (tdiv_r x p + p) mod p" by simp
    also have "\<dots> = tdiv_r x p + p" using True b by (intro mod_pos_pos_trivial) auto
    finally show ?thesis using True by (simp add: convert_destroy_def gf_convert_def Let_def)
  next
    case False
    then show ?thesis using b by (simp add: convert_destroy_def gf_convert_def Let_def)
  qed
  then show ?thesis using assms by (simp add: to_gfp_def tdiv_r_cong)
qed

section \<open>Inversion\<close>

text \<open>
  \<open>Inv\<close> of \<open>Math/modp.hpp\<close>: \<open>mpn_gcdext\<close> gives the gcd and a cofactor \<open>s\<close> of \<open>x\<close>; a
  negative cofactor is taken from the modulus. \<open>gcdext\<close> is a parameter, and
  \<open>gcdext_spec\<close> is what GMP documents of it: \<open>g = gcd x p = s x + t p\<close>, with \<open>s\<close> in range.
\<close>

definition gf_inv :: "(int \<Rightarrow> int \<Rightarrow> int \<times> int) \<Rightarrow> int \<Rightarrow> int \<Rightarrow> int" where
  "gf_inv gcdext p x = (let (g, s) = gcdext x p in if s < 0 then p - \<bar>s\<bar> else s)"

definition gcdext_spec :: "(int \<Rightarrow> int \<Rightarrow> int \<times> int) \<Rightarrow> bool" where
  "gcdext_spec f \<longleftrightarrow>
     (\<forall>x p. 0 < x \<longrightarrow> x < p \<longrightarrow>
        fst (f x p) = gcd x p \<and> \<bar>snd (f x p)\<bar> < p \<and> (snd (f x p) * x) mod p = gcd x p mod p)"

lemma gf_inv_cong:
  assumes "gcdext_spec f" "0 < x" "x < p" "coprime x p"
  shows "(gf_inv f p x * x) mod p = 1 mod p" and "in_field p (gf_inv f p x)"
proof -
  obtain g s where gs: "f x p = (g, s)" by (cases "f x p")
  have "\<bar>snd (f x p)\<bar> < p \<and> (snd (f x p) * x) mod p = gcd x p mod p"
    using assms(1-3) unfolding gcdext_spec_def by blast
  moreover have "gcd x p = 1" using assms(4) by (simp add: coprime_iff_gcd_eq_1)
  ultimately have s: "\<bar>s\<bar> < p" "(s * x) mod p = 1 mod p" using gs by simp_all
  have "((p + s) * x) mod p = 1 mod p"
    using s(2) by (simp add: distrib_right mod_simps)
  then show "(gf_inv f p x * x) mod p = 1 mod p" "in_field p (gf_inv f p x)"
    using gs s by (auto simp: gf_inv_def in_field_def)
qed

section \<open>Powers of two and bit operations\<close>

text \<open>\<open>gfp_::operator&\<close>: through big integers.\<close>

definition gf_and :: "int \<Rightarrow> int \<Rightarrow> int \<Rightarrow> int" where
  "gf_and p x y = to_gfp p (Bit_Operations.and x y)"

text \<open>\<open>gfp_::operator>>(int)\<close>, with its two shortcuts.\<close>

definition gf_shr :: "int \<Rightarrow> int \<Rightarrow> nat \<Rightarrow> int" where
  "gf_shr p x n = (if x \<noteq> 0 then if n \<noteq> 0 then to_gfp p (x div 2 ^ n) else x else 0)"

text \<open>\<open>gfp_::power_of_two\<close> fills a table of powers as far as needed, then looks one up.\<close>

fun fill_powers :: "int \<Rightarrow> nat \<Rightarrow> int list \<Rightarrow> int list" where
  "fill_powers p 0 powers = powers"
| "fill_powers p (Suc k) powers = fill_powers p k (powers @ [to_gfp p (2 ^ length powers)])"

definition power_of_two :: "int \<Rightarrow> int list \<Rightarrow> bool \<Rightarrow> nat \<Rightarrow> int \<times> int list" where
  "power_of_two p powers flag ex =
     (if flag then
        let powers' = fill_powers p (Suc ex - length powers) powers in (powers' ! ex, powers')
      else (0, powers))"

definition powers_inv :: "int \<Rightarrow> int list \<Rightarrow> bool" where
  "powers_inv p powers \<longleftrightarrow> (\<forall>i < length powers. powers ! i = 2 ^ i mod p)"

lemma powers_inv_snoc: "1 < p \<Longrightarrow> powers_inv p ps \<Longrightarrow> powers_inv p (ps @ [to_gfp p (2 ^ length ps)])"
  by (auto simp: powers_inv_def nth_append to_gfp_mod less_Suc_eq)

lemma fill_powers_inv:
  "1 < p \<Longrightarrow> powers_inv p ps \<Longrightarrow>
     powers_inv p (fill_powers p k ps) \<and> length (fill_powers p k ps) = length ps + k"
  by (induction p k ps rule: fill_powers.induct) (auto simp: powers_inv_snoc)

lemma power_of_two_value:
  assumes "1 < p" "powers_inv p ps"
  shows "fst (power_of_two p ps True ex) = 2 ^ ex mod p" and "powers_inv p (snd (power_of_two p ps True ex))"
  using fill_powers_inv [OF assms, of "Suc ex - length ps"]
  by (auto simp: power_of_two_def Let_def powers_inv_def)

text \<open>\<open>gfp_::operator<<(int)\<close>, through that table.\<close>

definition gf_shl :: "int \<Rightarrow> int list \<Rightarrow> int \<Rightarrow> nat \<Rightarrow> int \<times> int list" where
  "gf_shl p powers x n =
     (if x \<noteq> 0 then
        if n \<noteq> 0 then let (t, powers') = power_of_two p powers True n in (gf_mul p x t, powers')
        else (x, powers)
      else (0, powers))"

lemma gf_shl_value:
  "1 < p \<Longrightarrow> powers_inv p ps \<Longrightarrow> in_field p x \<Longrightarrow> fst (gf_shl p ps x n) = (x * 2 ^ n) mod p"
  using power_of_two_value(1) [of p ps n]
  by (auto simp: gf_shl_def gf_mul_def in_field_id mod_simps split: prod.splits)

lemma gf_and_one: "1 < p \<Longrightarrow> gf_and p x 1 = x mod 2"
  by (simp add: gf_and_def to_gfp_mod and_one_eq)

lemma gf_shr_value: "1 < p \<Longrightarrow> in_field p x \<Longrightarrow> gf_shr p x n = x div 2 ^ n"
proof -
  assume "1 < p" "in_field p x"
  moreover have "0 \<le> x div 2 ^ n \<and> x div 2 ^ n \<le> x" if "0 \<le> x"
  proof -
    have "x div 2 ^ n \<le> x div 1" using that by (intro zdiv_mono2) auto
    then show ?thesis using that by (simp add: pos_imp_zdiv_nonneg_iff)
  qed
  ultimately show ?thesis by (auto simp: gf_shr_def to_gfp_mod in_field_def)
qed

section \<open>Exponentiation\<close>

text \<open>
  \<open>Power\<close> of \<open>Math/modp.hpp\<close>: square and multiply, with its shortcuts and its exception
  for a negative exponent.
\<close>

function power_loop :: "int \<Rightarrow> int \<Rightarrow> int \<Rightarrow> int \<Rightarrow> int" where
  "power_loop p ans t ex =
     (if ex \<le> 0 then ans
      else power_loop p (if ex mod 2 = 1 then gf_mul p ans t else ans) (gf_mul p t t) (ex div 2))"
  by pat_completeness auto
termination
  by (relation "measure (\<lambda>(p, ans, t, ex). nat ex)") auto

declare power_loop.simps [simp del]

definition Power :: "int \<Rightarrow> int \<Rightarrow> int \<Rightarrow> err + int" where
  "Power p x ex =
     (if ex = 1 then Inr x
      else if ex = 0 then Inr 1
      else if ex < 0 then Inl Not_implemented
      else Inr (power_loop p 1 x ex))"

lemma power_loop_value: "0 \<le> ex \<Longrightarrow> power_loop p ans t ex mod p = (ans * t ^ nat ex) mod p"
proof (induction p ans t ex rule: power_loop.induct)
  case (1 p ans t ex)
  show ?case
  proof (cases "ex \<le> 0")
    case True
    with 1 show ?thesis by (simp add: power_loop.simps)
  next
    case False
    let ?a = "if ex mod 2 = 1 then gf_mul p ans t else ans"
    have ne: "nat ex = nat (ex mod 2) + 2 * nat (ex div 2)"
      using False by (simp add: nat_mod_distrib nat_div_distrib)
    have p: "t ^ nat ex = t ^ nat (ex mod 2) * (t * t) ^ nat (ex div 2)"
      by (subst ne) (simp only: power_add power_mult power2_eq_square)
    have a: "?a mod p = (ans * t ^ nat (ex mod 2)) mod p"
      by (auto simp: gf_mul_def mod_2_eq_odd)
    have "power_loop p ans t ex mod p = (?a * gf_mul p t t ^ nat (ex div 2)) mod p"
      using 1 False by (simp add: power_loop.simps [of p ans t ex])
    also have "\<dots> = ((?a mod p) * (gf_mul p t t ^ nat (ex div 2) mod p)) mod p"
      by (rule mod_mult_eq [symmetric])
    also have "\<dots> = ((ans * t ^ nat (ex mod 2)) mod p * ((t * t) ^ nat (ex div 2) mod p)) mod p"
      by (subst a) (simp only: gf_mul_def power_mod)
    also have "\<dots> = (ans * t ^ nat ex) mod p"
      by (simp only: mod_mult_eq p mult.assoc)
    finally show ?thesis .
  qed
qed

lemma power_loop_range:
  "0 < p \<Longrightarrow> in_field p ans \<Longrightarrow> in_field p (power_loop p ans t ex)"
proof (induction p ans t ex rule: power_loop.induct)
  case (1 p ans t ex)
  let ?a = "if ex mod 2 = 1 then gf_mul p ans t else ans"
  have "in_field p ?a" using 1 by auto
  then show ?case using 1 by (subst power_loop.simps) simp
qed

text \<open>
  \<open>OnlineOp::power\<close> of \<open>POC/OnlineOp.hpp\<close>: repeated multiplication of a clear value. The
  exponent 0 sets the value to 0 and the loop does not run.
\<close>

fun mul_times :: "int \<Rightarrow> nat \<Rightarrow> int \<Rightarrow> int \<Rightarrow> int" where
  "mul_times p 0 a tmp = a"
| "mul_times p (Suc k) a tmp = mul_times p k (gf_mul p a tmp) tmp"

definition power_clear :: "int \<Rightarrow> int \<Rightarrow> int \<Rightarrow> int" where
  "power_clear p a ex =
     (let a' = (if ex = 0 then to_gfp p 0 else a) in mul_times p (nat (ex - 1)) a' a')"

lemma mul_times_value: "mul_times p k a t mod p = (a * t ^ k) mod p"
  by (induction p k a t rule: mul_times.induct)
    (simp_all add: gf_mul_def mod_simps algebra_simps)

lemma mul_times_range: "0 < p \<Longrightarrow> in_field p a \<Longrightarrow> in_field p (mul_times p k a t)"
  by (induction p k a t rule: mul_times.induct) auto

lemma power_clear_value:
  assumes "1 < p" "in_field p a" "0 < ex"
  shows "power_clear p a ex = a ^ nat ex mod p"
proof -
  have e: "nat ex = Suc (nat (ex - 1))" using assms by simp
  have "power_clear p a ex mod p = a ^ nat ex mod p"
    unfolding e using assms(3) by (simp add: power_clear_def mul_times_value)
  moreover have "in_field p (power_clear p a ex)"
    using assms by (auto simp: power_clear_def intro: mul_times_range)
  ultimately show ?thesis by (simp add: in_field_id)
qed

end
