(* ===== verification/Shares.thy ===== *)
theory Shares
  imports Gfp
begin

text \<open>
  Authenticated shares: \<open>Share_\<close> of \<open>Protocols/Share.h\<close>, \<open>SemiShare\<close> and \<open>SPDZ::assign\<close>.
  A \<open>share\<close> is what one party holds. All parties run the same code on their own share, so
  the joint state of a shared value is the list of the parties' shares (\<open>jshare\<close>, party
  \<open>i\<close> at index \<open>i\<close>), and a local operation of the code is the same operation at every
  party. \<open>sh c S x\<close> says that \<open>S\<close> is a valid authenticated sharing of the residue of \<open>x\<close>.
\<close>

section \<open>One party's share\<close>

record share =
  share_a :: int
  share_mac :: int

definition assign_zero :: share where
  "assign_zero = \<lparr>share_a = 0, share_mac = 0\<rparr>"

text \<open>\<open>SPDZ::assign\<close>: only party 0 holds the public value.\<close>

definition spdz_assign :: "int \<Rightarrow> nat \<Rightarrow> int" where
  "spdz_assign clear my_num = (if my_num = 0 then clear else 0)"

definition share_constant :: "int \<Rightarrow> int \<Rightarrow> nat \<Rightarrow> int \<Rightarrow> share" where
  "share_constant p aa my_num alphai =
     \<lparr>share_a = spdz_assign aa my_num, share_mac = gf_mul p aa alphai\<rparr>"

definition share_add :: "int \<Rightarrow> share \<Rightarrow> share \<Rightarrow> share" where
  "share_add p S1 S2 =
     \<lparr>share_a = gf_add p (share_a S1) (share_a S2), share_mac = gf_add p (share_mac S1) (share_mac S2)\<rparr>"

definition share_sub :: "int \<Rightarrow> share \<Rightarrow> share \<Rightarrow> share" where
  "share_sub p S1 S2 =
     \<lparr>share_a = gf_sub p (share_a S1) (share_a S2), share_mac = gf_sub p (share_mac S1) (share_mac S2)\<rparr>"

definition share_mul :: "int \<Rightarrow> share \<Rightarrow> int \<Rightarrow> share" where
  "share_mul p S aa =
     \<lparr>share_a = gf_mul p (share_a S) aa, share_mac = gf_mul p aa (share_mac S)\<rparr>"

definition share_in_field :: "int \<Rightarrow> share \<Rightarrow> bool" where
  "share_in_field p S \<longleftrightarrow> in_field p (share_a S) \<and> in_field p (share_mac S)"

section \<open>The parties together\<close>

type_synonym jshare = "share list"

text \<open>
  What is fixed during a run: the prime, each party's MAC key share (\<open>MC.get_alphai()\<close>),
  the routines of GMP the code calls, and the sources of preprocessing and of coins.
  \<open>triple_gen k\<close>, \<open>bit_gen k\<close> and \<open>input_gen i k\<close> are the batches the \<open>k\<close>-th refill of a
  buffer produces (for bits, triples and the inputs of player \<open>i\<close>); \<open>mc_coin k j\<close> is the
  \<open>j\<close>-th coefficient drawn from the common seed of the \<open>k\<close>-th MAC check.
\<close>

record ctx =
  pr :: int
  alphas :: "int list"
  gcdext :: "int \<Rightarrow> int \<Rightarrow> int \<times> int"
  legendre_sym :: "int \<Rightarrow> int \<Rightarrow> int"
  triple_gen :: "nat \<Rightarrow> (jshare \<times> jshare \<times> jshare) list"
  bit_gen :: "nat \<Rightarrow> jshare list"
  input_gen :: "nat \<Rightarrow> nat \<Rightarrow> (jshare \<times> int) list"
  mc_coin :: "nat \<Rightarrow> nat \<Rightarrow> int"
  buffer_size :: nat

definition num_players :: "ctx \<Rightarrow> nat" where
  "num_players c = length (alphas c)"

definition alpha :: "ctx \<Rightarrow> int" where
  "alpha c = sum_list (alphas c)"

definition wf_field :: "ctx \<Rightarrow> bool" where
  "wf_field c \<longleftrightarrow> 1 < pr c \<and> alphas c \<noteq> [] \<and> (\<forall>a \<in> set (alphas c). in_field (pr c) a)"

definition j_zero :: "ctx \<Rightarrow> jshare" where
  "j_zero c = replicate (num_players c) assign_zero"

definition j_constant :: "ctx \<Rightarrow> int \<Rightarrow> jshare" where
  "j_constant c aa =
     map (\<lambda>i. share_constant (pr c) aa i (alphas c ! i)) [0..<num_players c]"

definition j_add :: "ctx \<Rightarrow> jshare \<Rightarrow> jshare \<Rightarrow> jshare" where
  "j_add c S T = map2 (share_add (pr c)) S T"

definition j_sub :: "ctx \<Rightarrow> jshare \<Rightarrow> jshare \<Rightarrow> jshare" where
  "j_sub c S T = map2 (share_sub (pr c)) S T"

definition j_mul :: "ctx \<Rightarrow> jshare \<Rightarrow> int \<Rightarrow> jshare" where
  "j_mul c S aa = map (\<lambda>s. share_mul (pr c) s aa) S"

section \<open>What a sharing stands for\<close>

definition sh :: "ctx \<Rightarrow> jshare \<Rightarrow> int \<Rightarrow> bool" where
  "sh c S x \<longleftrightarrow>
     length S = num_players c \<and> (\<forall>s \<in> set S. share_in_field (pr c) s) \<and>
     sum_list (map share_a S) mod pr c = x mod pr c \<and>
     sum_list (map share_mac S) mod pr c = (alpha c * x) mod pr c"

lemma sh_length: "sh c S x \<Longrightarrow> length S = num_players c"
  by (simp add: sh_def)

lemma sh_cong: "sh c S x \<Longrightarrow> x mod pr c = y mod pr c \<Longrightarrow> sh c S y"
  unfolding sh_def by (metis mod_mult_right_eq)

lemma sh_unique: "sh c S x \<Longrightarrow> sh c S y \<Longrightarrow> x mod pr c = y mod pr c"
  by (simp add: sh_def)

lemma sh_eqI: "sh c S x \<Longrightarrow> x = y \<Longrightarrow> sh c S y"
  by simp

text \<open>Both components of a local operation are sums over the parties.\<close>

lemma sum_share_op:
  assumes "length S = length T"
    and "\<And>s t. g (op s t) = f (g s) (g t)"
    and "\<And>x y. f x y mod p = (x + y) mod p"
  shows "sum_list (map g (map2 op S T)) mod p = (sum_list (map g S) + sum_list (map g T)) mod (p :: int)"
proof -
  have "map g (map2 op S T) = map2 f (map g S) (map g T)"
    using assms(1) by (induction S T rule: list_induct2) (simp_all add: assms(2))
  then show ?thesis
    using assms(1,3) mod_sum_list_map2_add [of "map g S" "map g T" f p] by simp
qed

lemma sum_share_op_diff:
  assumes "length S = length T"
    and "\<And>s t. g (op s t) = f (g s) (g t)"
    and "\<And>x y. f x y mod p = (x - y) mod p"
  shows "sum_list (map g (map2 op S T)) mod p = (sum_list (map g S) - sum_list (map g T)) mod (p :: int)"
  using assms(1)
proof (induction S T rule: list_induct2)
  case Nil
  then show ?case by simp
next
  case (Cons s S t T)
  have "sum_list (map g (map2 op (s # S) (t # T))) mod p =
      (f (g s) (g t) mod p + sum_list (map g (map2 op S T)) mod p) mod p"
    by (simp add: assms(2) mod_simps)
  also have "\<dots> = ((g s - g t) + (sum_list (map g S) - sum_list (map g T))) mod p"
    by (simp only: assms(3) Cons.IH mod_add_eq)
  finally show ?case by (simp add: algebra_simps)
qed

lemma sh_add [prog]:
  assumes "sh c S x" "sh c T y"
  shows "sh c (j_add c S T) (x + y)"
proof -
  have len: "length S = length T" using assms by (simp add: sh_def)
  have a: "sum_list (map share_a (j_add c S T)) mod pr c = (x + y) mod pr c"
  proof -
    have "sum_list (map share_a (j_add c S T)) mod pr c =
        (sum_list (map share_a S) + sum_list (map share_a T)) mod pr c"
      unfolding j_add_def by (rule sum_share_op [OF len, where f = "gf_add (pr c)"])
        (simp_all add: share_add_def gf_add_cong)
    also have "\<dots> = (x + y) mod pr c"
      by (rule mod_add_cong) (use assms in \<open>simp_all add: sh_def\<close>)
    finally show ?thesis .
  qed
  have "sum_list (map share_mac (j_add c S T)) mod pr c = (alpha c * x + alpha c * y) mod pr c"
  proof -
    have "sum_list (map share_mac (j_add c S T)) mod pr c =
        (sum_list (map share_mac S) + sum_list (map share_mac T)) mod pr c"
      unfolding j_add_def by (rule sum_share_op [OF len, where f = "gf_add (pr c)"])
        (simp_all add: share_add_def gf_add_cong)
    also have "\<dots> = (alpha c * x + alpha c * y) mod pr c"
      by (rule mod_add_cong) (use assms in \<open>simp_all add: sh_def\<close>)
    finally show ?thesis .
  qed
  with a assms len show ?thesis
    by (auto simp: sh_def distrib_left j_add_def set_zip share_in_field_def share_add_def)
qed

lemma sh_sub [prog]:
  assumes "sh c S x" "sh c T y"
  shows "sh c (j_sub c S T) (x - y)"
proof -
  have len: "length S = length T" using assms by (simp add: sh_def)
  have a: "sum_list (map share_a (j_sub c S T)) mod pr c = (x - y) mod pr c"
  proof -
    have "sum_list (map share_a (j_sub c S T)) mod pr c =
        (sum_list (map share_a S) - sum_list (map share_a T)) mod pr c"
      unfolding j_sub_def by (rule sum_share_op_diff [OF len, where f = "gf_sub (pr c)"])
        (simp_all add: share_sub_def gf_sub_cong)
    also have "\<dots> = (x - y) mod pr c"
      by (rule mod_diff_cong) (use assms in \<open>simp_all add: sh_def\<close>)
    finally show ?thesis .
  qed
  have "sum_list (map share_mac (j_sub c S T)) mod pr c = (alpha c * x - alpha c * y) mod pr c"
  proof -
    have "sum_list (map share_mac (j_sub c S T)) mod pr c =
        (sum_list (map share_mac S) - sum_list (map share_mac T)) mod pr c"
      unfolding j_sub_def by (rule sum_share_op_diff [OF len, where f = "gf_sub (pr c)"])
        (simp_all add: share_sub_def gf_sub_cong)
    also have "\<dots> = (alpha c * x - alpha c * y) mod pr c"
      by (rule mod_diff_cong) (use assms in \<open>simp_all add: sh_def\<close>)
    finally show ?thesis .
  qed
  with a assms len show ?thesis
    by (auto simp: sh_def right_diff_distrib j_sub_def set_zip share_in_field_def share_sub_def)
qed

lemma sh_mul [prog]:
  assumes "wf_field c" "sh c S x"
  shows "sh c (j_mul c S k) (x * k)"
proof -
  have p: "0 < pr c" using assms by (simp add: wf_field_def)
  have "sum_list (map share_a (j_mul c S k)) = sum_list (map (\<lambda>z. gf_mul (pr c) z k) (map share_a S))"
    by (simp add: j_mul_def share_mul_def comp_def)
  then have a: "sum_list (map share_a (j_mul c S k)) mod pr c = (sum_list (map share_a S) * k) mod pr c"
    using mod_sum_list_map [of "\<lambda>z. gf_mul (pr c) z k" "pr c" k "map share_a S"] by (simp only: gf_mul_cong)
  have "sum_list (map share_mac (j_mul c S k)) = sum_list (map (\<lambda>z. gf_mul (pr c) k z) (map share_mac S))"
    by (simp add: j_mul_def share_mul_def comp_def)
  then have m: "sum_list (map share_mac (j_mul c S k)) mod pr c = (sum_list (map share_mac S) * k) mod pr c"
    using mod_sum_list_map [of "\<lambda>z. gf_mul (pr c) k z" "pr c" k "map share_mac S"]
    by (simp only: gf_mul_cong mult.commute)
  have "(sum_list (map share_a S) * k) mod pr c = (x * k) mod pr c"
    by (rule mod_mult_cong) (use assms(2) in \<open>simp_all add: sh_def\<close>)
  moreover have "(sum_list (map share_mac S) * k) mod pr c = ((alpha c * x) * k) mod pr c"
    by (rule mod_mult_cong) (use assms(2) in \<open>simp_all add: sh_def\<close>)
  ultimately have "sum_list (map share_a (j_mul c S k)) mod pr c = (x * k) mod pr c"
    "sum_list (map share_mac (j_mul c S k)) mod pr c = (alpha c * (x * k)) mod pr c"
    using a m by (simp_all only: mult.assoc)
  with assms p show ?thesis
    by (auto simp: sh_def j_mul_def share_in_field_def share_mul_def)
qed

lemma sum_spdz_assign:
  "0 < n \<Longrightarrow> sum_list (map (spdz_assign x) [0..<n]) = x"
proof (induction n)
  case (Suc n)
  then show ?case by (cases n) (auto simp: spdz_assign_def)
qed simp

lemma sh_constant [prog]:
  assumes "wf_field c" "in_field (pr c) k"
  shows "sh c (j_constant c k) k"
proof -
  let ?n = "num_players c"
  have n: "0 < ?n" "0 < pr c" using assms by (auto simp: wf_field_def num_players_def)
  have a: "sum_list (map share_a (j_constant c k)) = k"
    using sum_spdz_assign [OF n(1), of k] by (simp add: j_constant_def share_constant_def comp_def)
  have "map share_mac (j_constant c k) = map (\<lambda>z. gf_mul (pr c) k z) (alphas c)"
    by (rule nth_equalityI) (simp_all add: j_constant_def share_constant_def num_players_def)
  then have m: "sum_list (map share_mac (j_constant c k)) mod pr c = (alpha c * k) mod pr c"
    using mod_sum_list_map [of "\<lambda>z. gf_mul (pr c) k z" "pr c" k "alphas c"]
    by (simp add: gf_mul_cong alpha_def mult.commute)
  have "share_in_field (pr c) s" if "s \<in> set (j_constant c k)" for s
    using that assms n
    by (auto simp: j_constant_def share_constant_def share_in_field_def spdz_assign_def in_field_def gf_mul_def)
  with a m show ?thesis
    by (simp add: sh_def j_constant_def)
qed

lemma sh_zero [prog]: "wf_field c \<Longrightarrow> sh c (j_zero c) 0"
  by (auto simp: sh_def j_zero_def assign_zero_def share_in_field_def in_field_def wf_field_def
      sum_list_replicate)

end
