(* ===== verification/TreeSum.thy ===== *)
theory TreeSum
  imports Shares
begin

text \<open>
  The opening of shared values: \<open>TreeSum\<close> of \<open>Protocols/MAC_Check.h\<close>. The parties' value
  vectors are added up a tree of arity \<open>opening_sum\<close> towards the base player, who sends the
  totals down a tree of arity \<open>max_broadcast\<close>. A party's number relative to the base
  player decides what it does in each round. The model runs all parties of a round at
  once; \<open>vals ! i\<close> is the vector \<open>values\<close> of party \<open>i\<close>, and a message is the sender's vector.
\<close>

section \<open>Who talks to whom\<close>

text \<open>\<open>positive_modulo\<close> of \<open>Tools/int.h\<close>, with C++'s truncating remainder.\<close>

definition positive_modulo :: "int \<Rightarrow> int \<Rightarrow> int" where
  "positive_modulo i n = tdiv_r (tdiv_r i n + n) n"

definition rel_num :: "nat \<Rightarrow> nat \<Rightarrow> nat \<Rightarrow> nat" where
  "rel_num n base i = nat (positive_modulo (int i - int base) (int n))"

definition abs_num :: "nat \<Rightarrow> nat \<Rightarrow> nat \<Rightarrow> nat" where
  "abs_num n base r = nat (positive_modulo (int base + int r) (int n))"

text \<open>The next \<open>sum_players\<close> of the loop in \<open>TreeSum::start\<close>.\<close>

definition next_sum :: "nat \<Rightarrow> nat \<Rightarrow> nat" where
  "next_sum opening_sum sum_players = (sum_players + opening_sum - 2) div opening_sum"

text \<open>The relative senders that \<open>add_openings\<close> collects, from its first \<open>relative_sender\<close>.\<close>

function relative_senders :: "nat \<Rightarrow> nat \<Rightarrow> nat \<Rightarrow> nat list" where
  "relative_senders r sum_players last_sum_players =
     (if 0 < sum_players \<and> r < last_sum_players
      then r # relative_senders (r + sum_players) sum_players last_sum_players else [])"
  by pat_completeness auto
termination
  by (relation "measure (\<lambda>(r, s, l). l - r)") auto

declare relative_senders.simps [simp del]

text \<open>
  The broadcast tree: which relative numbers a party sends the totals to, and from which
  one it receives them.
\<close>

definition bcast_receivers :: "nat \<Rightarrow> nat \<Rightarrow> nat \<Rightarrow> nat list" where
  "bcast_receivers max_broadcast n r =
     (if r = 0 then filter (\<lambda>i. i < n) [1..<max_broadcast]
      else if r * max_broadcast < n
        then filter (\<lambda>i. i < n) (map (\<lambda>i. r * max_broadcast + i) [0..<max_broadcast])
      else [])"

definition bcast_sender :: "nat \<Rightarrow> nat \<Rightarrow> nat" where
  "bcast_sender max_broadcast r = r div max_broadcast"

section \<open>Adding up and sending down\<close>

text \<open>\<open>add_openings\<close>: each message must hold enough values; they are added in turn.\<close>

fun add_openings :: "int \<Rightarrow> int list \<Rightarrow> int list list \<Rightarrow> ('s, int list) m" where
  "add_openings p vs [] = ret vs"
| "add_openings p vs (msg # msgs) =
     (if length msg < length vs then throw (Processor_Error ''Not enough information received'')
      else add_openings p (map2 (gf_add p) vs msg) msgs)"

text \<open>
  One round: the parties below \<open>sum_players\<close> add what their senders hold, the others keep
  their values.
\<close>

definition sum_round :: "int \<Rightarrow> nat \<Rightarrow> nat \<Rightarrow> nat \<Rightarrow> nat \<Rightarrow> int list list \<Rightarrow> ('s, int list list) m" where
  "sum_round p n base sum_players last_sum_players vals =
     mapM (\<lambda>i. if rel_num n base i < sum_players
               then add_openings p (vals ! i)
                 (map (\<lambda>r. vals ! abs_num n base r)
                    (relative_senders (rel_num n base i + sum_players) sum_players last_sum_players))
               else ret (vals ! i)) [0..<n]"

text \<open>The loop of \<open>TreeSum::start\<close>; a zero arity divides by zero.\<close>

function tree_sums :: "int \<Rightarrow> nat \<Rightarrow> nat \<Rightarrow> nat \<Rightarrow> nat \<Rightarrow> int list list \<Rightarrow> ('s, int list list) m" where
  "tree_sums p n base opening_sum last_sum_players vals =
     (if opening_sum = 0 \<or> last_sum_players = 0 then throw Division_by_zero
      else if next_sum opening_sum last_sum_players = 0 then ret vals
      else bnd (sum_round p n base (next_sum opening_sum last_sum_players) last_sum_players vals)
             (tree_sums p n base opening_sum (next_sum opening_sum last_sum_players)))"
  by pat_completeness auto

lemma next_sum_less:
  assumes "0 < os" "0 < k"
  shows "next_sum os k < k"
proof -
  have "k + os - 2 < k * os"
  proof (cases "k = 1 \<or> os = 1")
    case True
    then show ?thesis using assms by auto
  next
    case False
    then have "2 \<le> k" "2 \<le> os" using assms by auto
    then obtain a b where "k = 2 + a" "os = 2 + b" by (auto simp: le_iff_add)
    then show ?thesis by (simp add: algebra_simps)
  qed
  then show ?thesis by (simp add: next_sum_def less_mult_imp_div_less)
qed

termination tree_sums
  by (relation "measure (\<lambda>(p, n, base, os, k, vals). k)") (auto intro: next_sum_less)

declare tree_sums.simps [simp del]

text \<open>
  What party with relative number \<open>r\<close> holds after the broadcast: the base player has its
  own totals, everyone else what its sender forwards. With an arity of 1 every other party
  would wait for itself.
\<close>

function bcast_values :: "nat \<Rightarrow> int list \<Rightarrow> nat \<Rightarrow> ('s, int list) m" where
  "bcast_values max_broadcast tot r =
     (if r = 0 then ret tot
      else if max_broadcast = 0 then throw Division_by_zero
      else if max_broadcast = 1 then throw Diverges
      else bcast_values max_broadcast tot (bcast_sender max_broadcast r))"
  by pat_completeness auto
termination
  by (relation "measure (\<lambda>(mb, t, r). r)") (auto simp: bcast_sender_def)

declare bcast_values.simps [simp del]

text \<open>\<open>TreeSum::run\<close>: \<open>start\<close> and \<open>finish\<close> at all parties.\<close>

definition tree_run ::
    "int \<Rightarrow> nat \<Rightarrow> nat \<Rightarrow> nat \<Rightarrow> nat \<Rightarrow> int list list \<Rightarrow> ('s, int list list) m" where
  "tree_run p n base opening_sum max_broadcast vals =
     bnd (tree_sums p n base opening_sum n vals) (\<lambda>sums.
     mapM (\<lambda>i. bcast_values max_broadcast (sums ! abs_num n base 0) (rel_num n base i)) [0..<n])"

section \<open>Facts on the numbering\<close>

lemma positive_modulo_mod:
  assumes "0 < n"
  shows "positive_modulo i n = i mod n"
proof -
  have b: "\<bar>tdiv_r i n\<bar> < n" using assms by (rule tdiv_r_bound)
  then have "positive_modulo i n = (tdiv_r i n + n) mod n"
    using assms by (simp add: positive_modulo_def tdiv_r_def [of "tdiv_r i n + n"] sgn_if)
  then show ?thesis by (simp add: tdiv_r_cong)
qed

lemma rel_num_less: "0 < n \<Longrightarrow> rel_num n base i < n"
  by (simp add: rel_num_def positive_modulo_mod nat_less_iff)

lemma abs_num_less: "0 < n \<Longrightarrow> abs_num n base r < n"
  by (simp add: abs_num_def positive_modulo_mod nat_less_iff)

lemma int_rel_num: "0 < n \<Longrightarrow> int (rel_num n base i) = (int i - int base) mod int n"
  by (simp add: rel_num_def positive_modulo_mod)

lemma int_abs_num: "0 < n \<Longrightarrow> int (abs_num n base r) = (int base + int r) mod int n"
  by (simp add: abs_num_def positive_modulo_mod)

lemma abs_rel:
  assumes "i < n"
  shows "abs_num n base (rel_num n base i) = i"
proof -
  have "int (abs_num n base (rel_num n base i)) = (int base + (int i - int base) mod int n) mod int n"
    using assms by (simp only: int_abs_num int_rel_num)
  also have "\<dots> = (int base + (int i - int base)) mod int n" by (rule mod_add_right_eq)
  finally show ?thesis using assms by simp
qed

lemma rel_abs:
  assumes "r < n"
  shows "rel_num n base (abs_num n base r) = r"
proof -
  have "int (rel_num n base (abs_num n base r)) = ((int base + int r) mod int n - int base) mod int n"
    using assms by (simp only: int_abs_num int_rel_num)
  also have "\<dots> = (int base + int r - int base) mod int n" by (rule mod_diff_left_eq)
  finally show ?thesis using assms by simp
qed

lemma set_relative_senders:
  "0 < s \<Longrightarrow> set (relative_senders r s l) = {j. r \<le> j \<and> j < l \<and> j mod s = r mod s}"
proof (induction r s l rule: relative_senders.induct)
  case (1 r s l)
  show ?case
  proof (cases "r < l")
    case True
    have "j = r \<or> r + s \<le> j" if "r \<le> j" "j mod s = r mod s" for j
    proof -
      have "s dvd j - r" using that mod_eq_dvd_iff_nat [of r j s] by simp
      then obtain q where q: "j - r = s * q" by (rule dvdE)
      show ?thesis
      proof (cases q)
        case 0
        then show ?thesis using that q by simp
      next
        case (Suc q')
        then have "s \<le> j - r" using q by simp
        then show ?thesis using that by linarith
      qed
    qed
    then show ?thesis using True 1 by (auto simp: relative_senders.simps [of r s l])
  next
    case False
    then show ?thesis by (auto simp: relative_senders.simps [of r s l])
  qed
qed

lemma distinct_relative_senders: "0 < s \<Longrightarrow> distinct (relative_senders r s l)"
proof (induction r s l rule: relative_senders.induct)
  case (1 r s l)
  then show ?case
    using set_relative_senders [of s "r + s" l]
    by (subst relative_senders.simps) auto
qed

section \<open>Every party obtains the sum\<close>

definition shaped :: "int \<Rightarrow> nat \<Rightarrow> nat \<Rightarrow> int list list \<Rightarrow> bool" where
  "shaped p n k vals \<longleftrightarrow>
     length vals = n \<and> (\<forall>v \<in> set vals. length v = k \<and> (\<forall>x \<in> set v. in_field p x))"

lemma shaped_nth: "shaped p n k vals \<Longrightarrow> i < n \<Longrightarrow> length (vals ! i) = k \<and> (\<forall>x \<in> set (vals ! i). in_field p x)"
  by (auto simp: shaped_def)

lemma map2_gf_add_field:
  assumes "\<forall>x \<in> set xs. in_field p x" "\<forall>y \<in> set ys. in_field p y"
  shows "\<forall>z \<in> set (map2 (gf_add p) xs ys). in_field p z"
  using assms by (auto dest: set_zip_leftD set_zip_rightD)

lemma add_openings_ok:
  assumes "length vs = k" "\<forall>x \<in> set vs. in_field p x"
    "\<forall>v \<in> set msgs. length v = k \<and> (\<forall>x \<in> set v. in_field p x)"
  shows "\<exists>r. add_openings p vs msgs = (ret r :: ('s, int list) m) \<and> length r = k \<and> (\<forall>x \<in> set r. in_field p x) \<and>
    (\<forall>j < k. r ! j mod p = (vs ! j + (\<Sum>v\<leftarrow>msgs. v ! j)) mod p)"
  using assms
proof (induction p vs msgs rule: add_openings.induct)
  case (1 p vs)
  then show ?case by auto
next
  case (2 p vs msg msgs)
  let ?vs = "map2 (gf_add p) vs msg"
  have len: "length msg = k" "length vs = k" and msg: "\<forall>x \<in> set msg. in_field p x"
    and rest: "\<forall>v \<in> set msgs. length v = k \<and> (\<forall>x \<in> set v. in_field p x)"
    using "2.prems" by simp_all
  have vs: "length ?vs = k" "\<forall>x \<in> set ?vs. in_field p x"
    using len map2_gf_add_field [OF "2.prems"(2) msg] by simp_all
  obtain r where r: "add_openings p ?vs msgs = (ret r :: ('s, int list) m)" "length r = k" "\<forall>x \<in> set r. in_field p x"
      "\<forall>j < k. r ! j mod p = (?vs ! j + (\<Sum>v\<leftarrow>msgs. v ! j)) mod p"
    using "2.IH" [OF _ vs rest] len by auto
  have "r ! j mod p = (vs ! j + (\<Sum>v\<leftarrow>msg # msgs. v ! j)) mod p" if "j < k" for j
  proof -
    have v: "?vs ! j = gf_add p (vs ! j) (msg ! j)" using that len by simp
    have "r ! j mod p = (?vs ! j + (\<Sum>v\<leftarrow>msgs. v ! j)) mod p" using that r(4) by blast
    also have "\<dots> = (gf_add p (vs ! j) (msg ! j) mod p + (\<Sum>v\<leftarrow>msgs. v ! j)) mod p"
      unfolding v by (rule mod_add_left_eq [symmetric])
    also have "\<dots> = (vs ! j + msg ! j + (\<Sum>v\<leftarrow>msgs. v ! j)) mod p"
      by (simp only: gf_add_cong mod_add_left_eq)
    finally show ?thesis by (simp add: add.assoc)
  qed
  then show ?case using r len by (intro exI [of _ r]) simp
qed

lemma mod_sum_cong:
  assumes "\<And>i. i \<in> A \<Longrightarrow> f i mod p = g i mod (p :: int)"
  shows "sum f A mod p = sum g A mod p"
proof -
  have "(\<Sum>i\<in>A. f i mod p) = (\<Sum>i\<in>A. g i mod p)" using assms by (rule sum.cong [OF refl])
  then show ?thesis by (metis mod_sum_eq)
qed

text \<open>The senders of the receivers are the parties between the old and the new bound.\<close>

lemma sum_over_senders:
  fixes f :: "nat \<Rightarrow> int"
  assumes "0 < s" "s \<le> l"
  shows "(\<Sum>r<s. f r + (\<Sum>q\<leftarrow>relative_senders (r + s) s l. f q)) = (\<Sum>r<l. f r)"
proof -
  have "(\<Sum>q\<leftarrow>relative_senders (r + s) s l. f q) = (\<Sum>q \<in> {q \<in> {s..<l}. q mod s = r}. f q)"
    if "r < s" for r
  proof -
    have "set (relative_senders (r + s) s l) = {q \<in> {s..<l}. q mod s = r}"
    proof -
      have "r + s \<le> q" if "s \<le> q" "q mod s = r" for q
      proof -
        have "q = q div s * s + r" using that(2) div_mult_mod_eq [of q s] by simp
        moreover have "1 \<le> q div s" using that assms by (simp add: Suc_leI div_greater_zero_iff)
        then have "1 * s \<le> q div s * s" by (rule mult_le_mono1)
        ultimately show ?thesis by linarith
      qed
      then show ?thesis using \<open>r < s\<close> assms by (auto simp: set_relative_senders)
    qed
    then show ?thesis
      using assms by (simp add: sum_list_distinct_conv_sum_set distinct_relative_senders)
  qed
  then have "(\<Sum>r<s. f r + (\<Sum>q\<leftarrow>relative_senders (r + s) s l. f q)) =
      (\<Sum>r<s. f r) + (\<Sum>r<s. \<Sum>q \<in> {q \<in> {s..<l}. q mod s = r}. f q)"
    by (simp add: sum.distrib)
  also have "(\<Sum>r<s. \<Sum>q \<in> {q \<in> {s..<l}. q mod s = r}. f q) = (\<Sum>q = s..<l. f q)"
    using assms by (intro sum.group) auto
  also have "(\<Sum>r<s. f r) + (\<Sum>q = s..<l. f q) = (\<Sum>r<l. f r)"
    using assms sum.atLeastLessThan_concat [of 0 s l f] by (simp add: atLeast0LessThan)
  finally show ?thesis .
qed

lemma sum_round_ok:
  assumes sh: "shaped p n k vals" and s: "0 < s" "s \<le> l" "l \<le> n"
  shows "\<exists>w. sum_round p n base s l vals = (ret w :: ('s, int list list) m) \<and> shaped p n k w \<and>
    (\<forall>j < k. (\<Sum>r<s. w ! abs_num n base r ! j) mod p = (\<Sum>r<l. vals ! abs_num n base r ! j) mod p)"
proof -
  let ?msgs = "\<lambda>i. map (\<lambda>r. vals ! abs_num n base r) (relative_senders (rel_num n base i + s) s l)"
  let ?f = "\<lambda>i. (if rel_num n base i < s then add_openings p (vals ! i) (?msgs i) else ret (vals ! i)) :: ('s, int list) m"
  have n: "0 < n" using s by simp
  have "\<exists>r. ?f i = ret r \<and> length r = k \<and> (\<forall>x \<in> set r. in_field p x) \<and>
      (rel_num n base i < s \<longrightarrow> (\<forall>j < k. r ! j mod p = (vals ! i ! j + (\<Sum>v\<leftarrow>?msgs i. v ! j)) mod p))"
    if "i < n" for i
    using add_openings_ok [of "vals ! i" k p "?msgs i"] shaped_nth [OF sh] that abs_num_less [OF n]
    by auto
  then have "\<forall>i. \<exists>r. i < n \<longrightarrow> ?f i = ret r \<and> length r = k \<and> (\<forall>x \<in> set r. in_field p x) \<and>
      (rel_num n base i < s \<longrightarrow> (\<forall>j < k. r ! j mod p = (vals ! i ! j + (\<Sum>v\<leftarrow>?msgs i. v ! j)) mod p))"
    by blast
  then obtain g where "\<forall>i. i < n \<longrightarrow> ?f i = ret (g i) \<and> length (g i) = k \<and> (\<forall>x \<in> set (g i). in_field p x) \<and>
      (rel_num n base i < s \<longrightarrow> (\<forall>j < k. g i ! j mod p = (vals ! i ! j + (\<Sum>v\<leftarrow>?msgs i. v ! j)) mod p))"
    by (rule choice [THEN exE])
  then have g: "\<And>i. i < n \<Longrightarrow> ?f i = ret (g i) \<and> length (g i) = k \<and> (\<forall>x \<in> set (g i). in_field p x) \<and>
      (rel_num n base i < s \<longrightarrow> (\<forall>j < k. g i ! j mod p = (vals ! i ! j + (\<Sum>v\<leftarrow>?msgs i. v ! j)) mod p))"
    by blast
  have run: "sum_round p n base s l vals = (ret (map g [0..<n]) :: ('s, int list list) m)"
    unfolding sum_round_def by (rule mapM_ret) (use g in auto)
  have shw: "shaped p n k (map g [0..<n])" using g by (auto simp: shaped_def)
  have "(\<Sum>r<s. map g [0..<n] ! abs_num n base r ! j) mod p = (\<Sum>r<l. vals ! abs_num n base r ! j) mod p"
    if j: "j < k" for j
  proof -
    have "map g [0..<n] ! abs_num n base r ! j mod p =
        (vals ! abs_num n base r ! j +
         (\<Sum>q\<leftarrow>relative_senders (r + s) s l. vals ! abs_num n base q ! j)) mod p" if "r < s" for r
      using g [OF abs_num_less [OF n, of base r]] that s j rel_abs [of r n base] abs_num_less [OF n, of base r]
      by (simp add: comp_def)
    then have "(\<Sum>r<s. map g [0..<n] ! abs_num n base r ! j) mod p =
        (\<Sum>r<s. vals ! abs_num n base r ! j +
         (\<Sum>q\<leftarrow>relative_senders (r + s) s l. vals ! abs_num n base q ! j)) mod p"
      by (intro mod_sum_cong) auto
    also have "\<dots> = (\<Sum>r<l. vals ! abs_num n base r ! j) mod p"
      using sum_over_senders [OF s(1,2), of "\<lambda>r. vals ! abs_num n base r ! j"] by simp
    finally show ?thesis .
  qed
  then show ?thesis using run shw by blast
qed

lemma tree_sums_ok:
  assumes "0 < os" "0 < l" "l \<le> n" "shaped p n k vals"
  shows "\<exists>w. tree_sums p n base os l vals = (ret w :: ('s, int list list) m) \<and> shaped p n k w \<and>
    (\<forall>j < k. w ! abs_num n base 0 ! j mod p = (\<Sum>r<l. vals ! abs_num n base r ! j) mod p)"
  using assms
proof (induction p n base os l vals rule: tree_sums.induct)
  case (1 p n base os l vals)
  let ?s = "next_sum os l"
  show ?case
  proof (cases "?s = 0")
    case True
    then have "l + os - 2 < os" using "1.prems" by (simp add: next_sum_def div_eq_0_iff)
    then have "l = 1" using "1.prems" by linarith
    moreover have "tree_sums p n base os l vals = (ret vals :: ('s, int list list) m)"
      using True "1.prems" by (subst tree_sums.simps) simp
    ultimately show ?thesis using "1.prems" by auto
  next
    case False
    have s: "?s < l" using "1.prems" by (simp add: next_sum_less)
    obtain w where w: "sum_round p n base ?s l vals = (ret w :: ('s, int list list) m)" "shaped p n k w"
        "\<forall>j < k. (\<Sum>r<?s. w ! abs_num n base r ! j) mod p = (\<Sum>r<l. vals ! abs_num n base r ! j) mod p"
      using sum_round_ok [of p n k vals ?s l base] "1.prems" False s by auto
    obtain v where "tree_sums p n base os ?s w = (ret v :: ('s, int list list) m)" "shaped p n k v"
        "\<forall>j < k. v ! abs_num n base 0 ! j mod p = (\<Sum>r<?s. w ! abs_num n base r ! j) mod p"
      using "1.IH" [of w] "1.prems" False s w by auto
    then show ?thesis
      using w False "1.prems" by (auto simp: tree_sums.simps [of p n base os l vals])
  qed
qed

lemma bcast_values_ok: "2 \<le> mb \<Longrightarrow> bcast_values mb t r = ret t"
  by (induction mb t r rule: bcast_values.induct) (subst bcast_values.simps, simp)

lemma tree_run_sum:
  assumes "shaped p n k vals" "0 < n" "0 < p" "0 < os" "2 \<le> mb"
  shows "(tree_run p n base os mb vals :: ('s, int list list) m) =
    ret (replicate n (map (\<lambda>j. (\<Sum>i<n. vals ! i ! j) mod p) [0..<k]))"
proof -
  obtain w where w: "tree_sums p n base os n vals = (ret w :: ('s, int list list) m)" "shaped p n k w"
      "\<forall>j < k. w ! abs_num n base 0 ! j mod p = (\<Sum>r<n. vals ! abs_num n base r ! j) mod p"
    using tree_sums_ok [of os n n p k vals base] assms by auto
  have bij: "bij_betw (abs_num n base) {..<n} {..<n}"
    by (rule bij_betw_byWitness [where f' = "rel_num n base"])
      (use assms in \<open>auto simp: rel_abs abs_rel rel_num_less abs_num_less\<close>)
  have tot: "w ! abs_num n base 0 = map (\<lambda>j. (\<Sum>i<n. vals ! i ! j) mod p) [0..<k]"
  proof (rule nth_equalityI)
    have a0: "abs_num n base 0 < n" using assms by (simp add: abs_num_less)
    then show "length (w ! abs_num n base 0) = length (map (\<lambda>j. (\<Sum>i<n. vals ! i ! j) mod p) [0..<k])"
      using shaped_nth [OF w(2)] by simp
    fix j assume "j < length (w ! abs_num n base 0)"
    then have j: "j < k" using a0 shaped_nth [OF w(2)] by simp
    have "in_field p (w ! abs_num n base 0 ! j)"
      using shaped_nth [OF w(2) a0] j by auto
    then have "w ! abs_num n base 0 ! j = (\<Sum>r<n. vals ! abs_num n base r ! j) mod p"
      using w(3) j in_field_id by metis
    also have "(\<Sum>r<n. vals ! abs_num n base r ! j) = (\<Sum>i<n. vals ! i ! j)"
      by (rule sum.reindex_bij_betw [OF bij])
    finally show "w ! abs_num n base 0 ! j = map (\<lambda>j. (\<Sum>i<n. vals ! i ! j) mod p) [0..<k] ! j"
      using j by simp
  qed
  show ?thesis
    unfolding tree_run_def w(1) bnd_ret
    by (subst mapM_ret [where g = "\<lambda>i. w ! abs_num n base 0"])
      (use assms(5) in \<open>simp_all add: bcast_values_ok tot map_replicate_const\<close>)
qed

text \<open>Every receive of the broadcast has exactly the send that the sender's code makes.\<close>

lemma bcast_matched:
  assumes "2 \<le> mb" "0 < r" "r < n"
  shows "r \<in> set (bcast_receivers mb n q) \<longleftrightarrow> q = bcast_sender mb r"
proof (cases "q = 0")
  case True
  then show ?thesis using assms by (auto simp: bcast_receivers_def bcast_sender_def div_eq_0_iff)
next
  case False
  have "r \<in> set (bcast_receivers mb n q) \<longleftrightarrow> q * mb < n \<and> q * mb \<le> r \<and> r < q * mb + mb"
    using False assms by (auto simp: bcast_receivers_def image_iff intro: exI [of _ "r - q * mb"]
        dest: le_Suc_ex)
  also have "\<dots> \<longleftrightarrow> q = r div mb"
  proof
    assume "q * mb < n \<and> q * mb \<le> r \<and> r < q * mb + mb"
    then show "q = r div mb" using div_nat_eqI [of mb q r] by (simp add: mult.commute add.commute)
  next
    assume q: "q = r div mb"
    have "q * mb \<le> r" by (simp add: q)
    moreover have "r < q * mb + mb" using assms(1) by (simp add: q dividend_less_div_times add.commute)
    ultimately show "q * mb < n \<and> q * mb \<le> r \<and> r < q * mb + mb" using assms(3) by simp
  qed
  finally show ?thesis by (simp add: bcast_sender_def)
qed

end
