(* ===== verification/MacCheck.thy ===== *)
theory MacCheck
  imports TreeSum
begin

text \<open>
  Opening and MAC checking: \<open>MAC_Check_Base\<close>, \<open>Tree_MAC_Check\<close> and \<open>MAC_Check_\<close> of
  \<open>Protocols/MAC_Check_Base.h\<close>, \<open>Protocols/MAC_Check_Base.hpp\<close> and \<open>Protocols/MAC_Check.hpp\<close>,
  with the joint state of the parties. A vector that every party keeps is a list of
  vectors, party \<open>i\<close>'s at index \<open>i\<close>. Opened values are public: the parties' copies are
  read as one value, after a check that they agree (which \<open>POpen_ok\<close> shows they do).
  The commitments around the exchange of the check's deltas are not part of this theory.
\<close>

section \<open>The joint state\<close>

text \<open>
  The buffers of \<open>BufferPrep\<close> with the number of refills so far, the counts of
  \<open>DataPositions\<close>, and the state of the MAC check: the values being opened with the read
  position of the \<open>PointerVector\<close>, and the openings not yet checked.
\<close>

record mpc =
  triples :: "(jshare \<times> jshare \<times> jshare) list"
  squares :: "(jshare \<times> jshare) list"
  bits :: "jshare list"
  inputs :: "(jshare \<times> int) list list"
  triple_calls :: nat
  bit_calls :: nat
  input_calls :: "nat \<Rightarrow> nat"
  use_triples :: nat
  use_squares :: nat
  use_bits :: nat
  use_inputs :: "nat \<Rightarrow> nat"
  op_values :: "int list list"
  op_pos :: nat
  mc_vals :: "int list list"
  mc_macs :: "int list list"
  popen_cnt :: nat
  values_opened :: nat
  mc_checks :: nat

definition POPEN_MAX :: nat where
  "POPEN_MAX = 1000000"

definition OPENING_SUM :: nat where
  "OPENING_SUM = 10"

definition MAX_BROADCAST :: nat where
  "MAX_BROADCAST = 10"

section \<open>The check\<close>

definition waiting_for_check :: "mpc \<Rightarrow> nat" where
  "waiting_for_check s = max (length (mc_macs s ! 0)) (length (mc_vals s ! 0))"

text \<open>A party's own summand first, then the others' in order.\<close>

definition own_first :: "int \<Rightarrow> nat \<Rightarrow> nat \<Rightarrow> (nat \<Rightarrow> int) \<Rightarrow> int" where
  "own_first p n me f = foldl (gf_add p) (f me) (map f (filter (\<lambda>i. i \<noteq> me) [0..<n]))"

text \<open>The first branch of \<open>MAC_Check_::Check\<close>: one delta per opened value.\<close>

definition check_delta :: "ctx \<Rightarrow> mpc \<Rightarrow> nat \<Rightarrow> nat \<Rightarrow> int" where
  "check_delta c s j i =
     gf_sub (pr c) (gf_mul (pr c) (mc_vals s ! i ! j) (alphas c ! i)) (mc_macs s ! i ! j)"

definition check_each :: "ctx \<Rightarrow> mpc \<Rightarrow> bool" where
  "check_each c s =
     list_all (\<lambda>me. list_all (\<lambda>j. own_first (pr c) (num_players c) me (check_delta c s j) = 0)
       [0..<popen_cnt s]) [0..<num_players c]"

text \<open>
  The second branch: one random combination, with coefficients from the common seed. \<open>a\<close>
  and \<open>gami\<close> are a party's accumulators, \<open>tau\<close> what it sends.
\<close>

definition check_tau :: "ctx \<Rightarrow> mpc \<Rightarrow> nat \<Rightarrow> int" where
  "check_tau c s i =
     (let (a, gami) = foldl (\<lambda>(a, gami) j.
            (gf_add (pr c) a (gf_mul (pr c) (mc_vals s ! i ! j) (mc_coin c (mc_checks s) j)),
             gf_add (pr c) gami (gf_mul (pr c) (mc_coin c (mc_checks s) j) (mc_macs s ! i ! j))))
          (0, 0) [0..<popen_cnt s]
      in gf_sub (pr c) gami (gf_mul (pr c) (alphas c ! i) a))"

definition check_combined :: "ctx \<Rightarrow> mpc \<Rightarrow> bool" where
  "check_combined c s =
     (foldl (gf_add (pr c)) 0 (map (check_tau c s) [0..<num_players c]) = 0)"

definition Check :: "ctx \<Rightarrow> (mpc, unit) m" where
  "Check c = (\<lambda>s.
     if waiting_for_check s = 0 then Inr ((), s)
     else
       let ok = (if popen_cnt s < 10 then check_each c s else check_combined c s);
           calls = (if popen_cnt s < 10 then mc_checks s else Suc (mc_checks s))
       in if \<not> ok then Inl Mac_fail
          else Inr ((), s\<lparr>mc_vals := map (drop (popen_cnt s)) (mc_vals s),
                          mc_macs := map (drop (popen_cnt s)) (mc_macs s),
                          popen_cnt := 0, mc_checks := calls\<rparr>))"

section \<open>Opening\<close>

definition init_open :: "ctx \<Rightarrow> (mpc, unit) m" where
  "init_open c = modify (\<lambda>s. s\<lparr>op_values := replicate (num_players c) [], op_pos := 0\<rparr>)"

definition prepare_open :: "jshare \<Rightarrow> (mpc, unit) m" where
  "prepare_open secret = modify (\<lambda>s.
     s\<lparr>op_values := map2 (\<lambda>v sec. v @ [share_a sec]) (op_values s) secret,
       mc_macs := map2 (\<lambda>v sec. v @ [share_mac sec]) (mc_macs s) secret\<rparr>)"

definition add_to_values :: "int list list \<Rightarrow> (mpc, unit) m" where
  "add_to_values values = modify (\<lambda>s. s\<lparr>mc_vals := map2 (@) (mc_vals s) values\<rparr>)"

definition check_if_needed :: "ctx \<Rightarrow> (mpc, unit) m" where
  "check_if_needed c =
     bnd (gets waiting_for_check) (\<lambda>w. if POPEN_MAX \<le> w then Check c else ret ())"

definition exchange :: "ctx \<Rightarrow> (mpc, unit) m" where
  "exchange c =
     bnd (gets op_values) (\<lambda>values.
     bnd (tree_run (pr c) (num_players c) 0 OPENING_SUM MAX_BROADCAST values) (\<lambda>opened.
     bnd (add_to_values opened) (\<lambda>_.
     bnd (modify (\<lambda>s. s\<lparr>op_values := opened,
                        values_opened := values_opened s + length (opened ! 0),
                        popen_cnt := popen_cnt s + length (opened ! 0)\<rparr>)) (\<lambda>_.
     check_if_needed c))))"

text \<open>\<open>values.next()\<close> at every party.\<close>

definition finalize_open :: "ctx \<Rightarrow> (mpc, int) m" where
  "finalize_open c = (\<lambda>s.
     if \<not> list_all (\<lambda>v. op_pos s < length v) (op_values s) \<or> op_values s = [] then Inl Out_of_range
     else let vs = map (\<lambda>v. v ! op_pos s) (op_values s)
          in if vs \<noteq> replicate (num_players c) (vs ! 0) then Inl Disagreement
             else Inr (vs ! 0, s\<lparr>op_pos := Suc (op_pos s)\<rparr>))"

definition POpen_Begin :: "ctx \<Rightarrow> jshare list \<Rightarrow> (mpc, unit) m" where
  "POpen_Begin c S =
     bnd (init_open c) (\<lambda>_. bnd (mapM prepare_open S) (\<lambda>_. exchange c))"

definition POpen_End :: "ctx \<Rightarrow> jshare list \<Rightarrow> (mpc, int list) m" where
  "POpen_End c S = mapM (\<lambda>_. finalize_open c) S"

definition POpen :: "ctx \<Rightarrow> jshare list \<Rightarrow> (mpc, int list) m" where
  "POpen c S = bnd (POpen_Begin c S) (\<lambda>_. POpen_End c S)"

text \<open>\<open>Tree_MAC_Check::AddToCheck\<close>: a value opened elsewhere joins the pending checks.\<close>

definition AddToCheck :: "ctx \<Rightarrow> jshare \<Rightarrow> int \<Rightarrow> (mpc, unit) m" where
  "AddToCheck c S value =
     bnd (modify (\<lambda>s.
       s\<lparr>mc_macs := map2 (\<lambda>v sec. v @ [share_mac sec]) (mc_macs s) S,
         mc_vals := map (\<lambda>v. v @ [value]) (mc_vals s), popen_cnt := Suc (popen_cnt s)\<rparr>)) (\<lambda>_.
     check_if_needed c)"

text \<open>\<open>MAC_Check_Base::CheckFor\<close>.\<close>

definition CheckFor :: "ctx \<Rightarrow> int \<Rightarrow> jshare list \<Rightarrow> (mpc, unit) m" where
  "CheckFor c value S =
     bnd (POpen c S) (\<lambda>opened.
     bnd (check (list_all (\<lambda>v. value = v) opened) (Runtime_error ''Offline_Check_Error: CheckFor'')) (\<lambda>_.
     Check c))"

section \<open>The invariant of the pending checks\<close>

definition mac_inv :: "ctx \<Rightarrow> mpc \<Rightarrow> bool" where
  "mac_inv c s \<longleftrightarrow>
     length (mc_vals s) = num_players c \<and> length (mc_macs s) = num_players c \<and>
     (\<forall>i < num_players c. length (mc_vals s ! i) = popen_cnt s \<and> length (mc_macs s ! i) = popen_cnt s \<and>
        (\<forall>x \<in> set (mc_macs s ! i). in_field (pr c) x)) \<and>
     (\<forall>j < popen_cnt s. \<exists>x. (\<forall>i < num_players c. mc_vals s ! i ! j = x) \<and>
        (\<Sum>i<num_players c. mc_macs s ! i ! j) mod pr c = (alpha c * x) mod pr c)"

lemma foldl_gf_add: "foldl (gf_add p) a xs mod p = (a + sum_list xs) mod p"
proof (induction xs arbitrary: a)
  case Nil
  then show ?case by simp
next
  case (Cons x xs)
  have "foldl (gf_add p) a (x # xs) mod p = (gf_add p a x + sum_list xs) mod p"
    by (simp add: Cons.IH)
  also have "\<dots> = ((a + x) + sum_list xs) mod p"
    by (rule mod_add_cong) (simp_all add: gf_add_cong)
  finally show ?case by (simp add: add.assoc)
qed

lemma foldl_gf_add_field:
  "in_field p a \<Longrightarrow> \<forall>x \<in> set xs. in_field p x \<Longrightarrow> in_field p (foldl (gf_add p) a xs)"
  by (induction xs arbitrary: a) auto

lemma own_first_cong:
  assumes "me < n"
  shows "own_first p n me f mod p = (\<Sum>i<n. f i) mod p"
proof -
  have "sum_list (map f (filter (\<lambda>i. i \<noteq> me) [0..<n])) = (\<Sum>i \<in> {..<n} - {me}. f i)"
    by (subst sum_list_distinct_conv_sum_set) (auto intro: sum.cong)
  then show ?thesis
    using assms by (simp add: own_first_def foldl_gf_add sum.remove [of "{..<n}" me])
qed

lemma zero_iff_field: "in_field p x \<Longrightarrow> x = 0 \<longleftrightarrow> x mod p = 0"
  using in_field_id [of p x] by auto

lemma sum_alphas: "(\<Sum>i<num_players c. alphas c ! i) = alpha c"
  by (simp add: alpha_def num_players_def sum_list_sum_nth atLeast0LessThan)

text \<open>What the deltas of one opened value add up to.\<close>

lemma own_first_zero_iff:
  assumes "me < n" "0 < p" "\<And>i. i < n \<Longrightarrow> in_field p (f i)"
  shows "own_first p n me f = 0 \<longleftrightarrow> (\<Sum>i<n. f i) mod p = 0"
proof -
  have "in_field p (own_first p n me f)"
    unfolding own_first_def using assms by (intro foldl_gf_add_field) auto
  then show ?thesis
    using zero_iff_field own_first_cong [OF assms(1)] by metis
qed

lemma check_each_iff:
  assumes "wf_field c"
    and "\<forall>i < num_players c. \<forall>j < popen_cnt s. in_field (pr c) (mc_macs s ! i ! j)"
  shows "check_each c s \<longleftrightarrow>
    (\<forall>j < popen_cnt s. (\<Sum>i<num_players c. mc_vals s ! i ! j * alphas c ! i - mc_macs s ! i ! j) mod pr c = 0)"
proof -
  let ?n = "num_players c"
  have n: "0 < ?n" "0 < pr c" using assms by (auto simp: wf_field_def num_players_def)
  have "own_first (pr c) ?n me (check_delta c s j) = 0 \<longleftrightarrow>
      (\<Sum>i<?n. mc_vals s ! i ! j * alphas c ! i - mc_macs s ! i ! j) mod pr c = 0"
    if "me < ?n" "j < popen_cnt s" for me j
  proof -
    have "(\<Sum>i<?n. check_delta c s j i) mod pr c =
        (\<Sum>i<?n. mc_vals s ! i ! j * alphas c ! i - mc_macs s ! i ! j) mod pr c"
      by (rule mod_sum_cong) (simp add: check_delta_def gf_sub_cong gf_mul_def mod_simps)
    moreover have "own_first (pr c) ?n me (check_delta c s j) = 0 \<longleftrightarrow>
        (\<Sum>i<?n. check_delta c s j i) mod pr c = 0"
      by (rule own_first_zero_iff [OF that(1) n(2)])
        (use assms(2) n that in \<open>auto simp: check_delta_def\<close>)
    ultimately show ?thesis by simp
  qed
  then show ?thesis using n by (auto simp: check_each_def list_all_iff)
qed

lemma check_accumulators:
  "foldl (\<lambda>(a, gami) j. (gf_add p a (gf_mul p (v j) (h j)), gf_add p gami (gf_mul p (h j) (m j)))) (0, 0) [0..<k]
     = (x, y) \<Longrightarrow>
   x mod p = (\<Sum>j<k. v j * h j) mod p \<and> y mod p = (\<Sum>j<k. h j * m j) mod p"
proof (induction k arbitrary: x y)
  case 0
  then show ?case by simp
next
  case (Suc k)
  obtain a g where ag: "foldl (\<lambda>(a, gami) j. (gf_add p a (gf_mul p (v j) (h j)),
      gf_add p gami (gf_mul p (h j) (m j)))) (0, 0) [0..<k] = (a, g)"
    by fastforce
  have xy: "x = gf_add p a (gf_mul p (v k) (h k))" "y = gf_add p g (gf_mul p (h k) (m k))"
    using Suc.prems by (simp_all add: ag)
  have "x mod p = ((\<Sum>j<k. v j * h j) + v k * h k) mod p"
    unfolding xy gf_add_cong by (rule mod_add_cong) (simp_all add: Suc.IH [OF ag] gf_mul_cong)
  moreover have "y mod p = ((\<Sum>j<k. h j * m j) + h k * m k) mod p"
    unfolding xy gf_add_cong by (rule mod_add_cong) (simp_all add: Suc.IH [OF ag] gf_mul_cong)
  ultimately show ?case by simp
qed

lemma check_tau_cong:
  "check_tau c s i mod pr c =
     (\<Sum>j<popen_cnt s. mc_coin c (mc_checks s) j * (mc_macs s ! i ! j - mc_vals s ! i ! j * alphas c ! i)) mod pr c"
proof -
  let ?h = "mc_coin c (mc_checks s)" and ?k = "popen_cnt s"
  obtain a g where ag: "foldl (\<lambda>(a, gami) j. (gf_add (pr c) a (gf_mul (pr c) (mc_vals s ! i ! j) (?h j)),
      gf_add (pr c) gami (gf_mul (pr c) (?h j) (mc_macs s ! i ! j)))) (0, 0) [0..<?k] = (a, g)"
    by fastforce
  have acc: "a mod pr c = (\<Sum>j<?k. mc_vals s ! i ! j * ?h j) mod pr c"
    "g mod pr c = (\<Sum>j<?k. ?h j * mc_macs s ! i ! j) mod pr c"
    using check_accumulators [OF ag] by simp_all
  have "gf_mul (pr c) (alphas c ! i) a mod pr c = (alphas c ! i * (\<Sum>j<?k. mc_vals s ! i ! j * ?h j)) mod pr c"
    unfolding gf_mul_cong by (rule mod_mult_cong) (simp_all add: acc)
  then have "check_tau c s i mod pr c =
      ((\<Sum>j<?k. ?h j * mc_macs s ! i ! j) - alphas c ! i * (\<Sum>j<?k. mc_vals s ! i ! j * ?h j)) mod pr c"
    unfolding check_tau_def ag by (simp only: Let_def case_prod_conv gf_sub_cong) (rule mod_diff_cong, simp_all add: acc)
  then show ?thesis
    by (simp add: sum_distrib_left sum_subtractf algebra_simps)
qed

lemma check_accumulators_field:
  "0 < p \<Longrightarrow>
   foldl (\<lambda>(a, gami) j. (gf_add p a (gf_mul p (v j) (h j)), gf_add p gami (gf_mul p (h j) (m j)))) (0, 0) [0..<k]
     = (x, y) \<Longrightarrow> in_field p x \<and> in_field p y"
proof (induction k arbitrary: x y)
  case 0
  then show ?case by (auto simp: in_field_def)
next
  case (Suc k)
  obtain a g where ag: "foldl (\<lambda>(a, gami) j. (gf_add p a (gf_mul p (v j) (h j)),
      gf_add p gami (gf_mul p (h j) (m j)))) (0, 0) [0..<k] = (a, g)"
    by fastforce
  then show ?case using Suc by auto
qed

lemma check_tau_field: "0 < pr c \<Longrightarrow> in_field (pr c) (check_tau c s i)"
  unfolding check_tau_def Let_def
  by (auto split: prod.split intro!: in_field_sub in_field_mul dest: check_accumulators_field)

lemma check_combined_iff:
  assumes "wf_field c"
  shows "check_combined c s \<longleftrightarrow>
    (\<Sum>j<popen_cnt s. mc_coin c (mc_checks s) j *
       (\<Sum>i<num_players c. mc_macs s ! i ! j - mc_vals s ! i ! j * alphas c ! i)) mod pr c = 0"
proof -
  let ?n = "num_players c" and ?t = "foldl (gf_add (pr c)) 0 (map (check_tau c s) [0..<num_players c])"
  let ?d = "\<lambda>i j. mc_macs s ! i ! j - mc_vals s ! i ! j * alphas c ! i"
  have p: "0 < pr c" using assms by (simp add: wf_field_def)
  have "?t mod pr c = (\<Sum>i<?n. check_tau c s i) mod pr c"
    by (simp add: foldl_gf_add interv_sum_list_conv_sum_set_nat atLeast0LessThan)
  also have "\<dots> = (\<Sum>i<?n. \<Sum>j<popen_cnt s. mc_coin c (mc_checks s) j * ?d i j) mod pr c"
    by (rule mod_sum_cong) (rule check_tau_cong)
  also have "(\<Sum>i<?n. \<Sum>j<popen_cnt s. mc_coin c (mc_checks s) j * ?d i j) =
      (\<Sum>j<popen_cnt s. mc_coin c (mc_checks s) j * (\<Sum>i<?n. ?d i j))"
    by (subst sum.swap) (simp add: sum_distrib_left)
  finally have "?t mod pr c = (\<Sum>j<popen_cnt s. mc_coin c (mc_checks s) j * (\<Sum>i<?n. ?d i j)) mod pr c" .
  moreover have "in_field (pr c) ?t"
    by (rule foldl_gf_add_field) (use p check_tau_field in \<open>auto simp: in_field_def\<close>)
  ultimately show ?thesis
    unfolding check_combined_def using zero_iff_field by metis
qed

text \<open>Valid openings always pass the check.\<close>

lemma mac_inv_delta:
  assumes "mac_inv c s" "j < popen_cnt s"
  shows "(\<Sum>i<num_players c. mc_vals s ! i ! j * alphas c ! i - mc_macs s ! i ! j) mod pr c = 0"
    and "(\<Sum>i<num_players c. mc_macs s ! i ! j - mc_vals s ! i ! j * alphas c ! i) mod pr c = 0"
proof -
  let ?n = "num_players c"
  obtain x where x: "\<forall>i < ?n. mc_vals s ! i ! j = x"
      "(\<Sum>i<?n. mc_macs s ! i ! j) mod pr c = (alpha c * x) mod pr c"
    using assms unfolding mac_inv_def by blast
  have "(\<Sum>i<?n. mc_vals s ! i ! j * alphas c ! i) = (\<Sum>i<?n. x * alphas c ! i)"
    using x(1) by (intro sum.cong) auto
  also have "\<dots> = alpha c * x"
    by (simp add: sum_distrib_left [symmetric] sum_alphas)
  finally have v: "(\<Sum>i<?n. mc_vals s ! i ! j * alphas c ! i) = alpha c * x" .
  show "(\<Sum>i<?n. mc_vals s ! i ! j * alphas c ! i - mc_macs s ! i ! j) mod pr c = 0"
    "(\<Sum>i<?n. mc_macs s ! i ! j - mc_vals s ! i ! j * alphas c ! i) mod pr c = 0"
    using x(2) by (simp_all add: sum_subtractf v mod_eq_dvd_iff mod_0_imp_dvd dvd_diff_commute)
qed

lemma mod_sum_zero:
  "(\<And>j. j \<in> A \<Longrightarrow> g j mod (p :: int) = 0) \<Longrightarrow> (\<Sum>j\<in>A. h j * g j) mod p = 0"
  by (simp add: dvd_sum mod_eq_0_iff_dvd)

definition cleared :: "mpc \<Rightarrow> mpc \<Rightarrow> bool" where
  "cleared s t \<longleftrightarrow> (\<exists>mv mm cnt k. t = s\<lparr>mc_vals := mv, mc_macs := mm, popen_cnt := cnt, mc_checks := k\<rparr>)"

lemma cleared_refl [simp]: "cleared s s"
  unfolding cleared_def
  by (rule exI [of _ "mc_vals s"], rule exI [of _ "mc_macs s"], rule exI [of _ "popen_cnt s"],
      rule exI [of _ "mc_checks s"]) simp

lemma Check_ok:
  assumes "wf_field c" "mac_inv c s"
  shows "\<exists>t. Check c s = Inr ((), t) \<and> mac_inv c t \<and> cleared s t \<and> popen_cnt t \<le> popen_cnt s"
proof (cases "waiting_for_check s = 0")
  case True
  then show ?thesis using assms by (simp add: Check_def)
next
  case False
  have f: "\<forall>i < num_players c. \<forall>j < popen_cnt s. in_field (pr c) (mc_macs s ! i ! j)"
    using assms(2) by (auto simp: mac_inv_def)
  have "check_each c s"
    using mac_inv_delta(1) [OF assms(2)] by (simp add: check_each_iff [OF assms(1) f])
  moreover have "check_combined c s"
    unfolding check_combined_iff [OF assms(1)]
    by (rule mod_sum_zero, rule mac_inv_delta(2) [OF assms(2)]) simp
  moreover have "mac_inv c (s\<lparr>mc_vals := map (drop (popen_cnt s)) (mc_vals s),
      mc_macs := map (drop (popen_cnt s)) (mc_macs s), popen_cnt := 0, mc_checks := k\<rparr>)" for k
    using assms(2) by (auto simp: mac_inv_def)
  moreover have "cleared s (s\<lparr>mc_vals := map (drop (popen_cnt s)) (mc_vals s),
      mc_macs := map (drop (popen_cnt s)) (mc_macs s), popen_cnt := 0, mc_checks := k\<rparr>)" for k
    unfolding cleared_def by blast
  ultimately show ?thesis using False by (simp add: Check_def Let_def)
qed

section \<open>Opening valid sharings\<close>

text \<open>Everything but the state of the MAC check.\<close>

definition prep_part :: "mpc \<Rightarrow> _" where
  "prep_part s = (triples s, squares s, bits s, inputs s, triple_calls s, bit_calls s, input_calls s,
     use_triples s, use_squares s, use_bits s, use_inputs s)"

lemma cleared_parts: "cleared s t \<Longrightarrow> prep_part t = prep_part s \<and> op_values t = op_values s \<and> op_pos t = op_pos s"
  by (auto simp: cleared_def prep_part_def)

lemma prepare_open_list:
  assumes "length (op_values s) = n" "length (mc_macs s) = n" "\<forall>S \<in> set Ss. length S = n"
  shows "\<exists>u. mapM prepare_open Ss s = Inr (u,
    s\<lparr>op_values := map (\<lambda>i. op_values s ! i @ map (\<lambda>S. share_a (S ! i)) Ss) [0..<n],
      mc_macs := map (\<lambda>i. mc_macs s ! i @ map (\<lambda>S. share_mac (S ! i)) Ss) [0..<n]\<rparr>)"
  using assms
proof (induction Ss arbitrary: s)
  case Nil
  have "map (\<lambda>i. op_values s ! i) [0..<n] = op_values s" "map (\<lambda>i. mc_macs s ! i) [0..<n] = mc_macs s"
    using Nil by (auto intro: nth_equalityI)
  then show ?case by (simp add: ret_def)
next
  case (Cons S Ss)
  let ?t = "s\<lparr>op_values := map2 (\<lambda>v sec. v @ [share_a sec]) (op_values s) S,
       mc_macs := map2 (\<lambda>v sec. v @ [share_mac sec]) (mc_macs s) S\<rparr>"
  let ?u = "s\<lparr>op_values := map (\<lambda>i. op_values s ! i @ map (\<lambda>S. share_a (S ! i)) (S # Ss)) [0..<n],
      mc_macs := map (\<lambda>i. mc_macs s ! i @ map (\<lambda>S. share_mac (S ! i)) (S # Ss)) [0..<n]\<rparr>"
  obtain u where u: "mapM prepare_open Ss ?t = Inr (u,
    ?t\<lparr>op_values := map (\<lambda>i. op_values ?t ! i @ map (\<lambda>S. share_a (S ! i)) Ss) [0..<n],
      mc_macs := map (\<lambda>i. mc_macs ?t ! i @ map (\<lambda>S. share_mac (S ! i)) Ss) [0..<n]\<rparr>)"
    using Cons.IH [of ?t] Cons.prems by auto
  have "map (\<lambda>i. op_values ?t ! i @ map (\<lambda>S. share_a (S ! i)) Ss) [0..<n] =
      map (\<lambda>i. op_values s ! i @ map (\<lambda>S. share_a (S ! i)) (S # Ss)) [0..<n]"
    "map (\<lambda>i. mc_macs ?t ! i @ map (\<lambda>S. share_mac (S ! i)) Ss) [0..<n] =
      map (\<lambda>i. mc_macs s ! i @ map (\<lambda>S. share_mac (S ! i)) (S # Ss)) [0..<n]"
    using Cons.prems by auto
  then have "mapM prepare_open Ss ?t = Inr (u, ?u)" unfolding u by simp
  moreover have "prepare_open S s = Inr ((), ?t)" by (simp add: prepare_open_def modify_def)
  ultimately have "mapM prepare_open (S # Ss) s = Inr (() # u, ?u)"
    by (simp add: bnd_def ret_def)
  then show ?case by blast
qed

lemma finalize_open_list:
  assumes "op_values s = replicate n ys" "0 < n" "n = num_players c" "op_pos s + length (Ss :: 'b list) \<le> length ys"
  shows "\<exists>t. mapM (\<lambda>_. finalize_open c) Ss s = Inr (take (length Ss) (drop (op_pos s) ys), t) \<and>
    t = s\<lparr>op_pos := op_pos s + length Ss\<rparr>"
  using assms
proof (induction Ss arbitrary: s)
  case Nil
  then show ?case by (simp add: ret_def)
next
  case (Cons S Ss)
  let ?t = "s\<lparr>op_pos := Suc (op_pos s)\<rparr>"
  have "finalize_open c s = Inr (ys ! op_pos s, ?t)"
    using Cons.prems by (auto simp: finalize_open_def Let_def list_all_iff map_replicate_const)
  moreover have "mapM (\<lambda>_. finalize_open c) Ss ?t =
      Inr (take (length Ss) (drop (Suc (op_pos s)) ys), ?t\<lparr>op_pos := op_pos ?t + length Ss\<rparr>)"
    using Cons.IH [of ?t] Cons.prems by simp
  ultimately show ?case
    using Cons.prems by (simp add: bnd_def ret_def Cons_nth_drop_Suc [symmetric])
qed

lemma check_if_needed_ok:
  assumes "wf_field c" "mac_inv c s"
  shows "\<exists>t. check_if_needed c s = Inr ((), t) \<and> mac_inv c t \<and> cleared s t \<and> popen_cnt t \<le> popen_cnt s"
  using Check_ok [OF assms] assms(2)
  by (cases "POPEN_MAX \<le> waiting_for_check s") (auto simp: check_if_needed_def bnd_def gets_def ret_def)

lemma sum_list_share: "length S = n \<Longrightarrow> (\<Sum>i<n. f (S ! i)) = sum_list (map f S)"
  by (simp add: sum_list_sum_nth atLeast0LessThan)

lemma mac_inv_append:
  assumes "mac_inv c s" "list_all2 (sh c) Ss xs"
  shows "mac_inv c (s\<lparr>mc_macs := map (\<lambda>i. mc_macs s ! i @ map (\<lambda>S. share_mac (S ! i)) Ss) [0..<num_players c],
    mc_vals := map (\<lambda>i. mc_vals s ! i @ map (\<lambda>x. x mod pr c) xs) [0..<num_players c],
    popen_cnt := popen_cnt s + length xs, op_values := a, op_pos := b, values_opened := d\<rparr>)"
proof -
  let ?n = "num_players c" and ?m = "popen_cnt s"
  have len: "length Ss = length xs" using assms(2) by (rule list_all2_lengthD)
  have old: "length (mc_macs s ! i) = ?m" "length (mc_vals s ! i) = ?m"
      "\<forall>x \<in> set (mc_macs s ! i). in_field (pr c) x" if "i < ?n" for i
    using assms(1) that by (auto simp: mac_inv_def)
  have shj: "sh c (Ss ! k) (xs ! k)" if "k < length xs" for k
    using assms(2) that by (simp add: list_all2_conv_all_nth)
  have field: "in_field (pr c) (share_mac (S ! i))" if "S \<in> set Ss" "i < ?n" for S i
  proof -
    from that(1) have "\<exists>k < length Ss. Ss ! k = S" by (simp add: in_set_conv_nth)
    then obtain k where k: "k < length Ss" "Ss ! k = S" by blast
    then have "sh c S (xs ! k)" using shj [of k] len by simp
    then have "length S = ?n" "\<forall>s \<in> set S. share_in_field (pr c) s" by (simp_all add: sh_def)
    then show ?thesis using that(2) nth_mem [of i S] by (auto simp: share_in_field_def)
  qed
  have new: "(\<Sum>i<?n. share_mac (Ss ! k ! i)) mod pr c = (alpha c * (xs ! k mod pr c)) mod pr c"
    if "k < length xs" for k
  proof -
    have "length (Ss ! k) = ?n" "sum_list (map share_mac (Ss ! k)) mod pr c = (alpha c * (xs ! k)) mod pr c"
      using shj [OF that] by (simp_all add: sh_def)
    then show ?thesis using sum_list_share [of "Ss ! k" ?n share_mac] by (simp add: mod_mult_right_eq)
  qed
  have "\<exists>x. (\<forall>i<?n. (mc_vals s ! i @ map (\<lambda>x. x mod pr c) xs) ! j = x) \<and>
      (\<Sum>i<?n. (mc_macs s ! i @ map (\<lambda>S. share_mac (S ! i)) Ss) ! j) mod pr c = (alpha c * x) mod pr c"
    if j: "j < ?m + length xs" for j
  proof (cases "j < ?m")
    case True
    then obtain x where "\<forall>i<?n. mc_vals s ! i ! j = x"
        "(\<Sum>i<?n. mc_macs s ! i ! j) mod pr c = (alpha c * x) mod pr c"
      using assms(1) unfolding mac_inv_def by blast
    then show ?thesis using True old by (intro exI [of _ x]) (simp add: nth_append)
  next
    case False
    then show ?thesis
      using j old len new [of "j - ?m"]
      by (intro exI [of _ "xs ! (j - ?m) mod pr c"]) (simp add: nth_append)
  qed
  then show ?thesis
    using assms(1) old field len by (auto simp: mac_inv_def)
qed

lemma POpen_ok:
  assumes c: "wf_field c" and inv: "mac_inv c s" and Ss: "list_all2 (sh c) Ss xs"
  shows "\<exists>t. POpen c Ss s = Inr (map (\<lambda>x. x mod pr c) xs, t) \<and> mac_inv c t \<and> prep_part t = prep_part s \<and>
    popen_cnt t \<le> popen_cnt s + length Ss"
proof -
  let ?n = "num_players c" and ?ys = "map (\<lambda>x. x mod pr c) xs"
  let ?s0 = "s\<lparr>op_values := replicate ?n [], op_pos := 0\<rparr>"
  let ?vs = "map (\<lambda>i. map (\<lambda>S. share_a (S ! i)) Ss) [0..<?n]"
  let ?ms = "map (\<lambda>i. mc_macs s ! i @ map (\<lambda>S. share_mac (S ! i)) Ss) [0..<?n]"
  have n: "0 < ?n" "0 < pr c" using c by (auto simp: wf_field_def num_players_def)
  have len: "length Ss = length xs" using Ss by (rule list_all2_lengthD)
  have lens: "\<forall>S \<in> set Ss. length S = ?n"
    using Ss by (auto simp: list_all2_conv_all_nth in_set_conv_nth sh_def)
  have "map (\<lambda>i. op_values ?s0 ! i @ map (\<lambda>S. share_a (S ! i)) Ss) [0..<?n] = ?vs" by simp
  then obtain u where prep: "mapM prepare_open Ss ?s0 = Inr (u, ?s0\<lparr>op_values := ?vs, mc_macs := ?ms\<rparr>)"
    using prepare_open_list [of ?s0 ?n Ss] lens inv by (auto simp: mac_inv_def)
  have "shaped (pr c) ?n (length xs) ?vs"
    using Ss len by (auto simp: shaped_def list_all2_conv_all_nth in_set_conv_nth sh_def share_in_field_def)
      (metis nth_mem)
  then have run: "(tree_run (pr c) ?n 0 OPENING_SUM MAX_BROADCAST ?vs :: (mpc, int list list) m) =
      ret (replicate ?n (map (\<lambda>j. (\<Sum>i<?n. ?vs ! i ! j) mod pr c) [0..<length xs]))"
    using n by (intro tree_run_sum) (auto simp: OPENING_SUM_def MAX_BROADCAST_def)
  have tot: "map (\<lambda>j. (\<Sum>i<?n. ?vs ! i ! j) mod pr c) [0..<length xs] = ?ys"
  proof (rule nth_equalityI)
    fix j assume "j < length (map (\<lambda>j. (\<Sum>i<?n. ?vs ! i ! j) mod pr c) [0..<length xs])"
    then have j: "j < length xs" by simp
    then have "sh c (Ss ! j) (xs ! j)" using Ss by (simp add: list_all2_conv_all_nth)
    then show "map (\<lambda>j. (\<Sum>i<?n. ?vs ! i ! j) mod pr c) [0..<length xs] ! j = ?ys ! j"
      using j len sum_list_share [of "Ss ! j" ?n share_a] by (simp add: sh_def)
  qed simp
  let ?s1 = "s\<lparr>mc_macs := ?ms, mc_vals := map (\<lambda>i. mc_vals s ! i @ ?ys) [0..<?n],
      popen_cnt := popen_cnt s + length xs, op_values := replicate ?n ?ys, op_pos := 0,
      values_opened := values_opened s + length xs\<rparr>"
  have "map2 (@) (mc_vals s) (replicate ?n ?ys) = map (\<lambda>i. mc_vals s ! i @ ?ys) [0..<?n]"
    using inv by (auto simp: mac_inv_def intro: nth_equalityI)
  then have ex: "exchange c (?s0\<lparr>op_values := ?vs, mc_macs := ?ms\<rparr>) = check_if_needed c
      (s\<lparr>op_values := replicate ?n [], op_pos := 0, op_values := ?vs, mc_macs := ?ms,
        mc_vals := map (\<lambda>i. mc_vals s ! i @ ?ys) [0..<?n], op_values := replicate ?n ?ys,
        values_opened := values_opened s + length xs, popen_cnt := popen_cnt s + length xs\<rparr>)"
    using n run [unfolded tot]
    by (simp add: exchange_def add_to_values_def bnd_def gets_def modify_def ret_def)
  also have "s\<lparr>op_values := replicate ?n [], op_pos := 0, op_values := ?vs, mc_macs := ?ms,
        mc_vals := map (\<lambda>i. mc_vals s ! i @ ?ys) [0..<?n], op_values := replicate ?n ?ys,
        values_opened := values_opened s + length xs, popen_cnt := popen_cnt s + length xs\<rparr> = ?s1"
    by (rule mpc.equality) simp_all
  finally have ex: "exchange c (?s0\<lparr>op_values := ?vs, mc_macs := ?ms\<rparr>) = check_if_needed c ?s1" .
  obtain t where t: "check_if_needed c ?s1 = Inr ((), t)" "mac_inv c t" "cleared ?s1 t" "popen_cnt t \<le> popen_cnt ?s1"
    using check_if_needed_ok [OF c mac_inv_append [OF inv Ss]] by blast
  have parts: "op_values t = replicate ?n ?ys" "op_pos t = 0" "prep_part t = prep_part s"
    using cleared_parts [OF t(3)] by (simp_all add: prep_part_def)
  have fin: "mapM (\<lambda>_. finalize_open c) Ss t = Inr (?ys, t\<lparr>op_pos := length Ss\<rparr>)"
    using finalize_open_list [of t ?n ?ys c Ss] parts n len by simp
  have "POpen c Ss s = Inr (?ys, t\<lparr>op_pos := length Ss\<rparr>)"
    using prep ex t(1) fin
    by (simp add: POpen_def POpen_Begin_def POpen_End_def init_open_def bnd_def modify_def)
  then show ?thesis
    using t(2,4) parts(3) len by (auto simp: mac_inv_def prep_part_def)
qed

end
