(* ===== verification/Prep.thy ===== *)
theory Prep
  imports MacCheck
begin

text \<open>
  Preprocessing: the buffers of \<open>BufferPrep\<close> (\<open>Protocols/ReplicatedPrep.hpp\<close>), their
  refill by the MASCOT classes of \<open>Protocols/MascotPrep.hpp\<close> and the counting of
  \<open>Preprocessing\<close> (\<open>Processor/Data_Files.h\<close>). The oblivious-transfer generator behind
  triples, bits and input masks is a parameter of the context; squares are derived from
  triples by the code's own \<open>BitPrep::buffer_squares\<close>, which is modelled.
\<close>

section \<open>Triples\<close>

definition buffer_triples :: "ctx \<Rightarrow> (mpc, unit) m" where
  "buffer_triples c =
     bnd (gets triple_calls) (\<lambda>k.
     bnd (modify (\<lambda>s. s\<lparr>triple_calls := Suc k\<rparr>)) (\<lambda>_.
     bnd (check (triple_gen c k \<noteq> []) Assertion_failed) (\<lambda>_.
     modify (\<lambda>s. s\<lparr>triples := triples s @ triple_gen c k\<rparr>))))"

definition get_three_no_count :: "ctx \<Rightarrow> (mpc, jshare \<times> jshare \<times> jshare) m" where
  "get_three_no_count c =
     bnd (gets triples) (\<lambda>ts.
     bnd (if ts = [] then buffer_triples c else ret ()) (\<lambda>_.
     bnd (gets triples) (\<lambda>ts.
     bnd (check (ts \<noteq> []) Assertion_failed) (\<lambda>_.
     bnd (modify (\<lambda>s. s\<lparr>triples := butlast ts\<rparr>)) (\<lambda>_.
     ret (last ts))))))"

text \<open>\<open>Preprocessing::get_triple\<close>, which counts and then takes a triple.\<close>

definition get_triple :: "ctx \<Rightarrow> (mpc, jshare \<times> jshare \<times> jshare) m" where
  "get_triple c =
     bnd (modify (\<lambda>s. s\<lparr>use_triples := Suc (use_triples s)\<rparr>)) (\<lambda>_. get_three_no_count c)"

section \<open>Squares\<close>

text \<open>
  \<open>BitPrep::buffer_squares\<close>: for a triple \<open>(a, b, ab)\<close> it opens \<open>a + b\<close> and keeps
  \<open>(a, a (a + b) - ab)\<close>.
\<close>

definition buffer_squares :: "ctx \<Rightarrow> (mpc, unit) m" where
  "buffer_squares c =
     bnd (mapM (\<lambda>_. get_three_no_count c) [0..<buffer_size c]) (\<lambda>ts.
     bnd (POpen c (map (\<lambda>(a, b, _). j_add c a b) ts)) (\<lambda>opened.
     modify (\<lambda>s. s\<lparr>squares := squares s @
       map2 (\<lambda>(a, _, cc) v. (a, j_sub c (j_mul c a v) cc)) ts opened\<rparr>)))"

text \<open>\<open>get_two_no_count\<close> for \<open>DATA_SQUARE\<close>; \<open>back()\<close> of an empty vector is undefined.\<close>

definition get_two_no_count :: "ctx \<Rightarrow> (mpc, jshare \<times> jshare) m" where
  "get_two_no_count c =
     bnd (gets squares) (\<lambda>sq.
     bnd (if sq = [] then buffer_squares c else ret ()) (\<lambda>_.
     bnd (gets squares) (\<lambda>sq.
     bnd (check (sq \<noteq> []) Out_of_range) (\<lambda>_.
     bnd (modify (\<lambda>s. s\<lparr>squares := butlast sq\<rparr>)) (\<lambda>_.
     ret (last sq))))))"

definition get_square :: "ctx \<Rightarrow> (mpc, jshare \<times> jshare) m" where
  "get_square c =
     bnd (modify (\<lambda>s. s\<lparr>use_squares := Suc (use_squares s)\<rparr>)) (\<lambda>_. get_two_no_count c)"

section \<open>Bits\<close>

definition buffer_bits :: "ctx \<Rightarrow> (mpc, unit) m" where
  "buffer_bits c =
     bnd (gets bit_calls) (\<lambda>k.
     bnd (modify (\<lambda>s. s\<lparr>bit_calls := Suc k\<rparr>)) (\<lambda>_.
     bnd (check (bit_gen c k \<noteq> []) Assertion_failed) (\<lambda>_.
     modify (\<lambda>s. s\<lparr>bits := bits s @ bit_gen c k\<rparr>))))"

text \<open>
  The code refills while the buffer is empty; a refill asserts that it produced bits, so
  the loop runs at most once.
\<close>

definition get_one_no_count :: "ctx \<Rightarrow> (mpc, jshare) m" where
  "get_one_no_count c =
     bnd (gets bits) (\<lambda>bs.
     bnd (if bs = [] then buffer_bits c else ret ()) (\<lambda>_.
     bnd (gets bits) (\<lambda>bs.
     bnd (modify (\<lambda>s. s\<lparr>bits := butlast bs\<rparr>)) (\<lambda>_.
     ret (last bs)))))"

definition get_bit :: "ctx \<Rightarrow> (mpc, jshare) m" where
  "get_bit c =
     bnd (modify (\<lambda>s. s\<lparr>use_bits := Suc (use_bits s)\<rparr>)) (\<lambda>_. get_one_no_count c)"

section \<open>Input masks\<close>

definition buffer_inputs :: "ctx \<Rightarrow> nat \<Rightarrow> (mpc, unit) m" where
  "buffer_inputs c player =
     bnd (gets (\<lambda>s. input_calls s player)) (\<lambda>k.
     modify (\<lambda>s. s\<lparr>input_calls := (input_calls s)(player := Suc k),
       inputs := (resize [] (max (length (inputs s)) (Suc player)) (inputs s))
         [player := resize [] (max (length (inputs s)) (Suc player)) (inputs s) ! player @ input_gen c player k]\<rparr>))"

definition get_input_no_count :: "ctx \<Rightarrow> nat \<Rightarrow> (mpc, jshare \<times> int) m" where
  "get_input_no_count c i =
     bnd (modify (\<lambda>s. s\<lparr>inputs := resize [] (max (length (inputs s)) (Suc i)) (inputs s)\<rparr>)) (\<lambda>_.
     bnd (gets (\<lambda>s. inputs s ! i)) (\<lambda>is.
     bnd (if is = [] then buffer_inputs c i else ret ()) (\<lambda>_.
     bnd (gets (\<lambda>s. inputs s ! i)) (\<lambda>is.
     bnd (check (is \<noteq> []) Out_of_range) (\<lambda>_.
     bnd (modify (\<lambda>s. s\<lparr>inputs := (inputs s)[i := butlast is]\<rparr>)) (\<lambda>_.
     ret (last is)))))))"

definition get_input :: "ctx \<Rightarrow> nat \<Rightarrow> (mpc, jshare \<times> int) m" where
  "get_input c i =
     bnd (modify (\<lambda>s. s\<lparr>use_inputs := (use_inputs s)(i := Suc (use_inputs s i))\<rparr>)) (\<lambda>_.
     get_input_no_count c i)"

section \<open>What the buffers hold\<close>

definition triple_is :: "ctx \<Rightarrow> jshare \<times> jshare \<times> jshare \<Rightarrow> int \<Rightarrow> int \<Rightarrow> bool" where
  "triple_is c t u v \<longleftrightarrow>
     sh c (fst t) u \<and> sh c (fst (snd t)) v \<and> sh c (snd (snd t)) (u * v)"

text \<open>
  The first components of triples mask squares and inverses. They are random, so that with
  negligible probability one is zero; \<open>masks_nonzero\<close> says that none of the generator's is.
\<close>

definition nonzero :: "ctx \<Rightarrow> jshare \<Rightarrow> bool" where
  "nonzero c S \<longleftrightarrow> (\<forall>u. sh c S u \<longrightarrow> u mod pr c \<noteq> 0)"

definition masks_nonzero :: "ctx \<Rightarrow> bool" where
  "masks_nonzero c \<longleftrightarrow> (\<forall>k. \<forall>t \<in> set (triple_gen c k). nonzero c (fst t))"

definition triple_ok :: "ctx \<Rightarrow> jshare \<times> jshare \<times> jshare \<Rightarrow> bool" where
  "triple_ok c t \<longleftrightarrow> (\<exists>u v. triple_is c t u v) \<and> (masks_nonzero c \<longrightarrow> nonzero c (fst t))"

definition square_ok :: "ctx \<Rightarrow> jshare \<times> jshare \<Rightarrow> bool" where
  "square_ok c q \<longleftrightarrow>
     (\<exists>u. sh c (fst q) u \<and> sh c (snd q) (u * u)) \<and> (masks_nonzero c \<longrightarrow> nonzero c (fst q))"

definition bit_ok :: "ctx \<Rightarrow> jshare \<Rightarrow> bool" where
  "bit_ok c b \<longleftrightarrow> sh c b 0 \<or> sh c b 1"

definition input_ok :: "ctx \<Rightarrow> jshare \<times> int \<Rightarrow> bool" where
  "input_ok c i \<longleftrightarrow> in_field (pr c) (snd i) \<and> sh c (fst i) (snd i)"

definition prep_inv :: "ctx \<Rightarrow> mpc \<Rightarrow> bool" where
  "prep_inv c s \<longleftrightarrow>
     (\<forall>t \<in> set (triples s). triple_ok c t) \<and> (\<forall>q \<in> set (squares s). square_ok c q) \<and>
     (\<forall>b \<in> set (bits s). bit_ok c b) \<and> (\<forall>is \<in> set (inputs s). \<forall>i \<in> set is. input_ok c i)"

text \<open>
  A well-formed context: the field and the keys, and generators that never return an empty
  batch and only valid sharings (what the MASCOT protocol guarantees for honest parties).
\<close>

definition wf :: "ctx \<Rightarrow> bool" where
  "wf c \<longleftrightarrow>
     wf_field c \<and> 0 < buffer_size c \<and>
     (\<forall>k. triple_gen c k \<noteq> [] \<and> (\<forall>t \<in> set (triple_gen c k). triple_ok c t)) \<and>
     (\<forall>k. bit_gen c k \<noteq> [] \<and> (\<forall>b \<in> set (bit_gen c k). bit_ok c b)) \<and>
     (\<forall>i k. input_gen c i k \<noteq> [] \<and> (\<forall>x \<in> set (input_gen c i k). input_ok c x))"

definition good :: "ctx \<Rightarrow> mpc \<Rightarrow> bool" where
  "good c s \<longleftrightarrow> mac_inv c s \<and> prep_inv c s"

lemma wf_wf_field [prog, intro]: "wf c \<Longrightarrow> wf_field c"
  by (simp add: wf_def)

lemma wf_pr: "wf c \<Longrightarrow> 1 < pr c"
  by (simp add: wf_def wf_field_def)

lemma wf_players: "wf c \<Longrightarrow> 0 < num_players c"
  by (simp add: wf_def wf_field_def num_players_def)

lemma prep_inv_cong: "prep_part t = prep_part s \<Longrightarrow> prep_inv c t = prep_inv c s"
  by (simp add: prep_inv_def prep_part_def)

lemma mac_inv_frame [simp]:
  "mac_inv c (s\<lparr>triples := x\<rparr>) = mac_inv c s" "mac_inv c (s\<lparr>squares := x2\<rparr>) = mac_inv c s"
  "mac_inv c (s\<lparr>bits := x3\<rparr>) = mac_inv c s" "mac_inv c (s\<lparr>inputs := x4\<rparr>) = mac_inv c s"
  "mac_inv c (s\<lparr>triple_calls := x5\<rparr>) = mac_inv c s" "mac_inv c (s\<lparr>bit_calls := x6\<rparr>) = mac_inv c s"
  "mac_inv c (s\<lparr>input_calls := x7\<rparr>) = mac_inv c s" "mac_inv c (s\<lparr>use_triples := x8\<rparr>) = mac_inv c s"
  "mac_inv c (s\<lparr>use_squares := x9\<rparr>) = mac_inv c s" "mac_inv c (s\<lparr>use_bits := x10\<rparr>) = mac_inv c s"
  "mac_inv c (s\<lparr>use_inputs := x11\<rparr>) = mac_inv c s"
  by (simp_all add: mac_inv_def)

lemma runs_POpen [prog]:
  assumes "wf c" "list_all2 (sh c) Ss xs"
  shows "keeps (good c) (POpen c Ss) (\<lambda>r. r = map (\<lambda>x. x mod pr c) xs) E"
proof (rule keeps_stateI)
  fix s assume s: "good c s"
  then have "mac_inv c s" by (simp add: good_def)
  then obtain t where t: "POpen c Ss s = Inr (map (\<lambda>x. x mod pr c) xs, t)" "mac_inv c t" "prep_part t = prep_part s"
    using POpen_ok [OF wf_wf_field [OF assms(1)] _ assms(2)] by blast
  then have "good c t" using s prep_inv_cong [OF t(3)] by (simp add: good_def)
  with t(1) show "\<exists>x t. POpen c Ss s = Inr (x, t) \<and> good c t \<and> x = map (\<lambda>x. x mod pr c) xs" by blast
qed

lemma runs_Check [prog]: "wf c \<Longrightarrow> keeps (good c) (Check c) (\<lambda>_. True) E"
proof (rule keeps_stateI)
  fix s assume c: "wf c" and s: "good c s"
  then have "mac_inv c s" by (simp add: good_def)
  then obtain t where t: "Check c s = Inr ((), t)" "mac_inv c t" "cleared s t"
    using Check_ok [OF wf_wf_field [OF c]] by blast
  then have "good c t" using s cleared_parts [OF t(3)] prep_inv_cong [of t s c] by (simp add: good_def)
  with t(1) show "\<exists>x t. Check c s = Inr (x, t) \<and> good c t \<and> True" by blast
qed

lemma all_butlast: "\<forall>x \<in> set xs. P x \<Longrightarrow> \<forall>x \<in> set (butlast xs). P x"
  by (meson in_set_butlastD)

lemma all_last: "xs \<noteq> [] \<Longrightarrow> \<forall>x \<in> set xs. P x \<Longrightarrow> P (last xs)"
  by simp

lemma runs_get_three_no_count [prog]:
  assumes "wf c"
  shows "keeps (good c) (get_three_no_count c) (triple_ok c) E"
proof (rule keeps_stateI)
  fix s assume s: "good c s"
  let ?k = "triple_calls s"
  have gen: "triple_gen c ?k \<noteq> []" "\<forall>t \<in> set (triple_gen c ?k). triple_ok c t"
    using assms by (simp_all add: wf_def)
  show "\<exists>x t. get_three_no_count c s = Inr (x, t) \<and> good c t \<and> triple_ok c x"
  proof (cases "triples s = []")
    case True
    then show ?thesis
      using s gen all_butlast [OF gen(2)] all_last [OF gen]
      by (simp add: get_three_no_count_def buffer_triples_def monad_defs good_def prep_inv_def)
  next
    case False
    then show ?thesis
      using s all_butlast [of "triples s" "triple_ok c"] all_last [of "triples s" "triple_ok c"]
      by (simp add: get_three_no_count_def monad_defs good_def prep_inv_def)
  qed
qed

lemma keeps_modify_use:
  assumes "\<And>s. good c (f s) = good c s" "keeps (good c) p Q E"
  shows "keeps (good c) (bnd (modify f) (\<lambda>_. p)) Q E"
  using assms by (simp add: keeps_def bnd_def modify_def)

lemma runs_get_triple [prog]: "wf c \<Longrightarrow> keeps (good c) (get_triple c) (triple_ok c) E"
  unfolding get_triple_def
  by (rule keeps_modify_use) (auto simp: good_def prep_inv_def intro: runs_get_three_no_count)

lemma triple_square:
  assumes "wf c" "triple_is c t u v"
  shows "sh c (j_sub c (j_mul c (fst t) ((u + v) mod pr c)) (snd (snd t))) (u * u)"
proof -
  have "sh c (j_sub c (j_mul c (fst t) ((u + v) mod pr c)) (snd (snd t))) (u * ((u + v) mod pr c) - u * v)"
    using assms by (auto simp: triple_is_def intro!: sh_sub sh_mul)
  moreover have "(u * ((u + v) mod pr c) - u * v) mod pr c = (u * (u + v) - u * v) mod pr c"
    by (rule mod_diff_cong) (simp_all add: mod_mult_right_eq)
  ultimately show ?thesis by (rule sh_cong [OF _ trans]) (simp add: algebra_simps)
qed

lemma triples_values:
  "\<forall>t \<in> set ts. triple_ok c t \<Longrightarrow>
   \<exists>uvs. list_all2 (\<lambda>t uv. triple_is c t (fst uv) (snd uv)) ts uvs"
proof (induction ts)
  case Nil
  then show ?case by simp
next
  case (Cons t ts)
  then obtain uvs where "list_all2 (\<lambda>t uv. triple_is c t (fst uv) (snd uv)) ts uvs" by auto
  moreover obtain u v where "triple_is c t u v" using Cons by (auto simp: triple_ok_def)
  ultimately show ?case by (intro exI [of _ "(u, v) # uvs"]) simp
qed

lemma new_squares_ok:
  assumes c: "wf c" and uvs: "list_all2 (\<lambda>t uv. triple_is c t (fst uv) (snd uv)) ts uvs"
    and ok: "\<forall>t \<in> set ts. triple_ok c t"
  shows "\<forall>q \<in> set (map2 (\<lambda>(a, _, cc) v. (a, j_sub c (j_mul c a v) cc)) ts
     (map (\<lambda>x. x mod pr c) (map (\<lambda>(u, v). u + v) uvs))). square_ok c q"
  using uvs ok
proof (induction ts uvs rule: list_all2_induct)
  case Nil
  then show ?case by simp
next
  case (Cons t ts uv uvs)
  obtain u v where uv: "uv = (u, v)" by fastforce
  have "masks_nonzero c \<longrightarrow> nonzero c (fst t)" using Cons.prems by (simp add: triple_ok_def)
  then have "square_ok c (fst t, j_sub c (j_mul c (fst t) ((u + v) mod pr c)) (snd (snd t)))"
    using triple_square [of c t u v] c Cons(1) uv by (auto simp: square_ok_def triple_is_def)
  then show ?case using Cons.IH Cons.prems uv by (simp add: case_prod_beta)
qed

lemma buffer_squares_ok:
  assumes c: "wf c" and s: "good c s"
  shows "\<exists>t. buffer_squares c s = Inr ((), t) \<and> good c t \<and> squares t \<noteq> []"
proof -
  let ?n = "buffer_size c"
  have n: "0 < ?n" using c by (simp add: wf_def)
  obtain ts t where ts: "mapM (\<lambda>_. get_three_no_count c) [0..<?n] s = Inr (ts, t)" "good c t"
      "list_all2 (\<lambda>_. triple_ok c) [0..<?n] ts"
    using runs_returns [OF keeps_mapM [OF runs_get_three_no_count [OF c]] s] by blast
  have len: "length ts = ?n" using list_all2_lengthD [OF ts(3)] by simp
  have ok: "\<forall>t \<in> set ts. triple_ok c t"
    using ts(3) by (simp add: list_all2_conv_all_nth all_set_conv_all_nth)
  then obtain uvs where uvs: "list_all2 (\<lambda>t uv. triple_is c t (fst uv) (snd uv)) ts uvs"
    using triples_values by blast
  let ?sums = "map (\<lambda>(u, v). u + v) uvs" and ?Ss = "map (\<lambda>(a, b, _). j_add c a b) ts"
  have "list_all2 (sh c) ?Ss ?sums"
    using uvs by (auto simp: list_all2_conv_all_nth triple_is_def case_prod_beta intro!: sh_add)
  then obtain t' where t': "POpen c ?Ss t = Inr (map (\<lambda>x. x mod pr c) ?sums, t')" "good c t'"
    using runs_returns [OF runs_POpen [OF c] ts(2)] by blast
  let ?new = "map2 (\<lambda>(a, _, cc) v. (a, j_sub c (j_mul c a v) cc)) ts (map (\<lambda>x. x mod pr c) ?sums)"
  have "buffer_squares c s = Inr ((), t'\<lparr>squares := squares t' @ ?new\<rparr>)"
    using ts(1) t'(1) by (simp add: buffer_squares_def bnd_def modify_def)
  moreover have "good c (t'\<lparr>squares := squares t' @ ?new\<rparr>)"
    using t'(2) new_squares_ok [OF c uvs ok] by (auto simp: good_def prep_inv_def)
  moreover have "length uvs = ?n" using list_all2_lengthD [OF uvs] len by simp
  then have "?new \<noteq> []" using len n by (cases ts; cases uvs) auto
  ultimately show ?thesis by auto
qed

lemma runs_get_two_no_count [prog]:
  assumes "wf c"
  shows "keeps (good c) (get_two_no_count c) (square_ok c) E"
proof (rule keeps_stateI)
  fix s assume s: "good c s"
  have take: "good c (t\<lparr>squares := butlast (squares t)\<rparr>) \<and> square_ok c (last (squares t))"
    if "good c t" "squares t \<noteq> []" for t
    using that all_butlast [of "squares t" "square_ok c"] all_last [of "squares t" "square_ok c"]
    by (simp add: good_def prep_inv_def)
  show "\<exists>x t. get_two_no_count c s = Inr (x, t) \<and> good c t \<and> square_ok c x"
  proof (cases "squares s = []")
    case True
    obtain t where "buffer_squares c s = Inr ((), t)" "good c t" "squares t \<noteq> []"
      using buffer_squares_ok [OF assms s] by blast
    then show ?thesis using True take by (simp add: get_two_no_count_def monad_defs)
  next
    case False
    then show ?thesis using s take by (simp add: get_two_no_count_def monad_defs)
  qed
qed

lemma runs_get_square [prog]: "wf c \<Longrightarrow> keeps (good c) (get_square c) (square_ok c) E"
  unfolding get_square_def
  by (rule keeps_modify_use) (auto simp: good_def prep_inv_def intro: runs_get_two_no_count)

lemma runs_get_one_no_count [prog]:
  assumes "wf c"
  shows "keeps (good c) (get_one_no_count c) (bit_ok c) E"
proof (rule keeps_stateI)
  fix s assume s: "good c s"
  let ?k = "bit_calls s"
  have gen: "bit_gen c ?k \<noteq> []" "\<forall>t \<in> set (bit_gen c ?k). bit_ok c t"
    using assms by (simp_all add: wf_def)
  show "\<exists>x t. get_one_no_count c s = Inr (x, t) \<and> good c t \<and> bit_ok c x"
  proof (cases "bits s = []")
    case True
    then show ?thesis
      using s gen all_butlast [OF gen(2)] all_last [OF gen]
      by (simp add: get_one_no_count_def buffer_bits_def monad_defs good_def prep_inv_def)
  next
    case False
    then show ?thesis
      using s all_butlast [of "bits s" "bit_ok c"] all_last [of "bits s" "bit_ok c"]
      by (simp add: get_one_no_count_def monad_defs good_def prep_inv_def)
  qed
qed

lemma runs_get_bit [prog]: "wf c \<Longrightarrow> keeps (good c) (get_bit c) (bit_ok c) E"
  unfolding get_bit_def
  by (rule keeps_modify_use) (auto simp: good_def prep_inv_def intro: runs_get_one_no_count)

lemma set_resize: "set (resize z n xs) \<subseteq> insert z (set xs)"
  by (auto simp: resize_def dest: in_set_takeD)

lemma inputs_ok_update:
  "\<forall>is \<in> set xss. \<forall>i \<in> set is. P i \<Longrightarrow> \<forall>i \<in> set is. P i \<Longrightarrow>
     \<forall>is \<in> set (xss[k := is]). \<forall>i \<in> set is. P i"
  by (auto dest!: set_update_subset_insert [THEN subsetD])

lemma runs_get_input_no_count [prog]:
  assumes "wf c"
  shows "keeps (good c) (get_input_no_count c i) (input_ok c) E"
proof (rule keeps_stateI)
  fix s assume s: "good c s"
  let ?r = "resize [] (max (length (inputs s)) (Suc i)) (inputs s)"
  let ?k = "input_calls s i"
  have r: "\<forall>is \<in> set ?r. \<forall>x \<in> set is. input_ok c x"
    using s set_resize [of "[]" "max (length (inputs s)) (Suc i)" "inputs s"]
    by (fastforce simp: good_def prep_inv_def)
  have i: "i < length ?r" by simp
  then have ri: "\<forall>x \<in> set (?r ! i). input_ok c x" using r nth_mem by blast
  have gen: "input_gen c i ?k \<noteq> []" "\<forall>x \<in> set (input_gen c i ?k). input_ok c x"
    using assms by (simp_all add: wf_def)
  show "\<exists>x t. get_input_no_count c i s = Inr (x, t) \<and> good c t \<and> input_ok c x"
  proof (cases "?r ! i = []")
    case True
    have "\<forall>is \<in> set (?r[i := butlast (input_gen c i ?k)]). \<forall>x \<in> set is. input_ok c x"
      using inputs_ok_update [OF r all_butlast [OF gen(2)]] .
    then show ?thesis
      using True s gen i all_last [OF gen]
      by (simp add: get_input_no_count_def buffer_inputs_def monad_defs good_def prep_inv_def)
  next
    case False
    have "\<forall>is \<in> set (?r[i := butlast (?r ! i)]). \<forall>x \<in> set is. input_ok c x"
      using inputs_ok_update [OF r all_butlast [OF ri]] .
    then show ?thesis
      using False s i all_last [OF False ri]
      by (simp add: get_input_no_count_def monad_defs good_def prep_inv_def)
  qed
qed

lemma runs_get_input [prog]: "wf c \<Longrightarrow> keeps (good c) (get_input c i) (input_ok c) E"
  unfolding get_input_def
  by (rule keeps_modify_use) (auto simp: good_def prep_inv_def intro: runs_get_input_no_count)

end
