(* ===== verification/Demo.thy ===== *)
theory Demo
  imports Prep
begin

text \<open>
  A concrete context: two players, the field of seven elements, and generators that return
  valid sharings. The examples that show the hypotheses of the properties to be satisfiable
  are stated over it.
\<close>

definition demo_share :: "int \<Rightarrow> jshare" where
  "demo_share x = [\<lparr>share_a = 1, share_mac = 2\<rparr>,
     \<lparr>share_a = (x - 1) mod 7, share_mac = (5 * x - 2) mod 7\<rparr>]"

definition demo_gcdext :: "int \<Rightarrow> int \<Rightarrow> int \<times> int" where
  "demo_gcdext x p = (gcd x p, hd (filter (\<lambda>s. (s * x) mod p = gcd x p mod p) [0..p - 1]))"

definition demo_legendre :: "int \<Rightarrow> int \<Rightarrow> int" where
  "demo_legendre a p =
     (if a mod p = 0 then 0 else if list_ex (\<lambda>y. (y * y) mod p = a mod p) [0..p - 1] then 1 else - 1)"

definition demo :: ctx where
  "demo = \<lparr>pr = 7, alphas = [3, 2], gcdext = demo_gcdext, legendre_sym = demo_legendre,
     triple_gen = (\<lambda>_. [(demo_share 2, demo_share 3, demo_share 6), (demo_share 4, demo_share 5, demo_share 20)]),
     bit_gen = (\<lambda>_. [demo_share 0, demo_share 1]), input_gen = (\<lambda>_ _. [(demo_share 3, 3)]),
     mc_coin = (\<lambda>k j. int (k + j) mod 7), buffer_size = 2\<rparr>"

definition demo_state :: mpc where
  "demo_state = \<lparr>triples = [], squares = [], bits = [], inputs = [], triple_calls = 0, bit_calls = 0,
     input_calls = (\<lambda>_. 0), use_triples = 0, use_squares = 0, use_bits = 0, use_inputs = (\<lambda>_. 0),
     op_values = [[], []], op_pos = 0, mc_vals = [[], []], mc_macs = [[], []], popen_cnt = 0,
     values_opened = 0, mc_checks = 0\<rparr>"

lemma demo_simps [simp]:
  "pr demo = 7" "alphas demo = [3, 2]" "gcdext demo = demo_gcdext" "legendre_sym demo = demo_legendre"
  "num_players demo = 2" "alpha demo = 5" "buffer_size demo = 2"
  by (simp_all add: demo_def num_players_def alpha_def)

lemma demo_wf_field [simp]: "wf_field demo"
  by (simp add: wf_field_def in_field_def)

lemma sh_demo_share [simp]: "sh demo (demo_share x) x"
proof -
  have "(2 + (5 * x - 2) mod 7) mod 7 = (2 + (5 * x - 2)) mod 7" by (rule mod_add_right_eq)
  moreover have "(1 + (x - 1) mod 7) mod 7 = (1 + (x - 1)) mod 7" by (rule mod_add_right_eq)
  ultimately show ?thesis by (simp add: sh_def demo_share_def share_in_field_def in_field_def)
qed

lemma demo_nonzero: "x mod 7 \<noteq> 0 \<Longrightarrow> nonzero demo (demo_share x)"
  using sh_unique [OF sh_demo_share] by (fastforce simp: nonzero_def)

lemma demo_masks_nonzero [simp]: "masks_nonzero demo"
  using demo_nonzero [of 2] demo_nonzero [of 4]
  by (simp add: masks_nonzero_def demo_def [THEN arg_cong [of _ _ triple_gen]])

lemma demo_wf [simp]: "wf demo"
proof -
  have "triple_is demo (demo_share 2, demo_share 3, demo_share 6) 2 3"
    "triple_is demo (demo_share 4, demo_share 5, demo_share 20) 4 5"
    using sh_demo_share [of 6] sh_demo_share [of 20] by (simp_all add: triple_is_def)
  then have "triple_ok demo (demo_share 2, demo_share 3, demo_share 6)"
    "triple_ok demo (demo_share 4, demo_share 5, demo_share 20)"
    unfolding triple_ok_def using demo_nonzero by auto
  moreover have "bit_ok demo (demo_share 0)" "bit_ok demo (demo_share 1)" by (simp_all add: bit_ok_def)
  moreover have "input_ok demo (demo_share 3, 3)" by (simp add: input_ok_def in_field_def)
  ultimately show ?thesis
    unfolding wf_def by (simp add: demo_def [THEN arg_cong [of _ _ triple_gen]]
        demo_def [THEN arg_cong [of _ _ bit_gen]] demo_def [THEN arg_cong [of _ _ input_gen]])
qed

lemma demo_good [simp]: "good demo demo_state"
  by (auto simp: good_def mac_inv_def prep_inv_def demo_state_def less_2_cases_iff)

lemma demo_prime [simp]: "prime_int 7"
proof -
  have "{2..<7::int} = set [2, 3, 4, 5, 6]" by auto
  then show ?thesis unfolding prime_int_def by (simp add: dvd_def) presburger
qed

lemma demo_gcdext_spec [simp]: "gcdext_spec demo_gcdext"
  unfolding gcdext_spec_def
proof (intro allI impI)
  fix x p :: int assume x: "0 < x" "x < p"
  let ?P = "\<lambda>s. (s * x) mod p = gcd x p mod p"
  obtain u v where "u * x + v * p = gcd x p" using bezout_int by blast
  then have "gcd x p mod p = (u * x + v * p) mod p" by simp
  also have "\<dots> = ((u mod p) * x) mod p" by (simp add: mod_mult_left_eq)
  finally have "?P (u mod p)" by simp
  moreover have "u mod p \<in> set [0..p - 1]" using x by simp
  ultimately have "u mod p \<in> set (filter ?P [0..p - 1])" by simp
  then have "filter ?P [0..p - 1] \<noteq> []" by force
  then have "hd (filter ?P [0..p - 1]) \<in> set (filter ?P [0..p - 1])" by (rule hd_in_set)
  then show "fst (demo_gcdext x p) = gcd x p \<and> \<bar>snd (demo_gcdext x p)\<bar> < p \<and>
      (snd (demo_gcdext x p) * x) mod p = gcd x p mod p"
    by (auto simp: demo_gcdext_def)
qed

end
