(* ===== verification/Beaver.thy ===== *)
theory Beaver
  imports Demo
begin

text \<open>
  Multiplication by Beaver triples: class \<open>Beaver\<close> of \<open>Protocols/Beaver.h\<close> and
  \<open>Protocols/Beaver.hpp\<close>, with the inner product that \<open>ProtocolBase\<close> builds from it
  (\<open>Protocols/Replicated.h\<close>, \<open>Protocols/Replicated.hpp\<close>). The protocol object is a record
  beside the state: its vectors and the positions of its two iterators.
\<close>

record beaver =
  bv_shares :: "jshare list"
  bv_opened :: "int list"
  bv_triples :: "(jshare \<times> jshare \<times> jshare) list"
  bv_it :: nat
  bv_triple :: nat

definition init_mul :: beaver where
  "init_mul = \<lparr>bv_shares = [], bv_opened = [], bv_triples = [], bv_it = 0, bv_triple = 0\<rparr>"

definition prepare_mul :: "ctx \<Rightarrow> jshare \<Rightarrow> jshare \<Rightarrow> beaver \<Rightarrow> (mpc, beaver) m" where
  "prepare_mul c x y b =
     bnd (get_triple c) (\<lambda>t.
     ret (b\<lparr>bv_triples := bv_triples b @ [t],
           bv_shares := bv_shares b @ [j_sub c x (fst t), j_sub c y (fst (snd t))]\<rparr>))"

definition mul_start_exchange :: "ctx \<Rightarrow> beaver \<Rightarrow> (mpc, unit) m" where
  "mul_start_exchange c b = POpen_Begin c (bv_shares b)"

definition mul_stop_exchange :: "ctx \<Rightarrow> beaver \<Rightarrow> (mpc, beaver) m" where
  "mul_stop_exchange c b =
     bnd (POpen_End c (bv_shares b)) (\<lambda>opened.
     ret (b\<lparr>bv_opened := opened, bv_it := 0, bv_triple := 0\<rparr>))"

definition mul_exchange :: "ctx \<Rightarrow> beaver \<Rightarrow> (mpc, beaver) m" where
  "mul_exchange c b =
     bnd (POpen c (bv_shares b)) (\<lambda>opened.
     ret (b\<lparr>bv_opened := opened, bv_it := 0, bv_triple := 0\<rparr>))"

text \<open>
  \<open>tmp\<close> is a reference to the third component of the triple, which the code overwrites
  with the product.
\<close>

definition beaver_product :: "ctx \<Rightarrow> jshare \<times> jshare \<times> jshare \<Rightarrow> int \<Rightarrow> int \<Rightarrow> jshare" where
  "beaver_product c t masked0 masked1 =
     (let tmp = j_add c (snd (snd t)) (j_mul c (fst (snd t)) masked0);
          tmp = j_add c tmp (j_mul c (fst t) masked1)
      in j_add c tmp (j_constant c (gf_mul (pr c) masked0 masked1)))"

definition finalize_mul :: "ctx \<Rightarrow> beaver \<Rightarrow> (mpc, jshare \<times> beaver) m" where
  "finalize_mul c b =
     bnd (at (bv_triples b) (bv_triple b)) (\<lambda>t.
     bnd (at (bv_opened b) (bv_it b)) (\<lambda>masked0.
     bnd (at (bv_opened b) (Suc (bv_it b))) (\<lambda>masked1.
     let tmp = beaver_product c t masked0 masked1
     in ret (tmp, b\<lparr>bv_it := bv_it b + 2,
                    bv_triples := (bv_triples b)[bv_triple b := (fst t, fst (snd t), tmp)],
                    bv_triple := Suc (bv_triple b)\<rparr>))))"

text \<open>The loops around the two operations, as the callers write them.\<close>

fun prepare_muls :: "ctx \<Rightarrow> (jshare \<times> jshare) list \<Rightarrow> beaver \<Rightarrow> (mpc, beaver) m" where
  "prepare_muls c [] b = ret b"
| "prepare_muls c ((x, y) # xys) b = bnd (prepare_mul c x y b) (\<lambda>b'. prepare_muls c xys b')"

fun finalize_muls :: "ctx \<Rightarrow> nat \<Rightarrow> beaver \<Rightarrow> (mpc, jshare list) m" where
  "finalize_muls c 0 b = ret []"
| "finalize_muls c (Suc n) b =
     bnd (finalize_mul c b) (\<lambda>(z, b'). bnd (finalize_muls c n b') (\<lambda>zs. ret (z # zs)))"

text \<open>\<open>ProtocolBase::finalize_dotprod\<close>.\<close>

fun finalize_dotprod_loop :: "ctx \<Rightarrow> nat \<Rightarrow> jshare \<Rightarrow> beaver \<Rightarrow> (mpc, jshare) m" where
  "finalize_dotprod_loop c 0 res b = ret res"
| "finalize_dotprod_loop c (Suc n) res b =
     bnd (finalize_mul c b) (\<lambda>(z, b'). finalize_dotprod_loop c n (j_add c res z) b')"

definition finalize_dotprod :: "ctx \<Rightarrow> nat \<Rightarrow> beaver \<Rightarrow> (mpc, jshare) m" where
  "finalize_dotprod c len b = finalize_dotprod_loop c len (j_zero c) b"

section \<open>The product of two sharings\<close>

lemma beaver_identity:
  "u * v + v * (x - u) + u * (y - v) + (x - u) * (y - v) = x * (y :: int)"
  by (simp add: algebra_simps)

lemma beaver_product_ok:
  assumes c: "wf_field c" and t: "triple_is c t u v"
    and m: "m0 = (x - u) mod pr c" "m1 = (y - v) mod pr c"
  shows "sh c (beaver_product c t m0 m1) (x * y)"
proof -
  have p: "0 < pr c" using c by (simp add: wf_field_def)
  have "sh c (beaver_product c t m0 m1) (u * v + v * m0 + u * m1 + gf_mul (pr c) m0 m1)"
    unfolding beaver_product_def Let_def using t c p
    by (intro sh_add sh_mul sh_constant in_field_mul) (simp_all add: triple_is_def)
  moreover have "(u * v + v * m0 + u * m1 + gf_mul (pr c) m0 m1) mod pr c =
      (u * v + v * (x - u) + u * (y - v) + (x - u) * (y - v)) mod pr c"
    unfolding m by (intro mod_add_cong)
      (simp_all add: gf_mul_def mod_mult_right_eq mod_mult_left_eq)
  ultimately show ?thesis
    by (rule sh_cong [OF _ trans]) (simp only: beaver_identity)
qed

text \<open>
  What the protocol object holds between the steps, for the list of pairs of values to be
  multiplied: after \<open>prepare_mul\<close>, and after \<open>exchange\<close> from the iterators on.
\<close>

definition prepared :: "ctx \<Rightarrow> (int \<times> int) list \<Rightarrow> beaver \<Rightarrow> bool" where
  "prepared c xys b \<longleftrightarrow>
     length (bv_triples b) = length xys \<and> length (bv_shares b) = 2 * length xys \<and>
     (\<forall>j < length xys. \<exists>u v. triple_is c (bv_triples b ! j) u v \<and>
        sh c (bv_shares b ! (2 * j)) (fst (xys ! j) - u) \<and>
        sh c (bv_shares b ! Suc (2 * j)) (snd (xys ! j) - v))"

definition ready :: "ctx \<Rightarrow> (int \<times> int) list \<Rightarrow> beaver \<Rightarrow> bool" where
  "ready c xys b \<longleftrightarrow>
     bv_triple b + length xys \<le> length (bv_triples b) \<and>
     bv_it b + 2 * length xys \<le> length (bv_opened b) \<and>
     (\<forall>j < length xys. \<exists>u v. triple_is c (bv_triples b ! (bv_triple b + j)) u v \<and>
        bv_opened b ! (bv_it b + 2 * j) = (fst (xys ! j) - u) mod pr c \<and>
        bv_opened b ! Suc (bv_it b + 2 * j) = (snd (xys ! j) - v) mod pr c)"

lemma prepared_init [simp]: "prepared c [] init_mul"
  by (simp add: prepared_def init_mul_def)

lemma prepared_snoc:
  assumes b: "prepared c xys b" and t: "triple_is c t u v" and S: "sh c X x" "sh c Y y"
  shows "prepared c (xys @ [(x, y)]) (b\<lparr>bv_triples := bv_triples b @ [t],
     bv_shares := bv_shares b @ [j_sub c X (fst t), j_sub c Y (fst (snd t))]\<rparr>)"
proof -
  let ?b = "b\<lparr>bv_triples := bv_triples b @ [t],
     bv_shares := bv_shares b @ [j_sub c X (fst t), j_sub c Y (fst (snd t))]\<rparr>"
  have "\<exists>u v. triple_is c (bv_triples ?b ! j) u v \<and>
        sh c (bv_shares ?b ! (2 * j)) (fst ((xys @ [(x, y)]) ! j) - u) \<and>
        sh c (bv_shares ?b ! Suc (2 * j)) (snd ((xys @ [(x, y)]) ! j) - v)"
    if j: "j < Suc (length xys)" for j
  proof (cases "j = length xys")
    case True
    have "sh c (j_sub c X (fst t)) (x - u)" "sh c (j_sub c Y (fst (snd t))) (y - v)"
      using t S by (auto simp: triple_is_def intro: sh_sub)
    then show ?thesis using True t b by (auto simp: prepared_def nth_append)
  next
    case False
    then have j: "j < length xys" using j by simp
    then have "2 * j < length (bv_shares b)" "Suc (2 * j) < length (bv_shares b)" "j < length (bv_triples b)"
      using b by (auto simp: prepared_def)
    then show ?thesis using b j by (simp add: prepared_def nth_append)
  qed
  then show ?thesis using b by (auto simp: prepared_def)
qed

lemma runs_prepare_mul:
  assumes "wf c" "prepared c xys b" "sh c X x" "sh c Y y"
  shows "keeps (good c) (prepare_mul c X Y b) (prepared c (xys @ [(x, y)])) E"
  unfolding prepare_mul_def
  by (rule keeps_bnd [OF runs_get_triple [OF assms(1)]], rule keeps_ret)
    (use assms prepared_snoc in \<open>auto simp: triple_ok_def\<close>)

lemma runs_prepare_muls:
  assumes "wf c"
  shows "list_all2 (\<lambda>S v. sh c (fst S) (fst v) \<and> sh c (snd S) (snd v)) XYs xys \<Longrightarrow> prepared c pre b \<Longrightarrow>
    keeps (good c) (prepare_muls c XYs b) (prepared c (pre @ xys)) E"
proof (induction XYs xys arbitrary: pre b rule: list_all2_induct)
  case Nil
  then show ?case by (simp add: keeps_ret)
next
  case (Cons XY XYs xy xys)
  obtain X Y x y where p: "XY = (X, Y)" "xy = (x, y)" by fastforce
  have "keeps (good c) (prepare_mul c X Y b) (prepared c (pre @ [(x, y)])) E"
    using Cons p assms by (intro runs_prepare_mul) auto
  moreover have "keeps (good c) (prepare_muls c XYs b') (prepared c (pre @ xy # xys)) E"
    if "prepared c (pre @ [(x, y)]) b'" for b'
    using Cons.IH [OF that] p by simp
  ultimately show ?case unfolding p by (auto intro: keeps_bnd)
qed

lemma prepared_shares:
  assumes "prepared c xys b"
  shows "\<exists>zs. list_all2 (sh c) (bv_shares b) zs"
proof -
  have "\<exists>z. sh c (bv_shares b ! i) z" if i: "i < length (bv_shares b)" for i
  proof -
    have j: "i div 2 < length xys" using i assms by (auto simp: prepared_def)
    have "i = 2 * (i div 2) \<or> i = Suc (2 * (i div 2))" by presburger
    with assms j show ?thesis unfolding prepared_def by metis
  qed
  then obtain f where "\<forall>i < length (bv_shares b). sh c (bv_shares b ! i) (f i)" by metis
  then show ?thesis
    by (intro exI [of _ "map f [0..<length (bv_shares b)]"]) (simp add: list_all2_conv_all_nth)
qed

lemma ready_prepared:
  assumes b: "prepared c xys b" and zs: "list_all2 (sh c) (bv_shares b) zs"
  shows "ready c xys (b\<lparr>bv_opened := map (\<lambda>z. z mod pr c) zs, bv_it := 0, bv_triple := 0\<rparr>)"
proof -
  have len: "length zs = 2 * length xys"
    using b list_all2_lengthD [OF zs] by (simp add: prepared_def)
  have z: "zs ! i mod pr c = v mod pr c" if "i < length zs" "sh c (bv_shares b ! i) v" for i v
    using that sh_unique list_all2_nthD2 [OF zs] by blast
  have "\<exists>u v. triple_is c (bv_triples b ! j) u v \<and>
        zs ! (2 * j) mod pr c = (fst (xys ! j) - u) mod pr c \<and>
        zs ! Suc (2 * j) mod pr c = (snd (xys ! j) - v) mod pr c" if j: "j < length xys" for j
  proof -
    obtain u v where "triple_is c (bv_triples b ! j) u v"
      "sh c (bv_shares b ! (2 * j)) (fst (xys ! j) - u)"
      "sh c (bv_shares b ! Suc (2 * j)) (snd (xys ! j) - v)"
      using b j by (auto simp: prepared_def)
    then show ?thesis using z len j by (intro exI conjI) auto
  qed
  then show ?thesis using b len by (simp add: ready_def prepared_def)
qed

lemma runs_mul_exchange:
  assumes "wf c" "prepared c xys b"
  shows "keeps (good c) (mul_exchange c b) (ready c xys) E"
proof -
  obtain zs where zs: "list_all2 (sh c) (bv_shares b) zs" using prepared_shares [OF assms(2)] ..
  show ?thesis
    unfolding mul_exchange_def
    by (rule keeps_bnd [OF runs_POpen [OF assms(1) zs]], rule keeps_ret)
      (simp add: ready_prepared [OF assms(2) zs])
qed

lemma finalize_mul_ready:
  assumes c: "wf c" and b: "ready c ((x, y) # xys) b"
  shows "\<exists>z b'. finalize_mul c b = ret (z, b') \<and> sh c z (x * y) \<and> ready c xys b'"
proof -
  obtain u v where uv: "triple_is c (bv_triples b ! bv_triple b) u v"
    "bv_opened b ! bv_it b = (x - u) mod pr c" "bv_opened b ! Suc (bv_it b) = (y - v) mod pr c"
    using b by (fastforce simp: ready_def dest: spec [of _ 0])
  have i: "bv_triple b < length (bv_triples b)" "Suc (bv_it b) < length (bv_opened b)"
    using b by (auto simp: ready_def)
  let ?t = "bv_triples b ! bv_triple b"
  let ?z = "beaver_product c ?t (bv_opened b ! bv_it b) (bv_opened b ! Suc (bv_it b))"
  let ?b = "b\<lparr>bv_it := bv_it b + 2, bv_triples := (bv_triples b)[bv_triple b := (fst ?t, fst (snd ?t), ?z)],
      bv_triple := Suc (bv_triple b)\<rparr>"
  have "ready c xys ?b"
  proof -
    have "\<exists>u v. triple_is c (bv_triples ?b ! (bv_triple ?b + j)) u v \<and>
        bv_opened ?b ! (bv_it ?b + 2 * j) = (fst (xys ! j) - u) mod pr c \<and>
        bv_opened ?b ! Suc (bv_it ?b + 2 * j) = (snd (xys ! j) - v) mod pr c"
      if "j < length xys" for j
    proof -
      from b that obtain u v where "triple_is c (bv_triples b ! (bv_triple b + Suc j)) u v"
        "bv_opened b ! (bv_it b + 2 * Suc j) = (fst (xys ! j) - u) mod pr c"
        "bv_opened b ! Suc (bv_it b + 2 * Suc j) = (snd (xys ! j) - v) mod pr c"
        unfolding ready_def by (metis Suc_less_eq length_Cons nth_Cons_Suc)
      then show ?thesis by (intro exI conjI) auto
    qed
    then show ?thesis using b by (simp add: ready_def)
  qed
  moreover have "finalize_mul c b = ret (?z, ?b)"
    using i by (simp add: finalize_mul_def Let_def)
  ultimately show ?thesis
    using beaver_product_ok [OF wf_wf_field [OF c] uv] by blast
qed

lemma finalize_muls_ready:
  assumes "wf c"
  shows "ready c xys b \<Longrightarrow>
    \<exists>zs. finalize_muls c (length xys) b = ret zs \<and> list_all2 (sh c) zs (map (\<lambda>(x, y). x * y) xys)"
proof (induction xys arbitrary: b)
  case Nil
  then show ?case by auto
next
  case (Cons xy xys)
  obtain x y where xy: "xy = (x, y)" by fastforce
  obtain z b' where z: "finalize_mul c b = ret (z, b')" "sh c z (x * y)" "ready c xys b'"
    using finalize_mul_ready [OF assms] Cons.prems xy by blast
  obtain zs where "finalize_muls c (length xys) b' = ret zs" "list_all2 (sh c) zs (map (\<lambda>(x, y). x * y) xys)"
    using Cons.IH [OF z(3)] by blast
  then show ?case using z xy by auto
qed

lemma finalize_dotprod_ready:
  assumes "wf c"
  shows "ready c xys b \<Longrightarrow> sh c R r \<Longrightarrow>
    \<exists>z. finalize_dotprod_loop c (length xys) R b = ret z \<and> sh c z (r + (\<Sum>(x, y)\<leftarrow>xys. x * y))"
proof (induction xys arbitrary: b R r)
  case Nil
  then show ?case by auto
next
  case (Cons xy xys)
  obtain x y where xy: "xy = (x, y)" by fastforce
  obtain z b' where z: "finalize_mul c b = ret (z, b')" "sh c z (x * y)" "ready c xys b'"
    using finalize_mul_ready [OF assms] Cons.prems(1) xy by blast
  have "sh c (j_add c R z) (r + x * y)" using Cons.prems(2) z(2) by (rule sh_add)
  then obtain w where "finalize_dotprod_loop c (length xys) (j_add c R z) b' = ret w"
      "sh c w ((r + x * y) + (\<Sum>(x, y)\<leftarrow>xys. x * y))"
    using Cons.IH [OF z(3)] by blast
  then show ?case using z xy by (auto simp: add.assoc)
qed

end
