(* ===== verification/InputP.thy ===== *)
theory InputP
  imports Demo
begin

text \<open>
  Secret inputs: \<open>InputBase\<close> and \<open>Input\<close> of \<open>Processor/Input.h\<close> and
  \<open>Processor/Input.hpp\<close>, with the state of all parties. \<open>is_shares ! i\<close> is the
  \<open>PointerVector\<close> of player \<open>i\<close>'s inputs with read position \<open>is_next ! i\<close>; \<open>is_os ! i\<close>
  is what player \<open>i\<close> packed and sends, \<open>is_pos ! i\<close> how much of it was unpacked.
\<close>

record input_state =
  is_shares :: "jshare list list"
  is_next :: "nat list"
  is_os :: "int list list"
  is_pos :: "nat list"

definition reset_all :: "ctx \<Rightarrow> input_state" where
  "reset_all c =
     \<lparr>is_shares = replicate (num_players c) [], is_next = replicate (num_players c) 0,
      is_os = replicate (num_players c) [], is_pos = replicate (num_players c) 0\<rparr>"

text \<open>
  \<open>add_mine\<close> at the owner, together with \<open>add_other\<close> at the others: all consume the same
  input tuple; only the owner knows the mask \<open>rr\<close>, and adds the constant to its share.
\<close>

definition add_input :: "ctx \<Rightarrow> nat \<Rightarrow> int \<Rightarrow> input_state \<Rightarrow> (mpc, input_state) m" where
  "add_input c player input st =
     bnd (get_input c player) (\<lambda>(S, rr).
     let t = gf_sub (pr c) input rr;
         S' = S[player := share_add (pr c) (S ! player) (share_constant (pr c) t player (alphas c ! player))]
     in ret (st\<lparr>is_shares := (is_shares st)[player := is_shares st ! player @ [S']],
                is_os := (is_os st)[player := is_os st ! player @ [t]]\<rparr>))"

text \<open>\<open>add_from_all\<close>; \<open>xs ! i\<close> is the argument at player \<open>i\<close>.\<close>

fun add_players :: "ctx \<Rightarrow> int list \<Rightarrow> nat list \<Rightarrow> input_state \<Rightarrow> (mpc, input_state) m" where
  "add_players c xs [] st = ret st"
| "add_players c xs (i # is) st = bnd (add_input c i (xs ! i) st) (\<lambda>st'. add_players c xs is st')"

definition add_from_all :: "ctx \<Rightarrow> int list \<Rightarrow> input_state \<Rightarrow> (mpc, input_state) m" where
  "add_from_all c xs st = add_players c xs [0..<num_players c] st"

text \<open>Every player sends its stream to all; receiving one starts reading it anew.\<close>

definition input_exchange :: "ctx \<Rightarrow> input_state \<Rightarrow> input_state" where
  "input_exchange c st = st\<lparr>is_pos := replicate (num_players c) 0\<rparr>"

text \<open>\<open>finalize\<close>: \<open>finalize_mine\<close> at the owner, \<open>finalize_other\<close> elsewhere.\<close>

definition finalize_input :: "ctx \<Rightarrow> nat \<Rightarrow> input_state \<Rightarrow> (mpc, jshare \<times> input_state) m" where
  "finalize_input c player st =
     bnd (at (is_shares st) player) (\<lambda>sv.
     bnd (at sv (is_next st ! player)) (\<lambda>S.
     bnd (at (is_os st ! player) (is_pos st ! player)) (\<lambda>t.
     ret (map (\<lambda>me. if me = player then S ! me
                    else share_add (pr c) (S ! me) (share_constant (pr c) t me (alphas c ! me)))
            [0..<num_players c],
          st\<lparr>is_next := (is_next st)[player := Suc (is_next st ! player)],
             is_pos := (is_pos st)[player := Suc (is_pos st ! player)]\<rparr>))))"

section \<open>What an input becomes\<close>

text \<open>A masked input and the owner's share, as they wait between the two phases.\<close>

definition input_pending :: "ctx \<Rightarrow> nat \<Rightarrow> jshare \<Rightarrow> int \<Rightarrow> int \<Rightarrow> bool" where
  "input_pending c player S t x \<longleftrightarrow>
     (\<exists>S0 r. sh c S0 r \<and> in_field (pr c) t \<and> t mod pr c = (x - r) mod pr c \<and>
        S = S0[player := share_add (pr c) (S0 ! player) (share_constant (pr c) t player (alphas c ! player))])"

lemma input_pending_final:
  assumes "wf c" "player < num_players c" "input_pending c player S t x"
  shows "sh c (map (\<lambda>me. if me = player then S ! me
            else share_add (pr c) (S ! me) (share_constant (pr c) t me (alphas c ! me))) [0..<num_players c]) x"
proof -
  obtain S0 r where S0: "sh c S0 r" "in_field (pr c) t" "t mod pr c = (x - r) mod pr c"
    "S = S0[player := share_add (pr c) (S0 ! player) (share_constant (pr c) t player (alphas c ! player))]"
    using assms(3) by (auto simp: input_pending_def)
  have len: "length S0 = num_players c" using S0(1) by (rule sh_length)
  have "map (\<lambda>me. if me = player then S ! me
            else share_add (pr c) (S ! me) (share_constant (pr c) t me (alphas c ! me))) [0..<num_players c]
      = j_add c S0 (j_constant c t)"
    by (rule nth_equalityI) (use len S0(4) assms(2) in \<open>auto simp: j_add_def j_constant_def\<close>)
  moreover have "sh c (j_add c S0 (j_constant c t)) (r + t)"
    using S0 assms(1) by (intro sh_add sh_constant) auto
  moreover have "(r + t) mod pr c = (r + (x - r)) mod pr c"
    by (rule mod_add_cong) (simp_all add: S0(3))
  ultimately show ?thesis by (metis add_diff_cancel_left' diff_add_cancel sh_cong add.commute)
qed

text \<open>The players in \<open>is\<close> have added their inputs.\<close>

definition inputs_added :: "ctx \<Rightarrow> int list \<Rightarrow> nat set \<Rightarrow> input_state \<Rightarrow> bool" where
  "inputs_added c xs is st \<longleftrightarrow>
     length (is_shares st) = num_players c \<and> length (is_os st) = num_players c \<and>
     is_next st = replicate (num_players c) 0 \<and>
     (\<forall>i < num_players c. i \<in> is \<longrightarrow>
        (\<exists>S t. is_shares st ! i = [S] \<and> is_os st ! i = [t] \<and> input_pending c i S t (xs ! i))) \<and>
     (\<forall>i < num_players c. i \<notin> is \<longrightarrow> is_shares st ! i = [] \<and> is_os st ! i = [])"

lemma inputs_added_reset: "inputs_added c xs {} (reset_all c)"
  by (simp add: inputs_added_def reset_all_def)

lemma runs_add_input:
  assumes c: "wf c" and st: "inputs_added c xs is st" and i: "i < num_players c" "i \<notin> is"
    and x: "in_field (pr c) (xs ! i)"
  shows "keeps (good c) (add_input c i (xs ! i) st) (inputs_added c xs (insert i is)) E"
  unfolding add_input_def
proof (rule keeps_bnd [OF runs_get_input [OF c]])
  fix Sr assume Sr: "input_ok c Sr"
  obtain S rr where [simp]: "Sr = (S, rr)" by fastforce
  let ?t = "gf_sub (pr c) (xs ! i) rr"
  have "in_field (pr c) ?t" "?t mod pr c = (xs ! i - rr) mod pr c"
    using Sr x by (auto simp: input_ok_def gf_sub_cong)
  then have "input_pending c i (S[i := share_add (pr c) (S ! i) (share_constant (pr c) ?t i (alphas c ! i))]) ?t (xs ! i)"
    using Sr unfolding input_pending_def input_ok_def by auto
  then show "keeps (good c) (case Sr of (S, rr) \<Rightarrow>
     let t = gf_sub (pr c) (xs ! i) rr;
         S' = S[i := share_add (pr c) (S ! i) (share_constant (pr c) t i (alphas c ! i))]
     in ret (st\<lparr>is_shares := (is_shares st)[i := is_shares st ! i @ [S']],
                is_os := (is_os st)[i := is_os st ! i @ [t]]\<rparr>)) (inputs_added c xs (insert i is)) E"
    using st i by (auto simp: Let_def inputs_added_def nth_list_update intro!: keeps_ret)
qed

lemma runs_add_players:
  assumes "wf c" "\<forall>i < num_players c. in_field (pr c) (xs ! i)"
  shows "distinct is \<Longrightarrow> set is \<subseteq> {..<num_players c} \<Longrightarrow> set is \<inter> done' = {} \<Longrightarrow> inputs_added c xs done' st \<Longrightarrow>
    keeps (good c) (add_players c xs is st) (inputs_added c xs (set is \<union> done')) E"
proof (induction "is" arbitrary: done' st)
  case Nil
  then show ?case by (simp add: keeps_ret)
next
  case (Cons i "is")
  have "keeps (good c) (add_input c i (xs ! i) st) (inputs_added c xs (insert i done')) E"
    using Cons.prems assms by (intro runs_add_input) auto
  moreover have "keeps (good c) (add_players c xs is st') (inputs_added c xs (set (i # is) \<union> done')) E"
    if "inputs_added c xs (insert i done') st'" for st'
    using Cons.IH [OF _ _ _ that] Cons.prems by auto
  ultimately show ?case by (auto intro: keeps_bnd)
qed

lemma runs_add_from_all:
  assumes "wf c" "\<forall>i < num_players c. in_field (pr c) (xs ! i)"
  shows "keeps (good c) (add_from_all c xs (reset_all c)) (inputs_added c xs {..<num_players c}) E"
  unfolding add_from_all_def
  using runs_add_players [OF assms, of "[0..<num_players c]" "{}" "reset_all c"]
  by (simp add: inputs_added_reset atLeast0LessThan)

lemma runs_finalize_input:
  assumes "wf c" "player < num_players c" "inputs_added c xs {..<num_players c} st"
  shows "keeps (good c) (finalize_input c player (input_exchange c st)) (\<lambda>r. sh c (fst r) (xs ! player)) E"
proof -
  obtain S t where "is_shares st ! player = [S]" "is_os st ! player = [t]"
      "input_pending c player S t (xs ! player)"
    using assms by (auto simp: inputs_added_def)
  then show ?thesis
    using assms input_pending_final [OF assms(1,2)]
    by (auto simp: finalize_input_def input_exchange_def inputs_added_def intro!: keeps_ret)
qed

end
