(* ===== verification/Online.thy ===== *)
theory Online
  imports Beaver InputP
begin

text \<open>
  The arithmetic of \<open>OnlineOp\<close> (\<open>POC/OnlineOp.h\<close>, \<open>POC/OnlineOp.hpp\<close>): operations on shares
  and on vectors of shares. An output parameter of the code is a result here; an operation
  that only computes locally is a function, one that communicates, takes preprocessing or
  may fail is a program. The vector versions carry the suffix \<open>_v\<close>. \<open>j_zero\<close> is the
  default constructor of a share, which \<open>resize\<close> appends.
\<close>

section \<open>Opening\<close>

definition reveal :: "ctx \<Rightarrow> jshare \<Rightarrow> (mpc, int) m" where
  "reveal c a =
     bnd (init_open c) (\<lambda>_. bnd (prepare_open a) (\<lambda>_. bnd (exchange c) (\<lambda>_. finalize_open c)))"

definition reveal_v :: "ctx \<Rightarrow> jshare list \<Rightarrow> (mpc, int list) m" where
  "reveal_v c a =
     bnd (init_open c) (\<lambda>_. bnd (mapM prepare_open a) (\<lambda>_. bnd (exchange c) (\<lambda>_.
     mapM (\<lambda>_. finalize_open c) [0..<length a])))"

section \<open>Addition and subtraction\<close>

definition add :: "ctx \<Rightarrow> jshare \<Rightarrow> jshare \<Rightarrow> jshare" where
  "add c a b = j_add c a b"

definition add_v :: "ctx \<Rightarrow> jshare list \<Rightarrow> jshare list \<Rightarrow> (mpc, jshare list) m" where
  "add_v c a b = bnd (check (length a = length b) Assertion_failed) (\<lambda>_. ret (map2 (add c) a b))"

definition add_plain :: "ctx \<Rightarrow> jshare \<Rightarrow> int \<Rightarrow> jshare" where
  "add_plain c a b = (let sb = j_constant c b in j_add c a sb)"

definition add_plain_v :: "ctx \<Rightarrow> jshare list \<Rightarrow> int list \<Rightarrow> (mpc, jshare list) m" where
  "add_plain_v c a b =
     bnd (check (length a = length b) Assertion_failed) (\<lambda>_. ret (map2 (add_plain c) a b))"

definition add_inplace :: "ctx \<Rightarrow> jshare \<Rightarrow> jshare \<Rightarrow> jshare" where
  "add_inplace c cc a = j_add c cc a"

definition add_inplace_v :: "ctx \<Rightarrow> jshare list \<Rightarrow> jshare list \<Rightarrow> jshare list" where
  "add_inplace_v c cc a = map2 (add_inplace c) (resize (j_zero c) (length a) cc) a"

definition add_plain_inplace :: "ctx \<Rightarrow> jshare \<Rightarrow> int \<Rightarrow> jshare" where
  "add_plain_inplace c cc a = (let sa = j_constant c a in j_add c cc sa)"

definition add_plain_inplace_v :: "ctx \<Rightarrow> jshare list \<Rightarrow> int list \<Rightarrow> jshare list" where
  "add_plain_inplace_v c cc a = map2 (add_plain_inplace c) (resize (j_zero c) (length a) cc) a"

definition sub :: "ctx \<Rightarrow> jshare \<Rightarrow> jshare \<Rightarrow> jshare" where
  "sub c a b = j_sub c a b"

definition sub_v :: "ctx \<Rightarrow> jshare list \<Rightarrow> jshare list \<Rightarrow> (mpc, jshare list) m" where
  "sub_v c a b = bnd (check (length a = length b) Assertion_failed) (\<lambda>_. ret (map2 (sub c) a b))"

definition sub_plain :: "ctx \<Rightarrow> jshare \<Rightarrow> int \<Rightarrow> jshare" where
  "sub_plain c a b = (let sb = j_constant c b in j_sub c a sb)"

definition sub_plain_v :: "ctx \<Rightarrow> jshare list \<Rightarrow> int list \<Rightarrow> (mpc, jshare list) m" where
  "sub_plain_v c a b =
     bnd (check (length a = length b) Assertion_failed) (\<lambda>_. ret (map2 (sub_plain c) a b))"

definition sub_inplace :: "ctx \<Rightarrow> jshare \<Rightarrow> jshare \<Rightarrow> jshare" where
  "sub_inplace c cc a = j_sub c cc a"

definition sub_inplace_v :: "ctx \<Rightarrow> jshare list \<Rightarrow> jshare list \<Rightarrow> jshare list" where
  "sub_inplace_v c cc a = map2 (sub_inplace c) (resize (j_zero c) (length a) cc) a"

definition sub_plain_inplace :: "ctx \<Rightarrow> jshare \<Rightarrow> int \<Rightarrow> jshare" where
  "sub_plain_inplace c cc a = (let sa = j_constant c a in j_sub c cc sa)"

definition sub_plain_inplace_v :: "ctx \<Rightarrow> jshare list \<Rightarrow> int list \<Rightarrow> jshare list" where
  "sub_plain_inplace_v c cc a = map2 (sub_plain_inplace c) (resize (j_zero c) (length a) cc) a"

section \<open>Multiplication\<close>

definition mul_v :: "ctx \<Rightarrow> jshare list \<Rightarrow> jshare list \<Rightarrow> (mpc, jshare list) m" where
  "mul_v c a b =
     bnd (check (length a = length b) Assertion_failed) (\<lambda>_.
     bnd (prepare_muls c (zip a b) init_mul) (\<lambda>bv.
     bnd (mul_exchange c bv) (\<lambda>bv.
     finalize_muls c (length a) bv)))"

definition mul :: "ctx \<Rightarrow> jshare \<Rightarrow> jshare \<Rightarrow> (mpc, jshare) m" where
  "mul c a b = bnd (mul_v c [a] [b]) (\<lambda>vc. at vc 0)"

definition mul_plain :: "ctx \<Rightarrow> jshare \<Rightarrow> int \<Rightarrow> jshare" where
  "mul_plain c a b = j_mul c a b"

definition mul_plain_v :: "ctx \<Rightarrow> jshare list \<Rightarrow> int list \<Rightarrow> (mpc, jshare list) m" where
  "mul_plain_v c a b =
     bnd (check (length a = length b) Assertion_failed) (\<lambda>_. ret (map2 (mul_plain c) a b))"

definition mul_inplace :: "ctx \<Rightarrow> jshare \<Rightarrow> jshare \<Rightarrow> (mpc, jshare) m" where
  "mul_inplace c cc a = bnd (mul_v c [a] [cc]) (\<lambda>vc. at vc 0)"

text \<open>One exchange per element, unlike \<open>mul_v\<close>.\<close>

definition mul_inplace_v :: "ctx \<Rightarrow> jshare list \<Rightarrow> jshare list \<Rightarrow> (mpc, jshare list) m" where
  "mul_inplace_v c cc a =
     mapM (\<lambda>(x, y). mul_inplace c x y) (zip (resize (j_zero c) (length a) cc) a)"

definition mul_plain_inplace :: "ctx \<Rightarrow> jshare \<Rightarrow> int \<Rightarrow> jshare" where
  "mul_plain_inplace c cc a = j_mul c cc a"

definition mul_plain_inplace_v :: "ctx \<Rightarrow> jshare list \<Rightarrow> int list \<Rightarrow> jshare list" where
  "mul_plain_inplace_v c cc a = map2 (mul_plain_inplace c) (resize (j_zero c) (length a) cc) a"

definition dotprod :: "ctx \<Rightarrow> jshare list \<Rightarrow> jshare list \<Rightarrow> (mpc, jshare) m" where
  "dotprod c a b =
     bnd (check (length a = length b) Assertion_failed) (\<lambda>_.
     bnd (prepare_muls c (zip a b) init_mul) (\<lambda>bv.
     bnd (mul_exchange c bv) (\<lambda>bv.
     finalize_dotprod c (length a) bv)))"

section \<open>Squares, inverses, quotients\<close>

definition sqr :: "ctx \<Rightarrow> jshare \<Rightarrow> (mpc, jshare) m" where
  "sqr c a =
     bnd (get_square c) (\<lambda>(sp0, sp1).
     let epsilon = j_sub c a sp0 in
     bnd (reveal_v c [epsilon]) (\<lambda>vc.
     bnd (at vc 0) (\<lambda>v.
     let tmp = mul_plain c sp0 v;
         sp1 = add_inplace c sp1 tmp;
         sp1 = add_inplace c sp1 tmp;
         cp0 = gf_mul (pr c) v v
     in ret (add_plain c sp1 cp0))))"

definition sqr_inplace :: "ctx \<Rightarrow> jshare \<Rightarrow> (mpc, jshare) m" where
  "sqr_inplace c a = bnd (sqr c a) (\<lambda>tmp. ret tmp)"

definition inv_op :: "ctx \<Rightarrow> jshare \<Rightarrow> (mpc, jshare) m" where
  "inv_op c a =
     bnd (get_square c) (\<lambda>(tmp0, tmp1).
     let rshare = tmp0 in
     bnd (mul c rshare a) (\<lambda>cc.
     bnd (reveal_v c [cc]) (\<lambda>ra.
     bnd (at ra 0) (\<lambda>ra0.
     bnd (check (ra0 \<noteq> 0) Division_by_zero) (\<lambda>_.
     let ira = gf_inv (gcdext c) (pr c) ra0
     in ret (mul_plain c rshare ira))))))"

definition inv_inplace :: "ctx \<Rightarrow> jshare \<Rightarrow> (mpc, jshare) m" where
  "inv_inplace c a = bnd (inv_op c a) (\<lambda>tmp. ret tmp)"

definition div_op :: "ctx \<Rightarrow> jshare \<Rightarrow> jshare \<Rightarrow> (mpc, jshare) m" where
  "div_op c a b = bnd (inv_op c b) (\<lambda>cc. mul_inplace c cc a)"

definition div_inplace :: "ctx \<Rightarrow> jshare \<Rightarrow> jshare \<Rightarrow> (mpc, jshare) m" where
  "div_inplace c cc a = bnd (div_op c cc a) (\<lambda>tmp. ret tmp)"

section \<open>Inputs\<close>

text \<open>\<open>ins ! i\<close> is the argument at player \<open>i\<close>; only that of \<open>party\<close> becomes the result.\<close>

definition get_inputs :: "ctx \<Rightarrow> nat \<Rightarrow> int list \<Rightarrow> (mpc, jshare) m" where
  "get_inputs c party ins =
     bnd (add_from_all c ins (reset_all c)) (\<lambda>st.
     bnd (finalize_input c party (input_exchange c st)) (\<lambda>(sa, _). ret sa))"

text \<open>\<open>ins ! j ! i\<close>: the \<open>j\<close>-th element of the vector at player \<open>i\<close>.\<close>

definition get_inputs_v :: "ctx \<Rightarrow> nat \<Rightarrow> int list list \<Rightarrow> (mpc, jshare list) m" where
  "get_inputs_v c party ins = mapM (get_inputs c party) ins"

section \<open>Values of the results\<close>

text \<open>Vectors of sharings.\<close>

abbreviation shs :: "ctx \<Rightarrow> jshare list \<Rightarrow> int list \<Rightarrow> bool" where
  "shs c \<equiv> list_all2 (sh c)"

lemma sh_local [prog]:
  "sh c a x \<Longrightarrow> sh c b y \<Longrightarrow> sh c (add c a b) (x + y)"
  "sh c a x \<Longrightarrow> sh c b y \<Longrightarrow> sh c (add_inplace c a b) (x + y)"
  "sh c a x \<Longrightarrow> sh c b y \<Longrightarrow> sh c (sub c a b) (x - y)"
  "sh c a x \<Longrightarrow> sh c b y \<Longrightarrow> sh c (sub_inplace c a b) (x - y)"
  by (simp_all add: add_def add_inplace_def sub_def sub_inplace_def sh_add sh_sub)

lemma sh_local_plain [prog]:
  assumes "wf c" "sh c a x"
  shows "in_field (pr c) k \<Longrightarrow> sh c (add_plain c a k) (x + k)"
    "in_field (pr c) k \<Longrightarrow> sh c (add_plain_inplace c a k) (x + k)"
    "in_field (pr c) k \<Longrightarrow> sh c (sub_plain c a k) (x - k)"
    "in_field (pr c) k \<Longrightarrow> sh c (sub_plain_inplace c a k) (x - k)"
    "sh c (mul_plain c a k) (x * k)"
    "sh c (mul_plain_inplace c a k) (x * k)"
  using assms wf_wf_field [OF assms(1)]
  by (auto simp: add_plain_def add_plain_inplace_def sub_plain_def sub_plain_inplace_def
      mul_plain_def mul_plain_inplace_def intro!: sh_add sh_sub sh_constant sh_mul)

lemma shs_map2:
  assumes "\<And>S T x y. sh c S x \<Longrightarrow> R T y \<Longrightarrow> sh c (f S T) (g x y)"
  shows "shs c S xs \<Longrightarrow> list_all2 R T ys \<Longrightarrow> length xs = length ys \<Longrightarrow> shs c (map2 f S T) (map2 g xs ys)"
  using assms by (simp add: list_all2_conv_all_nth)

lemma shs_length: "shs c S xs \<Longrightarrow> length S = length xs"
  by (rule list_all2_lengthD)

lemma mapM_replicate:
  "length xs = length ys \<Longrightarrow> mapM (\<lambda>_. p) xs = mapM (\<lambda>_. p) ys"
proof (induction xs ys rule: list_induct2)
  case Nil
  then show ?case by simp
next
  case (Cons x xs y ys)
  then show ?case by simp
qed

lemma reveal_v_POpen: "reveal_v c S = POpen c S"
  unfolding reveal_v_def POpen_def POpen_Begin_def POpen_End_def bnd_assoc
  using mapM_replicate [of "[0..<length S]" S "finalize_open c"] by simp

lemma runs_reveal_v [prog]:
  "wf c \<Longrightarrow> shs c Ss xs \<Longrightarrow> keeps (good c) (reveal_v c Ss) (\<lambda>r. r = map (\<lambda>x. x mod pr c) xs) E"
  unfolding reveal_v_POpen by (rule runs_POpen)

lemma reveal_POpen: "bnd (reveal c S) (\<lambda>v. ret [v]) = POpen c [S]"
  by (simp add: reveal_def POpen_def POpen_Begin_def POpen_End_def bnd_assoc)

lemma runs_reveal [prog]:
  assumes "wf c" "sh c S x"
  shows "keeps (good c) (reveal c S) (\<lambda>r. r = x mod pr c) E"
proof -
  have "keeps (good c) (bnd (reveal c S) (\<lambda>v. ret [v])) (\<lambda>r. r = [x mod pr c]) E"
    unfolding reveal_POpen using runs_POpen [OF assms(1), of "[S]" "[x]"] assms(2) by simp
  then show ?thesis
    by (auto simp: keeps_def bnd_def ret_def split: sum.splits prod.splits)
qed

lemma runs_mul_v [prog]:
  assumes c: "wf c" and S: "shs c S xs" "shs c T ys" "length xs = length ys"
  shows "keeps (good c) (mul_v c S T) (\<lambda>r. shs c r (map2 (*) xs ys)) E"
proof -
  have len: "length S = length T" "length S = length (zip xs ys)"
    using S by (auto dest!: list_all2_lengthD)
  have "list_all2 (\<lambda>S v. sh c (fst S) (fst v) \<and> sh c (snd S) (snd v)) (zip S T) (zip xs ys)"
    using S by (simp add: list_all2_conv_all_nth)
  then have prep: "keeps (good c) (prepare_muls c (zip S T) init_mul) (prepared c (zip xs ys)) E"
    using runs_prepare_muls [OF c, of "zip S T" "zip xs ys" "[]" init_mul] by simp
  have fin: "keeps (good c) (finalize_muls c (length S) bv) (\<lambda>r. shs c r (map2 (*) xs ys)) E"
    if "ready c (zip xs ys) bv" for bv
    using finalize_muls_ready [OF c that] len by (auto intro!: keeps_ret)
  show ?thesis
    unfolding mul_v_def using len(1) by (auto intro!: keeps_bnd [OF keeps_check]
        keeps_bnd [OF prep] keeps_bnd [OF runs_mul_exchange [OF c]] fin [unfolded len(1)])
qed

lemma runs_dotprod [prog]:
  assumes c: "wf c" and S: "shs c S xs" "shs c T ys" "length xs = length ys"
  shows "keeps (good c) (dotprod c S T) (\<lambda>r. sh c r (\<Sum>(x, y)\<leftarrow>zip xs ys. x * y)) E"
proof -
  have len: "length S = length T" "length S = length (zip xs ys)"
    using S by (auto dest!: list_all2_lengthD)
  have "list_all2 (\<lambda>S v. sh c (fst S) (fst v) \<and> sh c (snd S) (snd v)) (zip S T) (zip xs ys)"
    using S by (simp add: list_all2_conv_all_nth)
  then have prep: "keeps (good c) (prepare_muls c (zip S T) init_mul) (prepared c (zip xs ys)) E"
    using runs_prepare_muls [OF c, of "zip S T" "zip xs ys" "[]" init_mul] by simp
  have fin: "keeps (good c) (finalize_dotprod c (length S) bv) (\<lambda>r. sh c r (\<Sum>(x, y)\<leftarrow>zip xs ys. x * y)) E"
    if r: "ready c (zip xs ys) bv" for bv
  proof -
    obtain z where "finalize_dotprod_loop c (length (zip xs ys)) (j_zero c) bv = ret z"
        "sh c z (0 + (\<Sum>(x, y)\<leftarrow>zip xs ys. x * y))"
      using finalize_dotprod_ready [OF c r sh_zero [OF wf_wf_field [OF c]]] by blast
    then show ?thesis unfolding finalize_dotprod_def len(2) by (auto intro!: keeps_ret)
  qed
  show ?thesis
    unfolding dotprod_def using len(1) by (auto intro!: keeps_bnd [OF keeps_check]
        keeps_bnd [OF prep] keeps_bnd [OF runs_mul_exchange [OF c]] fin [unfolded len(1)])
qed

lemma runs_mul [prog]:
  assumes "wf c" "sh c S x" "sh c T y"
  shows "keeps (good c) (mul c S T) (\<lambda>r. sh c r (x * y)) E"
  unfolding mul_def
  by (rule keeps_bnd [OF runs_mul_v [OF assms(1), of "[S]" "[x]" "[T]" "[y]"]])
    (use assms in \<open>auto simp: list_all2_Cons2 intro!: keeps_ret\<close>)

lemma runs_mul_inplace [prog]:
  assumes "wf c" "sh c S x" "sh c T y"
  shows "keeps (good c) (mul_inplace c S T) (\<lambda>r. sh c r (x * y)) E"
  unfolding mul_inplace_def
  by (rule keeps_bnd [OF runs_mul_v [OF assms(1), of "[T]" "[y]" "[S]" "[x]"]])
    (use assms in \<open>auto simp: list_all2_Cons2 mult.commute intro!: keeps_ret\<close>)

lemma runs_sqr [prog]:
  assumes c: "wf c" and S: "sh c S x"
  shows "keeps (good c) (sqr c S) (\<lambda>r. sh c r (x * x)) E"
  unfolding sqr_def
proof (rule keeps_bnd [OF runs_get_square [OF c]])
  fix q assume "square_ok c q"
  then obtain s0 s1 u where q: "q = (s0, s1)" "sh c s0 u" "sh c s1 (u * u)"
    by (cases q) (auto simp: square_ok_def)
  let ?v = "(x - u) mod pr c"
  have p: "0 < pr c" using wf_pr [OF c] by simp
  have r: "keeps (good c) (reveal_v c [j_sub c S s0]) (\<lambda>r. r = [?v]) E"
    using runs_reveal_v [OF c, of "[j_sub c S s0]" "[x - u]"] S q by (simp add: sh_sub)
  have "sh c (add_plain c (add_inplace c (add_inplace c s1 (mul_plain c s0 ?v)) (mul_plain c s0 ?v))
      (gf_mul (pr c) ?v ?v)) (u * u + u * ?v + u * ?v + gf_mul (pr c) ?v ?v)"
    using c q p by (intro sh_local_plain sh_local in_field_mul)
  moreover have "(u * u + u * ?v + u * ?v + gf_mul (pr c) ?v ?v) mod pr c =
      (u * u + u * (x - u) + u * (x - u) + (x - u) * (x - u)) mod pr c"
    by (intro mod_add_cong) (simp_all add: gf_mul_def mod_mult_right_eq mod_mult_left_eq)
  ultimately have "sh c (add_plain c (add_inplace c (add_inplace c s1 (mul_plain c s0 ?v)) (mul_plain c s0 ?v))
      (gf_mul (pr c) ?v ?v)) (x * x)"
    by (rule sh_cong [OF _ trans]) (simp add: algebra_simps)
  then show "keeps (good c) (case q of (sp0, sp1) \<Rightarrow>
     let epsilon = j_sub c S sp0 in
     bnd (reveal_v c [epsilon]) (\<lambda>vc.
     bnd (at vc 0) (\<lambda>v.
     let tmp = mul_plain c sp0 v;
         sp1 = add_inplace c sp1 tmp;
         sp1 = add_inplace c sp1 tmp;
         cp0 = gf_mul (pr c) v v
     in ret (add_plain c sp1 cp0)))) (\<lambda>r. sh c r (x * x)) E"
    by (auto simp: q Let_def intro!: keeps_bnd [OF r] keeps_ret)
qed

text \<open>
  Inversion. The prime matters here: a revealed product that is not zero is invertible.
\<close>

definition wf_prime :: "ctx \<Rightarrow> bool" where
  "wf_prime c \<longleftrightarrow> prime_int (pr c) \<and> gcdext_spec (gcdext c)"

lemma prime_inverse:
  assumes "wf_prime c" "in_field (pr c) x" "x \<noteq> 0"
  shows "(gf_inv (gcdext c) (pr c) x * x) mod pr c = 1 mod pr c"
proof (rule gf_inv_cong(1))
  show "gcdext_spec (gcdext c)" using assms by (simp add: wf_prime_def)
  show "0 < x" "x < pr c" using assms by (auto simp: in_field_def)
  then show "coprime x (pr c)"
    using assms(1) by (auto simp: wf_prime_def dest: prime_int_coprime)
qed

definition inverse_of :: "ctx \<Rightarrow> int \<Rightarrow> jshare \<Rightarrow> bool" where
  "inverse_of c x S \<longleftrightarrow> (\<exists>y. sh c S y \<and> (x * y) mod pr c = 1 mod pr c)"

lemma runs_inv [prog]:
  assumes c: "wf c" "wf_prime c" and S: "sh c S x"
    and E: "masks_nonzero c \<and> x mod pr c \<noteq> 0 \<or> E Division_by_zero"
  shows "keeps (good c) (inv_op c S) (inverse_of c x) E"
  unfolding inv_op_def
proof (rule keeps_bnd [OF runs_get_square [OF c(1)]])
  fix q assume "square_ok c q"
  then obtain s0 s1 u where q: "q = (s0, s1)" "sh c s0 u" "masks_nonzero c \<longrightarrow> u mod pr c \<noteq> 0"
    by (cases q) (auto simp: square_ok_def nonzero_def)
  let ?v = "(u * x) mod pr c"
  have fv: "in_field (pr c) ?v" using wf_pr [OF c(1)] by auto
  have m: "keeps (good c) (mul c s0 S) (\<lambda>r. sh c r (u * x)) E"
    by (rule runs_mul [OF c(1) q(2) S])
  have r: "keeps (good c) (reveal_v c [cc]) (\<lambda>r. r = [?v]) E" if "sh c cc (u * x)" for cc
    using runs_reveal_v [OF c(1), of "[cc]" "[u * x]"] that by simp
  have z: "inverse_of c x (mul_plain c s0 (gf_inv (gcdext c) (pr c) ?v))" if "?v \<noteq> 0"
  proof -
    let ?w = "gf_inv (gcdext c) (pr c) ?v"
    have "(x * (u * ?w)) mod pr c = (?w * (u * x)) mod pr c" by (simp add: mult_ac)
    also have "\<dots> = (?w * ?v) mod pr c" by (simp add: mod_mult_right_eq)
    also have "\<dots> = 1 mod pr c" using prime_inverse [OF c(2) fv that] .
    finally show ?thesis
      using sh_local_plain(5) [OF c(1) q(2), of ?w] unfolding inverse_of_def by blast
  qed
  have zero: "E Division_by_zero" if "?v = 0"
    using E q(3) prime_int_mult [OF _ that] c(2) by (auto simp: wf_prime_def)
  have k: "keeps (good c) (bnd (check (?v \<noteq> 0) Division_by_zero)
      (\<lambda>_. ret (mul_plain c s0 (gf_inv (gcdext c) (pr c) ?v)))) (inverse_of c x) E"
    using z zero by (cases "?v = 0") (auto intro: keeps_ret keeps_throw)
  show "keeps (good c) (case q of (tmp0, tmp1) \<Rightarrow>
     let rshare = tmp0 in
     bnd (mul c rshare S) (\<lambda>cc. bnd (reveal_v c [cc]) (\<lambda>ra. bnd (at ra 0) (\<lambda>ra0.
     bnd (check (ra0 \<noteq> 0) Division_by_zero) (\<lambda>_.
     let ira = gf_inv (gcdext c) (pr c) ra0 in ret (mul_plain c rshare ira))))))
     (inverse_of c x) E"
    using k by (auto simp: q Let_def intro!: keeps_bnd [OF m] keeps_bnd [OF r])
qed

lemma runs_inv_zero:
  assumes c: "wf c" and S: "sh c S x" "x mod pr c = 0"
  shows "keeps (good c) (inv_op c S) (\<lambda>_. False) (\<lambda>e. e = Division_by_zero)"
  unfolding inv_op_def
proof (rule keeps_bnd [OF runs_get_square [OF c]])
  fix q assume "square_ok c q"
  then obtain s0 s1 u where q: "q = (s0, s1)" "sh c s0 u"
    by (cases q) (auto simp: square_ok_def)
  have z: "(u * x) mod pr c = 0" using S(2) mod_mult_right_eq [of u x "pr c"] by simp
  have m: "keeps (good c) (mul c s0 S) (\<lambda>r. sh c r (u * x)) (\<lambda>e. e = Division_by_zero)"
    by (rule runs_mul [OF c q(2) S(1)])
  have r: "keeps (good c) (reveal_v c [cc]) (\<lambda>r. r = [0]) (\<lambda>e. e = Division_by_zero)"
    if "sh c cc (u * x)" for cc
    using runs_reveal_v [OF c, of "[cc]" "[u * x]"] that z by simp
  show "keeps (good c) (case q of (tmp0, tmp1) \<Rightarrow>
     let rshare = tmp0 in
     bnd (mul c rshare S) (\<lambda>cc. bnd (reveal_v c [cc]) (\<lambda>ra. bnd (at ra 0) (\<lambda>ra0.
     bnd (check (ra0 \<noteq> 0) Division_by_zero) (\<lambda>_.
     let ira = gf_inv (gcdext c) (pr c) ra0 in ret (mul_plain c rshare ira))))))
     (\<lambda>_. False) (\<lambda>e. e = Division_by_zero)"
    by (auto simp: q Let_def intro!: keeps_bnd [OF m] keeps_bnd [OF r] keeps_throw)
qed

lemma runs_div [prog]:
  assumes c: "wf c" "wf_prime c" and S: "sh c A a" "sh c B b"
    and E: "masks_nonzero c \<and> b mod pr c \<noteq> 0 \<or> E Division_by_zero"
  shows "keeps (good c) (div_op c A B) (\<lambda>r. \<exists>z. sh c r z \<and> (z * b) mod pr c = a mod pr c) E"
  unfolding div_op_def
proof (rule keeps_bnd [OF runs_inv [where E = E, OF c S(2) E]])
  fix cc assume "inverse_of c b cc"
  then obtain y where y: "sh c cc y" "(b * y) mod pr c = 1 mod pr c" by (auto simp: inverse_of_def)
  have "(y * a * b) mod pr c = (a * (b * y)) mod pr c" by (simp add: mult_ac)
  also have "\<dots> = (a * (1 mod pr c)) mod pr c" by (metis mod_mult_right_eq y(2))
  also have "\<dots> = a mod pr c" by (simp add: mod_mult_right_eq)
  finally have "(y * a * b) mod pr c = a mod pr c" .
  then show "keeps (good c) (mul_inplace c cc A) (\<lambda>r. \<exists>z. sh c r z \<and> (z * b) mod pr c = a mod pr c) E"
    by (intro runs_post [OF runs_mul_inplace [OF c(1) y(1) S(1)]]) blast
qed

lemma runs_get_inputs [prog]:
  assumes "wf c" "party < num_players c" "\<forall>i < num_players c. in_field (pr c) (ins ! i)"
  shows "keeps (good c) (get_inputs c party ins) (\<lambda>r. sh c r (ins ! party)) E"
  unfolding get_inputs_def
  by (rule keeps_bnd [OF runs_add_from_all [OF assms(1,3)]],
      rule keeps_bnd [OF runs_finalize_input [OF assms(1,2)]]) (auto intro: keeps_ret split: prod.splits)

lemma runs_get_inputs_v [prog]:
  assumes "wf c" "party < num_players c"
    and "\<forall>x \<in> set ins. \<forall>i < num_players c. in_field (pr c) (x ! i)"
  shows "keeps (good c) (get_inputs_v c party ins) (\<lambda>r. shs c r (map (\<lambda>x. x ! party) ins)) E"
  unfolding get_inputs_v_def
  by (rule runs_post [OF keeps_mapM [where R = "\<lambda>x r. sh c r (x ! party)"]])
    (use assms runs_get_inputs in \<open>auto simp: list_all2_conv_all_nth\<close>)

section \<open>The vector versions\<close>

lemma runs_add_v [prog]:
  assumes "shs c S xs" "shs c T ys" "length xs = length ys"
  shows "keeps (good c) (add_v c S T) (\<lambda>r. shs c r (map2 (+) xs ys)) E"
  using assms by (auto simp: add_v_def list_all2_conv_all_nth intro!: keeps_ret sh_local)

lemma runs_sub_v [prog]:
  assumes "shs c S xs" "shs c T ys" "length xs = length ys"
  shows "keeps (good c) (sub_v c S T) (\<lambda>r. shs c r (map2 (-) xs ys)) E"
  using assms by (auto simp: sub_v_def list_all2_conv_all_nth intro!: keeps_ret sh_local)

lemma shs_add_inplace_v:
  "shs c S xs \<Longrightarrow> shs c T ys \<Longrightarrow> length xs = length ys \<Longrightarrow> shs c (add_inplace_v c S T) (map2 (+) xs ys)"
  by (auto simp: add_inplace_v_def list_all2_conv_all_nth intro!: sh_local)

lemma shs_sub_inplace_v:
  "shs c S xs \<Longrightarrow> shs c T ys \<Longrightarrow> length xs = length ys \<Longrightarrow> shs c (sub_inplace_v c S T) (map2 (-) xs ys)"
  by (auto simp: sub_inplace_v_def list_all2_conv_all_nth intro!: sh_local)

text \<open>A vector of public values in the field.\<close>

definition plain_v :: "ctx \<Rightarrow> int list \<Rightarrow> bool" where
  "plain_v c ks \<longleftrightarrow> (\<forall>k \<in> set ks. in_field (pr c) k)"

lemma plain_v_nth: "plain_v c ks \<Longrightarrow> i < length ks \<Longrightarrow> in_field (pr c) (ks ! i)"
  by (simp add: plain_v_def)

lemma runs_add_plain_v [prog]:
  assumes "wf c" "shs c S xs" "plain_v c ks" "length xs = length ks"
  shows "keeps (good c) (add_plain_v c S ks) (\<lambda>r. shs c r (map2 (+) xs ks)) E"
  using assms shs_length [OF assms(2)]
  by (auto simp: add_plain_v_def list_all2_conv_all_nth plain_v_nth intro!: keeps_ret sh_local_plain)

lemma runs_mul_plain_v [prog]:
  assumes "wf c" "shs c S xs" "length xs = length ks"
  shows "keeps (good c) (mul_plain_v c S ks) (\<lambda>r. shs c r (map2 (*) xs ks)) E"
  using assms shs_length [OF assms(2)]
  by (auto simp: mul_plain_v_def list_all2_conv_all_nth intro!: keeps_ret sh_local_plain)

lemma runs_sub_plain_v [prog]:
  assumes "wf c" "shs c S xs" "plain_v c ks" "length xs = length ks"
  shows "keeps (good c) (sub_plain_v c S ks) (\<lambda>r. shs c r (map2 (-) xs ks)) E"
  using assms shs_length [OF assms(2)]
  by (auto simp: sub_plain_v_def list_all2_conv_all_nth plain_v_nth intro!: keeps_ret sh_local_plain)

lemma runs_mul_inplace_v [prog]:
  assumes "wf c" "shs c S xs" "shs c T ys" "length xs = length ys"
  shows "keeps (good c) (mul_inplace_v c S T) (\<lambda>r. shs c r (map2 (*) xs ys)) E"
proof -
  have len: "length S = length T" "length S = length xs"
    using assms by (auto dest!: shs_length)
  have "keeps (good c) (mul_inplace c (fst ST) (snd ST)) (\<lambda>r. \<forall>i < length xs.
      ST = (S ! i, T ! i) \<longrightarrow> sh c r (xs ! i * ys ! i)) E" if "ST \<in> set (zip S T)" for ST
  proof -
    obtain i where i: "i < length xs" "ST = (S ! i, T ! i)"
      using \<open>ST \<in> set (zip S T)\<close> len by (auto simp: set_zip)
    have v: "sh c (S ! i) (xs ! i)" "sh c (T ! i) (ys ! i)" if "i < length xs" for i
      using that assms by (simp_all add: list_all2_conv_all_nth)
    have "keeps (good c) (mul_inplace c (S ! i) (T ! i)) (\<lambda>r. sh c r (xs ! i * ys ! i)) E"
      by (rule runs_mul_inplace [OF assms(1) v [OF i(1)]])
    then have "keeps (good c) (mul_inplace c (fst ST) (snd ST)) (\<lambda>r. sh c r (xs ! i * ys ! i)) E"
      by (simp add: i(2))
    then show ?thesis
    proof (rule runs_post, intro allI impI)
      fix r j assume r: "sh c r (xs ! i * ys ! i)" and j: "j < length xs" "ST = (S ! j, T ! j)"
      have "xs ! i mod pr c = xs ! j mod pr c" "ys ! i mod pr c = ys ! j mod pr c"
        using i j v [OF i(1)] v [OF j(1)] by (auto intro: sh_unique)
      then have "(xs ! i * ys ! i) mod pr c = (xs ! j * ys ! j) mod pr c" by (rule mod_mult_cong)
      with r show "sh c r (xs ! j * ys ! j)" by (rule sh_cong)
    qed
  qed
  then have "keeps (good c) (mapM (\<lambda>(x, y). mul_inplace c x y) (zip S T)) (list_all2 (\<lambda>ST r. \<forall>i < length xs.
      ST = (S ! i, T ! i) \<longrightarrow> sh c r (xs ! i * ys ! i)) (zip S T)) E"
    by (intro keeps_mapM) (auto simp: case_prod_beta)
  then show ?thesis
    unfolding mul_inplace_v_def using len assms(4)
    by (auto simp: list_all2_conv_all_nth elim!: runs_post)
qed

end
