(* ===== verification/Cplx.thy ===== *)
theory Cplx
  imports Online
begin

text \<open>
  Complex numbers over the field: \<open>Complex\<close> and \<open>Complex_Plain\<close> of \<open>POC/Complex.h\<close>, and
  the complex operations of \<open>OnlineOp\<close> (\<open>POC/OnlineOp.hpp\<close>). \<open>i * i = - 1\<close>, so that the
  values are Gaussian integers modulo the prime, the type \<open>gint\<close>.
\<close>

record 'a cx =
  cx_real :: 'a
  cx_imag :: 'a

type_synonym jcx = "jshare cx"
type_synonym cx_plain = "int cx"

section \<open>The operations\<close>

definition cx_add :: "ctx \<Rightarrow> jcx \<Rightarrow> jcx \<Rightarrow> jcx" where
  "cx_add c a b = \<lparr>cx_real = add c (cx_real a) (cx_real b), cx_imag = add c (cx_imag a) (cx_imag b)\<rparr>"

definition cx_add_plain :: "ctx \<Rightarrow> jcx \<Rightarrow> cx_plain \<Rightarrow> jcx" where
  "cx_add_plain c a b =
     \<lparr>cx_real = add_plain c (cx_real a) (cx_real b), cx_imag = add_plain c (cx_imag a) (cx_imag b)\<rparr>"

definition cx_add_inplace :: "ctx \<Rightarrow> jcx \<Rightarrow> jcx \<Rightarrow> jcx" where
  "cx_add_inplace c cc a = (let tmp = cx_add c cc a in tmp)"

definition cx_sub :: "ctx \<Rightarrow> jcx \<Rightarrow> jcx \<Rightarrow> jcx" where
  "cx_sub c a b = \<lparr>cx_real = sub c (cx_real a) (cx_real b), cx_imag = sub c (cx_imag a) (cx_imag b)\<rparr>"

definition cx_sub_plain :: "ctx \<Rightarrow> jcx \<Rightarrow> cx_plain \<Rightarrow> jcx" where
  "cx_sub_plain c a b =
     \<lparr>cx_real = sub_plain c (cx_real a) (cx_real b), cx_imag = sub_plain c (cx_imag a) (cx_imag b)\<rparr>"

definition cx_sub_inplace :: "ctx \<Rightarrow> jcx \<Rightarrow> jcx \<Rightarrow> jcx" where
  "cx_sub_inplace c cc a = (let tmp = cx_sub c cc a in tmp)"

definition cx_mul_plain :: "ctx \<Rightarrow> jcx \<Rightarrow> cx_plain \<Rightarrow> jcx" where
  "cx_mul_plain c a b =
     (let tmpreal = mul_plain c (cx_real a) (cx_real b);
          tmpimag = mul_plain c (cx_imag a) (cx_imag b);
          creal = sub c tmpreal tmpimag;
          tmpreal = mul_plain c (cx_real a) (cx_imag b);
          tmpimag = mul_plain c (cx_imag a) (cx_real b)
      in \<lparr>cx_real = creal, cx_imag = add c tmpreal tmpimag\<rparr>)"

definition cx_mul :: "ctx \<Rightarrow> jcx \<Rightarrow> jcx \<Rightarrow> (mpc, jcx) m" where
  "cx_mul c a b =
     bnd (mul c (cx_real a) (cx_real b)) (\<lambda>creal.
     bnd (mul c (cx_imag a) (cx_imag b)) (\<lambda>tmp.
     let creal = sub_inplace c creal tmp in
     bnd (mul c (cx_real a) (cx_imag b)) (\<lambda>cimag.
     bnd (mul c (cx_imag a) (cx_real b)) (\<lambda>tmp.
     let cimag = add_inplace c cimag tmp
     in ret \<lparr>cx_real = creal, cx_imag = cimag\<rparr>))))"

definition cx_mul_inplace :: "ctx \<Rightarrow> jcx \<Rightarrow> jcx \<Rightarrow> (mpc, jcx) m" where
  "cx_mul_inplace c cc a = bnd (cx_mul c cc a) (\<lambda>tmp. ret tmp)"

definition cx_sqr :: "ctx \<Rightarrow> jcx \<Rightarrow> (mpc, jcx) m" where
  "cx_sqr c a =
     bnd (sqr c (cx_real a)) (\<lambda>aareal.
     bnd (sqr c (cx_imag a)) (\<lambda>aaimag.
     let aareal = sub_inplace c aareal aaimag in
     bnd (mul c (cx_real a) (cx_imag a)) (\<lambda>aaimag.
     let aaimag = add_inplace c aaimag aaimag
     in ret \<lparr>cx_real = aareal, cx_imag = aaimag\<rparr>)))"

definition cx_sqr_inplace :: "ctx \<Rightarrow> jcx \<Rightarrow> (mpc, jcx) m" where
  "cx_sqr_inplace c a = bnd (cx_sqr c a) (\<lambda>tmp. ret tmp)"

definition cx_inv :: "ctx \<Rightarrow> jcx \<Rightarrow> (mpc, jcx) m" where
  "cx_inv c a =
     bnd (sqr c (cx_real a)) (\<lambda>iareal.
     bnd (sqr c (cx_imag a)) (\<lambda>iaimag.
     let iareal = add_inplace c iareal iaimag;
         rr = iareal
     in bnd (inv_inplace c rr) (\<lambda>rr.
     bnd (mul c (cx_real a) rr) (\<lambda>iareal.
     let neg = to_gfp (pr c) (- 1);
         rr = mul_plain_inplace c rr neg
     in bnd (mul c (cx_imag a) rr) (\<lambda>iaimag.
     ret \<lparr>cx_real = iareal, cx_imag = iaimag\<rparr>)))))"

definition cx_inv_inplace :: "ctx \<Rightarrow> jcx \<Rightarrow> (mpc, jcx) m" where
  "cx_inv_inplace c a = bnd (cx_inv c a) (\<lambda>tmp. ret tmp)"

definition cx_div :: "ctx \<Rightarrow> jcx \<Rightarrow> jcx \<Rightarrow> (mpc, jcx) m" where
  "cx_div c a b = bnd (cx_inv c b) (\<lambda>cc. cx_mul_inplace c cc a)"

definition cx_div_inplace :: "ctx \<Rightarrow> jcx \<Rightarrow> jcx \<Rightarrow> (mpc, jcx) m" where
  "cx_div_inplace c cc a = bnd (cx_div c cc a) (\<lambda>tmp. ret tmp)"

definition cx_get_inputs :: "ctx \<Rightarrow> nat \<Rightarrow> cx_plain list \<Rightarrow> (mpc, jcx) m" where
  "cx_get_inputs c party ins =
     bnd (get_inputs c party (map cx_real ins)) (\<lambda>sareal.
     bnd (get_inputs c party (map cx_imag ins)) (\<lambda>saimag.
     ret \<lparr>cx_real = sareal, cx_imag = saimag\<rparr>))"

text \<open>\<open>reveal_and_print\<close> of a complex share: the values it prints.\<close>

definition cx_reveal :: "ctx \<Rightarrow> jcx \<Rightarrow> (mpc, int list) m" where
  "cx_reveal c s = reveal_v c [cx_real s, cx_imag s]"

text \<open>\<open>mul_complex_plain\<close> and \<open>mul_complex_plain_inplace\<close> of \<open>POC/Group.hpp\<close>.\<close>

definition mul_complex_plain :: "int \<Rightarrow> cx_plain \<Rightarrow> cx_plain \<Rightarrow> cx_plain" where
  "mul_complex_plain p a b =
     (let r2 = gf_mul p (cx_real a) (cx_real b);
          i2 = gf_mul p (cx_imag a) (cx_imag b);
          creal = gf_sub p r2 i2;
          r2 = gf_mul p (cx_real a) (cx_imag b);
          i2 = gf_mul p (cx_imag a) (cx_real b)
      in \<lparr>cx_real = creal, cx_imag = gf_add p r2 i2\<rparr>)"

definition mul_complex_plain_inplace :: "int \<Rightarrow> cx_plain \<Rightarrow> cx_plain \<Rightarrow> cx_plain" where
  "mul_complex_plain_inplace p cc a = (let tmp = mul_complex_plain p cc a in tmp)"

section \<open>Gaussian integers\<close>

datatype gint = Gint (gre: int) (gim: int)

instantiation gint :: comm_ring_1
begin

definition zero_gint :: gint where
  "zero_gint = Gint 0 0"

definition one_gint :: gint where
  "one_gint = Gint 1 0"

definition plus_gint :: "gint \<Rightarrow> gint \<Rightarrow> gint" where
  "plus_gint x y = Gint (gre x + gre y) (gim x + gim y)"

definition minus_gint :: "gint \<Rightarrow> gint \<Rightarrow> gint" where
  "minus_gint x y = Gint (gre x - gre y) (gim x - gim y)"

definition uminus_gint :: "gint \<Rightarrow> gint" where
  "uminus_gint x = Gint (- gre x) (- gim x)"

definition times_gint :: "gint \<Rightarrow> gint \<Rightarrow> gint" where
  "times_gint x y = Gint (gre x * gre y - gim x * gim y) (gre x * gim y + gim x * gre y)"

instance
  by standard
    (simp_all add: zero_gint_def one_gint_def plus_gint_def minus_gint_def uminus_gint_def
      times_gint_def algebra_simps gint.expand)

end

lemma gint_sel [simp]:
  "gre (x + y) = gre x + gre y" "gim (x + y) = gim x + gim y"
  "gre (x - y) = gre x - gre y" "gim (x - y) = gim x - gim y"
  "gre (x * y) = gre x * gre y - gim x * gim y" "gim (x * y) = gre x * gim y + gim x * gre y"
  "gre 1 = 1" "gim 1 = 0" "gre 0 = 0" "gim 0 = 0"
  by (simp_all add: zero_gint_def one_gint_def plus_gint_def minus_gint_def times_gint_def)

definition cx_sh :: "ctx \<Rightarrow> jcx \<Rightarrow> gint \<Rightarrow> bool" where
  "cx_sh c S z \<longleftrightarrow> sh c (cx_real S) (gre z) \<and> sh c (cx_imag S) (gim z)"

definition gcong :: "ctx \<Rightarrow> gint \<Rightarrow> gint \<Rightarrow> bool" where
  "gcong c x y \<longleftrightarrow> gre x mod pr c = gre y mod pr c \<and> gim x mod pr c = gim y mod pr c"

definition cx_val :: "cx_plain \<Rightarrow> gint" where
  "cx_val k = Gint (cx_real k) (cx_imag k)"

definition cx_plain_ok :: "ctx \<Rightarrow> cx_plain \<Rightarrow> bool" where
  "cx_plain_ok c k \<longleftrightarrow> in_field (pr c) (cx_real k) \<and> in_field (pr c) (cx_imag k)"

lemma cx_sh_local [prog]:
  assumes "cx_sh c S x" "cx_sh c T y"
  shows "cx_sh c (cx_add c S T) (x + y)" "cx_sh c (cx_add_inplace c S T) (x + y)"
    "cx_sh c (cx_sub c S T) (x - y)" "cx_sh c (cx_sub_inplace c S T) (x - y)"
  using assms by (simp_all add: cx_sh_def cx_add_def cx_add_inplace_def cx_sub_def cx_sub_inplace_def sh_local)

lemma cx_sh_plain [prog]:
  assumes "wf c" "cx_sh c S x"
  shows "cx_plain_ok c k \<Longrightarrow> cx_sh c (cx_add_plain c S k) (x + cx_val k)"
    "cx_plain_ok c k \<Longrightarrow> cx_sh c (cx_sub_plain c S k) (x - cx_val k)"
    "cx_sh c (cx_mul_plain c S k) (x * cx_val k)"
  using assms by (auto simp: cx_sh_def cx_add_plain_def cx_sub_plain_def cx_mul_plain_def Let_def
      cx_plain_ok_def cx_val_def intro!: sh_local sh_local_plain)

lemma cx_sh_cong: "cx_sh c S x \<Longrightarrow> gcong c x y \<Longrightarrow> cx_sh c S y"
  by (auto simp: cx_sh_def gcong_def intro: sh_cong)

lemma runs_cx_mul [prog]:
  assumes c: "wf c" and S: "cx_sh c S x" "cx_sh c T y"
  shows "keeps (good c) (cx_mul c S T) (\<lambda>r. cx_sh c r (x * y)) E"
proof -
  have s: "sh c (cx_real S) (gre x)" "sh c (cx_imag S) (gim x)" "sh c (cx_real T) (gre y)" "sh c (cx_imag T) (gim y)"
    using S by (simp_all add: cx_sh_def)
  show ?thesis
    unfolding cx_mul_def Let_def
    by (rule keeps_bnd [OF runs_mul [OF c s(1,3)]], rule keeps_bnd [OF runs_mul [OF c s(2,4)]],
        rule keeps_bnd [OF runs_mul [OF c s(1,4)]], rule keeps_bnd [OF runs_mul [OF c s(2,3)]], rule keeps_ret)
      (auto simp: cx_sh_def intro: sh_local)
qed

lemma runs_cx_mul_inplace [prog]:
  "wf c \<Longrightarrow> cx_sh c S x \<Longrightarrow> cx_sh c T y \<Longrightarrow> keeps (good c) (cx_mul_inplace c S T) (\<lambda>r. cx_sh c r (x * y)) E"
  using runs_cx_mul by (simp add: cx_mul_inplace_def)

lemma runs_cx_sqr [prog]:
  assumes c: "wf c" and S: "cx_sh c S x"
  shows "keeps (good c) (cx_sqr c S) (\<lambda>r. cx_sh c r (x * x)) E"
proof -
  have s: "sh c (cx_real S) (gre x)" "sh c (cx_imag S) (gim x)" using S by (simp_all add: cx_sh_def)
  have v: "gre (x * x) = gre x * gre x - gim x * gim x" "gim (x * x) = gre x * gim x + gre x * gim x" by simp_all
  show ?thesis
    unfolding cx_sqr_def Let_def
    by (rule keeps_bnd [OF runs_sqr [OF c s(1)]], rule keeps_bnd [OF runs_sqr [OF c s(2)]],
        rule keeps_bnd [OF runs_mul [OF c s]], rule keeps_ret)
      (simp only: cx_sh_def v cx.select_convs, intro conjI sh_local, assumption+)
qed

text \<open>The inverse is the conjugate over the norm.\<close>

lemma norm_inverse:
  fixes x y w p :: int
  assumes "((x * x + y * y) * w) mod p = 1 mod p" and n: "n mod p = - 1 mod p"
  shows "(x * (x * w) - y * (y * (w * n))) mod p = 1 mod p"
    and "(x * (y * (w * n)) + y * (x * w)) mod p = 0 mod p"
proof -
  have n': "(z * n) mod p = (- z) mod p" for z
    using mod_mult_cong [OF refl n, of z] by simp
  have a: "(y * (y * (w * n))) mod p = (- (y * y * w)) mod p"
    using n' [of "y * y * w"] by (simp add: mult_ac)
  have "(x * (x * w) - y * (y * (w * n))) mod p = (x * (x * w) - - (y * y * w)) mod p"
    by (rule mod_diff_cong [OF refl a])
  then show "(x * (x * w) - y * (y * (w * n))) mod p = 1 mod p"
    using assms(1) by (simp add: algebra_simps)
  have b: "(x * (y * (w * n))) mod p = (- (x * y * w)) mod p"
    using n' [of "x * y * w"] by (simp add: mult_ac)
  have "(x * (y * (w * n)) + y * (x * w)) mod p = (- (x * y * w) + y * (x * w)) mod p"
    by (rule mod_add_cong [OF b refl])
  then show "(x * (y * (w * n)) + y * (x * w)) mod p = 0 mod p" by (simp add: algebra_simps)
qed

text \<open>The elements with a norm that is not zero.\<close>

definition cx_unit :: "ctx \<Rightarrow> gint \<Rightarrow> bool" where
  "cx_unit c x \<longleftrightarrow> (gre x * gre x + gim x * gim x) mod pr c \<noteq> 0"

lemma runs_cx_inv [prog]:
  assumes c: "wf c" "wf_prime c" and S: "cx_sh c S x" and E: "masks_nonzero c \<and> cx_unit c x \<or> E Division_by_zero"
  shows "keeps (good c) (cx_inv c S) (\<lambda>r. \<exists>y. cx_sh c r y \<and> gcong c (x * y) 1) E"
proof -
  let ?n = "to_gfp (pr c) (- 1)"
  have s: "sh c (cx_real S) (gre x)" "sh c (cx_imag S) (gim x)" using S by (simp_all add: cx_sh_def)
  have n: "?n mod pr c = - 1 mod pr c" using wf_pr [OF c(1)] by (simp add: to_gfp_mod)
  have i: "keeps (good c) (inv_inplace c (add_inplace c r i)) (inverse_of c (gre x * gre x + gim x * gim x)) E"
    if "sh c r (gre x * gre x)" "sh c i (gim x * gim x)" for r i
    using runs_inv [where E = E, OF c sh_local(2) [OF that]] E by (simp add: inv_inplace_def cx_unit_def)
  have tail: "keeps (good c) (bnd (mul c (cx_real S) rr) (\<lambda>ir.
      bnd (mul c (cx_imag S) (mul_plain_inplace c rr ?n)) (\<lambda>ii. ret \<lparr>cx_real = ir, cx_imag = ii\<rparr>)))
      (\<lambda>r. \<exists>y. cx_sh c r y \<and> gcong c (x * y) 1) E"
    if rr: "inverse_of c (gre x * gre x + gim x * gim x) rr" for rr
  proof -
    obtain w where w: "sh c rr w" "((gre x * gre x + gim x * gim x) * w) mod pr c = 1 mod pr c"
      using rr by (auto simp: inverse_of_def)
    have g: "gcong c (x * Gint (gre x * w) (gim x * (w * ?n))) 1"
      using norm_inverse [OF w(2) n] by (simp add: gcong_def)
    show ?thesis
      by (rule keeps_bnd [OF runs_mul [OF c(1) s(1) w(1)]],
          rule keeps_bnd [OF runs_mul [OF c(1) s(2) sh_local_plain(6) [OF c(1) w(1)]]], rule keeps_ret,
          rule exI [of _ "Gint (gre x * w) (gim x * (w * ?n))"])
        (use g in \<open>simp add: cx_sh_def\<close>)
  qed
  show ?thesis
    unfolding cx_inv_def Let_def
    by (rule keeps_bnd [OF runs_sqr [OF c(1) s(1)]], rule keeps_bnd [OF runs_sqr [OF c(1) s(2)]],
        rule keeps_bnd [OF i], assumption, assumption, rule tail)
qed

lemma gcong_refl [simp]: "gcong c x x"
  by (simp add: gcong_def)

lemma gcong_add: "gcong c x x' \<Longrightarrow> gcong c y y' \<Longrightarrow> gcong c (x + y) (x' + y')"
  by (auto simp: gcong_def intro: mod_add_cong)

lemma gcong_diff: "gcong c x x' \<Longrightarrow> gcong c y y' \<Longrightarrow> gcong c (x - y) (x' - y')"
  by (auto simp: gcong_def intro: mod_diff_cong)

lemma gcong_mult: "gcong c x x' \<Longrightarrow> gcong c y y' \<Longrightarrow> gcong c (x * y) (x' * y')"
  unfolding gcong_def gint_sel by (intro conjI mod_add_cong mod_diff_cong mod_mult_cong) auto

lemma gcong_trans: "gcong c x y \<Longrightarrow> gcong c y z \<Longrightarrow> gcong c x z"
  by (simp add: gcong_def)

lemma gcong_sym: "gcong c x y \<Longrightarrow> gcong c y x"
  by (simp add: gcong_def)

lemma runs_cx_div [prog]:
  assumes c: "wf c" "wf_prime c" and S: "cx_sh c S x" "cx_sh c T y"
    and E: "masks_nonzero c \<and> cx_unit c y \<or> E Division_by_zero"
  shows "keeps (good c) (cx_div c S T) (\<lambda>r. \<exists>z. cx_sh c r z \<and> gcong c (z * y) x) E"
  unfolding cx_div_def
proof (rule keeps_bnd [OF runs_cx_inv [where E = E, OF c S(2) E]])
  fix cc assume "\<exists>w. cx_sh c cc w \<and> gcong c (y * w) 1"
  then obtain w where w: "cx_sh c cc w" "gcong c (y * w) 1" by blast
  have "gcong c (x * (y * w)) (x * 1)" using w(2) by (intro gcong_mult) simp_all
  then have "gcong c (w * x * y) x" by (simp add: mult_ac)
  then show "keeps (good c) (cx_mul_inplace c cc S) (\<lambda>r. \<exists>z. cx_sh c r z \<and> gcong c (z * y) x) E"
    by (intro runs_post [OF runs_cx_mul_inplace [OF c(1) w(1) S(1)]]) blast
qed

lemma mul_complex_plain_value:
  "1 < pr c \<Longrightarrow> gcong c (cx_val (mul_complex_plain (pr c) a b)) (cx_val a * cx_val b)"
  by (simp add: mul_complex_plain_def Let_def gcong_def cx_val_def gf_add_cong gf_sub_cong gf_mul_def mod_simps)

end
