(* ===== verification/Curves.thy ===== *)
theory Curves
  imports Cplx
begin

text \<open>
  Points of the two curve groups under sharing: the coordinate classes of \<open>POC/Group.h\<close> and
  the additions of \<open>G1Op\<close> and \<open>G2Op\<close> (\<open>POC/Group.hpp\<close>), in affine, Jacobian and projective
  coordinates, with a shared or a public second operand. \<open>G1\<close> works over the field, \<open>G2\<close> over
  its complex extension; the two classes have the same text over different operations, and so
  do their models. The equal steps are stated once more over a record of operations, for the
  proofs.
\<close>

section \<open>Coordinates\<close>

record 'a affine =
  aff_x :: 'a
  aff_y :: 'a

record 'a jacobian =
  jac_X :: 'a
  jac_Y :: 'a
  jac_Z :: 'a

record 'a projective =
  proj_X :: 'a
  proj_Y :: 'a
  proj_Z :: 'a

text \<open>The operations the additions are made of.\<close>

record ('s, 'p) ring_ops =
  r_add :: "'s \<Rightarrow> 's \<Rightarrow> 's"
  r_add_inplace :: "'s \<Rightarrow> 's \<Rightarrow> 's"
  r_sub :: "'s \<Rightarrow> 's \<Rightarrow> 's"
  r_sub_inplace :: "'s \<Rightarrow> 's \<Rightarrow> 's"
  r_sub_plain :: "'s \<Rightarrow> 'p \<Rightarrow> 's"
  r_mul_plain :: "'s \<Rightarrow> 'p \<Rightarrow> 's"
  r_plain_mul :: "'p \<Rightarrow> 'p \<Rightarrow> 'p"
  r_mul :: "'s \<Rightarrow> 's \<Rightarrow> (mpc, 's) m"
  r_mul_inplace :: "'s \<Rightarrow> 's \<Rightarrow> (mpc, 's) m"
  r_sqr :: "'s \<Rightarrow> (mpc, 's) m"
  r_div_inplace :: "'s \<Rightarrow> 's \<Rightarrow> (mpc, 's) m"

section \<open>The first group\<close>

definition g1_add_plain_aff :: "ctx \<Rightarrow> jshare affine \<Rightarrow> int affine \<Rightarrow> (mpc, jshare affine) m" where
  "g1_add_plain_aff c a b =
     (let m = sub_plain c (aff_y a) (aff_y b);
          dx = sub_plain c (aff_x a) (aff_x b)
      in bnd (div_inplace c m dx) (\<lambda>m.
         bnd (sqr c m) (\<lambda>mm.
         let mm = sub_inplace c mm (aff_x a);
             cx = sub_plain c mm (aff_x b);
             cy = sub c (aff_x a) cx
         in bnd (mul_inplace c cy m) (\<lambda>cy.
            let cy = sub_inplace c cy (aff_y a)
            in ret \<lparr>aff_x = cx, aff_y = cy\<rparr>))))"

definition g1_add_plain_aff_inplace :: "ctx \<Rightarrow> jshare affine \<Rightarrow> int affine \<Rightarrow> (mpc, jshare affine) m" where
  "g1_add_plain_aff_inplace c cc a = bnd (g1_add_plain_aff c cc a) (\<lambda>tmp. ret tmp)"

definition g1_add_aff :: "ctx \<Rightarrow> jshare affine \<Rightarrow> jshare affine \<Rightarrow> (mpc, jshare affine) m" where
  "g1_add_aff c a b =
     (let m = sub c (aff_y a) (aff_y b);
          dx = sub c (aff_x a) (aff_x b)
      in bnd (div_inplace c m dx) (\<lambda>m.
         bnd (sqr c m) (\<lambda>mm.
         let mm = sub_inplace c mm (aff_x a);
             cx = sub c mm (aff_x b);
             cy = sub c (aff_x a) cx
         in bnd (mul_inplace c cy m) (\<lambda>cy.
            let cy = sub_inplace c cy (aff_y a)
            in ret \<lparr>aff_x = cx, aff_y = cy\<rparr>))))"

definition g1_add_aff_inplace :: "ctx \<Rightarrow> jshare affine \<Rightarrow> jshare affine \<Rightarrow> (mpc, jshare affine) m" where
  "g1_add_aff_inplace c cc a = bnd (g1_add_aff c cc a) (\<lambda>tmp. ret tmp)"

definition g1_add_plain_jac :: "ctx \<Rightarrow> jshare jacobian \<Rightarrow> int jacobian \<Rightarrow> (mpc, jshare jacobian) m" where
  "g1_add_plain_jac c a b =
     bnd (sqr c (jac_Z a)) (\<lambda>S2.
     let bZ3 = gf_mul (pr c) (jac_Z b) (jac_Z b);
         U2 = mul_plain c S2 (jac_X b);
         U1 = mul_plain c (jac_X a) bZ3;
         S = mul_plain c S2 (jac_Y b)
     in bnd (mul c S (jac_Z a)) (\<lambda>S2.
     let bZ3 = gf_mul (pr c) bZ3 (jac_Z b);
         S1 = mul_plain c (jac_Y a) bZ3;
         R = sub c S1 S2;
         H = sub c U1 U2
     in bnd (sqr c H) (\<lambda>V.
     bnd (mul c V H) (\<lambda>G.
     bnd (mul_inplace c V U1) (\<lambda>V.
     let cZ = mul_plain c (jac_Z a) (jac_Z b) in
     bnd (mul_inplace c cZ H) (\<lambda>cZ.
     bnd (sqr c R) (\<lambda>tmp.
     let cX = add c tmp G;
         cX = sub_inplace c cX V;
         cX = sub_inplace c cX V
     in bnd (mul c S1 G) (\<lambda>tmp.
     let cY = sub c V cX in
     bnd (mul_inplace c cY R) (\<lambda>cY.
     let cY = sub_inplace c cY tmp
     in ret \<lparr>jac_X = cX, jac_Y = cY, jac_Z = cZ\<rparr>)))))))))"

definition g1_add_plain_jac_inplace :: "ctx \<Rightarrow> jshare jacobian \<Rightarrow> int jacobian \<Rightarrow> (mpc, jshare jacobian) m" where
  "g1_add_plain_jac_inplace c cc a = bnd (g1_add_plain_jac c cc a) (\<lambda>tmp. ret tmp)"

definition g1_add_jac :: "ctx \<Rightarrow> jshare jacobian \<Rightarrow> jshare jacobian \<Rightarrow> (mpc, jshare jacobian) m" where
  "g1_add_jac c a b =
     bnd (sqr c (jac_Z a)) (\<lambda>S2.
     bnd (sqr c (jac_Z b)) (\<lambda>S1.
     bnd (mul c (jac_X b) S2) (\<lambda>U2.
     bnd (mul c (jac_X a) S1) (\<lambda>U1.
     bnd (mul_inplace c S2 (jac_Y b)) (\<lambda>S2.
     bnd (mul_inplace c S2 (jac_Z a)) (\<lambda>S2.
     bnd (mul_inplace c S1 (jac_Y a)) (\<lambda>S1.
     bnd (mul_inplace c S1 (jac_Z b)) (\<lambda>S1.
     let R = sub c S1 S2;
         H = sub c U1 U2
     in bnd (sqr c H) (\<lambda>V.
     bnd (mul c V H) (\<lambda>G.
     bnd (mul_inplace c V U1) (\<lambda>V.
     bnd (mul c (jac_Z a) (jac_Z b)) (\<lambda>cZ.
     bnd (mul_inplace c cZ H) (\<lambda>cZ.
     bnd (sqr c R) (\<lambda>tmp.
     let cX = add c tmp G;
         cX = sub_inplace c cX V;
         cX = sub_inplace c cX V
     in bnd (mul c S1 G) (\<lambda>tmp.
     let cY = sub c V cX in
     bnd (mul_inplace c cY R) (\<lambda>cY.
     let cY = sub_inplace c cY tmp
     in ret \<lparr>jac_X = cX, jac_Y = cY, jac_Z = cZ\<rparr>))))))))))))))))"

definition g1_add_jac_inplace :: "ctx \<Rightarrow> jshare jacobian \<Rightarrow> jshare jacobian \<Rightarrow> (mpc, jshare jacobian) m" where
  "g1_add_jac_inplace c cc a = bnd (g1_add_jac c cc a) (\<lambda>tmp. ret tmp)"

definition g1_add_plain_proj :: "ctx \<Rightarrow> jshare projective \<Rightarrow> int projective \<Rightarrow> (mpc, jshare projective) m" where
  "g1_add_plain_proj c a b =
     (let S2 = mul_plain c (proj_Z a) (proj_Y b);
          S1 = mul_plain c (proj_Y a) (proj_Z b);
          U2 = mul_plain c (proj_Z a) (proj_X b);
          U1 = mul_plain c (proj_X a) (proj_Z b);
          R = sub c S1 S2;
          H = sub c U1 U2;
          T = mul_plain c (proj_Z a) (proj_Z b)
     in bnd (sqr c H) (\<lambda>H2.
     bnd (mul c U1 H2) (\<lambda>V.
     bnd (mul c H2 H) (\<lambda>G.
     bnd (sqr c R) (\<lambda>R2.
     bnd (mul c R2 T) (\<lambda>W.
     let W = add_inplace c W G;
         W = sub_inplace c W V;
         W = sub_inplace c W V
     in bnd (mul c T G) (\<lambda>cZ.
     bnd (mul c S1 G) (\<lambda>tmp.
     let cY = sub c V W in
     bnd (mul_inplace c cY R) (\<lambda>cY.
     let cY = sub_inplace c cY tmp in
     bnd (mul c H W) (\<lambda>cX.
     ret \<lparr>proj_X = cX, proj_Y = cY, proj_Z = cZ\<rparr>))))))))))"

definition g1_add_plain_proj_inplace :: "ctx \<Rightarrow> jshare projective \<Rightarrow> int projective \<Rightarrow> (mpc, jshare projective) m" where
  "g1_add_plain_proj_inplace c cc a = bnd (g1_add_plain_proj c cc a) (\<lambda>tmp. ret tmp)"

definition g1_add_proj :: "ctx \<Rightarrow> jshare projective \<Rightarrow> jshare projective \<Rightarrow> (mpc, jshare projective) m" where
  "g1_add_proj c a b =
     bnd (mul c (proj_Y b) (proj_Z a)) (\<lambda>S2.
     bnd (mul c (proj_Y a) (proj_Z b)) (\<lambda>S1.
     bnd (mul c (proj_X b) (proj_Z a)) (\<lambda>U2.
     bnd (mul c (proj_X a) (proj_Z b)) (\<lambda>U1.
     let R = sub c S1 S2;
         H = sub c U1 U2
     in bnd (mul c (proj_Z a) (proj_Z b)) (\<lambda>T.
     bnd (sqr c H) (\<lambda>H2.
     bnd (mul c U1 H2) (\<lambda>V.
     bnd (mul c H2 H) (\<lambda>G.
     bnd (sqr c R) (\<lambda>R2.
     bnd (mul c R2 T) (\<lambda>W.
     let W = add_inplace c W G;
         W = sub_inplace c W V;
         W = sub_inplace c W V
     in bnd (mul c T G) (\<lambda>cZ.
     bnd (mul c S1 G) (\<lambda>tmp.
     let cY = sub c V W in
     bnd (mul_inplace c cY R) (\<lambda>cY.
     let cY = sub_inplace c cY tmp in
     bnd (mul c H W) (\<lambda>cX.
     ret \<lparr>proj_X = cX, proj_Y = cY, proj_Z = cZ\<rparr>))))))))))))))"

definition g1_add_proj_inplace :: "ctx \<Rightarrow> jshare projective \<Rightarrow> jshare projective \<Rightarrow> (mpc, jshare projective) m" where
  "g1_add_proj_inplace c cc a = bnd (g1_add_proj c cc a) (\<lambda>tmp. ret tmp)"

section \<open>The second group\<close>

definition g2_add_plain_aff :: "ctx \<Rightarrow> jcx affine \<Rightarrow> cx_plain affine \<Rightarrow> (mpc, jcx affine) m" where
  "g2_add_plain_aff c a b =
     (let m = cx_sub_plain c (aff_y a) (aff_y b);
          dx = cx_sub_plain c (aff_x a) (aff_x b)
      in bnd (cx_div_inplace c m dx) (\<lambda>m.
         bnd (cx_sqr c m) (\<lambda>mm.
         let mm = cx_sub_inplace c mm (aff_x a);
             cx = cx_sub_plain c mm (aff_x b);
             cy = cx_sub c (aff_x a) cx
         in bnd (cx_mul_inplace c cy m) (\<lambda>cy.
            let cy = cx_sub_inplace c cy (aff_y a)
            in ret \<lparr>aff_x = cx, aff_y = cy\<rparr>))))"

definition g2_add_plain_aff_inplace :: "ctx \<Rightarrow> jcx affine \<Rightarrow> cx_plain affine \<Rightarrow> (mpc, jcx affine) m" where
  "g2_add_plain_aff_inplace c cc a = bnd (g2_add_plain_aff c cc a) (\<lambda>tmp. ret tmp)"

definition g2_add_aff :: "ctx \<Rightarrow> jcx affine \<Rightarrow> jcx affine \<Rightarrow> (mpc, jcx affine) m" where
  "g2_add_aff c a b =
     (let m = cx_sub c (aff_y a) (aff_y b);
          dx = cx_sub c (aff_x a) (aff_x b)
      in bnd (cx_div_inplace c m dx) (\<lambda>m.
         bnd (cx_sqr c m) (\<lambda>mm.
         let mm = cx_sub_inplace c mm (aff_x a);
             cx = cx_sub c mm (aff_x b);
             cy = cx_sub c (aff_x a) cx
         in bnd (cx_mul_inplace c cy m) (\<lambda>cy.
            let cy = cx_sub_inplace c cy (aff_y a)
            in ret \<lparr>aff_x = cx, aff_y = cy\<rparr>))))"

definition g2_add_aff_inplace :: "ctx \<Rightarrow> jcx affine \<Rightarrow> jcx affine \<Rightarrow> (mpc, jcx affine) m" where
  "g2_add_aff_inplace c cc a = bnd (g2_add_aff c cc a) (\<lambda>tmp. ret tmp)"

definition g2_add_plain_jac :: "ctx \<Rightarrow> jcx jacobian \<Rightarrow> cx_plain jacobian \<Rightarrow> (mpc, jcx jacobian) m" where
  "g2_add_plain_jac c a b =
     bnd (cx_sqr c (jac_Z a)) (\<lambda>S2.
     let bZ3 = mul_complex_plain (pr c) (jac_Z b) (jac_Z b);
         U2 = cx_mul_plain c S2 (jac_X b);
         U1 = cx_mul_plain c (jac_X a) bZ3;
         S = cx_mul_plain c S2 (jac_Y b)
     in bnd (cx_mul c S (jac_Z a)) (\<lambda>S2.
     let bZ3 = mul_complex_plain_inplace (pr c) bZ3 (jac_Z b);
         S1 = cx_mul_plain c (jac_Y a) bZ3;
         R = cx_sub c S1 S2;
         H = cx_sub c U1 U2
     in bnd (cx_sqr c H) (\<lambda>V.
     bnd (cx_mul c V H) (\<lambda>G.
     bnd (cx_mul_inplace c V U1) (\<lambda>V.
     let cZ = cx_mul_plain c (jac_Z a) (jac_Z b) in
     bnd (cx_mul_inplace c cZ H) (\<lambda>cZ.
     bnd (cx_sqr c R) (\<lambda>tmp.
     let cX = cx_add c tmp G;
         cX = cx_sub_inplace c cX V;
         cX = cx_sub_inplace c cX V
     in bnd (cx_mul c S1 G) (\<lambda>tmp.
     let cY = cx_sub c V cX in
     bnd (cx_mul_inplace c cY R) (\<lambda>cY.
     let cY = cx_sub_inplace c cY tmp
     in ret \<lparr>jac_X = cX, jac_Y = cY, jac_Z = cZ\<rparr>)))))))))"

definition g2_add_plain_jac_inplace :: "ctx \<Rightarrow> jcx jacobian \<Rightarrow> cx_plain jacobian \<Rightarrow> (mpc, jcx jacobian) m" where
  "g2_add_plain_jac_inplace c cc a = bnd (g2_add_plain_jac c cc a) (\<lambda>tmp. ret tmp)"

definition g2_add_jac :: "ctx \<Rightarrow> jcx jacobian \<Rightarrow> jcx jacobian \<Rightarrow> (mpc, jcx jacobian) m" where
  "g2_add_jac c a b =
     bnd (cx_sqr c (jac_Z a)) (\<lambda>S2.
     bnd (cx_sqr c (jac_Z b)) (\<lambda>S1.
     bnd (cx_mul c (jac_X b) S2) (\<lambda>U2.
     bnd (cx_mul c (jac_X a) S1) (\<lambda>U1.
     bnd (cx_mul_inplace c S2 (jac_Y b)) (\<lambda>S2.
     bnd (cx_mul_inplace c S2 (jac_Z a)) (\<lambda>S2.
     bnd (cx_mul_inplace c S1 (jac_Y a)) (\<lambda>S1.
     bnd (cx_mul_inplace c S1 (jac_Z b)) (\<lambda>S1.
     let R = cx_sub c S1 S2;
         H = cx_sub c U1 U2
     in bnd (cx_sqr c H) (\<lambda>V.
     bnd (cx_mul c V H) (\<lambda>G.
     bnd (cx_mul_inplace c V U1) (\<lambda>V.
     bnd (cx_mul c (jac_Z a) (jac_Z b)) (\<lambda>cZ.
     bnd (cx_mul_inplace c cZ H) (\<lambda>cZ.
     bnd (cx_sqr c R) (\<lambda>tmp.
     let cX = cx_add c tmp G;
         cX = cx_sub_inplace c cX V;
         cX = cx_sub_inplace c cX V
     in bnd (cx_mul c S1 G) (\<lambda>tmp.
     let cY = cx_sub c V cX in
     bnd (cx_mul_inplace c cY R) (\<lambda>cY.
     let cY = cx_sub_inplace c cY tmp
     in ret \<lparr>jac_X = cX, jac_Y = cY, jac_Z = cZ\<rparr>))))))))))))))))"

definition g2_add_jac_inplace :: "ctx \<Rightarrow> jcx jacobian \<Rightarrow> jcx jacobian \<Rightarrow> (mpc, jcx jacobian) m" where
  "g2_add_jac_inplace c cc a = bnd (g2_add_jac c cc a) (\<lambda>tmp. ret tmp)"

definition g2_add_plain_proj :: "ctx \<Rightarrow> jcx projective \<Rightarrow> cx_plain projective \<Rightarrow> (mpc, jcx projective) m" where
  "g2_add_plain_proj c a b =
     (let S2 = cx_mul_plain c (proj_Z a) (proj_Y b);
          S1 = cx_mul_plain c (proj_Y a) (proj_Z b);
          U2 = cx_mul_plain c (proj_Z a) (proj_X b);
          U1 = cx_mul_plain c (proj_X a) (proj_Z b);
          R = cx_sub c S1 S2;
          H = cx_sub c U1 U2;
          T = cx_mul_plain c (proj_Z a) (proj_Z b)
     in bnd (cx_sqr c H) (\<lambda>H2.
     bnd (cx_mul c U1 H2) (\<lambda>V.
     bnd (cx_mul c H2 H) (\<lambda>G.
     bnd (cx_sqr c R) (\<lambda>R2.
     bnd (cx_mul c R2 T) (\<lambda>W.
     let W = cx_add_inplace c W G;
         W = cx_sub_inplace c W V;
         W = cx_sub_inplace c W V
     in bnd (cx_mul c T G) (\<lambda>cZ.
     bnd (cx_mul c S1 G) (\<lambda>tmp.
     let cY = cx_sub c V W in
     bnd (cx_mul_inplace c cY R) (\<lambda>cY.
     let cY = cx_sub_inplace c cY tmp in
     bnd (cx_mul c H W) (\<lambda>cX.
     ret \<lparr>proj_X = cX, proj_Y = cY, proj_Z = cZ\<rparr>))))))))))"

definition g2_add_plain_proj_inplace :: "ctx \<Rightarrow> jcx projective \<Rightarrow> cx_plain projective \<Rightarrow> (mpc, jcx projective) m" where
  "g2_add_plain_proj_inplace c cc a = bnd (g2_add_plain_proj c cc a) (\<lambda>tmp. ret tmp)"

definition g2_add_proj :: "ctx \<Rightarrow> jcx projective \<Rightarrow> jcx projective \<Rightarrow> (mpc, jcx projective) m" where
  "g2_add_proj c a b =
     bnd (cx_mul c (proj_Y b) (proj_Z a)) (\<lambda>S2.
     bnd (cx_mul c (proj_Y a) (proj_Z b)) (\<lambda>S1.
     bnd (cx_mul c (proj_X b) (proj_Z a)) (\<lambda>U2.
     bnd (cx_mul c (proj_X a) (proj_Z b)) (\<lambda>U1.
     let R = cx_sub c S1 S2;
         H = cx_sub c U1 U2
     in bnd (cx_mul c (proj_Z a) (proj_Z b)) (\<lambda>T.
     bnd (cx_sqr c H) (\<lambda>H2.
     bnd (cx_mul c U1 H2) (\<lambda>V.
     bnd (cx_mul c H2 H) (\<lambda>G.
     bnd (cx_sqr c R) (\<lambda>R2.
     bnd (cx_mul c R2 T) (\<lambda>W.
     let W = cx_add_inplace c W G;
         W = cx_sub_inplace c W V;
         W = cx_sub_inplace c W V
     in bnd (cx_mul c T G) (\<lambda>cZ.
     bnd (cx_mul c S1 G) (\<lambda>tmp.
     let cY = cx_sub c V W in
     bnd (cx_mul_inplace c cY R) (\<lambda>cY.
     let cY = cx_sub_inplace c cY tmp in
     bnd (cx_mul c H W) (\<lambda>cX.
     ret \<lparr>proj_X = cX, proj_Y = cY, proj_Z = cZ\<rparr>))))))))))))))"

definition g2_add_proj_inplace :: "ctx \<Rightarrow> jcx projective \<Rightarrow> jcx projective \<Rightarrow> (mpc, jcx projective) m" where
  "g2_add_proj_inplace c cc a = bnd (g2_add_proj c cc a) (\<lambda>tmp. ret tmp)"

section \<open>The common steps\<close>

definition gen_add_plain_aff :: "('s, 'p) ring_ops \<Rightarrow> 's affine \<Rightarrow> 'p affine \<Rightarrow> (mpc, 's affine) m" where
  "gen_add_plain_aff ops a b =
     (let m = r_sub_plain ops (aff_y a) (aff_y b);
          dx = r_sub_plain ops (aff_x a) (aff_x b)
      in bnd (r_div_inplace ops m dx) (\<lambda>m.
         bnd (r_sqr ops m) (\<lambda>mm.
         let mm = r_sub_inplace ops mm (aff_x a);
             cx = r_sub_plain ops mm (aff_x b);
             cy = r_sub ops (aff_x a) cx
         in bnd (r_mul_inplace ops cy m) (\<lambda>cy.
            let cy = r_sub_inplace ops cy (aff_y a)
            in ret \<lparr>aff_x = cx, aff_y = cy\<rparr>))))"

definition gen_add_aff :: "('s, 'p) ring_ops \<Rightarrow> 's affine \<Rightarrow> 's affine \<Rightarrow> (mpc, 's affine) m" where
  "gen_add_aff ops a b =
     (let m = r_sub ops (aff_y a) (aff_y b);
          dx = r_sub ops (aff_x a) (aff_x b)
      in bnd (r_div_inplace ops m dx) (\<lambda>m.
         bnd (r_sqr ops m) (\<lambda>mm.
         let mm = r_sub_inplace ops mm (aff_x a);
             cx = r_sub ops mm (aff_x b);
             cy = r_sub ops (aff_x a) cx
         in bnd (r_mul_inplace ops cy m) (\<lambda>cy.
            let cy = r_sub_inplace ops cy (aff_y a)
            in ret \<lparr>aff_x = cx, aff_y = cy\<rparr>))))"

definition gen_add_plain_jac :: "('s, 'p) ring_ops \<Rightarrow> 's jacobian \<Rightarrow> 'p jacobian \<Rightarrow> (mpc, 's jacobian) m" where
  "gen_add_plain_jac ops a b =
     bnd (r_sqr ops (jac_Z a)) (\<lambda>S2.
     let bZ3 = r_plain_mul ops (jac_Z b) (jac_Z b);
         U2 = r_mul_plain ops S2 (jac_X b);
         U1 = r_mul_plain ops (jac_X a) bZ3;
         S = r_mul_plain ops S2 (jac_Y b)
     in bnd (r_mul ops S (jac_Z a)) (\<lambda>S2.
     let bZ3 = r_plain_mul ops bZ3 (jac_Z b);
         S1 = r_mul_plain ops (jac_Y a) bZ3;
         R = r_sub ops S1 S2;
         H = r_sub ops U1 U2
     in bnd (r_sqr ops H) (\<lambda>V.
     bnd (r_mul ops V H) (\<lambda>G.
     bnd (r_mul_inplace ops V U1) (\<lambda>V.
     let cZ = r_mul_plain ops (jac_Z a) (jac_Z b) in
     bnd (r_mul_inplace ops cZ H) (\<lambda>cZ.
     bnd (r_sqr ops R) (\<lambda>tmp.
     let cX = r_add ops tmp G;
         cX = r_sub_inplace ops cX V;
         cX = r_sub_inplace ops cX V
     in bnd (r_mul ops S1 G) (\<lambda>tmp.
     let cY = r_sub ops V cX in
     bnd (r_mul_inplace ops cY R) (\<lambda>cY.
     let cY = r_sub_inplace ops cY tmp
     in ret \<lparr>jac_X = cX, jac_Y = cY, jac_Z = cZ\<rparr>)))))))))"

definition gen_add_jac :: "('s, 'p) ring_ops \<Rightarrow> 's jacobian \<Rightarrow> 's jacobian \<Rightarrow> (mpc, 's jacobian) m" where
  "gen_add_jac ops a b =
     bnd (r_sqr ops (jac_Z a)) (\<lambda>S2.
     bnd (r_sqr ops (jac_Z b)) (\<lambda>S1.
     bnd (r_mul ops (jac_X b) S2) (\<lambda>U2.
     bnd (r_mul ops (jac_X a) S1) (\<lambda>U1.
     bnd (r_mul_inplace ops S2 (jac_Y b)) (\<lambda>S2.
     bnd (r_mul_inplace ops S2 (jac_Z a)) (\<lambda>S2.
     bnd (r_mul_inplace ops S1 (jac_Y a)) (\<lambda>S1.
     bnd (r_mul_inplace ops S1 (jac_Z b)) (\<lambda>S1.
     let R = r_sub ops S1 S2;
         H = r_sub ops U1 U2
     in bnd (r_sqr ops H) (\<lambda>V.
     bnd (r_mul ops V H) (\<lambda>G.
     bnd (r_mul_inplace ops V U1) (\<lambda>V.
     bnd (r_mul ops (jac_Z a) (jac_Z b)) (\<lambda>cZ.
     bnd (r_mul_inplace ops cZ H) (\<lambda>cZ.
     bnd (r_sqr ops R) (\<lambda>tmp.
     let cX = r_add ops tmp G;
         cX = r_sub_inplace ops cX V;
         cX = r_sub_inplace ops cX V
     in bnd (r_mul ops S1 G) (\<lambda>tmp.
     let cY = r_sub ops V cX in
     bnd (r_mul_inplace ops cY R) (\<lambda>cY.
     let cY = r_sub_inplace ops cY tmp
     in ret \<lparr>jac_X = cX, jac_Y = cY, jac_Z = cZ\<rparr>))))))))))))))))"

definition gen_add_plain_proj :: "('s, 'p) ring_ops \<Rightarrow> 's projective \<Rightarrow> 'p projective \<Rightarrow> (mpc, 's projective) m" where
  "gen_add_plain_proj ops a b =
     (let S2 = r_mul_plain ops (proj_Z a) (proj_Y b);
          S1 = r_mul_plain ops (proj_Y a) (proj_Z b);
          U2 = r_mul_plain ops (proj_Z a) (proj_X b);
          U1 = r_mul_plain ops (proj_X a) (proj_Z b);
          R = r_sub ops S1 S2;
          H = r_sub ops U1 U2;
          T = r_mul_plain ops (proj_Z a) (proj_Z b)
     in bnd (r_sqr ops H) (\<lambda>H2.
     bnd (r_mul ops U1 H2) (\<lambda>V.
     bnd (r_mul ops H2 H) (\<lambda>G.
     bnd (r_sqr ops R) (\<lambda>R2.
     bnd (r_mul ops R2 T) (\<lambda>W.
     let W = r_add_inplace ops W G;
         W = r_sub_inplace ops W V;
         W = r_sub_inplace ops W V
     in bnd (r_mul ops T G) (\<lambda>cZ.
     bnd (r_mul ops S1 G) (\<lambda>tmp.
     let cY = r_sub ops V W in
     bnd (r_mul_inplace ops cY R) (\<lambda>cY.
     let cY = r_sub_inplace ops cY tmp in
     bnd (r_mul ops H W) (\<lambda>cX.
     ret \<lparr>proj_X = cX, proj_Y = cY, proj_Z = cZ\<rparr>))))))))))"

definition gen_add_proj :: "('s, 'p) ring_ops \<Rightarrow> 's projective \<Rightarrow> 's projective \<Rightarrow> (mpc, 's projective) m" where
  "gen_add_proj ops a b =
     bnd (r_mul ops (proj_Y b) (proj_Z a)) (\<lambda>S2.
     bnd (r_mul ops (proj_Y a) (proj_Z b)) (\<lambda>S1.
     bnd (r_mul ops (proj_X b) (proj_Z a)) (\<lambda>U2.
     bnd (r_mul ops (proj_X a) (proj_Z b)) (\<lambda>U1.
     let R = r_sub ops S1 S2;
         H = r_sub ops U1 U2
     in bnd (r_mul ops (proj_Z a) (proj_Z b)) (\<lambda>T.
     bnd (r_sqr ops H) (\<lambda>H2.
     bnd (r_mul ops U1 H2) (\<lambda>V.
     bnd (r_mul ops H2 H) (\<lambda>G.
     bnd (r_sqr ops R) (\<lambda>R2.
     bnd (r_mul ops R2 T) (\<lambda>W.
     let W = r_add_inplace ops W G;
         W = r_sub_inplace ops W V;
         W = r_sub_inplace ops W V
     in bnd (r_mul ops T G) (\<lambda>cZ.
     bnd (r_mul ops S1 G) (\<lambda>tmp.
     let cY = r_sub ops V W in
     bnd (r_mul_inplace ops cY R) (\<lambda>cY.
     let cY = r_sub_inplace ops cY tmp in
     bnd (r_mul ops H W) (\<lambda>cX.
     ret \<lparr>proj_X = cX, proj_Y = cY, proj_Z = cZ\<rparr>))))))))))))))"

definition g1_ops :: "ctx \<Rightarrow> (jshare, int) ring_ops" where
  "g1_ops c = \<lparr>r_add = add c, r_add_inplace = add_inplace c, r_sub = sub c, r_sub_inplace = sub_inplace c,
     r_sub_plain = sub_plain c, r_mul_plain = mul_plain c, r_plain_mul = gf_mul (pr c), r_mul = mul c,
     r_mul_inplace = mul_inplace c, r_sqr = sqr c, r_div_inplace = div_inplace c\<rparr>"

definition g2_ops :: "ctx \<Rightarrow> (jcx, cx_plain) ring_ops" where
  "g2_ops c = \<lparr>r_add = cx_add c, r_add_inplace = cx_add_inplace c, r_sub = cx_sub c,
     r_sub_inplace = cx_sub_inplace c, r_sub_plain = cx_sub_plain c, r_mul_plain = cx_mul_plain c,
     r_plain_mul = mul_complex_plain (pr c), r_mul = cx_mul c, r_mul_inplace = cx_mul_inplace c,
     r_sqr = cx_sqr c, r_div_inplace = cx_div_inplace c\<rparr>"

lemma plain_mul_inplace: "mul_complex_plain_inplace p = mul_complex_plain p"
  by (simp add: fun_eq_iff mul_complex_plain_inplace_def)

lemma g1_gen:
  "g1_add_plain_aff c = gen_add_plain_aff (g1_ops c)" "g1_add_aff c = gen_add_aff (g1_ops c)"
  "g1_add_plain_jac c = gen_add_plain_jac (g1_ops c)" "g1_add_jac c = gen_add_jac (g1_ops c)"
  "g1_add_plain_proj c = gen_add_plain_proj (g1_ops c)" "g1_add_proj c = gen_add_proj (g1_ops c)"
  by (rule ext, rule ext, simp only: g1_ops_def ring_ops.select_convs g1_add_plain_aff_def g1_add_aff_def g1_add_plain_jac_def
      g1_add_jac_def g1_add_plain_proj_def g1_add_proj_def gen_add_plain_aff_def gen_add_aff_def
      gen_add_plain_jac_def gen_add_jac_def gen_add_plain_proj_def gen_add_proj_def)+

lemma g2_gen:
  "g2_add_plain_aff c = gen_add_plain_aff (g2_ops c)" "g2_add_aff c = gen_add_aff (g2_ops c)"
  "g2_add_plain_jac c = gen_add_plain_jac (g2_ops c)" "g2_add_jac c = gen_add_jac (g2_ops c)"
  "g2_add_plain_proj c = gen_add_plain_proj (g2_ops c)" "g2_add_proj c = gen_add_proj (g2_ops c)"
  by (rule ext, rule ext, simp only: g2_ops_def ring_ops.select_convs plain_mul_inplace g2_add_plain_aff_def g2_add_aff_def
      g2_add_plain_jac_def g2_add_jac_def g2_add_plain_proj_def g2_add_proj_def gen_add_plain_aff_def gen_add_aff_def
      gen_add_plain_jac_def gen_add_jac_def gen_add_plain_proj_def gen_add_proj_def)+

end
