(* ===== verification/CurveLaws.thy ===== *)
theory CurveLaws
  imports Curves
begin

text \<open>
  The point additions compute the chord sum. The interface \<open>shared_ring\<close> says what the
  additions rely on: operations on shared and public elements of a commutative ring that
  respect the ring operations up to a congruence. The field and its complex extension are its
  two instances, for \<open>G1\<close> and \<open>G2\<close>.
\<close>

section \<open>The chord sum\<close>

text \<open>The sum of two affine points whose difference has slope \<open>m\<close>.\<close>

definition chord_x :: "'v \<Rightarrow> 'v \<Rightarrow> 'v \<Rightarrow> 'v::comm_ring_1" where
  "chord_x m x1 x2 = m * m - x1 - x2"

definition chord_y :: "'v \<Rightarrow> 'v \<Rightarrow> 'v \<Rightarrow> 'v \<Rightarrow> 'v::comm_ring_1" where
  "chord_y m x1 y1 x2 = m * (x1 - chord_x m x1 x2) - y1"

text \<open>What a shared point stands for, by the relation between shares and values.\<close>

definition aff_rep :: "('s \<Rightarrow> 'v \<Rightarrow> bool) \<Rightarrow> 's affine \<Rightarrow> 'v \<Rightarrow> 'v::comm_ring_1 \<Rightarrow> bool" where
  "aff_rep rep P x y \<longleftrightarrow> rep (aff_x P) x \<and> rep (aff_y P) y"

definition jac_rep :: "('s \<Rightarrow> 'v \<Rightarrow> bool) \<Rightarrow> 's jacobian \<Rightarrow> 'v \<Rightarrow> 'v \<Rightarrow> 'v::comm_ring_1 \<Rightarrow> bool" where
  "jac_rep rep P x y z \<longleftrightarrow>
     rep (jac_X P) (x * (z * z)) \<and> rep (jac_Y P) (y * (z * z * z)) \<and> rep (jac_Z P) z"

definition proj_rep :: "('s \<Rightarrow> 'v \<Rightarrow> bool) \<Rightarrow> 's projective \<Rightarrow> 'v \<Rightarrow> 'v \<Rightarrow> 'v::comm_ring_1 \<Rightarrow> bool" where
  "proj_rep rep P x y z \<longleftrightarrow> rep (proj_X P) (x * z) \<and> rep (proj_Y P) (y * z) \<and> rep (proj_Z P) z"

text \<open>The third coordinates of the sums.\<close>

definition jac_z :: "'v \<Rightarrow> 'v \<Rightarrow> 'v \<Rightarrow> 'v \<Rightarrow> 'v::comm_ring_1" where
  "jac_z x1 x2 z1 z2 = z1 * z2 * ((x1 - x2) * (z1 * z2 * (z1 * z2)))"

definition proj_z :: "'v \<Rightarrow> 'v \<Rightarrow> 'v \<Rightarrow> 'v \<Rightarrow> 'v::comm_ring_1" where
  "proj_z x1 x2 z1 z2 = z1 * z2 * ((x1 - x2) * (z1 * z2) * ((x1 - x2) * (z1 * z2)) * ((x1 - x2) * (z1 * z2)))"

lemma jac_identities:
  fixes m :: "'v::comm_ring_1"
  assumes "H = (x1 - x2) * (w * w)" "R = m * H * w" "U = x1 * (w * w)" "S = y1 * (w * w * w)"
  shows "R * R + H * H * H - H * H * U - H * H * U = chord_x m x1 x2 * ((w * H) * (w * H))"
    and "(H * H * U - chord_x m x1 x2 * ((w * H) * (w * H))) * R - S * (H * H * H) =
      chord_y m x1 y1 x2 * ((w * H) * (w * H) * (w * H))"
  unfolding chord_y_def assms by (simp_all add: chord_x_def algebra_simps)

lemma proj_identities:
  fixes m :: "'v::comm_ring_1"
  assumes "H = (x1 - x2) * w" "R = m * H" "U = x1 * w" "S = y1 * w"
  shows "R * R * w + H * H * H - U * (H * H) - U * (H * H) = chord_x m x1 x2 * w * (H * H)"
    and "(U * (H * H) - chord_x m x1 x2 * w * (H * H)) * R - S * (H * H * H) = chord_y m x1 y1 x2 * (w * (H * H * H))"
    and "H * (chord_x m x1 x2 * w * (H * H)) = chord_x m x1 x2 * (w * (H * H * H))"
  unfolding chord_y_def assms by (simp_all add: chord_x_def algebra_simps)

section \<open>The interface\<close>

locale shared_ring =
  fixes rep :: "ctx \<Rightarrow> 's \<Rightarrow> 'v::comm_ring_1 \<Rightarrow> bool"
    and eqv :: "ctx \<Rightarrow> 'v \<Rightarrow> 'v \<Rightarrow> bool"
    and ops :: "ctx \<Rightarrow> ('s, 'p) ring_ops"
    and pval :: "'p \<Rightarrow> 'v"
    and pok :: "ctx \<Rightarrow> 'p \<Rightarrow> bool"
    and unit :: "ctx \<Rightarrow> 'v \<Rightarrow> bool"
  assumes rep_cong: "rep c S x \<Longrightarrow> eqv c x y \<Longrightarrow> rep c S y"
    and eqv_refl: "eqv c x x"
    and eqv_sym: "eqv c x y \<Longrightarrow> eqv c y x"
    and eqv_add: "eqv c x x' \<Longrightarrow> eqv c y y' \<Longrightarrow> eqv c (x + y) (x' + y')"
    and eqv_diff: "eqv c x x' \<Longrightarrow> eqv c y y' \<Longrightarrow> eqv c (x - y) (x' - y')"
    and eqv_mult: "eqv c x x' \<Longrightarrow> eqv c y y' \<Longrightarrow> eqv c (x * y) (x' * y')"
    and eqv_trans: "eqv c x y \<Longrightarrow> eqv c y z \<Longrightarrow> eqv c x z"
    and add: "rep c S x \<Longrightarrow> rep c T y \<Longrightarrow> rep c (r_add (ops c) S T) (x + y)"
    and add_inplace: "rep c S x \<Longrightarrow> rep c T y \<Longrightarrow> rep c (r_add_inplace (ops c) S T) (x + y)"
    and sub: "rep c S x \<Longrightarrow> rep c T y \<Longrightarrow> rep c (r_sub (ops c) S T) (x - y)"
    and sub_inplace: "rep c S x \<Longrightarrow> rep c T y \<Longrightarrow> rep c (r_sub_inplace (ops c) S T) (x - y)"
    and sub_plain_law: "wf c \<Longrightarrow> pok c k \<Longrightarrow> rep c S x \<Longrightarrow> rep c (r_sub_plain (ops c) S k) (x - pval k)"
    and mul_plain_law: "wf c \<Longrightarrow> rep c S x \<Longrightarrow> rep c (r_mul_plain (ops c) S k) (x * pval k)"
    and plain_mul_law: "wf c \<Longrightarrow> eqv c (pval (r_plain_mul (ops c) k l)) (pval k * pval l)"
    and mul: "wf c \<Longrightarrow> rep c S x \<Longrightarrow> rep c T y \<Longrightarrow> runs (good c) (r_mul (ops c) S T) (\<lambda>r. rep c r (x * y))"
    and mul_inplace: "wf c \<Longrightarrow> rep c S x \<Longrightarrow> rep c T y \<Longrightarrow>
      runs (good c) (r_mul_inplace (ops c) S T) (\<lambda>r. rep c r (x * y))"
    and sqr: "wf c \<Longrightarrow> rep c S x \<Longrightarrow> runs (good c) (r_sqr (ops c) S) (\<lambda>r. rep c r (x * x))"
    and unit_inverse: "wf_prime c \<Longrightarrow> unit c x \<Longrightarrow> \<exists>w. eqv c (w * x) 1"
    and div_inplace: "wf c \<Longrightarrow> wf_prime c \<Longrightarrow> rep c S x \<Longrightarrow> rep c T y \<Longrightarrow>
      masks_nonzero c \<and> unit c y \<or> E Division_by_zero \<Longrightarrow>
      keeps (good c) (r_div_inplace (ops c) S T) (\<lambda>r. \<exists>z. rep c r z \<and> eqv c (z * y) x) E"
begin

lemma rep_eq: "rep c S x \<Longrightarrow> x = y \<Longrightarrow> rep c S y"
  by simp

lemma mul_plain: "wf c \<Longrightarrow> eqv c (pval k) y \<Longrightarrow> rep c S x \<Longrightarrow> rep c (r_mul_plain (ops c) S k) (x * y)"
  using rep_cong [OF mul_plain_law eqv_mult [OF eqv_refl]] .

lemma sub_plain: "wf c \<Longrightarrow> pok c k \<Longrightarrow> eqv c (pval k) y \<Longrightarrow> rep c S x \<Longrightarrow> rep c (r_sub_plain (ops c) S k) (x - y)"
  using rep_cong [OF sub_plain_law eqv_diff [OF eqv_refl]] .

lemma plain_mul: "wf c \<Longrightarrow> eqv c (pval k) x \<Longrightarrow> eqv c (pval l) y \<Longrightarrow> eqv c (pval (r_plain_mul (ops c) k l)) (x * y)"
  using eqv_trans [OF plain_mul_law eqv_mult] .

lemmas steps = runs_keeps [OF mul, THEN keeps_bnd] runs_keeps [OF mul_inplace, THEN keeps_bnd]
  runs_keeps [OF sqr, THEN keeps_bnd]

lemmas locals = add add_inplace sub sub_inplace mul_plain plain_mul

text \<open>The slope determines the first ordinate up to the congruence.\<close>

lemma slope_ordinate:
  assumes "eqv c (m * (x1 - x2)) (y1 - y2)"
  shows "eqv c y1 (y2 + m * (x1 - x2))"
  using eqv_add [OF eqv_refl [of c y2] eqv_sym [OF assms]] by simp

lemma jac_rep_cong: "jac_rep (rep c) P x y z \<Longrightarrow> eqv c y y' \<Longrightarrow> jac_rep (rep c) P x y' z"
  unfolding jac_rep_def by (blast intro: rep_cong eqv_mult eqv_refl)

lemma proj_rep_cong: "proj_rep (rep c) P x y z \<Longrightarrow> eqv c y y' \<Longrightarrow> proj_rep (rep c) P x y' z"
  unfolding proj_rep_def by (blast intro: rep_cong eqv_mult eqv_refl)

lemma chord_cong: "eqv c y y' \<Longrightarrow> eqv c (chord_y m x1 y x2) (chord_y m x1 y' x2)"
  unfolding chord_y_def by (intro eqv_diff eqv_refl)

lemma runs_gen_add_aff:
  assumes c: "wf c" "wf_prime c" and P: "aff_rep (rep c) P x1 y1" and Q: "aff_rep (rep c) Q x2 y2"
    and E: "masks_nonzero c \<and> unit c (x1 - x2) \<or> E Division_by_zero"
  shows "keeps (good c) (gen_add_aff (ops c) P Q)
    (\<lambda>r. \<exists>m. eqv c (m * (x1 - x2)) (y1 - y2) \<and> aff_rep (rep c) r (chord_x m x1 x2) (chord_y m x1 y1 x2))
    E"
proof -
  have p: "rep c (aff_x P) x1" "rep c (aff_y P) y1" "rep c (aff_x Q) x2" "rep c (aff_y Q) y2"
    using P Q by (simp_all add: aff_rep_def)
  show ?thesis
    unfolding gen_add_aff_def Let_def
  proof (rule keeps_bnd [OF div_inplace [where E = E, OF c sub [OF p(2,4)] sub [OF p(1,3)] E]])
    fix M assume "\<exists>z. rep c M z \<and> eqv c (z * (x1 - x2)) (y1 - y2)"
    then obtain m where m: "rep c M m" "eqv c (m * (x1 - x2)) (y1 - y2)" by blast
    show "keeps (good c) (bnd (r_sqr (ops c) M) (\<lambda>mm.
         bnd (r_mul_inplace (ops c) (r_sub (ops c) (aff_x P) (r_sub (ops c) (r_sub_inplace (ops c) mm (aff_x P)) (aff_x Q))) M)
          (\<lambda>cy. ret \<lparr>aff_x = r_sub (ops c) (r_sub_inplace (ops c) mm (aff_x P)) (aff_x Q),
                     aff_y = r_sub_inplace (ops c) cy (aff_y P)\<rparr>)))
      (\<lambda>r. \<exists>m. eqv c (m * (x1 - x2)) (y1 - y2) \<and> aff_rep (rep c) r (chord_x m x1 x2) (chord_y m x1 y1 x2))
      E"
      by (insert c(1) p m(1), (assumption | rule steps locals keeps_ret)+,
          rule exI [of _ m], unfold aff_rep_def affine.select_convs, intro conjI m(2);
          rule rep_eq, (assumption | rule locals)+) (simp_all add: chord_x_def chord_y_def mult.commute)
  qed
qed

text \<open>Public operands: their coordinates stand for values up to the congruence.\<close>

lemma runs_gen_add_plain_aff:
  assumes c: "wf c" "wf_prime c" and P: "aff_rep (rep c) P x1 y1" and Q: "aff_rep (\<lambda>k v. eqv c (pval k) v \<and> pok c k) Q x2 y2"
    and E: "masks_nonzero c \<and> unit c (x1 - x2) \<or> E Division_by_zero"
  shows "keeps (good c) (gen_add_plain_aff (ops c) P Q)
    (\<lambda>r. \<exists>m. eqv c (m * (x1 - x2)) (y1 - y2) \<and> aff_rep (rep c) r (chord_x m x1 x2) (chord_y m x1 y1 x2))
    E"
proof -
  have p: "rep c (aff_x P) x1" "rep c (aff_y P) y1" "eqv c (pval (aff_x Q)) x2" "eqv c (pval (aff_y Q)) y2"
    "pok c (aff_x Q)" "pok c (aff_y Q)"
    using P Q by (simp_all add: aff_rep_def)
  show ?thesis
    unfolding gen_add_plain_aff_def Let_def
  proof (rule keeps_bnd [OF div_inplace [where E = E, OF c sub_plain [OF c(1) p(6,4,2)] sub_plain [OF c(1) p(5,3,1)] E]])
    fix M assume "\<exists>z. rep c M z \<and> eqv c (z * (x1 - x2)) (y1 - y2)"
    then obtain m where m: "rep c M m" "eqv c (m * (x1 - x2)) (y1 - y2)" by blast
    show "keeps (good c) (bnd (r_sqr (ops c) M) (\<lambda>mm.
         bnd (r_mul_inplace (ops c) (r_sub (ops c) (aff_x P) (r_sub_plain (ops c) (r_sub_inplace (ops c) mm (aff_x P)) (aff_x Q))) M)
          (\<lambda>cy. ret \<lparr>aff_x = r_sub_plain (ops c) (r_sub_inplace (ops c) mm (aff_x P)) (aff_x Q),
                     aff_y = r_sub_inplace (ops c) cy (aff_y P)\<rparr>)))
      (\<lambda>r. \<exists>m. eqv c (m * (x1 - x2)) (y1 - y2) \<and> aff_rep (rep c) r (chord_x m x1 x2) (chord_y m x1 y1 x2))
      E"
      by (insert c(1) p m(1), (assumption | rule steps locals sub_plain keeps_ret)+,
          rule exI [of _ m], unfold aff_rep_def affine.select_convs, intro conjI m(2);
          rule rep_eq, (assumption | rule locals sub_plain)+) (simp_all add: chord_x_def chord_y_def mult.commute)
  qed
qed

text \<open>
  Jacobian coordinates. The second ordinate and the slope fix the first up to the
  congruence, so that the values of the steps satisfy exact identities.
\<close>

lemma jac_values:
  assumes y: "y1 = y2 + m * (x1 - x2)"
    and U: "U = x1 * (z1 * z1) * (z2 * z2)" and H: "H = U - x2 * (z2 * z2) * (z1 * z1)"
    and S: "S = y1 * (z1 * z1 * z1) * (z2 * z2 * z2)" and R: "R = S - y2 * (z2 * z2 * z2) * (z1 * z1 * z1)"
  shows "z1 * z2 * H = jac_z x1 x2 z1 z2"
    and "R * R + H * H * H - H * H * U - H * H * U = chord_x m x1 x2 * (jac_z x1 x2 z1 z2 * jac_z x1 x2 z1 z2)"
    and "(H * H * U - chord_x m x1 x2 * (jac_z x1 x2 z1 z2 * jac_z x1 x2 z1 z2)) * R - S * (H * H * H) =
      chord_y m x1 y1 x2 * (jac_z x1 x2 z1 z2 * jac_z x1 x2 z1 z2 * jac_z x1 x2 z1 z2)"
proof -
  let ?w = "z1 * z2"
  have h: "H = (x1 - x2) * (?w * ?w)" unfolding H U by (simp add: algebra_simps)
  have u: "U = x1 * (?w * ?w)" unfolding U by (simp add: algebra_simps)
  have s: "S = y1 * (?w * ?w * ?w)" unfolding S by (simp add: algebra_simps)
  have "R = (y1 - y2) * (?w * ?w * ?w)" unfolding R S by (simp add: algebra_simps)
  also have "y1 - y2 = m * (x1 - x2)" using y by simp
  finally have r: "R = m * H * ?w" unfolding h by (simp add: algebra_simps)
  have z: "jac_z x1 x2 z1 z2 = ?w * H" unfolding jac_z_def h ..
  show "z1 * z2 * H = jac_z x1 x2 z1 z2" by (simp add: z)
  show "R * R + H * H * H - H * H * U - H * H * U = chord_x m x1 x2 * (jac_z x1 x2 z1 z2 * jac_z x1 x2 z1 z2)"
    unfolding z by (rule jac_identities(1) [OF h r u s])
  show "(H * H * U - chord_x m x1 x2 * (jac_z x1 x2 z1 z2 * jac_z x1 x2 z1 z2)) * R - S * (H * H * H) =
      chord_y m x1 y1 x2 * (jac_z x1 x2 z1 z2 * jac_z x1 x2 z1 z2 * jac_z x1 x2 z1 z2)"
    unfolding z by (rule jac_identities(2) [OF h r u s])
qed

lemma runs_gen_add_jac:
  assumes c: "wf c" and P: "jac_rep (rep c) P x1 y1 z1" and Q: "jac_rep (rep c) Q x2 y2 z2"
    and m: "eqv c (m * (x1 - x2)) (y1 - y2)"
  shows "keeps (good c) (gen_add_jac (ops c) P Q)
    (\<lambda>r. jac_rep (rep c) r (chord_x m x1 x2) (chord_y m x1 y1 x2) (jac_z x1 x2 z1 z2)) E"
proof -
  define y where "y = y2 + m * (x1 - x2)"
  have ey: "eqv c y1 y" unfolding y_def by (rule slope_ordinate [OF m])
  have p: "rep c (jac_X P) (x1 * (z1 * z1))" "rep c (jac_Y P) (y * (z1 * z1 * z1))" "rep c (jac_Z P) z1"
    "rep c (jac_X Q) (x2 * (z2 * z2))" "rep c (jac_Y Q) (y2 * (z2 * z2 * z2))" "rep c (jac_Z Q) z2"
    using jac_rep_cong [OF P ey] Q by (simp_all add: jac_rep_def)
  define U where "U = x1 * (z1 * z1) * (z2 * z2)"
  define H where "H = U - x2 * (z2 * z2) * (z1 * z1)"
  define S where "S = y * (z1 * z1 * z1) * (z2 * z2 * z2)"
  define R where "R = S - y2 * (z2 * z2 * z2) * (z1 * z1 * z1)"
  note v = jac_values [OF y_def U_def H_def S_def R_def]
  have e: "x1 * (z1 * z1) * (z2 * z2) = U" "U - x2 * (z2 * z2) * (z1 * z1) = H"
    "z2 * z2 * (y * (z1 * z1 * z1)) * z2 = S" "S - z1 * z1 * (y2 * (z2 * z2 * z2)) * z1 = R"
    unfolding U_def H_def S_def R_def by (simp_all add: algebra_simps)
  have "keeps (good c) (gen_add_jac (ops c) P Q)
    (\<lambda>r. jac_rep (rep c) r (chord_x m x1 x2) (chord_y m x1 y x2) (jac_z x1 x2 z1 z2)) E"
    unfolding gen_add_jac_def Let_def
    by (insert c p, (assumption | rule steps locals keeps_ret)+,
        unfold jac_rep_def jacobian.select_convs, intro conjI;
        rule rep_eq, (assumption | rule locals)+) (simp_all only: e v)
  then show ?thesis
    by (rule runs_post) (rule jac_rep_cong [OF _ chord_cong [OF eqv_sym [OF ey]]])
qed

lemma runs_gen_add_plain_jac:
  assumes c: "wf c" and P: "jac_rep (rep c) P x1 y1 z1" and Q: "jac_rep (\<lambda>k v. eqv c (pval k) v) Q x2 y2 z2"
    and m: "eqv c (m * (x1 - x2)) (y1 - y2)"
  shows "keeps (good c) (gen_add_plain_jac (ops c) P Q)
    (\<lambda>r. jac_rep (rep c) r (chord_x m x1 x2) (chord_y m x1 y1 x2) (jac_z x1 x2 z1 z2)) E"
proof -
  define y where "y = y2 + m * (x1 - x2)"
  have ey: "eqv c y1 y" unfolding y_def by (rule slope_ordinate [OF m])
  have p: "rep c (jac_X P) (x1 * (z1 * z1))" "rep c (jac_Y P) (y * (z1 * z1 * z1))" "rep c (jac_Z P) z1"
    "eqv c (pval (jac_X Q)) (x2 * (z2 * z2))" "eqv c (pval (jac_Y Q)) (y2 * (z2 * z2 * z2))" "eqv c (pval (jac_Z Q)) z2"
    using jac_rep_cong [OF P ey] Q by (simp_all add: jac_rep_def)
  define U where "U = x1 * (z1 * z1) * (z2 * z2)"
  define H where "H = U - x2 * (z2 * z2) * (z1 * z1)"
  define S where "S = y * (z1 * z1 * z1) * (z2 * z2 * z2)"
  define R where "R = S - y2 * (z2 * z2 * z2) * (z1 * z1 * z1)"
  note v = jac_values [OF y_def U_def H_def S_def R_def]
  have e: "x1 * (z1 * z1) * (z2 * z2) = U" "U - z1 * z1 * (x2 * (z2 * z2)) = H"
    "y * (z1 * z1 * z1) * (z2 * z2 * z2) = S" "S - z1 * z1 * (y2 * (z2 * z2 * z2)) * z1 = R"
    unfolding U_def H_def S_def R_def by (simp_all add: algebra_simps)
  have "keeps (good c) (gen_add_plain_jac (ops c) P Q)
    (\<lambda>r. jac_rep (rep c) r (chord_x m x1 x2) (chord_y m x1 y x2) (jac_z x1 x2 z1 z2)) E"
    unfolding gen_add_plain_jac_def Let_def
    by (insert c p, (assumption | rule steps locals keeps_ret)+,
        unfold jac_rep_def jacobian.select_convs, intro conjI;
        rule rep_eq, (assumption | rule locals)+) (simp_all only: e v)
  then show ?thesis
    by (rule runs_post) (rule jac_rep_cong [OF _ chord_cong [OF eqv_sym [OF ey]]])
qed

text \<open>Projective coordinates.\<close>

lemma proj_values:
  assumes y: "y1 = y2 + m * (x1 - x2)"
    and U: "U = x1 * z1 * z2" and H: "H = U - x2 * z2 * z1"
    and S: "S = y1 * z1 * z2" and R: "R = S - y2 * z2 * z1"
  shows "z1 * z2 * (H * H * H) = proj_z x1 x2 z1 z2"
    and "H * (R * R * (z1 * z2) + H * H * H - U * (H * H) - U * (H * H)) = chord_x m x1 x2 * proj_z x1 x2 z1 z2"
    and "(U * (H * H) - (R * R * (z1 * z2) + H * H * H - U * (H * H) - U * (H * H))) * R - S * (H * H * H) =
      chord_y m x1 y1 x2 * proj_z x1 x2 z1 z2"
proof -
  let ?w = "z1 * z2"
  have h: "H = (x1 - x2) * ?w" unfolding H U by (simp add: algebra_simps)
  have u: "U = x1 * ?w" unfolding U by (simp add: algebra_simps)
  have s: "S = y1 * ?w" unfolding S by (simp add: algebra_simps)
  have "R = (y1 - y2) * ?w" unfolding R S by (simp add: algebra_simps)
  also have "y1 - y2 = m * (x1 - x2)" using y by simp
  finally have r: "R = m * H" unfolding h by (simp add: algebra_simps)
  have z: "proj_z x1 x2 z1 z2 = ?w * (H * H * H)" unfolding proj_z_def h ..
  note i = proj_identities [OF h r u s]
  show "z1 * z2 * (H * H * H) = proj_z x1 x2 z1 z2" by (simp add: z)
  show "H * (R * R * ?w + H * H * H - U * (H * H) - U * (H * H)) = chord_x m x1 x2 * proj_z x1 x2 z1 z2"
    unfolding z i(1) i(3) ..
  show "(U * (H * H) - (R * R * ?w + H * H * H - U * (H * H) - U * (H * H))) * R - S * (H * H * H) =
      chord_y m x1 y1 x2 * proj_z x1 x2 z1 z2"
    unfolding z i(1) i(2) ..
qed

lemma runs_gen_add_proj:
  assumes c: "wf c" and P: "proj_rep (rep c) P x1 y1 z1" and Q: "proj_rep (rep c) Q x2 y2 z2"
    and m: "eqv c (m * (x1 - x2)) (y1 - y2)"
  shows "keeps (good c) (gen_add_proj (ops c) P Q)
    (\<lambda>r. proj_rep (rep c) r (chord_x m x1 x2) (chord_y m x1 y1 x2) (proj_z x1 x2 z1 z2)) E"
proof -
  define y where "y = y2 + m * (x1 - x2)"
  have ey: "eqv c y1 y" unfolding y_def by (rule slope_ordinate [OF m])
  have p: "rep c (proj_X P) (x1 * z1)" "rep c (proj_Y P) (y * z1)" "rep c (proj_Z P) z1"
    "rep c (proj_X Q) (x2 * z2)" "rep c (proj_Y Q) (y2 * z2)" "rep c (proj_Z Q) z2"
    using proj_rep_cong [OF P ey] Q by (simp_all add: proj_rep_def)
  define U where "U = x1 * z1 * z2"
  define H where "H = U - x2 * z2 * z1"
  define S where "S = y * z1 * z2"
  define R where "R = S - y2 * z2 * z1"
  note v = proj_values [OF y_def U_def H_def S_def R_def]
  have "keeps (good c) (gen_add_proj (ops c) P Q)
    (\<lambda>r. proj_rep (rep c) r (chord_x m x1 x2) (chord_y m x1 y x2) (proj_z x1 x2 z1 z2)) E"
    unfolding gen_add_proj_def Let_def
    by (insert c p, (assumption | rule steps locals keeps_ret)+,
        unfold proj_rep_def projective.select_convs, intro conjI;
        rule rep_eq, (assumption | rule locals)+)
      (simp_all only: U_def [symmetric] H_def [symmetric] S_def [symmetric] R_def [symmetric] v)
  then show ?thesis
    by (rule runs_post) (rule proj_rep_cong [OF _ chord_cong [OF eqv_sym [OF ey]]])
qed

lemma runs_gen_add_plain_proj:
  assumes c: "wf c" and P: "proj_rep (rep c) P x1 y1 z1" and Q: "proj_rep (\<lambda>k v. eqv c (pval k) v) Q x2 y2 z2"
    and m: "eqv c (m * (x1 - x2)) (y1 - y2)"
  shows "keeps (good c) (gen_add_plain_proj (ops c) P Q)
    (\<lambda>r. proj_rep (rep c) r (chord_x m x1 x2) (chord_y m x1 y1 x2) (proj_z x1 x2 z1 z2)) E"
proof -
  define y where "y = y2 + m * (x1 - x2)"
  have ey: "eqv c y1 y" unfolding y_def by (rule slope_ordinate [OF m])
  have p: "rep c (proj_X P) (x1 * z1)" "rep c (proj_Y P) (y * z1)" "rep c (proj_Z P) z1"
    "eqv c (pval (proj_X Q)) (x2 * z2)" "eqv c (pval (proj_Y Q)) (y2 * z2)" "eqv c (pval (proj_Z Q)) z2"
    using proj_rep_cong [OF P ey] Q by (simp_all add: proj_rep_def)
  define U where "U = x1 * z1 * z2"
  define H where "H = U - x2 * z2 * z1"
  define S where "S = y * z1 * z2"
  define R where "R = S - y2 * z2 * z1"
  note v = proj_values [OF y_def U_def H_def S_def R_def]
  have e: "x1 * z1 * z2 = U" "U - z1 * (x2 * z2) = H" "y * z1 * z2 = S" "S - z1 * (y2 * z2) = R"
    unfolding U_def H_def S_def R_def by (simp_all add: algebra_simps)
  have "keeps (good c) (gen_add_plain_proj (ops c) P Q)
    (\<lambda>r. proj_rep (rep c) r (chord_x m x1 x2) (chord_y m x1 y x2) (proj_z x1 x2 z1 z2)) E"
    unfolding gen_add_plain_proj_def Let_def
    by (insert c p, (assumption | rule steps locals keeps_ret)+,
        unfold proj_rep_def projective.select_convs, intro conjI;
        rule rep_eq, (assumption | rule locals)+) (simp_all only: e v)
  then show ?thesis
    by (rule runs_post) (rule proj_rep_cong [OF _ chord_cong [OF eqv_sym [OF ey]]])
qed

text \<open>A unit difference of the abscissas determines the slope, and with it the chord sum.\<close>

lemma slope_unique:
  assumes "wf_prime c" "unit c d" "eqv c (m * d) e" "eqv c (m' * d) e"
  shows "eqv c m m'"
proof -
  obtain w where w: "eqv c (w * d) 1" using unit_inverse [OF assms(1,2)] by blast
  have "eqv c (k * (w * d)) (w * e)" if "eqv c (k * d) e" for k
    using eqv_mult [OF eqv_refl that, of w] by (simp only: mult.left_commute mult.commute)
  moreover have "eqv c (k * (w * d)) k" for k
    using eqv_mult [OF eqv_refl w, of k] by (simp only: mult_1_right)
  ultimately show ?thesis using assms(3,4) eqv_trans eqv_sym by meson
qed

lemma chord_rep:
  assumes "wf_prime c" "unit c (x1 - x2)" "eqv c (m * (x1 - x2)) (y1 - y2)"
    and "\<exists>m'. eqv c (m' * (x1 - x2)) (y1 - y2) \<and> aff_rep (rep c) r (chord_x m' x1 x2) (chord_y m' x1 y1 x2)"
  shows "aff_rep (rep c) r (chord_x m x1 x2) (chord_y m x1 y1 x2)"
proof -
  obtain m' where m': "eqv c (m' * (x1 - x2)) (y1 - y2)"
      "aff_rep (rep c) r (chord_x m' x1 x2) (chord_y m' x1 y1 x2)" using assms(4) by blast
  have e: "eqv c m' m" by (rule slope_unique [OF assms(1,2) m'(1) assms(3)])
  have x: "eqv c (chord_x m' x1 x2) (chord_x m x1 x2)"
    unfolding chord_x_def by (intro eqv_diff eqv_mult eqv_refl e)
  moreover have "eqv c (chord_y m' x1 y1 x2) (chord_y m x1 y1 x2)"
    unfolding chord_y_def by (intro eqv_diff eqv_mult eqv_refl e x)
  ultimately show ?thesis using m'(2) rep_cong unfolding aff_rep_def by blast
qed

text \<open>
  The chord sum of two points of a curve \<open>y^2 = x^3 + b\<close> with different abscissas is on the
  curve: the cubic minus the square of the chord vanishes at both abscissas, and so at the third.
\<close>

lemma chord_identities:
  fixes m b x1 x2 y1 :: 'v
  defines "f \<equiv> \<lambda>X y. X * X * X + b - y * y"
  defines "g \<equiv> x2 * x2 + x2 * x1 + x1 * x1 - m * (m * (x2 - x1) + y1 + y1)"
  shows "f (chord_x m x1 x2) (chord_y m x1 y1 x2) = f x1 y1 + (chord_x m x1 x2 - x1) * g"
    and "(x1 - x2) * g = f x1 y1 - f x2 (y1 - m * (x1 - x2))"
  unfolding f_def g_def chord_y_def by (simp_all add: chord_x_def algebra_simps)

lemma chord_on_curve:
  assumes c: "wf_prime c" and m: "eqv c (m * (x1 - x2)) (y1 - y2)" and u: "unit c (x1 - x2)"
    and P: "eqv c (y1 * y1) (x1 * x1 * x1 + b)" and Q: "eqv c (y2 * y2) (x2 * x2 * x2 + b)"
  shows "eqv c (chord_y m x1 y1 x2 * chord_y m x1 y1 x2)
    (chord_x m x1 x2 * chord_x m x1 x2 * chord_x m x1 x2 + b)"
proof -
  let ?f = "\<lambda>X y. X * X * X + b - y * y" and ?x = "chord_x m x1 x2" and ?y = "chord_y m x1 y1 x2"
  let ?g = "x2 * x2 + x2 * x1 + x1 * x1 - m * (m * (x2 - x1) + y1 + y1)"
  obtain w where w: "eqv c (w * (x1 - x2)) 1" using unit_inverse [OF c u] by blast
  have z: "eqv c (X * X * X + b - Y) 0" if "eqv c Y (X * X * X + b)" for X Y
    using eqv_diff [OF eqv_refl that, of "X * X * X + b"] by (simp only: diff_self)
  have f1: "eqv c (?f x1 y1) 0" using z [OF P] .
  have "eqv c (y1 - m * (x1 - x2)) y2" using eqv_diff [OF eqv_refl m, of y1] by simp
  then have "eqv c ((y1 - m * (x1 - x2)) * (y1 - m * (x1 - x2))) (y2 * y2)" by (intro eqv_mult)
  then have f2: "eqv c (?f x2 (y1 - m * (x1 - x2))) 0" using eqv_trans Q by (intro z) blast
  have "eqv c ((x1 - x2) * ?g) (0 - 0)" unfolding chord_identities(2) [where b = b] by (rule eqv_diff [OF f1 f2])
  then have "eqv c (w * ((x1 - x2) * ?g)) (w * (0 - 0))" by (intro eqv_mult eqv_refl)
  then have "eqv c (w * (x1 - x2) * ?g) 0" by (simp only: mult.assoc diff_self mult_zero_right)
  moreover have "eqv c (w * (x1 - x2) * ?g) (1 * ?g)" by (intro eqv_mult eqv_refl w)
  ultimately have "eqv c (1 * ?g) 0" using eqv_trans [OF eqv_sym] by blast
  then have g: "eqv c ?g 0" by (simp only: mult_1_left)
  have "eqv c (?f x1 y1 + (?x - x1) * ?g) (0 + (?x - x1) * 0)"
    by (intro eqv_add f1 eqv_mult eqv_refl g)
  then have "eqv c (?f ?x ?y) 0" unfolding chord_identities(1) by simp
  then have "eqv c (?y * ?y + ?f ?x ?y) (?y * ?y + 0)" by (intro eqv_add eqv_refl)
  then show ?thesis using eqv_sym by (simp add: algebra_simps)
qed

end

section \<open>The two groups\<close>

text \<open>The field: shares of integers, up to the prime.\<close>

definition zcong :: "ctx \<Rightarrow> int \<Rightarrow> int \<Rightarrow> bool" where
  "zcong c x y \<longleftrightarrow> x mod pr c = y mod pr c"

lemma zcong_ring:
  "zcong c x x" "zcong c x y \<Longrightarrow> zcong c y x" "zcong c x y \<Longrightarrow> zcong c y z \<Longrightarrow> zcong c x z"
  "zcong c x x' \<Longrightarrow> zcong c y y' \<Longrightarrow> zcong c (x + y) (x' + y')"
  "zcong c x x' \<Longrightarrow> zcong c y y' \<Longrightarrow> zcong c (x - y) (x' - y')"
  "zcong c x x' \<Longrightarrow> zcong c y y' \<Longrightarrow> zcong c (x * y) (x' * y')"
  unfolding zcong_def by (auto intro: mod_add_cong mod_diff_cong mod_mult_cong)

lemma prime_unit:
  assumes "wf_prime c" "x mod pr c \<noteq> 0"
  shows "\<exists>w. (w * x) mod pr c = 1 mod pr c"
proof -
  have p: "1 < pr c" using assms(1) by (simp add: wf_prime_def prime_int_def)
  have "(gf_inv (gcdext c) (pr c) (x mod pr c) * (x mod pr c)) mod pr c = 1 mod pr c"
    using assms p by (intro prime_inverse [OF assms(1)]) auto
  then show ?thesis by (auto simp: mod_mult_right_eq)
qed

lemma div_inplace_quotient:
  assumes "wf c" "wf_prime c" "sh c S x" "sh c T y" "masks_nonzero c \<and> y mod pr c \<noteq> 0 \<or> E Division_by_zero"
  shows "keeps (good c) (div_inplace c S T) (\<lambda>r. \<exists>z. sh c r z \<and> zcong c (z * y) x) E"
  unfolding zcong_def div_inplace_def bnd_right by (rule runs_div [where E = E, OF assms])

interpretation g1: shared_ring sh zcong g1_ops "\<lambda>k. k" "\<lambda>c. in_field (pr c)"
  "\<lambda>c x. x mod pr c \<noteq> 0"
proof
  fix c S T E and x y k l :: int
  show "sh c S x \<Longrightarrow> zcong c x y \<Longrightarrow> sh c S y" by (auto simp: zcong_def intro: sh_cong)
  show "wf_prime c \<Longrightarrow> x mod pr c \<noteq> 0 \<Longrightarrow> \<exists>w. zcong c (w * x) 1"
    unfolding zcong_def by (rule prime_unit)
  show "wf c \<Longrightarrow> zcong c (r_plain_mul (g1_ops c) k l) (k * l)"
    by (simp add: g1_ops_def zcong_def gf_mul_def)
  show "wf c \<Longrightarrow> wf_prime c \<Longrightarrow> sh c S x \<Longrightarrow> sh c T y \<Longrightarrow>
      masks_nonzero c \<and> y mod pr c \<noteq> 0 \<or> E Division_by_zero \<Longrightarrow>
      keeps (good c) (r_div_inplace (g1_ops c) S T) (\<lambda>r. \<exists>z. sh c r z \<and> zcong c (z * y) x) E"
    unfolding g1_ops_def ring_ops.select_convs by (rule div_inplace_quotient)
qed (auto simp: g1_ops_def intro: zcong_ring sh_local sh_local_plain runs_mul runs_mul_inplace runs_sqr)

interpretation g2: shared_ring cx_sh gcong g2_ops cx_val cx_plain_ok cx_unit
proof
  fix c S T E and x y :: gint and k l
  show "\<exists>w. gcong c (w * x) 1" if c: "wf_prime c" and x: "cx_unit c x"
  proof -
    obtain v where v: "(v * (gre x * gre x + gim x * gim x)) mod pr c = 1 mod pr c"
      using prime_unit [OF c] x by (auto simp: cx_unit_def)
    then have "gcong c (Gint (gre x * v) (- gim x * v) * x) 1"
      by (simp add: gcong_def) (simp add: algebra_simps)
    then show ?thesis ..
  qed
  show "wf c \<Longrightarrow> gcong c (cx_val (r_plain_mul (g2_ops c) k l)) (cx_val k * cx_val l)"
    using wf_pr [of c] by (simp add: g2_ops_def mul_complex_plain_value)
  show "wf c \<Longrightarrow> wf_prime c \<Longrightarrow> cx_sh c S x \<Longrightarrow> cx_sh c T y \<Longrightarrow>
      masks_nonzero c \<and> cx_unit c y \<or> E Division_by_zero \<Longrightarrow>
      keeps (good c) (r_div_inplace (g2_ops c) S T) (\<lambda>r. \<exists>z. cx_sh c r z \<and> gcong c (z * y) x) E"
    unfolding g2_ops_def ring_ops.select_convs cx_div_inplace_def bnd_right
    by (rule runs_cx_div)
qed (auto simp: g2_ops_def intro: gcong_sym gcong_trans gcong_add gcong_diff gcong_mult cx_sh_cong cx_sh_local
      cx_sh_plain runs_cx_mul runs_cx_mul_inplace runs_cx_sqr)

text \<open>What the additions of the two classes return.\<close>

lemmas runs_g1_add_aff = g1.runs_gen_add_aff [folded g1_gen]
lemmas runs_g1_add_plain_aff = g1.runs_gen_add_plain_aff [folded g1_gen]
lemmas runs_g1_add_jac = g1.runs_gen_add_jac [folded g1_gen]
lemmas runs_g1_add_plain_jac = g1.runs_gen_add_plain_jac [folded g1_gen]
lemmas runs_g1_add_proj = g1.runs_gen_add_proj [folded g1_gen]
lemmas runs_g1_add_plain_proj = g1.runs_gen_add_plain_proj [folded g1_gen]
lemmas runs_g2_add_aff = g2.runs_gen_add_aff [folded g2_gen]
lemmas runs_g2_add_plain_aff = g2.runs_gen_add_plain_aff [folded g2_gen]
lemmas runs_g2_add_jac = g2.runs_gen_add_jac [folded g2_gen]
lemmas runs_g2_add_plain_jac = g2.runs_gen_add_plain_jac [folded g2_gen]
lemmas runs_g2_add_proj = g2.runs_gen_add_proj [folded g2_gen]
lemmas runs_g2_add_plain_proj = g2.runs_gen_add_plain_proj [folded g2_gen]

text \<open>Equal abscissas: the division throws.\<close>

lemma runs_div_zero:
  assumes c: "wf c" and S: "sh c S x" "x mod pr c = 0"
  shows "keeps (good c) (div_inplace c T S) (\<lambda>_. False) (\<lambda>e. e = Division_by_zero)"
  unfolding div_inplace_def bnd_right div_op_def
  by (rule keeps_bnd [OF runs_inv_zero [OF c S]]) simp

lemma runs_cx_div_zero:
  assumes c: "wf c" and S: "cx_sh c S x" "\<not> cx_unit c x"
  shows "keeps (good c) (cx_div_inplace c T S) (\<lambda>_. False) (\<lambda>e. e = Division_by_zero)"
proof -
  have s: "sh c (cx_real S) (gre x)" "sh c (cx_imag S) (gim x)" using S by (simp_all add: cx_sh_def)
  have i: "keeps (good c) (inv_inplace c (add_inplace c r i)) (\<lambda>_. False) (\<lambda>e. e = Division_by_zero)"
    if "sh c r (gre x * gre x)" "sh c i (gim x * gim x)" for r i
    unfolding inv_inplace_def bnd_right by (rule runs_inv_zero [OF c sh_local(2) [OF that]]) (use S(2) in \<open>simp add: cx_unit_def\<close>)
  show ?thesis
    unfolding cx_div_inplace_def bnd_right cx_div_def cx_inv_def Let_def bnd_assoc
    by (rule keeps_bnd [OF runs_sqr [OF c s(1)]], rule keeps_bnd [OF runs_sqr [OF c s(2)]],
        rule keeps_bnd [OF i], assumption, assumption) simp
qed

end
