(* ===== verification/Opening.thy ===== *)
theory Opening
  imports Demo
begin

text \<open>
  What opening and MAC checking guarantee: the tree of \<open>TreeSum\<close> delivers the sums, an
  opened sharing gives its value, and the check accepts exactly the openings that agree
  with the MACs.
\<close>

section \<open>The decision of the check\<close>

text \<open>
  Pending openings, honest or not: every party holds the values \<open>y\<close> that were opened, and
  the MAC shares belong to \<open>x\<close>.
\<close>

definition pending_checks :: "ctx \<Rightarrow> mpc \<Rightarrow> (nat \<Rightarrow> int) \<Rightarrow> (nat \<Rightarrow> int) \<Rightarrow> bool" where
  "pending_checks c s x y \<longleftrightarrow>
     length (mc_vals s) = num_players c \<and> length (mc_macs s) = num_players c \<and>
     (\<forall>i < num_players c. length (mc_vals s ! i) = popen_cnt s \<and> length (mc_macs s ! i) = popen_cnt s \<and>
        (\<forall>j < popen_cnt s. in_field (pr c) (mc_macs s ! i ! j) \<and> mc_vals s ! i ! j = y j)) \<and>
     (\<forall>j < popen_cnt s. (\<Sum>i<num_players c. mc_macs s ! i ! j) mod pr c = (alpha c * x j) mod pr c)"

text \<open>What the check should decide: each value, or their random combination.\<close>

definition openings_valid :: "ctx \<Rightarrow> mpc \<Rightarrow> (nat \<Rightarrow> int) \<Rightarrow> (nat \<Rightarrow> int) \<Rightarrow> bool" where
  "openings_valid c s x y \<longleftrightarrow>
     (if popen_cnt s < 10 then \<forall>j < popen_cnt s. y j mod pr c = x j mod pr c
      else (\<Sum>j<popen_cnt s. mc_coin c (mc_checks s) j * (y j - x j)) mod pr c = 0)"

definition after_check :: "mpc \<Rightarrow> mpc" where
  "after_check s =
     s\<lparr>mc_vals := map (drop (popen_cnt s)) (mc_vals s), mc_macs := map (drop (popen_cnt s)) (mc_macs s),
       popen_cnt := 0, mc_checks := (if popen_cnt s < 10 then mc_checks s else Suc (mc_checks s))\<rparr>"

lemma pending_vals:
  assumes "pending_checks c s x y" "j < popen_cnt s"
  shows "(\<Sum>i<num_players c. mc_vals s ! i ! j * alphas c ! i) = alpha c * y j"
proof -
  have "(\<Sum>i<num_players c. mc_vals s ! i ! j * alphas c ! i) = (\<Sum>i<num_players c. y j * alphas c ! i)"
    by (rule sum.cong) (use assms in \<open>auto simp: pending_checks_def\<close>)
  then show ?thesis by (simp add: sum_distrib_left [symmetric] sum_alphas)
qed

lemma pending_delta:
  assumes "pending_checks c s x y" "j < popen_cnt s"
  shows "(\<Sum>i<num_players c. mc_vals s ! i ! j * alphas c ! i - mc_macs s ! i ! j) mod pr c =
      (alpha c * (y j - x j)) mod pr c"
    and "(\<Sum>i<num_players c. mc_macs s ! i ! j - mc_vals s ! i ! j * alphas c ! i) mod pr c =
      (alpha c * (x j - y j)) mod pr c"
proof -
  have m: "(\<Sum>i<num_players c. mc_macs s ! i ! j) mod pr c = (alpha c * x j) mod pr c"
    using assms by (simp add: pending_checks_def)
  show "(\<Sum>i<num_players c. mc_vals s ! i ! j * alphas c ! i - mc_macs s ! i ! j) mod pr c =
      (alpha c * (y j - x j)) mod pr c"
    unfolding sum_subtractf pending_vals [OF assms] right_diff_distrib by (rule mod_diff_cong [OF refl m])
  show "(\<Sum>i<num_players c. mc_macs s ! i ! j - mc_vals s ! i ! j * alphas c ! i) mod pr c =
      (alpha c * (x j - y j)) mod pr c"
    unfolding sum_subtractf pending_vals [OF assms] right_diff_distrib by (rule mod_diff_cong [OF m refl])
qed

lemma key_times_zero:
  assumes "prime_int (pr c)" "alpha c mod pr c \<noteq> 0"
  shows "(alpha c * d) mod pr c = 0 \<longleftrightarrow> d mod pr c = 0"
  using prime_int_mult [OF assms(1), of "alpha c" d] assms(2) mod_mult_right_eq [of "alpha c" d "pr c"] by auto

lemma diff_zero: "(y - x) mod p = 0 \<longleftrightarrow> y mod p = x mod (p :: int)"
  by (simp add: mod_eq_dvd_iff mod_eq_0_iff_dvd)

lemma check_each_pending:
  assumes c: "wf_field c" "prime_int (pr c)" "alpha c mod pr c \<noteq> 0" and s: "pending_checks c s x y"
  shows "check_each c s \<longleftrightarrow> (\<forall>j < popen_cnt s. y j mod pr c = x j mod pr c)"
proof -
  have f: "\<forall>i < num_players c. \<forall>j < popen_cnt s. in_field (pr c) (mc_macs s ! i ! j)"
    using s by (simp add: pending_checks_def)
  show ?thesis
    unfolding check_each_iff [OF c(1) f]
    using pending_delta(1) [OF s] key_times_zero [OF c(2,3)] diff_zero by simp
qed

lemma check_combined_pending:
  assumes c: "wf_field c" "prime_int (pr c)" "alpha c mod pr c \<noteq> 0" and s: "pending_checks c s x y"
  shows "check_combined c s \<longleftrightarrow>
    (\<Sum>j<popen_cnt s. mc_coin c (mc_checks s) j * (y j - x j)) mod pr c = 0"
proof -
  let ?h = "mc_coin c (mc_checks s)" and ?k = "popen_cnt s"
  have "(\<Sum>j<?k. ?h j * (\<Sum>i<num_players c. mc_macs s ! i ! j - mc_vals s ! i ! j * alphas c ! i)) mod pr c =
      (\<Sum>j<?k. ?h j * (alpha c * (x j - y j))) mod pr c"
    by (rule mod_sum_cong, rule mod_mult_cong [OF refl pending_delta(2) [OF s]]) simp
  also have "(\<Sum>j<?k. ?h j * (alpha c * (x j - y j))) = alpha c * - (\<Sum>j<?k. ?h j * (y j - x j))"
    by (simp add: sum_distrib_left sum_negf [symmetric] algebra_simps)
  finally have e: "(\<Sum>j<?k. ?h j * (\<Sum>i<num_players c. mc_macs s ! i ! j - mc_vals s ! i ! j * alphas c ! i)) mod pr c =
      (alpha c * - (\<Sum>j<?k. ?h j * (y j - x j))) mod pr c" .
  show ?thesis
    unfolding check_combined_iff [OF c(1)] e key_times_zero [OF c(2,3)]
    by (simp only: mod_eq_0_iff_dvd dvd_minus_iff)
qed

lemma no_pending:
  assumes "pending_checks c s x y" "0 < num_players c"
  shows "waiting_for_check s = popen_cnt s"
  using assms by (auto simp: pending_checks_def waiting_for_check_def)

lemma after_check_nothing:
  assumes "popen_cnt s = 0"
  shows "after_check s = s"
  unfolding after_check_def using assms by (simp add: drop_0 [abs_def])

lemma Check_pending:
  assumes c: "wf_field c" "prime_int (pr c)" "alpha c mod pr c \<noteq> 0" and s: "pending_checks c s x y"
  shows "Check c s = (if openings_valid c s x y then Inr ((), after_check s) else Inl Mac_fail)"
proof -
  have n: "0 < num_players c" using c(1) by (simp add: wf_field_def num_players_def)
  show ?thesis
  proof (cases "popen_cnt s = 0")
    case True
    then show ?thesis
      using no_pending [OF s n] after_check_nothing [OF True] by (simp add: Check_def openings_valid_def)
  next
    case False
    then show ?thesis
      using no_pending [OF s n] check_each_pending [OF c s] check_combined_pending [OF c s]
      by (simp add: Check_def openings_valid_def after_check_def Let_def)
  qed
qed

lemma runs_CheckFor:
  assumes c: "wf c" and S: "list_all2 (sh c) Ss xs"
  shows "keeps (good c) (CheckFor c v Ss) (\<lambda>_. \<forall>x \<in> set xs. v = x mod pr c)
    (\<lambda>e. e = Runtime_error ''Offline_Check_Error: CheckFor'' \<and> (\<exists>x \<in> set xs. v \<noteq> x mod pr c))"
  unfolding CheckFor_def
proof (rule keeps_bnd [OF runs_POpen [OF c S]])
  fix r assume r: "r = map (\<lambda>x. x mod pr c) xs"
  show "keeps (good c) (bnd (check (list_all (\<lambda>w. v = w) r) (Runtime_error ''Offline_Check_Error: CheckFor'')) (\<lambda>_. Check c))
    (\<lambda>_. \<forall>x \<in> set xs. v = x mod pr c)
    (\<lambda>e. e = Runtime_error ''Offline_Check_Error: CheckFor'' \<and> (\<exists>x \<in> set xs. v \<noteq> x mod pr c))"
  proof (cases "\<forall>x \<in> set xs. v = x mod pr c")
    case True
    then show ?thesis by (auto simp: r list_all_iff intro!: runs_post [OF runs_Check [OF c]])
  next
    case False
    then have "\<not> list_all (\<lambda>w. v = w) r" by (auto simp: r list_all_iff)
    then show ?thesis using False by (auto intro!: keeps_throw)
  qed
qed

section \<open>Properties\<close>

text \<open>C16: the MAC check decides exactly: while fewer than ten openings are pending it
  accepts if and only if every opened value is the one its MAC belongs to, and from ten on
  if and only if the random combination of the differences is zero; otherwise it throws
  \<open>mac_fail\<close>. Whoever sent wrong shares, the opened values enter as they are.\<close>
theorem check_decides:
  assumes "wf_field c" "prime_int (pr c)" "alpha c mod pr c \<noteq> 0" "pending_checks c s x y"
  shows "Check c s = (if openings_valid c s x y then Inr ((), after_check s) else Inl Mac_fail)"
  using assms by (rule Check_pending)

theorem check_decides_witness:
  "Check demo (demo_state\<lparr>mc_vals := [[4], [4]], mc_macs := [[0], [1]], popen_cnt := 1\<rparr>) = Inl Mac_fail"
proof -
  let ?s = "demo_state\<lparr>mc_vals := [[4], [4]], mc_macs := [[0], [1]], popen_cnt := 1\<rparr>"
  have "pending_checks demo ?s (\<lambda>_. 3) (\<lambda>_. 4)"
    by (auto simp: pending_checks_def in_field_def less_2_cases_iff lessThan_nat_numeral lessThan_Suc)
  then have "Check demo ?s = (if openings_valid demo ?s (\<lambda>_. 3) (\<lambda>_. 4) then Inr ((), after_check ?s) else Inl Mac_fail)"
    by (intro check_decides) simp_all
  then show ?thesis by (simp add: openings_valid_def)
qed

text \<open>C17: opening valid sharings returns their values at every party, keeps the invariant,
  and leaves the MAC check in a state in which the next check accepts.\<close>
theorem opening_returns_values:
  assumes "wf c" "good c s" "list_all2 (sh c) Ss xs"
  shows "\<exists>t u. POpen c Ss s = Inr (map (\<lambda>x. x mod pr c) xs, t) \<and> good c t \<and>
    Check c t = Inr ((), u) \<and> good c u"
proof -
  obtain t where t: "POpen c Ss s = Inr (map (\<lambda>x. x mod pr c) xs, t)" "good c t"
    using runs_returns [OF runs_POpen [OF assms(1,3)] assms(2)] by blast
  then show ?thesis using runs_returns [OF runs_Check [OF assms(1)] t(2)] by auto
qed

theorem opening_returns_values_witness:
  "\<exists>t u. POpen demo [demo_share 5, demo_share 9] demo_state = Inr ([5, 2], t) \<and> good demo t \<and>
    Check demo t = Inr ((), u) \<and> good demo u"
  using opening_returns_values [of demo demo_state "[demo_share 5, demo_share 9]" "[5, 9]"] by simp

text \<open>C18: the tree computes the plain sum: whatever the arities and the base player,
  after \<open>TreeSum::run\<close> every party holds, position by position, the sum of all parties'
  values modulo the prime.\<close>
theorem tree_equals_sum:
  assumes "shaped p n k vals" "0 < n" "0 < p" "0 < os" "2 \<le> mb"
  shows "(tree_run p n base os mb vals :: (mpc, int list list) m) =
    ret (replicate n (map (\<lambda>j. (\<Sum>i<n. vals ! i ! j) mod p) [0..<k]))"
  using assms by (rule tree_run_sum)

theorem tree_equals_sum_witness:
  "(tree_run 7 3 1 2 2 [[1, 2], [3, 4], [5, 6]] :: (mpc, int list list) m) = ret [[2, 5], [2, 5], [2, 5]]"
proof -
  have "shaped 7 3 2 [[1, 2], [3, 4], [5, 6]]"
    by (auto simp: shaped_def in_field_def)
  from tree_equals_sum [OF this, of 2 2 1] show ?thesis
    by (simp add: eval_nat_numeral)
qed

text \<open>The broadcast of \<open>TreeSum\<close> neither loses nor duplicates a message: party \<open>r\<close> is among
  the receivers of \<open>q\<close> exactly when \<open>q\<close> is the one sender that \<open>r\<close> waits for.\<close>
theorem broadcast_senders_match:
  assumes "2 \<le> mb" "0 < r" "r < n"
  shows "r \<in> set (bcast_receivers mb n q) \<longleftrightarrow> q = bcast_sender mb r"
  using assms by (rule bcast_matched)

theorem broadcast_senders_match_witness:
  "25 \<in> set (bcast_receivers 10 30 2) \<and> 25 \<notin> set (bcast_receivers 10 30 1)"
  using broadcast_senders_match [of 10 25 30 2] broadcast_senders_match [of 10 25 30 1] by (simp add: bcast_sender_def)



text \<open>\<open>CheckFor\<close> succeeds only if every opened value is the expected one, and otherwise
  throws its \<open>Offline_Check_Error\<close>.\<close>
theorem check_for_decides:
  assumes "wf c" "good c s" "list_all2 (sh c) Ss xs"
  shows "if \<forall>x \<in> set xs. v = x mod pr c then \<exists>t. CheckFor c v Ss s = Inr ((), t) \<and> good c t
    else CheckFor c v Ss s = Inl (Runtime_error ''Offline_Check_Error: CheckFor'')"
proof -
  have k: "case CheckFor c v Ss s of Inl e \<Rightarrow> e = Runtime_error ''Offline_Check_Error: CheckFor'' \<and> (\<exists>x \<in> set xs. v \<noteq> x mod pr c)
      | Inr (u, t) \<Rightarrow> good c t \<and> (\<forall>x \<in> set xs. v = x mod pr c)"
    using runs_CheckFor [OF assms(1,3)] assms(2) by (simp add: keeps_def)
  show ?thesis by (cases "CheckFor c v Ss s") (use k in auto)
qed

theorem check_for_decides_witness:
  "CheckFor demo 5 [demo_share 5, demo_share 6] demo_state = Inl (Runtime_error ''Offline_Check_Error: CheckFor'')"
  using check_for_decides [of demo demo_state "[demo_share 5, demo_share 6]" "[5, 6]" 5] by simp

end
