(* ===== verification/Arithmetic.thy ===== *)
theory Arithmetic
  imports Opening Online
begin

text \<open>
  What the arithmetic layer guarantees: the field operations of \<open>gfp_\<close> compute modulo the
  prime, and the operations of \<open>OnlineOp\<close> on shares compute on the shared values what their
  names say, on every branch.
\<close>

lemma demo_wf_prime [simp]: "wf_prime demo"
  by (simp add: wf_prime_def)

lemma demo_shs [simp]: "shs demo (map demo_share xs) xs"
  by (simp add: list_all2_conv_all_nth)

section \<open>The field\<close>

text \<open>The operations of \<open>gfp_\<close> on canonical representatives are those of the integers
  modulo the prime, and give canonical representatives again: the conditional subtraction and
  the borrow of \<open>Zp_Data\<close> reduce fully, the conversion of a big integer reduces truncated
  remainders of either sign, the shifts and the bit operation read the representative.\<close>
theorem field_refines_integers:
  assumes "1 < p" "in_field p x" "in_field p y" "powers_inv p ps"
  shows "gf_add p x y = (x + y) mod p \<and> gf_sub p x y = (x - y) mod p \<and> gf_mul p x y = (x * y) mod p \<and>
    gf_neg p x = (- x) mod p \<and> to_gfp p z = z mod p \<and> gf_shr p x n = x div 2 ^ n \<and>
    fst (gf_shl p ps x n) = (x * 2 ^ n) mod p \<and> gf_and p x 1 = x mod 2"
proof -
  have "gf_neg p x mod p = gf_neg p x" by (rule in_field_id) (use assms in auto)
  then have "gf_neg p x = (- x) mod p" by (simp add: gf_neg_cong)
  then show ?thesis
    using assms by (simp add: gf_add_eq gf_sub_eq gf_mul_def to_gfp_mod gf_shr_value gf_shl_value gf_and_one)
qed

theorem field_refines_integers_witness:
  "gf_add 7 5 4 = 2 \<and> gf_sub 7 5 4 = 1 \<and> gf_mul 7 5 4 = 6 \<and> gf_neg 7 5 = 2 \<and> to_gfp 7 (- 9) = 5 \<and>
    gf_shr 7 5 1 = 2 \<and> fst (gf_shl 7 [] 5 2) = 6 \<and> gf_and 7 5 1 = 1"
  using field_refines_integers [of 7 5 4 "[]" "- 9" 1] field_refines_integers [of 7 5 4 "[]" 0 2]
  by (simp add: in_field_def powers_inv_def)

text \<open>\<open>Inv\<close> returns the inverse of every non-zero element, for any \<open>mpn_gcdext\<close> that
  meets its specification: the negative cofactor is brought back into the field.\<close>
theorem inverse_is_inverse:
  assumes "prime_int p" "gcdext_spec f" "0 < x" "x < p"
  shows "(gf_inv f p x * x) mod p = 1 \<and> in_field p (gf_inv f p x)"
proof -
  have "1 < p" using assms(1) by (simp add: prime_int_def)
  then show ?thesis using gf_inv_cong [OF assms(2-4) prime_int_coprime [OF assms(1,3,4)]] by simp
qed

theorem inverse_is_inverse_witness:
  "(gf_inv demo_gcdext 7 3 * 3) mod 7 = 1 \<and> in_field 7 (gf_inv demo_gcdext 7 3)"
  by (rule inverse_is_inverse) simp_all

text \<open>Square-and-multiply (\<open>Power\<close>) and the repeated multiplication of
  \<open>OnlineOp::power\<close> both agree with the mathematical power for positive exponents;
  \<open>Power\<close> rejects negative ones and returns one for exponent zero, where \<open>OnlineOp::power\<close>
  returns zero.\<close>
theorem powers_agree:
  assumes "1 < p" "in_field p x"
  shows "Power p x (int n) = Inr (x ^ n mod p) \<and>
    power_clear p x (int n) = (if n = 0 then 0 else x ^ n mod p) \<and>
    Power p x (- int (Suc n)) = Inl Not_implemented"
proof -
  have l: "power_loop p 1 x (int n) = x ^ n mod p"
    using power_loop_value [of "int n" p 1 x] in_field_id [OF power_loop_range [of p 1 x "int n"]] assms
    by (simp add: in_field_def)
  have "Power p x (int n) = Inr (x ^ n mod p)"
    using l assms in_field_id [OF assms(2)] by (cases n) (auto simp: Power_def)
  moreover have "power_clear p x 0 = 0" by (simp add: power_clear_def to_gfp_def)
  then have "power_clear p x (int n) = (if n = 0 then 0 else x ^ n mod p)"
    using power_clear_value [OF assms, of "int n"] by simp
  ultimately show ?thesis by (simp add: Power_def)
qed

theorem powers_agree_witness:
  "Power 7 3 4 = Inr 4 \<and> power_clear 7 3 4 = 4 \<and> power_clear 7 3 0 = 0 \<and> Power 7 3 0 = Inr 1 \<and>
    Power 7 3 (- 1) = Inl Not_implemented"
  using powers_agree [of 7 3 4] powers_agree [of 7 3 0] by (simp add: in_field_def)

section \<open>Shares\<close>

text \<open>The operations that only compute locally act on the shared values, and their
  results are again valid authenticated sharings: sums and differences of two sharings, and
  of a sharing and a public element, and the product with a public element.\<close>
theorem local_operations_share:
  assumes "wf c" "sh c a x" "sh c b y" "in_field (pr c) k"
  shows "sh c (add c a b) (x + y) \<and> sh c (sub c a b) (x - y) \<and> sh c (add_plain c a k) (x + k) \<and>
    sh c (sub_plain c a k) (x - k) \<and> sh c (mul_plain c a k) (x * k) \<and> sh c (j_constant c k) k"
  using assms sh_local sh_local_plain [OF assms(1,2)] sh_constant [OF wf_wf_field [OF assms(1)] assms(4)] by simp

theorem local_operations_share_witness:
  "sh demo (add demo (demo_share 3) (demo_share 5)) 8 \<and> sh demo (sub demo (demo_share 3) (demo_share 5)) (- 2) \<and>
    sh demo (add_plain demo (demo_share 3) 6) 9 \<and> sh demo (sub_plain demo (demo_share 3) 6) (- 3) \<and>
    sh demo (mul_plain demo (demo_share 3) 6) 18 \<and> sh demo (j_constant demo 6) 6"
  using local_operations_share [of demo "demo_share 3" 3 "demo_share 5" 5 6] by (simp add: in_field_def)



text \<open>The inner product returns a sharing of the inner product of the values.\<close>
theorem dotprod_value:
  assumes "wf c" "good c s" "shs c S xs" "shs c T ys" "length xs = length ys"
  shows "\<exists>r t. dotprod c S T s = Inr (r, t) \<and> good c t \<and> sh c r (\<Sum>(x, y)\<leftarrow>zip xs ys. x * y)"
  using runs_returns [OF runs_dotprod [OF assms(1,3,4,5)] assms(2)] .

theorem dotprod_value_witness:
  "\<exists>r t. dotprod demo [demo_share 3, demo_share 5] [demo_share 4, demo_share 6] demo_state = Inr (r, t) \<and>
    good demo t \<and> sh demo r 42"
  using dotprod_value [of demo demo_state "[demo_share 3, demo_share 5]" "[3, 5]" "[demo_share 4, demo_share 6]" "[4, 6]"]
  by simp

text \<open>Squaring with a square pair returns a sharing of the square.\<close>
theorem sqr_value:
  assumes "wf c" "good c s" "sh c S x"
  shows "\<exists>r t. sqr c S s = Inr (r, t) \<and> good c t \<and> sh c r (x * x)"
  using runs_returns [OF runs_sqr [OF assms(1,3)] assms(2)] .

theorem sqr_value_witness: "\<exists>r t. sqr demo (demo_share 4) demo_state = Inr (r, t) \<and> good demo t \<and> sh demo r 16"
  using sqr_value [of demo demo_state "demo_share 4" 4] by simp

text \<open>C37: inversion of a shared value: for zero it always throws \<open>Division_by_zero\<close>, after
  opening a product that is zero; for any other value it returns a sharing of the inverse
  when no mask is zero, and otherwise may throw.\<close>
theorem inv_decides:
  assumes "wf c" "wf_prime c" "good c s" "sh c S x"
  shows "if x mod pr c = 0 then inv_op c S s = Inl Division_by_zero
    else (\<exists>r t. inv_op c S s = Inr (r, t) \<and> good c t \<and> inverse_of c x r) \<or>
      \<not> masks_nonzero c \<and> inv_op c S s = Inl Division_by_zero"
proof (cases "x mod pr c = 0")
  case True
  then show ?thesis using keeps_throws [OF runs_inv_zero [OF assms(1,4) True] assms(3)] by simp
next
  case False
  have k: "keeps (good c) (inv_op c S) (inverse_of c x) (\<lambda>e. \<not> masks_nonzero c \<and> e = Division_by_zero)"
    by (rule runs_inv [OF assms(1,2,4)]) (use False in auto)
  show ?thesis
    using k assms(3) False by (cases "inv_op c S s") (auto simp: keeps_def dest: spec [of _ s])
qed

theorem inv_decides_witness:
  "inv_op demo (demo_share 7) demo_state = Inl Division_by_zero \<and>
    (\<exists>r t. inv_op demo (demo_share 3) demo_state = Inr (r, t) \<and> good demo t \<and> inverse_of demo 3 r)"
  using inv_decides [of demo demo_state "demo_share 7" 7] inv_decides [of demo demo_state "demo_share 3" 3] by simp

text \<open>The quotient of two shared values, under the same conditions on the divisor.\<close>
theorem div_value:
  assumes "wf c" "wf_prime c" "masks_nonzero c" "good c s" "sh c A a" "sh c B b" "b mod pr c \<noteq> 0"
  shows "\<exists>r t z. div_op c A B s = Inr (r, t) \<and> good c t \<and> sh c r z \<and> (z * b) mod pr c = a mod pr c"
proof -
  have "keeps (good c) (div_op c A B) (\<lambda>r. \<exists>z. sh c r z \<and> (z * b) mod pr c = a mod pr c) (\<lambda>_. False)"
    by (rule runs_div [OF assms(1,2,5,6)]) (use assms(3,7) in simp)
  from runs_returns [OF this assms(4)] show ?thesis by blast
qed

theorem div_value_witness:
  "\<exists>r t z. div_op demo (demo_share 5) (demo_share 3) demo_state = Inr (r, t) \<and> good demo t \<and> sh demo r z \<and>
    (z * 3) mod 7 = 5"
  using div_value [of demo demo_state "demo_share 5" 5 "demo_share 3" 3] by simp

text \<open>An input protocol run shares the argument of the named player, whatever the others
  pass: the owner's masked difference and its mask add up to it.\<close>
theorem get_inputs_value:
  assumes "wf c" "good c s" "party < num_players c" "\<forall>i < num_players c. in_field (pr c) (ins ! i)"
  shows "\<exists>r t. get_inputs c party ins s = Inr (r, t) \<and> good c t \<and> sh c r (ins ! party)"
  using runs_returns [OF runs_get_inputs [OF assms(1,3,4)] assms(2)] .

theorem get_inputs_value_witness:
  "\<exists>r t. get_inputs demo 1 [2, 5] demo_state = Inr (r, t) \<and> good demo t \<and> sh demo r 5"
  using get_inputs_value [of demo demo_state 1 "[2, 5]"] by (simp add: in_field_def less_2_cases_iff)

end
