(* ===== verification/Points.thy ===== *)
theory Points
  imports CurveLaws Arithmetic
begin

text \<open>
  What the operations of \<open>Complex\<close> and of the two groups guarantee: the arithmetic of the
  quadratic extension, and the chord sum in the three coordinate systems, for a shared and for
  a public second operand.
\<close>

section \<open>The quadratic extension\<close>

text \<open>The product and the square of complex shares are sharings of the Gaussian product;
  a quotient by an element with a norm that is not zero exists and is exact, and division by
  an element of norm zero throws \<open>Division_by_zero\<close>.\<close>
theorem complex_arithmetic:
  assumes "wf c" "wf_prime c" "masks_nonzero c" "good c s" "cx_sh c S x" "cx_sh c T y"
  shows "(\<exists>r t. cx_mul c S T s = Inr (r, t) \<and> good c t \<and> cx_sh c r (x * y)) \<and>
    (\<exists>r t. cx_sqr c S s = Inr (r, t) \<and> good c t \<and> cx_sh c r (x * x)) \<and>
    (if cx_unit c y then \<exists>r t z. cx_div c S T s = Inr (r, t) \<and> good c t \<and> cx_sh c r z \<and> gcong c (z * y) x
     else cx_div c S T s = Inl Division_by_zero)"
proof (intro conjI)
  show "\<exists>r t. cx_mul c S T s = Inr (r, t) \<and> good c t \<and> cx_sh c r (x * y)"
    using runs_returns [OF runs_cx_mul [OF assms(1,5,6)] assms(4)] .
  show "\<exists>r t. cx_sqr c S s = Inr (r, t) \<and> good c t \<and> cx_sh c r (x * x)"
    using runs_returns [OF runs_cx_sqr [OF assms(1,5)] assms(4)] .
  show "if cx_unit c y then \<exists>r t z. cx_div c S T s = Inr (r, t) \<and> good c t \<and> cx_sh c r z \<and> gcong c (z * y) x
     else cx_div c S T s = Inl Division_by_zero"
  proof (cases "cx_unit c y")
    case True
    have "keeps (good c) (cx_div c S T) (\<lambda>r. \<exists>z. cx_sh c r z \<and> gcong c (z * y) x) (\<lambda>_. False)"
      by (rule runs_cx_div [OF assms(1,2,5,6)]) (use True assms(3) in simp)
    from runs_returns [OF this assms(4)] show ?thesis using True by auto
  next
    case False
    have "keeps (good c) (cx_div c S T) (\<lambda>_. False) (\<lambda>e. e = Division_by_zero)"
      using False runs_cx_div_zero [OF assms(1,6)] by (simp add: cx_div_inplace_def)
    from keeps_throws [OF this assms(4)] show ?thesis using False by auto
  qed
qed

definition demo_cx :: "int \<Rightarrow> int \<Rightarrow> jcx" where
  "demo_cx x y = \<lparr>cx_real = demo_share x, cx_imag = demo_share y\<rparr>"

lemma demo_cx [simp]: "cx_sh demo (demo_cx x y) (Gint x y)"
  by (simp add: demo_cx_def cx_sh_def)

theorem complex_arithmetic_witness:
  "(\<exists>r t. cx_mul demo (demo_cx 1 2) (demo_cx 3 1) demo_state = Inr (r, t) \<and> good demo t \<and> cx_sh demo r (Gint 1 7)) \<and>
    (\<exists>r t z. cx_div demo (demo_cx 1 2) (demo_cx 3 1) demo_state = Inr (r, t) \<and> good demo t \<and> cx_sh demo r z)"
  using complex_arithmetic [of demo demo_state "demo_cx 1 2" "Gint 1 2" "demo_cx 3 1" "Gint 3 1"]
  by (auto simp: demo_wf_prime cx_unit_def times_gint_def)

section \<open>Affine points\<close>

text \<open>Public points as operands: canonical coordinates with these values.\<close>

abbreviation g1_pub :: "ctx \<Rightarrow> int \<Rightarrow> int \<Rightarrow> bool" where
  "g1_pub c k v \<equiv> zcong c k v \<and> in_field (pr c) k"

abbreviation g2_pub :: "ctx \<Rightarrow> cx_plain \<Rightarrow> gint \<Rightarrow> bool" where
  "g2_pub c k v \<equiv> gcong c (cx_val k) v \<and> cx_plain_ok c k"

lemma g1_aff_equal_x:
  assumes c: "wf c" and P: "aff_rep (sh c) P x1 y1" and Q: "aff_rep (sh c) Q x2 y2"
    and K: "aff_rep (g1_pub c) K x2 y2" and x: "(x1 - x2) mod pr c = 0"
  shows "keeps (good c) (g1_add_aff c P Q) (\<lambda>_. False) (\<lambda>e. e = Division_by_zero)"
    and "keeps (good c) (g1_add_plain_aff c P K) (\<lambda>_. False) (\<lambda>e. e = Division_by_zero)"
proof -
  have d: "sh c (sub c (aff_x P) (aff_x Q)) (x1 - x2)" "sh c (sub_plain c (aff_x P) (aff_x K)) (x1 - x2)"
    using P Q K g1.sub_plain [OF c, of "aff_x K" x2 "aff_x P" x1]
    by (auto simp: aff_rep_def g1_ops_def intro: sh_local)
  show "keeps (good c) (g1_add_aff c P Q) (\<lambda>_. False) (\<lambda>e. e = Division_by_zero)"
    unfolding g1_add_aff_def Let_def by (rule keeps_bnd [OF runs_div_zero [OF c d(1) x]]) simp
  show "keeps (good c) (g1_add_plain_aff c P K) (\<lambda>_. False) (\<lambda>e. e = Division_by_zero)"
    unfolding g1_add_plain_aff_def Let_def by (rule keeps_bnd [OF runs_div_zero [OF c d(2) x]]) simp
qed

lemma g2_aff_equal_x:
  assumes c: "wf c" and P: "aff_rep (cx_sh c) P x1 y1" and Q: "aff_rep (cx_sh c) Q x2 y2"
    and K: "aff_rep (g2_pub c) K x2 y2" and x: "\<not> cx_unit c (x1 - x2)"
  shows "keeps (good c) (g2_add_aff c P Q) (\<lambda>_. False) (\<lambda>e. e = Division_by_zero)"
    and "keeps (good c) (g2_add_plain_aff c P K) (\<lambda>_. False) (\<lambda>e. e = Division_by_zero)"
proof -
  have d: "cx_sh c (cx_sub c (aff_x P) (aff_x Q)) (x1 - x2)" "cx_sh c (cx_sub_plain c (aff_x P) (aff_x K)) (x1 - x2)"
    using P Q K g2.sub_plain [OF c, of "aff_x K" x2 "aff_x P" x1]
    by (auto simp: aff_rep_def g2_ops_def intro: cx_sh_local)
  show "keeps (good c) (g2_add_aff c P Q) (\<lambda>_. False) (\<lambda>e. e = Division_by_zero)"
    unfolding g2_add_aff_def Let_def by (rule keeps_bnd [OF runs_cx_div_zero [OF c d(1) x]]) simp
  show "keeps (good c) (g2_add_plain_aff c P K) (\<lambda>_. False) (\<lambda>e. e = Division_by_zero)"
    unfolding g2_add_plain_aff_def Let_def by (rule keeps_bnd [OF runs_cx_div_zero [OF c d(2) x]]) simp
qed

text \<open>C30: in \<open>G1\<close>, the sum of two affine points is their chord sum, for a shared and for a
  public second point, and points of a curve \<open>y^2 = x^3 + b\<close> give a point of the curve. Equal
  abscissas, so in particular equal points, throw \<open>Division_by_zero\<close>.\<close>
theorem g1_affine_addition:
  assumes "wf c" "wf_prime c" "masks_nonzero c" "good c s" "aff_rep (sh c) P x1 y1"
    and "aff_rep (sh c) Q x2 y2" "aff_rep (g1_pub c) K x2 y2"
  shows "if (x1 - x2) mod pr c = 0
    then g1_add_aff c P Q s = Inl Division_by_zero \<and> g1_add_plain_aff c P K s = Inl Division_by_zero
    else \<exists>x3 y3 r t r' t'. g1_add_aff c P Q s = Inr (r, t) \<and> good c t \<and> aff_rep (sh c) r x3 y3 \<and>
      g1_add_plain_aff c P K s = Inr (r', t') \<and> good c t' \<and> aff_rep (sh c) r' x3 y3 \<and>
      (\<exists>m. zcong c (m * (x1 - x2)) (y1 - y2) \<and> x3 = m * m - x1 - x2 \<and> y3 = m * (x1 - x3) - y1) \<and>
      (\<forall>b. zcong c (y1 * y1) (x1 * x1 * x1 + b) \<and> zcong c (y2 * y2) (x2 * x2 * x2 + b) \<longrightarrow>
        zcong c (y3 * y3) (x3 * x3 * x3 + b))"
proof (cases "(x1 - x2) mod pr c = 0")
  case True
  then show ?thesis
    using keeps_throws [OF g1_aff_equal_x(1) [OF assms(1,5-7) True] assms(4)]
      keeps_throws [OF g1_aff_equal_x(2) [OF assms(1,5-7) True] assms(4)] by auto
next
  case False
  obtain w where w: "zcong c (w * (x1 - x2)) 1" using g1.unit_inverse [OF assms(2) False] by blast
  let ?m = "(y1 - y2) * w"
  have m: "zcong c (?m * (x1 - x2)) (y1 - y2)"
    using zcong_ring(6) [OF zcong_ring(1) w, of "y1 - y2"] by (simp add: mult.assoc)
  have E: "masks_nonzero c \<and> (x1 - x2) mod pr c \<noteq> 0 \<or> (\<lambda>_. False) Division_by_zero"
    using False assms(3) by simp
  note post = g1.chord_rep [OF assms(2) False m]
  obtain r t where r: "g1_add_aff c P Q s = Inr (r, t)" "good c t" "aff_rep (sh c) r (chord_x ?m x1 x2) (chord_y ?m x1 y1 x2)"
    using runs_returns [OF runs_g1_add_aff [where E = "\<lambda>_. False", OF assms(1,2,5,6) E] assms(4)] post by blast
  obtain r' t' where r': "g1_add_plain_aff c P K s = Inr (r', t')" "good c t'" "aff_rep (sh c) r' (chord_x ?m x1 x2) (chord_y ?m x1 y1 x2)"
    using runs_returns [OF runs_g1_add_plain_aff [where E = "\<lambda>_. False", OF assms(1,2,5,7) E] assms(4)] post by blast
  show ?thesis
    unfolding if_not_P [OF False]
    by (rule exI [of _ "chord_x ?m x1 x2"], rule exI [of _ "chord_y ?m x1 y1 x2"])
      (use r r' m g1.chord_on_curve [OF assms(2) m False] in \<open>auto simp: chord_x_def chord_y_def\<close>)
qed

text \<open>Two points of \<open>y^2 = x^3 + 3\<close> over the field of the examples.\<close>

definition demo_P :: "jshare affine" where
  "demo_P = \<lparr>aff_x = demo_share 1, aff_y = demo_share 2\<rparr>"

definition demo_Q :: "jshare affine" where
  "demo_Q = \<lparr>aff_x = demo_share 3, aff_y = demo_share 3\<rparr>"

definition demo_K :: "int affine" where
  "demo_K = \<lparr>aff_x = 3, aff_y = 3\<rparr>"

lemma demo_points:
  "aff_rep (sh demo) demo_P 1 2" "aff_rep (sh demo) demo_Q 3 3" "aff_rep (g1_pub demo) demo_K 3 3"
  by (simp_all add: aff_rep_def demo_P_def demo_Q_def demo_K_def in_field_def zcong_def)

theorem g1_affine_addition_witness:
  "\<exists>x3 y3 r t. g1_add_aff demo demo_P demo_Q demo_state = Inr (r, t) \<and> good demo t \<and> aff_rep (sh demo) r x3 y3"
  using g1_affine_addition [OF demo_wf demo_wf_prime demo_masks_nonzero demo_good demo_points(1-3)] by simp blast

text \<open>C31: in \<open>G2\<close>, over the quadratic extension, the same, with the norm of the difference of
  the abscissas deciding.\<close>
theorem g2_affine_addition:
  assumes "wf c" "wf_prime c" "masks_nonzero c" "good c s" "aff_rep (cx_sh c) P x1 y1"
    and "aff_rep (cx_sh c) Q x2 y2" "aff_rep (g2_pub c) K x2 y2"
  shows "if cx_unit c (x1 - x2)
    then \<exists>x3 y3 r t r' t'. g2_add_aff c P Q s = Inr (r, t) \<and> good c t \<and> aff_rep (cx_sh c) r x3 y3 \<and>
      g2_add_plain_aff c P K s = Inr (r', t') \<and> good c t' \<and> aff_rep (cx_sh c) r' x3 y3 \<and>
      (\<exists>m. gcong c (m * (x1 - x2)) (y1 - y2) \<and> x3 = m * m - x1 - x2 \<and> y3 = m * (x1 - x3) - y1) \<and>
      (\<forall>b. gcong c (y1 * y1) (x1 * x1 * x1 + b) \<and> gcong c (y2 * y2) (x2 * x2 * x2 + b) \<longrightarrow>
        gcong c (y3 * y3) (x3 * x3 * x3 + b))
    else g2_add_aff c P Q s = Inl Division_by_zero \<and> g2_add_plain_aff c P K s = Inl Division_by_zero"
proof (cases "cx_unit c (x1 - x2)")
  case False
  then show ?thesis
    using keeps_throws [OF g2_aff_equal_x(1) [OF assms(1,5-7) False] assms(4)]
      keeps_throws [OF g2_aff_equal_x(2) [OF assms(1,5-7) False] assms(4)] by auto
next
  case True
  obtain w where w: "gcong c (w * (x1 - x2)) 1" using g2.unit_inverse [OF assms(2) True] by blast
  let ?m = "(y1 - y2) * w"
  have m: "gcong c (?m * (x1 - x2)) (y1 - y2)"
    using gcong_mult [OF gcong_refl w, of "y1 - y2"] by (simp only: mult.assoc mult_1_right)
  have E: "masks_nonzero c \<and> cx_unit c (x1 - x2) \<or> (\<lambda>_. False) Division_by_zero"
    using True assms(3) by simp
  note post = g2.chord_rep [OF assms(2) True m]
  obtain r t where r: "g2_add_aff c P Q s = Inr (r, t)" "good c t" "aff_rep (cx_sh c) r (chord_x ?m x1 x2) (chord_y ?m x1 y1 x2)"
    using runs_returns [OF runs_g2_add_aff [where E = "\<lambda>_. False", OF assms(1,2,5,6) E] assms(4)] post by blast
  obtain r' t' where r': "g2_add_plain_aff c P K s = Inr (r', t')" "good c t'" "aff_rep (cx_sh c) r' (chord_x ?m x1 x2) (chord_y ?m x1 y1 x2)"
    using runs_returns [OF runs_g2_add_plain_aff [where E = "\<lambda>_. False", OF assms(1,2,5,7) E] assms(4)] post by blast
  show ?thesis
    unfolding if_P [OF True]
    by (rule exI [of _ "chord_x ?m x1 x2"], rule exI [of _ "chord_y ?m x1 y1 x2"])
      (use r r' m g2.chord_on_curve [OF assms(2) m True] in \<open>auto simp: chord_x_def chord_y_def\<close>)
qed

definition demo_P2 :: "jcx affine" where
  "demo_P2 = \<lparr>aff_x = demo_cx 1 2, aff_y = demo_cx 0 1\<rparr>"

definition demo_Q2 :: "jcx affine" where
  "demo_Q2 = \<lparr>aff_x = demo_cx 3 1, aff_y = demo_cx 2 5\<rparr>"

definition demo_K2 :: "cx_plain affine" where
  "demo_K2 = \<lparr>aff_x = \<lparr>cx_real = 3, cx_imag = 1\<rparr>, aff_y = \<lparr>cx_real = 2, cx_imag = 5\<rparr>\<rparr>"

lemma demo_points2:
  "aff_rep (cx_sh demo) demo_P2 (Gint 1 2) (Gint 0 1)" "aff_rep (cx_sh demo) demo_Q2 (Gint 3 1) (Gint 2 5)"
  "aff_rep (g2_pub demo) demo_K2 (Gint 3 1) (Gint 2 5)"
  by (simp_all add: aff_rep_def demo_P2_def demo_Q2_def demo_K2_def in_field_def cx_plain_ok_def cx_val_def)

theorem g2_affine_addition_witness:
  "\<exists>x3 y3 r t. g2_add_aff demo demo_P2 demo_Q2 demo_state = Inr (r, t) \<and> good demo t \<and> aff_rep (cx_sh demo) r x3 y3"
proof -
  have "cx_unit demo (Gint 1 2 - Gint 3 1)" by (simp add: cx_unit_def minus_gint_def)
  then show ?thesis
    using g2_affine_addition [OF demo_wf demo_wf_prime demo_masks_nonzero demo_good demo_points2] by simp blast
qed

section \<open>Weighted coordinates\<close>

text \<open>C32: in \<open>G1\<close>, additions in Jacobian and in projective coordinates represent the chord
  sum of the affine points, without any division; for equal points they do not double: the
  third coordinate of the result is a sharing of zero.\<close>
theorem g1_weighted_addition:
  assumes "wf c" "good c s" "zcong c (m * (x1 - x2)) (y1 - y2)"
    and "jac_rep (sh c) J x1 y1 z1" "jac_rep (sh c) L x2 y2 z2"
    and "proj_rep (sh c) P x1 y1 z1" "proj_rep (sh c) Q x2 y2 z2"
  shows "\<exists>r t z r' t' z'. g1_add_jac c J L s = Inr (r, t) \<and> good c t \<and>
      jac_rep (sh c) r (chord_x m x1 x2) (chord_y m x1 y1 x2) z \<and>
    g1_add_proj c P Q s = Inr (r', t') \<and> good c t' \<and>
      proj_rep (sh c) r' (chord_x m x1 x2) (chord_y m x1 y1 x2) z' \<and>
    (if x1 = x2 then z = 0 \<and> z' = 0
     else prime_int (pr c) \<and> z1 mod pr c \<noteq> 0 \<and> z2 mod pr c \<noteq> 0 \<and> (x1 - x2) mod pr c \<noteq> 0 \<longrightarrow>
       z mod pr c \<noteq> 0 \<and> z' mod pr c \<noteq> 0)"
proof -
  let ?z = "jac_z x1 x2 z1 z2" and ?z' = "proj_z x1 x2 z1 z2"
  obtain r t where r: "g1_add_jac c J L s = Inr (r, t)" "good c t"
      "jac_rep (sh c) r (chord_x m x1 x2) (chord_y m x1 y1 x2) ?z"
    using runs_returns [OF runs_g1_add_jac [OF assms(1,4,5,3)] assms(2)] by blast
  obtain r' t' where r': "g1_add_proj c P Q s = Inr (r', t')" "good c t'"
      "proj_rep (sh c) r' (chord_x m x1 x2) (chord_y m x1 y1 x2) ?z'"
    using runs_returns [OF runs_g1_add_proj [OF assms(1,6,7,3)] assms(2)] by blast
  have "?z mod pr c \<noteq> 0 \<and> ?z' mod pr c \<noteq> 0"
    if "prime_int (pr c)" "z1 mod pr c \<noteq> 0" "z2 mod pr c \<noteq> 0" "(x1 - x2) mod pr c \<noteq> 0"
  proof -
    have nz: "a mod pr c \<noteq> 0 \<Longrightarrow> b mod pr c \<noteq> 0 \<Longrightarrow> (a * b) mod pr c \<noteq> 0" for a b
      using prime_int_mult [OF that(1), of a b] by auto
    show ?thesis unfolding jac_z_def proj_z_def by (intro conjI nz that(2-4))
  qed
  moreover have "x1 = x2 \<longrightarrow> ?z = 0 \<and> ?z' = 0" by (simp add: jac_z_def proj_z_def)
  ultimately have "if x1 = x2 then ?z = 0 \<and> ?z' = 0
     else prime_int (pr c) \<and> z1 mod pr c \<noteq> 0 \<and> z2 mod pr c \<noteq> 0 \<and> (x1 - x2) mod pr c \<noteq> 0 \<longrightarrow>
       ?z mod pr c \<noteq> 0 \<and> ?z' mod pr c \<noteq> 0" by auto
  then show ?thesis using r r' by (intro exI conjI)
qed

theorem g1_weighted_addition_witness:
  "\<exists>r t z r' t' z'. g1_add_jac demo \<lparr>jac_X = demo_share 1, jac_Y = demo_share 2, jac_Z = demo_share 1\<rparr>
        \<lparr>jac_X = demo_share 3, jac_Y = demo_share 3, jac_Z = demo_share 1\<rparr> demo_state = Inr (r, t) \<and>
      jac_rep (sh demo) r (chord_x 4 1 3) (chord_y 4 1 2 3) z \<and> z mod 7 \<noteq> 0 \<and>
    g1_add_proj demo \<lparr>proj_X = demo_share 1, proj_Y = demo_share 2, proj_Z = demo_share 1\<rparr>
        \<lparr>proj_X = demo_share 3, proj_Y = demo_share 3, proj_Z = demo_share 1\<rparr> demo_state = Inr (r', t') \<and>
      proj_rep (sh demo) r' (chord_x 4 1 3) (chord_y 4 1 2 3) z'"
  using g1_weighted_addition [of demo demo_state 4 1 3 2 3 "\<lparr>jac_X = demo_share 1, jac_Y = demo_share 2, jac_Z = demo_share 1\<rparr>" 1
      "\<lparr>jac_X = demo_share 3, jac_Y = demo_share 3, jac_Z = demo_share 1\<rparr>" 1
      "\<lparr>proj_X = demo_share 1, proj_Y = demo_share 2, proj_Z = demo_share 1\<rparr>"
      "\<lparr>proj_X = demo_share 3, proj_Y = demo_share 3, proj_Z = demo_share 1\<rparr>"]
  by (simp add: jac_rep_def proj_rep_def zcong_def) blast

text \<open>The same additions in \<open>G2\<close>, with a shared and with a public second operand.\<close>
theorem g2_weighted_addition:
  assumes "wf c" "good c s" "gcong c (m * (x1 - x2)) (y1 - y2)"
    and "jac_rep (cx_sh c) J x1 y1 z1" "jac_rep (cx_sh c) L x2 y2 z2" "jac_rep (\<lambda>k v. gcong c (cx_val k) v) K x2 y2 z2"
  shows "\<exists>r t r' t' z. g2_add_jac c J L s = Inr (r, t) \<and> good c t \<and>
      jac_rep (cx_sh c) r (chord_x m x1 x2) (chord_y m x1 y1 x2) z \<and>
      g2_add_plain_jac c J K s = Inr (r', t') \<and> good c t' \<and>
      jac_rep (cx_sh c) r' (chord_x m x1 x2) (chord_y m x1 y1 x2) z \<and> (x1 = x2 \<longrightarrow> z = 0)"
proof -
  have "x1 = x2 \<longrightarrow> jac_z x1 x2 z1 z2 = 0" by (simp add: jac_z_def)
  then show ?thesis
    using runs_returns [OF runs_g2_add_jac [OF assms(1,4,5,3)] assms(2)]
      runs_returns [OF runs_g2_add_plain_jac [OF assms(1,4,6,3)] assms(2)] by blast
qed

theorem g2_weighted_addition_witness:
  "\<exists>r t z. g2_add_jac demo \<lparr>jac_X = demo_cx 1 0, jac_Y = demo_cx 2 0, jac_Z = demo_cx 1 0\<rparr>
        \<lparr>jac_X = demo_cx 3 0, jac_Y = demo_cx 3 0, jac_Z = demo_cx 1 0\<rparr> demo_state = Inr (r, t) \<and> good demo t \<and>
      jac_rep (cx_sh demo) r (chord_x (Gint 4 0) (Gint 1 0) (Gint 3 0)) (chord_y (Gint 4 0) (Gint 1 0) (Gint 2 0) (Gint 3 0)) z"
proof -
  have one: "Gint 1 0 * Gint 1 0 = Gint 1 0" "Gint 1 0 * x = x" "x * Gint 1 0 = x" for x
    by (cases x; simp add: times_gint_def)+
  have "gcong demo (Gint 4 0 * (Gint 1 0 - Gint 3 0)) (Gint 2 0 - Gint 3 0)" by (simp add: gcong_def)
  moreover have "jac_rep (cx_sh demo) \<lparr>jac_X = demo_cx 1 0, jac_Y = demo_cx 2 0, jac_Z = demo_cx 1 0\<rparr> (Gint 1 0) (Gint 2 0) (Gint 1 0)"
    "jac_rep (cx_sh demo) \<lparr>jac_X = demo_cx 3 0, jac_Y = demo_cx 3 0, jac_Z = demo_cx 1 0\<rparr> (Gint 3 0) (Gint 3 0) (Gint 1 0)"
    by (simp_all add: jac_rep_def one)
  moreover have "jac_rep (\<lambda>k v. gcong demo (cx_val k) v) \<lparr>jac_X = \<lparr>cx_real = 3, cx_imag = 0\<rparr>,
      jac_Y = \<lparr>cx_real = 3, cx_imag = 0\<rparr>, jac_Z = \<lparr>cx_real = 1, cx_imag = 0\<rparr>\<rparr> (Gint 3 0) (Gint 3 0) (Gint 1 0)"
    by (simp add: jac_rep_def one cx_val_def)
  ultimately show ?thesis using g2_weighted_addition [OF demo_wf demo_good] by meson
qed

end
