(* ===== verification/Lagrange.thy ===== *)
theory Lagrange
  imports Gfp
begin

text \<open>
  Shamir sharing over the scalar field of the pairing library: \<open>get_lagrange_coeff\<close>,
  \<open>set_share\<close> and \<open>recover_share\<close> of \<open>Math/Lagrange.cpp\<close>. The scalar operations of the
  library \<open>mcl\<close> are parameters, with the laws its documentation states. The nodes are
  \<open>1, ..., n\<close>, for which the coefficients at zero are signed binomial coefficients.
\<close>

section \<open>The scalar field of the library\<close>

text \<open>\<open>fr_mod\<close> is the order of the groups; an element is its canonical representative.\<close>

record fr_lib =
  fr_mod :: int
  fr_add :: "int \<Rightarrow> int \<Rightarrow> int"
  fr_mul :: "int \<Rightarrow> int \<Rightarrow> int"
  fr_inv :: "int \<Rightarrow> int"
  fr_int32 :: "int \<Rightarrow> int"
  fr_poly :: "int list \<Rightarrow> int \<Rightarrow> int"

text \<open>The value of a polynomial given by its coefficients, lowest first.\<close>

fun poly_value :: "int list \<Rightarrow> int \<Rightarrow> int" where
  "poly_value [] x = 0"
| "poly_value (a # as) x = a + x * poly_value as x"

text \<open>What is documented of \<open>mclBnFr_add\<close>, \<open>mclBnFr_mul\<close>, \<open>mclBnFr_inv\<close>,
  \<open>mclBnFr_setInt32\<close> and \<open>mclBn_FrEvaluatePolynomial\<close>.\<close>

definition fr_ok :: "fr_lib \<Rightarrow> bool" where
  "fr_ok L \<longleftrightarrow> prime_int (fr_mod L) \<and>
     (\<forall>x y. in_field (fr_mod L) x \<longrightarrow> in_field (fr_mod L) y \<longrightarrow> fr_add L x y = (x + y) mod fr_mod L) \<and>
     (\<forall>x y. in_field (fr_mod L) x \<longrightarrow> in_field (fr_mod L) y \<longrightarrow> fr_mul L x y = (x * y) mod fr_mod L) \<and>
     (\<forall>x. in_field (fr_mod L) x \<longrightarrow> x \<noteq> 0 \<longrightarrow>
        in_field (fr_mod L) (fr_inv L x) \<and> (fr_inv L x * x) mod fr_mod L = 1) \<and>
     (\<forall>k. fr_int32 L k = k mod fr_mod L) \<and>
     (\<forall>as x. (\<forall>a \<in> set as. in_field (fr_mod L) a) \<longrightarrow> in_field (fr_mod L) x \<longrightarrow>
        fr_poly L as x = poly_value as x mod fr_mod L)"

lemma fr_okD:
  assumes "fr_ok L"
  shows "prime_int (fr_mod L)" "1 < fr_mod L" "fr_int32 L k = k mod fr_mod L"
    "in_field (fr_mod L) x \<Longrightarrow> in_field (fr_mod L) y \<Longrightarrow> fr_add L x y = (x + y) mod fr_mod L"
    "in_field (fr_mod L) x \<Longrightarrow> in_field (fr_mod L) y \<Longrightarrow> fr_mul L x y = (x * y) mod fr_mod L"
    "in_field (fr_mod L) x \<Longrightarrow> x \<noteq> 0 \<Longrightarrow> in_field (fr_mod L) (fr_inv L x)"
    "in_field (fr_mod L) x \<Longrightarrow> x \<noteq> 0 \<Longrightarrow> (fr_inv L x * x) mod fr_mod L = 1"
    "(\<forall>a \<in> set as. in_field (fr_mod L) a) \<Longrightarrow> in_field (fr_mod L) x \<Longrightarrow>
      fr_poly L as x = poly_value as x mod fr_mod L"
  using assms unfolding fr_ok_def by (auto simp: prime_int_def)

lemma in_field_residue [simp, intro]: "1 < p \<Longrightarrow> in_field p (x mod p)"
  by (simp add: in_field_def)

section \<open>The operations\<close>

definition get_lagrange_coeff :: "fr_lib \<Rightarrow> nat \<Rightarrow> nat \<Rightarrow> err + int" where
  "get_lagrange_coeff L n pos =
     (if pos \<le> 0 \<or> pos > n then Inl Invalid_length
      else
        let nume_prod = fr_int32 L 1;
            deno_prod = fr_int32 L 1;
            xi = fr_int32 L (int pos);
            (nume_prod, deno_prod) =
              foldl (\<lambda>(nume_prod, deno_prod) k.
                if k \<noteq> pos
                then let xk = fr_int32 L (- int k);
                         nume_prod = fr_mul L nume_prod xk;
                         xk = fr_add L xi xk;
                         deno_prod = fr_mul L deno_prod xk
                     in (nume_prod, deno_prod)
                else (nume_prod, deno_prod)) (nume_prod, deno_prod) [1..<Suc n];
            lc = fr_inv L deno_prod
        in Inr (fr_mul L lc nume_prod))"

text \<open>
  \<open>set_share\<close>: \<open>rnd\<close> is what the generator returned for the other coefficients; the entries
  of the vector that receives the shares are overwritten.
\<close>

definition set_share :: "fr_lib \<Rightarrow> int list \<Rightarrow> int list \<Rightarrow> int \<Rightarrow> nat \<Rightarrow> err + int list" where
  "set_share L rnd sh0 s n =
     (let coeff = s # rnd in
      if length sh0 < n then Inl Out_of_range
      else Inr (map (\<lambda>pos. let xi = fr_int32 L (int (pos + 1)) in
             foldl (\<lambda>sh k. fr_add L (fr_mul L sh xi) (coeff ! (k - 1))) (last coeff) (rev [1..<length coeff]))
           [0..<n] @ drop n sh0))"

definition recover_share :: "fr_lib \<Rightarrow> int list \<Rightarrow> int list \<Rightarrow> err + int" where
  "recover_share L coeff share =
     (if length coeff \<noteq> length share then Inl Invalid_length
      else if coeff = [] then Inl Out_of_range
      else Inr (foldl (\<lambda>secret i. let tmp = fr_mul L (coeff ! i) (share ! i) in fr_add L secret tmp)
             (fr_mul L (coeff ! 0) (share ! 0)) [1..<length coeff]))"

section \<open>Finite differences\<close>

text \<open>\<open>deg_lt d f\<close>: taking differences \<open>d\<close> times gives zero.\<close>

fun deg_lt :: "nat \<Rightarrow> (int \<Rightarrow> int) \<Rightarrow> bool" where
  "deg_lt 0 f \<longleftrightarrow> (\<forall>x. f x = 0)"
| "deg_lt (Suc d) f \<longleftrightarrow> deg_lt d (\<lambda>x. f (x + 1) - f x)"

lemma deg_lt_add: "deg_lt d f \<Longrightarrow> deg_lt d g \<Longrightarrow> deg_lt d (\<lambda>x. f x + g x)"
proof (induction d arbitrary: f g)
  case 0
  then show ?case by simp
next
  case (Suc d)
  then have "deg_lt d (\<lambda>x. (f (x + 1) - f x) + (g (x + 1) - g x))" by (intro Suc.IH) simp_all
  then show ?case by (simp add: algebra_simps)
qed

lemma deg_lt_shift: "deg_lt d f \<Longrightarrow> deg_lt d (\<lambda>x. f (x + 1))"
proof (induction d arbitrary: f)
  case 0
  then show ?case by simp
next
  case (Suc d)
  then have "deg_lt d (\<lambda>x. f (x + 1 + 1) - f (x + 1))" using Suc.IH [of "\<lambda>x. f (x + 1) - f x"] by (simp only: deg_lt.simps)
  then show ?case by (simp only: deg_lt.simps)
qed

lemma deg_lt_Suc: "deg_lt d f \<Longrightarrow> deg_lt (Suc d) f"
proof (induction d arbitrary: f)
  case 0
  then show ?case by simp
next
  case (Suc d)
  then have "deg_lt (Suc d) (\<lambda>x. f (x + 1) - f x)" using Suc.IH [of "\<lambda>x. f (x + 1) - f x"] by (simp only: deg_lt.simps)
  then show ?case by (simp only: deg_lt.simps)
qed

lemma deg_lt_mult: "deg_lt d g \<Longrightarrow> deg_lt (Suc d) (\<lambda>x. x * g x)"
proof (induction d arbitrary: g)
  case 0
  then show ?case by simp
next
  case (Suc d)
  have "deg_lt (Suc d) (\<lambda>x. x * (g (x + 1) - g x))" using Suc.prems by (intro Suc.IH) simp
  then have "deg_lt (Suc d) (\<lambda>x. x * (g (x + 1) - g x) + g (x + 1))"
    by (rule deg_lt_add) (rule deg_lt_shift [OF Suc.prems])
  moreover have "(x + 1) * g (x + 1) - x * g x = x * (g (x + 1) - g x) + g (x + 1)" for x :: int
    by (simp add: algebra_simps)
  ultimately show ?case by (subst deg_lt.simps) (simp only:)
qed

lemma deg_lt_const: "deg_lt (Suc d) (\<lambda>x. a)"
  by (induction d) simp_all

lemma deg_lt_poly: "deg_lt (length as) (poly_value as)"
proof (induction as)
  case Nil
  then show ?case by simp
next
  case (Cons a as)
  have "deg_lt (Suc (length as)) (\<lambda>x. a + x * poly_value as x)"
    by (intro deg_lt_add deg_lt_mult Cons.IH deg_lt_const)
  moreover have "poly_value (a # as) = (\<lambda>x. a + x * poly_value as x)" by (rule ext) simp
  ultimately show ?case by (simp only: list.size) simp
qed

lemma deg_lt_mono: "deg_lt d f \<Longrightarrow> d \<le> n \<Longrightarrow> deg_lt n f"
  by (induction n) (auto simp: le_Suc_eq simp del: deg_lt.simps(2) dest: deg_lt_Suc)

definition alternating :: "nat \<Rightarrow> (int \<Rightarrow> int) \<Rightarrow> int" where
  "alternating n f = (\<Sum>i\<le>n. (- 1) ^ i * int (n choose i) * f (int i))"

lemma alternating_Suc: "alternating (Suc n) f = - alternating n (\<lambda>x. f (x + 1) - f x)"
proof -
  let ?t = "\<lambda>n i. (- 1) ^ i * int (n choose i) * f (int i)"
  have "alternating (Suc n) f = f 0 + (\<Sum>i\<le>n. ?t (Suc n) (Suc i))"
    unfolding alternating_def by (subst sum.atMost_Suc_shift) simp
  also have "(\<Sum>i\<le>n. ?t (Suc n) (Suc i)) =
      (\<Sum>i\<le>n. - ((- 1) ^ i * int (n choose i) * f (int i + 1)) + ?t n (Suc i))"
    by (rule sum.cong) (simp_all add: algebra_simps)
  also have "\<dots> = - (\<Sum>i\<le>n. (- 1) ^ i * int (n choose i) * f (int i + 1)) + (\<Sum>i\<le>n. ?t n (Suc i))"
    by (simp only: sum.distrib sum_negf)
  also have "f 0 + \<dots> = - (\<Sum>i\<le>n. (- 1) ^ i * int (n choose i) * f (int i + 1)) + (\<Sum>i\<le>Suc n. ?t n i)"
    by (subst sum.atMost_Suc_shift [of "?t n"]) simp
  also have "(\<Sum>i\<le>Suc n. ?t n i) = (\<Sum>i\<le>n. ?t n i)" by simp
  finally show ?thesis
    by (simp add: alternating_def right_diff_distrib sum_subtractf)
qed

lemma alternating_zero: "deg_lt n f \<Longrightarrow> alternating n f = 0"
proof (induction n arbitrary: f)
  case 0
  then show ?case by (simp add: alternating_def)
next
  case (Suc n)
  then show ?case using Suc.IH [of "\<lambda>x. f (x + 1) - f x"] by (simp add: alternating_Suc)
qed

text \<open>The coefficient of node \<open>i\<close> at zero, and the interpolation it gives.\<close>

definition node_coeff :: "nat \<Rightarrow> nat \<Rightarrow> int" where
  "node_coeff n i = (- 1) ^ (i - 1) * int (n choose i)"

lemma interpolation_at_zero:
  assumes "length as \<le> n"
  shows "(\<Sum>i\<leftarrow>[1..<Suc n]. node_coeff n i * poly_value as (int i)) = poly_value as 0"
proof -
  have "deg_lt n (poly_value as)" using deg_lt_mono [OF deg_lt_poly assms] .
  then have "0 = alternating n (poly_value as)" by (simp add: alternating_zero)
  also have "\<dots> = poly_value as 0 + (\<Sum>i\<in>{1..n}. (- 1) ^ i * int (n choose i) * poly_value as (int i))"
  proof -
    have "{..n} = insert 0 {1..n}" by auto
    then show ?thesis unfolding alternating_def by simp
  qed
  also have "(\<Sum>i\<in>{1..n}. (- 1) ^ i * int (n choose i) * poly_value as (int i)) =
      - (\<Sum>i\<in>{1..n}. node_coeff n i * poly_value as (int i))"
  proof -
    have "(- 1) ^ i = - ((- 1 :: int) ^ (i - 1))" if "1 \<le> i" for i
      using that by (cases i) simp_all
    then show ?thesis by (simp add: node_coeff_def sum_negf [symmetric])
  qed
  finally have "(\<Sum>i\<in>{1..n}. node_coeff n i * poly_value as (int i)) = poly_value as 0" by simp
  moreover have "set [1..<Suc n] = {1..n}" by auto
  ultimately show ?thesis by (simp add: sum_list_distinct_conv_sum_set del: upt_Suc)
qed

section \<open>The coefficients of the code\<close>

lemma prod_nodes: "1 \<le> i \<Longrightarrow> (\<Prod>k\<in>{1..i + d} - {i}. int i - int k) = (- 1) ^ d * fact (i - 1) * fact d"
proof (induction d)
  case 0
  have "(\<Prod>k\<in>{1..i} - {i}. int i - int k) = (\<Prod>k\<in>{1..i - 1}. int k)"
    by (rule prod.reindex_bij_witness [where i = "\<lambda>k. i - k" and j = "\<lambda>k. i - k"]) (use 0 in auto)
  then show ?case by (simp add: fact_prod)
next
  case (Suc d)
  have "{1..i + Suc d} - {i} = insert (i + Suc d) ({1..i + d} - {i})" by auto
  then have "(\<Prod>k\<in>{1..i + Suc d} - {i}. int i - int k) =
      (int i - int (i + Suc d)) * (\<Prod>k\<in>{1..i + d} - {i}. int i - int k)" by simp
  also have "\<dots> = - int (Suc d) * ((- 1) ^ d * fact (i - 1) * fact d)" using Suc by simp
  also have "\<dots> = (- 1) ^ Suc d * fact (i - 1) * fact (Suc d)" by (simp add: algebra_simps)
  finally show ?case .
qed

lemma prod_negatives: "1 \<le> i \<Longrightarrow> i \<le> n \<Longrightarrow> - int i * (\<Prod>k\<in>{1..n} - {i}. - int k) = (- 1) ^ n * fact n"
proof -
  assume i: "1 \<le> i" "i \<le> n"
  have "- int i * (\<Prod>k\<in>{1..n} - {i}. - int k) = (\<Prod>k\<in>{1..n}. - int k)"
    using i by (intro prod.remove [symmetric]) auto
  also have "\<dots> = (\<Prod>k\<in>{1..n}. - 1) * (\<Prod>k\<in>{1..n}. int k)"
    unfolding prod.distrib [symmetric] by simp
  also have "\<dots> = (- 1) ^ n * fact n" by (simp add: fact_prod)
  finally show ?thesis .
qed

lemma node_quotient:
  assumes i: "1 \<le> i" "i \<le> n"
  shows "(\<Prod>k\<in>{1..n} - {i}. - int k) = (\<Prod>k\<in>{1..n} - {i}. int i - int k) * node_coeff n i"
proof -
  obtain d where d: "n = i + d" using i(2) by (metis le_Suc_ex)
  obtain j where j: "i = Suc j" using i(1) by (cases i) auto
  have f: "fact i * fact d * (n choose i) = (fact n :: nat)" using binomial_fact_lemma [OF i(2)] d by simp
  have "fact n = (int (fact i * fact d * (n choose i)) :: int)" unfolding f by simp
  then have g: "fact n = int i * (fact (i - 1) * fact d * int (n choose i))"
    using j by (simp add: algebra_simps)
  have s: "(- 1 :: int) ^ n = - ((- 1) ^ d * (- 1) ^ (i - 1))" unfolding d j by (simp add: power_add)
  have "- int i * (\<Prod>k\<in>{1..n} - {i}. - int k) = (- 1) ^ n * fact n" by (rule prod_negatives [OF i])
  also have "\<dots> = - int i * ((- 1) ^ d * fact (i - 1) * fact d * node_coeff n i)"
    unfolding g s node_coeff_def by (simp only: algebra_simps)
  also have "(- 1) ^ d * fact (i - 1) * fact d = (\<Prod>k\<in>{1..n} - {i}. int i - int k)"
    unfolding d by (rule prod_nodes [OF i(1), symmetric])
  finally show ?thesis using i(1) by simp
qed

lemma fact_not_zero: "prime_int p \<Longrightarrow> int m < p \<Longrightarrow> (fact m :: int) mod p \<noteq> 0"
proof (induction m)
  case 0
  then show ?case by (simp add: prime_int_def)
next
  case (Suc m)
  have "(fact m :: int) mod p \<noteq> 0" using Suc by simp
  moreover have "int (Suc m) mod p \<noteq> 0" using Suc.prems by simp
  ultimately show ?case using prime_int_mult [OF Suc.prems(1), of "int (Suc m)" "fact m"] by auto
qed

lemma denominator_unit:
  assumes p: "prime_int p" and n: "int n < p" and i: "1 \<le> i" "i \<le> n"
  shows "(\<Prod>k\<in>{1..n} - {i}. int i - int k) mod p \<noteq> 0"
proof
  obtain d where d: "n = i + d" using i(2) by (metis le_Suc_ex)
  assume "(\<Prod>k\<in>{1..n} - {i}. int i - int k) mod p = 0"
  then have "p dvd (- 1) ^ d * (fact (i - 1) * fact d)"
    unfolding d prod_nodes [OF i(1)] by (simp add: mult.assoc mod_eq_0_iff_dvd)
  then have "p dvd fact (i - 1) * fact d" by (cases "even d") simp_all
  then have "(fact (i - 1) :: int) mod p = 0 \<or> (fact d :: int) mod p = 0"
    using prime_int_mult [OF p] by (simp add: mod_eq_0_iff_dvd)
  moreover have "(fact (i - 1) :: int) mod p \<noteq> 0" "(fact d :: int) mod p \<noteq> 0"
    using fact_not_zero [OF p] n d i by simp_all
  ultimately show False by simp
qed

text \<open>One step of the loop, and the loop.\<close>

lemma lagrange_loop:
  assumes L: "fr_ok L"
  shows "distinct ks \<Longrightarrow>
    foldl (\<lambda>(nume, deno) k. if k \<noteq> pos
        then let xk = fr_int32 L (- int k); nume = fr_mul L nume xk; xk = fr_add L (fr_int32 L (int pos)) xk;
                 deno = fr_mul L deno xk in (nume, deno)
        else (nume, deno)) (a mod fr_mod L, b mod fr_mod L) ks =
      ((a * (\<Prod>k\<in>set ks - {pos}. - int k)) mod fr_mod L,
       (b * (\<Prod>k\<in>set ks - {pos}. int pos - int k)) mod fr_mod L)"
proof (induction ks arbitrary: a b)
  case Nil
  then show ?case by simp
next
  case (Cons k ks)
  have k: "k \<notin> set ks" "distinct ks" using Cons.prems by simp_all
  show ?case
  proof (cases "k = pos")
    case True
    then show ?thesis using Cons.IH [OF k(2)] k(1) by (simp add: Diff_insert0)
  next
    case False
    have m: "fr_mul L (x mod fr_mod L) (y mod fr_mod L) = (x * y) mod fr_mod L" for x y
      using fr_okD(2) [OF L] by (simp add: fr_okD(5) [OF L] mod_mult_eq)
    have s: "fr_add L (int pos mod fr_mod L) (- int k mod fr_mod L) = (int pos - int k) mod fr_mod L"
      using fr_okD(2) [OF L] by (simp add: fr_okD(4) [OF L] mod_add_eq)
    have e: "set (k # ks) - {pos} = insert k (set ks - {pos})" using False by auto
    have p: "(\<Prod>k\<in>set (k # ks) - {pos}. f k) = f k * (\<Prod>k\<in>set ks - {pos}. f k)" for f :: "nat \<Rightarrow> int"
      unfolding e using k(1) by simp
    show ?thesis
      using False Cons.IH [OF k(2), of "a * - int k" "b * (int pos - int k)"]
      unfolding p by (simp only: foldl_Cons fr_okD(3) [OF L] s m Let_def prod.case if_True simp_thms mult.assoc)
  qed
qed

lemma get_lagrange_coeff_value:
  assumes L: "fr_ok L" and n: "int n < fr_mod L" and pos: "1 \<le> pos" "pos \<le> n"
  shows "get_lagrange_coeff L n pos = Inr (node_coeff n pos mod fr_mod L)"
proof -
  let ?r = "fr_mod L" and ?D = "\<Prod>k\<in>{1..n} - {pos}. int pos - int k" and ?N = "\<Prod>k\<in>{1..n} - {pos}. - int k"
  have set: "set [1..<Suc n] = {1..n}" by auto
  have d: "?D mod ?r \<noteq> 0" by (rule denominator_unit [OF fr_okD(1) [OF L] n pos])
  have f: "in_field ?r (?D mod ?r)" "in_field ?r (?N mod ?r)" using fr_okD(2) [OF L] by simp_all
  note i = fr_okD(6,7) [OF L f(1) d]
  have "(fr_inv L (?D mod ?r) * (?N mod ?r)) mod ?r = (fr_inv L (?D mod ?r) * (?D * node_coeff n pos)) mod ?r"
    unfolding node_quotient [OF pos] by (rule mod_mult_right_eq)
  also have "\<dots> = ((fr_inv L (?D mod ?r) * ?D) mod ?r * node_coeff n pos) mod ?r"
    by (simp add: mod_mult_left_eq mult.assoc)
  also have "(fr_inv L (?D mod ?r) * ?D) mod ?r = 1" using i(2) by (simp add: mod_mult_right_eq)
  finally have v: "fr_mul L (fr_inv L (?D mod ?r)) (?N mod ?r) = node_coeff n pos mod ?r"
    using fr_okD(5) [OF L i(1) f(2)] by simp
  have loop: "foldl (\<lambda>(nume, deno) k. if k \<noteq> pos
        then let xk = fr_int32 L (- int k); nume = fr_mul L nume xk; xk = fr_add L (fr_int32 L (int pos)) xk;
                 deno = fr_mul L deno xk in (nume, deno)
        else (nume, deno)) (fr_int32 L 1, fr_int32 L 1) [1..<Suc n] = (?N mod ?r, ?D mod ?r)"
    using lagrange_loop [OF L, of "[1..<Suc n]" pos 1 1] unfolding set fr_okD(3) [OF L] by simp
  show ?thesis
    unfolding get_lagrange_coeff_def Let_def using pos loop [unfolded Let_def] v by simp
qed

section \<open>Sharing and recovering\<close>

text \<open>The loop of \<open>set_share\<close> is Horner's rule.\<close>

lemma horner_loop:
  assumes L: "fr_ok L" and c: "\<forall>a \<in> set coeff. in_field (fr_mod L) a" and n: "n < length coeff"
    and v: "v = poly_value (drop n coeff) x mod fr_mod L"
  shows "foldl (\<lambda>sh k. fr_add L (fr_mul L sh (x mod fr_mod L)) (coeff ! (k - 1))) v (rev [1..<Suc n]) =
    poly_value coeff x mod fr_mod L"
  using n v
proof (induction n arbitrary: v)
  case 0
  then show ?case by simp
next
  case (Suc n)
  let ?r = "fr_mod L" and ?p = "poly_value (drop (Suc n) coeff) x"
  have r: "1 < ?r" using fr_okD(2) [OF L] .
  have cn: "in_field ?r (coeff ! n)" using c Suc.prems(1) by simp
  have "fr_add L (fr_mul L v (x mod ?r)) (coeff ! n) = (?p * x mod ?r + coeff ! n) mod ?r"
    using r cn Suc.prems(2) by (simp add: fr_okD(4,5) [OF L] mod_mult_eq)
  also have "\<dots> = (coeff ! n + x * ?p) mod ?r" by (simp only: mod_add_left_eq mult.commute [of x] add.commute [of "coeff ! n"])
  also have "coeff ! n + x * ?p = poly_value (drop n coeff) x"
    using Cons_nth_drop_Suc [of n coeff] Suc.prems(1) by (metis Suc_lessD poly_value.simps(2))
  finally have "fr_add L (fr_mul L v (x mod ?r)) (coeff ! n) = poly_value (drop n coeff) x mod ?r" .
  then show ?case using Suc.IH Suc.prems(1) by simp
qed

lemma set_share_value:
  assumes L: "fr_ok L" and c: "\<forall>a \<in> set (s # rnd). in_field (fr_mod L) a" and n: "n \<le> length sh0"
  shows "set_share L rnd sh0 s n =
    Inr (map (\<lambda>pos. poly_value (s # rnd) (int (pos + 1)) mod fr_mod L) [0..<n] @ drop n sh0)"
proof -
  let ?c = "s # rnd"
  have "last ?c = poly_value (drop (length rnd) ?c) x mod fr_mod L" for x
  proof -
    have "drop (length rnd) ?c = [last ?c]"
      by (cases rnd rule: rev_cases) simp_all
    moreover have "in_field (fr_mod L) (last ?c)" using c last_in_set [of ?c] by blast
    ultimately show ?thesis using fr_okD(2) [OF L] in_field_id by simp
  qed
  then have "foldl (\<lambda>sh k. fr_add L (fr_mul L sh (x mod fr_mod L)) (?c ! (k - 1))) (last ?c) (rev [1..<length ?c]) =
      poly_value ?c x mod fr_mod L" for x
    using horner_loop [OF L c, of "length rnd"] by simp
  then show ?thesis
    using n by (simp add: set_share_def Let_def fr_okD(3) [OF L] del: poly_value.simps)
qed

lemma recover_loop:
  assumes L: "fr_ok L" and len: "length coeff = length share"
    and f: "\<forall>a \<in> set coeff. in_field (fr_mod L) a" "\<forall>a \<in> set share. in_field (fr_mod L) a"
  shows "n \<le> length coeff \<Longrightarrow> 0 < n \<Longrightarrow>
    foldl (\<lambda>secret i. let tmp = fr_mul L (coeff ! i) (share ! i) in fr_add L secret tmp)
      (fr_mul L (coeff ! 0) (share ! 0)) [1..<n] = (\<Sum>i<n. coeff ! i * share ! i) mod fr_mod L"
proof (induction n)
  case 0
  then show ?case by simp
next
  case (Suc n)
  have r: "1 < fr_mod L" using fr_okD(2) [OF L] .
  have e: "in_field (fr_mod L) (coeff ! n)" "in_field (fr_mod L) (share ! n)"
    using f len Suc.prems(1) by simp_all
  show ?case
  proof (cases "n = 0")
    case True
    then show ?thesis using e by (simp add: fr_okD(5) [OF L])
  next
    case False
    then show ?thesis using Suc r e by (simp add: fr_okD(4,5) [OF L] mod_add_eq)
  qed
qed

text \<open>The Lagrange coefficient of node \<open>pos\<close> for the value at zero is the signed binomial
  coefficient modulo the order; a position of zero or beyond the number of nodes throws
  \<open>invalid_length\<close>.\<close>
theorem lagrange_coefficient:
  assumes "fr_ok L" "int n < fr_mod L"
  shows "get_lagrange_coeff L n pos =
    (if 1 \<le> pos \<and> pos \<le> n then Inr (((- 1) ^ (pos - 1) * int (n choose pos)) mod fr_mod L)
     else Inl Invalid_length)"
proof (cases "1 \<le> pos \<and> pos \<le> n")
  case True
  then show ?thesis using get_lagrange_coeff_value [OF assms, of pos] by (simp add: node_coeff_def)
next
  case False
  then show ?thesis unfolding get_lagrange_coeff_def by auto
qed

text \<open>The field of seven elements, with inverses by Fermat's theorem.\<close>

definition demo_fr :: fr_lib where
  "demo_fr = \<lparr>fr_mod = 7, fr_add = (\<lambda>x y. (x + y) mod 7), fr_mul = (\<lambda>x y. (x * y) mod 7),
     fr_inv = (\<lambda>x. x ^ 5 mod 7), fr_int32 = (\<lambda>k. k mod 7), fr_poly = (\<lambda>as x. poly_value as x mod 7)\<rparr>"

lemma demo_fr_ok [simp]: "fr_ok demo_fr"
proof -
  have "{2..<7::int} = set [2, 3, 4, 5, 6]" by auto
  then have "prime_int 7" unfolding prime_int_def by (simp add: dvd_def) presburger
  moreover have "(x ^ 5 mod 7 * x) mod 7 = 1" if "in_field 7 x" "x \<noteq> 0" for x :: int
  proof -
    have "x \<in> set [1, 2, 3, 4, 5, 6]" using that by (auto simp: in_field_def)
    then show ?thesis by auto
  qed
  ultimately show ?thesis by (simp add: fr_ok_def demo_fr_def)
qed

lemma demo_fr_mod [simp]: "fr_mod demo_fr = 7"
  by (simp add: demo_fr_def)

theorem lagrange_coefficient_witness:
  "get_lagrange_coeff demo_fr 4 2 = Inr 1 \<and> get_lagrange_coeff demo_fr 4 0 = Inl Invalid_length"
  using lagrange_coefficient [of demo_fr 4 2] lagrange_coefficient [of demo_fr 4 0]
  by (simp add: numeral_eq_Suc)

text \<open>C34: shares of a secret, weighted with the coefficients of all \<open>n\<close> nodes, recover the
  secret whenever the threshold is below \<open>n\<close>.\<close>
theorem share_recover_roundtrip:
  assumes "fr_ok L" "int n < fr_mod L" "length rnd < n" "\<forall>a \<in> set (s # rnd). in_field (fr_mod L) a" "length sh0 = n"
  shows "\<exists>shares coeffs. set_share L rnd sh0 s n = Inr shares \<and>
    map (get_lagrange_coeff L n) [1..<Suc n] = map Inr coeffs \<and> recover_share L coeffs shares = Inr s"
proof -
  let ?r = "fr_mod L" and ?f = "poly_value (s # rnd)"
  have r: "1 < ?r" using fr_okD(2) [OF assms(1)] .
  let ?sh = "map (\<lambda>pos. ?f (int (pos + 1)) mod ?r) [0..<n]" and ?co = "map (\<lambda>i. node_coeff n i mod ?r) [1..<Suc n]"
  have co: "map (get_lagrange_coeff L n) [1..<Suc n] = map Inr ?co"
    using get_lagrange_coeff_value [OF assms(1,2)] by (auto simp del: upt_Suc)
  have "recover_share L ?co ?sh = Inr ((\<Sum>i<n. ?co ! i * ?sh ! i) mod ?r)"
    using recover_loop [OF assms(1), of ?co ?sh n] assms(3) r
    by (auto simp: recover_share_def simp del: poly_value.simps upt_Suc)
  moreover have "(\<Sum>i<n. ?co ! i * ?sh ! i) mod ?r = (\<Sum>i<n. node_coeff n (Suc i) * ?f (int (Suc i))) mod ?r"
  proof -
    have "(\<Sum>i<n. ?co ! i * ?sh ! i) mod ?r = (\<Sum>i<n. (?co ! i * ?sh ! i) mod ?r) mod ?r"
      by (rule mod_sum_eq [symmetric])
    also have "\<dots> = (\<Sum>i<n. (node_coeff n (Suc i) * ?f (int (Suc i))) mod ?r) mod ?r"
      by (rule arg_cong [where f = "\<lambda>x. x mod ?r"], rule sum.cong)
        (simp_all add: mod_mult_eq del: poly_value.simps upt_Suc)
    finally show ?thesis by (simp only: mod_sum_eq)
  qed
  moreover have "(\<Sum>i<n. node_coeff n (Suc i) * ?f (int (Suc i))) = (\<Sum>i\<leftarrow>[1..<Suc n]. node_coeff n i * ?f (int i))"
  proof -
    have "[1..<Suc n] = map Suc [0..<n]" by (simp add: map_Suc_upt)
    then show ?thesis by (simp add: interv_sum_list_conv_sum_set_nat atLeast0LessThan comp_def del: poly_value.simps upt_Suc)
  qed
  moreover have "(\<Sum>i\<leftarrow>[1..<Suc n]. node_coeff n i * ?f (int i)) = s"
    using interpolation_at_zero [of "s # rnd" n] assms(3) by simp
  moreover have "s mod ?r = s" using assms(4) r in_field_id by simp
  ultimately have "recover_share L ?co ?sh = Inr s" by (simp only:)
  moreover have "set_share L rnd sh0 s n = Inr ?sh" using set_share_value [OF assms(1,4)] assms(5) by simp
  ultimately show ?thesis using co by blast
qed

theorem share_recover_roundtrip_witness:
  "\<exists>shares coeffs. set_share demo_fr [4, 2] [0, 0, 0, 0] 5 4 = Inr shares \<and>
    map (get_lagrange_coeff demo_fr 4) [1..<5] = map Inr coeffs \<and> recover_share demo_fr coeffs shares = Inr 5"
  using share_recover_roundtrip [of demo_fr 4 "[4, 2]" 5 "[0, 0, 0, 0]"]
  by (simp add: in_field_def numeral_eq_Suc del: upt_Suc)

end
