(* ===== verification/Octet.thy ===== *)
theory Octet
  imports Prelude "HOL-Library.Word"
begin

text \<open>
  The byte stream that carries every message: \<open>octetStream\<close> of \<open>Tools/octetStream.h\<close> and
  \<open>Tools/octetStream.cpp\<close>, with the length encoding of \<open>Networking/data.h\<close>. The state is the
  allocated memory with its write and read heads; a copy that does not fit is the failure
  \<open>Out_of_range\<close>, so that the absence of overflows is a statement of the model.
\<close>

section \<open>The stream\<close>

type_synonym octet = "8 word"

record octet_stream =
  os_len :: nat
  os_mxlen :: nat
  os_ptr :: nat
  os_data :: "octet list"

type_synonym 'a ostm = "(octet_stream, 'a) m"

definition os_empty :: octet_stream where
  "os_empty = \<lparr>os_len = 0, os_mxlen = 0, os_ptr = 0, os_data = []\<rparr>"

definition os_new :: "nat \<Rightarrow> octet_stream" where
  "os_new maxlen = \<lparr>os_len = 0, os_mxlen = maxlen, os_ptr = 0, os_data = replicate maxlen 0\<rparr>"

text \<open>\<open>memcpy(data + pos, bs)\<close>.\<close>

definition os_write :: "nat \<Rightarrow> octet list \<Rightarrow> unit ostm" where
  "os_write pos bs =
     bnd (gets os_mxlen) (\<lambda>mx.
     bnd (check (pos + length bs \<le> mx) Out_of_range) (\<lambda>_.
     modify (\<lambda>s. s\<lparr>os_data := take pos (os_data s) @ bs @ drop (pos + length bs) (os_data s)\<rparr>)))"

text \<open>New memory is not initialised; its content is written as zeros, and never read.\<close>

definition resize_precise :: "nat \<Rightarrow> unit ostm" where
  "resize_precise l =
     modify (\<lambda>s. if l = os_mxlen s then s
       else let k = min (os_len s) l in s\<lparr>os_data := take k (os_data s) @ replicate (l - k) 0, os_mxlen := l\<rparr>)"

definition os_resize :: "nat \<Rightarrow> unit ostm" where
  "os_resize l = bnd (gets os_mxlen) (\<lambda>mx. if l < mx then ret () else resize_precise (2 * l))"

definition resize_min :: "nat \<Rightarrow> unit ostm" where
  "resize_min l = bnd (gets os_mxlen) (\<lambda>mx. if l > mx then resize_precise l else ret ())"

definition os_reserve :: "nat \<Rightarrow> unit ostm" where
  "os_reserve l =
     bnd (gets os_len) (\<lambda>len. bnd (gets os_mxlen) (\<lambda>mx.
     if len + l > mx then resize_precise (len + l) else ret ()))"

definition advance :: "nat \<Rightarrow> unit ostm" where
  "advance l = modify (\<lambda>s. s\<lparr>os_len := os_len s + l\<rparr>)"

definition os_append :: "octet list \<Rightarrow> unit ostm" where
  "os_append x =
     bnd (gets os_len) (\<lambda>len. bnd (gets os_mxlen) (\<lambda>mx.
     bnd (if len + length x > mx then os_resize (len + length x) else ret ()) (\<lambda>_.
     bnd (advance (length x)) (\<lambda>_. os_write len x))))"

definition append_no_resize :: "octet list \<Rightarrow> unit ostm" where
  "append_no_resize x = bnd (gets os_len) (\<lambda>len. bnd (os_write len x) (\<lambda>_. advance (length x)))"

definition os_consume :: "nat \<Rightarrow> octet list ostm" where
  "os_consume l =
     bnd (gets os_ptr) (\<lambda>ptr. bnd (gets os_len) (\<lambda>len.
     bnd (check (\<not> ptr + l > len) (Runtime_error ''insufficient data'')) (\<lambda>_.
     bnd (gets (\<lambda>s. take l (drop ptr (os_data s)))) (\<lambda>res.
     bnd (modify (\<lambda>s. s\<lparr>os_ptr := ptr + l\<rparr>)) (\<lambda>_. ret res)))))"

definition reset_read_head :: "octet_stream \<Rightarrow> octet_stream" where
  "reset_read_head s = s\<lparr>os_ptr := 0\<rparr>"

definition reset_write_head :: "octet_stream \<Rightarrow> octet_stream" where
  "reset_write_head s = s\<lparr>os_len := 0, os_ptr := 0\<rparr>"

text \<open>\<open>num\<close> bytes of a generator, which are an argument.\<close>

definition append_random :: "octet list \<Rightarrow> unit ostm" where
  "append_random rnd =
     bnd (gets os_len) (\<lambda>len. bnd (os_resize (len + length rnd)) (\<lambda>_.
     bnd (os_write len rnd) (\<lambda>_. advance (length rnd))))"

definition os_concat :: "octet_stream \<Rightarrow> unit ostm" where
  "os_concat os =
     bnd (gets os_len) (\<lambda>len. bnd (os_resize (len + os_len os)) (\<lambda>_.
     bnd (os_write len (take (os_len os) (os_data os))) (\<lambda>_. advance (os_len os))))"

definition os_assign :: "octet_stream \<Rightarrow> unit ostm" where
  "os_assign os =
     bnd (modify (\<lambda>s. if os_len os \<ge> os_mxlen s
       then s\<lparr>os_mxlen := os_mxlen os, os_data := replicate (os_mxlen os) 0\<rparr> else s)) (\<lambda>_.
     bnd (modify (\<lambda>s. s\<lparr>os_len := os_len os\<rparr>)) (\<lambda>_.
     bnd (os_write 0 (take (os_len os) (os_data os))) (\<lambda>_.
     modify (\<lambda>s. s\<lparr>os_ptr := os_ptr os\<rparr>))))"

definition os_equals :: "octet_stream \<Rightarrow> octet_stream \<Rightarrow> bool" where
  "os_equals s a = (if os_len s \<noteq> os_len a then False
     else take (os_len s) (os_data s) = take (os_len s) (os_data a))"

section \<open>Numbers\<close>

text \<open>The low \<open>n\<close> bytes of a 64-bit number, least significant first.\<close>

definition le_bytes :: "nat \<Rightarrow> 64 word \<Rightarrow> octet list" where
  "le_bytes n x = map (\<lambda>i. word_of_nat (unat x div 256 ^ i)) [0..<n]"

definition encode_length :: "64 word \<Rightarrow> nat \<Rightarrow> err + octet list" where
  "encode_length len n_bytes =
     (if n_bytes > 8 then Inl Invalid_length
      else if n_bytes < 8 \<and>
        (let upper = sint len div 2 ^ (8 * n_bytes) in upper \<noteq> 0 \<and> upper \<noteq> - 1)
      then Inl Invalid_length
      else Inr (le_bytes n_bytes len))"

fun le_value :: "octet list \<Rightarrow> nat" where
  "le_value [] = 0"
| "le_value (b # bs) = unat b + 256 * le_value bs"

definition decode_length :: "octet list \<Rightarrow> err + 64 word" where
  "decode_length bs = (if length bs > 8 then Inl Invalid_length else Inr (word_of_nat (le_value bs)))"

definition lift :: "err + 'a \<Rightarrow> ('s, 'a) m" where
  "lift r = (case r of Inl e \<Rightarrow> throw e | Inr x \<Rightarrow> ret x)"

definition store_int :: "64 word \<Rightarrow> nat \<Rightarrow> unit ostm" where
  "store_int a n_bytes =
     bnd (gets os_len) (\<lambda>len. bnd (os_resize (len + n_bytes)) (\<lambda>_.
     bnd (lift (encode_length a n_bytes)) (\<lambda>bs.
     bnd (os_write len bs) (\<lambda>_. advance n_bytes))))"

definition get_int :: "nat \<Rightarrow> (64 word) ostm" where
  "get_int n_bytes = bnd (os_consume n_bytes) (\<lambda>bs. lift (decode_length bs))"

text \<open>The versions whose width is a template argument do not check the range.\<close>

definition store_int_N :: "nat \<Rightarrow> 64 word \<Rightarrow> unit ostm" where
  "store_int_N N l =
     bnd (check (N \<le> 8) Assertion_failed) (\<lambda>_. bnd (gets os_len) (\<lambda>len.
     bnd (os_resize (len + N)) (\<lambda>_. bnd (os_write len (le_bytes N l)) (\<lambda>_. advance N))))"

definition get_int_N :: "nat \<Rightarrow> (64 word) ostm" where
  "get_int_N N = bnd (check (N \<le> 8) Assertion_failed) (\<lambda>_.
     bnd (os_consume N) (\<lambda>bs. ret (word_of_nat (le_value bs))))"

definition store_uint :: "32 word \<Rightarrow> unit ostm" where
  "store_uint a = store_int (ucast a) 4"

definition get_uint :: "(32 word) ostm" where
  "get_uint = bnd (get_int 4) (\<lambda>a. ret (ucast a))"

text \<open>\<open>store(int)\<close>: the argument is converted to \<open>size_t\<close> with its sign.\<close>

definition store_sint :: "32 word \<Rightarrow> unit ostm" where
  "store_sint l =
     bnd (gets os_len) (\<lambda>len. bnd (os_resize (len + 4)) (\<lambda>_.
     bnd (lift (encode_length (scast l) 4)) (\<lambda>bs. bnd (os_write len bs) (\<lambda>_. advance 4))))"

definition get_sint :: "(32 word) ostm" where
  "get_sint = bnd (get_int 4) (\<lambda>l. ret (ucast l))"

definition store_size :: "64 word \<Rightarrow> unit ostm" where
  "store_size a = store_int a 8"

definition get_size :: "(64 word) ostm" where
  "get_size = get_int 8"

section \<open>Byte strings, big integers and vectors\<close>

definition store_bytes :: "octet list \<Rightarrow> unit ostm" where
  "store_bytes x =
     bnd (gets os_len) (\<lambda>len. bnd (os_resize (len + 4 + length x)) (\<lambda>_.
     bnd (lift (encode_length (word_of_nat (length x)) 4)) (\<lambda>bs.
     bnd (os_write len bs) (\<lambda>_. bnd (advance 4) (\<lambda>_.
     bnd (os_write (len + 4) x) (\<lambda>_. advance (length x)))))))"

definition get_bytes :: "octet list ostm" where
  "get_bytes = bnd (get_int 4) (\<lambda>len. os_consume (unat len))"

text \<open>
  GMP's \<open>mpz_sizeinbase(x, 256)\<close>, \<open>mpz_export\<close> and \<open>mpz_import\<close> with the most significant
  byte first, with what GMP documents of them.
\<close>

record gmp_lib =
  sizeinbase256 :: "int \<Rightarrow> nat"
  mpz_export :: "int \<Rightarrow> octet list"
  mpz_import :: "octet list \<Rightarrow> int"

definition gmp_ok :: "gmp_lib \<Rightarrow> bool" where
  "gmp_ok G \<longleftrightarrow> sizeinbase256 G 0 = 1 \<and> mpz_export G 0 = [] \<and> mpz_import G [0] = 0 \<and>
     (\<forall>x. x \<noteq> 0 \<longrightarrow> length (mpz_export G x) = sizeinbase256 G x \<and> mpz_export G x \<noteq> [] \<and>
        mpz_import G (mpz_export G x) = \<bar>x\<bar>)"

definition bytesFromBigint :: "gmp_lib \<Rightarrow> int \<Rightarrow> nat \<Rightarrow> err + octet list" where
  "bytesFromBigint G x len =
     (let bs = mpz_export G x; ll = length bs
      in if ll > len then Inl Invalid_length else Inr (bs @ replicate (len - ll) 0))"

definition store_bigint :: "gmp_lib \<Rightarrow> int \<Rightarrow> unit ostm" where
  "store_bigint G x =
     (let num = sizeinbase256 G x in
      bnd (gets os_len) (\<lambda>len. bnd (os_resize (len + (num + 5))) (\<lambda>_.
      bnd (os_write len [if x < 0 then 1 else 0]) (\<lambda>_. bnd (advance 1) (\<lambda>_.
      bnd (lift (encode_length (word_of_nat num) 4)) (\<lambda>bs.
      bnd (os_write (len + 1) bs) (\<lambda>_. bnd (advance 4) (\<lambda>_.
      bnd (lift (bytesFromBigint G x num)) (\<lambda>bs.
      bnd (os_write (len + 5) bs) (\<lambda>_. advance num))))))))))"

definition get_bigint :: "gmp_lib \<Rightarrow> int ostm" where
  "get_bigint G =
     bnd (os_consume 1) (\<lambda>sg.
     let sign = unat (hd sg) in
     bnd (check (\<not> (sign \<noteq> 0 \<and> sign \<noteq> 1)) Bad_value) (\<lambda>_.
     bnd (get_int 4) (\<lambda>len.
     if len \<noteq> 0
     then bnd (os_consume (unat len)) (\<lambda>bs.
          let ans = mpz_import G bs in ret (if sign = 1 then - ans else ans))
     else ret 0)))"

definition store_vec :: "('a \<Rightarrow> unit ostm) \<Rightarrow> 'a list \<Rightarrow> unit ostm" where
  "store_vec st v = bnd (store_size (word_of_nat (length v))) (\<lambda>_. bnd (mapM st v) (\<lambda>_. ret ()))"

definition get_vec :: "'a ostm \<Rightarrow> 'a list ostm" where
  "get_vec gt = bnd get_size (\<lambda>size. mapM (\<lambda>_. gt) [0..<unat size])"

definition get_no_resize :: "'a ostm \<Rightarrow> nat \<Rightarrow> 'a list ostm" where
  "get_no_resize gt n =
     bnd get_size (\<lambda>size. bnd (check (unat size = n) (Runtime_error ''wrong vector length'')) (\<lambda>_.
     mapM (\<lambda>_. gt) [0..<n]))"

text \<open>The frame on the wire: the length in four bytes, then the bytes.\<close>

definition os_Send :: "octet_stream \<Rightarrow> err + octet list" where
  "os_Send s =
     (case encode_length (word_of_nat (os_len s)) 4 of Inl e \<Rightarrow> Inl e
      | Inr bs \<Rightarrow> Inr (bs @ take (os_len s) (os_data s)))"

text \<open>\<open>Receive\<close> reads from the socket, which delivers \<open>wire\<close>, and returns what it left.\<close>

definition os_Receive :: "octet list \<Rightarrow> octet list ostm" where
  "os_Receive wire =
     bnd (check (4 \<le> length wire) (Runtime_error ''receive'')) (\<lambda>_.
     bnd (lift (decode_length (take 4 wire))) (\<lambda>nlen.
     let n = unat nlen; rest = drop 4 wire in
     bnd (modify (\<lambda>s. s\<lparr>os_len := 0\<rparr>)) (\<lambda>_.
     bnd (resize_min n) (\<lambda>_.
     bnd (modify (\<lambda>s. s\<lparr>os_len := n\<rparr>)) (\<lambda>_.
     bnd (check (n \<le> length rest) (Runtime_error ''receive'')) (\<lambda>_.
     bnd (os_write 0 (take n rest)) (\<lambda>_.
     bnd (modify reset_read_head) (\<lambda>_. ret (drop n rest)))))))))"

section \<open>Written and unread bytes\<close>

definition os_ok :: "octet_stream \<Rightarrow> bool" where
  "os_ok s \<longleftrightarrow> os_ptr s \<le> os_len s \<and> os_len s \<le> os_mxlen s \<and> length (os_data s) = os_mxlen s"

definition written :: "octet_stream \<Rightarrow> octet list" where
  "written s = take (os_len s) (os_data s)"

definition unread :: "octet_stream \<Rightarrow> octet list" where
  "unread s = drop (os_ptr s) (written s)"

text \<open>\<open>p\<close> appends \<open>bs\<close> to what is written; \<open>p\<close> takes \<open>bs\<close> from what is unread and returns \<open>x\<close>.\<close>

definition appends :: "unit ostm \<Rightarrow> octet list \<Rightarrow> bool" where
  "appends p bs \<longleftrightarrow> (\<forall>s. os_ok s \<longrightarrow>
     (\<exists>t. p s = Inr ((), t) \<and> os_ok t \<and> written t = written s @ bs \<and> os_ptr t = os_ptr s))"

definition reads :: "'a ostm \<Rightarrow> octet list \<Rightarrow> 'a \<Rightarrow> bool" where
  "reads p bs x \<longleftrightarrow> (\<forall>s r. os_ok s \<longrightarrow> unread s = bs @ r \<longrightarrow>
     (\<exists>t. p s = Inr (x, t) \<and> os_ok t \<and> unread t = r \<and> written t = written s))"

lemma length_written [simp]: "os_ok s \<Longrightarrow> length (written s) = os_len s"
  by (simp add: os_ok_def written_def)

lemma os_empty_ok [simp]: "os_ok os_empty" "written os_empty = []" "unread os_empty = []"
  by (simp_all add: os_ok_def os_empty_def written_def unread_def)

lemma appends_ret: "appends (ret ()) []"
  by (simp add: appends_def ret_def)

lemma appends_bnd: "appends p a \<Longrightarrow> appends q b \<Longrightarrow> appends (bnd p (\<lambda>_. q)) (a @ b)"
  unfolding appends_def bnd_def by fastforce

lemma reads_ret: "reads (ret x) [] x"
  by (simp add: reads_def ret_def)

lemma reads_bnd: "reads p a x \<Longrightarrow> reads (f x) b y \<Longrightarrow> reads (bnd p f) (a @ b) y"
  unfolding reads_def bnd_def by fastforce

lemma reads_bnd_ret: "reads p a x \<Longrightarrow> f x = ret y \<Longrightarrow> reads (bnd p f) a y"
  using reads_bnd [of p a x f "[]" y] reads_ret [of y] by simp

lemma reads_check: "b \<Longrightarrow> reads (check b e) [] ()"
  by (simp add: reads_ret)

text \<open>Room for \<open>n\<close> more bytes.\<close>

definition room :: "nat \<Rightarrow> octet_stream \<Rightarrow> bool" where
  "room n s \<longleftrightarrow> os_ok s \<and> os_len s + n \<le> os_mxlen s"

lemma resize_room:
  assumes "os_ok s"
  shows "\<exists>t. os_resize (os_len s + n) s = Inr ((), t) \<and> room n t \<and> written t = written s \<and>
    os_ptr t = os_ptr s \<and> os_len t = os_len s"
  using assms
  by (auto simp: os_resize_def resize_precise_def monad_defs room_def os_ok_def written_def Let_def min_def)

lemma write_room:
  assumes "room n s" "length bs \<le> n"
  shows "\<exists>t. os_write (os_len s) bs s = Inr ((), t) \<and> room n t \<and> os_ptr t = os_ptr s \<and> os_len t = os_len s \<and>
    (\<exists>u. advance (length bs) t = Inr ((), u) \<and> room (n - length bs) u \<and> written u = written s @ bs \<and>
      os_ptr u = os_ptr s \<and> os_len u = os_len s + length bs)"
  using assms
  by (auto simp: os_write_def advance_def monad_defs room_def os_ok_def written_def)

lemma appends_resize_write:
  assumes "length bs = n"
  shows "appends (bnd (gets os_len) (\<lambda>len. bnd (os_resize (len + n)) (\<lambda>_.
    bnd (os_write len bs) (\<lambda>_. advance n)))) bs"
  unfolding appends_def
proof (intro allI impI)
  fix s assume s: "os_ok s"
  obtain t where t: "os_resize (os_len s + n) s = Inr ((), t)" "room n t" "written t = written s"
      "os_ptr t = os_ptr s" "os_len t = os_len s" using resize_room [OF s] by blast
  have "length bs \<le> n" using assms by simp
  from write_room [OF t(2) this] t obtain v u where "os_write (os_len s) bs t = Inr ((), v)"
      "advance n v = Inr ((), u)" "room 0 u" "written u = written s @ bs" "os_ptr u = os_ptr s"
    using assms by auto
  then show "\<exists>t. bnd (gets os_len) (\<lambda>len. bnd (os_resize (len + n)) (\<lambda>_.
      bnd (os_write len bs) (\<lambda>_. advance n))) s = Inr ((), t) \<and> os_ok t \<and> written t = written s @ bs \<and> os_ptr t = os_ptr s"
    using t(1) by (auto simp: bnd_def gets_def room_def)
qed

lemma appends_random: "appends (append_random rnd) rnd"
  unfolding append_random_def by (rule appends_resize_write) simp

lemma appends_concat: "os_ok os \<Longrightarrow> appends (os_concat os) (written os)"
  unfolding os_concat_def written_def by (rule appends_resize_write) (simp add: os_ok_def)

lemma appends_append: "appends (os_append x) x"
  unfolding appends_def
proof (intro allI impI)
  fix s assume s: "os_ok s"
  let ?n = "length x"
  let ?p = "if os_len s + ?n > os_mxlen s then os_resize (os_len s + ?n) else ret ()"
  have "\<exists>t. ?p s = Inr ((), t) \<and> room ?n t \<and> written t = written s \<and> os_ptr t = os_ptr s \<and> os_len t = os_len s"
  proof (cases "os_len s + ?n > os_mxlen s")
    case True
    then show ?thesis using resize_room [OF s] by simp
  next
    case False
    then show ?thesis using s by (simp add: ret_def room_def)
  qed
  then obtain t where t: "?p s = Inr ((), t)" "room ?n t" "written t = written s" "os_ptr t = os_ptr s"
      "os_len t = os_len s" by blast
  have "os_append x s = bnd (advance ?n) (\<lambda>_. os_write (os_len s) x) t"
    using t(1) by (simp only: os_append_def bnd_def gets_def sum.case prod.case)
  then show "\<exists>t. os_append x s = Inr ((), t) \<and> os_ok t \<and> written t = written s @ x \<and> os_ptr t = os_ptr s"
    using t s by (simp add: os_write_def advance_def monad_defs room_def os_ok_def written_def)
qed

lemma reads_consume: "length bs = l \<Longrightarrow> reads (os_consume l) bs bs"
  unfolding reads_def
proof (intro allI impI)
  fix s r assume l: "length bs = l" and s: "os_ok s" and u: "unread s = bs @ r"
  have n: "length (unread s) = os_len s - os_ptr s" using s by (simp add: unread_def)
  moreover have "l \<le> length (unread s)" "os_ptr s \<le> os_len s" using s u l by (simp_all add: os_ok_def)
  ultimately have p: "os_ptr s + l \<le> os_len s" by linarith
  have "take l (drop (os_ptr s) (os_data s)) = take l (unread s)"
    using p by (simp add: unread_def written_def drop_take min_def)
  also have "\<dots> = bs" using u l by simp
  finally have t: "take l (drop (os_ptr s) (os_data s)) = bs" .
  have "drop (os_ptr s + l) (written s) = drop l (unread s)" by (simp add: unread_def add.commute)
  also have "\<dots> = r" using u l by simp
  finally have r: "drop (os_ptr s + l) (written s) = r" .
  show "\<exists>t. os_consume l s = Inr (bs, t) \<and> os_ok t \<and> unread t = r \<and> written t = written s"
    using p s t r by (auto simp: os_consume_def monad_defs os_ok_def unread_def written_def)
qed

lemma consume_insufficient:
  assumes "os_ok s" "length (unread s) < l"
  shows "os_consume l s = Inl (Runtime_error ''insufficient data'')"
proof -
  have "length (unread s) = os_len s - os_ptr s" using assms(1) by (simp add: unread_def)
  then have "os_ptr s + l > os_len s" using assms by (simp add: os_ok_def)
  then show ?thesis by (simp add: os_consume_def monad_defs)
qed

section \<open>Codecs\<close>

lemma le_value_bytes: "le_value (map (\<lambda>i. word_of_nat (k div 256 ^ i)) [0..<n]) = k mod 256 ^ n"
proof (induction n arbitrary: k)
  case 0
  then show ?case by simp
next
  case (Suc n)
  have "map (\<lambda>i. word_of_nat (k div 256 ^ i)) [0..<Suc n] =
      (word_of_nat k :: octet) # map (\<lambda>i. word_of_nat (k div 256 div 256 ^ i)) [0..<n]"
    by (simp add: map_upt_Suc div_mult2_eq del: upt_Suc)
  then have "le_value (map (\<lambda>i. word_of_nat (k div 256 ^ i)) [0..<Suc n]) =
      k mod 256 + 256 * (k div 256 mod 256 ^ n)"
    using Suc.IH by (simp add: unat_of_nat take_bit_eq_mod del: upt_Suc)
  also have "\<dots> = k mod (256 * 256 ^ n)" by (simp add: mod_mult2_eq)
  finally show ?case by simp
qed

lemma length_le_bytes [simp]: "length (le_bytes n x) = n"
  by (simp add: le_bytes_def)

lemma le_value_le_bytes [simp]: "le_value (le_bytes n x) = unat x mod 256 ^ n"
  unfolding le_bytes_def by (rule le_value_bytes)

text \<open>The numbers a field of \<open>n\<close> bytes accepts.\<close>

definition fits :: "nat \<Rightarrow> 64 word \<Rightarrow> bool" where
  "fits n x \<longleftrightarrow> n = 8 \<or> n < 8 \<and> (sint x div 2 ^ (8 * n) = 0 \<or> sint x div 2 ^ (8 * n) = - 1)"

lemma encode_fits: "fits n x \<Longrightarrow> encode_length x n = Inr (le_bytes n x)"
  by (auto simp: fits_def encode_length_def Let_def)

lemma encode_rejects: "\<not> fits n x \<Longrightarrow> encode_length x n = Inl Invalid_length"
  by (auto simp: fits_def encode_length_def Let_def)

lemma decode_le_bytes: "n \<le> 8 \<Longrightarrow> decode_length (le_bytes n x) = Inr (word_of_nat (unat x mod 256 ^ n))"
  by (simp add: decode_length_def)

lemma appends_store_int: "fits n x \<Longrightarrow> appends (store_int x n) (le_bytes n x)"
  using appends_resize_write [of "le_bytes n x" n]
  by (simp add: store_int_def encode_fits lift_def)

lemma reads_get_int: "n \<le> 8 \<Longrightarrow> reads (get_int n) (le_bytes n x) (word_of_nat (unat x mod 256 ^ n))"
  unfolding get_int_def
  by (rule reads_bnd_ret [OF reads_consume]) (simp_all add: decode_le_bytes lift_def)

locale codec =
  fixes st :: "'a \<Rightarrow> unit ostm" and gt :: "'a ostm" and enc :: "'a \<Rightarrow> octet list" and dom :: "'a \<Rightarrow> bool"
  assumes store: "dom x \<Longrightarrow> appends (st x) (enc x)"
    and load: "dom x \<Longrightarrow> reads gt (enc x) x"
begin

text \<open>What is stored when everything has been read is what is read next.\<close>

lemma roundtrip:
  assumes s: "os_ok s" "unread s = []" and x: "dom x"
  shows "\<exists>t u. st x s = Inr ((), t) \<and> os_ok t \<and> written t = written s @ enc x \<and>
    gt t = Inr (x, u) \<and> os_ok u \<and> unread u = [] \<and> written u = written t"
proof -
  obtain t where t: "st x s = Inr ((), t)" "os_ok t" "written t = written s @ enc x" "os_ptr t = os_ptr s"
    using store [OF x] s(1) by (auto simp: appends_def)
  have "os_ptr s = os_len s" using s by (simp add: unread_def os_ok_def)
  then have "unread t = enc x @ []" using t(3,4) s(1) by (simp add: unread_def)
  then show ?thesis using load [OF x] t unfolding reads_def by blast
qed

lemma store_all: "\<forall>x \<in> set xs. dom x \<Longrightarrow> appends (bnd (mapM st xs) (\<lambda>_. ret ())) (concat (map enc xs))"
proof (induction xs)
  case Nil
  then show ?case by (simp add: appends_ret)
next
  case (Cons x xs)
  have "bnd (mapM st (x # xs)) (\<lambda>_. ret ()) = bnd (st x) (\<lambda>_. bnd (mapM st xs) (\<lambda>_. ret ()))"
    by (simp add: bnd_assoc)
  then show ?case using appends_bnd [OF store, of x] Cons by simp
qed

lemma load_all: "\<forall>x \<in> set xs. dom x \<Longrightarrow> length is = length xs \<Longrightarrow>
  reads (mapM (\<lambda>_. gt) is) (concat (map enc xs)) xs"
proof (induction xs arbitrary: "is")
  case Nil
  then show ?case by (simp add: reads_ret)
next
  case (Cons x xs)
  then obtain j js where j: "is = j # js" "length js = length xs" by (cases "is") auto
  have "reads (bnd (mapM (\<lambda>_. gt) js) (\<lambda>ys. ret (x # ys))) (concat (map enc xs)) (x # xs)"
    using Cons.prems(1) by (intro reads_bnd_ret [OF Cons.IH [OF _ j(2)] refl]) simp
  then show ?case using Cons.prems(1) by (simp add: j(1) reads_bnd [OF load])
qed

end

section \<open>The instances\<close>

lemma uint_fits: "fits 4 (ucast (a :: 32 word))"
proof -
  have "uint (ucast a :: 64 word) = uint a" using uint_bounded [of a] by (simp add: unsigned_ucast_eq take_bit_int_eq_self)
  moreover have "signed_take_bit 63 (uint a) = uint a"
    using uint_bounded [of a] by (intro signed_take_bit_int_eq_self) (simp_all add: order_trans [OF _ uint_ge_0])
  ultimately show ?thesis using uint_bounded [of a] by (simp add: fits_def sint_uint)
qed

lemma sint_fits: "fits 4 (scast (a :: 32 word))"
proof -
  have b: "- (2 ^ 31) \<le> sint a" "sint a < 2 ^ 31" using sint_ge [of a] sint_lt [of a] by simp_all
  have "sint (scast a :: 64 word) = sint a"
    using b by (simp add: signed_scast_eq signed_take_bit_int_eq_self)
  moreover have "sint a div 2 ^ 32 = 0 \<or> sint a div 2 ^ 32 = - 1"
  proof (cases "0 \<le> sint a")
    case True
    then show ?thesis using b by simp
  next
    case False
    then have "(sint a + 2 ^ 32) div 2 ^ 32 = 0" using b by (intro div_pos_pos_trivial) simp_all
    moreover have "(sint a + 2 ^ 32) div 2 ^ 32 = sint a div 2 ^ 32 + 1" by (rule div_add_self2) simp
    ultimately show ?thesis by simp
  qed
  ultimately show ?thesis by (simp add: fits_def)
qed

lemma size_fits: "fits 8 x"
  by (simp add: fits_def)

lemma unat_of_nat_32: "n < 2 ^ 32 \<Longrightarrow> unat (word_of_nat n :: 64 word) = n"
  by (simp add: unat_of_nat take_bit_nat_eq_self)

lemma length_fits: "n < 2 ^ 32 \<Longrightarrow> fits 4 (word_of_nat n)"
  using uint_fits [of "word_of_nat n"]
  by (simp add: unsigned_of_nat ucast_eq take_bit_nat_eq_self)

lemma four_bytes: "(256 :: nat) ^ 4 = 2 ^ 32" "(256 :: nat) ^ 8 = 2 ^ 64"
  by simp_all

lemma ucast_low: "ucast (word_of_nat (unat (x :: 64 word) mod 256 ^ 4) :: 64 word) = (ucast x :: 32 word)"
  unfolding four_bytes take_bit_eq_mod [symmetric] by (rule bit_word_eqI) (simp add: bit_simps)

interpretation uint: codec store_uint get_uint "\<lambda>a. le_bytes 4 (ucast a)" "\<lambda>_. True"
proof
  fix a :: "32 word"
  show "appends (store_uint a) (le_bytes 4 (ucast a))"
    unfolding store_uint_def by (rule appends_store_int [OF uint_fits])
  have "ucast (ucast a :: 64 word) = a" by (rule bit_word_eqI) (simp add: bit_simps)
  then show "reads get_uint (le_bytes 4 (ucast a)) a"
    unfolding get_uint_def
    by (intro reads_bnd_ret [OF reads_get_int]) (simp_all add: ucast_low del: power_numeral)
qed

interpretation sint: codec store_sint get_sint "\<lambda>a. le_bytes 4 (scast a)" "\<lambda>_. True"
proof
  fix a :: "32 word"
  show "appends (store_sint a) (le_bytes 4 (scast a))"
    using appends_resize_write [of "le_bytes 4 (scast a)" 4]
    by (simp add: store_sint_def encode_fits [OF sint_fits] lift_def)
  have "ucast (scast a :: 64 word) = a" by (rule bit_word_eqI) (simp add: bit_simps)
  then show "reads get_sint (le_bytes 4 (scast a)) a"
    unfolding get_sint_def
    by (intro reads_bnd_ret [OF reads_get_int]) (simp_all add: ucast_low del: power_numeral)
qed

interpretation size: codec store_size get_size "le_bytes 8" "\<lambda>_. True"
proof
  fix a :: "64 word"
  show "appends (store_size a) (le_bytes 8 a)"
    unfolding store_size_def by (rule appends_store_int [OF size_fits])
  have "unat a < 2 ^ 64" by (rule order_less_le_trans [OF unsigned_less]) simp
  then have "unat a mod 256 ^ 8 = unat a" by (simp add: four_bytes)
  then show "reads get_size (le_bytes 8 a) a"
    unfolding get_size_def using reads_get_int [of 8 a] by simp
qed

interpretation uints: codec "store_vec store_uint" "get_vec get_uint"
  "\<lambda>v. le_bytes 8 (word_of_nat (length v)) @ concat (map (\<lambda>a. le_bytes 4 (ucast a)) v)" "\<lambda>v. length v < 2 ^ 64"
proof
  fix v :: "32 word list" assume v: "length v < 2 ^ 64"
  show "appends (store_vec store_uint v) (le_bytes 8 (word_of_nat (length v)) @ concat (map (\<lambda>a. le_bytes 4 (ucast a)) v))"
    unfolding store_vec_def by (rule appends_bnd [OF size.store uint.store_all]) simp_all
  have "unat (word_of_nat (length v) :: 64 word) = length v" using v by (simp add: unat_of_nat take_bit_nat_eq_self)
  then show "reads (get_vec get_uint) (le_bytes 8 (word_of_nat (length v)) @ concat (map (\<lambda>a. le_bytes 4 (ucast a)) v)) v"
    unfolding get_vec_def by (intro reads_bnd [OF size.load uint.load_all]) simp_all
qed

text \<open>Two consecutive writes after one enlargement.\<close>

lemma room_writes:
  assumes "room (length a + n) s"
  shows "\<exists>t. os_write (os_len s) a s = Inr ((), t) \<and>
    (\<exists>u. advance (length a) t = Inr ((), u) \<and> room n u \<and> written u = written s @ a \<and>
      os_ptr u = os_ptr s \<and> os_len u = os_len s + length a)"
  using write_room [OF assms, of a] by simp blast

lemma appends_store_bytes:
  assumes "length x < 2 ^ 32"
  shows "appends (store_bytes x) (le_bytes 4 (word_of_nat (length x)) @ x)"
  unfolding appends_def
proof (intro allI impI)
  fix s assume s: "os_ok s"
  let ?h = "le_bytes 4 (word_of_nat (length x))"
  obtain t where t: "os_resize (os_len s + (4 + length x)) s = Inr ((), t)" "room (length ?h + length x) t"
      "written t = written s" "os_ptr t = os_ptr s" "os_len t = os_len s" using resize_room [OF s] by auto
  from room_writes [OF t(2)] obtain t1 u1 where 1: "os_write (os_len t) ?h t = Inr ((), t1)" "advance 4 t1 = Inr ((), u1)"
      "room (length x + 0) u1" "written u1 = written t @ ?h" "os_ptr u1 = os_ptr t" "os_len u1 = os_len t + 4" by auto
  from room_writes [OF 1(3)] obtain t2 u2 where 2: "os_write (os_len u1) x u1 = Inr ((), t2)"
      "advance (length x) t2 = Inr ((), u2)" "room 0 u2" "written u2 = written u1 @ x" "os_ptr u2 = os_ptr u1" by auto
  show "\<exists>t. store_bytes x s = Inr ((), t) \<and> os_ok t \<and> written t = written s @ ?h @ x \<and> os_ptr t = os_ptr s"
    using t 1 2 encode_fits [OF length_fits [OF assms]]
    by (auto simp: store_bytes_def bnd_def gets_def lift_def ret_def room_def add.assoc)
qed

interpretation bytes: codec store_bytes get_bytes "\<lambda>x. le_bytes 4 (word_of_nat (length x)) @ x" "\<lambda>x. length x < 2 ^ 32"
proof
  fix x :: "octet list" assume x: "length x < 2 ^ 32"
  show "appends (store_bytes x) (le_bytes 4 (word_of_nat (length x)) @ x)" by (rule appends_store_bytes [OF x])
  have "unat (word_of_nat (unat (word_of_nat (length x) :: 64 word) mod 256 ^ 4) :: 64 word) = length x"
    using x by (simp add: unat_of_nat_32)
  then show "reads get_bytes (le_bytes 4 (word_of_nat (length x)) @ x) x"
    unfolding get_bytes_def by (intro reads_bnd [OF reads_get_int] reads_consume) simp_all
qed

text \<open>Big integers: the sign, the number of bytes, and the bytes of the magnitude.\<close>

definition bigint_bytes :: "gmp_lib \<Rightarrow> int \<Rightarrow> octet list" where
  "bigint_bytes G x = (if x < 0 then 1 else 0) # le_bytes 4 (word_of_nat (sizeinbase256 G x)) @
     (if x = 0 then [0] else mpz_export G x)"

lemma bytesFromBigint_ok:
  assumes "gmp_ok G"
  shows "bytesFromBigint G x (sizeinbase256 G x) = Inr (if x = 0 then [0] else mpz_export G x)"
  using assms by (auto simp: bytesFromBigint_def gmp_ok_def Let_def)

lemma appends_store_bigint:
  assumes G: "gmp_ok G" and x: "sizeinbase256 G x < 2 ^ 32"
  shows "appends (store_bigint G x) (bigint_bytes G x)"
  unfolding appends_def
proof (intro allI impI)
  fix s assume s: "os_ok s"
  let ?n = "sizeinbase256 G x"
  define sg h b :: "octet list" where "sg = [if x < 0 then 1 else 0]" and "h = le_bytes 4 (word_of_nat ?n)"
    and "b = (if x = 0 then [0] else mpz_export G x)"
  have len: "length sg = 1" "length h = 4" "length b = ?n" using G by (auto simp: sg_def h_def b_def gmp_ok_def)
  obtain t where t: "os_resize (os_len s + (?n + 5)) s = Inr ((), t)" "room (length sg + (length h + (length b + 0))) t"
      "written t = written s" "os_ptr t = os_ptr s" "os_len t = os_len s"
    using resize_room [OF s, of "?n + 5"] len by (auto simp: add.commute)
  from room_writes [OF t(2)] obtain t1 u1 where 1: "os_write (os_len t) sg t = Inr ((), t1)" "advance 1 t1 = Inr ((), u1)"
      "room (length h + (length b + 0)) u1" "written u1 = written t @ sg" "os_ptr u1 = os_ptr t" "os_len u1 = os_len t + 1"
    unfolding len(1) by blast
  from room_writes [OF 1(3)] obtain t2 u2 where 2: "os_write (os_len u1) h u1 = Inr ((), t2)" "advance 4 t2 = Inr ((), u2)"
      "room (length b + 0) u2" "written u2 = written u1 @ h" "os_ptr u2 = os_ptr u1" "os_len u2 = os_len u1 + 4"
    unfolding len(2) by blast
  from room_writes [OF 2(3)] obtain t3 u3 where 3: "os_write (os_len u2) b u2 = Inr ((), t3)" "advance ?n t3 = Inr ((), u3)"
      "room 0 u3" "written u3 = written u2 @ b" "os_ptr u3 = os_ptr u2" unfolding len(3) by blast
  have l: "lift (encode_length (word_of_nat ?n) 4) = (ret h :: octet list ostm)"
    "lift (bytesFromBigint G x ?n) = (ret b :: octet list ostm)"
    by (simp_all only: lift_def encode_fits [OF length_fits [OF x]] bytesFromBigint_ok [OF G] sum.case h_def b_def)
  have "store_bigint G x s = Inr ((), u3)"
    using t(1,5) 1(1,2,6) 2(1,2,6) 3(1,2)
    by (simp add: store_bigint_def l sg_def [symmetric] bnd_def gets_def ret_def Let_def add.commute)
  then show "\<exists>t. store_bigint G x s = Inr ((), t) \<and> os_ok t \<and> written t = written s @ bigint_bytes G x \<and> os_ptr t = os_ptr s"
    using 1(4,5) 2(4,5) 3(3-5) t(3,4) by (simp add: bigint_bytes_def room_def sg_def h_def b_def)
qed

lemma reads_get_bigint:
  assumes G: "gmp_ok G" and x: "sizeinbase256 G x < 2 ^ 32"
  shows "reads (get_bigint G) (bigint_bytes G x) x"
proof -
  let ?n = "sizeinbase256 G x"
  define len :: "64 word" where "len = word_of_nat (unat (word_of_nat ?n :: 64 word) mod 256 ^ 4)"
  define b where "b = (if x = 0 then [0] else mpz_export G x)"
  define sg :: nat where "sg = (if x < 0 then 1 else 0)"
  let ?rest = "\<lambda>len. if len \<noteq> 0 then bnd (os_consume (unat len)) (\<lambda>bs. let ans = mpz_import G bs in
      ret (if sg = 1 then - ans else ans)) else ret 0"
  have b: "length b = ?n" "b \<noteq> []" "mpz_import G b = \<bar>x\<bar>" using G by (auto simp: gmp_ok_def b_def)
  have n: "unat len = ?n" using x by (simp add: unat_of_nat_32 len_def)
  moreover have "?n \<noteq> 0" using b(1,2) by (cases b) auto
  ultimately have z: "len \<noteq> 0" by auto
  have "reads (bnd (os_consume (unat len)) (\<lambda>bs. let ans = mpz_import G bs in
      ret (if sg = 1 then - ans else ans))) b x"
    by (rule reads_bnd_ret [OF reads_consume]) (use b n in \<open>simp_all add: Let_def sg_def\<close>)
  then have "reads (?rest len) b x" using z by simp
  moreover have "reads (get_int 4) (le_bytes 4 (word_of_nat ?n)) len" unfolding len_def by (rule reads_get_int) simp
  ultimately have r: "reads (bnd (get_int 4) ?rest) (le_bytes 4 (word_of_nat ?n) @ b) x" by (rule reads_bnd [rotated])
  have c: "reads (os_consume 1) [word_of_nat sg] [word_of_nat sg]" by (rule reads_consume) simp
  have s: "unat (word_of_nat sg :: octet) = sg" "(\<not> (sg \<noteq> 0 \<and> sg \<noteq> 1)) = True" by (simp_all add: sg_def)
  have "reads (get_bigint G) ([word_of_nat sg] @ le_bytes 4 (word_of_nat ?n) @ b) x"
    unfolding get_bigint_def Let_def
    by (rule reads_bnd [OF c]) (simp only: list.sel s check_simps bnd_ret r [unfolded Let_def])
  moreover have "[word_of_nat sg] = ([if x < 0 then 1 else 0] :: octet list)" by (simp add: sg_def)
  ultimately show ?thesis by (simp add: bigint_bytes_def b_def)
qed

text \<open>The wire.\<close>

lemma send_receive:
  assumes s: "os_ok s" "os_len s < 2 ^ 32" and t: "os_ok t"
  shows "\<exists>wire u. os_Send s = Inr wire \<and> os_Receive (wire @ rest) t = Inr (rest, u) \<and> os_ok u \<and>
    written u = written s \<and> unread u = written s"
proof -
  define n where "n = os_len s"
  define nl :: "64 word" where "nl = word_of_nat (unat (word_of_nat n :: 64 word) mod 256 ^ 4)"
  define h w where "h = le_bytes 4 (word_of_nat n)" and "w = written s"
  have send: "os_Send s = Inr (h @ w)"
    using encode_fits [OF length_fits [OF s(2)]] by (simp add: os_Send_def written_def h_def w_def n_def)
  have d: "decode_length h = Inr nl" unfolding h_def nl_def by (rule decode_le_bytes) simp
  have l: "unat nl = n" "length h = 4" "length w = n"
    using s by (simp_all add: unat_of_nat_32 nl_def h_def n_def w_def)
  have f: "take n (w @ rest) = w" "drop n (w @ rest) = rest" "n \<le> length (w @ rest)" using l(3) by simp_all
  have "os_Receive (h @ w @ rest) t =
      bnd (modify (\<lambda>s. s\<lparr>os_len := 0\<rparr>)) (\<lambda>_. bnd (resize_min n) (\<lambda>_. bnd (modify (\<lambda>s. s\<lparr>os_len := n\<rparr>)) (\<lambda>_.
      bnd (os_write 0 w) (\<lambda>_. bnd (modify reset_read_head) (\<lambda>_. ret rest))))) t"
    by (simp add: os_Receive_def l d f lift_def)
  also have "\<exists>u. \<dots> = Inr (rest, u) \<and> os_ok u \<and> written u = w \<and> unread u = w"
    using l(3) t
    by (auto simp: monad_defs resize_min_def resize_precise_def os_write_def
        reset_read_head_def os_ok_def Let_def written_def unread_def)
  finally show ?thesis using send unfolding w_def by auto
qed


text \<open>Bytes of a number, most significant first, as an instance of GMP's functions.\<close>

fun be_bytes :: "nat \<Rightarrow> nat \<Rightarrow> octet list" where
  "be_bytes 0 x = []"
| "be_bytes (Suc fuel) x = (if x = 0 then [] else be_bytes fuel (x div 256) @ [word_of_nat x])"

definition demo_gmp :: gmp_lib where
  "demo_gmp = \<lparr>sizeinbase256 = (\<lambda>x. max 1 (length (be_bytes (nat \<bar>x\<bar>) (nat \<bar>x\<bar>)))),
     mpz_export = (\<lambda>x. be_bytes (nat \<bar>x\<bar>) (nat \<bar>x\<bar>)), mpz_import = (\<lambda>bs. int (le_value (rev bs)))\<rparr>"

lemma be_bytes_value: "x \<le> fuel \<Longrightarrow> le_value (rev (be_bytes fuel x)) = x"
proof (induction fuel arbitrary: x)
  case 0
  then show ?case by simp
next
  case (Suc fuel)
  then have "x div 256 \<le> fuel" by (cases x) simp_all
  then show ?case using Suc.IH by (simp add: unat_of_nat take_bit_eq_mod)
qed

lemma length_be_bytes: "length (be_bytes fuel x) \<le> fuel"
proof (induction fuel arbitrary: x)
  case 0
  then show ?case by simp
next
  case (Suc fuel)
  then show ?case using Suc.IH [of "x div 256"] by simp
qed

lemma demo_gmp_ok [simp]: "gmp_ok demo_gmp"
proof -
  have "be_bytes k k \<noteq> []" if "0 < k" for k using that by (cases k) simp_all
  then show ?thesis by (auto simp: gmp_ok_def demo_gmp_def be_bytes_value Suc_le_eq max_def)
qed


end
