(* ===== verification/Vss.thy ===== *)
theory Vss
  imports Lagrange Octet
begin

text \<open>
  Feldman's verifiable secret sharing, class \<open>VSS\<close> and the functions of \<open>POC/vss.cpp\<close>. The
  groups and the pairing of the library \<open>mcl\<close> are parameters with the laws that make them
  groups of prime order with a bilinear map. Random draws are arguments.
\<close>

section \<open>The pairing library\<close>

record ('g1, 'g2, 'gt) mcl =
  m_fr :: fr_lib
  m_interp :: "int list \<Rightarrow> int list \<Rightarrow> int"
  g1_base :: 'g1
  g1_add :: "'g1 \<Rightarrow> 'g1 \<Rightarrow> 'g1"
  g1_mul :: "'g1 \<Rightarrow> int \<Rightarrow> 'g1"
  g1_poly :: "'g1 list \<Rightarrow> int \<Rightarrow> 'g1"
  g2_add :: "'g2 \<Rightarrow> 'g2 \<Rightarrow> 'g2"
  g2_mul :: "'g2 \<Rightarrow> int \<Rightarrow> 'g2"
  g2_hash :: "octet list \<Rightarrow> 'g2"
  m_pairing :: "'g1 \<Rightarrow> 'g2 \<Rightarrow> 'gt"
  fr_ser :: "int \<Rightarrow> octet list"
  fr_des :: "octet list \<Rightarrow> int"
  g1_ser :: "'g1 \<Rightarrow> octet list"
  g1_des :: "octet list \<Rightarrow> 'g1"

text \<open>A group whose elements are multiplied by scalars modulo \<open>r\<close>.\<close>

definition module_ok :: "int \<Rightarrow> ('g \<Rightarrow> 'g \<Rightarrow> 'g) \<Rightarrow> ('g \<Rightarrow> int \<Rightarrow> 'g) \<Rightarrow> bool" where
  "module_ok r add mul \<longleftrightarrow>
     (\<forall>P Q R. add (add P Q) R = add P (add Q R)) \<and> (\<forall>P Q. add P Q = add Q P) \<and>
     (\<forall>P k l. mul P (k + l) = add (mul P k) (mul P l)) \<and> (\<forall>P Q k. mul (add P Q) k = add (mul P k) (mul Q k)) \<and>
     (\<forall>P k l. mul (mul P k) l = mul P (k * l)) \<and> (\<forall>P. mul P 1 = P) \<and> (\<forall>P k. mul P (k mod r) = mul P k) \<and>
     (\<forall>P Q. add P (mul Q 0) = P)"

text \<open>The interpolation is documented for any distinct nodes; the code uses \<open>1, ..., n\<close>.
  What \<open>mclBn_G1EvaluatePolynomial\<close> returns, for the base point \<open>B\<close> of the group.\<close>

fun module_poly :: "('g \<Rightarrow> 'g \<Rightarrow> 'g) \<Rightarrow> ('g \<Rightarrow> int \<Rightarrow> 'g) \<Rightarrow> 'g \<Rightarrow> 'g list \<Rightarrow> int \<Rightarrow> 'g" where
  "module_poly add mul B [] x = mul B 0"
| "module_poly add mul B (P # Ps) x = add P (mul (module_poly add mul B Ps x) x)"

definition interp_ok :: "('g1, 'g2, 'gt) mcl \<Rightarrow> bool" where
  "interp_ok M \<longleftrightarrow> (\<forall>as n. length as \<le> n \<longrightarrow> int n < fr_mod (m_fr M) \<longrightarrow>
     m_interp M (map int [1..<Suc n]) (map (\<lambda>i. poly_value as (int i) mod fr_mod (m_fr M)) [1..<Suc n]) =
       poly_value as 0 mod fr_mod (m_fr M))"

definition mcl_ok :: "('g1, 'g2, 'gt) mcl \<Rightarrow> bool" where
  "mcl_ok M \<longleftrightarrow> fr_ok (m_fr M) \<and>
     module_ok (fr_mod (m_fr M)) (g1_add M) (g1_mul M) \<and> module_ok (fr_mod (m_fr M)) (g2_add M) (g2_mul M) \<and>
     (\<forall>k l. g1_mul M (g1_base M) k = g1_mul M (g1_base M) l \<longrightarrow> k mod fr_mod (m_fr M) = l mod fr_mod (m_fr M)) \<and>
     (\<forall>Ps x. g1_poly M Ps x = module_poly (g1_add M) (g1_mul M) (g1_base M) Ps x) \<and>
     (\<forall>P Q k. m_pairing M (g1_mul M P k) Q = m_pairing M P (g2_mul M Q k)) \<and>
     (\<forall>P Q. m_pairing M (g1_base M) P = m_pairing M (g1_base M) Q \<longrightarrow> P = Q) \<and>
     interp_ok M \<and>
     (\<forall>x. in_field (fr_mod (m_fr M)) x \<longrightarrow> fr_des M (fr_ser M x) = x) \<and> (\<forall>P. g1_des M (g1_ser M P) = P)"

abbreviation m_r :: "('g1, 'g2, 'gt) mcl \<Rightarrow> int" where
  "m_r M \<equiv> fr_mod (m_fr M)"

lemma module_laws:
  assumes "module_ok r add mul"
  shows "add (add P Q) R = add P (add Q R)" "add P Q = add Q P" "mul P (k + l) = add (mul P k) (mul P l)"
    "mul (add P Q) k = add (mul P k) (mul Q k)" "mul (mul P k) l = mul P (k * l)" "mul P 1 = P"
    "mul P (k mod r) = mul P k" "add P (mul Q 0) = P"
  using assms unfolding module_ok_def by auto

lemma module_left_commute: "module_ok r add mul \<Longrightarrow> add P (add Q R) = add Q (add P R)"
  using module_laws(1,2) by metis

lemma mcl_okD:
  assumes "mcl_ok M"
  shows "fr_ok (m_fr M)" "module_ok (m_r M) (g1_add M) (g1_mul M)" "module_ok (m_r M) (g2_add M) (g2_mul M)"
    "g1_mul M (g1_base M) k = g1_mul M (g1_base M) l \<Longrightarrow> k mod m_r M = l mod m_r M"
    "g1_poly M Ps x = module_poly (g1_add M) (g1_mul M) (g1_base M) Ps x"
    "m_pairing M (g1_mul M P k) Q = m_pairing M P (g2_mul M Q k)"
    "m_pairing M (g1_base M) S = m_pairing M (g1_base M) T \<Longrightarrow> S = T"
    "in_field (m_r M) y \<Longrightarrow> fr_des M (fr_ser M y) = y" "g1_des M (g1_ser M P) = P"
  using assms unfolding mcl_ok_def by blast+

lemma mcl_interp:
  assumes "mcl_ok M" "length as \<le> n" "int n < m_r M"
  shows "m_interp M (map int [1..<Suc n]) (map (\<lambda>i. poly_value as (int i) mod m_r M) [1..<Suc n]) = poly_value as 0 mod m_r M"
  using assms unfolding mcl_ok_def interp_ok_def by blast

text \<open>Equal scalars up to the order; the multiples of a polynomial's coefficients.\<close>

lemma mul_cong: "module_ok r add mul \<Longrightarrow> k mod r = l mod r \<Longrightarrow> mul P k = mul P l"
  using module_laws(7) by metis

lemma module_poly_multiples:
  assumes m: "module_ok r add mul"
  shows "module_poly add mul B (map (mul B) as) x = mul B (poly_value as x)"
proof (induction as)
  case Nil
  then show ?case by simp
next
  case (Cons a as)
  then show ?case by (simp add: module_laws(3,5) [OF m] mult.commute)
qed

section \<open>The class VSS\<close>

record vss =
  vs_s :: int
  vs_nparty :: nat
  vs_threshold :: nat

definition VSS :: "int \<Rightarrow> nat \<Rightarrow> nat \<Rightarrow> err + vss" where
  "VSS s np thre =
     (let v = \<lparr>vs_s = s, vs_nparty = np, vs_threshold = thre\<rparr>
      in if thre > np then Inl (Thrown_string ''invalid threshold & party number setting!'') else Inr v)"

definition set_secret :: "int \<Rightarrow> nat \<Rightarrow> nat \<Rightarrow> vss \<Rightarrow> vss" where
  "set_secret s pn tn v = v\<lparr>vs_s := s, vs_nparty := pn, vs_threshold := tn\<rparr>"

definition rnd_secret :: "int \<Rightarrow> vss \<Rightarrow> vss" where
  "rnd_secret draw v = v\<lparr>vs_s := draw\<rparr>"

text \<open>\<open>rnd ! (i - 1)\<close> is the draw for coefficient \<open>i\<close>.\<close>

definition gen_share :: "('g1, 'g2, 'gt) mcl \<Rightarrow> int list \<Rightarrow> vss \<Rightarrow> int list \<times> 'g1 list \<Rightarrow> int list \<times> 'g1 list" where
  "gen_share M rnd v = (\<lambda>(shares, aux).
     let basePoint = g1_base M;
         coeff = vs_s v # map (\<lambda>i. rnd ! (i - 1)) [1..<Suc (vs_threshold v)];
         aux = aux @ [g1_mul M basePoint (coeff ! 0)];
         aux = foldl (\<lambda>aux i. aux @ [g1_mul M basePoint (coeff ! i)]) aux [1..<Suc (vs_threshold v)];
         shares = foldl (\<lambda>shares i. let num = fr_int32 (m_fr M) (int i) in shares @ [fr_poly (m_fr M) coeff num])
           shares [1..<Suc (vs_nparty v)]
     in (shares, aux))"

definition verify_share :: "('g1, 'g2, 'gt) mcl \<Rightarrow> int \<Rightarrow> 'g1 list \<Rightarrow> nat \<Rightarrow> bool" where
  "verify_share M share aux n =
     (let ret = g1_mul M (g1_base M) share;
          s_num = fr_int32 (m_fr M) (int n);
          retEval = g1_poly M aux s_num
      in ret = retEval)"

definition vss_recover_share :: "('g1, 'g2, 'gt) mcl \<Rightarrow> int list \<Rightarrow> int" where
  "vss_recover_share M shares =
     (let xVec = map (\<lambda>i. fr_int32 (m_fr M) (int (i + 1))) [0..<length shares] in m_interp M xVec shares)"

definition lagrange_coeff :: "fr_lib \<Rightarrow> int list \<Rightarrow> int list \<Rightarrow> err + int list" where
  "lagrange_coeff L lag_coeff val =
     (if list_ex (\<lambda>v. v = 0) val then Inl (Thrown_string ''Elements in val should be non-zero and distinct!'')
      else let Fr_val = map (\<lambda>v. fr_int32 L (- 1 * v)) val
      in Inr (lag_coeff @ map (\<lambda>i.
           let xi = fr_int32 L (val ! i);
               (nume_prod, deno_prod) = foldl (\<lambda>(nume_prod, deno_prod) j.
                 if j \<noteq> i then (fr_mul L nume_prod (Fr_val ! j), fr_mul L deno_prod (fr_add L xi (Fr_val ! j)))
                 else (nume_prod, deno_prod)) (fr_int32 L 1, fr_int32 L 1) [0..<length Fr_val];
               deno_prod = fr_inv L deno_prod
           in fr_mul L nume_prod deno_prod) [0..<length Fr_val]))"

section \<open>Shares and their verification\<close>

abbreviation vss_coeffs :: "int list \<Rightarrow> vss \<Rightarrow> int list" where
  "vss_coeffs rnd v \<equiv> vs_s v # take (vs_threshold v) rnd"

lemma foldl_snoc: "foldl (\<lambda>acc i. acc @ [f i]) acc is = acc @ map f is"
  by (induction "is" arbitrary: acc) simp_all

lemma gen_share_value:
  assumes L: "fr_ok (m_fr M)" and c: "\<forall>a \<in> set (vss_coeffs rnd v). in_field (m_r M) a" and t: "vs_threshold v \<le> length rnd"
  shows "gen_share M rnd v (shares, aux) =
    (shares @ map (\<lambda>i. poly_value (vss_coeffs rnd v) (int i mod m_r M) mod m_r M) [1..<Suc (vs_nparty v)],
     aux @ map (g1_mul M (g1_base M)) (vss_coeffs rnd v))"
proof -
  let ?t = "vs_threshold v"
  have "map (\<lambda>i. rnd ! (i - 1)) [1..<Suc ?t] = take ?t rnd"
    using t by (intro nth_equalityI) (simp_all del: upt_Suc)
  moreover have "map (\<lambda>i. g1_mul M (g1_base M) (vss_coeffs rnd v ! i)) [1..<Suc ?t] =
      map (g1_mul M (g1_base M)) (take ?t rnd)"
    using t by (intro nth_equalityI) (simp_all del: upt_Suc)
  moreover have "fr_poly (m_fr M) (vss_coeffs rnd v) (fr_int32 (m_fr M) k) =
      poly_value (vss_coeffs rnd v) (k mod m_r M) mod m_r M" for k
    using fr_okD(8) [OF L c] fr_okD(2) [OF L] by (simp add: fr_okD(3) [OF L] del: poly_value.simps)
  ultimately show ?thesis
    by (simp add: gen_share_def Let_def foldl_snoc del: upt_Suc poly_value.simps)
qed

lemma poly_value_cong: "x mod r = y mod r \<Longrightarrow> poly_value as x mod r = poly_value as y mod r"
proof (induction as)
  case Nil
  then show ?case by simp
next
  case (Cons a as)
  then show ?case by (auto intro: mod_add_cong mod_mult_cong)
qed

lemma verify_share_iff:
  assumes M: "mcl_ok M" and a: "aux = map (g1_mul M (g1_base M)) as"
  shows "verify_share M share aux n \<longleftrightarrow> share mod m_r M = poly_value as (int n) mod m_r M"
proof -
  note m = mcl_okD(2) [OF M]
  have e: "g1_poly M aux (fr_int32 (m_fr M) (int n)) = g1_mul M (g1_base M) (poly_value as (int n mod m_r M))"
    unfolding a by (simp add: mcl_okD(5) [OF M] fr_okD(3) [OF mcl_okD(1) [OF M]] module_poly_multiples [OF m])
  have v: "poly_value as (int n mod m_r M) mod m_r M = poly_value as (int n) mod m_r M"
    by (rule poly_value_cong) simp
  show ?thesis
    unfolding verify_share_def Let_def e
    using mcl_okD(4) [OF M] mul_cong [OF m] v by metis
qed

text \<open>C35: every share that \<open>gen_share\<close> deals to party \<open>n\<close> passes \<open>verify_share\<close> against the
  dealt commitments, and no other scalar does: a share that passes is the value of the dealer's
  polynomial.\<close>
theorem vss_share_verifies:
  assumes "mcl_ok M" "\<forall>a \<in> set (vss_coeffs rnd v). in_field (m_r M) a" "vs_threshold v \<le> length rnd"
    and "gen_share M rnd v ([], []) = (shares, aux)" "1 \<le> n" "n \<le> vs_nparty v"
  shows "length shares = vs_nparty v \<and> length aux = Suc (vs_threshold v) \<and>
    aux ! 0 = g1_mul M (g1_base M) (vs_s v) \<and>
    (\<forall>share. in_field (m_r M) share \<longrightarrow> (verify_share M share aux n \<longleftrightarrow> share = shares ! (n - 1)))"
proof -
  let ?as = "vss_coeffs rnd v"
  have g: "shares = map (\<lambda>i. poly_value ?as (int i mod m_r M) mod m_r M) [1..<Suc (vs_nparty v)]"
      "aux = map (g1_mul M (g1_base M)) ?as"
    using gen_share_value [OF mcl_okD(1) [OF assms(1)] assms(2,3), of "[]" "[]"] assms(4)
    by (simp_all del: upt_Suc poly_value.simps)
  have r: "1 < m_r M" using fr_okD(2) [OF mcl_okD(1) [OF assms(1)]] .
  have "[1..<Suc (vs_nparty v)] ! (n - 1) = n" using assms(5,6) by (simp del: upt_Suc)
  then have "shares ! (n - 1) = poly_value ?as (int n mod m_r M) mod m_r M"
    unfolding g(1) using assms(5,6) by (simp del: upt_Suc poly_value.simps)
  also have "\<dots> = poly_value ?as (int n) mod m_r M" by (rule poly_value_cong) simp
  finally have "verify_share M share aux n \<longleftrightarrow> share = shares ! (n - 1)" if "in_field (m_r M) share" for share
    using verify_share_iff [OF assms(1) g(2)] in_field_id [OF that] by simp
  moreover have "length aux = Suc (vs_threshold v)" using assms(3) g(2) by simp
  ultimately show ?thesis using g by (simp del: upt_Suc poly_value.simps)
qed

lemma mod_node: "i \<le> n \<Longrightarrow> int n < r \<Longrightarrow> int i mod r = int i"
  by simp

text \<open>All shares together give the secret back.\<close>

lemma vss_recovers:
  assumes "mcl_ok M" "\<forall>a \<in> set (vss_coeffs rnd v). in_field (m_r M) a" "vs_threshold v \<le> length rnd"
    and "gen_share M rnd v ([], []) = (shares, aux)" "vs_threshold v < vs_nparty v" "int (vs_nparty v) < m_r M"
  shows "vss_recover_share M shares = vs_s v"
proof -
  let ?as = "vss_coeffs rnd v" and ?n = "vs_nparty v"
  have L: "fr_ok (m_fr M)" using mcl_okD(1) [OF assms(1)] .
  have sh: "shares = map (\<lambda>i. poly_value ?as (int i mod m_r M) mod m_r M) [1..<Suc ?n]"
    using gen_share_value [OF L assms(2,3), of "[]" "[]"] assms(4) by (simp_all del: upt_Suc poly_value.simps)
  also have "\<dots> = map (\<lambda>i. poly_value ?as (int i) mod m_r M) [1..<Suc ?n]"
    by (rule map_cong, rule refl, rule poly_value_cong) simp
  finally have s: "shares = map (\<lambda>i. poly_value ?as (int i) mod m_r M) [1..<Suc ?n]" .
  have "map (\<lambda>i. fr_int32 (m_fr M) (int (i + 1))) [0..<?n] = map int [1..<Suc ?n]"
    using assms(6) by (intro nth_equalityI) (simp_all add: fr_okD(3) [OF L] del: upt_Suc)
  moreover have "length shares = ?n" using s by (simp del: upt_Suc)
  ultimately have "vss_recover_share M shares = poly_value ?as 0 mod m_r M"
    using mcl_interp [OF assms(1) _ assms(6), of ?as] assms(3,5) s
    by (simp add: vss_recover_share_def del: upt_Suc poly_value.simps)
  then show ?thesis using assms(2) in_field_id [of "m_r M" "vs_s v"] by simp
qed

section \<open>A group of thirteen elements\<close>

text \<open>The groups of the examples: the integers modulo 13, with the product as the pairing.\<close>

typedef z13 = "{0..<13 :: int}"
  by (rule exI [of _ 0]) simp

setup_lifting type_definition_z13

lift_definition z13_add :: "z13 \<Rightarrow> z13 \<Rightarrow> z13" is "\<lambda>x y. (x + y) mod 13"
  by simp

lift_definition z13_mul :: "z13 \<Rightarrow> int \<Rightarrow> z13" is "\<lambda>x k. (x * k) mod 13"
  by simp

lift_definition z13_of :: "int \<Rightarrow> z13" is "\<lambda>k. k mod 13"
  by simp

lift_definition z13_val :: "z13 \<Rightarrow> int" is "\<lambda>x. x" .

definition demo_fr13 :: fr_lib where
  "demo_fr13 = \<lparr>fr_mod = 13, fr_add = (\<lambda>x y. (x + y) mod 13), fr_mul = (\<lambda>x y. (x * y) mod 13),
     fr_inv = (\<lambda>x. x ^ 11 mod 13), fr_int32 = (\<lambda>k. k mod 13), fr_poly = (\<lambda>as x. poly_value as x mod 13)\<rparr>"

definition demo_mcl :: "(z13, z13, z13) mcl" where
  "demo_mcl = \<lparr>m_fr = demo_fr13,
     m_interp = (\<lambda>xs ys. (\<Sum>i\<leftarrow>[1..<Suc (length ys)]. node_coeff (length ys) i * ys ! (i - 1)) mod 13),
     g1_base = z13_of 1, g1_add = z13_add, g1_mul = z13_mul, g1_poly = module_poly z13_add z13_mul (z13_of 1),
     g2_add = z13_add, g2_mul = z13_mul, g2_hash = (\<lambda>bs. z13_of (int (length bs))),
     m_pairing = (\<lambda>P Q. z13_of (z13_val P * z13_val Q)),
     fr_ser = (\<lambda>x. [word_of_int x]), fr_des = (\<lambda>bs. uint (hd bs)),
     g1_ser = (\<lambda>P. [word_of_int (z13_val P)]), g1_des = (\<lambda>bs. z13_of (uint (hd bs)))\<rparr>"

lemma z13_laws [simp]: "module_ok 13 z13_add z13_mul"
  unfolding module_ok_def
  by (intro conjI allI; transfer) (simp_all add: algebra_simps mod_simps)

lemma z13_val_of: "z13_val (z13_of k) = k mod 13" "z13_of (z13_val P) = P" "0 \<le> z13_val P" "z13_val P < 13"
  by (transfer, simp)+

lemma demo_fr13_ok [simp]: "fr_ok demo_fr13"
proof -
  have "{2..<13::int} = set [2, 3, 4, 5, 6, 7, 8, 9, 10, 11, 12]" by (simp add: set_eq_iff) presburger
  then have "prime_int 13" unfolding prime_int_def by (simp add: dvd_def) presburger
  moreover have "(x ^ 11 mod 13 * x) mod 13 = 1" if "in_field 13 x" "x \<noteq> 0" for x :: int
  proof -
    have "x = 1 \<or> x = 2 \<or> x = 3 \<or> x = 4 \<or> x = 5 \<or> x = 6 \<or> x = 7 \<or> x = 8 \<or> x = 9 \<or> x = 10 \<or> x = 11 \<or> x = 12"
      using that unfolding in_field_def by presburger
    then show ?thesis by auto
  qed
  ultimately show ?thesis by (simp add: fr_ok_def demo_fr13_def)
qed

lemma demo_mcl_simps [simp]: "m_fr demo_mcl = demo_fr13" "fr_mod demo_fr13 = 13"
  by (simp_all add: demo_mcl_def demo_fr13_def)

lemma demo_mcl_ok [simp]: "mcl_ok demo_mcl"
proof -
  have i: "m_interp demo_mcl (map int [1..<Suc n]) (map (\<lambda>i. poly_value as (int i) mod 13) [1..<Suc n]) = poly_value as 0 mod 13"
    if "length as \<le> n" for as n
  proof -
    let ?ys = "map (\<lambda>i. poly_value as (int i) mod 13) [1..<Suc n]"
    have "m_interp demo_mcl xs ?ys = (\<Sum>i\<leftarrow>[1..<Suc n]. node_coeff n i * ?ys ! (i - 1)) mod 13" for xs
      by (simp add: demo_mcl_def del: upt_Suc)
    also have "(\<Sum>i\<leftarrow>[1..<Suc n]. node_coeff n i * ?ys ! (i - 1)) = (\<Sum>i\<leftarrow>[1..<Suc n]. node_coeff n i * (poly_value as (int i) mod 13))"
      by (rule arg_cong [where f = sum_list], rule map_cong) (auto simp del: upt_Suc)
    also have "\<dots> mod 13 = (\<Sum>i\<leftarrow>[1..<Suc n]. node_coeff n i * poly_value as (int i)) mod 13"
    proof -
      have "(\<Sum>i\<leftarrow>is. node_coeff n i * (poly_value as (int i) mod 13)) mod 13 =
          (\<Sum>i\<leftarrow>is. node_coeff n i * poly_value as (int i)) mod 13" for "is"
      proof (induction "is")
        case (Cons i "is")
        then show ?case by (simp only: list.map sum_list.Cons) (rule mod_add_cong, simp_all add: mod_mult_right_eq)
      qed simp
      then show ?thesis .
    qed
    finally show ?thesis unfolding interpolation_at_zero [OF that] .
  qed
  have b: "z13_mul (z13_of 1) k = z13_mul (z13_of 1) l \<Longrightarrow> k mod 13 = l mod 13" for k l
    by transfer simp
  have p: "z13_of (z13_val (z13_mul P k) * z13_val Q) = z13_of (z13_val P * z13_val (z13_mul Q k))" for P Q k
    by transfer (simp add: mod_simps mult_ac)
  have n: "z13_of (z13_val (z13_of 1) * z13_val P) = P" for P by transfer simp
  have s: "uint (word_of_int x :: octet) = x" if "0 \<le> x" "x < 13" for x
    using that by (simp add: uint_word_of_int)
  have f: "g1_add demo_mcl = z13_add" "g1_mul demo_mcl = z13_mul" "g2_add demo_mcl = z13_add" "g2_mul demo_mcl = z13_mul"
    "g1_base demo_mcl = z13_of 1" "g1_poly demo_mcl = module_poly z13_add z13_mul (z13_of 1)"
    "m_pairing demo_mcl = (\<lambda>P Q. z13_of (z13_val P * z13_val Q))" "fr_ser demo_mcl = (\<lambda>x. [word_of_int x])"
    "fr_des demo_mcl = (\<lambda>bs. uint (hd bs))" "g1_ser demo_mcl = (\<lambda>P. [word_of_int (z13_val P)])"
    "g1_des demo_mcl = (\<lambda>bs. z13_of (uint (hd bs)))"
    by (simp_all add: demo_mcl_def)
  show ?thesis
    unfolding mcl_ok_def f demo_mcl_simps
  proof (intro conjI)
    show "interp_ok demo_mcl" using i by (simp add: interp_ok_def del: upt_Suc)
    show "\<forall>k l. z13_mul (z13_of 1) k = z13_mul (z13_of 1) l \<longrightarrow> k mod 13 = l mod 13" using b by blast
    show "\<forall>P Q k. z13_of (z13_val (z13_mul P k) * z13_val Q) = z13_of (z13_val P * z13_val (z13_mul Q k))" using p by blast
    show "\<forall>P Q. z13_of (z13_val (z13_of 1) * z13_val P) = z13_of (z13_val (z13_of 1) * z13_val Q) \<longrightarrow> P = Q" unfolding n by blast
    show "\<forall>x. in_field 13 x \<longrightarrow> uint (hd [word_of_int x :: octet]) = x" using s by (simp add: in_field_def)
    show "\<forall>P. z13_of (uint (hd [word_of_int (z13_val P) :: octet])) = P"
      using s [OF z13_val_of(3,4)] z13_val_of(2) by simp
  qed simp_all
qed

theorem vss_share_verifies_witness:
  "\<exists>shares aux. gen_share demo_mcl [4] \<lparr>vs_s = 5, vs_nparty = 2, vs_threshold = 1\<rparr> ([], []) = (shares, aux) \<and>
    verify_share demo_mcl (shares ! 1) aux 2"
proof -
  let ?v = "\<lparr>vs_s = 5, vs_nparty = 2, vs_threshold = 1\<rparr>"
  obtain shares aux where g: "gen_share demo_mcl [4] ?v ([], []) = (shares, aux)" by (cases "gen_share demo_mcl [4] ?v ([], [])")
  have c: "\<forall>a \<in> set (vss_coeffs [4] ?v). in_field (m_r demo_mcl) a" by (simp add: in_field_def)
  have "shares = map (\<lambda>i. poly_value (vss_coeffs [4] ?v) (int i mod 13) mod 13) [1..<3]"
    using gen_share_value [OF mcl_okD(1) [OF demo_mcl_ok] c, of "[]" "[]"] g by (simp add: numeral_3_eq_3)
  then have "in_field 13 (shares ! 1)" by (simp add: upt_rec in_field_def)
  then show ?thesis using vss_share_verifies [OF demo_mcl_ok c _ g, of 2] g by simp
qed

end
