(* ===== verification/Commit.thy ===== *)
theory Commit
  imports Octet
begin

unbundle bit_operations_syntax

text \<open>
  The hash commitments of \<open>Tools/Commit.cpp\<close> and the coin of \<open>Tools/Subroutines.cpp\<close> that the
  combined MAC check uses. Each operation is one party's; what the other parties sent is an
  argument, so that nothing is assumed of them. libsodium's hash is a parameter.
\<close>

definition SEED_SIZE :: nat where
  "SEED_SIZE = 16"

text \<open>\<open>octetStream::hash\<close>: \<open>H\<close> returns \<open>crypto_generichash_BYTES_MIN\<close> bytes.\<close>

definition hash_ok :: "(octet list \<Rightarrow> octet list) \<Rightarrow> bool" where
  "hash_ok H \<longleftrightarrow> (\<forall>bs. length (H bs) = 16)"

definition os_hash :: "(octet list \<Rightarrow> octet list) \<Rightarrow> octet_stream \<Rightarrow> octet_stream" where
  "os_hash H s = \<lparr>os_len = 16, os_mxlen = 16, os_ptr = 0, os_data = H (take (os_len s) (os_data s))\<rparr>"

definition exec :: "unit ostm \<Rightarrow> octet_stream \<Rightarrow> err + octet_stream" where
  "exec p s = (case p s of Inl e \<Rightarrow> Inl e | Inr (_, t) \<Rightarrow> Inr t)"

definition bytes_of :: "octet_stream \<Rightarrow> octet list" where
  "bytes_of s = take (os_len s) (os_data s)"

section \<open>Commitments\<close>

text \<open>\<open>rnd\<close> are the random bytes; the result is the commitment and its opening.\<close>

definition Commit :: "(octet list \<Rightarrow> octet list) \<Rightarrow> octet list \<Rightarrow> octet_stream \<Rightarrow> octet_stream \<Rightarrow> 32 word \<Rightarrow>
    err + octet_stream \<times> octet_stream" where
  "Commit H rnd open message send_player =
     (case exec (bnd (store_sint send_player) (\<lambda>_. bnd (os_append (bytes_of message)) (\<lambda>_. append_random rnd))) open of
        Inl e \<Rightarrow> Inl e
      | Inr open \<Rightarrow> Inr (os_hash H open, open))"

definition BYTES_TO_INT :: "octet list \<Rightarrow> 32 word" where
  "BYTES_TO_INT buff = ucast (buff ! 0) + 256 * ucast (buff ! 1) + 65536 * ucast (buff ! 2) + 16777216 * ucast (buff ! 3)"

text \<open>
  \<open>Open\<close> leaves the message as it is when it returns false. An opening shorter than the
  number and the randomness is read outside of its memory.
\<close>

definition Open :: "(octet list \<Rightarrow> octet list) \<Rightarrow> octet_stream \<Rightarrow> octet_stream \<Rightarrow> octet_stream \<Rightarrow> 32 word \<Rightarrow>
    err + bool \<times> octet_stream" where
  "Open H message comm open send_player =
     (let h = os_hash H open; open_bytes = os_data open in
      if length open_bytes < 4 then Inl Out_of_range
      else let open_player = BYTES_TO_INT open_bytes in
      if \<not> (os_equals h comm \<and> open_player = send_player) then Inr (False, message)
      else if os_len open < SEED_SIZE + 4 then Inl Out_of_range
      else case exec (os_append (take (os_len open - SEED_SIZE - 4) (drop 4 open_bytes))) (reset_write_head message) of
          Inl e \<Rightarrow> Inl e
        | Inr message \<Rightarrow> Inr (True, message))"

text \<open>The class \<open>Commitment\<close>: the opening holds only the randomness. \<open>H\<close> is the hash of all updates.\<close>

record commitment =
  cm_player :: "32 word"
  cm_comm :: "octet list"
  cm_open :: "octet list"

definition commitment_hash :: "(octet list \<Rightarrow> octet list) \<Rightarrow> 32 word \<Rightarrow> octet list \<Rightarrow> octet list \<Rightarrow> octet list" where
  "commitment_hash H player message open = H (le_bytes 4 (ucast player) @ message @ open)"

definition commitment_commit :: "(octet list \<Rightarrow> octet list) \<Rightarrow> octet list \<Rightarrow> octet list \<Rightarrow> commitment \<Rightarrow> commitment" where
  "commitment_commit H rnd message c =
     c\<lparr>cm_open := rnd, cm_comm := commitment_hash H (cm_player c) message rnd\<rparr>"

definition commitment_check :: "(octet list \<Rightarrow> octet list) \<Rightarrow> octet list \<Rightarrow> octet list \<Rightarrow> octet list \<Rightarrow> commitment \<Rightarrow> err + commitment" where
  "commitment_check H message comm open c =
     (let c = c\<lparr>cm_comm := commitment_hash H (cm_player c) message open\<rparr>
      in if \<not> (comm = cm_comm c) then Inl Invalid_commitment else Inr c)"

text \<open>
  \<open>AllCommitments::open\<close> at party \<open>me\<close>, after the exchange of the messages and openings: the
  loop \<open>for (i = 0; i != P.my_num(); i++)\<close> checks the parties before \<open>me\<close>.
\<close>

definition all_commitments_open :: "(octet list \<Rightarrow> octet list) \<Rightarrow> nat \<Rightarrow> octet list list \<Rightarrow> octet list list \<Rightarrow> octet list list \<Rightarrow>
    err + octet list list" where
  "all_commitments_open H me comms opens messages =
     foldl (\<lambda>r i. case r of Inl e \<Rightarrow> Inl e
        | Inr ms \<Rightarrow> (case commitment_check H (ms ! i) (comms ! i) (opens ! i)
              \<lparr>cm_player = word_of_nat i, cm_comm = [], cm_open = []\<rparr> of
            Inl e \<Rightarrow> Inl e | Inr _ \<Rightarrow> Inr ms)) (Inr messages) [0..<me]"

section \<open>Joint randomness\<close>

text \<open>The opening of party \<open>i\<close>'s message: a failed \<open>Open\<close> throws.\<close>

definition open_or_throw :: "(octet list \<Rightarrow> octet list) \<Rightarrow> octet_stream \<Rightarrow> octet_stream \<Rightarrow> octet_stream \<Rightarrow> nat \<Rightarrow> err + octet_stream" where
  "open_or_throw H message comm open i =
     (case Open H message comm open (word_of_nat i) of Inl e \<Rightarrow> Inl e
      | Inr (b, m) \<Rightarrow> if \<not> b then Inl Invalid_commitment else Inr m)"

text \<open>\<open>Commit_And_Open_\<close> after the exchanges: \<open>comms\<close> and \<open>opens\<close> hold what every party sent.\<close>

fun open_all :: "(octet list \<Rightarrow> octet list) \<Rightarrow> nat \<Rightarrow> octet_stream list \<Rightarrow> octet_stream list \<Rightarrow> nat list \<Rightarrow> octet_stream list \<Rightarrow>
    err + octet_stream list" where
  "open_all H me comms opens [] datas = Inr datas"
| "open_all H me comms opens (i # is) datas =
     (if i \<noteq> me
      then case open_or_throw H (datas ! i) (comms ! i) (opens ! i) i of Inl e \<Rightarrow> Inl e
           | Inr m \<Rightarrow> open_all H me comms opens is (datas[i := m])
      else open_all H me comms opens is datas)"

definition Commit_And_Open :: "(octet list \<Rightarrow> octet list) \<Rightarrow> nat \<Rightarrow> octet_stream list \<Rightarrow> octet_stream list \<Rightarrow> octet_stream list \<Rightarrow>
    err + octet_stream list" where
  "Commit_And_Open H me comms opens datas = open_all H me comms opens [0..<length datas] datas"

text \<open>
  \<open>Create_Random_Seed\<close> at party \<open>me\<close>: the messages of the others are opened one after the
  other, and every message is added to the seed.
\<close>

fun seed_loop :: "(octet list \<Rightarrow> octet list) \<Rightarrow> nat \<Rightarrow> octet_stream list \<Rightarrow> octet_stream list \<Rightarrow> octet_stream list \<Rightarrow> nat \<Rightarrow> nat list \<Rightarrow>
    octet list \<Rightarrow> err + octet list" where
  "seed_loop H me comms opens es len [] seed = Inr seed"
| "seed_loop H me comms opens es len (i # is) seed =
     (case (if i \<noteq> me then open_or_throw H (es ! i) (comms ! i) (opens ! i) i else Inr (es ! i)) of
        Inl e \<Rightarrow> Inl e
      | Inr e \<Rightarrow> if length (os_data e) < len then Inl Out_of_range
          else seed_loop H me comms opens es len is (map (\<lambda>j. seed ! j XOR os_data e ! j) [0..<len]))"

definition Create_Random_Seed :: "(octet list \<Rightarrow> octet list) \<Rightarrow> nat \<Rightarrow> octet_stream list \<Rightarrow> octet_stream list \<Rightarrow> octet_stream list \<Rightarrow>
    nat \<Rightarrow> err + octet list" where
  "Create_Random_Seed H me comms opens es len =
     seed_loop H me comms opens es len [0..<length es] (replicate len 0)"

text \<open>\<open>Commit_To_Challenge\<close> stores a number below \<open>num_runs\<close>; \<open>Open_Challenge\<close> adds all of them.\<close>

definition Commit_To_Challenge :: "(octet list \<Rightarrow> octet list) \<Rightarrow> octet list \<Rightarrow> 32 word \<Rightarrow> nat \<Rightarrow> err + octet_stream \<times> octet_stream" where
  "Commit_To_Challenge H rnd e me =
     (case exec (store_uint e) os_empty of Inl err \<Rightarrow> Inl err
      | Inr ee \<Rightarrow> Commit H rnd os_empty ee (word_of_nat me))"

fun challenge_loop :: "(octet list \<Rightarrow> octet list) \<Rightarrow> nat \<Rightarrow> octet_stream list \<Rightarrow> octet_stream list \<Rightarrow> octet_stream \<Rightarrow> 32 word list \<Rightarrow> nat list \<Rightarrow>
    32 word \<Rightarrow> err + 32 word list \<times> 32 word" where
  "challenge_loop H me comms opens ee es [] challenge = Inr (es, challenge)"
| "challenge_loop H me comms opens ee es (i # is) challenge =
     (if i \<noteq> me
      then case open_or_throw H ee (comms ! i) (opens ! i) i of Inl e \<Rightarrow> Inl e
           | Inr ee \<Rightarrow> (case get_uint ee of Inl e \<Rightarrow> Inl e
              | Inr (e, ee) \<Rightarrow> challenge_loop H me comms opens ee (es[i := e]) is (challenge + e))
      else challenge_loop H me comms opens ee es is (challenge + es ! i))"

definition Open_Challenge :: "(octet list \<Rightarrow> octet list) \<Rightarrow> nat \<Rightarrow> octet_stream list \<Rightarrow> octet_stream list \<Rightarrow> 32 word list \<Rightarrow> nat \<Rightarrow>
    err + 32 word list \<times> int" where
  "Open_Challenge H me comms opens es num_runs =
     (case challenge_loop H me comms opens os_empty es [0..<length es] 0 of Inl e \<Rightarrow> Inl e
      | Inr (es, challenge) \<Rightarrow>
          Inr (es, let c = sint challenge in sgn c * (\<bar>c\<bar> mod int num_runs)))"

section \<open>Opening a commitment\<close>

lemma bytes_of_written: "bytes_of = written"
  by (rule ext) (simp add: bytes_of_def written_def)

lemma exec_appends:
  assumes "appends p bs" "os_ok s"
  shows "\<exists>t. exec p s = Inr t \<and> os_ok t \<and> written t = written s @ bs \<and> os_ptr t = os_ptr s"
proof -
  obtain t where "p s = Inr ((), t)" "os_ok t" "written t = written s @ bs" "os_ptr t = os_ptr s"
    using assms unfolding appends_def by blast
  then show ?thesis by (simp add: exec_def)
qed

text \<open>What an opening for a message contains.\<close>

definition opening_for :: "32 word \<Rightarrow> octet list \<Rightarrow> octet list \<Rightarrow> octet_stream \<Rightarrow> bool" where
  "opening_for p msg rnd s \<longleftrightarrow> os_ok s \<and> written s = le_bytes 4 (scast p) @ msg @ rnd \<and> length rnd = SEED_SIZE"

lemma Commit_returns:
  assumes "os_ok message" "length rnd = SEED_SIZE"
  shows "\<exists>open. Commit H rnd os_empty message p = Inr (os_hash H open, open) \<and> opening_for p (written message) rnd open"
proof -
  have "appends (bnd (store_sint p) (\<lambda>_. bnd (os_append (bytes_of message)) (\<lambda>_. append_random rnd)))
      (le_bytes 4 (scast p) @ written message @ rnd)"
    unfolding bytes_of_written by (intro appends_bnd sint.store appends_append appends_random) simp
  from exec_appends [OF this os_empty_ok(1)] show ?thesis
    using assms(2) by (auto simp: Commit_def opening_for_def)
qed

lemma BYTES_TO_INT_value: "4 \<le> length bs \<Longrightarrow> BYTES_TO_INT bs = word_of_nat (le_value (take 4 bs))"
proof -
  assume "4 \<le> length bs"
  then obtain a b c d r where "bs = a # b # c # d # r"
    by (auto simp: Suc_le_length_iff numeral_eq_Suc)
  then show ?thesis by (simp add: BYTES_TO_INT_def distrib_left)
qed

lemma BYTES_TO_INT_le_bytes:
  assumes "take 4 bs = le_bytes 4 (scast p)" "4 \<le> length bs"
  shows "BYTES_TO_INT bs = p"
proof -
  have "word_of_nat (unat (scast p :: 64 word) mod 256 ^ 4) = p"
    unfolding four_bytes take_bit_eq_mod [symmetric] by (rule bit_word_eqI) (simp add: bit_simps)
  then show ?thesis using BYTES_TO_INT_value [OF assms(2)] by (simp only: assms(1) le_value_le_bytes)
qed

lemma opening_data:
  assumes "opening_for p msg rnd s"
  shows "4 \<le> length (os_data s)" "take 4 (os_data s) = le_bytes 4 (scast p)" "SEED_SIZE + 4 \<le> os_len s"
    "take (os_len s - SEED_SIZE - 4) (drop 4 (os_data s)) = msg"
proof -
  have l: "os_len s = 4 + length msg + SEED_SIZE"
    using assms length_written [of s] by (simp add: opening_for_def)
  then show "SEED_SIZE + 4 \<le> os_len s" by simp
  have len: "os_len s \<le> length (os_data s)" using assms by (simp add: opening_for_def os_ok_def)
  then show "4 \<le> length (os_data s)" using l by simp
  have "take 4 (os_data s) = take 4 (written s)" using l by (simp add: written_def)
  also have "\<dots> = le_bytes 4 (scast p)" using assms by (simp add: opening_for_def)
  finally show "take 4 (os_data s) = le_bytes 4 (scast p)" .
  have "take (os_len s - SEED_SIZE - 4) (drop 4 (os_data s)) = take (length msg) (drop 4 (written s))"
    using l by (simp add: written_def drop_take)
  also have "\<dots> = msg" using assms by (simp add: opening_for_def)
  finally show "take (os_len s - SEED_SIZE - 4) (drop 4 (os_data s)) = msg" .
qed

lemma Open_accepts:
  assumes H: "hash_ok H" and o: "opening_for p msg rnd open" and m: "os_ok message"
  shows "\<exists>m'. Open H message (os_hash H open) open p = Inr (True, m') \<and> os_ok m' \<and> written m' = msg"
proof -
  note d = opening_data [OF o]
  have "os_ok (reset_write_head message)" "written (reset_write_head message) = []"
    using m by (simp_all add: os_ok_def reset_write_head_def written_def)
  then obtain m' where "exec (os_append msg) (reset_write_head message) = Inr m'" "os_ok m'" "written m' = msg"
    using exec_appends [OF appends_append [of msg]] by force
  then show ?thesis
    using d BYTES_TO_INT_le_bytes [OF d(2,1)] by (simp add: Open_def Let_def os_equals_def)
qed

lemma Open_true:
  assumes "Open H message comm open p = Inr (True, m')" "os_ok message"
  shows "os_equals (os_hash H open) comm \<and> BYTES_TO_INT (os_data open) = p \<and> os_ok m' \<and>
    written m' = take (os_len open - SEED_SIZE - 4) (drop 4 (os_data open)) \<and> SEED_SIZE + 4 \<le> os_len open"
proof -
  let ?msg = "take (os_len open - SEED_SIZE - 4) (drop 4 (os_data open))"
  have "os_ok (reset_write_head message)" "written (reset_write_head message) = []"
    using assms(2) by (simp_all add: os_ok_def reset_write_head_def written_def)
  then obtain t where "exec (os_append ?msg) (reset_write_head message) = Inr t" "os_ok t" "written t = ?msg"
    using exec_appends [OF appends_append [of ?msg]] by force
  then show ?thesis using assms(1) by (simp add: Open_def Let_def split: if_splits)
qed

text \<open>C25: a commitment opens to the message it was made for, at the party named in it and at
  no other; two openings of the same commitment give the same message, or are a collision of the
  hash.\<close>
theorem commitment_binds:
  assumes "hash_ok H" "os_ok message" "length rnd = SEED_SIZE" "os_ok m0"
  shows "\<exists>comm open m'. Commit H rnd os_empty message p = Inr (comm, open) \<and>
    Open H m0 comm open p = Inr (True, m') \<and> written m' = written message \<and>
    (\<forall>q. q \<noteq> p \<longrightarrow> Open H m0 comm open q = Inr (False, m0)) \<and>
    (\<forall>open' m'' q. os_ok open' \<longrightarrow> Open H m0 comm open' q = Inr (True, m'') \<longrightarrow>
      (q = p \<and> written m'' = written message) \<or> (written open' \<noteq> written open \<and> H (written open') = H (written open)))"
proof -
  obtain open' where o: "Commit H rnd os_empty message p = Inr (os_hash H open', open')"
      "opening_for p (written message) rnd open'"
    using Commit_returns [OF assms(2,3)] by blast
  note d = opening_data [OF o(2)]
  have ok: "os_ok open'" using o(2) by (simp add: opening_for_def)
  obtain m' where m': "Open H m0 (os_hash H open') open' p = Inr (True, m')" "written m' = written message"
    using Open_accepts [OF assms(1) o(2) assms(4)] by blast
  have other: "Open H m0 (os_hash H open') open' q = Inr (False, m0)" if "q \<noteq> p" for q
    using that d(1) BYTES_TO_INT_le_bytes [OF d(2,1)] by (simp add: Open_def Let_def)
  have bind: "(q = p \<and> written m'' = written message) \<or> (written o' \<noteq> written open' \<and> H (written o') = H (written open'))"
    if ok': "os_ok o'" and t: "Open H m0 (os_hash H open') o' q = Inr (True, m'')" for o' m'' q
  proof (cases "written o' = written open'")
    case True
    note e = Open_true [OF t assms(4)]
    have l: "os_len o' = os_len open'" using True ok ok' length_written by metis
    have t4: "take k (os_data o') = take k (os_data open')" if "k \<le> os_len open'" for k
    proof -
      have "take k (written o') = take k (written open')" using True by simp
      then show ?thesis using that l by (simp add: written_def)
    qed
    have "take 4 (os_data o') = le_bytes 4 (scast p)" using t4 [of 4] d(2,3) by simp
    moreover have "4 \<le> length (os_data o')" using ok' l d(3) by (simp add: os_ok_def)
    ultimately have "q = p" using BYTES_TO_INT_le_bytes e by simp
    moreover have "written m'' = take (os_len open' - SEED_SIZE - 4) (drop 4 (os_data open'))"
    proof -
      have "take (os_len open' - SEED_SIZE - 4) (drop 4 (os_data o')) = drop 4 (take (os_len open' - SEED_SIZE) (os_data o'))"
        by (simp add: drop_take)
      also have "\<dots> = drop 4 (take (os_len open' - SEED_SIZE) (os_data open'))" using t4 by simp
      also have "\<dots> = take (os_len open' - SEED_SIZE - 4) (drop 4 (os_data open'))" by (simp add: drop_take)
      finally show ?thesis using e l by simp
    qed
    ultimately show ?thesis using d(4) by simp
  next
    case False
    have "os_equals (os_hash H o') (os_hash H open')" using Open_true [OF t assms(4)] by simp
    then have "H (written o') = H (written open')"
      using assms(1) by (simp add: os_equals_def os_hash_def hash_ok_def written_def)
    then show ?thesis using False by simp
  qed
  show ?thesis using o(1) m' other bind by blast
qed

text \<open>A hash for the examples: the first sixteen bytes.\<close>

definition demo_hash :: "octet list \<Rightarrow> octet list" where
  "demo_hash bs = take 16 (bs @ replicate 16 0)"

lemma demo_hash_ok [simp]: "hash_ok demo_hash"
  by (auto simp: hash_ok_def demo_hash_def min_def)

theorem commitment_binds_witness:
  "\<exists>comm open m'. Commit demo_hash (replicate 16 7) os_empty os_empty 1 = Inr (comm, open) \<and>
    Open demo_hash os_empty comm open 1 = Inr (True, m') \<and> Open demo_hash os_empty comm open 2 = Inr (False, os_empty)"
  using commitment_binds [of demo_hash os_empty "replicate 16 7" os_empty 1] by (auto simp: SEED_SIZE_def)

section \<open>The coin\<close>

text \<open>The sum of the messages' bytes at one position.\<close>

definition xor_at :: "octet list list \<Rightarrow> nat \<Rightarrow> octet" where
  "xor_at ms j = foldl (\<lambda>a m. a XOR m ! j) 0 ms"

text \<open>The message of party \<open>i\<close> as party \<open>me\<close> reads it.\<close>

definition opened_message :: "(octet list \<Rightarrow> octet list) \<Rightarrow> nat \<Rightarrow> octet_stream list \<Rightarrow> octet_stream list \<Rightarrow> octet_stream list \<Rightarrow>
    nat \<Rightarrow> octet_stream \<Rightarrow> bool" where
  "opened_message H me comms opens es i m \<longleftrightarrow>
     (if i = me then m = es ! me else Open H (es ! i) (comms ! i) (opens ! i) (word_of_nat i) = Inr (True, m))"

lemma seed_loop_step:
  "seed_loop H me comms opens es len (i # is) seed = Inr r \<longleftrightarrow>
   (\<exists>m. opened_message H me comms opens es i m \<and> len \<le> length (os_data m) \<and>
     seed_loop H me comms opens es len is (map (\<lambda>j. seed ! j XOR os_data m ! j) [0..<len]) = Inr r)"
  by (auto simp: opened_message_def open_or_throw_def not_less split: sum.splits if_splits)

lemma seed_loop_iff:
  assumes "length seed = len"
  shows "seed_loop H me comms opens es len is seed = Inr r \<longleftrightarrow>
    (\<exists>ms. list_all2 (\<lambda>i m. opened_message H me comms opens es i m \<and> len \<le> length (os_data m)) is ms \<and>
      r = map (\<lambda>j. foldl (\<lambda>a m. a XOR m ! j) (seed ! j) (map os_data ms)) [0..<len])"
  using assms
proof (induction "is" arbitrary: seed)
  case Nil
  then have "map (\<lambda>j. seed ! j) [0..<len] = seed" by (intro nth_equalityI) simp_all
  then show ?case by auto
next
  case (Cons i "is")
  let ?s = "\<lambda>m. map (\<lambda>j. seed ! j XOR os_data m ! j) [0..<len]"
  have e: "map (\<lambda>j. foldl (\<lambda>a m. a XOR m ! j) (?s m ! j) (map os_data ms)) [0..<len] =
      map (\<lambda>j. foldl (\<lambda>a m. a XOR m ! j) (seed ! j) (map os_data (m # ms))) [0..<len]" for m ms
    by simp
  show ?case
    unfolding seed_loop_step Cons.IH [of "?s _", simplified length_map length_upt diff_zero, OF refl] e list_all2_Cons1
    by blast
qed

text \<open>C26: whatever the others send, a party gets a seed exactly when every other party's
  opening fits the commitment it sent before and carries its number; the seed is then the sum of
  all messages, its own included.\<close>
theorem random_seed_sound:
  shows "Create_Random_Seed H me comms opens es len = Inr seed \<longleftrightarrow>
    (\<exists>ms. length ms = length es \<and>
      (\<forall>i < length es. opened_message H me comms opens es i (ms ! i) \<and> len \<le> length (os_data (ms ! i))) \<and>
      seed = map (xor_at (map os_data ms)) [0..<len])"
proof -
  have z: "map (\<lambda>j. foldl (\<lambda>a m. a XOR m ! j) (replicate len 0 ! j) (map os_data ms)) [0..<len] =
      map (xor_at (map os_data ms)) [0..<len]" for ms
    by (rule map_cong) (simp_all add: xor_at_def)
  show ?thesis
    unfolding Create_Random_Seed_def seed_loop_iff [OF length_replicate] z
    unfolding list_all2_conv_all_nth by (intro iff_exI) (auto simp del: map_eq_conv)
qed

text \<open>A message of one byte.\<close>

definition demo_message :: "octet \<Rightarrow> octet_stream" where
  "demo_message b = \<lparr>os_len = 1, os_mxlen = 1, os_ptr = 0, os_data = [b]\<rparr>"

theorem random_seed_sound_witness:
  "Create_Random_Seed demo_hash 0 [] [] [demo_message 5] 1 = Inr [5]"
proof -
  have "opened_message demo_hash 0 [] [] [demo_message 5] 0 (demo_message 5)" by (simp add: opened_message_def)
  moreover have "map (xor_at (map os_data [demo_message 5])) [0..<1] = [5]" by (simp add: xor_at_def demo_message_def)
  ultimately show ?thesis unfolding random_seed_sound
    by (intro exI [of _ "[demo_message 5]"]) (simp add: demo_message_def)
qed

text \<open>Honest parties all get the same seed, the sum of the messages committed to.\<close>
theorem random_seed_agreement:
  assumes "hash_ok H" "length ms = n" "length es = n" "me < n" "es ! me = ms ! me"
    and "\<forall>i < n. os_ok (ms ! i) \<and> length (written (ms ! i)) = len \<and> os_ok (es ! i) \<and> length (rnds ! i) = SEED_SIZE \<and>
      Commit H (rnds ! i) os_empty (ms ! i) (word_of_nat i) = Inr (comms ! i, opens ! i)"
  shows "Create_Random_Seed H me comms opens es len = Inr (map (xor_at (map written ms)) [0..<len])"
proof -
  have "\<exists>m. opened_message H me comms opens es i m \<and> os_ok m \<and> written m = written (ms ! i)" if i: "i < n" for i
  proof (cases "i = me")
    case True
    then show ?thesis using assms(5,6) i by (simp add: opened_message_def)
  next
    case False
    have "os_ok (ms ! i)" "length (rnds ! i) = SEED_SIZE" using assms(6) i by simp_all
    from Commit_returns [OF this, of H "word_of_nat i"]
    have "comms ! i = os_hash H (opens ! i)" "opening_for (word_of_nat i) (written (ms ! i)) (rnds ! i) (opens ! i)"
      using assms(6) i by auto
    then show ?thesis
      using Open_accepts [OF assms(1), of "word_of_nat i" "written (ms ! i)" "rnds ! i" "opens ! i" "es ! i"] assms(6) i False
      by (auto simp: opened_message_def)
  qed
  then obtain f where f: "\<forall>i < n. opened_message H me comms opens es i (f i) \<and> os_ok (f i) \<and> written (f i) = written (ms ! i)"
    by metis
  have d: "os_data (f i) ! j = written (ms ! i) ! j" if "i < n" "j < len" for i j
  proof -
    have "length (written (f i)) = len" using f assms(6) that(1) by metis
    then have "written (f i) ! j = os_data (f i) ! j" using that(2) by (simp add: written_def)
    then show ?thesis using f that(1) by simp
  qed
  have l: "len \<le> length (os_data (f i))" if "i < n" for i
  proof -
    have "length (written (f i)) = len" using f assms(6) that by metis
    then show ?thesis by (simp add: written_def)
  qed
  have x: "xor_at (map os_data (map f [0..<n])) j = xor_at (map written ms) j" if j: "j < len" for j
  proof -
    have "map (\<lambda>m. m ! j) (map os_data (map f [0..<n])) = map (\<lambda>m. m ! j) (map written ms)"
      using d j assms(2) by (intro nth_equalityI) simp_all
    then have "foldl (XOR) 0 (map (\<lambda>m. m ! j) (map os_data (map f [0..<n]))) = foldl (XOR) 0 (map (\<lambda>m. m ! j) (map written ms))"
      by (rule arg_cong)
    then show ?thesis by (simp add: xor_at_def foldl_map)
  qed
  have "Create_Random_Seed H me comms opens es len = Inr (map (xor_at (map os_data (map f [0..<n]))) [0..<len])"
    unfolding Create_Random_Seed_def seed_loop_iff [OF length_replicate]
    by (rule exI [of _ "map f [0..<n]"])
      (use f l assms(3) in \<open>auto simp: list_all2_conv_all_nth xor_at_def comp_def\<close>)
  also have "map (xor_at (map os_data (map f [0..<n]))) [0..<len] = map (xor_at (map written ms)) [0..<len]"
    by (rule map_cong) (use x in simp_all)
  finally show ?thesis .
qed

definition demo_commit :: "nat \<Rightarrow> octet_stream \<times> octet_stream" where
  "demo_commit i = (case Commit demo_hash (replicate 16 7) os_empty (demo_message (word_of_nat (5 + i))) (word_of_nat i) of Inr r \<Rightarrow> r)"

theorem random_seed_agreement_witness:
  "Create_Random_Seed demo_hash 0 (map (fst \<circ> demo_commit) [0, 1]) (map (snd \<circ> demo_commit) [0, 1])
    [demo_message 5, os_empty] 1 = Inr [3]"
proof -
  have m: "os_ok (demo_message b)" "written (demo_message b) = [b]" for b
    by (simp_all add: demo_message_def os_ok_def written_def)
  have c: "Commit demo_hash (replicate 16 7) os_empty (demo_message (word_of_nat (5 + i))) (word_of_nat i) =
      Inr (fst (demo_commit i), snd (demo_commit i))" for i
    using Commit_returns [OF m(1), of "replicate 16 7" demo_hash "word_of_nat (5 + i)" "word_of_nat i"]
    by (auto simp: demo_commit_def SEED_SIZE_def)
  have "\<forall>i < 2. os_ok ([demo_message 5, demo_message 6] ! i) \<and> length (written ([demo_message 5, demo_message 6] ! i)) = 1 \<and>
      os_ok ([demo_message 5, os_empty] ! i) \<and> length ([replicate 16 7, replicate 16 7] ! i) = SEED_SIZE \<and>
      Commit demo_hash ([replicate 16 7, replicate 16 7] ! i) os_empty ([demo_message 5, demo_message 6] ! i) (word_of_nat i) =
        Inr (map (fst \<circ> demo_commit) [0, 1] ! i, map (snd \<circ> demo_commit) [0, 1] ! i)"
    using c [of 0] c [of 1] m by (simp add: less_2_cases_iff SEED_SIZE_def)
  then show ?thesis
    using random_seed_agreement [of demo_hash "[demo_message 5, demo_message 6]" 2 "[demo_message 5, os_empty]" 0 1
        "[replicate 16 7, replicate 16 7]"]
    by (simp add: xor_at_def m upt_rec)
qed

text \<open>The checks of \<open>AllCommitments::open\<close>: only the parties before the own number are checked,
  so that party 0 accepts anything.\<close>

lemma all_commitments_open_iff:
  "all_commitments_open H me comms opens messages = Inr r \<longleftrightarrow>
   r = messages \<and> (\<forall>i < me. comms ! i = commitment_hash H (word_of_nat i) (messages ! i) (opens ! i))"
proof -
  let ?f = "\<lambda>r i. case r of Inl e \<Rightarrow> Inl e
        | Inr ms \<Rightarrow> (case commitment_check H (ms ! i) (comms ! i) (opens ! i)
              \<lparr>cm_player = word_of_nat i, cm_comm = [], cm_open = []\<rparr> of Inl e \<Rightarrow> Inl e | Inr _ \<Rightarrow> Inr ms)"
  have l: "foldl ?f (Inl e) is = Inl e" for e "is" by (induction "is") simp_all
  have "foldl ?f (Inr messages) is = Inr r \<longleftrightarrow>
      r = messages \<and> (\<forall>i \<in> set is. comms ! i = commitment_hash H (word_of_nat i) (messages ! i) (opens ! i))" for "is"
    by (induction "is") (auto simp: l commitment_check_def Let_def)
  from this [of "[0..<me]"] show ?thesis unfolding all_commitments_open_def by auto
qed

end
