(* ===== verification/Bls.thy ===== *)
theory Bls
  imports Vss Commit CurveLaws
begin

text \<open>
  Threshold BLS signatures: classes \<open>BLS_\<close> and \<open>BLS\<close> of \<open>POC/bls.h\<close> and \<open>POC/bls.cpp\<close>, with
  the conversions of \<open>Math/bls12_381.cpp\<close>. The distributed key generation is one party's, with
  what the others sent as an argument; the distributed signature is the joint run of all
  parties over the shares of the online layer.
\<close>

section \<open>Keys and signatures\<close>

record ('g1, 'g2) bls =
  bl_sk :: int
  bl_vk :: 'g1
  bl_sigma :: 'g2
  bl_nparty :: nat
  bl_threshold :: nat

text \<open>\<open>draw\<close> is the result of \<open>mclBnFr_setByCSPRNG\<close>, which may fail.\<close>

definition bls_keygen :: "('g1, 'g2, 'gt) mcl \<Rightarrow> int option \<Rightarrow> ('g1, 'g2) bls \<Rightarrow> err + ('g1, 'g2) bls" where
  "bls_keygen M draw b =
     (case draw of None \<Rightarrow> Inl Invalid_program
      | Some sk \<Rightarrow> Inr (b\<lparr>bl_sk := sk, bl_vk := g1_mul M (g1_base M) sk\<rparr>))"

definition bls_sign :: "('g1, 'g2, 'gt) mcl \<Rightarrow> octet list \<Rightarrow> ('g1, 'g2) bls \<Rightarrow> ('g1, 'g2) bls" where
  "bls_sign M msg b = b\<lparr>bl_sigma := g2_mul M (g2_hash M msg) (bl_sk b)\<rparr>"

definition bls_verify :: "('g1, 'g2, 'gt) mcl \<Rightarrow> 'g2 \<Rightarrow> octet list \<Rightarrow> ('g1, 'g2) bls \<Rightarrow> int" where
  "bls_verify M sigma msg b =
     (let h = g2_hash M msg;
          e1 = m_pairing M (bl_vk b) h;
          e2 = m_pairing M (g1_base M) sigma
      in if e1 = e2 then 1 else 0)"

definition sign_scale :: "('g1, 'g2, 'gt) mcl \<Rightarrow> int \<Rightarrow> octet list \<Rightarrow> ('g1, 'g2) bls \<Rightarrow> ('g1, 'g2) bls" where
  "sign_scale M scale msg b =
     (let sigma = g2_hash M msg;
          sign_sk = fr_mul (m_fr M) (bl_sk b) scale
      in b\<lparr>bl_sigma := g2_mul M sigma sign_sk\<rparr>)"

section \<open>Distributed key generation\<close>

text \<open>What a party sends: its commitment, the opening, a share for every party, its commitments.\<close>

record kg_msg =
  km_comm :: octet_stream
  km_open :: octet_stream
  km_shares :: "octet list list"
  km_aux :: "octet list list"

text \<open>The constructor \<open>octetStream(len, source)\<close>.\<close>

definition os_of :: "octet list \<Rightarrow> octet_stream" where
  "os_of bs = \<lparr>os_len = length bs, os_mxlen = length bs, os_ptr = 0, os_data = bs\<rparr>"

text \<open>
  The first part of \<open>dstb_keygen\<close>: \<open>s\<close> and \<open>rnd\<close> are the draws for the secret and the other
  coefficients, \<open>crnd\<close> the bytes of the commitment, \<open>n\<close> the number of players.
\<close>

definition dstb_keygen_send :: "('g1, 'g2, 'gt) mcl \<Rightarrow> (octet list \<Rightarrow> octet list) \<Rightarrow> int \<Rightarrow> int list \<Rightarrow> octet list \<Rightarrow> nat \<Rightarrow>
    nat \<Rightarrow> ('g1, 'g2) bls \<Rightarrow> err + int list \<times> 'g1 list \<times> kg_msg" where
  "dstb_keygen_send M H s rnd crnd n me b =
     (case VSS 0 (bl_nparty b) (bl_threshold b) of Inl e \<Rightarrow> Inl e
      | Inr v \<Rightarrow>
        let v = rnd_secret s v;
            (shares, aux) = gen_share M rnd v ([], []);
            ss = g1_ser M (aux ! 0)
        in (case Commit H crnd os_empty (os_of ss) 1 of Inl e \<Rightarrow> Inl e
            | Inr (os_comm, os_open) \<Rightarrow>
              if length shares < n then Inl Out_of_range
              else Inr (shares, aux, \<lparr>km_comm = os_comm, km_open = os_open,
                km_shares = map (fr_ser M) (take n shares), km_aux = map (g1_ser M) aux\<rparr>)))"

text \<open>The checks of what the others sent, in the order of the parties.\<close>

fun keygen_loop :: "('g1, 'g2, 'gt) mcl \<Rightarrow> (octet list \<Rightarrow> octet list) \<Rightarrow> nat \<Rightarrow> kg_msg list \<Rightarrow> nat \<Rightarrow> nat list \<Rightarrow> int \<times> 'g1 \<Rightarrow>
    err + int \<times> 'g1" where
  "keygen_loop M H me msgs naux [] (sk, vk) = Inr (sk, vk)"
| "keygen_loop M H me msgs naux (i # is) (sk, vk) =
     (if i \<noteq> me
      then
        let tmp_share = fr_des M (km_shares (msgs ! i) ! me);
            aux_tmp = map (g1_des M) (take naux (km_aux (msgs ! i)))
        in (case Open H os_empty (km_comm (msgs ! i)) (km_open (msgs ! i)) 1 of Inl e \<Rightarrow> Inl e
            | Inr (res1, os_ss) \<Rightarrow>
              let ss = bytes_of os_ss;
                  res2 = verify_share M tmp_share aux_tmp (me + 1);
                  a0 = g1_des M ss;
                  res3 = (a0 = aux_tmp ! 0)
              in if res1 \<and> res2 \<and> res3
                 then keygen_loop M H me msgs naux is
                   (fr_add (m_fr M) sk tmp_share, g1_add M vk (aux_tmp ! 0))
                 else Inl Invalid_commitment)
      else keygen_loop M H me msgs naux is (sk, vk))"

definition dstb_keygen :: "('g1, 'g2, 'gt) mcl \<Rightarrow> (octet list \<Rightarrow> octet list) \<Rightarrow> int \<Rightarrow> int list \<Rightarrow> octet list \<Rightarrow> nat \<Rightarrow>
    nat \<Rightarrow> kg_msg list \<Rightarrow> ('g1, 'g2) bls \<Rightarrow> err + ('g1, 'g2) bls" where
  "dstb_keygen M H s rnd crnd n me msgs b =
     (case dstb_keygen_send M H s rnd crnd n me b of Inl e \<Rightarrow> Inl e
      | Inr (shares, aux, _) \<Rightarrow>
        (case keygen_loop M H me msgs (length aux) [0..<n] (shares ! me, aux ! 0) of Inl e \<Rightarrow> Inl e
         | Inr (sk, vk) \<Rightarrow> Inr (b\<lparr>bl_sk := sk, bl_vk := vk\<rparr>)))"

section \<open>Coordinates\<close>

text \<open>
  \<open>mclBnG2_getStr\<close> writes a point as a text, from which the code cuts out four numbers; GMP
  reads them.
\<close>

record 'g2 g2_text =
  getStr :: "'g2 \<Rightarrow> string"
  mpz_str :: "string \<Rightarrow> int"

text \<open>One turn of the loop of \<open>mclBnG2_to_str\<close>: \<open>find\<close> returns \<open>-1\<close> when there is no space.\<close>

definition cut_word :: "string \<Rightarrow> string \<times> string" where
  "cut_word str =
     (if CHR '' '' \<in> set str
      then let l = length (takeWhile (\<lambda>x. x \<noteq> CHR '' '') str) in (take l str, drop (l + 1) str)
      else (str, str))"

definition mclBnG2_to_str :: "'g2 g2_text \<Rightarrow> 'g2 \<Rightarrow> string list" where
  "mclBnG2_to_str T a =
     (let str = drop 2 (getStr T a);
          (o0, str) = cut_word str;
          (o1, str) = cut_word str;
          (o2, str) = cut_word str
      in [o0, o1, o2, str])"

definition mclBnG2_to_gfp :: "'g2 g2_text \<Rightarrow> int \<Rightarrow> 'g2 \<Rightarrow> int list" where
  "mclBnG2_to_gfp T p a = map (\<lambda>str. to_gfp p (mpz_str T str)) (mclBnG2_to_str T a)"

definition mclBnG2_to_Complex_Plain :: "'g2 g2_text \<Rightarrow> int \<Rightarrow> 'g2 \<Rightarrow> cx_plain \<times> cx_plain" where
  "mclBnG2_to_Complex_Plain T p s =
     (let vg = mclBnG2_to_gfp T p s
      in (\<lparr>cx_real = vg ! 0, cx_imag = vg ! 1\<rparr>, \<lparr>cx_real = vg ! 2, cx_imag = vg ! 3\<rparr>))"

section \<open>Distributed signature\<close>

text \<open>The parties' partial signatures: \<open>bs ! p\<close> is the state of party \<open>p\<close>.\<close>

definition partial_sign :: "('g1, 'g2, 'gt) mcl \<Rightarrow> octet list \<Rightarrow> nat \<Rightarrow> ('g1, 'g2) bls list \<Rightarrow> nat \<Rightarrow> err + ('g1, 'g2) bls" where
  "partial_sign M msg n bs p =
     (case get_lagrange_coeff (m_fr M) n (p + 1) of Inl e \<Rightarrow> Inl e
      | Inr lag_coeff \<Rightarrow> Inr (sign_scale M lag_coeff msg (bs ! p)))"

text \<open>
  Every party inputs the coordinates of its signature; the others pass the default value for
  it. The shares of the points are added in the order of the parties.
\<close>

definition zero_plain :: cx_plain where
  "zero_plain = \<lparr>cx_real = 0, cx_imag = 0\<rparr>"

definition input_point :: "ctx \<Rightarrow> (cx_plain \<times> cx_plain) list \<Rightarrow> nat \<Rightarrow> (mpc, jcx affine) m" where
  "input_point c coords i =
     bnd (cx_get_inputs c i (map (\<lambda>p. if p = i then fst (coords ! p) else zero_plain) [0..<num_players c])) (\<lambda>x.
     bnd (cx_get_inputs c i (map (\<lambda>p. if p = i then snd (coords ! p) else zero_plain) [0..<num_players c])) (\<lambda>y.
     ret \<lparr>aff_x = x, aff_y = y\<rparr>))"

definition dstb_sign :: "ctx \<Rightarrow> ('g1, 'g2, 'gt) mcl \<Rightarrow> 'g2 g2_text \<Rightarrow> octet list \<Rightarrow> ('g1, 'g2) bls list \<Rightarrow>
    (mpc, ('g1, 'g2) bls list \<times> jcx affine) m" where
  "dstb_sign c M T msg bs =
     bnd (mapM (\<lambda>p. lift (partial_sign M msg (num_players c) bs p)) [0..<num_players c]) (\<lambda>bs.
     let coords = map (\<lambda>b. mclBnG2_to_Complex_Plain T (pr c) (bl_sigma b)) bs in
     bnd (mapM (input_point c coords) [0..<num_players c]) (\<lambda>ac.
     bnd (foldM (\<lambda>i out. g2_add_aff_inplace c out (ac ! i)) [1..<length ac] (ac ! 0)) (\<lambda>out.
     ret (bs, out))))"

section \<open>Signatures verify\<close>

lemma bls_verify_iff:
  assumes M: "mcl_ok M" and v: "bl_vk b = g1_mul M (g1_base M) x"
  shows "bls_verify M sigma msg b = 1 \<longleftrightarrow> sigma = g2_mul M (g2_hash M msg) x"
proof -
  have "m_pairing M (bl_vk b) (g2_hash M msg) = m_pairing M (g1_base M) (g2_mul M (g2_hash M msg) x)"
    unfolding v by (rule mcl_okD(6) [OF M])
  then show ?thesis using mcl_okD(7) [OF M] by (auto simp: bls_verify_def Let_def)
qed

text \<open>A signature made with a generated key verifies, and it is the only signature of
  the message that does; a failing generator throws \<open>invalid_program\<close>.\<close>
theorem bls_sign_verify:
  assumes "mcl_ok M"
  shows "bls_keygen M None b = Inl Invalid_program \<and>
    (\<exists>b'. bls_keygen M (Some x) b = Inr b' \<and>
      (\<forall>sigma. bls_verify M sigma msg b' = 1 \<longleftrightarrow> sigma = bl_sigma (bls_sign M msg b')))"
  using bls_verify_iff [OF assms, of "b\<lparr>bl_sk := x, bl_vk := g1_mul M (g1_base M) x\<rparr>" x]
  by (simp add: bls_keygen_def bls_sign_def)

definition demo_bls :: "(z13, z13) bls" where
  "demo_bls = \<lparr>bl_sk = 0, bl_vk = z13_of 0, bl_sigma = z13_of 0, bl_nparty = 2, bl_threshold = 1\<rparr>"

theorem bls_sign_verify_witness:
  "\<exists>b. bls_keygen demo_mcl (Some 5) demo_bls = Inr b \<and> bls_verify demo_mcl (bl_sigma (bls_sign demo_mcl [1] b)) [1] b = 1"
  using bls_sign_verify [OF demo_mcl_ok, of demo_bls 5 "[1]"] by auto

section \<open>The key generation of honest parties\<close>

abbreviation party_coeffs :: "nat \<Rightarrow> int \<Rightarrow> int list \<Rightarrow> int list" where
  "party_coeffs t s rnd \<equiv> s # take t rnd"

lemma os_of_ok [simp]: "os_ok (os_of bs)" "written (os_of bs) = bs"
  by (simp_all add: os_ok_def os_of_def written_def)

lemma send_value:
  assumes M: "mcl_ok M" and b: "bl_nparty b = np" "bl_threshold b = t" "t \<le> np" "n \<le> np"
    and c: "\<forall>a \<in> set (party_coeffs t s rnd). in_field (m_r M) a" "t \<le> length rnd" "length crnd = SEED_SIZE"
  shows "\<exists>open. opening_for 1 (g1_ser M (g1_mul M (g1_base M) s)) crnd open \<and>
    dstb_keygen_send M H s rnd crnd n me b =
      Inr (map (\<lambda>i. poly_value (party_coeffs t s rnd) (int i) mod m_r M) [1..<Suc np],
        map (g1_mul M (g1_base M)) (party_coeffs t s rnd),
        \<lparr>km_comm = os_hash H open, km_open = open,
         km_shares = map (\<lambda>i. fr_ser M (poly_value (party_coeffs t s rnd) (int i) mod m_r M)) (take n [1..<Suc np]),
         km_aux = map (\<lambda>a. g1_ser M (g1_mul M (g1_base M) a)) (party_coeffs t s rnd)\<rparr>)"
proof -
  let ?v = "\<lparr>vs_s = s, vs_nparty = np, vs_threshold = t\<rparr>"
  have "gen_share M rnd ?v ([], []) =
      (map (\<lambda>i. poly_value (vss_coeffs rnd ?v) (int i mod m_r M) mod m_r M) [1..<Suc np],
       map (g1_mul M (g1_base M)) (vss_coeffs rnd ?v))"
    using gen_share_value [OF mcl_okD(1) [OF M], where rnd = rnd and v = ?v and shares = "[]" and aux = "[]"] c(1,2) by (simp del: poly_value.simps upt_Suc)
  moreover have "map (\<lambda>i. poly_value (vss_coeffs rnd ?v) (int i mod m_r M) mod m_r M) [1..<Suc np] =
      map (\<lambda>i. poly_value (party_coeffs t s rnd) (int i) mod m_r M) [1..<Suc np]"
    unfolding vss.select_convs by (rule map_cong, rule refl, rule poly_value_cong) simp
  ultimately have g: "gen_share M rnd ?v ([], []) =
      (map (\<lambda>i. poly_value (party_coeffs t s rnd) (int i) mod m_r M) [1..<Suc np],
       map (g1_mul M (g1_base M)) (party_coeffs t s rnd))"
    by (simp del: poly_value.simps upt_Suc)
  obtain open' where o: "Commit H crnd os_empty (os_of (g1_ser M (g1_mul M (g1_base M) s))) 1 = Inr (os_hash H open', open')"
      "opening_for 1 (g1_ser M (g1_mul M (g1_base M) s)) crnd open'"
    using Commit_returns [OF os_of_ok(1) c(3)] unfolding os_of_ok(2) by blast
  show ?thesis
    by (rule exI [of _ open'])
      (use o b g in \<open>simp add: dstb_keygen_send_def VSS_def rnd_secret_def take_map del: poly_value.simps upt_Suc\<close>)
qed

lemma keygen_loop_honest:
  assumes M: "mcl_ok M" and H: "hash_ok H"
    and msg: "\<forall>i \<in> set is. i \<noteq> me \<longrightarrow> (\<exists>open crnd. opening_for 1 (g1_ser M (g1_mul M (g1_base M) (S i))) crnd open \<and>
      km_comm (msgs ! i) = os_hash H open \<and> km_open (msgs ! i) = open \<and>
      km_shares (msgs ! i) ! me = fr_ser M (poly_value (A i) (int (me + 1)) mod m_r M) \<and>
      km_aux (msgs ! i) = map (\<lambda>a. g1_ser M (g1_mul M (g1_base M) a)) (A i) \<and> A i \<noteq> [] \<and> A i ! 0 = S i \<and> length (A i) = naux)"
  shows "keygen_loop M H me msgs naux is (a mod m_r M, g1_mul M (g1_base M) k) =
    Inr ((a + (\<Sum>i\<leftarrow>filter (\<lambda>i. i \<noteq> me) is. poly_value (A i) (int (me + 1)))) mod m_r M,
      g1_mul M (g1_base M) (k + (\<Sum>i\<leftarrow>filter (\<lambda>i. i \<noteq> me) is. S i)))"
  using msg
proof (induction "is" arbitrary: a k)
  case Nil
  then show ?case by simp
next
  case (Cons i "is")
  let ?B = "g1_mul M (g1_base M)"
  have L: "fr_ok (m_fr M)" and r: "1 < m_r M" using mcl_okD(1) [OF M] fr_okD(2) by blast+
  show ?case
  proof (cases "i = me")
    case True
    then show ?thesis using Cons.IH Cons.prems by simp
  next
    case False
    define f where "f = poly_value (A i) (int (me + 1))"
    obtain opn crnd where o: "opening_for 1 (g1_ser M (?B (S i))) crnd opn"
        "km_comm (msgs ! i) = os_hash H opn" "km_open (msgs ! i) = opn"
        "km_shares (msgs ! i) ! me = fr_ser M (f mod m_r M)"
        "km_aux (msgs ! i) = map (\<lambda>a. g1_ser M (?B a)) (A i)" "A i \<noteq> []" "A i ! 0 = S i" "length (A i) = naux"
      using Cons.prems False unfolding f_def by auto
    obtain m' where m': "Open H os_empty (os_hash H opn) opn 1 = Inr (True, m')" "written m' = g1_ser M (?B (S i))"
      using Open_accepts [OF H o(1), of os_empty] by auto
    have share: "fr_des M (km_shares (msgs ! i) ! me) = f mod m_r M"
      unfolding o(4) by (rule mcl_okD(8) [OF M]) (use r in simp)
    have aux: "map (g1_des M) (take naux (km_aux (msgs ! i))) = map ?B (A i)"
      unfolding o(5) o(8) [symmetric] by (simp add: mcl_okD(9) [OF M])
    have ver: "verify_share M (f mod m_r M) (map ?B (A i)) (me + 1)"
      by (simp only: verify_share_iff [OF M refl] f_def mod_mod_trivial)
    have a0: "g1_des M (bytes_of m') = map ?B (A i) ! 0" "map ?B (A i) ! 0 = ?B (S i)"
      using m'(2) o(6,7) by (simp_all add: bytes_of_written mcl_okD(9) [OF M])
    have add: "fr_add (m_fr M) (a mod m_r M) (f mod m_r M) = (a + f) mod m_r M"
      using r by (simp add: fr_okD(4) [OF L] mod_add_eq)
    have vk: "g1_add M (?B k) (?B (S i)) = ?B (k + S i)" by (rule module_laws(3) [OF mcl_okD(2) [OF M], symmetric])
    have "keygen_loop M H me msgs naux (i # is) (a mod m_r M, ?B k) =
        keygen_loop M H me msgs naux is ((a + f) mod m_r M, ?B (k + S i))"
      using False ver by (simp add: Let_def share aux o(2,3) m'(1) a0 add vk)
    also have "\<dots> = Inr ((a + f + (\<Sum>i\<leftarrow>filter (\<lambda>i. i \<noteq> me) is. poly_value (A i) (int (me + 1)))) mod m_r M,
        ?B (k + S i + (\<Sum>i\<leftarrow>filter (\<lambda>i. i \<noteq> me) is. S i)))"
      by (rule Cons.IH) (use Cons.prems in simp)
    finally show ?thesis using False by (simp add: add.assoc f_def)
  qed
qed

end
