(* ===== verification/Threshold.thy ===== *)
theory Threshold
  imports Bls
begin

text \<open>
  What the distributed key generation and the threshold signatures of \<open>Bls\<close> guarantee: the
  keys of honest parties are shares of one polynomial, a party that gets a key has checked
  everything it was sent, and the partial signatures add up to a signature of the common key.
\<close>

section \<open>The keys of honest parties\<close>

lemma filter_others: "me < n \<Longrightarrow> (f me :: int) + (\<Sum>i\<leftarrow>filter (\<lambda>i. i \<noteq> me) [0..<n]. f i) = (\<Sum>i<n. f i)"
proof -
  assume "me < n"
  have "(\<Sum>i\<leftarrow>filter (\<lambda>i. i \<noteq> me) [0..<n]. f i) = (\<Sum>i\<in>{i \<in> {..<n}. i \<noteq> me}. f i)"
    by (subst sum_list_distinct_conv_sum_set) (auto intro: sum.cong)
  also have "{i \<in> {..<n}. i \<noteq> me} = {..<n} - {me}" by auto
  finally show ?thesis using \<open>me < n\<close> sum.remove [of "{..<n}" me f] by simp
qed

text \<open>Party \<open>i\<close> of \<open>n\<close> draws \<open>s i\<close>, \<open>rnd i\<close> and \<open>crnd i\<close> and sends \<open>msgs ! i\<close>.\<close>

definition honest_sends :: "('g1, 'g2, 'gt) mcl \<Rightarrow> (octet list \<Rightarrow> octet list) \<Rightarrow> nat \<Rightarrow> nat \<Rightarrow> (nat \<Rightarrow> int) \<Rightarrow> (nat \<Rightarrow> int list) \<Rightarrow>
    (nat \<Rightarrow> octet list) \<Rightarrow> kg_msg list \<Rightarrow> ('g1, 'g2) bls list \<Rightarrow> bool" where
  "honest_sends M H n t s rnd crnd msgs bs \<longleftrightarrow> t \<le> n \<and> length bs = n \<and> (\<forall>i<n.
     bl_nparty (bs ! i) = n \<and> bl_threshold (bs ! i) = t \<and>
     (\<forall>a \<in> set (party_coeffs t (s i) (rnd i)). in_field (m_r M) a) \<and> t \<le> length (rnd i) \<and>
     length (crnd i) = SEED_SIZE \<and>
     (\<exists>shares aux. dstb_keygen_send M H (s i) (rnd i) (crnd i) n i (bs ! i) = Inr (shares, aux, msgs ! i)))"

lemma honest_message:
  assumes "mcl_ok M" "honest_sends M H n t s rnd crnd msgs bs" "i < n" "me < n"
  shows "\<exists>opn crnd'. opening_for 1 (g1_ser M (g1_mul M (g1_base M) (s i))) crnd' opn \<and>
    km_comm (msgs ! i) = os_hash H opn \<and> km_open (msgs ! i) = opn \<and>
    km_shares (msgs ! i) ! me = fr_ser M (poly_value (party_coeffs t (s i) (rnd i)) (int (me + 1)) mod m_r M) \<and>
    km_aux (msgs ! i) = map (\<lambda>a. g1_ser M (g1_mul M (g1_base M) a)) (party_coeffs t (s i) (rnd i)) \<and>
    party_coeffs t (s i) (rnd i) \<noteq> [] \<and> party_coeffs t (s i) (rnd i) ! 0 = s i \<and>
    length (party_coeffs t (s i) (rnd i)) = t + 1"
proof -
  have h: "bl_nparty (bs ! i) = n" "bl_threshold (bs ! i) = t" "t \<le> n"
    "\<forall>a \<in> set (party_coeffs t (s i) (rnd i)). in_field (m_r M) a" "t \<le> length (rnd i)" "length (crnd i) = SEED_SIZE"
    "\<exists>shares aux. dstb_keygen_send M H (s i) (rnd i) (crnd i) n i (bs ! i) = Inr (shares, aux, msgs ! i)"
    using assms(2,3) unfolding honest_sends_def by blast+
  obtain opn where o: "opening_for 1 (g1_ser M (g1_mul M (g1_base M) (s i))) (crnd i) opn"
      "msgs ! i = \<lparr>km_comm = os_hash H opn, km_open = opn,
        km_shares = map (\<lambda>k. fr_ser M (poly_value (party_coeffs t (s i) (rnd i)) (int k) mod m_r M)) (take n [1..<Suc n]),
        km_aux = map (\<lambda>a. g1_ser M (g1_mul M (g1_base M) a)) (party_coeffs t (s i) (rnd i))\<rparr>"
    using send_value [OF assms(1) h(1-3) le_refl h(4-6), of H i] h(7) by (metis sum.inject(2) prod.inject)
  have "take n [1..<Suc n] ! me = me + 1" "length (take n [1..<Suc n]) = n" using assms(4) by (simp_all del: upt_Suc)
  then have "map (\<lambda>k. fr_ser M (poly_value (party_coeffs t (s i) (rnd i)) (int k) mod m_r M)) (take n [1..<Suc n]) ! me =
      fr_ser M (poly_value (party_coeffs t (s i) (rnd i)) (int (me + 1)) mod m_r M)"
    using assms(4) by (simp only: nth_map)
  with o h(5) show ?thesis
    by (intro exI [of _ opn] exI [of _ "crnd i"])
      (simp del: poly_value.simps upt_Suc of_nat_add add: take_map)
qed

lemma honest_key:
  assumes M: "mcl_ok M" and H: "hash_ok H" and hs: "honest_sends M H n t s rnd crnd msgs bs" and me: "me < n"
  shows "dstb_keygen M H (s me) (rnd me) (crnd me) n me msgs (bs ! me) =
    Inr ((bs ! me)\<lparr>bl_sk := (\<Sum>i<n. poly_value (party_coeffs t (s i) (rnd i)) (int (me + 1))) mod m_r M,
      bl_vk := g1_mul M (g1_base M) (\<Sum>i<n. s i)\<rparr>)"
proof -
  let ?A = "\<lambda>i. party_coeffs t (s i) (rnd i)" and ?B = "g1_mul M (g1_base M)"
  have h: "bl_nparty (bs ! me) = n" "bl_threshold (bs ! me) = t" "t \<le> n"
    "\<forall>a \<in> set (?A me). in_field (m_r M) a" "t \<le> length (rnd me)" "length (crnd me) = SEED_SIZE"
    using hs me unfolding honest_sends_def by blast+
  obtain msg where snd: "dstb_keygen_send M H (s me) (rnd me) (crnd me) n me (bs ! me) =
      Inr (map (\<lambda>i. poly_value (?A me) (int i) mod m_r M) [1..<Suc n], map ?B (?A me), msg)"
    using send_value [OF M h(1-3) le_refl h(4-6), of H me] by blast
  have l: "length (map ?B (?A me)) = t + 1" using h(5) by simp
  have e: "map (\<lambda>i. poly_value (?A me) (int i) mod m_r M) [1..<Suc n] ! me = poly_value (?A me) (int (me + 1)) mod m_r M"
    using me by (simp del: upt_Suc poly_value.simps)
  have k: "keygen_loop M H me msgs (t + 1) [0..<n] (poly_value (?A me) (int (me + 1)) mod m_r M, ?B (s me)) =
    Inr ((poly_value (?A me) (int (me + 1)) + (\<Sum>i\<leftarrow>filter (\<lambda>i. i \<noteq> me) [0..<n]. poly_value (?A i) (int (me + 1)))) mod m_r M,
      ?B (s me + (\<Sum>i\<leftarrow>filter (\<lambda>i. i \<noteq> me) [0..<n]. s i)))"
    by (rule keygen_loop_honest [OF M H]) (use honest_message [OF M hs _ me] in auto)
  show ?thesis
    unfolding dstb_keygen_def snd sum.case prod.case l e k [unfolded filter_others [OF me]]
    using k unfolding filter_others [OF me, of "\<lambda>i. poly_value (?A i) (int (me + 1))"] filter_others [OF me, of s]
    by (simp del: poly_value.simps of_nat_add)
qed

text \<open>The sum of the parties' polynomials.\<close>

lemma poly_value_sum: "poly_value as x = (\<Sum>k<length as. as ! k * x ^ k)"
proof (induction as)
  case Nil
  then show ?case by simp
next
  case (Cons a as)
  have "(\<Sum>k<length (a # as). (a # as) ! k * x ^ k) = a + (\<Sum>k<length as. as ! k * x ^ Suc k)"
    by (simp add: sum.lessThan_Suc_shift del: sum.lessThan_Suc)
  also have "(\<Sum>k<length as. as ! k * x ^ Suc k) = x * (\<Sum>k<length as. as ! k * x ^ k)"
    by (simp add: sum_distrib_left mult.left_commute)
  finally show ?case using Cons by simp
qed

definition joint_poly :: "nat \<Rightarrow> nat \<Rightarrow> (nat \<Rightarrow> int) \<Rightarrow> (nat \<Rightarrow> int list) \<Rightarrow> int list" where
  "joint_poly n t s rnd = map (\<lambda>k. \<Sum>i<n. party_coeffs t (s i) (rnd i) ! k) [0..<t + 1]"

lemma joint_poly_value:
  assumes "\<forall>i<n. t \<le> length (rnd i)"
  shows "poly_value (joint_poly n t s rnd) x = (\<Sum>i<n. poly_value (party_coeffs t (s i) (rnd i)) x)"
proof -
  have l: "length (joint_poly n t s rnd) = t + 1" by (simp add: joint_poly_def)
  have "poly_value (joint_poly n t s rnd) x = (\<Sum>k<t + 1. (\<Sum>i<n. party_coeffs t (s i) (rnd i) ! k) * x ^ k)"
    unfolding poly_value_sum l by (rule sum.cong) (simp_all add: joint_poly_def del: upt_Suc)
  also have "\<dots> = (\<Sum>i<n. \<Sum>k<t + 1. party_coeffs t (s i) (rnd i) ! k * x ^ k)"
    unfolding sum_distrib_right by (rule sum.swap)
  also have "\<dots> = (\<Sum>i<n. poly_value (party_coeffs t (s i) (rnd i)) x)"
    unfolding poly_value_sum by (rule sum.cong) (use assms in auto)
  finally show ?thesis .
qed

lemma poly_value_0: "poly_value (a # as) 0 = a"
  by simp

lemma joint_poly_0: "\<forall>i<n. t \<le> length (rnd i) \<Longrightarrow> poly_value (joint_poly n t s rnd) 0 = (\<Sum>i<n. s i)"
  unfolding joint_poly_value poly_value_0 ..

lemma honest_lengths: "honest_sends M H n t s rnd crnd msgs bs \<Longrightarrow> \<forall>i<n. t \<le> length (rnd i)"
  by (simp add: honest_sends_def)

lemma honest_key_joint:
  assumes "mcl_ok M" "hash_ok H" "honest_sends M H n t s rnd crnd msgs bs" "me < n"
  shows "dstb_keygen M H (s me) (rnd me) (crnd me) n me msgs (bs ! me) =
    Inr ((bs ! me)\<lparr>bl_sk := poly_value (joint_poly n t s rnd) (int (me + 1)) mod m_r M,
      bl_vk := g1_mul M (g1_base M) (poly_value (joint_poly n t s rnd) 0)\<rparr>)"
  using honest_key [OF assms] joint_poly_value [OF honest_lengths [OF assms(3)]] joint_poly_0 [OF honest_lengths [OF assms(3)]]
  by (simp only:)

text \<open>C7: when every party follows the protocol, every party gets a key: the secret keys are
  the values at the party numbers of one polynomial of degree at most the threshold, the
  public key is the same for all and belongs to its value at zero, and the secret keys
  interpolate to it.\<close>
theorem distributed_keygen:
  assumes "mcl_ok M" "hash_ok H" "honest_sends M H n t s rnd crnd msgs bs" "t < n" "int n < m_r M"
  shows "\<exists>F keys. length F = t + 1 \<and> length keys = n \<and>
    (\<forall>me<n. dstb_keygen M H (s me) (rnd me) (crnd me) n me msgs (bs ! me) = Inr (keys ! me) \<and>
      bl_sk (keys ! me) = poly_value F (int (me + 1)) mod m_r M \<and>
      bl_vk (keys ! me) = g1_mul M (g1_base M) (\<Sum>i<n. s i)) \<and>
    vss_recover_share M (map bl_sk keys) = (\<Sum>i<n. s i) mod m_r M"
proof -
  let ?F = "joint_poly n t s rnd"
  let ?key = "\<lambda>me. (bs ! me)\<lparr>bl_sk := poly_value ?F (int (me + 1)) mod m_r M, bl_vk := g1_mul M (g1_base M) (poly_value ?F 0)\<rparr>"
  note L = mcl_okD(1) [OF assms(1)]
  have z: "poly_value ?F 0 = (\<Sum>i<n. s i)" by (rule joint_poly_0 [OF honest_lengths [OF assms(3)]])
  have l: "length ?F = t + 1" by (simp add: joint_poly_def)
  have x: "map (\<lambda>i. fr_int32 (m_fr M) (int (i + 1))) [0..<n] = map int [1..<Suc n]"
    using assms(5) by (intro nth_equalityI) (simp_all add: fr_okD(3) [OF L] del: upt_Suc)
  have y: "map bl_sk (map ?key [0..<n]) = map (\<lambda>i. poly_value ?F (int i) mod m_r M) [1..<Suc n]"
    by (intro nth_equalityI) (simp_all del: upt_Suc)
  have "length (map bl_sk (map ?key [0..<n])) = n" by simp
  then have "vss_recover_share M (map bl_sk (map ?key [0..<n])) = poly_value ?F 0 mod m_r M"
    unfolding vss_recover_share_def Let_def x [symmetric] using mcl_interp [OF assms(1) _ assms(5), of ?F] l assms(4)
    by (simp only: x y)
  then show ?thesis
    using l honest_key_joint [OF assms(1-3)] z by (intro exI [of _ ?F] exI [of _ "map ?key [0..<n]"]) simp
qed

text \<open>Two parties with threshold one over the example groups.\<close>

lemma honest_sends_exist:
  assumes "mcl_ok M" "t \<le> length bs"
    and "\<forall>i<length bs. bl_nparty (bs ! i) = length bs \<and> bl_threshold (bs ! i) = t \<and>
      (\<forall>a \<in> set (party_coeffs t (s i) (rnd i)). in_field (m_r M) a) \<and> t \<le> length (rnd i) \<and> length (crnd i) = SEED_SIZE"
  shows "\<exists>msgs. honest_sends M H (length bs) t s rnd crnd msgs bs"
proof -
  let ?n = "length bs"
  have "\<forall>i<?n. \<exists>msg shares aux. dstb_keygen_send M H (s i) (rnd i) (crnd i) ?n i (bs ! i) = Inr (shares, aux, msg)"
  proof (intro allI impI)
    fix i assume "i < ?n"
    with assms(3) have h: "bl_nparty (bs ! i) = ?n" "bl_threshold (bs ! i) = t" "t \<le> length (rnd i)"
      "\<forall>a \<in> set (party_coeffs t (s i) (rnd i)). in_field (m_r M) a" "length (crnd i) = SEED_SIZE" by blast+
    show "\<exists>msg shares aux. dstb_keygen_send M H (s i) (rnd i) (crnd i) ?n i (bs ! i) = Inr (shares, aux, msg)"
      using send_value [OF assms(1) h(1,2) assms(2) le_refl h(4,3,5), of H i] by blast
  qed
  then obtain f where "\<forall>i<?n. \<exists>shares aux. dstb_keygen_send M H (s i) (rnd i) (crnd i) ?n i (bs ! i) = Inr (shares, aux, f i)"
    by metis
  then show ?thesis using assms(2,3) by (intro exI [of _ "map f [0..<?n]"]) (simp add: honest_sends_def)
qed

definition demo_s :: "nat \<Rightarrow> int" where
  "demo_s i = 5 - int i"

definition demo_rnd :: "nat \<Rightarrow> int list" where
  "demo_rnd i = [4 + int i]"

lemma demo_honest_sends:
  "\<exists>msgs. honest_sends demo_mcl demo_hash 2 1 demo_s demo_rnd (\<lambda>_. replicate 16 0) msgs [demo_bls, demo_bls]"
  using honest_sends_exist [OF demo_mcl_ok, of 1 "[demo_bls, demo_bls]" demo_s demo_rnd "\<lambda>_. replicate 16 0" demo_hash]
  by (simp add: demo_s_def demo_rnd_def demo_bls_def in_field_def SEED_SIZE_def less_Suc_eq numeral_2_eq_2)

theorem distributed_keygen_witness:
  "\<exists>msgs (keys :: (z13, z13) bls list). honest_sends demo_mcl demo_hash 2 1 demo_s demo_rnd (\<lambda>_. replicate 16 0) msgs [demo_bls, demo_bls] \<and>
    length keys = 2 \<and> vss_recover_share demo_mcl (map bl_sk keys) = 9"
proof -
  obtain msgs where m: "honest_sends demo_mcl demo_hash 2 1 demo_s demo_rnd (\<lambda>_. replicate 16 0) msgs [demo_bls, demo_bls]"
    using demo_honest_sends by blast
  have p: "(1::nat) < 2" "int 2 < m_r demo_mcl" by simp_all
  obtain keys :: "(z13, z13) bls list" where "length keys = 2"
      "vss_recover_share demo_mcl (map bl_sk keys) = (\<Sum>i<2. demo_s i) mod m_r demo_mcl"
    using distributed_keygen [OF demo_mcl_ok demo_hash_ok m p] by blast
  moreover have "(\<Sum>i<2. demo_s i) mod m_r demo_mcl = 9" by (simp add: demo_s_def numeral_2_eq_2)
  ultimately show ?thesis using m by metis
qed

section \<open>What a party checks\<close>

text \<open>The commitments a message carries, and the message passing the three checks.\<close>

definition sent_aux :: "('g1, 'g2, 'gt) mcl \<Rightarrow> nat \<Rightarrow> kg_msg \<Rightarrow> 'g1 list" where
  "sent_aux M naux msg = map (g1_des M) (take naux (km_aux msg))"

definition sent_share :: "('g1, 'g2, 'gt) mcl \<Rightarrow> nat \<Rightarrow> kg_msg \<Rightarrow> int" where
  "sent_share M me msg = fr_des M (km_shares msg ! me)"

definition accepted :: "('g1, 'g2, 'gt) mcl \<Rightarrow> (octet list \<Rightarrow> octet list) \<Rightarrow> nat \<Rightarrow> nat \<Rightarrow> kg_msg \<Rightarrow> bool" where
  "accepted M H me naux msg \<longleftrightarrow>
     verify_share M (sent_share M me msg) (sent_aux M naux msg) (me + 1) \<and>
     (\<exists>data. Open H os_empty (km_comm msg) (km_open msg) 1 = Inr (True, data) \<and>
       g1_des M (bytes_of data) = sent_aux M naux msg ! 0)"

lemma Open_errors: "Open H message comm opn p = Inl e \<Longrightarrow> os_ok message \<Longrightarrow> e = Out_of_range"
proof -
  assume o: "Open H message comm opn p = Inl e" and m: "os_ok message"
  have "os_ok (reset_write_head message)" using m by (simp add: os_ok_def reset_write_head_def)
  then obtain t where "exec (os_append (take (os_len opn - SEED_SIZE - 4) (drop 4 (os_data opn)))) (reset_write_head message) = Inr t"
    using exec_appends [OF appends_append] by blast
  then show ?thesis using o by (simp add: Open_def Let_def split: if_splits)
qed

lemma keygen_loop_cases:
  "if \<forall>i \<in> set is. i \<noteq> me \<longrightarrow> accepted M H me naux (msgs ! i)
   then keygen_loop M H me msgs naux is (sk, vk) =
     Inr (foldl (\<lambda>sk i. fr_add (m_fr M) sk (sent_share M me (msgs ! i))) sk (filter (\<lambda>i. i \<noteq> me) is),
       foldl (\<lambda>vk i. g1_add M vk (sent_aux M naux (msgs ! i) ! 0)) vk (filter (\<lambda>i. i \<noteq> me) is))
   else \<exists>e. keygen_loop M H me msgs naux is (sk, vk) = Inl e \<and> (e = Invalid_commitment \<or> e = Out_of_range)"
proof (induction "is" arbitrary: sk vk)
  case Nil
  then show ?case by simp
next
  case (Cons i "is")
  show ?case
  proof (cases "i = me \<or> accepted M H me naux (msgs ! i)")
    case True
    have "keygen_loop M H me msgs naux (i # is) (sk, vk) = keygen_loop M H me msgs naux is
        (if i = me then (sk, vk)
         else (fr_add (m_fr M) sk (sent_share M me (msgs ! i)), g1_add M vk (sent_aux M naux (msgs ! i) ! 0)))"
      using True by (auto simp: accepted_def sent_share_def sent_aux_def Let_def)
    then show ?thesis
      using True Cons.IH [of sk vk]
        Cons.IH [of "fr_add (m_fr M) sk (sent_share M me (msgs ! i))" "g1_add M vk (sent_aux M naux (msgs ! i) ! 0)"]
      by (cases "i = me") (simp_all split: if_splits)
  next
    case False
    have "\<exists>e. keygen_loop M H me msgs naux (i # is) (sk, vk) = Inl e \<and> (e = Invalid_commitment \<or> e = Out_of_range)"
    proof (cases "Open H os_empty (km_comm (msgs ! i)) (km_open (msgs ! i)) 1")
      case (Inl e)
      then show ?thesis using Open_errors [OF Inl] False by (simp add: Let_def)
    next
      case (Inr r)
      then show ?thesis using False by (cases r) (auto simp: accepted_def sent_share_def sent_aux_def Let_def)
    qed
    then show ?thesis using False by auto
  qed
qed

lemma sum_of_shares:
  assumes M: "mcl_ok M" and f: "in_field (m_r M) sk" "\<forall>i \<in> set is. in_field (m_r M) (f i)"
    and v: "\<forall>i \<in> set is. g1_mul M (g1_base M) (f i) = g i"
  shows "g1_mul M (g1_base M) (foldl (\<lambda>sk i. fr_add (m_fr M) sk (f i)) sk is) =
    foldl (\<lambda>P i. g1_add M P (g i)) (g1_mul M (g1_base M) sk) is"
  using f v
proof (induction "is" arbitrary: sk)
  case Nil
  then show ?case by simp
next
  case (Cons i "is")
  note L = mcl_okD(1) [OF M] and m = mcl_okD(2) [OF M]
  have a: "fr_add (m_fr M) sk (f i) = (sk + f i) mod m_r M" by (rule fr_okD(4) [OF L]) (use Cons.prems in simp_all)
  have "g1_mul M (g1_base M) ((sk + f i) mod m_r M) = g1_add M (g1_mul M (g1_base M) sk) (g i)"
    using Cons.prems(3) by (simp add: module_laws(7) [OF m] module_laws(3) [OF m])
  moreover have "in_field (m_r M) ((sk + f i) mod m_r M)" using fr_okD(2) [OF L] by simp
  ultimately show ?case using Cons.IH [of "(sk + f i) mod m_r M"] Cons.prems(2,3) by (simp add: a)
qed

text \<open>C8: a party gets a key exactly when what every other party sent passes its checks, and then
  its secret key belongs to the sum of the committed polynomials at its number and the public
  key is the sum of the committed constants; otherwise it throws, and a threshold above the
  number of parties throws before anything is sent.\<close>
theorem keygen_accepts_iff:
  assumes "mcl_ok M" "bl_nparty b = n" "bl_threshold b = t" "me < n" "length crnd = SEED_SIZE"
    and "\<forall>a \<in> set (party_coeffs t s rnd). in_field (m_r M) a" "t \<le> length rnd"
    and "\<forall>i<n. in_field (m_r M) (sent_share M me (msgs ! i))"
  shows "if n < t then dstb_keygen M H s rnd crnd n me msgs b =
      Inl (Thrown_string ''invalid threshold & party number setting!'')
    else if \<forall>i<n. i \<noteq> me \<longrightarrow> accepted M H me (t + 1) (msgs ! i)
    then \<exists>b'. dstb_keygen M H s rnd crnd n me msgs b = Inr b' \<and>
      g1_mul M (g1_base M) (bl_sk b') =
        foldl (\<lambda>P i. g1_add M P (g1_poly M (sent_aux M (t + 1) (msgs ! i)) (fr_int32 (m_fr M) (int (me + 1)))))
          (g1_mul M (g1_base M) (poly_value (party_coeffs t s rnd) (int (me + 1)))) (filter (\<lambda>i. i \<noteq> me) [0..<n]) \<and>
      bl_vk b' = foldl (\<lambda>P i. g1_add M P (sent_aux M (t + 1) (msgs ! i) ! 0)) (g1_mul M (g1_base M) s)
        (filter (\<lambda>i. i \<noteq> me) [0..<n])
    else dstb_keygen M H s rnd crnd n me msgs b \<in> {Inl Invalid_commitment, Inl Out_of_range}"
proof (cases "n < t")
  case True
  then show ?thesis using assms(2,3) by (simp add: dstb_keygen_def dstb_keygen_send_def VSS_def)
next
  case False
  then have t: "t \<le> n" by simp
  let ?as = "party_coeffs t s rnd" and ?B = "g1_mul M (g1_base M)" and ?o = "filter (\<lambda>i. i \<noteq> me) [0..<n]"
  let ?own = "poly_value ?as (int (me + 1)) mod m_r M"
  note L = mcl_okD(1) [OF assms(1)] and m = mcl_okD(2) [OF assms(1)]
  obtain msg where snd: "dstb_keygen_send M H s rnd crnd n me b =
      Inr (map (\<lambda>i. poly_value ?as (int i) mod m_r M) [1..<Suc n], map ?B ?as, msg)"
    using send_value [OF assms(1-3) t le_refl assms(6,7,5), of H me] by blast
  have l: "length (map ?B ?as) = t + 1" using assms(7) by simp
  have e: "map (\<lambda>i. poly_value ?as (int i) mod m_r M) [1..<Suc n] ! me = ?own"
    using assms(4) by (simp del: upt_Suc poly_value.simps)
  have h: "map ?B ?as ! 0 = ?B s" by simp
  have d: "dstb_keygen M H s rnd crnd n me msgs b =
      (case keygen_loop M H me msgs (t + 1) [0..<n] (?own, ?B s) of Inl e \<Rightarrow> Inl e
       | Inr (sk, vk) \<Rightarrow> Inr (b\<lparr>bl_sk := sk, bl_vk := vk\<rparr>))"
    unfolding dstb_keygen_def snd sum.case prod.case l e h ..
  note c = keygen_loop_cases [of "[0..<n]" me M H "t + 1" msgs ?own "?B s"]
  show ?thesis
  proof (cases "\<forall>i<n. i \<noteq> me \<longrightarrow> accepted M H me (t + 1) (msgs ! i)")
    case True
    let ?f = "\<lambda>i. sent_share M me (msgs ! i)"
    let ?g = "\<lambda>i. g1_poly M (sent_aux M (t + 1) (msgs ! i)) (fr_int32 (m_fr M) (int (me + 1)))"
    have "\<forall>i \<in> set ?o. ?B (?f i) = ?g i" using True by (auto simp: accepted_def verify_share_def Let_def)
    then have "?B (foldl (\<lambda>sk i. fr_add (m_fr M) sk (?f i)) ?own ?o) = foldl (\<lambda>P i. g1_add M P (?g i)) (?B ?own) ?o"
      by (intro sum_of_shares [OF assms(1)]) (use assms(8) fr_okD(2) [OF L] in auto)
    moreover have "?B ?own = ?B (poly_value ?as (int (me + 1)))" by (rule module_laws(7) [OF m])
    moreover have k: "\<forall>i \<in> set [0..<n]. i \<noteq> me \<longrightarrow> accepted M H me (t + 1) (msgs ! i)" using True by simp
    ultimately show ?thesis
      unfolding if_not_P [OF False] if_P [OF True] d c [unfolded if_P [OF k]] by simp
  next
    case no: False
    then have "\<not> (\<forall>i \<in> set [0..<n]. i \<noteq> me \<longrightarrow> accepted M H me (t + 1) (msgs ! i))" by auto
    from c [unfolded if_not_P [OF this]] show ?thesis unfolding if_not_P [OF False] if_not_P [OF no] d by auto
  qed
qed

definition demo_bad_message :: kg_msg where
  "demo_bad_message = \<lparr>km_comm = os_empty, km_open = os_empty, km_shares = [[1], [1]], km_aux = [[1], [1]]\<rparr>"

theorem keygen_accepts_iff_witness:
  "dstb_keygen demo_mcl demo_hash 5 [4] (replicate 16 0) 2 0 [demo_bad_message, demo_bad_message] demo_bls
    \<in> {Inl Invalid_commitment, Inl Out_of_range}"
proof -
  let ?ms = "[demo_bad_message, demo_bad_message]"
  have "\<not> accepted demo_mcl demo_hash 0 (1 + 1) (?ms ! 1)"
    by (simp add: accepted_def demo_bad_message_def Open_def os_empty_def)
  moreover have "(1::nat) < 2" "(1::nat) \<noteq> 0" by simp_all
  ultimately have bad: "\<not> (\<forall>i<2. i \<noteq> 0 \<longrightarrow> accepted demo_mcl demo_hash 0 (1 + 1) (?ms ! i))"
    by blast
  have f: "\<forall>i<2. in_field (m_r demo_mcl) (sent_share demo_mcl 0 (?ms ! i))"
    by (simp add: numeral_2_eq_2 less_Suc_eq sent_share_def demo_bad_message_def demo_mcl_def demo_fr13_def in_field_def)
  have b: "bl_nparty demo_bls = 2" "bl_threshold demo_bls = 1" "(0::nat) < 2" "length (replicate 16 0) = SEED_SIZE"
    "\<forall>a \<in> set (party_coeffs 1 5 [4]). in_field (m_r demo_mcl) a" "1 \<le> length [4::int]" "\<not> 2 < (1::nat)"
    by (simp_all add: demo_bls_def SEED_SIZE_def in_field_def)
  show ?thesis
    using keygen_accepts_iff [OF demo_mcl_ok b(1-6) f, of demo_hash] unfolding if_not_P [OF b(7)] if_not_P [OF bad] .
qed

section \<open>Threshold signatures\<close>

lemma node_shares:
  assumes "length F \<le> n"
  shows "(\<Sum>p<n. poly_value F (int (p + 1)) * node_coeff n (p + 1)) = poly_value F 0"
proof -
  have "(\<Sum>p<n. poly_value F (int (p + 1)) * node_coeff n (p + 1)) =
      (\<Sum>p\<leftarrow>[0..<n]. node_coeff n (p + 1) * poly_value F (int (p + 1)))"
    by (simp add: mult.commute atLeast0LessThan sum_set_upt_conv_sum_list_nat [symmetric])
  also have "\<dots> = (\<Sum>i\<leftarrow>[1..<Suc n]. node_coeff n i * poly_value F (int i))"
    by (rule arg_cong [where f = sum_list], rule nth_equalityI) (simp_all del: upt_Suc)
  finally show ?thesis using interpolation_at_zero [OF assms] by simp
qed

text \<open>The points of the partial signatures, added in the order of the parties.\<close>

definition aggregate :: "('g1, 'g2, 'gt) mcl \<Rightarrow> ('g1, 'g2) bls list \<Rightarrow> 'g2" where
  "aggregate M sigs = foldl (\<lambda>out b. g2_add M out (bl_sigma b)) (bl_sigma (hd sigs)) (tl sigs)"

lemma foldl_multiples:
  assumes "module_ok r gadd gmul"
  shows "foldl (\<lambda>out k. gadd out (gmul h (f k))) (gmul h a) ks = gmul h (a + (\<Sum>k\<leftarrow>ks. f k))"
  by (induction ks arbitrary: a) (simp_all add: module_laws(3) [OF assms, symmetric] add.assoc)

lemma partial_sign_value:
  assumes "mcl_ok M" "p < n" "int n < m_r M" "in_field (m_r M) (bl_sk (bs ! p))"
  shows "partial_sign M msg n bs p =
    Inr ((bs ! p)\<lparr>bl_sigma := g2_mul M (g2_hash M msg) (bl_sk (bs ! p) * node_coeff n (p + 1))\<rparr>)"
proof -
  note L = mcl_okD(1) [OF assms(1)]
  have "get_lagrange_coeff (m_fr M) n (p + 1) = Inr (node_coeff n (p + 1) mod m_r M)"
    by (rule get_lagrange_coeff_value [OF L assms(3)]) (use assms(2) in simp_all)
  moreover have "g2_mul M h (fr_mul (m_fr M) a (b mod m_r M)) = g2_mul M h (a * b)" if "in_field (m_r M) a" for h a b
    by (rule mul_cong [OF mcl_okD(3) [OF assms(1)]]) (simp add: fr_okD(5) [OF L that in_field_residue [OF fr_okD(2) [OF L]]] mod_mult_right_eq)
  ultimately show ?thesis using assms(4) by (simp add: partial_sign_def sign_scale_def)
qed

lemma aggregate_value:
  assumes M: "mcl_ok M" and F: "length F \<le> n" "0 < n" and k: "length keys = n"
    "\<forall>p<n. bl_sk (keys ! p) = poly_value F (int (p + 1)) mod m_r M"
  shows "aggregate M (map (\<lambda>p. (keys ! p)\<lparr>bl_sigma := g2_mul M h (bl_sk (keys ! p) * node_coeff n (p + 1))\<rparr>) [0..<n]) =
    g2_mul M h (poly_value F 0)"
proof -
  note m = mcl_okD(3) [OF M]
  let ?f = "\<lambda>p. poly_value F (int (p + 1)) * node_coeff n (p + 1)"
  have e: "g2_mul M h (bl_sk (keys ! p) * node_coeff n (p + 1)) = g2_mul M h (?f p)" if "p < n" for p
    by (rule mul_cong [OF m]) (use k(2) that in \<open>simp add: mod_mult_left_eq\<close>)
  have u: "[0..<n] = 0 # [1..<n]" using F(2) by (simp add: upt_conv_Cons)
  have "aggregate M (map (\<lambda>p. (keys ! p)\<lparr>bl_sigma := g2_mul M h (bl_sk (keys ! p) * node_coeff n (p + 1))\<rparr>) [0..<n]) =
      foldl (\<lambda>out p. g2_add M out (g2_mul M h (?f p))) (g2_mul M h (?f 0)) [1..<n]"
    unfolding u aggregate_def list.map list.sel foldl_map
    by (rule foldl_cong) (use e F(2) in auto)
  also have "\<dots> = g2_mul M h (\<Sum>p\<leftarrow>[0..<n]. ?f p)" unfolding foldl_multiples [OF m] u by simp
  also have "(\<Sum>p\<leftarrow>[0..<n]. ?f p) = (\<Sum>p<n. ?f p)"
    by (simp add: atLeast0LessThan sum_set_upt_conv_sum_list_nat [symmetric])
  finally show ?thesis unfolding node_shares [OF F(1)] .
qed

text \<open>C6: the partial signatures made with the keys of the distributed key generation add up to
  the one point that verifies under the public key, which no party signed for.\<close>
theorem threshold_signature_verifies:
  assumes "mcl_ok M" "hash_ok H" "honest_sends M H n t s rnd crnd msgs bs" "t < n" "int n < m_r M"
  shows "\<exists>keys sigs. length keys = n \<and> length sigs = n \<and>
    (\<forall>p<n. dstb_keygen M H (s p) (rnd p) (crnd p) n p msgs (bs ! p) = Inr (keys ! p) \<and>
      partial_sign M msg n keys p = Inr (sigs ! p)) \<and>
    (\<forall>p<n. \<forall>sigma. bls_verify M sigma msg (keys ! p) = 1 \<longleftrightarrow> sigma = aggregate M sigs)"
proof -
  let ?F = "joint_poly n t s rnd" and ?h = "g2_hash M msg"
  let ?key = "\<lambda>p. (bs ! p)\<lparr>bl_sk := poly_value ?F (int (p + 1)) mod m_r M, bl_vk := g1_mul M (g1_base M) (poly_value ?F 0)\<rparr>"
  define keys where "keys = map ?key [0..<n]"
  define sigs where "sigs = map (\<lambda>p. (keys ! p)\<lparr>bl_sigma := g2_mul M ?h (bl_sk (keys ! p) * node_coeff n (p + 1))\<rparr>) [0..<n]"
  have k: "length keys = n" "\<forall>p<n. keys ! p = ?key p" by (simp_all add: keys_def)
  have l: "length ?F \<le> n" "0 < n" using assms(4) by (simp_all add: joint_poly_def)
  have agg: "aggregate M sigs = g2_mul M ?h (poly_value ?F 0)"
    unfolding sigs_def by (rule aggregate_value [OF assms(1) l k(1)]) (use k(2) in simp)
  have "bls_verify M sigma msg (keys ! p) = 1 \<longleftrightarrow> sigma = aggregate M sigs" if "p < n" for p sigma
    unfolding agg by (rule bls_verify_iff [OF assms(1)]) (use k(2) that in simp)
  moreover have "partial_sign M msg n keys p = Inr (sigs ! p)" if "p < n" for p
    using partial_sign_value [OF assms(1) that assms(5), of keys msg] that k(2) fr_okD(2) [OF mcl_okD(1) [OF assms(1)]]
    by (simp add: sigs_def)
  moreover have "dstb_keygen M H (s p) (rnd p) (crnd p) n p msgs (bs ! p) = Inr (keys ! p)" if "p < n" for p
    using honest_key_joint [OF assms(1-3) that] k(2) that by simp
  ultimately show ?thesis using k(1) by (intro exI [of _ keys] exI [of _ sigs]) (simp add: sigs_def)
qed

theorem threshold_signature_verifies_witness:
  "\<exists>keys sigs. length keys = 2 \<and> partial_sign demo_mcl [1] 2 keys 0 = Inr (sigs ! 0) \<and>
    bls_verify demo_mcl (aggregate demo_mcl sigs) [1] (keys ! 1) = 1"
proof -
  obtain msgs where m: "honest_sends demo_mcl demo_hash 2 1 demo_s demo_rnd (\<lambda>_. replicate 16 0) msgs [demo_bls, demo_bls]"
    using demo_honest_sends by blast
  have "\<exists>keys sigs. length keys = 2 \<and> length sigs = 2 \<and>
    (\<forall>p<2. dstb_keygen demo_mcl demo_hash (demo_s p) (demo_rnd p) (replicate 16 0) 2 p msgs ([demo_bls, demo_bls] ! p) = Inr (keys ! p) \<and>
      partial_sign demo_mcl [1] 2 keys p = Inr (sigs ! p)) \<and>
    (\<forall>p<2. \<forall>sigma. bls_verify demo_mcl sigma [1] (keys ! p) = 1 \<longleftrightarrow> sigma = aggregate demo_mcl sigs)"
    by (rule threshold_signature_verifies [OF demo_mcl_ok demo_hash_ok m]) simp_all
  then show ?thesis by force
qed

end
