(* ===== verification/Signature.thy ===== *)
theory Signature
  imports Threshold Arithmetic
begin

text \<open>
  The distributed signature: every party inputs the coordinates of its partial signature, and
  the parties add the points over shares. The coordinates the library writes must satisfy
  the curve's addition law; the opened result is then the threshold signature.
\<close>

section \<open>Coordinates of points\<close>

abbreviation pt_x :: "ctx \<Rightarrow> 'g2 g2_text \<Rightarrow> 'g2 \<Rightarrow> gint" where
  "pt_x c T P \<equiv> cx_val (fst (mclBnG2_to_Complex_Plain T (pr c) P))"

abbreviation pt_y :: "ctx \<Rightarrow> 'g2 g2_text \<Rightarrow> 'g2 \<Rightarrow> gint" where
  "pt_y c T P \<equiv> cx_val (snd (mclBnG2_to_Complex_Plain T (pr c) P))"

text \<open>A share of a point, and the points that have coordinates at all.\<close>

abbreviation pt_sh :: "ctx \<Rightarrow> 'g2 g2_text \<Rightarrow> jcx affine \<Rightarrow> 'g2 \<Rightarrow> bool" where
  "pt_sh c T R P \<equiv> aff_rep (cx_sh c) R (pt_x c T P) (pt_y c T P)"

abbreviation finite_pt :: "('g1, 'g2, 'gt) mcl \<Rightarrow> 'g2 \<Rightarrow> bool" where
  "finite_pt M P \<equiv> P \<noteq> g2_mul M P 0"

text \<open>The library adds points with different abscissas by the chord law.\<close>

definition coords_ok :: "ctx \<Rightarrow> ('g1, 'g2, 'gt) mcl \<Rightarrow> 'g2 g2_text \<Rightarrow> bool" where
  "coords_ok c M T \<longleftrightarrow> (\<forall>P Q. finite_pt M P \<longrightarrow> finite_pt M Q \<longrightarrow> cx_unit c (pt_x c T P - pt_x c T Q) \<longrightarrow>
     finite_pt M (g2_add M P Q) \<and>
     (\<exists>m. gcong c (m * (pt_x c T P - pt_x c T Q)) (pt_y c T P - pt_y c T Q) \<and>
       gcong c (chord_x m (pt_x c T P) (pt_x c T Q)) (pt_x c T (g2_add M P Q)) \<and>
       gcong c (chord_y m (pt_x c T P) (pt_y c T P) (pt_x c T Q)) (pt_y c T (g2_add M P Q))))"

lemma keeps_lift: "r = Inr x \<Longrightarrow> Q x \<Longrightarrow> keeps I (lift r) Q E"
  by (simp add: lift_def keeps_ret)

lemma runs_g2_points:
  assumes c: "wf c" "wf_prime c" "masks_nonzero c" and C: "coords_ok c M T"
    and P: "pt_sh c T R P" "finite_pt M P" and Q: "pt_sh c T S Q" "finite_pt M Q"
  shows "keeps (good c) (g2_add_aff_inplace c R S)
    (\<lambda>r. cx_unit c (pt_x c T P - pt_x c T Q) \<and> pt_sh c T r (g2_add M P Q) \<and> finite_pt M (g2_add M P Q))
    (\<lambda>e. e = Division_by_zero \<and> \<not> cx_unit c (pt_x c T P - pt_x c T Q))"
proof (cases "cx_unit c (pt_x c T P - pt_x c T Q)")
  case False
  have "\<not> cx_unit c (pt_x c T P - pt_x c T Q) \<Longrightarrow> keeps (good c) (g2_add_aff c R S) (\<lambda>_. False) (\<lambda>e. e = Division_by_zero)"
  proof -
    have d: "cx_sh c (cx_sub c (aff_x R) (aff_x S)) (pt_x c T P - pt_x c T Q)"
      using P(1) Q(1) by (auto simp: aff_rep_def intro: cx_sh_local)
    show "keeps (good c) (g2_add_aff c R S) (\<lambda>_. False) (\<lambda>e. e = Division_by_zero)"
      unfolding g2_add_aff_def Let_def by (rule keeps_bnd [OF runs_cx_div_zero [OF c(1) d False]]) simp
  qed
  from this [OF False] show ?thesis unfolding g2_add_aff_inplace_def bnd_right by (rule keeps_conseq) (use False in auto)
next
  case True
  obtain m where m: "finite_pt M (g2_add M P Q)" "gcong c (m * (pt_x c T P - pt_x c T Q)) (pt_y c T P - pt_y c T Q)"
      "gcong c (chord_x m (pt_x c T P) (pt_x c T Q)) (pt_x c T (g2_add M P Q))"
      "gcong c (chord_y m (pt_x c T P) (pt_y c T P) (pt_x c T Q)) (pt_y c T (g2_add M P Q))"
    using C P(2) Q(2) True unfolding coords_ok_def by blast
  have E: "masks_nonzero c \<and> cx_unit c (pt_x c T P - pt_x c T Q) \<or> (\<lambda>_. False) Division_by_zero" using c(3) True by simp
  have k: "keeps (good c) (g2_add_aff c R S) (\<lambda>r. pt_sh c T r (g2_add M P Q)) (\<lambda>_. False)"
  proof (rule runs_post [OF runs_g2_add_aff [where E = "\<lambda>_. False", OF c(1,2) P(1) Q(1) E]])
    fix r assume "\<exists>m'. gcong c (m' * (pt_x c T P - pt_x c T Q)) (pt_y c T P - pt_y c T Q) \<and>
      aff_rep (cx_sh c) r (chord_x m' (pt_x c T P) (pt_x c T Q)) (chord_y m' (pt_x c T P) (pt_y c T P) (pt_x c T Q))"
    from g2.chord_rep [OF c(2) True m(2) this] show "pt_sh c T r (g2_add M P Q)"
      using m(3,4) cx_sh_cong unfolding aff_rep_def by blast
  qed
  show ?thesis unfolding g2_add_aff_inplace_def bnd_right by (rule keeps_conseq [OF k]) (use True m(1) in auto)
qed

section \<open>Inputs\<close>

lemma runs_cx_get_inputs:
  assumes "wf c" "i < num_players c" "length ins = num_players c" "\<forall>p < num_players c. cx_plain_ok c (ins ! p)"
  shows "keeps (good c) (cx_get_inputs c i ins) (\<lambda>r. cx_sh c r (cx_val (ins ! i))) E"
proof -
  have "\<forall>p < num_players c. in_field (pr c) (map cx_real ins ! p)" "\<forall>p < num_players c. in_field (pr c) (map cx_imag ins ! p)"
    using assms(3,4) by (simp_all add: cx_plain_ok_def)
  then have k: "keeps (good c) (get_inputs c i (map cx_real ins)) (\<lambda>r. sh c r (map cx_real ins ! i)) E"
    "keeps (good c) (get_inputs c i (map cx_imag ins)) (\<lambda>r. sh c r (map cx_imag ins ! i)) E"
    using runs_get_inputs [OF assms(1,2)] by blast+
  show ?thesis
    unfolding cx_get_inputs_def
    by (rule keeps_bnd [OF k(1)], rule keeps_bnd [OF k(2)], rule keeps_ret)
      (use assms(2,3) in \<open>simp add: cx_sh_def cx_val_def\<close>)
qed

lemma plain_point_ok:
  assumes "wf c"
  shows "cx_plain_ok c (fst (mclBnG2_to_Complex_Plain T (pr c) P))" "cx_plain_ok c (snd (mclBnG2_to_Complex_Plain T (pr c) P))"
    "cx_plain_ok c zero_plain"
  using wf_pr [OF assms]
  by (simp_all add: mclBnG2_to_Complex_Plain_def mclBnG2_to_gfp_def mclBnG2_to_str_def cx_plain_ok_def zero_plain_def
      in_field_def to_gfp_mod split: prod.splits)

lemma runs_input_point:
  assumes c: "wf c" and i: "i < num_players c" and p: "\<forall>p < num_players c. \<exists>P. coords ! p = mclBnG2_to_Complex_Plain T (pr c) P"
    and P: "coords ! i = mclBnG2_to_Complex_Plain T (pr c) Q"
  shows "keeps (good c) (input_point c coords i) (\<lambda>R. pt_sh c T R Q) E"
proof -
  let ?in = "\<lambda>f. map (\<lambda>p. if p = i then f (coords ! p) else zero_plain) [0..<num_players c]"
  have ok: "\<forall>p < num_players c. cx_plain_ok c (?in f ! p)" if f: "f = fst \<or> f = snd" for f
  proof (intro allI impI)
    fix q assume q: "q < num_players c"
    then obtain Q' where "coords ! q = mclBnG2_to_Complex_Plain T (pr c) Q'" using p by blast
    then have "cx_plain_ok c (f (coords ! q))" using f plain_point_ok(1,2) [OF c, of T Q'] by auto
    then show "cx_plain_ok c (?in f ! q)" using q plain_point_ok(3) [OF c] by (cases "q = i") simp_all
  qed
  have k: "keeps (good c) (cx_get_inputs c i (?in f)) (\<lambda>r. cx_sh c r (cx_val (f (coords ! i)))) E" if "f = fst \<or> f = snd" for f
    using runs_cx_get_inputs [OF c i _ ok [OF that]] i by simp
  show ?thesis
    unfolding input_point_def
    by (rule keeps_bnd [OF k [of fst]], simp, rule keeps_bnd [OF k [of snd]], simp, rule keeps_ret)
      (simp add: aff_rep_def P)
qed

section \<open>The sum of the points\<close>

text \<open>The sum of the first \<open>k\<close> points, and that no addition meets equal abscissas.\<close>

definition partial_sum :: "('g1, 'g2, 'gt) mcl \<Rightarrow> ('g1, 'g2) bls list \<Rightarrow> nat \<Rightarrow> 'g2" where
  "partial_sum M sigs k = aggregate M (take k sigs)"

definition distinct_abscissas :: "ctx \<Rightarrow> ('g1, 'g2, 'gt) mcl \<Rightarrow> 'g2 g2_text \<Rightarrow> ('g1, 'g2) bls list \<Rightarrow> bool" where
  "distinct_abscissas c M T sigs \<longleftrightarrow> (\<forall>k. 0 < k \<longrightarrow> k < length sigs \<longrightarrow>
     cx_unit c (pt_x c T (partial_sum M sigs k) - pt_x c T (bl_sigma (sigs ! k))))"

lemma partial_sum_Suc:
  assumes "0 < k" "k < length sigs"
  shows "partial_sum M sigs (Suc k) = g2_add M (partial_sum M sigs k) (bl_sigma (sigs ! k))"
proof -
  obtain a as where "sigs = a # as" using assms by (cases sigs) auto
  then show ?thesis
    using assms by (cases k) (simp_all add: partial_sum_def aggregate_def take_Suc_conv_app_nth)
qed

lemma runs_point_sum:
  assumes c: "wf c" "wf_prime c" "masks_nonzero c" and C: "coords_ok c M T"
    and f: "\<forall>p < length sigs. finite_pt M (bl_sigma (sigs ! p))" and n: "0 < length sigs"
    and a: "length ac = length sigs" "\<forall>p < length sigs. pt_sh c T (ac ! p) (bl_sigma (sigs ! p))"
  shows "keeps (good c) (foldM (\<lambda>i out. g2_add_aff_inplace c out (ac ! i)) [1..<length ac] (ac ! 0))
    (\<lambda>r. distinct_abscissas c M T sigs \<and> pt_sh c T r (aggregate M sigs))
    (\<lambda>e. e = Division_by_zero \<and> \<not> distinct_abscissas c M T sigs)"
proof -
  let ?u = "\<lambda>k. cx_unit c (pt_x c T (partial_sum M sigs k) - pt_x c T (bl_sigma (sigs ! k)))"
  let ?J = "\<lambda>k r. (\<forall>j. 0 < j \<longrightarrow> j < k \<longrightarrow> ?u j) \<and> pt_sh c T r (partial_sum M sigs k) \<and> finite_pt M (partial_sum M sigs k)"
  have one: "partial_sum M sigs 1 = bl_sigma (sigs ! 0)"
    using n by (cases sigs) (simp_all add: partial_sum_def aggregate_def)
  have "keeps (good c) (foldM (\<lambda>i out. g2_add_aff_inplace c out (ac ! i)) [1..<length ac] (ac ! 0)) (?J (length ac))
      (\<lambda>e. e = Division_by_zero \<and> \<not> distinct_abscissas c M T sigs)"
  proof (rule keeps_foldM_upt)
    fix k r assume k: "1 \<le> k" "k < length ac" and J: "?J k r"
    have l: "0 < k" "k < length sigs" using k a(1) by simp_all
    show "keeps (good c) (g2_add_aff_inplace c r (ac ! k)) (?J (Suc k))
        (\<lambda>e. e = Division_by_zero \<and> \<not> distinct_abscissas c M T sigs)"
    proof (rule keeps_conseq [OF runs_g2_points [OF c C]])
      show "pt_sh c T r (partial_sum M sigs k)" "finite_pt M (partial_sum M sigs k)" using J by blast+
      show "pt_sh c T (ac ! k) (bl_sigma (sigs ! k))" "finite_pt M (bl_sigma (sigs ! k))" using a(2) f l by blast+
      show "?J (Suc k) r'" if "?u k \<and> pt_sh c T r' (g2_add M (partial_sum M sigs k) (bl_sigma (sigs ! k))) \<and>
          finite_pt M (g2_add M (partial_sum M sigs k) (bl_sigma (sigs ! k)))" for r'
        using that J unfolding partial_sum_Suc [OF l] by (auto simp: less_Suc_eq)
      show "e = Division_by_zero \<and> \<not> distinct_abscissas c M T sigs" if "e = Division_by_zero \<and> \<not> ?u k" for e
        using that l unfolding distinct_abscissas_def by blast
    qed
  next
    show "1 \<le> length ac" using a(1) n by linarith
    show "?J 1 (ac ! 0)" using one a(2) f n by simp
  qed
  then show ?thesis
    by (rule runs_post) (simp add: distinct_abscissas_def a(1) partial_sum_def)
qed

text \<open>The lifted signatures of all parties.\<close>

lemma mapM_lift:
  assumes "\<And>x. x \<in> set xs \<Longrightarrow> f x = Inr (g x)"
  shows "mapM (\<lambda>x. lift (f x)) xs = ret (map g xs)"
  by (rule mapM_ret) (simp add: assms lift_def)

lemma runs_dstb_sign:
  assumes c: "wf c" "wf_prime c" "masks_nonzero c" and C: "coords_ok c M T"
    and n: "0 < num_players c" "length sigs = num_players c"
    and sig: "\<forall>p < num_players c. partial_sign M msg (num_players c) keys p = Inr (sigs ! p)"
    and f: "\<forall>p < num_players c. finite_pt M (bl_sigma (sigs ! p))"
  shows "keeps (good c) (dstb_sign c M T msg keys)
    (\<lambda>r. fst r = sigs \<and> distinct_abscissas c M T sigs \<and> pt_sh c T (snd r) (aggregate M sigs))
    (\<lambda>e. e = Division_by_zero \<and> \<not> distinct_abscissas c M T sigs)"
proof -
  let ?n = "num_players c" and ?co = "map (\<lambda>b. mclBnG2_to_Complex_Plain T (pr c) (bl_sigma b)) sigs"
  have "mapM (\<lambda>p. lift (partial_sign M msg ?n keys p)) [0..<?n] = ret (map (\<lambda>p. sigs ! p) [0..<?n])"
    by (rule mapM_lift) (use sig in simp)
  also have "map (\<lambda>p. sigs ! p) [0..<?n] = sigs" using n(2) map_nth [of sigs] by simp
  finally have s: "mapM (\<lambda>p. lift (partial_sign M msg ?n keys p)) [0..<?n] = ret sigs" .
  let ?R = "\<lambda>i R. pt_sh c T R (bl_sigma (sigs ! i))"
  have co: "\<forall>p < ?n. \<exists>P. ?co ! p = mclBnG2_to_Complex_Plain T (pr c) P" using n(2) by auto
  have i: "keeps (good c) (mapM (input_point c ?co) [0..<?n]) (\<lambda>ac. list_all2 ?R [0..<?n] ac)
      (\<lambda>e. e = Division_by_zero \<and> \<not> distinct_abscissas c M T sigs)"
    by (rule keeps_mapM, rule runs_input_point [OF c(1) _ co]) (use n(2) in auto)
  show ?thesis
    unfolding dstb_sign_def s bnd_ret Let_def
  proof (rule keeps_bnd [OF i])
    fix ac assume "list_all2 ?R [0..<?n] ac"
    then have a: "length ac = length sigs" "\<forall>p < length sigs. ?R p (ac ! p)"
      using n(2) by (auto simp: list_all2_conv_all_nth)
    have "\<forall>p < length sigs. finite_pt M (bl_sigma (sigs ! p))" "0 < length sigs" using f n by simp_all
    from runs_point_sum [OF c C this a]
    show "keeps (good c) (bnd (foldM (\<lambda>i out. g2_add_aff_inplace c out (ac ! i)) [1..<length ac] (ac ! 0)) (\<lambda>out. ret (sigs, out)))
        (\<lambda>r. fst r = sigs \<and> distinct_abscissas c M T sigs \<and> pt_sh c T (snd r) (aggregate M sigs))
        (\<lambda>e. e = Division_by_zero \<and> \<not> distinct_abscissas c M T sigs)"
      by (rule keeps_bnd) (rule keeps_ret, simp)
  qed
qed

text \<open>The partial signatures of keys that share one polynomial add up to the signature.\<close>

lemma aggregate_verifies:
  assumes "mcl_ok M" "length F \<le> n" "0 < n" "int n < m_r M" "length keys = n"
    and "\<forall>p < n. bl_sk (keys ! p) = poly_value F (int (p + 1)) mod m_r M \<and>
      bl_vk (keys ! p) = g1_mul M (g1_base M) (poly_value F 0)"
    and "length sigs = n" "\<forall>p < n. partial_sign M msg n keys p = Inr (sigs ! p)" "p < n"
  shows "bls_verify M P msg (keys ! p) = 1 \<longleftrightarrow> P = aggregate M sigs"
proof -
  let ?h = "g2_hash M msg"
  have sk: "\<forall>p<n. bl_sk (keys ! p) = poly_value F (int (p + 1)) mod m_r M" using assms(6) by blast
  then have "\<forall>p<n. in_field (m_r M) (bl_sk (keys ! p))" using fr_okD(2) [OF mcl_okD(1) [OF assms(1)]] by simp
  then have "\<forall>p<n. sigs ! p = (keys ! p)\<lparr>bl_sigma := g2_mul M ?h (bl_sk (keys ! p) * node_coeff n (p + 1))\<rparr>"
    using partial_sign_value [OF assms(1) _ assms(4)] assms(8) by fastforce
  then have "sigs = map (\<lambda>p. (keys ! p)\<lparr>bl_sigma := g2_mul M ?h (bl_sk (keys ! p) * node_coeff n (p + 1))\<rparr>) [0..<n]"
    by (intro nth_equalityI) (simp_all add: assms(7))
  then have agg: "aggregate M sigs = g2_mul M ?h (poly_value F 0)"
    using aggregate_value [OF assms(1,2,3,5) sk] by simp
  show ?thesis unfolding agg by (rule bls_verify_iff [OF assms(1)]) (use assms(6,9) in blast)
qed

text \<open>C5: with the keys of one polynomial, the distributed signature of all parties is a sharing
  of the coordinates of the one point that verifies under the public key. The additions do
  not double: if two summands meet in one abscissa, the run throws \<open>Division_by_zero\<close>.\<close>
theorem distributed_signature:
  assumes "wf c" "wf_prime c" "masks_nonzero c" "good c s" "mcl_ok M" "coords_ok c M T"
    and "length F \<le> num_players c" "int (num_players c) < m_r M" "length keys = num_players c"
    and "\<forall>p < num_players c. bl_sk (keys ! p) = poly_value F (int (p + 1)) mod m_r M \<and>
      bl_vk (keys ! p) = g1_mul M (g1_base M) (poly_value F 0)"
    and "length sigs = num_players c" "\<forall>p < num_players c. partial_sign M msg (num_players c) keys p = Inr (sigs ! p)"
    and "\<forall>p < num_players c. finite_pt M (bl_sigma (sigs ! p))"
  shows "if distinct_abscissas c M T sigs
    then \<exists>out t sigma. dstb_sign c M T msg keys s = Inr ((sigs, out), t) \<and> good c t \<and> pt_sh c T out sigma \<and>
      (\<forall>p < num_players c. \<forall>P. bls_verify M P msg (keys ! p) = 1 \<longleftrightarrow> P = sigma)
    else dstb_sign c M T msg keys s = Inl Division_by_zero"
proof -
  note v = aggregate_verifies [OF assms(5,7) wf_players [OF assms(1)] assms(8-12)]
  note k = runs_dstb_sign [OF assms(1-3,6) wf_players [OF assms(1)] assms(11-13)]
  show ?thesis
  proof (cases "distinct_abscissas c M T sigs")
    case True
    have "runs (good c) (dstb_sign c M T msg keys) (\<lambda>r. fst r = sigs \<and> pt_sh c T (snd r) (aggregate M sigs))"
      by (rule keeps_conseq [OF k]) (use True in auto)
    from runs_returns [OF this assms(4)] obtain r t where "dstb_sign c M T msg keys s = Inr (r, t)" "good c t"
        "fst r = sigs" "pt_sh c T (snd r) (aggregate M sigs)" by blast
    then show ?thesis using True v by (cases r) auto
  next
    case False
    have "keeps (good c) (dstb_sign c M T msg keys) (\<lambda>_. False) (\<lambda>e. e = Division_by_zero)"
      by (rule keeps_conseq [OF k]) (use False in auto)
    from keeps_throws [OF this assms(4)] show ?thesis using False by auto
  qed
qed

section \<open>The curve of the examples\<close>

text \<open>The multiples of \<open>(1, 2)\<close> on \<open>y^2 = x^3 + 3\<close> over the field of seven elements, in the order
  of the factor; there are thirteen with the point at infinity.\<close>

definition demo_xy :: "int \<Rightarrow> int \<times> int" where
  "demo_xy k = [(0, 0), (1, 2), (6, 3), (2, 2), (4, 5), (3, 3), (5, 3), (5, 4), (3, 4), (4, 2), (2, 5), (6, 4), (1, 5)] ! nat k"

definition demo_text :: "z13 g2_text" where
  "demo_text = \<lparr>getStr = (\<lambda>P. if z13_val P = 0 then ''0''
      else ''1 '' @ [''0123456'' ! nat (fst (demo_xy (z13_val P)))] @ '' 0 '' @
        [''0123456'' ! nat (snd (demo_xy (z13_val P)))] @ '' 0''),
     mpz_str = (\<lambda>str. of_char (hd str) - 48)\<rparr>"

lemma demo_table:
  "\<forall>k \<in> set [1..12]. \<forall>l \<in> set [1..12]. case (demo_xy k, demo_xy l, demo_xy ((k + l) mod 13)) of ((x1, y1), (x2, y2), x3, y3) \<Rightarrow>
     let m = (y1 - y2) * (x1 - x2) ^ 5; x = m * m - x1 - x2
     in (x1 - x2) * (x1 - x2) mod 7 \<noteq> 0 \<longrightarrow> (k + l) mod 13 \<noteq> 0 \<and> (m * (x1 - x2)) mod 7 = (y1 - y2) mod 7 \<and>
       x mod 7 = x3 mod 7 \<and> (m * (x1 - x) - y1) mod 7 = y3 mod 7"
  by code_simp

lemma demo_digits: "1 \<le> k \<Longrightarrow> k \<le> 12 \<Longrightarrow> \<exists>x y. demo_xy k = (x, y) \<and> x \<in> {1, 2, 3, 4, 5, 6} \<and> y \<in> {2, 3, 4, 5}"
proof -
  have "\<forall>k \<in> set [1..12]. (case demo_xy k of (x, y) \<Rightarrow> x \<in> set [1, 2, 3, 4, 5, 6] \<and> y \<in> set [2, 3, 4, 5])"
    by code_simp
  moreover assume "1 \<le> k" "k \<le> 12"
  ultimately show ?thesis by (cases "demo_xy k") force
qed

lemma demo_coords:
  assumes "z13_val P \<noteq> 0"
  shows "pt_x demo demo_text P = Gint (fst (demo_xy (z13_val P))) 0" "pt_y demo demo_text P = Gint (snd (demo_xy (z13_val P))) 0"
proof -
  have "1 \<le> z13_val P" "z13_val P \<le> 12" using assms z13_val_of(3,4) [of P] by linarith+
  from demo_digits [OF this] obtain x y where xy: "demo_xy (z13_val P) = (x, y)" "x \<in> {1, 2, 3, 4, 5, 6}" "y \<in> {2, 3, 4, 5}" by blast
  have "mclBnG2_to_Complex_Plain demo_text 7 P = (\<lparr>cx_real = x, cx_imag = 0\<rparr>, \<lparr>cx_real = y, cx_imag = 0\<rparr>)"
    using xy assms
    by (auto simp: mclBnG2_to_Complex_Plain_def mclBnG2_to_gfp_def mclBnG2_to_str_def cut_word_def demo_text_def to_gfp_mod)
  then show "pt_x demo demo_text P = Gint (fst (demo_xy (z13_val P))) 0" "pt_y demo demo_text P = Gint (snd (demo_xy (z13_val P))) 0"
    using xy by (simp_all add: cx_val_def)
qed

lemma finite_demo: "finite_pt demo_mcl P \<longleftrightarrow> z13_val P \<noteq> 0"
proof -
  have "g2_mul demo_mcl P 0 = z13_of 0" by (simp add: demo_mcl_def, transfer, simp)
  then show ?thesis using z13_val_of(1) [of 0] z13_val_of(2) [of P] by auto
qed

lemma demo_coords_ok: "coords_ok demo demo_mcl demo_text"
  unfolding coords_ok_def
proof (intro allI impI)
  fix P Q assume P: "finite_pt demo_mcl P" and Q: "finite_pt demo_mcl Q"
    and u: "cx_unit demo (pt_x demo demo_text P - pt_x demo demo_text Q)"
  let ?k = "z13_val P" and ?l = "z13_val Q" and ?S = "g2_add demo_mcl P Q"
  have v: "z13_val ?S = (?k + ?l) mod 13" by (simp add: demo_mcl_def, transfer, simp)
  have "?k \<in> set [1..12]" "?l \<in> set [1..12]"
    using P Q z13_val_of(3,4) [of P] z13_val_of(3,4) [of Q] unfolding finite_demo by auto
  note kl = this
  obtain x1 y1 where x: "demo_xy ?k = (x1, y1)" by (cases "demo_xy ?k")
  obtain x2 y2 where x': "demo_xy ?l = (x2, y2)" by (cases "demo_xy ?l")
  obtain x3 y3 where x'': "demo_xy ((?k + ?l) mod 13) = (x3, y3)" by (cases "demo_xy ((?k + ?l) mod 13)")
  note xy = x x' x''
  define m where "m = (y1 - y2) * (x1 - x2) ^ 5"
  have t: "(x1 - x2) * (x1 - x2) mod 7 \<noteq> 0 \<longrightarrow> (?k + ?l) mod 13 \<noteq> 0 \<and> (m * (x1 - x2)) mod 7 = (y1 - y2) mod 7 \<and>
      (m * m - x1 - x2) mod 7 = x3 mod 7 \<and> (m * (x1 - (m * m - x1 - x2)) - y1) mod 7 = y3 mod 7"
    using demo_table [rule_format, OF kl] unfolding xy prod.case Let_def m_def .
  note p = demo_coords [of P, unfolded xy fst_conv snd_conv] demo_coords [of Q, unfolded xy fst_conv snd_conv]
  have p': "pt_x demo demo_text P = Gint x1 0" "pt_y demo demo_text P = Gint y1 0"
    "pt_x demo demo_text Q = Gint x2 0" "pt_y demo demo_text Q = Gint y2 0"
    using p P Q unfolding finite_demo by blast+
  have t0: "(x1 - x2) * (x1 - x2) mod 7 \<noteq> 0" using u unfolding p' by (simp add: cx_unit_def minus_gint_def)
  have t': "(?k + ?l) mod 13 \<noteq> 0" "(m * (x1 - x2)) mod 7 = (y1 - y2) mod 7"
      "(m * m - x1 - x2) mod 7 = x3 mod 7" "(m * (x1 - (m * m - x1 - x2)) - y1) mod 7 = y3 mod 7"
    using mp [OF t t0] by simp_all
  have S: "pt_x demo demo_text ?S = Gint x3 0" "pt_y demo demo_text ?S = Gint y3 0"
    using demo_coords [of ?S] t'(1) unfolding v xy(3) by simp_all
  show "finite_pt demo_mcl ?S \<and>
     (\<exists>m. gcong demo (m * (pt_x demo demo_text P - pt_x demo demo_text Q)) (pt_y demo demo_text P - pt_y demo demo_text Q) \<and>
       gcong demo (chord_x m (pt_x demo demo_text P) (pt_x demo demo_text Q)) (pt_x demo demo_text ?S) \<and>
       gcong demo (chord_y m (pt_x demo demo_text P) (pt_y demo demo_text P) (pt_x demo demo_text Q)) (pt_y demo demo_text ?S))"
    unfolding finite_demo v p' S
    by (intro conjI t'(1) exI [of _ "Gint m 0"])
      (use t' in \<open>simp_all add: gcong_def chord_x_def chord_y_def times_gint_def minus_gint_def\<close>)
qed

definition demo_keys :: "(z13, z13) bls list" where
  "demo_keys = [demo_bls\<lparr>bl_sk := 2, bl_vk := z13_of 1\<rparr>, demo_bls\<lparr>bl_sk := 3, bl_vk := z13_of 1\<rparr>]"

definition demo_sigs :: "(z13, z13) bls list" where
  "demo_sigs = [(demo_keys ! 0)\<lparr>bl_sigma := z13_of 4\<rparr>, (demo_keys ! 1)\<lparr>bl_sigma := z13_of 10\<rparr>]"

text \<open>Two keys of the polynomial \<open>1 + x\<close>, and what they sign.\<close>

lemma demo_signature:
  shows "\<forall>p < 2. bl_sk (demo_keys ! p) = poly_value [1, 1] (int (p + 1)) mod m_r demo_mcl \<and>
      bl_vk (demo_keys ! p) = g1_mul demo_mcl (g1_base demo_mcl) (poly_value [1, 1] 0)"
    and "length demo_keys = 2" "length demo_sigs = 2" "int 2 < m_r demo_mcl" "length [1, 1 :: int] \<le> 2"
    and "\<forall>p < 2. partial_sign demo_mcl [1] 2 demo_keys p = Inr (demo_sigs ! p)"
    and "\<forall>p < 2. finite_pt demo_mcl (bl_sigma (demo_sigs ! p))"
    and "distinct_abscissas demo demo_mcl demo_text demo_sigs"
proof -
  have mul: "z13_mul (z13_of a) b = z13_of (a * b)" for a b by transfer (simp add: mod_simps)
  have of_mod: "z13_of a = z13_of (a mod 13)" for a by transfer simp
  have g: "g1_mul demo_mcl (g1_base demo_mcl) a = z13_of a" "g2_mul demo_mcl (g2_hash demo_mcl [1]) a = z13_of a" for a
    by (simp_all add: demo_mcl_def mul)
  have n: "node_coeff 2 (Suc 0) = 2" "node_coeff 2 2 = - 1" "node_coeff 2 (Suc (Suc 0)) = - 1"
    by (simp_all add: node_coeff_def numeral_2_eq_2)
  have F: "\<forall>p < 2. bl_sk (demo_keys ! p) = poly_value [1, 1] (int (p + 1)) mod m_r demo_mcl \<and>
      bl_vk (demo_keys ! p) = g1_mul demo_mcl (g1_base demo_mcl) (poly_value [1, 1] 0)"
    unfolding g by (simp add: demo_keys_def less_2_cases_iff)
  have sk: "in_field (m_r demo_mcl) (bl_sk (demo_keys ! p))" if "p < 2" for p
    using that by (auto simp: less_2_cases_iff demo_keys_def in_field_def)
  have l: "length demo_keys = 2" "length demo_sigs = 2" by (simp_all add: demo_keys_def demo_sigs_def)
  have r: "int 2 < m_r demo_mcl" "length [1, 1 :: int] \<le> 2" by simp_all
  have s: "\<forall>p < 2. partial_sign demo_mcl [1] 2 demo_keys p = Inr (demo_sigs ! p)"
  proof (intro allI impI)
    fix p :: nat assume p: "p < 2"
    have "partial_sign demo_mcl [1] 2 demo_keys p =
        Inr ((demo_keys ! p)\<lparr>bl_sigma := z13_of (bl_sk (demo_keys ! p) * node_coeff 2 (p + 1))\<rparr>)"
      using partial_sign_value [OF demo_mcl_ok p _ sk [OF p], of "[1]"] by (simp add: g)
    also have "\<dots> = Inr (demo_sigs ! p)"
      by (rule disjE [OF less_2_cases [OF p]])
        (use n of_mod [of "- 3"] in \<open>simp_all add: demo_sigs_def demo_keys_def\<close>)
    finally show "partial_sign demo_mcl [1] 2 demo_keys p = Inr (demo_sigs ! p)" by simp
  qed
  have f: "\<forall>p < 2. finite_pt demo_mcl (bl_sigma (demo_sigs ! p))"
    unfolding finite_demo by (auto simp: less_2_cases_iff demo_sigs_def z13_val_of)
  have d: "distinct_abscissas demo demo_mcl demo_text demo_sigs"
  proof -
    have "pt_x demo demo_text (z13_of 4) = Gint 4 0" "pt_x demo demo_text (z13_of 10) = Gint 2 0"
      using demo_coords(1) [of "z13_of 4"] demo_coords(1) [of "z13_of 10"] by (simp_all add: z13_val_of demo_xy_def)
    then show ?thesis
      by (auto simp: distinct_abscissas_def partial_sum_def aggregate_def demo_sigs_def less_Suc_eq cx_unit_def minus_gint_def)
  qed
  show "\<forall>p < 2. bl_sk (demo_keys ! p) = poly_value [1, 1] (int (p + 1)) mod m_r demo_mcl \<and>
      bl_vk (demo_keys ! p) = g1_mul demo_mcl (g1_base demo_mcl) (poly_value [1, 1] 0)" by (rule F)
  show "length demo_keys = 2" "length demo_sigs = 2" by (rule l)+
  show "int 2 < m_r demo_mcl" "length [1, 1 :: int] \<le> 2" by (rule r)+
  show "\<forall>p < 2. partial_sign demo_mcl [1] 2 demo_keys p = Inr (demo_sigs ! p)" by (rule s)
  show "\<forall>p < 2. finite_pt demo_mcl (bl_sigma (demo_sigs ! p))" by (rule f)
  show "distinct_abscissas demo demo_mcl demo_text demo_sigs" by (rule d)
qed

theorem distributed_signature_witness:
  "\<exists>sigs out t sigma. dstb_sign demo demo_mcl demo_text [1] demo_keys demo_state = Inr ((sigs, out), t) \<and>
    pt_sh demo demo_text out sigma \<and> bls_verify demo_mcl sigma [1] (demo_keys ! 0) = 1"
proof -
  have n: "num_players demo = 2" "(0::nat) < 2" by simp_all
  note d = demo_signature
  have "if distinct_abscissas demo demo_mcl demo_text demo_sigs
    then \<exists>out t sigma. dstb_sign demo demo_mcl demo_text [1] demo_keys demo_state = Inr ((demo_sigs, out), t) \<and> good demo t \<and>
      pt_sh demo demo_text out sigma \<and> (\<forall>p < num_players demo. \<forall>P. bls_verify demo_mcl P [1] (demo_keys ! p) = 1 \<longleftrightarrow> P = sigma)
    else dstb_sign demo demo_mcl demo_text [1] demo_keys demo_state = Inl Division_by_zero"
    by (rule distributed_signature [where F = "[1, 1]", OF demo_wf demo_wf_prime demo_masks_nonzero demo_good demo_mcl_ok demo_coords_ok])
      (unfold n(1), (rule d)+)
  then show ?thesis unfolding if_P [OF d(8)] n(1) using n(2) by blast
qed

end
