(* ===== verification/BitOps.thy ===== *)
theory BitOps
  imports Online
begin

text \<open>
  The bit operations of \<open>OnlineOp\<close> (\<open>POC/OnlineOp.hpp\<close>): gates on shared bits, the trees
  built from them, comparison, addition of bit vectors and the conversions between
  arithmetic and binary sharing. A vector operation takes the length \<open>k\<close> that the code
  passes beside its vectors. A length of zero makes \<open>KXOR\<close>, \<open>KOR\<close> and \<open>prefix_OR\<close> call
  themselves on the same arguments for ever; the models return \<open>Diverges\<close> there.
\<close>

section \<open>Gates\<close>

definition XOR :: "ctx \<Rightarrow> jshare \<Rightarrow> jshare \<Rightarrow> (mpc, jshare) m" where
  "XOR c a b =
     (let cc = add c a b in
      bnd (mul c a b) (\<lambda>tmp.
      let cc = sub_inplace c cc tmp;
          cc = sub_inplace c cc tmp
      in ret cc))"

definition XOR_v :: "ctx \<Rightarrow> jshare list \<Rightarrow> jshare list \<Rightarrow> nat \<Rightarrow> (mpc, jshare list) m" where
  "XOR_v c a b k =
     bnd (check (\<not> (length a \<noteq> k \<or> length b \<noteq> k)) Invalid_length) (\<lambda>_.
     bnd (add_v c a b) (\<lambda>cc.
     bnd (mul_v c a b) (\<lambda>tmp.
     let cc = sub_inplace_v c cc tmp;
         cc = sub_inplace_v c cc tmp
     in ret cc)))"

definition XOR_inplace :: "ctx \<Rightarrow> jshare \<Rightarrow> jshare \<Rightarrow> (mpc, jshare) m" where
  "XOR_inplace c cc a = bnd (XOR c cc a) (\<lambda>tmp. ret tmp)"

definition XOR_inplace_v :: "ctx \<Rightarrow> jshare list \<Rightarrow> jshare list \<Rightarrow> nat \<Rightarrow> (mpc, jshare list) m" where
  "XOR_inplace_v c cc a k =
     (let cc = resize (j_zero c) k cc in bnd (XOR_v c cc a k) (\<lambda>tmp. ret tmp))"

definition XOR_plain :: "ctx \<Rightarrow> jshare \<Rightarrow> int \<Rightarrow> jshare" where
  "XOR_plain c a b =
     (let cc = add_plain c a b;
          tmp = mul_plain c a b;
          cc = sub_inplace c cc tmp
      in sub_inplace c cc tmp)"

definition XOR_plain_v :: "ctx \<Rightarrow> jshare list \<Rightarrow> int list \<Rightarrow> nat \<Rightarrow> (mpc, jshare list) m" where
  "XOR_plain_v c a b k =
     bnd (check (\<not> (length a \<noteq> k \<or> length b \<noteq> k)) Invalid_length) (\<lambda>_.
     bnd (add_plain_v c a b) (\<lambda>cc.
     bnd (mul_plain_v c a b) (\<lambda>tmp.
     let cc = sub_inplace_v c cc tmp;
         cc = sub_inplace_v c cc tmp
     in ret cc)))"

definition OR :: "ctx \<Rightarrow> jshare \<Rightarrow> jshare \<Rightarrow> (mpc, jshare) m" where
  "OR c a b =
     (let cc = add c a b in
      bnd (mul c a b) (\<lambda>tmp. ret (sub_inplace c cc tmp)))"

definition OR_v :: "ctx \<Rightarrow> jshare list \<Rightarrow> jshare list \<Rightarrow> nat \<Rightarrow> (mpc, jshare list) m" where
  "OR_v c a b k =
     bnd (check (\<not> (length a \<noteq> k \<or> length b \<noteq> k)) Invalid_length) (\<lambda>_.
     bnd (add_v c a b) (\<lambda>cc.
     bnd (mul_v c a b) (\<lambda>tmp. ret (sub_inplace_v c cc tmp))))"

definition OR_inplace :: "ctx \<Rightarrow> jshare \<Rightarrow> jshare \<Rightarrow> (mpc, jshare) m" where
  "OR_inplace c cc a = bnd (OR c cc a) (\<lambda>tmp. ret tmp)"

definition OR_inplace_v :: "ctx \<Rightarrow> jshare list \<Rightarrow> jshare list \<Rightarrow> nat \<Rightarrow> (mpc, jshare list) m" where
  "OR_inplace_v c cc a k = bnd (OR_v c cc a k) (\<lambda>tmp. ret tmp)"

definition OR_plain :: "ctx \<Rightarrow> jshare \<Rightarrow> int \<Rightarrow> jshare" where
  "OR_plain c a b =
     (let cc = add_plain c a b;
          tmp = mul_plain c a b
      in sub_inplace c cc tmp)"

text \<open>Unlike the other vector gates, this one does not compare the lengths with \<open>k\<close>.\<close>

definition OR_plain_v :: "ctx \<Rightarrow> jshare list \<Rightarrow> int list \<Rightarrow> nat \<Rightarrow> (mpc, jshare list) m" where
  "OR_plain_v c a b k =
     bnd (add_plain_v c a b) (\<lambda>cc.
     bnd (mul_plain_v c a b) (\<lambda>tmp. ret (sub_inplace_v c cc tmp)))"

definition AND :: "ctx \<Rightarrow> jshare \<Rightarrow> jshare \<Rightarrow> (mpc, jshare) m" where
  "AND c a b = mul c a b"

definition AND_inplace :: "ctx \<Rightarrow> jshare \<Rightarrow> jshare \<Rightarrow> (mpc, jshare) m" where
  "AND_inplace c cc a = bnd (AND c cc a) (\<lambda>tmp. ret tmp)"

definition AND_plain :: "ctx \<Rightarrow> jshare \<Rightarrow> int \<Rightarrow> jshare" where
  "AND_plain c a b = mul_plain c a b"

section \<open>Trees of gates\<close>

definition evens :: "jshare list \<Rightarrow> nat \<Rightarrow> jshare list" where
  "evens a n = map (\<lambda>i. a ! (2 * i)) [0..<n]"

definition odds :: "jshare list \<Rightarrow> nat \<Rightarrow> jshare list" where
  "odds a n = map (\<lambda>i. a ! (2 * i + 1)) [0..<n]"

function KXOR :: "ctx \<Rightarrow> jshare list \<Rightarrow> nat \<Rightarrow> (mpc, jshare) m" where
  "KXOR c a k =
     bnd (check (length a = k) Invalid_length) (\<lambda>_.
     if k = 0 then throw Diverges
     else if k = 1 then at a 0
     else if k mod 2 = 0 then
       bnd (XOR_inplace_v c (evens a (k div 2)) (odds a (k div 2)) (k div 2)) (\<lambda>half_c.
       KXOR c half_c (k div 2))
     else
       bnd (XOR_inplace_v c (evens a ((k - 1) div 2)) (odds a ((k - 1) div 2)) (k div 2)) (\<lambda>half_c.
       KXOR c (half_c @ [a ! (k - 1)]) ((k + 1) div 2)))"
  by pat_completeness auto

termination
  by (relation "measure (\<lambda>(c, a, k). k)") auto

function KOR :: "ctx \<Rightarrow> jshare list \<Rightarrow> nat \<Rightarrow> (mpc, jshare) m" where
  "KOR c a k =
     bnd (check (length a = k) Invalid_length) (\<lambda>_.
     if k = 0 then throw Diverges
     else if k = 1 then at a 0
     else if k mod 2 = 0 then
       bnd (OR_inplace_v c (evens a (k div 2)) (odds a (k div 2)) (k div 2)) (\<lambda>half_c.
       KOR c half_c (k div 2))
     else
       bnd (OR_inplace_v c (evens a ((k - 1) div 2)) (odds a ((k - 1) div 2)) (k div 2)) (\<lambda>half_c.
       KOR c (half_c @ [a ! (k - 1)]) ((k + 1) div 2)))"
  by pat_completeness auto

termination
  by (relation "measure (\<lambda>(c, a, k). k)") auto

definition prefix_XOR :: "ctx \<Rightarrow> jshare list \<Rightarrow> nat \<Rightarrow> (mpc, jshare list) m" where
  "prefix_XOR c a k = throw Not_implemented"

text \<open>The recursion depth, which only feeds a commented-out trace, is not a parameter here.\<close>

function prefix_OR :: "ctx \<Rightarrow> jshare list \<Rightarrow> nat \<Rightarrow> (mpc, jshare list) m" where
  "prefix_OR c a k =
     bnd (check (length a = k) Invalid_length) (\<lambda>_.
     if k = 0 then throw Diverges
     else if k = 1 then ret [a ! 0]
     else
       let half = k div 2;
           half_a0 = take half a;
           half_a1 = drop half a
       in bnd (prefix_OR c half_a0 half) (\<lambda>half_c0.
          bnd (prefix_OR c half_a1 (k - half)) (\<lambda>half_c1.
          bnd (at half_c0 (half - 1)) (\<lambda>last0.
          bnd (OR_inplace_v c (replicate (k - half) last0) half_c1 (k - half)) (\<lambda>tmp.
          ret (half_c0 @ tmp))))))"
  by pat_completeness auto

termination
  by (relation "measure (\<lambda>(c, a, k). k)") auto

declare KXOR.simps [simp del] KOR.simps [simp del] prefix_OR.simps [simp del]

section \<open>Values of the gates\<close>

definition xor_val :: "int \<Rightarrow> int \<Rightarrow> int" where
  "xor_val x y = x + y - x * y - x * y"

definition or_val :: "int \<Rightarrow> int \<Rightarrow> int" where
  "or_val x y = x + y - x * y"

lemma gate_vals:
  "xor_val (xor_val x y) z = xor_val x (xor_val y z)" "xor_val x 0 = x"
  "or_val (or_val x y) z = or_val x (or_val y z)" "or_val x 0 = x"
  by (simp_all add: xor_val_def or_val_def algebra_simps)

lemma val_comm: "or_val x y = or_val y x" "xor_val x y = xor_val y x"
  by (simp_all add: xor_val_def or_val_def)

lemma xor_val_bits:
  "x = 0 \<or> x = 1 \<Longrightarrow> y = 0 \<or> y = 1 \<Longrightarrow> xor_val x y = (if x = y then 0 else 1)"
  by (auto simp: xor_val_def)

lemma or_val_bits:
  "x = 0 \<or> x = 1 \<Longrightarrow> y = 0 \<or> y = 1 \<Longrightarrow> or_val x y = (if x = 1 \<or> y = 1 then 1 else 0)"
  by (auto simp: or_val_def)

lemma runs_XOR [prog]:
  assumes "wf c" "sh c S x" "sh c T y"
  shows "keeps (good c) (XOR c S T) (\<lambda>r. sh c r (xor_val x y)) E"
  unfolding XOR_def Let_def xor_val_def
  by (rule keeps_bnd [OF runs_mul [OF assms]]) (intro keeps_ret sh_local assms)

lemma runs_OR [prog]:
  assumes "wf c" "sh c S x" "sh c T y"
  shows "keeps (good c) (OR c S T) (\<lambda>r. sh c r (or_val x y)) E"
  unfolding OR_def Let_def or_val_def
  by (rule keeps_bnd [OF runs_mul [OF assms]]) (intro keeps_ret sh_local assms)

lemma runs_gates [prog]:
  assumes "wf c" "sh c S x" "sh c T y"
  shows "keeps (good c) (XOR_inplace c S T) (\<lambda>r. sh c r (xor_val x y)) E"
    "keeps (good c) (OR_inplace c S T) (\<lambda>r. sh c r (or_val x y)) E"
    "keeps (good c) (AND c S T) (\<lambda>r. sh c r (x * y)) E"
    "keeps (good c) (AND_inplace c S T) (\<lambda>r. sh c r (x * y)) E"
  using runs_XOR [OF assms] runs_OR [OF assms] runs_mul [OF assms]
  by (simp_all add: XOR_inplace_def OR_inplace_def AND_def AND_inplace_def)

lemma sh_gates_plain [prog]:
  assumes "wf c" "sh c S x" "in_field (pr c) k"
  shows "sh c (XOR_plain c S k) (xor_val x k)" "sh c (OR_plain c S k) (or_val x k)"
    "sh c (AND_plain c S k) (x * k)"
  unfolding XOR_plain_def OR_plain_def AND_plain_def Let_def xor_val_def or_val_def
  by (intro sh_local sh_local_plain assms)+

lemma map2_xor: "length xs = length ys \<Longrightarrow>
    map2 (-) (map2 (-) (map2 (+) xs ys) (map2 (*) xs ys)) (map2 (*) xs ys) = map2 xor_val xs ys"
  by (induction xs ys rule: list_induct2) (simp_all add: xor_val_def)

lemma map2_or: "length xs = length ys \<Longrightarrow>
    map2 (-) (map2 (+) xs ys) (map2 (*) xs ys) = map2 or_val xs ys"
  by (induction xs ys rule: list_induct2) (simp_all add: or_val_def)

lemma runs_XOR_v [prog]:
  assumes c: "wf c" and S: "shs c S xs" "shs c T ys" and k: "length xs = k" "length ys = k"
  shows "keeps (good c) (XOR_v c S T k) (\<lambda>r. shs c r (map2 xor_val xs ys)) E"
proof -
  have len: "length xs = length ys" "length S = k" "length T = k"
    using k shs_length [OF S(1)] shs_length [OF S(2)] by simp_all
  show ?thesis
    unfolding XOR_v_def Let_def map2_xor [OF len(1), symmetric] using len
    by (intro keeps_bnd [OF keeps_check] keeps_bnd [OF runs_add_v [OF S len(1)]]
        keeps_bnd [OF runs_mul_v [OF c S len(1)]] keeps_ret shs_sub_inplace_v) auto
qed

lemma runs_OR_v [prog]:
  assumes c: "wf c" and S: "shs c S xs" "shs c T ys" and k: "length xs = k" "length ys = k"
  shows "keeps (good c) (OR_v c S T k) (\<lambda>r. shs c r (map2 or_val xs ys)) E"
proof -
  have len: "length xs = length ys" "length S = k" "length T = k"
    using k shs_length [OF S(1)] shs_length [OF S(2)] by simp_all
  show ?thesis
    unfolding OR_v_def Let_def map2_or [OF len(1), symmetric] using len
    by (intro keeps_bnd [OF keeps_check] keeps_bnd [OF runs_add_v [OF S len(1)]]
        keeps_bnd [OF runs_mul_v [OF c S len(1)]] keeps_ret shs_sub_inplace_v) auto
qed

lemma runs_XOR_plain_v [prog]:
  assumes c: "wf c" and S: "shs c S xs" "plain_v c ys" and k: "length xs = k" "length ys = k"
  shows "keeps (good c) (XOR_plain_v c S ys k) (\<lambda>r. shs c r (map2 xor_val xs ys)) E"
proof -
  have len: "length xs = length ys" "length S = k"
    using k shs_length [OF S(1)] by simp_all
  show ?thesis
    unfolding XOR_plain_v_def Let_def map2_xor [OF len(1), symmetric] using len k
    by (intro keeps_bnd [OF keeps_check] keeps_bnd [OF runs_add_plain_v [OF c S len(1)]]
        keeps_bnd [OF runs_mul_plain_v [OF c S(1) len(1)]] keeps_ret shs_sub_inplace_v) auto
qed

lemma runs_OR_plain_v [prog]:
  assumes c: "wf c" and S: "shs c S xs" "plain_v c ys" and k: "length xs = length ys"
  shows "keeps (good c) (OR_plain_v c S ys k) (\<lambda>r. shs c r (map2 or_val xs ys)) E"
  unfolding OR_plain_v_def Let_def map2_or [OF k, symmetric] using k
  by (intro keeps_bnd [OF runs_add_plain_v [OF c S k]]
      keeps_bnd [OF runs_mul_plain_v [OF c S(1) k]] keeps_ret shs_sub_inplace_v) auto

lemma runs_inplace_v [prog]:
  assumes c: "wf c" and S: "shs c S xs" "shs c T ys" and k: "length xs = k" "length ys = k"
  shows "keeps (good c) (XOR_inplace_v c S T k) (\<lambda>r. shs c r (map2 xor_val xs ys)) E"
    "keeps (good c) (OR_inplace_v c S T k) (\<lambda>r. shs c r (map2 or_val xs ys)) E"
  using runs_XOR_v [OF assms] runs_OR_v [OF assms] shs_length [OF S(1)] k
  by (simp_all add: XOR_inplace_v_def OR_inplace_v_def)

section \<open>Trees\<close>

text \<open>
  What the trees rely on: a vector gate that computes an associative operation with unit 0
  element by element, and a tree that halves its input with that gate until one element is
  left. \<open>KXOR\<close> and \<open>KOR\<close> are its instances.
\<close>

locale gate_tree =
  fixes gate :: "ctx \<Rightarrow> jshare list \<Rightarrow> jshare list \<Rightarrow> nat \<Rightarrow> (mpc, jshare list) m"
    and tree :: "ctx \<Rightarrow> jshare list \<Rightarrow> nat \<Rightarrow> (mpc, jshare) m"
    and op_val :: "int \<Rightarrow> int \<Rightarrow> int"
  assumes gate: "wf c \<Longrightarrow> shs c S xs \<Longrightarrow> shs c T ys \<Longrightarrow> length xs = k \<Longrightarrow> length ys = k \<Longrightarrow>
      runs (good c) (gate c S T k) (\<lambda>r. shs c r (map2 op_val xs ys))"
    and assoc: "op_val (op_val x y) z = op_val x (op_val y z)"
    and unit: "op_val x 0 = x"
    and tree_1: "length a = 1 \<Longrightarrow> tree c a 1 = ret (a ! 0)"
    and tree_even: "length a = k \<Longrightarrow> 1 < k \<Longrightarrow> k mod 2 = 0 \<Longrightarrow>
      tree c a k = bnd (gate c (evens a (k div 2)) (odds a (k div 2)) (k div 2)) (\<lambda>h. tree c h (k div 2))"
    and tree_odd: "length a = k \<Longrightarrow> 1 < k \<Longrightarrow> k mod 2 \<noteq> 0 \<Longrightarrow>
      tree c a k = bnd (gate c (evens a ((k - 1) div 2)) (odds a ((k - 1) div 2)) (k div 2))
        (\<lambda>h. tree c (h @ [a ! (k - 1)]) ((k + 1) div 2))"
begin

fun pairs :: "int list \<Rightarrow> int list" where
  "pairs (x # y # xs) = op_val x y # pairs xs"
| "pairs xs = xs"

lemma fold_pairs: "foldr op_val (pairs xs) 0 = foldr op_val xs 0"
  by (induction xs rule: pairs.induct) (simp_all add: assoc)

lemma length_pairs: "length (pairs xs) = (length xs + 1) div 2"
  by (induction xs rule: pairs.induct) auto

lemma pairs_nth: "2 * i + 1 < length xs \<Longrightarrow> pairs xs ! i = op_val (xs ! (2 * i)) (xs ! (2 * i + 1))"
proof (induction xs arbitrary: i rule: pairs.induct)
  case (1 x y xs)
  then show ?case by (cases i) auto
qed auto

lemma pairs_last: "length xs mod 2 = 1 \<Longrightarrow> pairs xs ! (length xs div 2) = xs ! (length xs - 1)"
proof (induction xs rule: pairs.induct)
  case (1 x y xs)
  then show ?case by (cases xs) auto
qed auto

lemma shs_halves:
  assumes "shs c S xs" "2 * n \<le> length xs"
  shows "shs c (evens S n) (map (\<lambda>i. xs ! (2 * i)) [0..<n])"
    "shs c (odds S n) (map (\<lambda>i. xs ! (2 * i + 1)) [0..<n])"
  using assms by (auto simp: evens_def odds_def list_all2_conv_all_nth)

lemma gate_halves:
  assumes "wf c" "shs c S xs" "2 * n \<le> length xs"
  shows "keeps (good c) (gate c (evens S n) (odds S n) n)
    (\<lambda>r. shs c r (map (\<lambda>i. op_val (xs ! (2 * i)) (xs ! (2 * i + 1))) [0..<n])) E"
proof (rule runs_keeps, rule runs_post)
  show "runs (good c) (gate c (evens S n) (odds S n) n)
      (\<lambda>r. shs c r (map2 op_val (map (\<lambda>i. xs ! (2 * i)) [0..<n]) (map (\<lambda>i. xs ! (2 * i + 1)) [0..<n])))"
    by (rule gate [OF assms(1) shs_halves [OF assms(2,3)]]) simp_all
qed (auto simp: list_all2_conv_all_nth)

lemma tree_value:
  assumes "wf c"
  shows "shs c S xs \<Longrightarrow> length xs = k \<Longrightarrow> 0 < k \<Longrightarrow>
    keeps (good c) (tree c S k) (\<lambda>r. sh c r (foldr op_val xs 0)) E"
proof (induction k arbitrary: S xs rule: less_induct)
  case (less k)
  have len: "length S = k" using less.prems shs_length by metis
  consider "k = 1" | "1 < k" "k mod 2 = 0" | "1 < k" "k mod 2 = 1"
    using less.prems(3) by linarith
  then show ?case
  proof cases
    case 1
    then obtain x where "xs = [x]" using less.prems(2) by (cases xs) auto
    then show ?thesis
      using less.prems(1) len 1 tree_1 [of S c] by (auto simp: unit list_all2_Cons2 intro!: keeps_ret)
  next
    case 2
    have "map (\<lambda>i. op_val (xs ! (2 * i)) (xs ! (2 * i + 1))) [0..<k div 2] = pairs xs"
      using 2 less.prems(2) by (intro nth_equalityI) (auto simp: length_pairs pairs_nth)
    then have g: "keeps (good c) (gate c (evens S (k div 2)) (odds S (k div 2)) (k div 2)) (\<lambda>r. shs c r (pairs xs)) E"
      using gate_halves [OF assms less.prems(1), of "k div 2"] less.prems(2) by simp
    have "keeps (good c) (tree c h (k div 2)) (\<lambda>r. sh c r (foldr op_val xs 0)) E" if "shs c h (pairs xs)" for h
    proof -
      have "length (pairs xs) = k div 2" using 2(2) less.prems(2) by (simp add: length_pairs) presburger
      then show ?thesis using less.IH [OF _ that, of "k div 2"] 2 by (simp add: fold_pairs)
    qed
    then show ?thesis
      unfolding tree_even [OF len 2] by (rule keeps_bnd [OF g])
  next
    case 3
    have n: "2 * ((k - 1) div 2) \<le> length xs" "(k - 1) div 2 = k div 2" "Suc k div 2 = Suc (k div 2)" using 3 less.prems(2) by presburger+
    have ps: "map (\<lambda>i. op_val (xs ! (2 * i)) (xs ! (2 * i + 1))) [0..<k div 2] @ [xs ! (k - 1)] = pairs xs"
      using 3 less.prems(2) pairs_last [of xs] n(3)
      by (intro nth_equalityI) (auto simp: length_pairs pairs_nth nth_append less_Suc_eq)
    have g: "keeps (good c) (gate c (evens S ((k - 1) div 2)) (odds S ((k - 1) div 2)) (k div 2))
        (\<lambda>r. shs c r (map (\<lambda>i. op_val (xs ! (2 * i)) (xs ! (2 * i + 1))) [0..<k div 2])) E"
      using gate_halves [OF assms less.prems(1) n(1)] unfolding n(2) .
    have "keeps (good c) (tree c (h @ [S ! (k - 1)]) ((k + 1) div 2)) (\<lambda>r. sh c r (foldr op_val xs 0)) E"
      if h: "shs c h (map (\<lambda>i. op_val (xs ! (2 * i)) (xs ! (2 * i + 1))) [0..<k div 2])" for h
    proof -
      have "sh c (S ! (k - 1)) (xs ! (k - 1))"
        using less.prems by (simp add: list_all2_conv_all_nth)
      then have "shs c (h @ [S ! (k - 1)]) (pairs xs)"
        unfolding ps [symmetric] using h by (intro list_all2_appendI) auto
      then show ?thesis
        using less.IH [of "(k + 1) div 2" "h @ [S ! (k - 1)]" "pairs xs"] 3 less.prems(2)
        by (simp add: length_pairs fold_pairs)
    qed
    then have "keeps (good c) (bnd (gate c (evens S ((k - 1) div 2)) (odds S ((k - 1) div 2)) (k div 2))
        (\<lambda>h. tree c (h @ [S ! (k - 1)]) ((k + 1) div 2))) (\<lambda>r. sh c r (foldr op_val xs 0)) E"
      by (rule keeps_bnd [OF g])
    then show ?thesis using 3 tree_odd [OF len] by simp
  qed
qed

end

interpretation kxor: gate_tree XOR_inplace_v KXOR xor_val
proof
  show "runs (good c) (XOR_inplace_v c S T k) (\<lambda>r. shs c r (map2 xor_val xs ys))"
    if "wf c" "shs c S xs" "shs c T ys" "length xs = k" "length ys = k" for c S T xs ys k
    using that by (rule runs_inplace_v(1))
qed (simp_all add: gate_vals KXOR.simps [of _ _ "Suc 0"] KXOR.simps)

interpretation kor: gate_tree OR_inplace_v KOR or_val
proof
  show "runs (good c) (OR_inplace_v c S T k) (\<lambda>r. shs c r (map2 or_val xs ys))"
    if "wf c" "shs c S xs" "shs c T ys" "length xs = k" "length ys = k" for c S T xs ys k
    using that by (rule runs_inplace_v(2))
qed (simp_all add: gate_vals KOR.simps [of _ _ "Suc 0"] KOR.simps)

lemma foldr_xor_bits: "is_bits xs \<Longrightarrow> foldr xor_val xs 0 = sum_list xs mod 2"
proof (induction xs)
  case Nil
  then show ?case by simp
next
  case (Cons x xs)
  have "sum_list xs mod 2 = 0 \<or> sum_list xs mod 2 = 1" by presburger
  then show ?case using Cons by (auto simp: xor_val_bits)
qed

lemma foldr_or_bits: "is_bits xs \<Longrightarrow> foldr or_val xs 0 = of_bool (1 \<in> set xs)"
  by (induction xs) (auto simp: or_val_bits)

lemma runs_KXOR [prog]:
  "wf c \<Longrightarrow> shs c S xs \<Longrightarrow> length xs = k \<Longrightarrow> 0 < k \<Longrightarrow> is_bits xs \<Longrightarrow>
    keeps (good c) (KXOR c S k) (\<lambda>r. sh c r (sum_list xs mod 2)) E"
  using kxor.tree_value [of c S xs k E] by (simp add: foldr_xor_bits)

lemma runs_KOR [prog]:
  "wf c \<Longrightarrow> shs c S xs \<Longrightarrow> length xs = k \<Longrightarrow> 0 < k \<Longrightarrow> is_bits xs \<Longrightarrow>
    keeps (good c) (KOR c S k) (\<lambda>r. sh c r (of_bool (1 \<in> set xs))) E"
  using kor.tree_value [of c S xs k E] by (simp add: foldr_or_bits)

end
