(* ===== verification/Compare.thy ===== *)
theory Compare
  imports BitOps
begin

text \<open>
  Comparison of shared bit vectors: the values of \<open>prefix_OR\<close>, and both overloads of
  \<open>OnlineOp::lt\<close> (\<open>POC/OnlineOp.hpp\<close>), least significant bit first.
\<close>

section \<open>Prefixes\<close>

definition prefix_or :: "int list \<Rightarrow> int list" where
  "prefix_or xs = map (\<lambda>i. foldr or_val (take (Suc i) xs) 0) [0..<length xs]"

lemma or_foldr: "foldr or_val xs z = or_val (foldr or_val xs 0) z"
proof (induction xs)
  case Nil
  then show ?case by (simp add: or_val_def)
next
  case (Cons x xs)
  then show ?case by (simp add: gate_vals(3))
qed

lemma or_rev: "foldr or_val (rev xs) 0 = foldr or_val xs 0"
proof (induction xs)
  case (Cons x xs)
  then show ?case using or_foldr [of "rev xs" x] by (simp add: gate_vals val_comm(1) [of x])
qed simp

lemma length_prefix_or [simp]: "length (prefix_or xs) = length xs"
  by (simp add: prefix_or_def)

lemma prefix_or_nth [simp]: "i < length xs \<Longrightarrow> prefix_or xs ! i = foldr or_val (take (Suc i) xs) 0"
  by (simp add: prefix_or_def)

lemma prefix_or_split:
  assumes "half \<le> length xs"
  shows "prefix_or xs = prefix_or (take half xs) @
     map2 or_val (replicate (length xs - half) (foldr or_val (take half xs) 0)) (prefix_or (drop half xs))"
proof (rule nth_equalityI)
  fix i assume "i < length (prefix_or xs)"
  then have i: "i < length xs" by simp
  show "prefix_or xs ! i = (prefix_or (take half xs) @
     map2 or_val (replicate (length xs - half) (foldr or_val (take half xs) 0)) (prefix_or (drop half xs))) ! i"
  proof (cases "i < half")
    case True
    then show ?thesis using i by (simp add: nth_append min_def)
  next
    case False
    then have "take (Suc i) xs = take half xs @ take (Suc (i - half)) (drop half xs)"
      by (metis Suc_diff_le le_add_diff_inverse not_less take_add le_SucI)
    then show ?thesis using False i 
      using or_foldr [of "take half xs" "foldr or_val (take (Suc (i - half)) (drop half xs)) 0"]
      by (simp add: nth_append min_def)
  qed
qed (use assms in auto)

lemma runs_prefix_OR [prog]:
  assumes "wf c"
  shows "shs c S xs \<Longrightarrow> length xs = k \<Longrightarrow> 0 < k \<Longrightarrow>
    keeps (good c) (prefix_OR c S k) (\<lambda>r. shs c r (prefix_or xs)) E"
proof (induction k arbitrary: S xs rule: less_induct)
  case (less k)
  have len: "length S = k" using less.prems shs_length by metis
  show ?case
  proof (cases "k = 1")
    case True
    then obtain x where "xs = [x]" using less.prems(2) by (cases xs) auto
    then show ?thesis
      using less.prems(1) True by (auto simp: prefix_OR.simps [of _ _ "Suc 0"] list_all2_Cons2 prefix_or_def gate_vals intro!: keeps_ret)
  next
    case False
    let ?h = "k div 2"
    have h: "0 < ?h" "?h < k" using False less.prems(3) by auto
    have "shs c (take ?h S) (take ?h xs)" using less.prems(1) by (rule list_all2_takeI)
    then have a: "keeps (good c) (prefix_OR c (take ?h S) ?h) (\<lambda>r. shs c r (prefix_or (take ?h xs))) E"
      using h less.prems(2) by (intro less.IH) auto
    have "shs c (drop ?h S) (drop ?h xs)" using less.prems(1) by (rule list_all2_dropI)
    then have b: "keeps (good c) (prefix_OR c (drop ?h S) (k - ?h)) (\<lambda>r. shs c r (prefix_or (drop ?h xs))) E"
      using h less.prems(2) by (intro less.IH) auto
    have f: "keeps (good c) (bnd (at c0 (?h - 1)) (\<lambda>last0.
          bnd (OR_inplace_v c (replicate (k - ?h) last0) c1 (k - ?h)) (\<lambda>tmp.
          ret (c0 @ tmp)))) (\<lambda>r. shs c r (prefix_or xs)) E"
      if c0: "shs c c0 (prefix_or (take ?h xs))" and c1: "shs c c1 (prefix_or (drop ?h xs))" for c0 c1
    proof -
      let ?l = "foldr or_val (take ?h xs) 0"
      have len0: "length c0 = ?h" using shs_length [OF c0] h less.prems(2) by simp
      then have at: "at c0 (?h - 1) = (ret (c0 ! (?h - 1)) :: (mpc, jshare) m)" using h by simp
      have "sh c (c0 ! (?h - 1)) (prefix_or (take ?h xs) ! (?h - 1))"
        by (rule list_all2_nthD [OF c0]) (use len0 h in simp)
      then have l: "sh c (c0 ! (?h - 1)) ?l" using h less.prems(2) by simp
      then have "shs c (replicate (k - ?h) (c0 ! (?h - 1))) (replicate (k - ?h) ?l)"
        by (simp add: list_all2_conv_all_nth)
      then have o: "keeps (good c) (OR_inplace_v c (replicate (k - ?h) (c0 ! (?h - 1))) c1 (k - ?h))
          (\<lambda>r. shs c r (map2 or_val (replicate (k - ?h) ?l) (prefix_or (drop ?h xs)))) E"
        using less.prems(2) by (intro runs_inplace_v(2) [OF assms _ c1]) auto
      show ?thesis
        unfolding at bnd_ret
        by (rule keeps_bnd [OF o], rule keeps_ret, subst prefix_or_split [of ?h])
          (use h less.prems(2) c0 in \<open>auto intro: list_all2_appendI\<close>)
    qed
    have "prefix_OR c S k = bnd (prefix_OR c (take ?h S) ?h) (\<lambda>c0. bnd (prefix_OR c (drop ?h S) (k - ?h)) (\<lambda>c1.
        bnd (at c0 (?h - 1)) (\<lambda>last0. bnd (OR_inplace_v c (replicate (k - ?h) last0) c1 (k - ?h)) (\<lambda>tmp.
        ret (c0 @ tmp)))))"
      by (subst prefix_OR.simps) (use len False less.prems(3) in \<open>simp add: Let_def\<close>)
    then show ?thesis
      by (simp only:) (rule keeps_bnd [OF a], rule keeps_bnd [OF b], rule f)
  qed
qed

section \<open>Less-than\<close>

definition lt_steps :: "ctx \<Rightarrow> jshare list \<Rightarrow> nat \<Rightarrow> jshare list" where
  "lt_steps c d k = map (\<lambda>i. if i < k - 1 then sub c (d ! i) (d ! (i + 1)) else d ! i) [0..<k]"

definition lt_sum :: "ctx \<Rightarrow> jshare list \<Rightarrow> nat \<Rightarrow> (mpc, jshare) m" where
  "lt_sum c tmp k =
     bnd (at tmp 0) (\<lambda>b. ret (foldl (add_inplace c) b (map (\<lambda>i. tmp ! i) [1..<k])))"

definition lt :: "ctx \<Rightarrow> jshare list \<Rightarrow> jshare list \<Rightarrow> nat \<Rightarrow> (mpc, jshare) m" where
  "lt c a b k =
     bnd (XOR_v c a b k) (\<lambda>cc.
     bnd (prefix_OR c (rev cc) k) (\<lambda>d.
     let d = rev d;
         e = lt_steps c d k
     in bnd (mul_v c e b) (\<lambda>tmp.
        lt_sum c tmp k)))"

definition lt_plain :: "ctx \<Rightarrow> jshare list \<Rightarrow> int list \<Rightarrow> nat \<Rightarrow> (mpc, jshare) m" where
  "lt_plain c a b k =
     bnd (XOR_plain_v c a b k) (\<lambda>cc.
     bnd (prefix_OR c (rev cc) k) (\<lambda>d.
     let d = rev d;
         e = lt_steps c d k
     in bnd (mul_plain_v c e b) (\<lambda>tmp.
        lt_sum c tmp k)))"

text \<open>Whether two bit vectors differ at position \<open>i\<close> or above.\<close>

definition differ :: "int list \<Rightarrow> int list \<Rightarrow> nat \<Rightarrow> int" where
  "differ xs ys i = foldr or_val (drop i (map2 xor_val xs ys)) 0"

lemma differ_Cons [simp]:
  "differ (x # xs) (y # ys) (Suc i) = differ xs ys i"
  "differ (x # xs) (y # ys) 0 = or_val (xor_val x y) (differ xs ys 0)"
  by (simp_all add: differ_def)

lemma differ_bits:
  "length xs = length ys \<Longrightarrow> is_bits xs \<Longrightarrow> is_bits ys \<Longrightarrow> differ xs ys 0 = (if xs = ys then 0 else 1)"
  by (induction xs ys rule: list_induct2) (auto simp: differ_def xor_val_bits or_val_bits)

text \<open>
  The step of \<open>differ\<close> from 0 to 1 is at the highest position where the vectors differ, and
  the bit of the second vector there decides the comparison.
\<close>

lemma highest_difference:
  "length xs = length ys \<Longrightarrow> is_bits xs \<Longrightarrow> is_bits ys \<Longrightarrow>
    (\<Sum>i<length ys. (differ xs ys i - differ xs ys (Suc i)) * ys ! i) = of_bool (bits_value xs < bits_value ys)"
proof (induction xs ys rule: list_induct2)
  case Nil
  then show ?case by simp
next
  case (Cons x xs y ys)
  have b: "x = 0 \<or> x = 1" "y = 0 \<or> y = 1" "is_bits xs" "is_bits ys" using Cons.prems by auto
  have IH: "(\<Sum>i<length ys. (differ xs ys i - differ xs ys (Suc i)) * ys ! i) = of_bool (bits_value xs < bits_value ys)"
    using Cons.IH b by simp
  have "(\<Sum>i<length (y # ys). (differ (x # xs) (y # ys) i - differ (x # xs) (y # ys) (Suc i)) * (y # ys) ! i) =
      (or_val (xor_val x y) (differ xs ys 0) - differ xs ys 0) * y + of_bool (bits_value xs < bits_value ys)"
    by (simp add: sum.lessThan_Suc_shift IH del: sum.lessThan_Suc)
  also have "\<dots> = of_bool (bits_value (x # xs) < bits_value (y # ys))"
  proof (cases "xs = ys")
    case True
    then show ?thesis using b differ_bits [OF Cons.hyps b(3,4)] by (auto simp: xor_val_bits or_val_bits)
  next
    case False
    then have "bits_value xs \<noteq> bits_value ys" using bits_value_inj [OF Cons.hyps b(3,4)] by blast
    then have "bits_value (x # xs) < bits_value (y # ys) \<longleftrightarrow> bits_value xs < bits_value ys"
      using b(1,2) by auto
    moreover have "or_val (xor_val x y) (differ xs ys 0) = differ xs ys 0"
      using False b differ_bits [OF Cons.hyps b(3,4)] by (auto simp: xor_val_bits or_val_bits)
    ultimately show ?thesis by simp
  qed
  finally show ?case .
qed

lemma lt_steps_value:
  assumes d: "shs c d (prefix_or (rev (map2 xor_val xs ys)))" and k: "length xs = k" "length ys = k"
  shows "shs c (lt_steps c (rev d) k) (map (\<lambda>i. differ xs ys i - differ xs ys (Suc i)) [0..<k])"
proof -
  let ?cs = "map2 xor_val xs ys"
  have len: "length d = k" using shs_length [OF d] k by simp
  have v: "sh c (rev d ! i) (differ xs ys i)" if i: "i < k" for i
  proof -
    have "sh c (d ! (k - 1 - i)) (prefix_or (rev ?cs) ! (k - 1 - i))"
      by (rule list_all2_nthD [OF d]) (use i len in simp)
    moreover have "prefix_or (rev ?cs) ! (k - 1 - i) = differ xs ys i"
    proof -
      have "take (Suc (k - 1 - i)) (rev ?cs) = rev (drop i ?cs)"
        using i k by (simp add: rev_drop Suc_diff_Suc)
      then show ?thesis using i k by (simp add: differ_def or_rev)
    qed
    ultimately show ?thesis using i len by (simp add: rev_nth)
  qed
  have z: "differ xs ys k = 0" using k by (simp add: differ_def)
  have "sh c (lt_steps c (rev d) k ! i) (differ xs ys i - differ xs ys (Suc i))" if i: "i < k" for i
  proof (cases "i < k - 1")
    case True
    then show ?thesis using i by (auto simp: lt_steps_def intro!: sh_local v)
  next
    case False
    then have "Suc i = k" using i by simp
    then show ?thesis using v [OF i] z i by (auto simp: lt_steps_def)
  qed
  then show ?thesis by (simp add: list_all2_conv_all_nth lt_steps_def)
qed

lemma sh_foldl_add: "sh c b v \<Longrightarrow> shs c S xs \<Longrightarrow> sh c (foldl (add_inplace c) b S) (v + sum_list xs)"
proof (induction S arbitrary: b v xs)
  case Nil
  then show ?case by simp
next
  case (Cons s S)
  then obtain x xs' where x: "xs = x # xs'" "sh c s x" "shs c S xs'" by (auto simp: list_all2_Cons1)
  then have "sh c (foldl (add_inplace c) (add_inplace c b s) S) ((v + x) + sum_list xs')"
    using Cons by (intro Cons.IH sh_local)
  then show ?case using x by (simp add: add.assoc)
qed

lemma runs_lt_sum:
  assumes "shs c tmp vs" "length vs = k" "0 < k"
  shows "keeps (good c) (lt_sum c tmp k) (\<lambda>r. sh c r (sum_list vs)) E"
proof -
  have len: "length tmp = k" using shs_length [OF assms(1)] assms(2) by simp
  have tl: "map (\<lambda>i. tmp ! i) [1..<k] = tl tmp"
    using len assms(3) by (intro nth_equalityI) (auto simp: nth_tl)
  obtain v vs' where vs: "vs = v # vs'" using assms by (cases vs) auto
  then obtain t tmp' where t: "tmp = t # tmp'" "sh c t v" "shs c tmp' vs'"
    using assms(1) by (auto simp: list_all2_Cons2)
  show ?thesis
    unfolding lt_sum_def tl using t vs sh_foldl_add [OF t(2,3)] by (auto intro!: keeps_ret)
qed

lemma sum_products:
  "length ys = k \<Longrightarrow> sum_list (map2 (*) (map f [0..<k]) ys) = (\<Sum>i<k. f i * (ys ! i :: int))"
  by (simp add: sum_list_sum_nth atLeast0LessThan)

lemma runs_lt [prog]:
  assumes c: "wf c" and S: "shs c S xs" "shs c T ys" and k: "length xs = k" "length ys = k" "0 < k"
    and b: "is_bits xs" "is_bits ys"
  shows "keeps (good c) (lt c S T k) (\<lambda>r. sh c r (of_bool (bits_value xs < bits_value ys))) E"
proof -
  let ?e = "map (\<lambda>i. differ xs ys i - differ xs ys (Suc i)) [0..<k]"
  have s: "sum_list (map2 (*) ?e ys) = of_bool (bits_value xs < bits_value ys)"
    using highest_difference [OF _ b] k sum_products [OF k(2)] by simp
  have x: "keeps (good c) (XOR_v c S T k) (\<lambda>r. shs c r (map2 xor_val xs ys)) E"
    by (rule runs_XOR_v [OF c S k(1,2)])
  have p: "keeps (good c) (prefix_OR c (rev cc) k) (\<lambda>r. shs c r (prefix_or (rev (map2 xor_val xs ys)))) E"
    if "shs c cc (map2 xor_val xs ys)" for cc
    by (rule runs_prefix_OR [OF c]) (use that k in \<open>simp_all add: list_all2_rev\<close>)
  have m: "keeps (good c) (mul_v c (lt_steps c (rev d) k) T) (\<lambda>r. shs c r (map2 (*) ?e ys)) E"
    if "shs c d (prefix_or (rev (map2 xor_val xs ys)))" for d
    by (rule runs_mul_v [OF c lt_steps_value [OF that k(1,2)] S(2)]) (use k in simp)
  have f: "keeps (good c) (lt_sum c tmp k) (\<lambda>r. sh c r (of_bool (bits_value xs < bits_value ys))) E"
    if "shs c tmp (map2 (*) ?e ys)" for tmp
    unfolding s [symmetric] by (rule runs_lt_sum [OF that]) (use k in simp_all)
  show ?thesis
    unfolding lt_def Let_def
    by (rule keeps_bnd [OF x], rule keeps_bnd [OF p], assumption, rule keeps_bnd [OF m], assumption, rule f)
qed

lemma runs_lt_plain [prog]:
  assumes c: "wf c" and S: "shs c S xs" "plain_v c ys" and k: "length xs = k" "length ys = k" "0 < k"
    and b: "is_bits xs" "is_bits ys"
  shows "keeps (good c) (lt_plain c S ys k) (\<lambda>r. sh c r (of_bool (bits_value xs < bits_value ys))) E"
proof -
  let ?e = "map (\<lambda>i. differ xs ys i - differ xs ys (Suc i)) [0..<k]"
  have s: "sum_list (map2 (*) ?e ys) = of_bool (bits_value xs < bits_value ys)"
    using highest_difference [OF _ b] k sum_products [OF k(2)] by simp
  have x: "keeps (good c) (XOR_plain_v c S ys k) (\<lambda>r. shs c r (map2 xor_val xs ys)) E"
    by (rule runs_XOR_plain_v [OF c S k(1,2)])
  have p: "keeps (good c) (prefix_OR c (rev cc) k) (\<lambda>r. shs c r (prefix_or (rev (map2 xor_val xs ys)))) E"
    if "shs c cc (map2 xor_val xs ys)" for cc
    by (rule runs_prefix_OR [OF c]) (use that k in \<open>simp_all add: list_all2_rev\<close>)
  have m: "keeps (good c) (mul_plain_v c (lt_steps c (rev d) k) ys) (\<lambda>r. shs c r (map2 (*) ?e ys)) E"
    if "shs c d (prefix_or (rev (map2 xor_val xs ys)))" for d
    by (rule runs_mul_plain_v [OF c lt_steps_value [OF that k(1,2)]]) (use k in simp)
  have f: "keeps (good c) (lt_sum c tmp k) (\<lambda>r. sh c r (of_bool (bits_value xs < bits_value ys))) E"
    if "shs c tmp (map2 (*) ?e ys)" for tmp
    unfolding s [symmetric] by (rule runs_lt_sum [OF that]) (use k in simp_all)
  show ?thesis
    unfolding lt_plain_def Let_def
    by (rule keeps_bnd [OF x], rule keeps_bnd [OF p], assumption, rule keeps_bnd [OF m], assumption, rule f)
qed

end
