(* ===== verification/Convert.thy ===== *)
theory Convert
  imports Compare
begin

text \<open>
  Binary addition and the conversions between arithmetic and binary sharing of
  \<open>OnlineOp\<close> (\<open>POC/OnlineOp.hpp\<close>): \<open>pre_rand\<close>, \<open>carry_sum\<close>, \<open>add_bit\<close>, \<open>decompose\<close>,
  \<open>B2A\<close> and \<open>A2B\<close>, with their versions for public operands. \<open>pre_rand\<close> draws random bits
  until they are below the prime, which need not end: its model takes a bound on the
  number of attempts and returns \<open>Out_of_fuel\<close> beyond it.
\<close>

definition PSIZE :: nat where
  "PSIZE = 381"

definition QSIZE :: nat where
  "QSIZE = 254"

lemma PSIZE_pos: "0 < PSIZE" "2 \<le> PSIZE"
  by (simp_all add: PSIZE_def)

section \<open>Bits of public values\<close>

fun decompose_clear_loop :: "int \<Rightarrow> int \<Rightarrow> nat \<Rightarrow> int list" where
  "decompose_clear_loop p tmp 0 = []"
| "decompose_clear_loop p tmp (Suc n) =
     gf_and p (gf_shr p tmp 1) 1 # decompose_clear_loop p (gf_shr p tmp 1) n"

definition decompose_clear :: "ctx \<Rightarrow> int \<Rightarrow> nat \<Rightarrow> (mpc, int list) m" where
  "decompose_clear c x k =
     bnd (check (0 < k) Out_of_range) (\<lambda>_.
     ret (gf_and (pr c) x 1 # decompose_clear_loop (pr c) x (k - 1)))"

fun decompose_loop :: "int \<Rightarrow> int \<Rightarrow> nat \<Rightarrow> int list" where
  "decompose_loop p tmp 0 = []"
| "decompose_loop p tmp (Suc n) =
     to_gfp p (Bit_Operations.and (tmp div 2) 1) # decompose_loop p (tmp div 2) n"

definition decompose :: "ctx \<Rightarrow> int \<Rightarrow> nat \<Rightarrow> (mpc, int list) m" where
  "decompose c x k =
     bnd (check (0 < k) Out_of_range) (\<lambda>_.
     ret (to_gfp (pr c) (Bit_Operations.and x 1) # decompose_loop (pr c) x (k - 1)))"

lemma decompose_loop_bits: "1 < p \<Longrightarrow> decompose_loop p x n = int_bits n (x div 2)"
  by (induction n arbitrary: x) (simp_all add: int_bits_Suc and_one_eq to_gfp_mod, simp add: int_bits_def)

lemma decompose_clear_loop_bits:
  "1 < p \<Longrightarrow> in_field p x \<Longrightarrow> decompose_clear_loop p x n = int_bits n (x div 2)"
proof (induction n arbitrary: x)
  case 0
  then show ?case by (simp add: int_bits_def)
next
  case (Suc n)
  have "x div 2 \<le> x" if "0 \<le> x" using that by simp
  then have "in_field p (x div 2)" using Suc.prems(2) by (auto simp: in_field_def)
  then show ?case using Suc gf_shr_value [OF Suc.prems, of 1] by (simp add: int_bits_Suc gf_and_one)
qed

lemma decompose_value [simp]: "wf c \<Longrightarrow> 0 < k \<Longrightarrow> decompose c x k = ret (int_bits k x)"
  using int_bits_Suc [of "k - 1" x] wf_pr [of c]
  by (simp add: decompose_def decompose_loop_bits and_one_eq to_gfp_mod)

lemma decompose_clear_value [simp]:
  "wf c \<Longrightarrow> in_field (pr c) x \<Longrightarrow> 0 < k \<Longrightarrow> decompose_clear c x k = ret (int_bits k x)"
  using int_bits_Suc [of "k - 1" x] wf_pr [of c]
  by (simp add: decompose_clear_def decompose_clear_loop_bits gf_and_one)

lemma plain_bits: "wf c \<Longrightarrow> is_bits bs \<Longrightarrow> plain_v c bs"
  using wf_pr [of c] by (fastforce simp: plain_v_def is_bits_def in_field_def)

section \<open>Binary to arithmetic\<close>

definition B2A :: "ctx \<Rightarrow> jshare list \<Rightarrow> nat \<Rightarrow> (mpc, jshare) m" where
  "B2A c bs k =
     (let t = to_gfp (pr c) 2 in
      bnd (at bs 0) (\<lambda>b0.
      foldM (\<lambda>i acc. bnd (at bs i) (\<lambda>bi.
        let tmp = mul_plain c bi (power_clear (pr c) t (int i)) in ret (add_inplace c acc tmp))) [1..<k] b0))"

definition B2A_clear :: "ctx \<Rightarrow> int list \<Rightarrow> nat \<Rightarrow> (mpc, int) m" where
  "B2A_clear c bs k =
     (let t = to_gfp (pr c) 2 in
      bnd (at bs 0) (\<lambda>b0.
      foldM (\<lambda>i acc. bnd (at bs i) (\<lambda>bi.
        let tmp = gf_mul (pr c) bi (power_clear (pr c) t (int i)) in ret (gf_add (pr c) acc tmp))) [1..<k] b0))"

lemma power_of_2_clear: "1 < p \<Longrightarrow> 0 < i \<Longrightarrow> power_clear p (to_gfp p 2) (int i) = 2 ^ i mod p"
proof -
  assume "1 < p" "0 < i"
  then have "power_clear p (to_gfp p 2) (int i) = to_gfp p 2 ^ nat (int i) mod p"
    by (intro power_clear_value) (auto simp: to_gfp_mod in_field_def)
  also have "\<dots> = (2 mod p) ^ i mod p" using \<open>1 < p\<close> by (simp add: to_gfp_mod)
  also have "\<dots> = 2 ^ i mod p" by (rule power_mod)
  finally show ?thesis .
qed

lemma bits_value_take_Suc:
  "i < length xs \<Longrightarrow> bits_value (take (Suc i) xs) = bits_value (take i xs) + xs ! i * 2 ^ i"
  by (simp add: take_Suc_conv_app_nth bits_value_append)

lemma runs_B2A [prog]:
  assumes c: "wf c" and S: "shs c S xs" and k: "0 < k" "k \<le> length xs"
  shows "keeps (good c) (B2A c S k) (\<lambda>r. sh c r (bits_value (take k xs))) E"
proof -
  have len: "length S = length xs" using shs_length [OF S] .
  have step: "sh c (add_inplace c acc (mul_plain c (S ! i) (power_clear (pr c) (to_gfp (pr c) 2) (int i))))
      (bits_value (take (Suc i) xs))"
    if acc: "sh c acc (bits_value (take i xs))" and i: "0 < i" "i < length xs" for i acc
  proof -
    have "sh c (S ! i) (xs ! i)" using S i by (simp add: list_all2_conv_all_nth)
    then have "sh c (add_inplace c acc (mul_plain c (S ! i) (2 ^ i mod pr c))) (bits_value (take i xs) + xs ! i * (2 ^ i mod pr c))"
      using acc c by (intro sh_local sh_local_plain)
    moreover have "(bits_value (take i xs) + xs ! i * (2 ^ i mod pr c)) mod pr c = bits_value (take (Suc i) xs) mod pr c"
      unfolding bits_value_take_Suc [OF i(2)] by (rule mod_add_cong) (simp_all add: mod_mult_right_eq)
    ultimately show ?thesis
      using power_of_2_clear [OF wf_pr [OF c] i(1)] by (auto intro: sh_cong)
  qed
  have loop: "keeps (good c) (foldM (\<lambda>i acc. bnd (at S i) (\<lambda>bi.
        let tmp = mul_plain c bi (power_clear (pr c) (to_gfp (pr c) 2) (int i)) in ret (add_inplace c acc tmp))) [j..<k] acc)
      (\<lambda>r. sh c r (bits_value (take k xs))) E"
    if "sh c acc (bits_value (take j xs))" "0 < j" "j \<le> k" for j acc
    using that
  proof (induction "k - j" arbitrary: j acc)
    case 0
    then show ?case by (simp add: keeps_ret)
  next
    case (Suc n)
    then have j: "j < k" "[j..<k] = j # [Suc j..<k]" by (simp_all add: upt_conv_Cons)
    have "n = k - Suc j" using Suc.hyps(2) by simp
    then show ?case
      using Suc.hyps(1) [of "Suc j"] step [OF Suc.prems(1,2)] Suc.prems j k len by (simp add: Let_def)
  qed
  have "xs \<noteq> []" using k by auto
  then have "sh c (S ! 0) (bits_value (take 1 xs))"
    using S by (cases xs) (auto simp: list_all2_Cons2)
  then show ?thesis
    unfolding B2A_def Let_def using loop [of "S ! 0" 1] k len \<open>xs \<noteq> []\<close> by (simp add: Let_def)
qed

lemma B2A_clear_value:
  assumes c: "wf c" and b: "is_bits xs" and k: "0 < k" "k \<le> length xs"
  shows "B2A_clear c xs k = ret (bits_value (take k xs) mod pr c)"
proof -
  have p: "1 < pr c" using wf_pr [OF c] .
  have loop: "foldM (\<lambda>i acc. bnd (at xs i) (\<lambda>bi.
        let tmp = gf_mul (pr c) bi (power_clear (pr c) (to_gfp (pr c) 2) (int i)) in ret (gf_add (pr c) acc tmp))) [j..<k]
        (bits_value (take j xs) mod pr c) = ret (bits_value (take k xs) mod pr c)"
    if "0 < j" "j \<le> k" for j
    using that
  proof (induction "k - j" arbitrary: j)
    case 0
    then show ?case by simp
  next
    case (Suc n)
    then have j: "j < k" "[j..<k] = j # [Suc j..<k]" by (simp_all add: upt_conv_Cons)
    have e: "gf_add (pr c) (bits_value (take j xs) mod pr c) (gf_mul (pr c) (xs ! j) (2 ^ j mod pr c))
        = bits_value (take (Suc j) xs) mod pr c"
    proof -
      have "gf_add (pr c) (bits_value (take j xs) mod pr c) (gf_mul (pr c) (xs ! j) (2 ^ j mod pr c)) =
          (bits_value (take j xs) mod pr c + gf_mul (pr c) (xs ! j) (2 ^ j mod pr c)) mod pr c"
        using p by (intro gf_add_eq in_field_mod in_field_mul) auto
      also have "\<dots> = (bits_value (take j xs) + xs ! j * 2 ^ j) mod pr c"
        by (rule mod_add_cong) (simp_all add: gf_mul_def mod_mult_right_eq)
      finally show ?thesis using j k by (simp add: bits_value_take_Suc)
    qed
    have "n = k - Suc j" using Suc.hyps(2) by simp
    then show ?case
      using Suc.hyps(1) [of "Suc j"] power_of_2_clear [OF p Suc.prems(1)] Suc.prems j k by (simp add: Let_def e)
  qed
  obtain x xs' where xs: "xs = x # xs'" using k by (cases xs) auto
  have "x mod pr c = x" using b xs p by (auto simp: is_bits_def)
  then show ?thesis
    unfolding B2A_clear_def Let_def using loop [of 1] k xs by (simp add: Let_def)
qed

section \<open>Random values with their bits\<close>

fun pre_rand_loop :: "ctx \<Rightarrow> nat \<Rightarrow> int list \<Rightarrow> (mpc, jshare \<times> jshare list) m" where
  "pre_rand_loop c 0 pbits = throw Out_of_fuel"
| "pre_rand_loop c (Suc fuel) pbits =
     bnd (mapM (\<lambda>_. get_bit c) [0..<PSIZE]) (\<lambda>bitr.
     bnd (lt_plain c bitr pbits PSIZE) (\<lambda>flag.
     bnd (reveal_v c [flag]) (\<lambda>pflag.
     bnd (at pflag 0) (\<lambda>pflag0.
     if pflag0 = 1 then bnd (B2A c bitr PSIZE) (\<lambda>r. ret (r, bitr))
     else pre_rand_loop c fuel pbits))))"

definition pre_rand :: "ctx \<Rightarrow> nat \<Rightarrow> (mpc, jshare \<times> jshare list) m" where
  "pre_rand c fuel = bnd (decompose c (pr c) PSIZE) (\<lambda>pbits. pre_rand_loop c fuel pbits)"

text \<open>A sharing of a value below the prime, with sharings of its bits.\<close>

definition bit_sharing :: "ctx \<Rightarrow> jshare list \<Rightarrow> int list \<Rightarrow> bool" where
  "bit_sharing c S xs \<longleftrightarrow> shs c S xs \<and> is_bits xs"

definition rand_ok :: "ctx \<Rightarrow> jshare \<times> jshare list \<Rightarrow> bool" where
  "rand_ok c rb \<longleftrightarrow>
     (\<exists>xs. bit_sharing c (snd rb) xs \<and> length xs = PSIZE \<and> bits_value xs < pr c \<and> sh c (fst rb) (bits_value xs))"

lemma runs_get_bits:
  assumes "wf c"
  shows "keeps (good c) (mapM (\<lambda>_. get_bit c) [0..<n]) (\<lambda>S. \<exists>xs. bit_sharing c S xs \<and> length xs = n) E"
proof (rule runs_post [OF keeps_mapM [OF runs_get_bit [OF assms]]])
  fix S assume S: "list_all2 (\<lambda>_. bit_ok c) [0..<n] S"
  then have len: "length S = n" using list_all2_lengthD [OF S] by simp
  have "\<forall>i < n. \<exists>x. (x = 0 \<or> x = 1) \<and> sh c (S ! i) x"
    using S by (auto simp: list_all2_conv_all_nth bit_ok_def)
  then obtain f where f: "\<forall>i < n. (f i = 0 \<or> f i = 1) \<and> sh c (S ! i) (f i)" by metis
  have "bit_sharing c S (map f [0..<n])"
    using f len by (auto simp: bit_sharing_def list_all2_conv_all_nth is_bits_def)
  then show "\<exists>xs. bit_sharing c S xs \<and> length xs = n" by (intro exI conjI) auto
qed

text \<open>One attempt: the bits that were drawn are compared with the prime, and the outcome is opened.\<close>

lemma runs_pre_rand_attempt:
  assumes c: "wf c" and p: "pr c < 2 ^ PSIZE" and xs: "bit_sharing c bitr xs" "length xs = PSIZE"
    and X: "bits_value xs < pr c \<or> keeps (good c) X (rand_ok c) E"
  shows "keeps (good c) (bnd (lt_plain c bitr (int_bits PSIZE (pr c)) PSIZE) (\<lambda>flag.
     bnd (reveal_v c [flag]) (\<lambda>pflag.
     bnd (at pflag 0) (\<lambda>pflag0.
     if pflag0 = 1 then bnd (B2A c bitr PSIZE) (\<lambda>r. ret (r, bitr)) else X)))) (rand_ok c) E"
proof -
  have P: "0 < PSIZE" by (simp add: PSIZE_def)
  have pv: "bits_value (int_bits PSIZE (pr c)) = pr c"
    using p wf_pr [OF c] by (simp add: bits_value_int_bits)
  have S: "shs c bitr xs" "is_bits xs" using xs by (simp_all add: bit_sharing_def)
  let ?l = "of_bool (bits_value xs < pr c) :: int"
  have l: "keeps (good c) (lt_plain c bitr (int_bits PSIZE (pr c)) PSIZE) (\<lambda>r. sh c r ?l) E"
    using runs_lt_plain [where E = E, OF c S(1) plain_bits [OF c is_bits_int_bits [of PSIZE "pr c"]]
        xs(2) length_int_bits P S(2) is_bits_int_bits]
    unfolding pv .
  have r: "keeps (good c) (reveal_v c [flag]) (\<lambda>r. r = [?l]) E" if "sh c flag ?l" for flag
    using runs_reveal_v [OF c, of "[flag]" "[?l]"] that wf_pr [OF c] by simp
  have b: "keeps (good c) (B2A c bitr PSIZE) (\<lambda>r. sh c r (bits_value xs)) E"
    using runs_B2A [OF c S(1) P] xs(2) by simp
  have y: "keeps (good c) (bnd (B2A c bitr PSIZE) (\<lambda>r. ret (r, bitr))) (rand_ok c) E" if "bits_value xs < pr c"
    by (rule keeps_bnd [OF b], rule keeps_ret) (use xs that in \<open>auto simp: rand_ok_def\<close>)
  show ?thesis
    by (rule keeps_bnd [OF l], rule keeps_bnd [OF r], assumption) (use y X in auto)
qed

lemma runs_pre_rand_loop:
  assumes c: "wf c" and p: "pr c < 2 ^ PSIZE" and E: "E Out_of_fuel"
  shows "keeps (good c) (pre_rand_loop c fuel (int_bits PSIZE (pr c))) (rand_ok c) E"
proof (induction fuel)
  case 0
  then show ?case using E by (simp add: keeps_throw)
next
  case (Suc fuel)
  show ?case
    unfolding pre_rand_loop.simps
    by (rule keeps_bnd [OF runs_get_bits [OF c]]) (use runs_pre_rand_attempt [OF c p] Suc.IH in blast)
qed

lemma runs_pre_rand:
  assumes "wf c" "pr c < 2 ^ PSIZE" "E Out_of_fuel"
  shows "keeps (good c) (pre_rand c fuel) (rand_ok c) E"
  using runs_pre_rand_loop [where E = E, OF assms] assms(1) by (simp add: pre_rand_def PSIZE_def)

text \<open>A result does not depend on the bound: any larger one gives the same.\<close>

lemma pre_rand_loop_more_fuel:
  "pre_rand_loop c n pbits s = Inr r \<Longrightarrow> pre_rand_loop c (n + k) pbits s = Inr r"
proof (induction n arbitrary: s)
  case 0
  then show ?case by (simp add: throw_def)
next
  case (Suc n)
  then show ?case
    by (auto simp: bnd_def split: sum.splits prod.splits if_splits)
qed

text \<open>
  Enough bits in the buffer are taken from its end; if those of the first attempt are below
  the prime, one attempt is enough.
\<close>

lemma get_bit_buffered:
  "bits s \<noteq> [] \<Longrightarrow>
   get_bit c s = Inr (last (bits s), s\<lparr>bits := butlast (bits s), use_bits := Suc (use_bits s)\<rparr>)"
  by (simp add: get_bit_def get_one_no_count_def monad_defs)

lemma get_bits_buffered:
  "bits s = front @ rev S \<Longrightarrow> length S = length is \<Longrightarrow>
   mapM (\<lambda>_. get_bit c) is s = Inr (S, s\<lparr>bits := front, use_bits := use_bits s + length S\<rparr>)"
proof (induction "is" arbitrary: s S)
  case Nil
  then show ?case by (simp add: ret_def)
next
  case (Cons i "is")
  then obtain x S' where S: "S = x # S'" "length S' = length is" by (cases S) auto
  let ?t = "s\<lparr>bits := front @ rev S', use_bits := Suc (use_bits s)\<rparr>"
  have "get_bit c s = Inr (x, ?t)"
    using Cons.prems(1) get_bit_buffered [of s c] by (simp add: S butlast_append)
  moreover have "mapM (\<lambda>_. get_bit c) is ?t = Inr (S', ?t\<lparr>bits := front, use_bits := use_bits ?t + length S'\<rparr>)"
    by (rule Cons.IH) (simp_all add: S)
  ultimately show ?case by (simp add: S bnd_def ret_def)
qed

lemma good_bits_front: "good c s \<Longrightarrow> bits s = front @ S \<Longrightarrow> good c (s\<lparr>bits := front, use_bits := k\<rparr>)"
  by (auto simp: good_def prep_inv_def mac_inv_def)

lemma pre_rand_returns:
  assumes c: "wf c" and p: "pr c < 2 ^ PSIZE" and s: "good c s" "bits s = front @ rev S"
    and xs: "bit_sharing c S xs" "length xs = PSIZE" "bits_value xs < pr c"
  shows "\<exists>r t. pre_rand c (Suc fuel) s = Inr (r, t) \<and> good c t \<and> rand_ok c r"
proof -
  let ?s = "s\<lparr>bits := front, use_bits := use_bits s + length S\<rparr>"
  have "length S = length [0..<PSIZE]" using xs shs_length [of c S xs] by (simp add: bit_sharing_def)
  from get_bits_buffered [OF s(2) this]
  have "pre_rand c (Suc fuel) s = bnd (lt_plain c S (int_bits PSIZE (pr c)) PSIZE) (\<lambda>flag.
     bnd (reveal_v c [flag]) (\<lambda>pflag. bnd (at pflag 0) (\<lambda>pflag0.
     if pflag0 = 1 then bnd (B2A c S PSIZE) (\<lambda>r. ret (r, S))
     else pre_rand_loop c fuel (int_bits PSIZE (pr c))))) ?s"
    using decompose_value [OF c, of PSIZE "pr c"] by (simp add: pre_rand_def PSIZE_pos bnd_def [of "mapM _ _"])
  moreover have "good c ?s" by (rule good_bits_front [OF s])
  ultimately show ?thesis
    using runs_returns [OF runs_pre_rand_attempt [OF c p xs(1,2)]] xs(3) by metis
qed

section \<open>Adding bit vectors\<close>

text \<open>The results are the pair \<open>(ca_out, s)\<close>.\<close>

definition carry_sum :: "ctx \<Rightarrow> jshare \<Rightarrow> jshare \<Rightarrow> jshare \<Rightarrow> (mpc, jshare \<times> jshare) m" where
  "carry_sum c x y ca_in =
     bnd (XOR c x y) (\<lambda>s.
     bnd (XOR_inplace c s ca_in) (\<lambda>s.
     bnd (XOR c x ca_in) (\<lambda>tmp.
     bnd (XOR c y ca_in) (\<lambda>ca_out.
     bnd (AND_inplace c ca_out tmp) (\<lambda>ca_out.
     bnd (XOR_inplace c ca_out ca_in) (\<lambda>ca_out.
     ret (ca_out, s)))))))"

definition carry_sum_plain :: "ctx \<Rightarrow> jshare \<Rightarrow> int \<Rightarrow> jshare \<Rightarrow> (mpc, jshare \<times> jshare) m" where
  "carry_sum_plain c x y ca_in =
     (let s = XOR_plain c x y in
      bnd (XOR_inplace c s ca_in) (\<lambda>s.
      let ca_out = AND_plain c x y;
          tmp = XOR_plain c x y
      in bnd (AND_inplace c tmp ca_in) (\<lambda>tmp.
      bnd (OR_inplace c ca_out tmp) (\<lambda>ca_out.
      ret (ca_out, s)))))"

text \<open>The loop of \<open>add_bit\<close>: the sums, and the value \<open>ca_out\<close> has after the last pass.\<close>

fun add_bit_loop :: "ctx \<Rightarrow> (jshare \<times> jshare) list \<Rightarrow> jshare \<Rightarrow> jshare \<Rightarrow> (mpc, jshare list \<times> jshare) m" where
  "add_bit_loop c [] ca_in ca_out = ret ([], ca_out)"
| "add_bit_loop c ((ai, bi) # rest) ca_in ca_out =
     bnd (carry_sum c ai bi ca_in) (\<lambda>(ca_out, ci).
     bnd (add_bit_loop c rest ca_out ca_out) (\<lambda>(cs, ca_out).
     ret (ci # cs, ca_out)))"

definition add_bit :: "ctx \<Rightarrow> jshare list \<Rightarrow> jshare list \<Rightarrow> (mpc, jshare list) m" where
  "add_bit c a b =
     bnd (check (\<not> length a \<noteq> length b) Invalid_length) (\<lambda>_.
     bnd (at a 0) (\<lambda>a0.
     bnd (at b 0) (\<lambda>b0.
     bnd (AND c a0 b0) (\<lambda>ca_in.
     bnd (XOR c a0 b0) (\<lambda>c0.
     bnd (add_bit_loop c (zip (tl a) (tl b)) ca_in (j_zero c)) (\<lambda>(cs, ca_out).
     ret (c0 # cs @ [ca_out])))))))"

fun add_bit_plain_loop :: "ctx \<Rightarrow> (jshare \<times> int) list \<Rightarrow> jshare \<Rightarrow> jshare \<Rightarrow> (mpc, jshare list \<times> jshare) m" where
  "add_bit_plain_loop c [] ca_in ca_out = ret ([], ca_out)"
| "add_bit_plain_loop c ((ai, bi) # rest) ca_in ca_out =
     bnd (carry_sum_plain c ai bi ca_in) (\<lambda>(ca_out, ci).
     bnd (add_bit_plain_loop c rest ca_out ca_out) (\<lambda>(cs, ca_out).
     ret (ci # cs, ca_out)))"

definition add_bit_plain :: "ctx \<Rightarrow> jshare list \<Rightarrow> int list \<Rightarrow> (mpc, jshare list) m" where
  "add_bit_plain c a b =
     bnd (check (\<not> length a \<noteq> length b) Invalid_length) (\<lambda>_.
     bnd (at a 0) (\<lambda>a0.
     bnd (at b 0) (\<lambda>b0.
     let ca_in = AND_plain c a0 b0;
         c0 = XOR_plain c a0 b0
     in bnd (add_bit_plain_loop c (zip (tl a) (tl b)) ca_in (j_zero c)) (\<lambda>(cs, ca_out).
     ret (c0 # cs @ [ca_out])))))"

text \<open>A carry and a sum bit for the three bits that come in.\<close>

definition carry_ok :: "ctx \<Rightarrow> int \<Rightarrow> jshare \<times> jshare \<Rightarrow> bool" where
  "carry_ok c n r \<longleftrightarrow> sh c (fst r) (n div 2) \<and> sh c (snd r) (n mod 2)"

lemma carry_values:
  assumes "x = 0 \<or> x = 1" "y = 0 \<or> y = 1" "z = 0 \<or> z = (1 :: int)"
  shows "xor_val (xor_val x y) z = (x + y + z) mod 2"
    "xor_val (xor_val y z * xor_val x z) z = (x + y + z) div 2"
    "or_val (x * y) (xor_val x y * z) = (x + y + z) div 2"
  using assms by (auto simp: xor_val_def or_val_def)

lemma runs_carry_sum [prog]:
  assumes c: "wf c" and S: "sh c X x" "sh c Y y" "sh c Z z"
    and b: "x = 0 \<or> x = 1" "y = 0 \<or> y = 1" "z = 0 \<or> z = 1"
  shows "keeps (good c) (carry_sum c X Y Z) (carry_ok c (x + y + z)) E"
  unfolding carry_sum_def
  by (rule keeps_bnd [OF runs_XOR [OF c S(1,2)]], rule keeps_bnd [OF runs_gates(1) [OF c _ S(3)]], assumption,
      rule keeps_bnd [OF runs_XOR [OF c S(1,3)]], rule keeps_bnd [OF runs_XOR [OF c S(2,3)]],
      rule keeps_bnd [OF runs_gates(4) [OF c]], assumption, assumption,
      rule keeps_bnd [OF runs_gates(1) [OF c _ S(3)]], assumption, rule keeps_ret)
    (simp add: carry_ok_def carry_values [OF b])

lemma runs_carry_sum_plain [prog]:
  assumes c: "wf c" and S: "sh c X x" "sh c Z z"
    and b: "x = 0 \<or> x = 1" "y = 0 \<or> y = 1" "z = 0 \<or> z = 1"
  shows "keeps (good c) (carry_sum_plain c X y Z) (carry_ok c (x + y + z)) E"
proof -
  have y: "in_field (pr c) y" using b(2) wf_pr [OF c] by (auto simp: in_field_def)
  note pl = sh_gates_plain [OF c S(1) y]
  show ?thesis
    unfolding carry_sum_plain_def Let_def
    by (rule keeps_bnd [OF runs_gates(1) [OF c pl(1) S(2)]],
        rule keeps_bnd [OF runs_gates(4) [OF c pl(1) S(2)]],
        rule keeps_bnd [OF runs_gates(2) [OF c pl(3)]], assumption, rule keeps_ret)
      (simp add: carry_ok_def carry_values [OF b])
qed

text \<open>
  The loop adds what is left of the two vectors and the carry. When nothing is left, the
  last carry is \<open>ca_out\<close>, which the caller has not set if the loop never ran.
\<close>

definition adder_ok :: "ctx \<Rightarrow> nat \<Rightarrow> int \<Rightarrow> jshare list \<times> jshare \<Rightarrow> bool" where
  "adder_ok c n v r \<longleftrightarrow> shs c (fst r) (int_bits n v) \<and> sh c (snd r) (v div 2 ^ n)"

lemma adder_step:
  assumes "carry_ok c (x + y + z) (ca, s)" "adder_ok c n (X + Y + (x + y + z) div 2) (cs, co)"
  shows "adder_ok c (Suc n) ((x + 2 * X) + (y + 2 * Y) + z) (s # cs, co)"
proof -
  have "((x + 2 * X) + (y + 2 * Y) + z) mod 2 = (x + y + z) mod 2" by presburger
  moreover have d: "((x + 2 * X) + (y + 2 * Y) + z) div 2 = X + Y + (x + y + z) div 2" by presburger
  moreover have "((x + 2 * X) + (y + 2 * Y) + z) div 2 ^ Suc n = (X + Y + (x + y + z) div 2) div 2 ^ n"
    unfolding power_Suc d [symmetric] by (rule zdiv_zmult2_eq) simp
  ultimately show ?thesis using assms by (simp add: adder_ok_def carry_ok_def int_bits_Suc)
qed

lemma runs_add_bit_loop:
  assumes c: "wf c"
  shows "list_all2 (\<lambda>AB xy. sh c (fst AB) (fst xy) \<and> sh c (snd AB) (snd xy)) ABs xys \<Longrightarrow>
    is_bits (map fst xys) \<Longrightarrow> is_bits (map snd xys) \<Longrightarrow> sh c Z z \<Longrightarrow> z = 0 \<or> z = 1 \<Longrightarrow>
    xys \<noteq> [] \<or> sh c W z \<Longrightarrow>
    keeps (good c) (add_bit_loop c ABs Z W)
      (adder_ok c (length xys) (bits_value (map fst xys) + bits_value (map snd xys) + z)) E"
proof (induction ABs xys arbitrary: Z z W rule: list_all2_induct)
  case Nil
  then show ?case by (auto simp: adder_ok_def int_bits_def intro!: keeps_ret)
next
  case (Cons AB ABs xy xys)
  obtain A B x y where p: "AB = (A, B)" "xy = (x, y)" by fastforce
  have b: "x = 0 \<or> x = 1" "y = 0 \<or> y = 1" using Cons.prems p by simp_all
  have k: "keeps (good c) (carry_sum c A B Z) (carry_ok c (x + y + z)) E"
    by (rule runs_carry_sum [OF c _ _ Cons.prems(3) b Cons.prems(4)]) (use Cons.hyps p in simp_all)
  have l: "keeps (good c) (add_bit_loop c ABs ca ca)
      (adder_ok c (length xys) (bits_value (map fst xys) + bits_value (map snd xys) + (x + y + z) div 2)) E"
    if "carry_ok c (x + y + z) (ca, s)" for ca s
    by (rule Cons.IH) (use Cons.prems that b in \<open>auto simp: carry_ok_def\<close>)
  have f: "keeps (good c) (case cs of (ca, s) \<Rightarrow> bnd (add_bit_loop c ABs ca ca) (\<lambda>(cs, ca_out). ret (s # cs, ca_out)))
      (adder_ok c (length (xy # xys)) (bits_value (map fst (xy # xys)) + bits_value (map snd (xy # xys)) + z)) E"
    if cs: "carry_ok c (x + y + z) cs" for cs
  proof -
    obtain ca s where q: "cs = (ca, s)" by fastforce
    show ?thesis
      unfolding q prod.case
      by (rule keeps_bnd [OF l [OF cs [unfolded q]]])
        (use adder_step [OF cs [unfolded q]] p in \<open>auto intro!: keeps_ret split: prod.splits\<close>)
  qed
  show ?case unfolding p add_bit_loop.simps by (rule keeps_bnd [OF k]) (rule f [unfolded p])
qed

text \<open>The plain version has the same loop over public second bits.\<close>

lemma runs_add_bit_plain_loop:
  assumes c: "wf c"
  shows "list_all2 (\<lambda>Ab xy. sh c (fst Ab) (fst xy) \<and> snd Ab = snd xy) Abs xys \<Longrightarrow>
    is_bits (map fst xys) \<Longrightarrow> is_bits (map snd xys) \<Longrightarrow> sh c Z z \<Longrightarrow> z = 0 \<or> z = 1 \<Longrightarrow>
    xys \<noteq> [] \<or> sh c W z \<Longrightarrow>
    keeps (good c) (add_bit_plain_loop c Abs Z W)
      (adder_ok c (length xys) (bits_value (map fst xys) + bits_value (map snd xys) + z)) E"
proof (induction Abs xys arbitrary: Z z W rule: list_all2_induct)
  case Nil
  then show ?case by (auto simp: adder_ok_def int_bits_def intro!: keeps_ret)
next
  case (Cons Ab Abs xy xys)
  obtain A x y where p: "Ab = (A, y)" "xy = (x, y)" using Cons.hyps by (cases Ab; cases xy) auto
  have b: "x = 0 \<or> x = 1" "y = 0 \<or> y = 1" using Cons.prems p by simp_all
  have k: "keeps (good c) (carry_sum_plain c A y Z) (carry_ok c (x + y + z)) E"
    by (rule runs_carry_sum_plain [OF c _ Cons.prems(3) b Cons.prems(4)]) (use Cons.hyps p in simp)
  have l: "keeps (good c) (add_bit_plain_loop c Abs ca ca)
      (adder_ok c (length xys) (bits_value (map fst xys) + bits_value (map snd xys) + (x + y + z) div 2)) E"
    if "carry_ok c (x + y + z) (ca, s)" for ca s
    by (rule Cons.IH) (use Cons.prems that b in \<open>auto simp: carry_ok_def\<close>)
  have f: "keeps (good c) (case cs of (ca, s) \<Rightarrow> bnd (add_bit_plain_loop c Abs ca ca) (\<lambda>(cs, ca_out). ret (s # cs, ca_out)))
      (adder_ok c (length (xy # xys)) (bits_value (map fst (xy # xys)) + bits_value (map snd (xy # xys)) + z)) E"
    if cs: "carry_ok c (x + y + z) cs" for cs
  proof -
    obtain ca s where q: "cs = (ca, s)" by fastforce
    show ?thesis
      unfolding q prod.case
      by (rule keeps_bnd [OF l [OF cs [unfolded q]]])
        (use adder_step [OF cs [unfolded q]] p in \<open>auto intro!: keeps_ret split: prod.splits\<close>)
  qed
  show ?case unfolding p add_bit_plain_loop.simps by (rule keeps_bnd [OF k]) (rule f [unfolded p])
qed

text \<open>The first sum bit, the bits of the loop and the last carry are the bits of the sum.\<close>

lemma adder_result:
  assumes b: "x = 0 \<or> x = 1" "y = 0 \<or> y = 1" "is_bits xs" "is_bits ys" "length xs = length ys"
    and c0: "sh c c0 (xor_val x y)" and cs: "adder_ok c (length xs) (bits_value xs + bits_value ys + x * y) (cs, co)"
  shows "shs c (c0 # cs @ [co]) (int_bits (Suc (Suc (length xs))) (bits_value (x # xs) + bits_value (y # ys)))"
proof -
  let ?v = "bits_value (x # xs) + bits_value (y # ys)" and ?w = "bits_value xs + bits_value ys + x * y"
  let ?n = "length xs"
  have z: "x * y = 0 \<or> x * y = 1" using b by auto
  have v: "?v mod 2 = xor_val x y" "?v div 2 = ?w" using b by (auto simp: xor_val_def)
  have "0 \<le> ?w \<and> ?w < 2 * 2 ^ ?n"
    using bits_value_bounds [OF b(3)] bits_value_bounds [OF b(4)] b(5) z by auto
  then have "2 ^ ?n * (?w div 2 ^ ?n) < 2 ^ ?n * 2" "0 \<le> ?w div 2 ^ ?n"
    using mult_div_mod_eq [of "2 ^ ?n" ?w] pos_mod_sign [of "2 ^ ?n" ?w]
    by (linarith, simp add: pos_imp_zdiv_nonneg_iff)
  then have "?w div 2 ^ ?n mod 2 = ?w div 2 ^ ?n" by simp
  then have "int_bits (Suc ?n) ?w = int_bits ?n ?w @ [?w div 2 ^ ?n]" by (simp add: int_bits_def)
  then have "int_bits (Suc (Suc ?n)) ?v = xor_val x y # int_bits ?n ?w @ [?w div 2 ^ ?n]"
    unfolding int_bits_Suc [of "Suc ?n"] v by simp
  then show ?thesis
    using c0 cs by (simp add: adder_ok_def list_all2_appendI)
qed

lemma runs_add_bit [prog]:
  assumes c: "wf c" and S: "bit_sharing c S xs" "bit_sharing c T ys"
    and len: "length xs = length ys" "2 \<le> length xs"
  shows "keeps (good c) (add_bit c S T)
    (\<lambda>r. shs c r (int_bits (Suc (length xs)) (bits_value xs + bits_value ys))) E"
proof -
  obtain x xs' where xs: "xs = x # xs'" using len by (cases xs) auto
  obtain y ys' where ys: "ys = y # ys'" using len by (cases ys) auto
  obtain A As where A: "S = A # As" "sh c A x" "shs c As xs'"
    using S(1) xs by (auto simp: bit_sharing_def list_all2_Cons2)
  obtain B Bs where B: "T = B # Bs" "sh c B y" "shs c Bs ys'"
    using S(2) ys by (auto simp: bit_sharing_def list_all2_Cons2)
  have b: "x = 0 \<or> x = 1" "y = 0 \<or> y = 1" "is_bits xs'" "is_bits ys'" "length xs' = length ys'"
    using S xs ys len by (simp_all add: bit_sharing_def)
  have l: "length As = length Bs" using A B b by (auto dest!: shs_length)
  have z: "x * y = 0 \<or> x * y = 1" using b by auto
  have ne: "xs' \<noteq> []" "ys' \<noteq> []" using len xs ys by auto
  have "list_all2 (\<lambda>AB xy. sh c (fst AB) (fst xy) \<and> sh c (snd AB) (snd xy)) (zip As Bs) (zip xs' ys')"
    using A B b by (simp add: list_all2_conv_all_nth)
  then have k: "keeps (good c) (add_bit_loop c (zip As Bs) Z (j_zero c))
      (adder_ok c (length xs') (bits_value xs' + bits_value ys' + x * y)) E" if "sh c Z (x * y)" for Z
    using runs_add_bit_loop [OF c, of "zip As Bs" "zip xs' ys'" Z "x * y" "j_zero c" E] that z b ne by simp
  show ?thesis
    using l unfolding add_bit_def A B
    by (simp, intro keeps_bnd [OF runs_gates(3) [OF c A(2) B(2)]] keeps_bnd [OF runs_XOR [OF c A(2) B(2)]]
        keeps_bnd [OF k]) (use adder_result [OF b] xs ys in \<open>auto intro!: keeps_ret split: prod.splits\<close>)
qed

lemma runs_add_bit_plain [prog]:
  assumes c: "wf c" and S: "bit_sharing c S xs" "is_bits ys"
    and len: "length xs = length ys" "2 \<le> length xs"
  shows "keeps (good c) (add_bit_plain c S ys)
    (\<lambda>r. shs c r (int_bits (Suc (length xs)) (bits_value xs + bits_value ys))) E"
proof -
  obtain x xs' where xs: "xs = x # xs'" using len by (cases xs) auto
  obtain y ys' where ys: "ys = y # ys'" using len by (cases ys) auto
  obtain A As where A: "S = A # As" "sh c A x" "shs c As xs'"
    using S(1) xs by (auto simp: bit_sharing_def list_all2_Cons2)
  have b: "x = 0 \<or> x = 1" "y = 0 \<or> y = 1" "is_bits xs'" "is_bits ys'" "length xs' = length ys'"
    using S xs ys len by (simp_all add: bit_sharing_def)
  have l: "length As = length ys'" using A b by (auto dest!: shs_length)
  have z: "x * y = 0 \<or> x * y = 1" using b by auto
  have ne: "xs' \<noteq> []" "ys' \<noteq> []" using len xs ys by auto
  have y: "in_field (pr c) y" using b(2) wf_pr [OF c] by (auto simp: in_field_def)
  note pl = sh_gates_plain [OF c A(2) y]
  have "list_all2 (\<lambda>Ab xy. sh c (fst Ab) (fst xy) \<and> snd Ab = snd xy) (zip As ys') (zip xs' ys')"
    using A b by (simp add: list_all2_conv_all_nth)
  then have k: "keeps (good c) (add_bit_plain_loop c (zip As ys') (AND_plain c A y) (j_zero c))
      (adder_ok c (length xs') (bits_value xs' + bits_value ys' + x * y)) E"
    using runs_add_bit_plain_loop [OF c, of "zip As ys'" "zip xs' ys'" "AND_plain c A y" "x * y" "j_zero c" E]
      pl(3) z b ne by simp
  show ?thesis
    using l unfolding add_bit_plain_def A ys Let_def
    by (simp, intro keeps_bnd [OF k]) (use adder_result [OF b pl(1)] xs in \<open>auto intro!: keeps_ret split: prod.splits\<close>)
qed

text \<open>Vectors of one bit: the loop never runs, and the carry is lost.\<close>

lemma runs_add_bit_single:
  assumes c: "wf c" and S: "sh c A x" "sh c B y"
  shows "keeps (good c) (add_bit c [A] [B]) (\<lambda>r. shs c r [xor_val x y, 0]) E"
  unfolding add_bit_def
  by (simp, intro keeps_bnd [OF runs_gates(3) [OF c S]] keeps_bnd [OF runs_XOR [OF c S]] keeps_ret)
    (use sh_zero [OF wf_wf_field [OF c]] in simp)

section \<open>Arithmetic to binary\<close>

definition A2B_k :: "ctx \<Rightarrow> jshare \<Rightarrow> nat \<Rightarrow> (mpc, jshare list) m" where
  "A2B_k c cc k = throw Not_implemented"

text \<open>
  What follows the opening of \<open>bcp = a - r\<close> when it is not zero: the comparison of \<open>r\<close> with
  \<open>p - bcp\<close> selects between the bits of \<open>bcp\<close> and those of \<open>2^382 + bcp - p\<close>, to which
  the bits of \<open>r\<close> are added.
\<close>

definition A2B_masked :: "ctx \<Rightarrow> jshare list \<Rightarrow> int \<Rightarrow> (mpc, jshare list) m" where
  "A2B_masked c bitr bcp =
     bnd (decompose c (pr c - bcp) PSIZE) (\<lambda>bound.
     bnd (lt_plain c bitr bound PSIZE) (\<lambda>factor.
     let tmp = mul_plain c factor (to_gfp (pr c) 2);
         factor = sub_inplace c factor tmp;
         factor = add_plain_inplace c factor (to_gfp (pr c) 1)
     in bnd (decompose c bcp PSIZE) (\<lambda>f.
        bnd (decompose c (2 * 2 ^ PSIZE + bcp - pr c) PSIZE) (\<lambda>tf.
        let tg = map (\<lambda>i. add_plain_inplace c
              (mul_plain c factor (gf_sub (pr c) (tf ! i) (f ! i))) (f ! i)) [0..<PSIZE]
        in bnd (add_bit c tg bitr) (\<lambda>bs. ret (butlast bs))))))"

definition A2B :: "ctx \<Rightarrow> nat \<Rightarrow> jshare \<Rightarrow> (mpc, jshare list) m" where
  "A2B c fuel a =
     bnd (pre_rand c fuel) (\<lambda>(r, bitr).
     let cc = sub c a r in
     bnd (reveal_v c [cc]) (\<lambda>cp.
     bnd (at cp 0) (\<lambda>bcp.
     if bcp = 0 then ret bitr else A2B_masked c bitr bcp)))"

lemma int_bits_butlast: "butlast (int_bits (Suc k) v) = int_bits k v"
  by (simp add: int_bits_def)

lemma int_bits_mod: "int_bits k v = int_bits k (v mod 2 ^ k)"
  by (rule bits_value_inj) (simp_all add: bits_value_int_bits)

text \<open>The vector that is added to the random bits: those of \<open>f\<close> or of \<open>tf\<close>.\<close>

lemma select_bits:
  assumes c: "wf c" and f: "is_bits f" "length f = k" and t: "is_bits tf" "length tf = k"
    and F: "sh c F (if b then 0 else 1)"
  shows "bit_sharing c (map (\<lambda>i. add_plain_inplace c (mul_plain c F (gf_sub (pr c) (tf ! i) (f ! i))) (f ! i)) [0..<k])
    (if b then f else tf)"
proof -
  have p: "1 < pr c" using wf_pr [OF c] .
  have "sh c (add_plain_inplace c (mul_plain c F (gf_sub (pr c) (tf ! i) (f ! i))) (f ! i)) ((if b then f else tf) ! i)"
    if i: "i < k" for i
  proof -
    have fi: "in_field (pr c) (f ! i)"
      using plain_bits [OF c f(1)] i f(2) by (simp add: plain_v_nth)
    have "sh c (add_plain_inplace c (mul_plain c F (gf_sub (pr c) (tf ! i) (f ! i))) (f ! i))
        ((if b then 0 else 1) * gf_sub (pr c) (tf ! i) (f ! i) + f ! i)"
      using c F fi by (intro sh_local_plain)
    moreover have "((if b then 0 else 1) * gf_sub (pr c) (tf ! i) (f ! i) + f ! i) mod pr c
        = (if b then f else tf) ! i mod pr c"
    proof (cases b)
      case False
      have "(gf_sub (pr c) (tf ! i) (f ! i) + f ! i) mod pr c = ((tf ! i - f ! i) + f ! i) mod pr c"
        by (rule mod_add_cong) (simp_all add: gf_sub_cong)
      then show ?thesis using False by simp
    qed simp
    ultimately show ?thesis by (rule sh_cong)
  qed
  then show ?thesis
    using f t by (simp add: bit_sharing_def list_all2_conv_all_nth)
qed

text \<open>One minus a shared bit, the way \<open>A2B\<close> computes it.\<close>

lemma sh_flip:
  assumes c: "wf c" and F: "sh c F (of_bool b)"
  shows "sh c (add_plain_inplace c (sub_inplace c F (mul_plain c F (to_gfp (pr c) 2))) (to_gfp (pr c) 1))
    (if b then 0 else 1)"
proof -
  have p: "1 < pr c" using wf_pr [OF c] .
  let ?b = "of_bool b :: int"
  have "sh c (add_plain_inplace c (sub_inplace c F (mul_plain c F (to_gfp (pr c) 2))) (to_gfp (pr c) 1))
      (?b - ?b * to_gfp (pr c) 2 + to_gfp (pr c) 1)"
    using F c p by (intro sh_local sh_local_plain) (auto simp: to_gfp_mod in_field_def)
  moreover have "(?b - ?b * to_gfp (pr c) 2 + to_gfp (pr c) 1) mod pr c = (?b - ?b * 2 + 1) mod pr c"
    by (intro mod_add_cong mod_diff_cong) (simp_all add: to_gfp_mod p)
  ultimately have "sh c (add_plain_inplace c (sub_inplace c F (mul_plain c F (to_gfp (pr c) 2))) (to_gfp (pr c) 1))
      (?b - ?b * 2 + 1)"
    by (rule sh_cong)
  then show ?thesis by (cases b) simp_all
qed

text \<open>The sum of the selected summand and the mask, in \<open>PSIZE\<close> bits, is the value itself.\<close>

lemma unmask_bits:
  assumes p: "1 < p" "p < 2 ^ k" and R: "0 \<le> R" "R < p" and v: "0 \<le> v" "v < p"
  shows "int_bits k (bits_value (int_bits k (if R < p - v then v else 2 * 2 ^ k + v - p)) + R)
    = int_bits k ((v + R) mod p)"
proof (cases "R < p - v")
  case True
  have "bits_value (int_bits k v) = v" using v p by (simp add: bits_value_int_bits)
  moreover have "(v + R) mod p = v + R" using True v R by simp
  ultimately show ?thesis using True by simp
next
  case False
  have "(2 * 2 ^ k + v - p) mod 2 ^ k = (v - p) mod 2 ^ k"
    using mod_mult_self2 [of "v - p" "2 ^ k" 2] by (simp add: algebra_simps)
  then have "(bits_value (int_bits k (2 * 2 ^ k + v - p)) + R) mod 2 ^ k = (v - p + R) mod 2 ^ k"
    by (simp add: bits_value_int_bits mod_add_left_eq)
  moreover have "(v + R) mod p = v - p + R"
  proof -
    have "(v + R) mod p = (v - p + R) mod p"
      using mod_mult_self2 [of "v - p + R" p 1] by (simp add: algebra_simps)
    then show ?thesis using False v R by simp
  qed
  ultimately show ?thesis
    using False int_bits_mod [of k "bits_value (int_bits k (2 * 2 ^ k + v - p)) + R"]
      int_bits_mod [of k "v - p + R"] by simp
qed

lemma runs_A2B_masked:
  assumes c: "wf c" and p: "pr c < 2 ^ PSIZE" and v: "0 \<le> v" "v < pr c"
    and xs: "bit_sharing c bitr xs" "length xs = PSIZE" "bits_value xs < pr c"
  shows "keeps (good c) (A2B_masked c bitr v) (\<lambda>r. shs c r (int_bits PSIZE ((v + bits_value xs) mod pr c))) E"
proof -
  let ?R = "bits_value xs"
  have xb: "shs c bitr xs" "is_bits xs" using xs by (simp_all add: bit_sharing_def)
  have R: "0 \<le> ?R" using bits_value_bounds [OF xb(2)] by simp
  let ?F = "\<lambda>factor. add_plain_inplace c (sub_inplace c factor (mul_plain c factor (to_gfp (pr c) 2))) (to_gfp (pr c) 1)"
  let ?f = "int_bits PSIZE v" and ?tf = "int_bits PSIZE (2 * 2 ^ PSIZE + v - pr c)"
  let ?tg = "\<lambda>factor. map (\<lambda>i. add_plain_inplace c
      (mul_plain c (?F factor) (gf_sub (pr c) (?tf ! i) (?f ! i))) (?f ! i)) [0..<PSIZE]"
  have "bits_value (int_bits PSIZE (pr c - v)) = pr c - v"
    using v p by (simp add: bits_value_int_bits)
  then have lt: "keeps (good c) (lt_plain c bitr (int_bits PSIZE (pr c - v)) PSIZE)
      (\<lambda>r. sh c r (of_bool (?R < pr c - v))) E"
    using runs_lt_plain [where E = E, OF c xb(1) plain_bits [OF c is_bits_int_bits [of PSIZE "pr c - v"]]
        xs(2) length_int_bits PSIZE_pos(1) xb(2) is_bits_int_bits] by (simp only:)
  let ?s = "int_bits PSIZE (if ?R < pr c - v then v else 2 * 2 ^ PSIZE + v - pr c)"
  have tg: "bit_sharing c (?tg factor) ?s" if "sh c factor (of_bool (?R < pr c - v))" for factor
    using select_bits [OF c _ _ _ _ sh_flip [OF c that], of ?f PSIZE ?tf] by (simp add: if_distrib)
  have a: "keeps (good c) (add_bit c (?tg factor) bitr) (\<lambda>r. shs c r (int_bits (Suc PSIZE) (bits_value ?s + ?R))) E"
    if "sh c factor (of_bool (?R < pr c - v))" for factor
    using runs_add_bit [OF c tg [OF that] xs(1)] xs(2) PSIZE_pos(2) by simp
  have b: "shs c (butlast bs) (int_bits PSIZE ((v + ?R) mod pr c))"
    if "shs c bs (int_bits (Suc PSIZE) (bits_value ?s + ?R))" for bs
  proof -
    have "shs c (butlast bs) (butlast (int_bits (Suc PSIZE) (bits_value ?s + ?R)))"
      using that by (simp add: butlast_conv_take shs_length [OF that] list_all2_takeI)
    then show ?thesis
      by (simp only: int_bits_butlast unmask_bits [OF wf_pr [OF c] p R xs(3) v])
  qed
  show ?thesis
    unfolding A2B_masked_def Let_def decompose_value [OF c PSIZE_pos(1)] bnd_ret
    by (rule keeps_bnd [OF lt], rule keeps_bnd [OF a], assumption, rule keeps_ret, rule b)
qed

lemma runs_A2B_rest:
  assumes c: "wf c" and p: "pr c < 2 ^ PSIZE" and S: "sh c S x" and rb: "rand_ok c (r, bitr)"
  shows "keeps (good c) (bnd (reveal_v c [sub c S r]) (\<lambda>cp. bnd (at cp 0) (\<lambda>bcp.
     if bcp = 0 then ret bitr else A2B_masked c bitr bcp))) (\<lambda>r. shs c r (int_bits PSIZE (x mod pr c))) E"
proof -
  obtain xs where xs: "bit_sharing c bitr xs" "length xs = PSIZE" "bits_value xs < pr c" "sh c r (bits_value xs)"
    using rb by (auto simp: rand_ok_def)
  let ?R = "bits_value xs"
  let ?v = "(x - ?R) mod pr c"
  have v: "0 \<le> ?v" "?v < pr c" "(?v + ?R) mod pr c = x mod pr c"
    using wf_pr [OF c] by (simp_all add: mod_simps)
  have xb: "shs c bitr xs" "is_bits xs" using xs by (simp_all add: bit_sharing_def)
  have rv: "keeps (good c) (reveal_v c [sub c S r]) (\<lambda>r. r = [?v]) E"
    using runs_reveal_v [OF c, of "[sub c S r]" "[x - ?R]"] S xs(4) by (simp add: sh_local)
  have z: "shs c bitr (int_bits PSIZE (x mod pr c))" if "?v = 0"
  proof -
    have "x mod pr c = ?R" using v(3) that xs(3) bits_value_bounds [OF xb(2)] by simp
    moreover have "int_bits PSIZE ?R = xs"
      using bits_value_bounds [OF xb(2)] xs(2) xb(2)
      by (intro bits_value_inj) (simp_all add: bits_value_int_bits)
    ultimately show ?thesis using xb(1) by simp
  qed
  have m: "keeps (good c) (A2B_masked c bitr ?v) (\<lambda>r. shs c r (int_bits PSIZE (x mod pr c))) E"
    using runs_A2B_masked [OF c p v(1,2) xs(1-3)] unfolding v(3) .
  show ?thesis using z m by (auto intro!: keeps_bnd [OF rv] keeps_ret)
qed

lemma runs_A2B:
  assumes c: "wf c" and p: "pr c < 2 ^ PSIZE" and S: "sh c S x" and E: "E Out_of_fuel"
  shows "keeps (good c) (A2B c fuel S) (\<lambda>r. shs c r (int_bits PSIZE (x mod pr c))) E"
  unfolding A2B_def
  by (rule keeps_bnd [OF runs_pre_rand [where E = E, OF c p E]])
    (use runs_A2B_rest [OF c p S] in \<open>auto split: prod.splits\<close>)

lemma A2B_returns:
  assumes c: "wf c" and p: "pr c < 2 ^ PSIZE" and S: "sh c S x" and s: "good c s" "bits s = front @ rev B"
    and xs: "bit_sharing c B xs" "length xs = PSIZE" "bits_value xs < pr c"
  shows "\<exists>r t. A2B c (Suc fuel) S s = Inr (r, t) \<and> good c t \<and> shs c r (int_bits PSIZE (x mod pr c))"
proof -
  obtain r bitr t where t: "pre_rand c (Suc fuel) s = Inr ((r, bitr), t)" "good c t" "rand_ok c (r, bitr)"
    using pre_rand_returns [OF c p s xs] by fast
  have "A2B c (Suc fuel) S s = bnd (reveal_v c [sub c S r]) (\<lambda>cp. bnd (at cp 0) (\<lambda>bcp.
     if bcp = 0 then ret bitr else A2B_masked c bitr bcp)) t"
    using t(1) by (simp add: A2B_def bnd_def)
  then show ?thesis using runs_returns [OF runs_A2B_rest [OF c p S t(3)] t(2)] by simp
qed

end
