(* ===== verification/Binary.thy ===== *)
theory Binary
  imports Arithmetic Convert
begin

text \<open>
  What the operations on shared bits guarantee: the gate trees, prefix-or, the comparison,
  the adder, and the conversions between arithmetic and binary sharings.
\<close>

section \<open>Gates\<close>

text \<open>The balanced trees \<open>KXOR\<close> and \<open>KOR\<close> return the parity and the disjunction of a
  vector of shared bits of any positive length; a wrong length argument throws
  \<open>invalid_length\<close>, and an empty vector recurses forever.\<close>
theorem gate_trees_value:
  assumes "wf c" "good c s" "bit_sharing c S xs"
  shows "if length xs \<noteq> k then KXOR c S k s = Inl Invalid_length \<and> KOR c S k s = Inl Invalid_length
    else if k = 0 then KXOR c S k s = Inl Diverges \<and> KOR c S k s = Inl Diverges
    else \<exists>r t r' t'. KXOR c S k s = Inr (r, t) \<and> good c t \<and> sh c r (sum_list xs mod 2) \<and>
      KOR c S k s = Inr (r', t') \<and> good c t' \<and> sh c r' (of_bool (1 \<in> set xs))"
proof -
  have S: "shs c S xs" "is_bits xs" "length S = length xs"
    using assms(3) shs_length [of c S xs] by (simp_all add: bit_sharing_def)
  have "KXOR c S k s = Inl Invalid_length \<and> KOR c S k s = Inl Invalid_length" if "length xs \<noteq> k"
    using that S(3) by (subst KXOR.simps, subst KOR.simps, simp) (simp add: throw_def)
  moreover have "KXOR c S 0 s = Inl Diverges \<and> KOR c S 0 s = Inl Diverges" if "length xs = 0"
    using that S(3) by (subst KXOR.simps, subst KOR.simps, simp) (simp add: throw_def)
  moreover have "\<exists>r t r' t'. KXOR c S k s = Inr (r, t) \<and> good c t \<and> sh c r (sum_list xs mod 2) \<and>
      KOR c S k s = Inr (r', t') \<and> good c t' \<and> sh c r' (of_bool (1 \<in> set xs))" if "length xs = k" "0 < k"
    using runs_returns [OF runs_KXOR [OF assms(1) S(1) that S(2)] assms(2)]
      runs_returns [OF runs_KOR [OF assms(1) S(1) that S(2)] assms(2)] by blast
  ultimately show ?thesis by auto
qed

theorem gate_trees_value_witness:
  "\<exists>r t r' t'. KXOR demo (map demo_share [1, 0, 1]) 3 demo_state = Inr (r, t) \<and> good demo t \<and> sh demo r 0 \<and>
      KOR demo (map demo_share [1, 0, 1]) 3 demo_state = Inr (r', t') \<and> good demo t' \<and> sh demo r' 1"
  using gate_trees_value [of demo demo_state "map demo_share [1, 0, 1]" "[1, 0, 1]" 3]
  by (simp add: bit_sharing_def)

text \<open>\<open>prefix_OR\<close> returns, at each position, the disjunction of the bits up to it.\<close>
theorem prefix_OR_value:
  assumes "wf c" "good c s" "bit_sharing c S xs" "length xs = k" "0 < k"
  shows "\<exists>r t. prefix_OR c S k s = Inr (r, t) \<and> good c t \<and>
    shs c r (map (\<lambda>i. of_bool (1 \<in> set (take (Suc i) xs))) [0..<k])"
proof -
  have S: "shs c S xs" "is_bits xs" using assms(3) by (simp_all add: bit_sharing_def)
  have "prefix_or xs = map (\<lambda>i. of_bool (1 \<in> set (take (Suc i) xs))) [0..<k]"
  proof (rule nth_equalityI)
    fix i assume i: "i < length (prefix_or xs)"
    have "is_bits (take (Suc i) xs)" using S(2) by (auto simp: is_bits_def dest: in_set_takeD)
    then show "prefix_or xs ! i = map (\<lambda>i. of_bool (1 \<in> set (take (Suc i) xs))) [0..<k] ! i"
      using i assms(4) by (simp add: foldr_or_bits)
  qed (simp add: assms(4))
  then show ?thesis
    using runs_returns [OF runs_prefix_OR [OF assms(1) S(1) assms(4,5)] assms(2)] by simp
qed

theorem prefix_OR_value_witness:
  "\<exists>r t. prefix_OR demo (map demo_share [0, 1, 0]) 3 demo_state = Inr (r, t) \<and> good demo t \<and> shs demo r [0, 1, 1]"
  using prefix_OR_value [of demo demo_state "map demo_share [0, 1, 0]" "[0, 1, 0]" 3]
  by (simp add: bit_sharing_def upt_rec numeral_3_eq_3)

section \<open>Comparison and addition\<close>

text \<open>C38: \<open>lt\<close> returns a sharing of the bit \<open>a < b\<close> for two numbers given by their bits,
  least significant first, with a shared or a public second number.\<close>
theorem lt_compares:
  assumes "wf c" "good c s" "bit_sharing c S xs" "bit_sharing c T ys" "length xs = k" "length ys = k" "0 < k"
  shows "\<exists>r t r' t'. lt c S T k s = Inr (r, t) \<and> good c t \<and> sh c r (of_bool (bits_value xs < bits_value ys)) \<and>
    lt_plain c S ys k s = Inr (r', t') \<and> good c t' \<and> sh c r' (of_bool (bits_value xs < bits_value ys))"
proof -
  have S: "shs c S xs" "is_bits xs" "shs c T ys" "is_bits ys" using assms(3,4) by (simp_all add: bit_sharing_def)
  show ?thesis
    using runs_returns [OF runs_lt [OF assms(1) S(1,3) assms(5-7) S(2,4)] assms(2)]
      runs_returns [OF runs_lt_plain [OF assms(1) S(1) plain_bits [OF assms(1) S(4)] assms(5-7) S(2,4)] assms(2)]
    by blast
qed

theorem lt_compares_witness:
  "\<exists>r t r' t'. lt demo (map demo_share [1, 0]) (map demo_share [0, 1]) 2 demo_state = Inr (r, t) \<and> good demo t \<and>
    sh demo r 1 \<and> lt_plain demo (map demo_share [1, 0]) [0, 1] 2 demo_state = Inr (r', t') \<and> good demo t' \<and> sh demo r' 1"
  using lt_compares [of demo demo_state "map demo_share [1, 0]" "[1, 0]" "map demo_share [0, 1]" "[0, 1]" 2]
  by (simp add: bit_sharing_def)

text \<open>The ripple-carry adder returns sharings of all bits of the sum, one more than the
  summands have, for a shared and for a public second summand of at least two bits.\<close>
theorem add_bit_adds:
  assumes "wf c" "good c s" "bit_sharing c S xs" "bit_sharing c T ys" "length xs = length ys" "2 \<le> length xs"
  shows "\<exists>r t r' t'. add_bit c S T s = Inr (r, t) \<and> good c t \<and>
    shs c r (int_bits (Suc (length xs)) (bits_value xs + bits_value ys)) \<and>
    add_bit_plain c S ys s = Inr (r', t') \<and> good c t' \<and>
    shs c r' (int_bits (Suc (length xs)) (bits_value xs + bits_value ys))"
proof -
  have b: "is_bits ys" using assms(4) by (simp add: bit_sharing_def)
  show ?thesis
    using runs_returns [OF runs_add_bit [OF assms(1,3-6)] assms(2)]
      runs_returns [OF runs_add_bit_plain [OF assms(1,3) b assms(5,6)] assms(2)] by blast
qed

theorem add_bit_adds_witness:
  "\<exists>r t r' t'. add_bit demo (map demo_share [1, 1]) (map demo_share [1, 0]) demo_state = Inr (r, t) \<and> good demo t \<and>
    shs demo r [0, 0, 1] \<and> add_bit_plain demo (map demo_share [1, 1]) [1, 0] demo_state = Inr (r', t') \<and>
    good demo t' \<and> shs demo r' [0, 0, 1]"
  using add_bit_adds [of demo demo_state "map demo_share [1, 1]" "[1, 1]" "map demo_share [1, 0]" "[1, 0]"]
  by (simp add: bit_sharing_def int_bits_def upt_rec)

text \<open>For summands of a single bit the loop of the adder does not run and the carry is
  lost: the top bit of the result is zero whatever the summands are.\<close>
theorem add_bit_single_drops_carry:
  assumes "wf c" "good c s" "bit_sharing c [A] [x]" "bit_sharing c [B] [y]"
  shows "\<exists>r t. add_bit c [A] [B] s = Inr (r, t) \<and> good c t \<and> shs c r [(x + y) mod 2, 0]"
proof -
  have b: "sh c A x" "sh c B y" "xor_val x y = (x + y) mod 2"
    using assms(3,4) by (auto simp: bit_sharing_def xor_val_def)
  show ?thesis
    using runs_returns [OF runs_add_bit_single [OF assms(1) b(1,2)] assms(2)] unfolding b(3) .
qed

theorem add_bit_single_drops_carry_witness:
  "\<exists>r t. add_bit demo [demo_share 1] [demo_share 1] demo_state = Inr (r, t) \<and> good demo t \<and> shs demo r [0, 0]"
  using add_bit_single_drops_carry [of demo demo_state "demo_share 1" 1 "demo_share 1" 1]
  by (simp add: bit_sharing_def)

section \<open>Conversions\<close>

text \<open>Decomposing a number into bits and recombining them gives the number back, up to
  the number of bits and the prime: for public bits, and for shared ones.\<close>
theorem decompose_recombine:
  assumes "wf c" "good c s" "0 < k" "shs c S (int_bits k x)"
  shows "decompose c x k s = Inr (int_bits k x, s) \<and>
    B2A_clear c (int_bits k x) k s = Inr ((x mod 2 ^ k) mod pr c, s) \<and>
    (\<exists>r t. B2A c S k s = Inr (r, t) \<and> good c t \<and> sh c r (x mod 2 ^ k))"
proof -
  have "k \<le> length (int_bits k x)" by simp
  from runs_returns [OF runs_B2A [OF assms(1,4,3) this] assms(2)]
  have "\<exists>r t. B2A c S k s = Inr (r, t) \<and> good c t \<and> sh c r (x mod 2 ^ k)" by (simp add: bits_value_int_bits)
  moreover have "decompose c x k s = Inr (int_bits k x, s)"
    unfolding decompose_value [OF assms(1,3)] by (simp add: ret_def)
  moreover have "B2A_clear c (int_bits k x) k s = Inr ((x mod 2 ^ k) mod pr c, s)"
    unfolding B2A_clear_value [OF assms(1) is_bits_int_bits assms(3) \<open>k \<le> length (int_bits k x)\<close>]
    by (simp add: ret_def bits_value_int_bits)
  ultimately show ?thesis by simp
qed

theorem decompose_recombine_witness:
  "decompose demo 11 3 demo_state = Inr ([1, 1, 0], demo_state) \<and>
    B2A_clear demo [1, 1, 0] 3 demo_state = Inr (3, demo_state) \<and>
    (\<exists>r t. B2A demo (map demo_share [1, 1, 0]) 3 demo_state = Inr (r, t) \<and> good demo t \<and> sh demo r 3)"
proof -
  have "int_bits 3 11 = [1, 1, 0]" by (simp add: int_bits_def upt_rec numeral_3_eq_3)
  then show ?thesis using decompose_recombine [of demo demo_state 3 "map demo_share [1, 1, 0]" 11] by simp
qed

text \<open>\<open>pre_rand\<close> returns a sharing of a number below the prime with sharings of its
  bits, or uses up the bound on its attempts; a result does not depend on the bound, and the
  first attempt is enough when the bits it takes from the buffer are below the prime.\<close>
theorem pre_rand_total:
  assumes "wf c" "good c s" "pr c < 2 ^ PSIZE"
  shows "pre_rand c fuel s = Inl Out_of_fuel \<or>
    (\<exists>r t. pre_rand c fuel s = Inr (r, t) \<and> good c t \<and> rand_ok c r \<and>
      (\<forall>k. pre_rand c (fuel + k) s = Inr (r, t)))"
proof -
  have k: "keeps (good c) (pre_rand c fuel) (rand_ok c) (\<lambda>e. e = Out_of_fuel)"
    by (rule runs_pre_rand [OF assms(1,3)]) simp
  show ?thesis
  proof (cases "pre_rand c fuel s")
    case (Inl e)
    then show ?thesis using k assms(2) by (auto simp: keeps_def dest: spec [of _ s])
  next
    case (Inr r)
    moreover have "pre_rand c (fuel + k) s = Inr r" for k
      using Inr pre_rand_loop_more_fuel [of c fuel _ s r k] assms(1) by (simp add: pre_rand_def PSIZE_pos)
    ultimately show ?thesis using k assms(2) by (cases r) (auto simp: keeps_def dest: spec [of _ s])
  qed
qed

theorem pre_rand_total_witness:
  "pre_rand demo 2 demo_state = Inl Out_of_fuel \<or>
    (\<exists>r t. pre_rand demo 2 demo_state = Inr (r, t) \<and> good demo t \<and> rand_ok demo r \<and>
      (\<forall>k. pre_rand demo (2 + k) demo_state = Inr (r, t)))"
  by (rule pre_rand_total) (simp_all add: PSIZE_def)

text \<open>Arithmetic to binary returns sharings of the 381 bits of the canonical value,
  also when the masked difference wraps around the prime; the only failure is a bound on the
  attempts of \<open>pre_rand\<close> that is too small.\<close>
theorem A2B_bits:
  assumes "wf c" "good c s" "pr c < 2 ^ PSIZE" "sh c S x"
  shows "A2B c fuel S s = Inl Out_of_fuel \<or>
    (\<exists>r t. A2B c fuel S s = Inr (r, t) \<and> good c t \<and> shs c r (int_bits PSIZE (x mod pr c)))"
proof -
  have k: "keeps (good c) (A2B c fuel S) (\<lambda>r. shs c r (int_bits PSIZE (x mod pr c))) (\<lambda>e. e = Out_of_fuel)"
    by (rule runs_A2B [OF assms(1,3,4)]) simp
  show ?thesis
    using k assms(2) by (cases "A2B c fuel S s") (auto simp: keeps_def dest: spec [of _ s])
qed

theorem A2B_bits_witness:
  "A2B demo 1 (demo_share 5) demo_state = Inl Out_of_fuel \<or>
    (\<exists>r t. A2B demo 1 (demo_share 5) demo_state = Inr (r, t) \<and> good demo t \<and> shs demo r (int_bits PSIZE 5))"
  using A2B_bits [of demo demo_state "demo_share 5" 5 1] by (simp add: PSIZE_def)

text \<open>A buffer of zero bits, from which \<open>pre_rand\<close> takes the number zero.\<close>

definition demo_zero_bits :: mpc where
  "demo_zero_bits = demo_state\<lparr>bits := replicate PSIZE (demo_share 0)\<rparr>"

lemma demo_zero_bits:
  "good demo demo_zero_bits" "bits demo_zero_bits = [] @ rev (replicate PSIZE (demo_share 0))"
  "bit_sharing demo (replicate PSIZE (demo_share 0)) (replicate PSIZE 0)" "bits_value (replicate n 0) = 0"
proof -
  show "bits_value (replicate n 0) = 0" by (induction n) auto
  have "prep_inv demo demo_zero_bits"
    using demo_good by (auto simp: good_def prep_inv_def demo_zero_bits_def bit_ok_def)
  then show "good demo demo_zero_bits"
    using demo_good by (simp add: good_def demo_zero_bits_def)
qed (simp_all add: demo_zero_bits_def bit_sharing_def is_bits_def list_all2_conv_all_nth)

text \<open>C29: with random bits below the prime in the buffer, \<open>A2B\<close> returns for every
  positive bound, and \<open>B2A\<close> turns its bits into a sharing of the original value.\<close>
theorem A2B_B2A_roundtrip:
  assumes "wf c" "pr c < 2 ^ PSIZE" "sh c S x" "good c s" "bits s = front @ rev B"
    and "bit_sharing c B xs" "length xs = PSIZE" "bits_value xs < pr c"
  shows "\<exists>r t v u. A2B c (Suc fuel) S s = Inr (r, t) \<and> shs c r (int_bits PSIZE (x mod pr c)) \<and>
    B2A c r PSIZE t = Inr (v, u) \<and> good c u \<and> sh c v x"
proof -
  obtain r t where t: "A2B c (Suc fuel) S s = Inr (r, t)" "good c t" "shs c r (int_bits PSIZE (x mod pr c))"
    using A2B_returns [OF assms] by blast
  have "PSIZE \<le> length (int_bits PSIZE (x mod pr c))" by simp
  from runs_returns [OF runs_B2A [OF assms(1) t(3) PSIZE_pos(1) this] t(2)]
  obtain v u where "B2A c r PSIZE t = Inr (v, u)" "good c u" "sh c v (x mod pr c mod 2 ^ PSIZE)"
    by (auto simp: bits_value_int_bits)
  moreover have "x mod pr c mod 2 ^ PSIZE = x mod pr c"
    using pos_mod_bound [of "pr c" x] pos_mod_sign [of "pr c" x] wf_pr [OF assms(1)] assms(2) by (intro mod_pos_pos_trivial) linarith+
  ultimately show ?thesis using t(1,3) sh_cong [of c v "x mod pr c" x] by auto
qed

theorem A2B_B2A_roundtrip_witness:
  "\<exists>r t v u. A2B demo (Suc 0) (demo_share 5) demo_zero_bits = Inr (r, t) \<and> shs demo r (int_bits PSIZE 5) \<and>
    B2A demo r PSIZE t = Inr (v, u) \<and> good demo u \<and> sh demo v 5"
  using A2B_B2A_roundtrip [OF demo_wf _ sh_demo_share [of 5] demo_zero_bits(1-3), of 0]
  by (simp add: demo_zero_bits(4)) (simp add: PSIZE_def)

end
