(* ===== verification/Prf.thy ===== *)
theory Prf
  imports Convert
begin

text \<open>
  The universal hash function and the Legendre pseudo-random function of \<open>OnlineOp\<close>
  (\<open>POC/OnlineOp.hpp\<close>): \<open>uhf\<close>, \<open>legendre\<close>, \<open>legendre_prf\<close>. The Legendre symbol itself is
  GMP's \<open>mpz_legendre\<close>, a parameter with its documented meaning.
\<close>

section \<open>The universal hash function\<close>

text \<open>
  The code reads \<open>in[size - 1]\<close> and \<open>in[size - 2]\<close> with unsigned indices, which for a size
  below two are out of the vector.
\<close>

definition uhf :: "ctx \<Rightarrow> jshare \<Rightarrow> int list \<Rightarrow> nat \<Rightarrow> (mpc, jshare) m" where
  "uhf c key ins n =
     bnd (check (\<not> length ins \<noteq> n) Invalid_length) (\<lambda>_.
     bnd (check (2 \<le> n) Out_of_range) (\<lambda>_.
     let out = mul_plain c key (ins ! (n - 1));
         out = add_plain_inplace c out (ins ! (n - 2))
     in foldM (\<lambda>i out. bnd (mul_inplace c out key) (\<lambda>out. ret (add_plain_inplace c out (ins ! i))))
          (rev [0..<n - 2]) out))"

lemma runs_uhf_loop:
  assumes c: "wf c" and K: "sh c K k" and ins: "plain_v c ins" "n \<le> length ins"
  shows "sh c out v \<Longrightarrow>
    keeps (good c) (foldM (\<lambda>i out. bnd (mul_inplace c out K) (\<lambda>out. ret (add_plain_inplace c out (ins ! i)))) (rev [0..<n]) out)
      (\<lambda>r. sh c r (v * k ^ n + (\<Sum>i<n. ins ! i * k ^ i))) E"
  using ins(2)
proof (induction n arbitrary: out v)
  case 0
  then show ?case by (simp add: keeps_ret)
next
  case (Suc n)
  have f: "in_field (pr c) (ins ! n)" using Suc.prems(2) ins(1) by (simp add: plain_v_nth)
  have "keeps (good c) (foldM (\<lambda>i out. bnd (mul_inplace c out K) (\<lambda>out. ret (add_plain_inplace c out (ins ! i)))) (rev [0..<n]) (add_plain_inplace c o' (ins ! n)))
      (\<lambda>r. sh c r ((v * k + ins ! n) * k ^ n + (\<Sum>i<n. ins ! i * k ^ i))) E" if "sh c o' (v * k)" for o'
    by (rule Suc.IH) (use that c f Suc.prems(2) in \<open>auto intro: sh_local_plain\<close>)
  moreover have "(v * k + ins ! n) * k ^ n + (\<Sum>i<n. ins ! i * k ^ i) = v * k ^ Suc n + (\<Sum>i<Suc n. ins ! i * k ^ i)"
    by (simp add: algebra_simps)
  ultimately show ?case
    by (auto simp: bnd_assoc intro!: keeps_bnd [OF runs_mul_inplace [OF c Suc.prems(1) K]])
qed

lemma runs_uhf [prog]:
  assumes c: "wf c" and K: "sh c K k" and ins: "plain_v c ins" "length ins = n" "2 \<le> n"
  shows "keeps (good c) (uhf c K ins n) (\<lambda>r. sh c r (\<Sum>i<n. ins ! i * k ^ i)) E"
proof -
  obtain m where m: "n = Suc (Suc m)" using ins(3) by (metis Suc_le_D numeral_2_eq_2 Suc_le_mono)
  have f: "in_field (pr c) (ins ! m)" using m ins by (simp add: plain_v_nth)
  have "sh c (add_plain_inplace c (mul_plain c K (ins ! Suc m)) (ins ! m)) (k * ins ! Suc m + ins ! m)"
    using c K f by (intro sh_local_plain)
  then have "keeps (good c) (foldM (\<lambda>i out. bnd (mul_inplace c out K) (\<lambda>out. ret (add_plain_inplace c out (ins ! i)))) (rev [0..<m])
      (add_plain_inplace c (mul_plain c K (ins ! Suc m)) (ins ! m)))
      (\<lambda>r. sh c r ((k * ins ! Suc m + ins ! m) * k ^ m + (\<Sum>i<m. ins ! i * k ^ i))) E"
    using m ins by (intro runs_uhf_loop [OF c K]) auto
  moreover have "(k * ins ! Suc m + ins ! m) * k ^ m + (\<Sum>i<m. ins ! i * k ^ i) = (\<Sum>i<n. ins ! i * k ^ i)"
    by (simp add: m algebra_simps)
  ultimately show ?thesis using ins m by (simp add: uhf_def Let_def)
qed

section \<open>The Legendre symbol of a shared value\<close>

definition legendre :: "ctx \<Rightarrow> jshare \<Rightarrow> (mpc, int) m" where
  "legendre c x =
     bnd (get_square c) (\<lambda>(s0, s1).
     bnd (mul_inplace c s1 x) (\<lambda>s1.
     bnd (reveal_v c [s1]) (\<lambda>cc.
     bnd (at cc 0) (\<lambda>bn. ret (legendre_sym c bn (pr c))))))"

text \<open>\<open>ceil(double(res + 1) / 2)\<close>.\<close>

definition ceil_half :: "int \<Rightarrow> int" where
  "ceil_half x = - ((- x) div 2)"

definition legendre_prf :: "ctx \<Rightarrow> jshare \<Rightarrow> jshare \<Rightarrow> (mpc, int) m" where
  "legendre_prf c key x =
     (let tmp = add c key x in
      bnd (legendre c tmp) (\<lambda>res. ret (ceil_half (res + 1))))"

text \<open>What GMP documents of \<open>mpz_legendre\<close> for a prime modulus.\<close>

definition is_square_mod :: "int \<Rightarrow> int \<Rightarrow> bool" where
  "is_square_mod a p \<longleftrightarrow> (\<exists>y. (y * y) mod p = a mod p)"

definition legendre_spec :: "ctx \<Rightarrow> bool" where
  "legendre_spec c \<longleftrightarrow>
     (\<forall>a. legendre_sym c a (pr c) =
        (if a mod pr c = 0 then 0 else if is_square_mod a (pr c) then 1 else - 1))"

lemma legendre_sym_mod: "legendre_spec c \<Longrightarrow> legendre_sym c (a mod pr c) (pr c) = legendre_sym c a (pr c)"
  by (simp add: legendre_spec_def is_square_mod_def)

lemma is_square_times:
  assumes c: "wf_prime c" and u: "u mod pr c \<noteq> 0"
  shows "is_square_mod (u * u * x) (pr c) \<longleftrightarrow> is_square_mod x (pr c)"
proof -
  let ?p = "pr c"
  have p: "1 < ?p" using c by (simp add: wf_prime_def prime_int_def)
  define w where "w = gf_inv (gcdext c) ?p (u mod ?p)"
  have "(w * (u mod ?p)) mod ?p = 1 mod ?p"
    unfolding w_def using u p by (intro prime_inverse [OF c]) auto
  then have w: "(w * u) mod ?p = 1 mod ?p" by (simp add: mod_mult_right_eq)
  have ww: "(w * u * (w * u)) mod ?p = 1 mod ?p"
    using mod_mult_cong [OF w w] by simp
  show ?thesis
  proof
    assume "is_square_mod (u * u * x) ?p"
    then obtain y where y: "(y * y) mod ?p = (u * u * x) mod ?p" by (auto simp: is_square_mod_def)
    have "((w * y) * (w * y)) mod ?p = (w * w * (y * y)) mod ?p" by (simp add: mult_ac)
    also have "\<dots> = (w * w * (u * u * x)) mod ?p" using y by (rule mod_mult_cong [OF refl])
    also have "\<dots> = (w * u * (w * u) * x) mod ?p" by (simp add: mult_ac)
    also have "\<dots> = (1 * x) mod ?p" using ww by (rule mod_mult_cong) simp
    finally show "is_square_mod x ?p" unfolding is_square_mod_def by (intro exI [of _ "w * y"]) simp
  next
    assume "is_square_mod x ?p"
    then obtain y where y: "(y * y) mod ?p = x mod ?p" by (auto simp: is_square_mod_def)
    have "((u * y) * (u * y)) mod ?p = (u * u * (y * y)) mod ?p" by (simp add: mult_ac)
    also have "\<dots> = (u * u * x) mod ?p" using y by (rule mod_mult_cong [OF refl])
    finally show "is_square_mod (u * u * x) ?p" unfolding is_square_mod_def by blast
  qed
qed

lemma legendre_masked:
  assumes "wf_prime c" "legendre_spec c" "u mod pr c \<noteq> 0"
  shows "legendre_sym c (u * u * x) (pr c) = legendre_sym c x (pr c)"
proof -
  have z: "(u * u * x) mod pr c = 0 \<longleftrightarrow> x mod pr c = 0"
    using assms(1,3) prime_int_mult [of "pr c" "u * u" x] prime_int_mult [of "pr c" u u]
      mod_mult_right_eq [of "u * u" x "pr c"] by (auto simp: wf_prime_def)
  show ?thesis using assms(2) is_square_times [OF assms(1,3)] by (simp add: legendre_spec_def z)
qed

text \<open>
  The revealed value is \<open>u^2 x\<close> for the random \<open>u\<close> of the square pair. When \<open>u\<close> happens to
  be zero, which the code does not exclude, the result is 0 whatever \<open>x\<close> is; under
  \<open>masks_nonzero\<close> this does not happen.
\<close>

lemma runs_legendre [prog]:
  assumes c: "wf c" "wf_prime c" "legendre_spec c" and S: "sh c S x"
  shows "keeps (good c) (legendre c S) (\<lambda>r. r = legendre_sym c x (pr c) \<or> \<not> masks_nonzero c \<and> r = 0) E"
  unfolding legendre_def
proof (rule keeps_bnd [OF runs_get_square [OF c(1)]])
  fix q assume "square_ok c q"
  then obtain s0 s1 u where q: "q = (s0, s1)" "sh c s1 (u * u)" "masks_nonzero c \<longrightarrow> u mod pr c \<noteq> 0"
    by (cases q) (auto simp: square_ok_def nonzero_def)
  have m: "keeps (good c) (mul_inplace c s1 S) (\<lambda>r. sh c r (u * u * x)) E"
    by (rule runs_mul_inplace [OF c(1) q(2) S])
  have r: "keeps (good c) (reveal_v c [cc]) (\<lambda>r. r = [(u * u * x) mod pr c]) E" if "sh c cc (u * u * x)" for cc
    using runs_reveal_v [OF c(1), of "[cc]" "[u * u * x]"] that by simp
  have l: "legendre_sym c ((u * u * x) mod pr c) (pr c) = legendre_sym c x (pr c) \<or>
      \<not> masks_nonzero c \<and> legendre_sym c ((u * u * x) mod pr c) (pr c) = 0"
  proof (cases "u mod pr c = 0")
    case True
    then have "(u * u * x) mod pr c = 0" by (metis mod_mult_left_eq mult_zero_left mod_0 mult.assoc)
    then show ?thesis using c(3) True q(3) by (auto simp: legendre_spec_def)
  next
    case False
    then show ?thesis using legendre_masked [OF c(2,3) False] legendre_sym_mod [OF c(3)] by simp
  qed
  show "keeps (good c) (case q of (s0, s1) \<Rightarrow>
     bnd (mul_inplace c s1 S) (\<lambda>s1. bnd (reveal_v c [s1]) (\<lambda>cc.
     bnd (at cc 0) (\<lambda>bn. ret (legendre_sym c bn (pr c)))))) (\<lambda>r. r = legendre_sym c x (pr c) \<or> \<not> masks_nonzero c \<and> r = 0) E"
    using l by (auto simp: q intro!: keeps_bnd [OF m] keeps_bnd [OF r] keeps_ret)
qed

definition prf_bit :: "ctx \<Rightarrow> int \<Rightarrow> int" where
  "prf_bit c x = (if legendre_sym c x (pr c) = - 1 then 0 else 1)"

lemma ceil_half_values [simp]: "ceil_half 0 = 0" "ceil_half 1 = 1" "ceil_half 2 = 1"
  by (simp_all add: ceil_half_def)

lemma runs_legendre_prf [prog]:
  assumes c: "wf c" "wf_prime c" "legendre_spec c" and S: "sh c K k" "sh c S x"
  shows "keeps (good c) (legendre_prf c K S) (\<lambda>r. r = prf_bit c (k + x) \<or> \<not> masks_nonzero c \<and> r = 1) E"
proof -
  have v: "legendre_sym c (k + x) (pr c) \<in> {0, 1, - 1}" using c(3) by (simp add: legendre_spec_def)
  have s: "sh c (add c K S) (k + x)" using S by (rule sh_local)
  show ?thesis
    unfolding legendre_prf_def Let_def
    by (rule keeps_bnd [OF runs_legendre [OF c s]], rule keeps_ret) (use v in \<open>auto simp: prf_bit_def\<close>)
qed

end
