(* ===== verification/Poc.thy ===== *)
theory Poc
  imports Prf
begin

text \<open>
  The proof-of-custody computations: class \<open>POC\<close> of \<open>POC/poc.h\<close> and \<open>POC/poc.hpp\<close>,
  except the two operations that only call BLS. The arguments \<open>online_num\<close>, \<open>P\<close> and \<open>CI\<close>,
  which the bodies do not use, are left out. The version with two primes runs its second
  phase over another field: its operations take the context of that field.
\<close>

definition CHUNK_NUM :: nat where
  "CHUNK_NUM = 256 * 1024 div 32"

section \<open>The custody bit\<close>

definition poc_compute_custody_bit_offline :: "ctx \<Rightarrow> jshare list \<Rightarrow> jshare list \<Rightarrow> (mpc, jshare list) m" where
  "poc_compute_custody_bit_offline c pre_key keys =
     bnd (check (\<not> length keys \<noteq> 2) Invalid_length) (\<lambda>_.
     let pre_key = resize (j_zero c) CHUNK_NUM pre_key in
     bnd (sqr c (keys ! 0)) (\<lambda>s0_square.
     bnd (sqr c (keys ! 1)) (\<lambda>s1_square.
     let pre_key = pre_key[0 := keys ! 1];
         pre_key = pre_key[1 := s0_square]
     in foldM (\<lambda>i pre_key.
          if i mod 2 = 0
          then bnd (mul c (pre_key ! (i - 2)) s1_square) (\<lambda>v. ret (pre_key[i := v]))
          else bnd (mul c (pre_key ! (i - 2)) s0_square) (\<lambda>v. ret (pre_key[i := v])))
        [2..<CHUNK_NUM] pre_key)))"

text \<open>The hash of a message under the precomputed powers, common to both versions.\<close>

definition uhf_online :: "ctx \<Rightarrow> jshare list \<Rightarrow> int list \<Rightarrow> (mpc, jshare) m" where
  "uhf_online c pre_key msg =
     bnd (at pre_key 0) (\<lambda>k0.
     let uhf_out = mul_plain c k0 (msg ! 1);
         uhf_out = add_plain_inplace c uhf_out (msg ! 0)
     in bnd (foldM (\<lambda>i uhf_out. bnd (at pre_key (i - 1)) (\<lambda>k.
            let tmp = mul_plain c k (msg ! i) in ret (add_inplace c uhf_out tmp)))
          [2..<length msg] uhf_out) (\<lambda>uhf_out.
        ret (add_inplace c uhf_out (last pre_key))))"

definition poc_compute_custody_bit_online :: "ctx \<Rightarrow> jshare list \<Rightarrow> int list \<Rightarrow> (mpc, int) m" where
  "poc_compute_custody_bit_online c pre_key msg =
     bnd (check (\<not> length msg \<noteq> CHUNK_NUM) Invalid_length) (\<lambda>_.
     bnd (uhf_online c pre_key msg) (\<lambda>uhf_out.
     legendre_prf c (pre_key ! 0) uhf_out))"

definition poc_compute_custody_bit :: "ctx \<Rightarrow> jshare list \<Rightarrow> int list \<Rightarrow> (mpc, int) m" where
  "poc_compute_custody_bit c keys msg =
     bnd (check (\<not> length keys \<noteq> 2) Invalid_length) (\<lambda>_.
     bnd (uhf c (keys ! 0) msg CHUNK_NUM) (\<lambda>uhf_out.
     legendre_prf c (keys ! 1) uhf_out))"

section \<open>The version with two primes\<close>

definition poc_compute_custody_bit_offline_2primes :: "ctx \<Rightarrow> jshare list \<Rightarrow> jshare list \<Rightarrow> (mpc, jshare list) m" where
  "poc_compute_custody_bit_offline_2primes c pre_key keys =
     bnd (check (\<not> length keys \<noteq> 3) Bad_value) (\<lambda>_.
     let pre_key = resize (j_zero c) CHUNK_NUM pre_key in
     bnd (sqr c (keys ! 0)) (\<lambda>s0_cube.
     bnd (mul_inplace c s0_cube (keys ! 0)) (\<lambda>s0_cube.
     bnd (sqr c (keys ! 1)) (\<lambda>s1_cube.
     bnd (mul_inplace c s1_cube (keys ! 1)) (\<lambda>s1_cube.
     bnd (sqr c (keys ! 2)) (\<lambda>s2_cube.
     let pre_key = pre_key[1 := s2_cube] in
     bnd (mul_inplace c s2_cube (keys ! 2)) (\<lambda>s2_cube.
     let pre_key = pre_key[0 := keys ! 1];
         pre_key = pre_key[2 := s0_cube]
     in foldM (\<lambda>i pre_key.
          if i mod 3 = 0
          then bnd (mul c (pre_key ! (i - 3)) s1_cube) (\<lambda>v. ret (pre_key[i := v]))
          else if i mod 3 = 1
          then bnd (mul c (pre_key ! (i - 3)) s2_cube) (\<lambda>v. ret (pre_key[i := v]))
          else if i mod 3 = 2
          then bnd (mul c (pre_key ! (i - 3)) s0_cube) (\<lambda>v. ret (pre_key[i := v]))
          else ret pre_key)
        [3..<CHUNK_NUM] pre_key)))))))"

definition poc_compute_custody_bit_online_2primes :: "ctx \<Rightarrow> jshare list \<Rightarrow> jshare \<Rightarrow> int list \<Rightarrow> (mpc, int) m" where
  "poc_compute_custody_bit_online_2primes c pre_key key msg =
     bnd (check (\<not> length msg \<noteq> CHUNK_NUM) Bad_value) (\<lambda>_.
     bnd (uhf_online c pre_key msg) (\<lambda>uhf_out.
     foldM (\<lambda>i res.
       let count = to_gfp (pr c) (int i);
           x = add_plain c uhf_out count
       in bnd (legendre_prf c key x) (\<lambda>b. ret (Bit_Operations.or res b)))
     [0..<10] 0))"

text \<open>
  The bits of the players' random bytes; \<open>rnd\<close> is what the player's generator returned.
\<close>

definition local_bits_of :: "int list \<Rightarrow> (mpc, int list) m" where
  "local_bits_of rnd =
     mapM (\<lambda>i. bnd (at rnd (i div 8)) (\<lambda>b. ret (Bit_Operations.and (drop_bit (i mod 8) b) 1))) [0..<2 * PSIZE]"

text \<open>
  One shared bit: every player inputs its own bit, and the parity of all is shared.
  \<open>local_bits ! i\<close> are those of player \<open>i\<close>.
\<close>

definition shared_rand_bit :: "ctx \<Rightarrow> int list list \<Rightarrow> nat \<Rightarrow> (mpc, jshare) m" where
  "shared_rand_bit c local_bits j =
     bnd (mapM (\<lambda>lb. at lb j) local_bits) (\<lambda>bs.
     bnd (mapM (\<lambda>i. get_inputs c i (map (to_gfp (pr c)) bs)) [0..<num_players c]) (\<lambda>sbit.
     KXOR c sbit (length sbit)))"

definition shared_rand_bits_phase_one :: "ctx \<Rightarrow> int list list \<Rightarrow> (mpc, jshare list \<times> int list list) m" where
  "shared_rand_bits_phase_one c rnds =
     bnd (mapM local_bits_of rnds) (\<lambda>local_bits.
     bnd (mapM (shared_rand_bit c local_bits) [0..<2 * PSIZE]) (\<lambda>shared_bits.
     ret (shared_bits, local_bits)))"

definition shared_rand_bits_phase_two :: "ctx \<Rightarrow> int list list \<Rightarrow> (mpc, jshare list) m" where
  "shared_rand_bits_phase_two c local_bits = mapM (shared_rand_bit c local_bits) [0..<2 * PSIZE]"

definition decompose_and_reveal :: "ctx \<Rightarrow> nat \<Rightarrow> jshare list \<Rightarrow> jshare list \<Rightarrow> (mpc, int list) m" where
  "decompose_and_reveal c fuel keys shared_bits =
     bnd (check (\<not> (length keys \<noteq> 2 \<or> length shared_bits \<noteq> 2 * PSIZE)) Invalid_length) (\<lambda>_.
     bnd (A2B c fuel (keys ! 0)) (\<lambda>deco_bits.
     bnd (A2B c fuel (keys ! 1)) (\<lambda>tmp.
     let deco_bits = deco_bits @ tmp in
     bnd (mapM (\<lambda>i. bnd (at deco_bits i) (\<lambda>d. XOR_inplace c d (shared_bits ! i))) [0..<length shared_bits])
       (\<lambda>front. let deco_bits = front @ drop (length shared_bits) deco_bits in
     bnd (reveal_v c deco_bits) (\<lambda>out.
     mapM (\<lambda>i. at out i) [0..<2 * PSIZE])))))"

definition xor_and_combine :: "ctx \<Rightarrow> jshare list \<Rightarrow> int list \<Rightarrow> (mpc, jshare list) m" where
  "xor_and_combine c shared_bits reveal_bits =
     bnd (check (\<not> (length shared_bits \<noteq> 3 * QSIZE \<or> length reveal_bits \<noteq> 3 * QSIZE)) Invalid_length) (\<lambda>_.
     let tmp = map (\<lambda>i. XOR_plain c (shared_bits ! i) (to_gfp (pr c) (reveal_bits ! i))) [0..<length shared_bits]
     in mapM (\<lambda>i. B2A c (take QSIZE (drop (i * QSIZE) tmp)) QSIZE) [0..<3])"

section \<open>Powers of the keys\<close>

text \<open>What entry \<open>i\<close> of \<open>pre_key\<close> shares: the keys take turns, and the exponent grows by one.\<close>

definition key_power :: "int list \<Rightarrow> nat \<Rightarrow> int" where
  "key_power ks i = ks ! (Suc i mod length ks) ^ Suc i"

definition pre_key_ok :: "ctx \<Rightarrow> int list \<Rightarrow> jshare list \<Rightarrow> bool" where
  "pre_key_ok c ks pre_key \<longleftrightarrow> shs c pre_key (map (key_power ks) [0..<CHUNK_NUM])"

text \<open>The vector is filled up to an index.\<close>

definition filled :: "ctx \<Rightarrow> int list \<Rightarrow> nat \<Rightarrow> jshare list \<Rightarrow> bool" where
  "filled c ks i pre_key \<longleftrightarrow>
     length pre_key = CHUNK_NUM \<and> (\<forall>j < i. sh c (pre_key ! j) (key_power ks j))"

lemma filled_update:
  "filled c ks i pre_key \<Longrightarrow> i < CHUNK_NUM \<Longrightarrow> sh c v (key_power ks i) \<Longrightarrow> filled c ks (Suc i) (pre_key[i := v])"
  by (auto simp: filled_def less_Suc_eq nth_list_update)

lemma filled_all: "filled c ks CHUNK_NUM pre_key \<Longrightarrow> pre_key_ok c ks pre_key"
  by (simp add: filled_def pre_key_ok_def list_all2_conv_all_nth)

lemma key_power_step:
  assumes "length ks = n" "n \<le> i" "0 < n"
  shows "key_power ks (i - n) * ks ! (Suc i mod n) ^ n = key_power ks i"
proof -
  have "Suc i = Suc (i - n) + n" using assms by simp
  then have "Suc (i - n) mod n = Suc i mod n" by (metis mod_add_self2)
  then show ?thesis
    using assms \<open>Suc i = Suc (i - n) + n\<close> unfolding key_power_def by (metis power_add)
qed

lemma fill_step:
  assumes c: "wf c" and f: "filled c ks i pre_key" and i: "n \<le> i" "i < CHUNK_NUM"
    and n: "length ks = n" "0 < n" and s: "sh c s (ks ! (Suc i mod n) ^ n)"
  shows "keeps (good c) (bnd (mul c (pre_key ! (i - n)) s) (\<lambda>v. ret (pre_key[i := v]))) (filled c ks (Suc i)) E"
proof -
  have p: "sh c (pre_key ! (i - n)) (key_power ks (i - n))" using f i n by (simp add: filled_def)
  show ?thesis
    by (rule keeps_bnd [OF runs_mul [OF c p s]], rule keeps_ret)
      (use filled_update [OF f i(2)] key_power_step [OF n(1) i(1) n(2)] in simp)
qed

lemma CHUNK_NUM_pos: "3 \<le> CHUNK_NUM" "2 \<le> CHUNK_NUM"
  by (simp_all add: CHUNK_NUM_def)

lemma runs_custody_offline [prog]:
  assumes c: "wf c" and K: "shs c keys ks" "length ks = 2"
  shows "keeps (good c) (poc_compute_custody_bit_offline c pre keys) (pre_key_ok c ks) E"
proof -
  have k: "sh c (keys ! 0) (ks ! 0)" "sh c (keys ! 1) (ks ! 1)" "length keys = 2"
    using K shs_length [OF K(1)] by (simp_all add: list_all2_conv_all_nth)
  have start: "filled c ks 2 ((resize (j_zero c) CHUNK_NUM pre)[0 := keys ! 1, 1 := s0])"
    if "sh c s0 (ks ! 0 * ks ! 0)" for s0
    using that k K(2) CHUNK_NUM_pos
    by (auto simp: filled_def key_power_def nth_list_update less_Suc_eq numeral_2_eq_2)
  have body: "keeps (good c) (if i mod 2 = 0
          then bnd (mul c (pre_key ! (i - 2)) s1) (\<lambda>v. ret (pre_key[i := v]))
          else bnd (mul c (pre_key ! (i - 2)) s0) (\<lambda>v. ret (pre_key[i := v]))) (filled c ks (Suc i)) E"
    if "sh c s0 (ks ! 0 * ks ! 0)" "sh c s1 (ks ! 1 * ks ! 1)" "2 \<le> i" "i < CHUNK_NUM" "filled c ks i pre_key"
    for s0 s1 i pre_key
  proof (cases "i mod 2 = 0")
    case True
    then have "Suc i mod 2 = 1" by presburger
    then have "sh c s1 (ks ! (Suc i mod 2) ^ 2)" using that by (simp add: power2_eq_square)
    then show ?thesis using True fill_step [OF c that(5,3,4) K(2)] by simp
  next
    case False
    then have "Suc i mod 2 = 0" by presburger
    then have "sh c s0 (ks ! (Suc i mod 2) ^ 2)" using that by (simp add: power2_eq_square)
    then show ?thesis using False fill_step [OF c that(5,3,4) K(2)] by simp
  qed
  have loop: "keeps (good c) (foldM (\<lambda>i pre_key. if i mod 2 = 0
          then bnd (mul c (pre_key ! (i - 2)) s1) (\<lambda>v. ret (pre_key[i := v]))
          else bnd (mul c (pre_key ! (i - 2)) s0) (\<lambda>v. ret (pre_key[i := v])))
        [2..<CHUNK_NUM] ((resize (j_zero c) CHUNK_NUM pre)[0 := keys ! 1, 1 := s0])) (pre_key_ok c ks) E"
    if s: "sh c s0 (ks ! 0 * ks ! 0)" "sh c s1 (ks ! 1 * ks ! 1)" for s0 s1
    by (rule runs_post [OF keeps_foldM_upt [where J = "filled c ks", OF _ CHUNK_NUM_pos(2) start [OF s(1)]] filled_all])
      (rule body [OF s])
  show ?thesis
    unfolding poc_compute_custody_bit_offline_def Let_def
    by (rule keeps_bnd [OF keeps_check], use k(3) in simp, rule keeps_bnd [OF runs_sqr [OF c k(1)]],
        rule keeps_bnd [OF runs_sqr [OF c k(2)]], rule loop)
qed

section \<open>The hash and the bit\<close>

text \<open>
  What the online phase hashes: coefficient \<open>i\<close> is multiplied by the \<open>i\<close>-th power of the
  key whose turn it is, and the power \<open>CHUNK_NUM\<close> is added.
\<close>

definition uhf_value :: "int list \<Rightarrow> int list \<Rightarrow> int" where
  "uhf_value ks msg =
     (\<Sum>i<CHUNK_NUM. msg ! i * ks ! (i mod length ks) ^ i) + ks ! (CHUNK_NUM mod length ks) ^ CHUNK_NUM"

lemma runs_uhf_online:
  assumes c: "wf c" and P: "pre_key_ok c ks pre_key" and m: "plain_v c msg" "length msg = CHUNK_NUM"
  shows "keeps (good c) (uhf_online c pre_key msg) (\<lambda>r. sh c r (uhf_value ks msg)) E"
proof -
  have C: "2 \<le> CHUNK_NUM" "0 < CHUNK_NUM" by (simp_all add: CHUNK_NUM_def)
  have len: "length pre_key = CHUNK_NUM" using shs_length [OF P [unfolded pre_key_ok_def]] by simp
  have k: "sh c (pre_key ! i) (key_power ks i)" if "i < CHUNK_NUM" for i
    using list_all2_nthD2 [OF P [unfolded pre_key_ok_def], of i] that by simp
  let ?t = "\<lambda>i. msg ! i * ks ! (i mod length ks) ^ i"
  have kp: "key_power ks (i - 1) * msg ! i = ?t i" if "0 < i" for i
    using that by (simp add: key_power_def mult.commute)
  have "in_field (pr c) (msg ! 0)" using m C by (simp add: plain_v_nth)
  then have "sh c (add_plain_inplace c (mul_plain c (pre_key ! 0) (msg ! 1)) (msg ! 0))
      (key_power ks 0 * msg ! 1 + msg ! 0)"
    using c k [of 0] C by (intro sh_local_plain) auto
  moreover have "key_power ks 0 * msg ! 1 + msg ! 0 = (\<Sum>i<2. ?t i)"
    using kp [of 1] by (simp add: numeral_2_eq_2)
  ultimately have s: "sh c (add_plain_inplace c (mul_plain c (pre_key ! 0) (msg ! 1)) (msg ! 0)) (\<Sum>i<2. ?t i)"
    by simp
  have step: "keeps (good c) (bnd (at pre_key (i - 1)) (\<lambda>k. ret (add_inplace c out (mul_plain c k (msg ! i)))))
      (\<lambda>r. sh c r (\<Sum>i<Suc i. ?t i)) E" if i: "2 \<le> i" "i < CHUNK_NUM" and o: "sh c out (\<Sum>i<i. ?t i)" for i out
  proof -
    have "sh c (pre_key ! (i - 1)) (key_power ks (i - 1))" using i by (intro k) simp
    then have "sh c (add_inplace c out (mul_plain c (pre_key ! (i - 1)) (msg ! i)))
        ((\<Sum>i<i. ?t i) + key_power ks (i - 1) * msg ! i)"
      using c o by (intro sh_local sh_local_plain)
    moreover have "key_power ks (i - 1) * msg ! i = ?t i" using i by (intro kp) simp
    ultimately have "sh c (add_inplace c out (mul_plain c (pre_key ! (i - 1)) (msg ! i))) (\<Sum>i<Suc i. ?t i)"
      by (simp only: sum.lessThan_Suc)
    then show ?thesis using i len by (auto intro!: keeps_ret)
  qed
  have loop: "keeps (good c) (foldM (\<lambda>i out. bnd (at pre_key (i - 1)) (\<lambda>k. ret (add_inplace c out (mul_plain c k (msg ! i)))))
      [2..<CHUNK_NUM] (add_plain_inplace c (mul_plain c (pre_key ! 0) (msg ! 1)) (msg ! 0)))
      (\<lambda>r. sh c r (\<Sum>i<CHUNK_NUM. ?t i)) E"
    by (rule keeps_foldM_upt [where J = "\<lambda>n r. sh c r (\<Sum>i<n. ?t i)"]) (use step C s in auto)
  have last: "sh c (add_inplace c out (last pre_key)) (uhf_value ks msg)" if "sh c out (\<Sum>i<CHUNK_NUM. ?t i)" for out
  proof -
    have "last pre_key = pre_key ! (CHUNK_NUM - 1)" using len C by (simp add: last_conv_nth flip: length_greater_0_conv)
    moreover have "key_power ks (CHUNK_NUM - 1) = ks ! (CHUNK_NUM mod length ks) ^ CHUNK_NUM"
      using C by (simp add: key_power_def)
    ultimately have "sh c (last pre_key) (ks ! (CHUNK_NUM mod length ks) ^ CHUNK_NUM)"
      using k [of "CHUNK_NUM - 1"] C by simp
    then show ?thesis unfolding uhf_value_def using that by (intro sh_local)
  qed
  have z: "at pre_key 0 = (ret (pre_key ! 0) :: (mpc, jshare) m)" using len C by simp
  show ?thesis
    unfolding uhf_online_def Let_def m(2) z bnd_ret
    by (rule keeps_bnd [OF loop], rule keeps_ret, rule last)
qed

lemma runs_custody_online [prog]:
  assumes c: "wf c" "wf_prime c" "legendre_spec c"
    and P: "pre_key_ok c ks pre_key" and m: "plain_v c msg" "length msg = CHUNK_NUM"
  shows "keeps (good c) (poc_compute_custody_bit_online c pre_key msg)
    (\<lambda>r. r = prf_bit c (ks ! (1 mod length ks) + uhf_value ks msg) \<or> \<not> masks_nonzero c \<and> r = 1) E"
proof -
  have C: "0 < CHUNK_NUM" by (simp add: CHUNK_NUM_def)
  have "sh c (pre_key ! 0) (ks ! (1 mod length ks))"
    using P C by (auto simp: pre_key_ok_def list_all2_conv_all_nth key_power_def)
  then have l: "keeps (good c) (legendre_prf c (pre_key ! 0) out)
      (\<lambda>r. r = prf_bit c (ks ! (1 mod length ks) + uhf_value ks msg) \<or> \<not> masks_nonzero c \<and> r = 1) E"
    if "sh c out (uhf_value ks msg)" for out
    using runs_legendre_prf [OF c _ that] by blast
  show ?thesis
    unfolding poc_compute_custody_bit_online_def
    by (rule keeps_bnd [OF keeps_check], use m(2) in simp, rule keeps_bnd [OF runs_uhf_online [OF c(1) P m]], rule l)
qed

lemma runs_custody_bit [prog]:
  assumes c: "wf c" "wf_prime c" "legendre_spec c"
    and K: "shs c keys ks" "length ks = 2" and m: "plain_v c msg" "length msg = CHUNK_NUM"
  shows "keeps (good c) (poc_compute_custody_bit c keys msg)
    (\<lambda>r. r = prf_bit c (ks ! 1 + (\<Sum>i<CHUNK_NUM. msg ! i * ks ! 0 ^ i)) \<or> \<not> masks_nonzero c \<and> r = 1) E"
proof -
  have k: "sh c (keys ! 0) (ks ! 0)" "sh c (keys ! 1) (ks ! 1)" "length keys = 2"
    using K shs_length [OF K(1)] by (simp_all add: list_all2_conv_all_nth)
  show ?thesis
    unfolding poc_compute_custody_bit_def
    by (rule keeps_bnd [OF keeps_check], use k(3) in simp,
        rule keeps_bnd [OF runs_uhf [OF c(1) k(1) m CHUNK_NUM_pos(2)]],
        rule runs_legendre_prf [OF c k(2)])
qed

section \<open>Two primes: the powers and the bit\<close>

lemma runs_custody_offline_2primes [prog]:
  assumes c: "wf c" and K: "shs c keys ks" "length ks = 3"
  shows "keeps (good c) (poc_compute_custody_bit_offline_2primes c pre keys) (pre_key_ok c ks) E"
proof -
  have k: "sh c (keys ! 0) (ks ! 0)" "sh c (keys ! 1) (ks ! 1)" "sh c (keys ! 2) (ks ! 2)" "length keys = 3"
    using K shs_length [OF K(1)] by (simp_all add: list_all2_conv_all_nth)
  have start: "filled c ks 3 ((resize (j_zero c) CHUNK_NUM pre)[1 := q2, 0 := keys ! 1, 2 := c0])"
    if s: "sh c q2 (ks ! 2 * ks ! 2)" "sh c c0 (ks ! 0 * ks ! 0 * ks ! 0)" for q2 c0
    unfolding filled_def
  proof (intro conjI allI impI)
    fix j :: nat assume "j < 3"
    then consider "j = 0" | "j = 1" | "j = 2" by linarith
    then show "sh c ((resize (j_zero c) CHUNK_NUM pre)[1 := q2, 0 := keys ! 1, 2 := c0] ! j) (key_power ks j)"
      by cases (use s k K(2) CHUNK_NUM_pos(1) in \<open>simp_all add: key_power_def power2_eq_square power3_eq_cube flip: numeral_2_eq_2\<close>)
  qed simp
  have body: "keeps (good c) (if i mod 3 = 0
          then bnd (mul c (pre_key ! (i - 3)) c1) (\<lambda>v. ret (pre_key[i := v]))
          else if i mod 3 = 1 then bnd (mul c (pre_key ! (i - 3)) c2) (\<lambda>v. ret (pre_key[i := v]))
          else if i mod 3 = 2 then bnd (mul c (pre_key ! (i - 3)) c0) (\<lambda>v. ret (pre_key[i := v]))
          else ret pre_key) (filled c ks (Suc i)) E"
    if s: "sh c c0 (ks ! 0 * ks ! 0 * ks ! 0)" "sh c c1 (ks ! 1 * ks ! 1 * ks ! 1)" "sh c c2 (ks ! 2 * ks ! 2 * ks ! 2)"
      and i: "3 \<le> i" "i < CHUNK_NUM" and f: "filled c ks i pre_key"
    for c0 c1 c2 i pre_key
  proof -
    have cube: "x * x * x = x ^ 3" for x :: int by (simp add: power3_eq_cube)
    have st: "sh c s (ks ! (Suc i mod 3) ^ 3) \<Longrightarrow>
        keeps (good c) (bnd (mul c (pre_key ! (i - 3)) s) (\<lambda>v. ret (pre_key[i := v]))) (filled c ks (Suc i)) E" for s
      by (rule fill_step [OF c f i K(2)]) simp_all
    have "i mod 3 < 3" by simp
    then consider "i mod 3 = 0" | "i mod 3 = 1" | "i mod 3 = 2" by linarith
    then show ?thesis by cases (use st s in \<open>simp_all add: cube mod_Suc flip: numeral_2_eq_2\<close>)
  qed
  have loop: "keeps (good c) (foldM (\<lambda>i pre_key. if i mod 3 = 0
          then bnd (mul c (pre_key ! (i - 3)) c1) (\<lambda>v. ret (pre_key[i := v]))
          else if i mod 3 = 1 then bnd (mul c (pre_key ! (i - 3)) c2) (\<lambda>v. ret (pre_key[i := v]))
          else if i mod 3 = 2 then bnd (mul c (pre_key ! (i - 3)) c0) (\<lambda>v. ret (pre_key[i := v]))
          else ret pre_key) [3..<CHUNK_NUM] ((resize (j_zero c) CHUNK_NUM pre)[1 := q2, 0 := keys ! 1, 2 := c0]))
      (pre_key_ok c ks) E"
    if s: "sh c c0 (ks ! 0 * ks ! 0 * ks ! 0)" "sh c c1 (ks ! 1 * ks ! 1 * ks ! 1)" "sh c q2 (ks ! 2 * ks ! 2)"
      "sh c c2 (ks ! 2 * ks ! 2 * ks ! 2)" for c0 c1 q2 c2
    by (rule runs_post [OF keeps_foldM_upt [where J = "filled c ks", OF _ CHUNK_NUM_pos(1) start [OF s(3,1)]] filled_all])
      (rule body [OF s(1,2,4)])
  show ?thesis
    unfolding poc_compute_custody_bit_offline_2primes_def Let_def
    by (rule keeps_bnd [OF keeps_check], use k(4) in simp,
        rule keeps_bnd [OF runs_sqr [OF c k(1)]], rule keeps_bnd [OF runs_mul_inplace [OF c _ k(1)]], assumption,
        rule keeps_bnd [OF runs_sqr [OF c k(2)]], rule keeps_bnd [OF runs_mul_inplace [OF c _ k(2)]], assumption,
        rule keeps_bnd [OF runs_sqr [OF c k(3)]], rule keeps_bnd [OF runs_mul_inplace [OF c _ k(3)]], assumption,
        rule loop)
qed

text \<open>Whether one of the values \<open>x, x + 1, ...\<close> up to a count gives the bit 1.\<close>

definition prf_any :: "ctx \<Rightarrow> int \<Rightarrow> nat \<Rightarrow> int" where
  "prf_any c x n = of_bool (\<exists>i < n. prf_bit c (x + int i) = 1)"

lemma prf_bit_mod: "legendre_spec c \<Longrightarrow> x mod pr c = y mod pr c \<Longrightarrow> prf_bit c x = prf_bit c y"
  by (metis legendre_sym_mod prf_bit_def)

lemma prf_bits: "prf_bit c x = 0 \<or> prf_bit c x = 1" "prf_any c x n = 0 \<or> prf_any c x n = 1"
  by (auto simp: prf_bit_def prf_any_def)

lemma or_ones:
  "Bit_Operations.or 1 (prf_bit c x) = 1" "Bit_Operations.or (prf_any c x n) 1 = 1"
  using prf_bits(1) [of c x] prf_bits(2) [of c x n] by auto

lemma prf_any_Suc: "prf_any c x (Suc n) = Bit_Operations.or (prf_any c x n) (prf_bit c (x + int n))"
  by (auto simp: prf_any_def prf_bit_def less_Suc_eq)

lemma runs_custody_online_2primes [prog]:
  assumes c: "wf c" "wf_prime c" "legendre_spec c"
    and P: "pre_key_ok c ks pre_key" and K: "sh c K k" and m: "plain_v c msg" "length msg = CHUNK_NUM"
  shows "keeps (good c) (poc_compute_custody_bit_online_2primes c pre_key K msg)
    (\<lambda>r. r = prf_any c (k + uhf_value ks msg) 10 \<or> \<not> masks_nonzero c \<and> r = 1) E"
proof -
  let ?x = "k + uhf_value ks msg"
  let ?J = "\<lambda>n r. r = prf_any c ?x n \<or> \<not> masks_nonzero c \<and> r = 1"
  have p: "1 < pr c" using wf_pr [OF c(1)] .
  have step: "keeps (good c) (bnd (legendre_prf c K (add_plain c out (to_gfp (pr c) (int i)))) (\<lambda>b. ret (Bit_Operations.or res b)))
      (?J (Suc i)) E" if o: "sh c out (uhf_value ks msg)" and J: "?J i res" for out res i
  proof -
    have v: "prf_bit c (k + (uhf_value ks msg + to_gfp (pr c) (int i))) = prf_bit c (?x + int i)"
      by (rule prf_bit_mod [OF c(3)]) (simp add: to_gfp_mod p add.assoc [symmetric] mod_add_right_eq)
    have b: "keeps (good c) (legendre_prf c K (add_plain c out (to_gfp (pr c) (int i))))
        (\<lambda>b. b = prf_bit c (?x + int i) \<or> \<not> masks_nonzero c \<and> b = 1) E"
      unfolding v [symmetric]
      by (rule runs_legendre_prf [OF c K sh_local_plain(1) [OF c(1) o]]) (use p in \<open>simp add: to_gfp_mod in_field_def\<close>)
    show ?thesis
      by (rule keeps_bnd [OF b], rule keeps_ret) (use J or_ones in \<open>auto simp: prf_any_Suc\<close>)
  qed
  have loop: "keeps (good c) (foldM (\<lambda>i res. bnd (legendre_prf c K (add_plain c out (to_gfp (pr c) (int i))))
      (\<lambda>b. ret (Bit_Operations.or res b))) [0..<10] 0) (?J 10) E" if "sh c out (uhf_value ks msg)" for out
    by (rule keeps_foldM_upt [where J = ?J]) (use step [OF that] in \<open>auto simp: prf_any_def\<close>)
  show ?thesis
    unfolding poc_compute_custody_bit_online_2primes_def Let_def
    by (rule keeps_bnd [OF keeps_check], use m(2) in simp, rule keeps_bnd [OF runs_uhf_online [OF c(1) P m]], rule loop)
qed

section \<open>Two primes: the ephemeral key\<close>

lemma sizes: "3 * QSIZE = 2 * PSIZE" "\<And>i. i < 2 * PSIZE \<Longrightarrow> i div 8 < 96"
  by (simp_all add: PSIZE_def QSIZE_def)

text \<open>The bits of player \<open>i\<close>, at the positions that are used.\<close>

definition bit_vectors :: "ctx \<Rightarrow> int list list \<Rightarrow> bool" where
  "bit_vectors c local_bits \<longleftrightarrow>
     length local_bits = num_players c \<and> (\<forall>lb \<in> set local_bits. length lb = 2 * PSIZE \<and> is_bits lb)"

lemma local_bits_ret:
  assumes "96 \<le> length rnd"
  shows "local_bits_of rnd = ret (map (\<lambda>i. Bit_Operations.and (drop_bit (i mod 8) (rnd ! (i div 8))) 1) [0..<2 * PSIZE])"
  unfolding local_bits_of_def
proof (rule mapM_ret)
  fix i assume "i \<in> set [0..<2 * PSIZE]"
  then have "i div 8 < length rnd" using sizes(2) [of i] assms by simp
  then show "bnd (at rnd (i div 8)) (\<lambda>b. ret (Bit_Operations.and (drop_bit (i mod 8) b) 1)) =
      ret (Bit_Operations.and (drop_bit (i mod 8) (rnd ! (i div 8))) 1)" by simp
qed

text \<open>Position \<open>j\<close> of the shared vector: the parity of the players' bits there.\<close>

definition parity_at :: "int list list \<Rightarrow> nat \<Rightarrow> int" where
  "parity_at local_bits j = (\<Sum>lb\<leftarrow>local_bits. lb ! j) mod 2"

lemma parity_bit: "parity_at lbs j = 0 \<or> parity_at lbs j = 1"
  unfolding parity_at_def by presburger

lemma runs_shared_rand_bit:
  assumes c: "wf c" and b: "bit_vectors c local_bits" and j: "j < 2 * PSIZE"
  shows "keeps (good c) (shared_rand_bit c local_bits j) (\<lambda>r. sh c r (parity_at local_bits j)) E"
proof -
  have p: "1 < pr c" using wf_pr [OF c] .
  let ?bs = "map (\<lambda>lb. lb ! j) local_bits"
  have len: "length local_bits = num_players c" using b by (simp add: bit_vectors_def)
  have bs: "is_bits ?bs"
    using b j unfolding is_bits_def bit_vectors_def by (auto dest!: bspec)
  have id: "map (to_gfp (pr c)) ?bs = ?bs"
    using bs p by (auto simp: is_bits_def to_gfp_mod)
  have f: "in_field (pr c) (?bs ! i)" if "i < num_players c" for i
    using bs that len p by (auto simp: is_bits_def in_field_def all_set_conv_all_nth)
  have at: "mapM (\<lambda>lb. at lb j) local_bits = (ret ?bs :: (mpc, int list) m)"
    by (rule mapM_ret) (use b j in \<open>auto simp: bit_vectors_def\<close>)
  have inp: "keeps (good c) (mapM (\<lambda>i. get_inputs c i ?bs) [0..<num_players c]) (\<lambda>r. shs c r ?bs) E"
  proof (rule runs_post [OF keeps_mapM [where R = "\<lambda>i r. sh c r (?bs ! i)"]])
    show "keeps (good c) (get_inputs c i ?bs) (\<lambda>r. sh c r (?bs ! i)) E" if "i \<in> set [0..<num_players c]" for i
      using that f by (intro runs_get_inputs [OF c]) auto
    show "shs c r ?bs" if "list_all2 (\<lambda>i r. sh c r (?bs ! i)) [0..<num_players c] r" for r
      using that len by (auto simp: list_all2_conv_all_nth)
  qed
  have k: "keeps (good c) (KXOR c S (length S)) (\<lambda>r. sh c r (parity_at local_bits j)) E" if "shs c S ?bs" for S
    using runs_KXOR [OF c that _ _ bs, of "length S" E] shs_length [OF that] len wf_players [OF c]
    by (simp add: parity_at_def)
  show ?thesis
    unfolding shared_rand_bit_def at bnd_ret id by (rule keeps_bnd [OF inp]) (rule k)
qed

lemma runs_shared_rand_bits:
  assumes c: "wf c" and b: "bit_vectors c local_bits"
  shows "keeps (good c) (shared_rand_bits_phase_two c local_bits)
    (\<lambda>r. bit_sharing c r (map (parity_at local_bits) [0..<2 * PSIZE])) E"
  unfolding shared_rand_bits_phase_two_def
  by (rule runs_post [OF keeps_mapM [where R = "\<lambda>j r. sh c r (parity_at local_bits j)"]])
    (use runs_shared_rand_bit [OF c b] parity_bit in \<open>auto simp: bit_sharing_def is_bits_def list_all2_conv_all_nth\<close>)

lemma runs_phase_one:
  assumes c: "wf c" and r: "length rnds = num_players c" "\<forall>rnd \<in> set rnds. 96 \<le> length rnd"
  shows "keeps (good c) (shared_rand_bits_phase_one c rnds) (\<lambda>(S, local_bits). bit_vectors c local_bits \<and>
    bit_sharing c S (map (parity_at local_bits) [0..<2 * PSIZE])) E"
proof -
  let ?lb = "\<lambda>rnd. map (\<lambda>i. Bit_Operations.and (drop_bit (i mod 8) (rnd ! (i div 8))) 1) [0..<2 * PSIZE]"
  have l: "mapM local_bits_of rnds = (ret (map ?lb rnds) :: (mpc, int list list) m)"
    by (rule mapM_ret) (use r(2) local_bits_ret in blast)
  have b: "bit_vectors c (map ?lb rnds)"
    using r(1) by (auto simp: bit_vectors_def is_bits_def and_one_eq)
  show ?thesis
    unfolding shared_rand_bits_phase_one_def l bnd_ret
    by (rule keeps_bnd [OF runs_shared_rand_bits [OF c b, unfolded shared_rand_bits_phase_two_def]], rule keeps_ret)
      (use b in simp)
qed

text \<open>The bits of the two halves of the key, masked by the shared random bits.\<close>

definition key_bits :: "int \<Rightarrow> int \<Rightarrow> int \<Rightarrow> int list" where
  "key_bits p x y = int_bits PSIZE (x mod p) @ int_bits PSIZE (y mod p)"

lemma length_key_bits [simp]: "length (key_bits p x y) = 2 * PSIZE"
  by (simp add: key_bits_def)

lemma is_bits_key_bits [simp]: "is_bits (key_bits p x y)"
  by (simp add: key_bits_def)

lemma xor_val_is_bits: "is_bits xs \<Longrightarrow> is_bits ys \<Longrightarrow> length xs = length ys \<Longrightarrow> is_bits (map2 xor_val xs ys)"
  by (auto simp: is_bits_def all_set_conv_all_nth xor_val_bits)

text \<open>What follows the conversions of the two keys: their bits are masked and opened.\<close>

lemma runs_mask_and_reveal:
  assumes c: "wf c" and S: "bit_sharing c S bs" "length bs = 2 * PSIZE"
    and D: "shs c d0 (int_bits PSIZE (x mod pr c))" "shs c d1 (int_bits PSIZE (y mod pr c))"
  shows "keeps (good c) (bnd (mapM (\<lambda>i. bnd (at (d0 @ d1) i) (\<lambda>di. XOR_inplace c di (S ! i))) [0..<length S])
      (\<lambda>front. bnd (reveal_v c (front @ drop (length S) (d0 @ d1))) (\<lambda>out. mapM (\<lambda>i. at out i) [0..<2 * PSIZE])))
    (\<lambda>r. r = map2 xor_val (key_bits (pr c) x y) bs) E"
proof -
  have Sb: "shs c S bs" "is_bits bs" "length S = 2 * PSIZE"
    using S shs_length [of c S bs] by (auto simp: bit_sharing_def)
  let ?v = "map2 xor_val (key_bits (pr c) x y) bs"
  have v: "is_bits ?v" using Sb S(2) by (intro xor_val_is_bits) simp_all
  have vm: "map (\<lambda>x. x mod pr c) ?v = ?v"
    using v wf_pr [OF c] by (intro map_idI) (auto simp: is_bits_def)
  have x: "keeps (good c) (mapM (\<lambda>i. bnd (at d i) (\<lambda>di. XOR_inplace c di (S ! i))) [0..<length S]) (\<lambda>r. shs c r ?v) E"
    if d: "shs c d (key_bits (pr c) x y)" for d
  proof (rule runs_post [OF keeps_mapM [where R = "\<lambda>i r. sh c r (?v ! i)"]])
    have len: "length d = 2 * PSIZE" using shs_length [OF d] by simp
    show "keeps (good c) (bnd (at d i) (\<lambda>di. XOR_inplace c di (S ! i))) (\<lambda>r. sh c r (?v ! i)) E"
      if "i \<in> set [0..<length S]" for i
    proof -
      have i: "i < 2 * PSIZE" using that Sb(3) by simp
      have "sh c (d ! i) (key_bits (pr c) x y ! i)" "sh c (S ! i) (bs ! i)"
        using d Sb(1) i S(2) by (simp_all add: list_all2_conv_all_nth)
      then show ?thesis using runs_gates(1) [OF c] i len S(2) by simp
    qed
    show "shs c r ?v" if "list_all2 (\<lambda>i r. sh c r (?v ! i)) [0..<length S] r" for r
      using that Sb(3) S(2) by (auto simp: list_all2_conv_all_nth)
  qed
  have o: "keeps (good c) (bnd (reveal_v c (front @ drop (length S) d)) (\<lambda>out. mapM (\<lambda>i. at out i) [0..<2 * PSIZE]))
      (\<lambda>r. r = ?v) E" if d: "shs c d (key_bits (pr c) x y)" and f: "shs c front ?v" for d front
  proof -
    have "drop (length S) d = []" using shs_length [OF d] Sb(3) by simp
    then have r: "keeps (good c) (reveal_v c (front @ drop (length S) d)) (\<lambda>r. r = ?v) E"
      using runs_reveal_v [OF c f] unfolding vm by (simp only: append_Nil2)
    have "mapM (\<lambda>i. at ?v i) [0..<2 * PSIZE] = (ret (map (\<lambda>i. ?v ! i) [0..<2 * PSIZE]) :: (mpc, int list) m)"
      by (rule mapM_ret) (use S(2) in auto)
    also have "map (\<lambda>i. ?v ! i) [0..<2 * PSIZE] = ?v"
      using S(2) by (intro nth_equalityI) auto
    finally have "mapM (\<lambda>i. at ?v i) [0..<2 * PSIZE] = (ret ?v :: (mpc, int list) m)" .
    then show ?thesis by (intro keeps_bnd [OF r]) (simp add: keeps_ret)
  qed
  have app: "shs c (d0 @ d1) (key_bits (pr c) x y)"
    unfolding key_bits_def using D by (rule list_all2_appendI)
  show ?thesis by (rule keeps_bnd [OF x [OF app]]) (rule o [OF app])
qed

lemma runs_decompose_and_reveal:
  assumes c: "wf c" and p: "pr c < 2 ^ PSIZE" and K: "shs c keys [x, y]"
    and S: "bit_sharing c S bs" "length bs = 2 * PSIZE" and E: "E Out_of_fuel"
  shows "keeps (good c) (decompose_and_reveal c fuel keys S)
    (\<lambda>r. r = map2 xor_val (key_bits (pr c) x y) bs) E"
proof -
  have k: "sh c (keys ! 0) x" "sh c (keys ! 1) y" "length keys = 2" "length S = 2 * PSIZE"
    using K shs_length [OF K] S shs_length [of c S bs] by (auto simp: list_all2_Cons2 bit_sharing_def)
  show ?thesis
    unfolding decompose_and_reveal_def Let_def
    by (rule keeps_bnd [OF keeps_check], use k(3,4) in simp,
        rule keeps_bnd [OF runs_A2B [where E = E, OF c p k(1) E]],
        rule keeps_bnd [OF runs_A2B [where E = E, OF c p k(2) E]],
        rule runs_mask_and_reveal [OF c S])
qed

lemma runs_xor_and_combine:
  assumes c: "wf c" and S: "bit_sharing c S bs" "length bs = 2 * PSIZE"
    and a: "is_bits as" "length as = 2 * PSIZE"
  shows "keeps (good c) (xor_and_combine c S (map2 xor_val as bs))
    (\<lambda>r. shs c r (map (\<lambda>i. bits_value (take QSIZE (drop (i * QSIZE) as))) [0..<3])) E"
proof -
  have p: "1 < pr c" using wf_pr [OF c] .
  have Sb: "shs c S bs" "is_bits bs" "length S = 2 * PSIZE"
    using S shs_length [of c S bs] by (auto simp: bit_sharing_def)
  let ?v = "map2 xor_val as bs"
  let ?t = "map (\<lambda>i. XOR_plain c (S ! i) (to_gfp (pr c) (?v ! i))) [0..<length S]"
  have "sh c (XOR_plain c (S ! i) (to_gfp (pr c) (?v ! i))) (as ! i)" if i: "i < 2 * PSIZE" for i
  proof -
    have b: "as ! i = 0 \<or> as ! i = 1" "bs ! i = 0 \<or> bs ! i = 1"
      using a Sb S(2) i by (auto simp: is_bits_def all_set_conv_all_nth)
    then have v: "?v ! i = 0 \<or> ?v ! i = 1" "xor_val (bs ! i) (?v ! i) = as ! i"
      using i a(2) S(2) by (auto simp: xor_val_bits)
    have "to_gfp (pr c) (?v ! i) = ?v ! i" using v(1) p by (auto simp: to_gfp_mod)
    moreover have "in_field (pr c) (?v ! i)" using v(1) p by (auto simp: in_field_def)
    moreover have "sh c (S ! i) (bs ! i)" using Sb(1) S(2) i by (simp add: list_all2_conv_all_nth)
    ultimately show ?thesis using sh_gates_plain(1) [OF c] v(2) by metis
  qed
  then have t: "shs c ?t as" using a(2) Sb(3) by (simp add: list_all2_conv_all_nth)
  have q: "0 < QSIZE" "\<And>i. i < 3 \<Longrightarrow> QSIZE \<le> length (take QSIZE (drop (i * QSIZE) as))"
    using a(2) by (simp_all add: QSIZE_def PSIZE_def)
  have "keeps (good c) (mapM (\<lambda>i. B2A c (take QSIZE (drop (i * QSIZE) ?t)) QSIZE) [0..<3])
      (list_all2 (\<lambda>i r. sh c r (bits_value (take QSIZE (drop (i * QSIZE) as)))) [0..<3]) E"
  proof (rule keeps_mapM)
    fix i :: nat assume "i \<in> set [0..<3]"
    then have "QSIZE \<le> length (take QSIZE (drop (i * QSIZE) as))" using q(2) by simp
    moreover have "shs c (take QSIZE (drop (i * QSIZE) ?t)) (take QSIZE (drop (i * QSIZE) as))"
      using t by (intro list_all2_takeI list_all2_dropI)
    ultimately show "keeps (good c) (B2A c (take QSIZE (drop (i * QSIZE) ?t)) QSIZE)
        (\<lambda>r. sh c r (bits_value (take QSIZE (drop (i * QSIZE) as)))) E"
      using runs_B2A [OF c _ q(1), of "take QSIZE (drop (i * QSIZE) ?t)" "take QSIZE (drop (i * QSIZE) as)" E] by simp
  qed
  then have m: "keeps (good c) (mapM (\<lambda>i. B2A c (take QSIZE (drop (i * QSIZE) ?t)) QSIZE) [0..<3])
      (\<lambda>r. shs c r (map (\<lambda>i. bits_value (take QSIZE (drop (i * QSIZE) as))) [0..<3])) E"
    by (rule runs_post) (auto simp: list_all2_conv_all_nth)
  have "length ?v = 2 * PSIZE" using a(2) S(2) by simp
  then show ?thesis
    unfolding xor_and_combine_def Let_def
    by (intro keeps_bnd [OF keeps_check] m) (simp add: Sb(3) sizes)
qed

end
