(* ===== verification/Custody.thy ===== *)
theory Custody
  imports Binary Poc
begin

text \<open>
  What the proof-of-custody computations guarantee: the powers of the keys, the custody bit
  of the one-step, the two-phase and the two-prime versions, the errors for inputs of the
  wrong size, and the transfer of the ephemeral key from one prime to the other.
\<close>

section \<open>The Legendre pseudo-random function\<close>

text \<open>The bit of a value: 1 for zero and the squares of the field, 0 for the rest.\<close>

definition residue_bit :: "int \<Rightarrow> int \<Rightarrow> int" where
  "residue_bit p x = of_bool (x mod p = 0 \<or> is_square_mod x p)"

lemma prf_bit_residue: "legendre_spec c \<Longrightarrow> prf_bit c x = residue_bit (pr c) x"
  by (auto simp: prf_bit_def residue_bit_def legendre_spec_def)

lemma demo_legendre_spec [simp]: "legendre_spec demo"
proof -
  have "list_ex (\<lambda>y. (y * y) mod 7 = a mod 7) [0..6] \<longleftrightarrow> is_square_mod a 7" for a :: int
  proof
    assume "is_square_mod a 7"
    then obtain y where y: "(y * y) mod 7 = a mod 7" by (auto simp: is_square_mod_def)
    have "((y mod 7) * (y mod 7)) mod 7 = a mod 7" using y by (simp add: mod_mult_eq)
    moreover have "y mod 7 \<in> set [0..6]" using pos_mod_bound [of 7 y] pos_mod_sign [of 7 y] by simp
    ultimately show "list_ex (\<lambda>y. (y * y) mod 7 = a mod 7) [0..6]" unfolding list_ex_iff by blast
  qed (auto simp: is_square_mod_def list_ex_iff)
  then show ?thesis by (simp add: legendre_spec_def demo_legendre_def)
qed

text \<open>C24: \<open>legendre_prf\<close> returns the residue bit of the key plus the argument; with a
  mask that happens to be zero it returns 1.\<close>
theorem legendre_prf_value:
  assumes "wf c" "wf_prime c" "legendre_spec c" "good c s" "sh c K k" "sh c X x"
  shows "\<exists>b t. legendre_prf c K X s = Inr (b, t) \<and> good c t \<and>
    (b = residue_bit (pr c) (k + x) \<or> \<not> masks_nonzero c \<and> b = 1)"
  using runs_returns [OF runs_legendre_prf [OF assms(1-3,5,6)] assms(4)]
  unfolding prf_bit_residue [OF assms(3)] .

theorem legendre_prf_value_witness:
  "\<exists>b t. legendre_prf demo (demo_share 1) (demo_share 3) demo_state = Inr (b, t) \<and> good demo t \<and> b = 1"
proof -
  have "is_square_mod 4 7" unfolding is_square_mod_def by (rule exI [of _ 2]) simp
  then show ?thesis
    using legendre_prf_value [of demo demo_state "demo_share 1" 1 "demo_share 3" 3] by (simp add: residue_bit_def)
qed

text \<open>\<open>uhf\<close> evaluates by Horner's rule the polynomial whose coefficients are the
  message at the shared key; a message of the wrong length throws \<open>invalid_length\<close>.\<close>
theorem uhf_polynomial:
  assumes "wf c" "good c s" "sh c K k" "plain_v c msg" "2 \<le> n"
  shows "if length msg \<noteq> n then uhf c K msg n s = Inl Invalid_length
    else \<exists>r t. uhf c K msg n s = Inr (r, t) \<and> good c t \<and> sh c r (\<Sum>i<n. msg ! i * k ^ i)"
  using runs_returns [OF runs_uhf [OF assms(1,3,4) _ assms(5)] assms(2)]
  by (simp add: uhf_def) (simp add: throw_def)

theorem uhf_polynomial_witness:
  "\<exists>r t. uhf demo (demo_share 3) [5, 1, 2] 3 demo_state = Inr (r, t) \<and> good demo t \<and> sh demo r 26"
  using uhf_polynomial [of demo demo_state "demo_share 3" 3 "[5, 1, 2]" 3]
  by (simp add: plain_v_def in_field_def numeral_3_eq_3 lessThan_Suc)

section \<open>The custody bit\<close>

text \<open>A message of the right length and its hash, for the examples.\<close>

definition demo_msg :: "int list" where
  "demo_msg = replicate CHUNK_NUM 2"

lemma demo_msg [simp]: "length demo_msg = CHUNK_NUM" "plain_v demo demo_msg"
  by (auto simp: demo_msg_def plain_v_def in_field_def)

text \<open>C3: the offline phase fills \<open>pre_key\<close> with sharings of the powers of the two keys in
  turn, whatever the vector held, and the online phase with this vector returns the residue
  bit of the second key plus the hash of the message; both always return.\<close>
theorem custody_bit_two_phases:
  assumes "wf c" "wf_prime c" "legendre_spec c" "good c s" "shs c keys [s0, s1]"
    and "plain_v c msg" "length msg = CHUNK_NUM"
  shows "\<exists>pre t b u. poc_compute_custody_bit_offline c old keys s = Inr (pre, t) \<and>
    shs c pre (map (\<lambda>i. (if even i then s1 else s0) ^ Suc i) [0..<CHUNK_NUM]) \<and>
    poc_compute_custody_bit_online c pre msg t = Inr (b, u) \<and> good c u \<and>
    (b = residue_bit (pr c) (s1 + ((\<Sum>i<CHUNK_NUM. msg ! i * (if even i then s0 else s1) ^ i) + s0 ^ CHUNK_NUM)) \<or>
      \<not> masks_nonzero c \<and> b = 1)"
proof -
  have ks: "[s0, s1] ! (i mod 2) = (if even i then s0 else s1)" for i
    by (cases "even i") (auto simp: even_iff_mod_2_eq_zero odd_iff_mod_2_eq_one)
  obtain pre t where t: "poc_compute_custody_bit_offline c old keys s = Inr (pre, t)" "good c t"
      "pre_key_ok c [s0, s1] pre"
    using runs_returns [OF runs_custody_offline [OF assms(1,5), of old] assms(4)] by auto
  obtain b u where "poc_compute_custody_bit_online c pre msg t = Inr (b, u)" "good c u"
      "b = prf_bit c (s1 + uhf_value [s0, s1] msg) \<or> \<not> masks_nonzero c \<and> b = 1"
    using runs_returns [OF runs_custody_online [OF assms(1-3) t(3) assms(6,7)] t(2)] by auto
  moreover have "even CHUNK_NUM" by (simp add: CHUNK_NUM_def)
  then have "uhf_value [s0, s1] msg =
      (\<Sum>i<CHUNK_NUM. msg ! i * (if even i then s0 else s1) ^ i) + s0 ^ CHUNK_NUM"
    using ks by (simp add: uhf_value_def numeral_2_eq_2 [symmetric])
  moreover have "shs c pre (map (\<lambda>i. (if even i then s1 else s0) ^ Suc i) [0..<CHUNK_NUM])"
  proof -
    have "key_power [s0, s1] i = (if even i then s1 else s0) ^ Suc i" for i
      using ks [of "Suc i"] by (simp add: key_power_def numeral_2_eq_2 [symmetric])
    then have "key_power [s0, s1] = (\<lambda>i. (if even i then s1 else s0) ^ Suc i)" by blast
    then show ?thesis using t(3) unfolding pre_key_ok_def by (simp only:)
  qed
  ultimately show ?thesis using t(1) prf_bit_residue [OF assms(3)] by auto
qed

theorem custody_bit_two_phases_witness:
  "\<exists>pre t b u. poc_compute_custody_bit_offline demo [] [demo_share 2, demo_share 3] demo_state = Inr (pre, t) \<and>
    poc_compute_custody_bit_online demo pre demo_msg t = Inr (b, u) \<and> good demo u"
  using custody_bit_two_phases [of demo demo_state "[demo_share 2, demo_share 3]" 2 3 demo_msg "[]"] by simp blast

text \<open>The one-step custody bit is the residue bit of the second key plus the polynomial of
  the message at the first key: not the hash of the two-phase version.\<close>
theorem custody_bit_one_step:
  assumes "wf c" "wf_prime c" "legendre_spec c" "good c s" "shs c keys [s0, s1]"
    and "plain_v c msg" "length msg = CHUNK_NUM"
  shows "\<exists>b t. poc_compute_custody_bit c keys msg s = Inr (b, t) \<and> good c t \<and>
    (b = residue_bit (pr c) (s1 + (\<Sum>i<CHUNK_NUM. msg ! i * s0 ^ i)) \<or> \<not> masks_nonzero c \<and> b = 1)"
  using runs_returns [OF runs_custody_bit [OF assms(1-3,5) _ assms(6,7)] assms(4)]
  by (simp add: prf_bit_residue [OF assms(3)])

theorem custody_bit_one_step_witness:
  "\<exists>b t. poc_compute_custody_bit demo [demo_share 2, demo_share 3] demo_msg demo_state = Inr (b, t) \<and> good demo t"
  using custody_bit_one_step [of demo demo_state "[demo_share 2, demo_share 3]" 2 3 demo_msg] by simp blast

text \<open>C4: with two primes, the offline phase fills \<open>pre_key\<close> with powers of the three keys in
  turn, and the online phase returns 1 exactly when one of the ten successive values from the
  key plus the hash on is zero or a square.\<close>
theorem custody_bit_2primes:
  assumes "wf c" "wf_prime c" "legendre_spec c" "good c s" "shs c keys ks" "length ks = 3"
    and "sh c K k" "plain_v c msg" "length msg = CHUNK_NUM"
  shows "\<exists>pre t b u. poc_compute_custody_bit_offline_2primes c old keys s = Inr (pre, t) \<and>
    shs c pre (map (\<lambda>i. ks ! (Suc i mod 3) ^ Suc i) [0..<CHUNK_NUM]) \<and>
    poc_compute_custody_bit_online_2primes c pre K msg t = Inr (b, u) \<and> good c u \<and>
    (b = of_bool (\<exists>j < 10. residue_bit (pr c)
        (k + ((\<Sum>i<CHUNK_NUM. msg ! i * ks ! (i mod 3) ^ i) + ks ! 2 ^ CHUNK_NUM) + int j) = 1) \<or>
      \<not> masks_nonzero c \<and> b = 1)"
proof -
  obtain pre t where t: "poc_compute_custody_bit_offline_2primes c old keys s = Inr (pre, t)" "good c t"
      "pre_key_ok c ks pre"
    using runs_returns [OF runs_custody_offline_2primes [OF assms(1,5,6), of old] assms(4)] by blast
  obtain b u where u: "poc_compute_custody_bit_online_2primes c pre K msg t = Inr (b, u)" "good c u"
      "b = prf_any c (k + uhf_value ks msg) 10 \<or> \<not> masks_nonzero c \<and> b = 1"
    using runs_returns [OF runs_custody_online_2primes [OF assms(1-3) t(3) assms(7-9)] t(2)] by auto
  have "CHUNK_NUM mod 3 = 2" by (simp add: CHUNK_NUM_def)
  then have h: "uhf_value ks msg = (\<Sum>i<CHUNK_NUM. msg ! i * ks ! (i mod 3) ^ i) + ks ! 2 ^ CHUNK_NUM"
    using assms(6) by (simp add: uhf_value_def)
  have "shs c pre (map (\<lambda>i. ks ! (Suc i mod 3) ^ Suc i) [0..<CHUNK_NUM])"
    using t(3) assms(6) unfolding pre_key_ok_def key_power_def by (simp only:)
  then show ?thesis
    using t(1) u unfolding prf_any_def h prf_bit_residue [OF assms(3)] by blast
qed

theorem custody_bit_2primes_witness:
  "\<exists>pre t b u. poc_compute_custody_bit_offline_2primes demo [] [demo_share 2, demo_share 3, demo_share 4] demo_state = Inr (pre, t) \<and>
    poc_compute_custody_bit_online_2primes demo pre (demo_share 5) demo_msg t = Inr (b, u) \<and> good demo u"
  using custody_bit_2primes [of demo demo_state "[demo_share 2, demo_share 3, demo_share 4]" "[2, 3, 4]" "demo_share 5" 5 demo_msg "[]"]
  by simp blast

text \<open>C33: keys, messages and bit vectors of any other length are rejected before anything is
  opened: \<open>invalid_length\<close> with one prime and in the transfer of the key, \<open>bad_value\<close> with
  two primes.\<close>
theorem custody_rejects_lengths:
  "(length keys \<noteq> 2 \<longrightarrow> poc_compute_custody_bit_offline c old keys s = Inl Invalid_length) \<and>
   (length msg \<noteq> CHUNK_NUM \<longrightarrow> poc_compute_custody_bit_online c pre msg s = Inl Invalid_length) \<and>
   (length keys \<noteq> 2 \<or> length msg \<noteq> CHUNK_NUM \<longrightarrow> poc_compute_custody_bit c keys msg s = Inl Invalid_length) \<and>
   (length keys \<noteq> 3 \<longrightarrow> poc_compute_custody_bit_offline_2primes c old keys s = Inl Bad_value) \<and>
   (length msg \<noteq> CHUNK_NUM \<longrightarrow> poc_compute_custody_bit_online_2primes c pre K msg s = Inl Bad_value) \<and>
   (length keys \<noteq> 2 \<or> length S \<noteq> 2 * PSIZE \<longrightarrow> decompose_and_reveal c fuel keys S s = Inl Invalid_length) \<and>
   (length S \<noteq> 3 * QSIZE \<or> length rb \<noteq> 3 * QSIZE \<longrightarrow> xor_and_combine c S rb s = Inl Invalid_length)"
  by (auto simp: poc_compute_custody_bit_offline_def poc_compute_custody_bit_online_def check_def
      poc_compute_custody_bit_offline_2primes_def poc_compute_custody_bit_online_2primes_def
      poc_compute_custody_bit_def uhf_def decompose_and_reveal_def xor_and_combine_def) (simp_all add: throw_def)

theorem custody_rejects_lengths_witness:
  "poc_compute_custody_bit_offline demo [] [] demo_state = Inl Invalid_length \<and>
    xor_and_combine demo [] [] demo_state = Inl Invalid_length"
  using custody_rejects_lengths [where keys = "[]" and S = "[]" and rb = "[]" and c = demo and old = "[]" and s = demo_state]
  by (simp add: QSIZE_def)

section \<open>The ephemeral key over the second prime\<close>

lemma bits_value_key_bits:
  assumes "1 < p" "p < 2 ^ PSIZE"
  shows "bits_value (key_bits p x y) = x mod p + 2 ^ PSIZE * (y mod p)"
proof -
  have "z mod p mod 2 ^ PSIZE = z mod p" for z
    using assms pos_mod_bound [of p z] pos_mod_sign [of p z] by (intro mod_pos_pos_trivial) linarith+
  then show ?thesis by (simp add: key_bits_def bits_value_append bits_value_int_bits)
qed

lemma chunk_bounds:
  assumes "is_bits xs"
  shows "0 \<le> bits_value (take n (drop m xs)) \<and> bits_value (take n (drop m xs)) < 2 ^ n"
proof -
  have "is_bits (take n (drop m xs))"
    using assms by (auto simp: is_bits_def dest!: in_set_takeD in_set_dropD)
  then have "0 \<le> bits_value (take n (drop m xs)) \<and> bits_value (take n (drop m xs)) < 2 ^ length (take n (drop m xs))"
    by (rule bits_value_bounds)
  moreover have "(2 :: int) ^ length (take n (drop m xs)) \<le> 2 ^ n" by (intro power_increasing) simp_all
  ultimately show ?thesis by linarith
qed

lemma bits_value_chunks:
  assumes "length xs = n + n + n"
  shows "bits_value (take n xs) + 2 ^ n * bits_value (take n (drop n xs)) +
      2 ^ (n + n) * bits_value (take n (drop (n + n) xs)) = bits_value xs"
proof -
  let ?a = "take n xs" and ?b = "take n (drop n xs)" and ?c = "take n (drop (n + n) xs)"
  have "?c = drop n (drop n xs)" using assms by simp
  then have "xs = ?a @ ?b @ ?c" by (metis append_take_drop_id)
  then have "bits_value xs = bits_value (?a @ ?b @ ?c)" by (rule arg_cong)
  also have "\<dots> = bits_value ?a + 2 ^ n * (bits_value ?b + 2 ^ n * bits_value ?c)"
    using assms by (simp only: bits_value_append) simp
  also have "\<dots> = bits_value ?a + 2 ^ n * bits_value ?b + 2 ^ (n + n) * bits_value ?c"
    by (simp add: power_add algebra_simps)
  finally show ?thesis by simp
qed

text \<open>The whole transfer of an ephemeral key: random bits are shared over both primes, the
  bits of the two halves of the key are revealed under this mask over the first prime, and
  unmasked over the second. The three sharings that result are of the \<open>QSIZE\<close>-bit limbs of the
  number the two halves form. The run ends early only when the bound on the attempts of
  \<open>pre_rand\<close> is too small.\<close>
theorem ephem_key_transfer:
  assumes "wf c" "pr c < 2 ^ PSIZE" "good c s" "shs c keys [x, y]"
    and "wf d" "good d u" "num_players d = num_players c"
    and "length rnds = num_players c" "\<forall>rnd \<in> set rnds. 96 \<le> length rnd"
  shows "\<exists>S lbs t. shared_rand_bits_phase_one c rnds s = Inr ((S, lbs), t) \<and>
    (decompose_and_reveal c fuel keys S t = Inl Out_of_fuel \<or>
     (\<exists>rb t' S' u1 limbs u2 vs. decompose_and_reveal c fuel keys S t = Inr (rb, t') \<and> good c t' \<and>
       shared_rand_bits_phase_two d lbs u = Inr (S', u1) \<and>
       xor_and_combine d S' rb u1 = Inr (limbs, u2) \<and> good d u2 \<and>
       shs d limbs vs \<and> length vs = 3 \<and> (\<forall>v \<in> set vs. 0 \<le> v \<and> v < 2 ^ QSIZE) \<and>
       vs ! 0 + 2 ^ QSIZE * vs ! 1 + 2 ^ (QSIZE + QSIZE) * vs ! 2 = x mod pr c + 2 ^ PSIZE * (y mod pr c)))"
proof -
  obtain S lbs t where t: "shared_rand_bits_phase_one c rnds s = Inr ((S, lbs), t)" "good c t"
      "bit_vectors c lbs" "bit_sharing c S (map (parity_at lbs) [0..<2 * PSIZE])"
    using runs_returns [OF runs_phase_one [OF assms(1,8,9)] assms(3)] by auto
  let ?bs = "map (parity_at lbs) [0..<2 * PSIZE]" and ?kb = "key_bits (pr c) x y"
  have len: "length ?bs = 2 * PSIZE" by simp
  have k: "keeps (good c) (decompose_and_reveal c fuel keys S) (\<lambda>r. r = map2 xor_val ?kb ?bs) (\<lambda>e. e = Out_of_fuel)"
    by (rule runs_decompose_and_reveal [OF assms(1,2,4) t(4) len]) simp
  have "bit_vectors d lbs" using t(3) assms(7) by (simp add: bit_vectors_def)
  from runs_returns [OF runs_shared_rand_bits [OF assms(5) this] assms(6)]
  obtain S' u1 where u1: "shared_rand_bits_phase_two d lbs u = Inr (S', u1)" "good d u1" "bit_sharing d S' ?bs" by auto
  let ?vs = "map (\<lambda>i. bits_value (take QSIZE (drop (i * QSIZE) ?kb))) [0..<3]"
  from runs_returns [OF runs_xor_and_combine [OF assms(5) u1(3) len is_bits_key_bits length_key_bits] u1(2)]
  obtain limbs u2 where u2: "xor_and_combine d S' (map2 xor_val ?kb ?bs) u1 = Inr (limbs, u2)" "good d u2" "shs d limbs ?vs" by blast
  have b: "\<forall>v \<in> set ?vs. 0 \<le> v \<and> v < 2 ^ QSIZE"
    unfolding set_map by (intro ballI, elim imageE) (simp only: chunk_bounds [OF is_bits_key_bits])
  have three: "[0..<3] = [0, 1, 2]" by (simp add: upt_rec)
  have "length ?kb = QSIZE + QSIZE + QSIZE" using sizes(1) by simp
  from bits_value_chunks [OF this]
  have v: "?vs ! 0 + 2 ^ QSIZE * ?vs ! 1 + 2 ^ (QSIZE + QSIZE) * ?vs ! 2 = x mod pr c + 2 ^ PSIZE * (y mod pr c)"
    unfolding bits_value_key_bits [OF wf_pr [OF assms(1)] assms(2)] three by (simp add: mult_2)
  have vl: "length ?vs = 3" by simp
  show ?thesis
  proof (cases "decompose_and_reveal c fuel keys S t")
    case (Inl e)
    then have "e = Out_of_fuel" using k t(2) by (auto simp: keeps_def dest: spec [of _ t])
    then show ?thesis using t(1) Inl by blast
  next
    case (Inr r)
    then obtain t' where "decompose_and_reveal c fuel keys S t = Inr (map2 xor_val ?kb ?bs, t')" "good c t'"
      using k t(2) by (cases r) (auto simp: keeps_def dest: spec [of _ t])
    then show ?thesis using t(1) u1(1) u2 b v vl by blast
  qed
qed

theorem ephem_key_transfer_witness:
  "\<exists>S lbs t. shared_rand_bits_phase_one demo [replicate 96 5, replicate 96 200] demo_state = Inr ((S, lbs), t)"
  using ephem_key_transfer [of demo demo_state "[demo_share 2, demo_share 3]" 2 3 demo demo_state "[replicate 96 5, replicate 96 200]"]
  by (simp add: PSIZE_def) blast

end
