(* ===== verification/Attempts.thy ===== *)
theory Attempts
  imports Binary
begin

text \<open>
  Termination of the rejection loop of \<open>pre_rand\<close>. The operations around it take no bits from
  the buffer, so the attempts read the generator's bits one block after the other; when the
  generator never withholds a number below the prime for ever, some attempt succeeds.
\<close>

section \<open>Operations that leave the bits alone\<close>

abbreviation same_bits :: "jshare list \<Rightarrow> nat \<Rightarrow> mpc \<Rightarrow> bool" where
  "same_bits B k s \<equiv> bits s = B \<and> bit_calls s = k"

abbreviation no_bits :: "jshare list \<Rightarrow> nat \<Rightarrow> (mpc, 'a) m \<Rightarrow> bool" where
  "no_bits B k p \<equiv> keeps (same_bits B k) p (\<lambda>_. True) (\<lambda>_. True)"

named_theorems frame \<open>operations that take no bits\<close>

lemma no_bits_basic [frame]:
  "no_bits B k (ret x)" "no_bits B k (throw e)" "no_bits B k (check b e)" "no_bits B k (gets f)" "no_bits B k (at xs i)"
  by (simp_all add: keeps_def ret_def throw_def check_def gets_def at_def)

lemma no_bits_bnd [frame]: "no_bits B k p \<Longrightarrow> (\<And>x. no_bits B k (f x)) \<Longrightarrow> no_bits B k (bnd p f)"
  by (rule keeps_bnd)

lemma no_bits_modify [frame]:
  "(\<And>s. bits (f s) = bits s \<and> bit_calls (f s) = bit_calls s) \<Longrightarrow> no_bits B k (modify f)"
  by (simp add: keeps_def modify_def)

lemma no_bits_mapM [frame]: "(\<And>x. no_bits B k (f x)) \<Longrightarrow> no_bits B k (mapM f xs)"
  by (induction xs) (auto intro!: frame)

lemma no_bits_if [frame]: "(b \<Longrightarrow> no_bits B k p) \<Longrightarrow> (\<not> b \<Longrightarrow> no_bits B k q) \<Longrightarrow> no_bits B k (if b then p else q)"
  by simp

lemma no_bits_add_openings [frame]: "no_bits B k (add_openings p vs msgs)"
  by (induction p vs msgs rule: add_openings.induct) (auto intro!: frame)

lemma no_bits_tree [frame]: "no_bits B k (tree_run p n base os mb vals)"
proof -
  have t: "no_bits B k (tree_sums p n base os l vals)" for p n base os l vals
    by (induction p n base os l vals rule: tree_sums.induct)
      (subst tree_sums.simps, auto simp: sum_round_def intro!: frame)
  have b: "no_bits B k (bcast_values mb tot r)" for mb tot r
    by (induction mb tot r rule: bcast_values.induct) (subst bcast_values.simps, auto intro!: frame)
  show ?thesis unfolding tree_run_def by (intro frame t b)
qed

lemma no_bits_opening [frame]:
  "no_bits B k (init_open c)" "no_bits B k (prepare_open S)" "no_bits B k (exchange c)" "no_bits B k (finalize_open c)"
proof -
  have c: "no_bits B k (Check c)" by (auto simp: keeps_def Check_def Let_def)
  show "no_bits B k (init_open c)" "no_bits B k (prepare_open S)"
    unfolding init_open_def prepare_open_def by (intro frame; simp)+
  show "no_bits B k (exchange c)"
    unfolding exchange_def add_to_values_def check_if_needed_def by (intro frame c; simp)
  show "no_bits B k (finalize_open c)" by (auto simp: keeps_def finalize_open_def Let_def)
qed

lemma no_bits_POpen [frame]: "no_bits B k (POpen c S)" "no_bits B k (reveal_v c S)"
  unfolding POpen_def POpen_Begin_def POpen_End_def reveal_v_def by (intro frame)+

lemma no_bits_prepare_muls [frame]: "no_bits B k (prepare_muls c xys b)"
proof -
  have g: "no_bits B k (get_triple c)" for c
    unfolding get_triple_def get_three_no_count_def buffer_triples_def by (intro frame; simp)
  show ?thesis
    by (induction c xys b rule: prepare_muls.induct) (auto simp: prepare_mul_def intro!: frame g)
qed

lemma no_bits_mul_v [frame]: "no_bits B k (mul_v c S T)"
proof -
  have f: "no_bits B k (finalize_mul c b)" for b
    unfolding finalize_mul_def Let_def by (intro frame)
  have fs: "no_bits B k (finalize_muls c n b)" for n b
    by (induction n arbitrary: b) (auto intro!: frame f split: prod.splits)
  show ?thesis unfolding mul_v_def mul_exchange_def by (intro frame fs)
qed

lemma no_bits_prefix_OR [frame]: "no_bits B k (prefix_OR c S n)"
proof (induction n arbitrary: S rule: less_induct)
  case (less n)
  have o: "no_bits B k (OR_inplace_v c S T n)" for S T n
    unfolding OR_inplace_v_def OR_v_def add_v_def by (intro frame)
  show ?case
  proof (cases "n = 0 \<or> n = 1")
    case True
    then show ?thesis by (subst prefix_OR.simps) (auto intro!: frame)
  next
    case False
    then have "no_bits B k (prefix_OR c T (n div 2))" "no_bits B k (prefix_OR c T (n - n div 2))" for T
      using less.IH by simp_all
    then show ?thesis using False by (subst prefix_OR.simps) (simp add: Let_def, intro frame o)
  qed
qed

lemma no_bits_lt_plain [frame]: "no_bits B k (lt_plain c S xs n)"
  unfolding lt_plain_def XOR_plain_v_def add_plain_v_def mul_plain_v_def lt_sum_def Let_def by (intro frame)

section \<open>Blocks of bits\<close>

definition draw :: "ctx \<Rightarrow> (mpc, jshare list) m" where
  "draw c = mapM (\<lambda>_. get_bit c) [0..<PSIZE]"

definition below :: "ctx \<Rightarrow> jshare list \<Rightarrow> bool" where
  "below c S \<longleftrightarrow> (\<exists>xs. bit_sharing c S xs \<and> length xs = PSIZE \<and> bits_value xs < pr c)"

text \<open>One of the next \<open>n\<close> blocks is below the prime; from no state on is there never one.\<close>

fun lucky :: "ctx \<Rightarrow> nat \<Rightarrow> mpc \<Rightarrow> bool" where
  "lucky c 0 s = False"
| "lucky c (Suc n) s = (case draw c s of Inl e \<Rightarrow> False | Inr (S, t) \<Rightarrow> below c S \<or> lucky c n t)"

definition fair :: "ctx \<Rightarrow> bool" where
  "fair c \<longleftrightarrow> (\<forall>s. good c s \<longrightarrow> (\<exists>n. lucky c n s))"

text \<open>What is drawn depends on the bits and the generator's position only.\<close>

lemma get_bit_same:
  assumes "bits s' = bits s" "bit_calls s' = bit_calls s"
  shows "case get_bit c s of Inl e \<Rightarrow> get_bit c s' = Inl e
    | Inr (b, t) \<Rightarrow> \<exists>t'. get_bit c s' = Inr (b, t') \<and> same_bits (bits t) (bit_calls t) t'"
  using assms by (auto simp: get_bit_def get_one_no_count_def buffer_bits_def monad_defs)

lemma draws_same:
  "bits s' = bits s \<Longrightarrow> bit_calls s' = bit_calls s \<Longrightarrow>
   case mapM (\<lambda>_. get_bit c) xs s of Inl e \<Rightarrow> mapM (\<lambda>_. get_bit c) xs s' = Inl e
    | Inr (S, t) \<Rightarrow> \<exists>t'. mapM (\<lambda>_. get_bit c) xs s' = Inr (S, t') \<and> same_bits (bits t) (bit_calls t) t'"
proof (induction xs arbitrary: s s')
  case Nil
  then show ?case by (simp add: ret_def)
next
  case (Cons x xs)
  show ?case
  proof (cases "get_bit c s")
    case (Inl e)
    then show ?thesis using get_bit_same [OF Cons.prems, of c] by (simp add: bnd_def)
  next
    case (Inr r)
    obtain b t where r: "r = (b, t)" by (cases r)
    from get_bit_same [OF Cons.prems, of c] obtain t' where t': "get_bit c s' = Inr (b, t')" "same_bits (bits t) (bit_calls t) t'"
      unfolding Inr r by auto
    note gs = Inr
    note ih = Cons.IH [of t' t, OF conjunct1 [OF t'(2)] conjunct2 [OF t'(2)]]
    show ?thesis
    proof (cases "mapM (\<lambda>_. get_bit c) xs t")
      case (Inl e)
      then show ?thesis using ih gs r t'(1) by (simp add: bnd_def)
    next
      case (Inr q)
      obtain S u where q: "q = (S, u)" by (cases q)
      from ih [unfolded Inr q sum.case prod.case] obtain u' where
        u': "mapM (\<lambda>_. get_bit c) xs t' = Inr (S, u')" "same_bits (bits u) (bit_calls u) u'" by blast
      have "mapM (\<lambda>_. get_bit c) (x # xs) s = Inr (b # S, u)" using gs Inr r q by (simp add: bnd_def ret_def)
      moreover have "mapM (\<lambda>_. get_bit c) (x # xs) s' = Inr (b # S, u')" using t'(1) u'(1) by (simp add: bnd_def ret_def)
      ultimately show ?thesis using u'(2) by (simp only: sum.case prod.case) blast
    qed
  qed
qed

lemma lucky_same: "bits s' = bits s \<Longrightarrow> bit_calls s' = bit_calls s \<Longrightarrow> lucky c n s \<Longrightarrow> lucky c n s'"
proof (induction n arbitrary: s s')
  case (Suc n)
  from Suc.prems(3) obtain S t where d: "draw c s = Inr (S, t)" "below c S \<or> lucky c n t"
    by (auto split: sum.splits)
  from draws_same [OF Suc.prems(1,2), of c "[0..<PSIZE]"] d(1)
  obtain t' where "draw c s' = Inr (S, t')" "same_bits (bits t) (bit_calls t) t'" unfolding draw_def by auto
  then show ?case using d(2) Suc.IH [of t' t] by auto
qed simp

lemma lucky_more: "lucky c n s \<Longrightarrow> lucky c (Suc n) s"
proof (induction n arbitrary: s)
  case (Suc n)
  then obtain S t where d: "draw c s = Inr (S, t)" "below c S \<or> lucky c n t" by (auto split: sum.splits)
  then have "below c S \<or> lucky c (Suc n) t" using Suc.IH by blast
  then show ?case by (subst lucky.simps(2)) (simp add: d(1) del: lucky.simps)
qed simp

section \<open>Programs that settle\<close>

text \<open>
  \<open>settles I p Q\<close>: a program with a bound on its attempts has, from every state that satisfies
  the invariant, one result for all bounds that are large enough.
\<close>

definition settles :: "('s \<Rightarrow> bool) \<Rightarrow> (nat \<Rightarrow> ('s, 'a) m) \<Rightarrow> ('a \<Rightarrow> bool) \<Rightarrow> bool" where
  "settles I p Q \<longleftrightarrow> (\<forall>s. I s \<longrightarrow> (\<exists>N x t. (\<forall>n\<ge>N. p n s = Inr (x, t)) \<and> I t \<and> Q x))"

lemma settles_runs: "runs I p Q \<Longrightarrow> settles I (\<lambda>_. p) Q"
  unfolding settles_def
proof (intro allI impI)
  fix s assume p: "runs I p Q" and s: "I s"
  obtain x t where "p s = Inr (x, t)" "I t" "Q x" using runs_returns [OF p s] by blast
  then show "\<exists>N x t. (\<forall>n\<ge>N. p s = Inr (x, t)) \<and> I t \<and> Q x" by auto
qed

lemma settles_bnd:
  assumes p: "settles I p P" and f: "\<And>x. P x \<Longrightarrow> settles I (\<lambda>n. f n x) Q"
  shows "settles I (\<lambda>n. bnd (p n) (f n)) Q"
  unfolding settles_def
proof (intro allI impI)
  fix s assume "I s"
  with p obtain N x t where x: "\<forall>n\<ge>N. p n s = Inr (x, t)" "I t" "P x" unfolding settles_def by blast
  with f [of x] obtain M y u where y: "\<forall>n\<ge>M. f n x t = Inr (y, u)" "I u" "Q y" unfolding settles_def by blast
  have "\<forall>n\<ge>max N M. bnd (p n) (f n) s = Inr (y, u)" using x(1) y(1) by (simp add: bnd_def)
  then show "\<exists>N x t. (\<forall>n\<ge>N. bnd (p n) (f n) s = Inr (x, t)) \<and> I t \<and> Q x" using y(2,3) by blast
qed

lemma settles_post: "settles I p P \<Longrightarrow> (\<And>x. P x \<Longrightarrow> Q x) \<Longrightarrow> settles I p Q"
  unfolding settles_def by blast

section \<open>The rejection loop\<close>

lemma lucky_returns:
  assumes c: "wf c" and p: "pr c < 2 ^ PSIZE"
  shows "good c s \<Longrightarrow> lucky c n s \<Longrightarrow>
    \<exists>r t. pre_rand_loop c n (int_bits PSIZE (pr c)) s = Inr (r, t) \<and> good c t \<and> rand_ok c r"
proof (induction n arbitrary: s)
  case (Suc n)
  let ?X = "pre_rand_loop c n (int_bits PSIZE (pr c))" and ?pb = "int_bits PSIZE (pr c)"
  let ?R = "\<lambda>S. bnd (lt_plain c S ?pb PSIZE) (\<lambda>flag. bnd (reveal_v c [flag]) (\<lambda>pflag. bnd (at pflag 0) (\<lambda>pflag0.
     if pflag0 = 1 then bnd (B2A c S PSIZE) (\<lambda>r. ret (r, S)) else ?X)))"
  from Suc.prems(2) obtain S t where d: "draw c s = Inr (S, t)" "below c S \<or> lucky c n t"
    by (auto split: sum.splits)
  have e: "pre_rand_loop c (Suc n) ?pb s = ?R S t"
    using d(1) unfolding draw_def pre_rand_loop.simps by (simp add: bnd_def [of "mapM _ _"])
  from runs_returns [OF runs_get_bits [OF c, of PSIZE] Suc.prems(1)] d(1)
  obtain xs where t: "good c t" and xs: "bit_sharing c S xs" "length xs = PSIZE" unfolding draw_def by auto
  show ?case
  proof (cases "below c S")
    case True
    then obtain ys where "bit_sharing c S ys" "length ys = PSIZE" "bits_value ys < pr c" unfolding below_def by blast
    then show ?thesis unfolding e using runs_returns [OF runs_pre_rand_attempt [OF c p] t] by metis
  next
    case False
    have S: "shs c S xs" "is_bits xs" using xs by (simp_all add: bit_sharing_def)
    have pv: "bits_value ?pb = pr c" using p wf_pr [OF c] by (simp add: bits_value_int_bits)
    have "\<not> bits_value xs < pr c" using False xs unfolding below_def by blast
    then have "runs (good c) (lt_plain c S ?pb PSIZE) (\<lambda>r. sh c r 0)"
      using runs_lt_plain [where E = "\<lambda>_. False", OF c S(1) plain_bits [OF c is_bits_int_bits [of PSIZE "pr c"]]
        xs(2) length_int_bits PSIZE_pos(1) S(2) is_bits_int_bits] by (simp add: pv)
    from runs_returns [OF this t] obtain flag u where u: "lt_plain c S ?pb PSIZE t = Inr (flag, u)" "good c u" "sh c flag 0" by blast
    have "runs (good c) (reveal_v c [flag]) (\<lambda>r. r = [0])" using runs_reveal_v [OF c, of "[flag]" "[0]"] u(3) by simp
    from runs_returns [OF this u(2)] obtain v where v: "reveal_v c [flag] u = Inr ([0], v)" "good c v" by blast
    have "same_bits (bits t) (bit_calls t) u"
      using no_bits_lt_plain [of "bits t" "bit_calls t" c S ?pb PSIZE] u(1) by (auto simp: keeps_def dest: spec [of _ t])
    moreover have "same_bits (bits u) (bit_calls u) v"
      using no_bits_POpen(2) [of "bits u" "bit_calls u" c "[flag]"] v(1) by (auto simp: keeps_def dest: spec [of _ u])
    ultimately have "lucky c n v" using lucky_same [of v t c n] d(2) False by simp
    moreover have "?R S t = ?X v" using u(1) v(1) by (simp add: bnd_def ret_def)
    ultimately show ?thesis unfolding e using Suc.IH [OF v(2)] by simp
  qed
qed simp

lemma settles_pre_rand:
  assumes c: "wf c" and p: "pr c < 2 ^ PSIZE" and f: "fair c"
  shows "settles (good c) (pre_rand c) (rand_ok c)"
  unfolding settles_def
proof (intro allI impI)
  fix s assume s: "good c s"
  then obtain N where "lucky c N s" using f unfolding fair_def by blast
  from lucky_returns [OF c p s this] obtain r t where
    r: "pre_rand_loop c N (int_bits PSIZE (pr c)) s = Inr (r, t)" "good c t" "rand_ok c r" by blast
  have "pre_rand c n s = Inr (r, t)" if "N \<le> n" for n
    using pre_rand_loop_more_fuel [OF r(1), of "n - N"] that c by (simp add: pre_rand_def PSIZE_pos)
  then show "\<exists>N x t. (\<forall>n\<ge>N. pre_rand c n s = Inr (x, t)) \<and> good c t \<and> rand_ok c x" using r(2,3) by blast
qed

lemma settles_A2B:
  assumes c: "wf c" and p: "pr c < 2 ^ PSIZE" and f: "fair c" and S: "sh c S x"
  shows "settles (good c) (\<lambda>n. A2B c n S) (\<lambda>r. shs c r (int_bits PSIZE (x mod pr c)))"
  unfolding A2B_def Let_def
proof (rule settles_bnd [OF settles_pre_rand [OF c p f]])
  fix rb assume "rand_ok c rb"
  then show "settles (good c) (\<lambda>n. case rb of (r, bitr) \<Rightarrow> bnd (reveal_v c [sub c S r]) (\<lambda>cp. bnd (at cp 0) (\<lambda>bcp.
      if bcp = 0 then ret bitr else A2B_masked c bitr bcp))) (\<lambda>r. shs c r (int_bits PSIZE (x mod pr c)))"
    using settles_runs [OF runs_A2B_rest [OF c p S]] by (cases rb) simp
qed

text \<open>C23: when the generator is fair, \<open>pre_rand\<close> ends: there is one result for all bounds that are
  large enough, a sharing of a number below the prime with sharings of its bits, and a
  smaller bound gives the same result or is used up.\<close>
theorem pre_rand_ends:
  assumes "wf c" "good c s" "pr c < 2 ^ PSIZE" "fair c"
  shows "\<exists>N r t. (\<forall>n\<ge>N. pre_rand c n s = Inr (r, t)) \<and> good c t \<and> rand_ok c r \<and>
    (\<forall>n. pre_rand c n s \<in> {Inl Out_of_fuel, Inr (r, t)})"
proof -
  obtain N r t where r: "\<forall>n\<ge>N. pre_rand c n s = Inr (r, t)" "good c t" "rand_ok c r"
    using settles_pre_rand [OF assms(1,3,4)] assms(2) unfolding settles_def by blast
  have "pre_rand c n s \<in> {Inl Out_of_fuel, Inr (r, t)}" for n
  proof (cases "pre_rand c n s")
    case (Inl e)
    have "keeps (good c) (pre_rand c n) (rand_ok c) (\<lambda>e. e = Out_of_fuel)" by (rule runs_pre_rand [OF assms(1,3)]) simp
    then show ?thesis using Inl assms(2) by (auto simp: keeps_def dest: spec [of _ s])
  next
    case (Inr q)
    then have "pre_rand c (n + N) s = Inr q"
      using pre_rand_loop_more_fuel [of c n _ s q N] assms(1) by (simp add: pre_rand_def PSIZE_pos)
    then show ?thesis using Inr r(1) by simp
  qed
  then show ?thesis using r by blast
qed

text \<open>C22: with a fair generator, \<open>A2B\<close> returns for all bounds that are large enough, always the same
  sharings of the 381 bits of the canonical value, whether or not the masked difference wraps
  around the prime.\<close>
theorem A2B_converts:
  assumes "wf c" "good c s" "pr c < 2 ^ PSIZE" "fair c" "sh c S x"
  shows "\<exists>N r t. (\<forall>n\<ge>N. A2B c n S s = Inr (r, t)) \<and> good c t \<and> shs c r (int_bits PSIZE (x mod pr c))"
  using settles_A2B [OF assms(1,3,4,5)] assms(2) unfolding settles_def by blast

section \<open>A fair generator\<close>

text \<open>The context of the examples with a generator that returns sharings of zero.\<close>

definition demo_fair :: ctx where
  "demo_fair = demo\<lparr>bit_gen := \<lambda>_. [demo_share 0]\<rparr>"

lemma demo_fair_simps [simp]:
  "pr demo_fair = 7" "alphas demo_fair = [3, 2]" "gcdext demo_fair = demo_gcdext" "legendre_sym demo_fair = demo_legendre"
  "num_players demo_fair = 2" "buffer_size demo_fair = 2" "bit_gen demo_fair = (\<lambda>_. [demo_share 0])"
  "triple_gen demo_fair = triple_gen demo" "input_gen demo_fair = input_gen demo" "sh demo_fair = sh demo"
  by (auto simp: demo_fair_def num_players_def sh_def alpha_def fun_eq_iff)

lemma demo_fair_same:
  "nonzero demo_fair = nonzero demo" "masks_nonzero demo_fair" "triple_ok demo_fair = triple_ok demo"
  "input_ok demo_fair = input_ok demo" "bit_ok demo_fair = bit_ok demo" "square_ok demo_fair = square_ok demo"
  "good demo_fair = good demo"
proof -
  show n: "nonzero demo_fair = nonzero demo" by (simp add: nonzero_def fun_eq_iff)
  have m: "masks_nonzero demo_fair \<longleftrightarrow> masks_nonzero demo" by (simp add: masks_nonzero_def n)
  then show "masks_nonzero demo_fair" by simp
  show t: "triple_ok demo_fair = triple_ok demo" by (simp add: triple_ok_def triple_is_def n m fun_eq_iff)
  show i: "input_ok demo_fair = input_ok demo" by (simp add: input_ok_def fun_eq_iff)
  show b: "bit_ok demo_fair = bit_ok demo" by (simp add: bit_ok_def fun_eq_iff)
  show q: "square_ok demo_fair = square_ok demo" by (simp add: square_ok_def n m fun_eq_iff)
  show "good demo_fair = good demo"
    by (simp add: good_def prep_inv_def mac_inv_def t i b q alpha_def fun_eq_iff)
qed

lemma demo_fair_wf [simp]: "wf demo_fair" "wf_prime demo_fair" "good demo_fair demo_state"
  using demo_wf demo_wf_prime demo_good
  by (simp_all add: wf_def wf_field_def wf_prime_def demo_fair_same bit_ok_def)

text \<open>A draw shortens the buffer; from an empty one it takes zeros.\<close>

lemma demo_fair_get_bit:
  "\<exists>t. get_bit demo_fair s = Inr (if bits s = [] then demo_share 0 else last (bits s), t) \<and> bits t = butlast (bits s)"
  by (auto simp: get_bit_def get_one_no_count_def buffer_bits_def monad_defs)

lemma demo_fair_draws:
  "\<exists>S t. mapM (\<lambda>_. get_bit demo_fair) xs s = Inr (S, t) \<and> length (bits t) = length (bits s) - length xs \<and>
    (bits s = [] \<longrightarrow> S = replicate (length xs) (demo_share 0))"
proof (induction xs arbitrary: s)
  case Nil
  then show ?case by (simp add: ret_def)
next
  case (Cons x xs)
  obtain t where t: "get_bit demo_fair s = Inr (if bits s = [] then demo_share 0 else last (bits s), t)" "bits t = butlast (bits s)"
    using demo_fair_get_bit by blast
  obtain S u where u: "mapM (\<lambda>_. get_bit demo_fair) xs t = Inr (S, u)" "length (bits u) = length (bits t) - length xs"
      "bits t = [] \<longrightarrow> S = replicate (length xs) (demo_share 0)" using Cons.IH [of t] by blast
  have "mapM (\<lambda>_. get_bit demo_fair) (x # xs) s = Inr ((if bits s = [] then demo_share 0 else last (bits s)) # S, u)"
    using t(1) u(1) by (simp add: bnd_def ret_def)
  then show ?case using t(2) u(2,3) by simp
qed

lemma below_zeros: "below demo_fair (replicate PSIZE (demo_share 0))"
proof -
  have "bits_value (replicate n 0) = 0" for n by (induction n) simp_all
  then show ?thesis
    unfolding below_def by (intro exI [of _ "replicate PSIZE 0"]) (simp add: bit_sharing_def is_bits_def list_all2_conv_all_nth)
qed

lemma demo_fair_fair [simp]: "fair demo_fair"
proof -
  have "lucky demo_fair (Suc (length (bits s))) s" for s
  proof (induction "length (bits s)" arbitrary: s rule: less_induct)
    case less
    obtain S t where d: "draw demo_fair s = Inr (S, t)" "length (bits t) = length (bits s) - PSIZE"
        "bits s = [] \<longrightarrow> S = replicate PSIZE (demo_share 0)"
      using demo_fair_draws [of "[0..<PSIZE]" s] unfolding draw_def by auto
    show ?case
    proof (cases "bits s = []")
      case True
      then show ?thesis using d below_zeros by simp
    next
      case False
      have l: "length (bits t) < length (bits s)" using d(2) False PSIZE_pos(1) by simp
      then have "lucky demo_fair (Suc (length (bits t)) + k) t" for k
        using less.hyps [OF l] lucky_more by (induction k) (simp_all del: lucky.simps)
      then have "lucky demo_fair (length (bits s)) t" using l by (metis Suc_leI le_add_diff_inverse)
      then show ?thesis using d(1) by simp
    qed
  qed
  then show ?thesis unfolding fair_def by blast
qed

theorem pre_rand_ends_witness:
  "\<exists>N r t. (\<forall>n\<ge>N. pre_rand demo_fair n demo_state = Inr (r, t)) \<and> rand_ok demo_fair r"
  using pre_rand_ends [OF demo_fair_wf(1,3) _ demo_fair_fair] by (auto simp: PSIZE_def)

theorem A2B_converts_witness:
  "\<exists>N r t. (\<forall>n\<ge>N. A2B demo_fair n (demo_share 5) demo_state = Inr (r, t)) \<and> shs demo r (int_bits PSIZE 5)"
  using A2B_converts [OF demo_fair_wf(1,3) _ demo_fair_fair, of "demo_share 5" 5] by (auto simp: PSIZE_def)

end
