(* ===== verification/RunPoc.thy ===== *)
theory RunPoc
  imports Signature Custody Attempts
begin

text \<open>
  The stages of the protocol: the class \<open>RunPOC\<close> of \<open>POC/RunPoc.hpp\<close> and the functions of
  \<open>POC/poc.hpp\<close> that hand over to the signature scheme. A stage over the first prime runs in
  a context \<open>c\<close>, one over the second prime in a context \<open>d\<close>.
\<close>

section \<open>Stages\<close>

definition poc_setup :: "('g1, 'g2, 'gt) mcl \<Rightarrow> (octet list \<Rightarrow> octet list) \<Rightarrow> int \<Rightarrow> int list \<Rightarrow> octet list \<Rightarrow> nat \<Rightarrow>
    nat \<Rightarrow> kg_msg list \<Rightarrow> ('g1, 'g2) bls \<Rightarrow> err + ('g1, 'g2) bls" where
  "poc_setup M H s rnd crnd n me msgs bls = dstb_keygen M H s rnd crnd n me msgs bls"

definition poc_compute_ephem_key :: "ctx \<Rightarrow> ('g1, 'g2, 'gt) mcl \<Rightarrow> 'g2 g2_text \<Rightarrow> octet list \<Rightarrow> ('g1, 'g2) bls list \<Rightarrow>
    (mpc, ('g1, 'g2) bls list \<times> jcx affine) m" where
  "poc_compute_ephem_key c M T msg bls = dstb_sign c M T msg bls"

definition run_poc_setup :: "('g1, 'g2, 'gt) mcl \<Rightarrow> (octet list \<Rightarrow> octet list) \<Rightarrow> int \<Rightarrow> int list \<Rightarrow> octet list \<Rightarrow> nat \<Rightarrow>
    nat \<Rightarrow> kg_msg list \<Rightarrow> ('g1, 'g2) bls \<Rightarrow> err + ('g1, 'g2) bls" where
  "run_poc_setup M H s rnd crnd n me msgs bls = poc_setup M H s rnd crnd n me msgs bls"

text \<open>The ephemeral key is the abscissa of the signature, moved to the second prime bit by bit.\<close>

definition run_poc_compute_ephem_key_2primes_phase_one :: "ctx \<Rightarrow> ('g1, 'g2, 'gt) mcl \<Rightarrow> 'g2 g2_text \<Rightarrow> nat \<Rightarrow> octet list \<Rightarrow> ('g1, 'g2) bls list \<Rightarrow>
    int list list \<Rightarrow> (mpc, ('g1, 'g2) bls list \<times> int list list \<times> int list) m" where
  "run_poc_compute_ephem_key_2primes_phase_one c M T fuel msg bls rnds =
     bnd (poc_compute_ephem_key c M T msg bls) (\<lambda>(bls, ac).
     let ek_tmp = [cx_real (aff_x ac), cx_imag (aff_x ac)] in
     bnd (shared_rand_bits_phase_one c rnds) (\<lambda>(shared_bits, local_bits).
     bnd (decompose_and_reveal c fuel ek_tmp shared_bits) (\<lambda>reveal_bits.
     ret (bls, local_bits, reveal_bits))))"

definition run_poc_compute_ephem_key_2primes_phase_two :: "ctx \<Rightarrow> int list list \<Rightarrow> int list \<Rightarrow> (mpc, jshare list) m" where
  "run_poc_compute_ephem_key_2primes_phase_two d local_bits reveal_bits =
     bnd (shared_rand_bits_phase_two d local_bits) (\<lambda>shared_bits.
     xor_and_combine d shared_bits reveal_bits)"

definition run_poc_compute_custody_bit_offline_2primes :: "ctx \<Rightarrow> jshare list \<Rightarrow> jshare list \<Rightarrow> (mpc, jshare list) m" where
  "run_poc_compute_custody_bit_offline_2primes d pre_key keys = poc_compute_custody_bit_offline_2primes d pre_key keys"

definition run_poc_compute_custody_bit_online_2primes :: "ctx \<Rightarrow> jshare list \<Rightarrow> jshare \<Rightarrow> int list \<Rightarrow> (mpc, int) m" where
  "run_poc_compute_custody_bit_online_2primes d pre_key key msg = poc_compute_custody_bit_online_2primes d pre_key key msg"

section \<open>The ephemeral key\<close>

lemma coords_in_field:
  assumes "wf c"
  shows "gre (pt_x c T P) mod pr c = gre (pt_x c T P)" "gim (pt_x c T P) mod pr c = gim (pt_x c T P)"
  using plain_point_ok(1) [OF assms, of T P] by (simp_all add: cx_plain_ok_def cx_val_def in_field_id)

lemma settles_decompose:
  assumes c: "wf c" "pr c < 2 ^ PSIZE" "fair c" and K: "shs c keys [x, y]" and S: "bit_sharing c S bs" "length bs = 2 * PSIZE"
  shows "settles (good c) (\<lambda>n. decompose_and_reveal c n keys S) (\<lambda>r. r = map2 xor_val (key_bits (pr c) x y) bs)"
proof -
  have k: "sh c (keys ! 0) x" "sh c (keys ! 1) y" "length keys = 2" "length S = 2 * PSIZE"
    using K shs_length [OF K] S shs_length [of c S bs] by (auto simp: list_all2_Cons2 bit_sharing_def)
  show ?thesis
    unfolding decompose_and_reveal_def Let_def
    by (rule settles_bnd [OF settles_runs [OF keeps_check]], use k(3,4) in simp,
        rule settles_bnd [OF settles_A2B [OF c k(1)]],
        rule settles_bnd [OF settles_A2B [OF c k(2)]],
        rule settles_runs [OF runs_mask_and_reveal [OF c(1) S]])
qed

lemma settles_phase_one:
  assumes c: "wf c" "pr c < 2 ^ PSIZE" "fair c"
    and s: "runs (good c) (dstb_sign c M T msg keys) (\<lambda>r. fst r = sigs \<and> pt_sh c T (snd r) sigma)"
    and r: "length rnds = num_players c" "\<forall>rnd \<in> set rnds. 96 \<le> length rnd"
  shows "settles (good c) (\<lambda>n. run_poc_compute_ephem_key_2primes_phase_one c M T n msg keys rnds)
    (\<lambda>(bls, lbs, rb). bls = sigs \<and> bit_vectors c lbs \<and>
      rb = map2 xor_val (key_bits (pr c) (gre (pt_x c T sigma)) (gim (pt_x c T sigma))) (map (parity_at lbs) [0..<2 * PSIZE]))"
  unfolding run_poc_compute_ephem_key_2primes_phase_one_def poc_compute_ephem_key_def
proof (rule settles_bnd [OF settles_runs [OF s]])
  fix r0 assume r0: "fst r0 = sigs \<and> pt_sh c T (snd r0) sigma"
  obtain bls ac where x: "r0 = (bls, ac)" by (cases r0)
  let ?Q = "\<lambda>(bls, lbs, rb). bls = sigs \<and> bit_vectors c lbs \<and>
      rb = map2 xor_val (key_bits (pr c) (gre (pt_x c T sigma)) (gim (pt_x c T sigma))) (map (parity_at lbs) [0..<2 * PSIZE])"
  let ?K = "[cx_real (aff_x ac), cx_imag (aff_x ac)]"
  from r0 have b: "bls = sigs" and K: "shs c ?K [gre (pt_x c T sigma), gim (pt_x c T sigma)]"
    by (simp_all add: x aff_rep_def cx_sh_def)
  have "settles (good c) (\<lambda>n. bnd (shared_rand_bits_phase_one c rnds) (\<lambda>y. case y of (S, lbs) \<Rightarrow>
      bnd (decompose_and_reveal c n ?K S) (\<lambda>rb. ret (bls, lbs, rb)))) ?Q"
  proof (rule settles_bnd [OF settles_runs [OF runs_phase_one [OF c(1) r]]])
    fix y assume y: "case y of (S, lbs) \<Rightarrow> bit_vectors c lbs \<and> bit_sharing c S (map (parity_at lbs) [0..<2 * PSIZE])"
    obtain S lbs where y': "y = (S, lbs)" by (cases y)
    from y have l: "bit_vectors c lbs" and S: "bit_sharing c S (map (parity_at lbs) [0..<2 * PSIZE])"
      unfolding y' by simp_all
    have "settles (good c) (\<lambda>n. bnd (decompose_and_reveal c n ?K S) (\<lambda>rb. ret (bls, lbs, rb))) ?Q"
      by (rule settles_bnd [OF settles_decompose [OF c K S]], simp, rule settles_runs, rule keeps_ret) (use b l in simp)
    then show "settles (good c) (\<lambda>n. case y of (S, lbs) \<Rightarrow> bnd (decompose_and_reveal c n ?K S) (\<lambda>rb. ret (bls, lbs, rb))) ?Q"
      unfolding y' by simp
  qed
  then show "settles (good c) (\<lambda>n. case r0 of (bls, ac) \<Rightarrow> let ek_tmp = [cx_real (aff_x ac), cx_imag (aff_x ac)] in
      bnd (shared_rand_bits_phase_one c rnds) (\<lambda>(shared_bits, local_bits).
      bnd (decompose_and_reveal c n ek_tmp shared_bits) (\<lambda>reveal_bits.
      ret (bls, local_bits, reveal_bits)))) ?Q"
    unfolding x by (simp add: Let_def)
qed

text \<open>The second phase, for the masked bits of two numbers.\<close>

lemma runs_phase_two:
  assumes d: "wf d" and l: "bit_vectors d lbs" and p: "1 < p" "p < 2 ^ PSIZE"
  shows "runs (good d) (run_poc_compute_ephem_key_2primes_phase_two d lbs (map2 xor_val (key_bits p x y) (map (parity_at lbs) [0..<2 * PSIZE])))
    (\<lambda>r. \<exists>vs. shs d r vs \<and> length vs = 3 \<and> (\<forall>v \<in> set vs. 0 \<le> v \<and> v < 2 ^ QSIZE) \<and>
      vs ! 0 + 2 ^ QSIZE * vs ! 1 + 2 ^ (QSIZE + QSIZE) * vs ! 2 = x mod p + 2 ^ PSIZE * (y mod p))"
proof -
  let ?kb = "key_bits p x y" and ?bs = "map (parity_at lbs) [0..<2 * PSIZE]"
  let ?vs = "map (\<lambda>i. bits_value (take QSIZE (drop (i * QSIZE) ?kb))) [0..<3]"
  have len: "length ?bs = 2 * PSIZE" by simp
  have "runs (good d) (run_poc_compute_ephem_key_2primes_phase_two d lbs (map2 xor_val ?kb ?bs)) (\<lambda>r. shs d r ?vs)"
    unfolding run_poc_compute_ephem_key_2primes_phase_two_def
    by (rule keeps_bnd [OF runs_shared_rand_bits [OF d l]],
        rule runs_xor_and_combine [OF d _ len is_bits_key_bits length_key_bits])
  moreover have "\<forall>v \<in> set ?vs. 0 \<le> v \<and> v < 2 ^ QSIZE"
    unfolding set_map by (intro ballI, elim imageE) (simp only: chunk_bounds [OF is_bits_key_bits])
  moreover have "?vs ! 0 + 2 ^ QSIZE * ?vs ! 1 + 2 ^ (QSIZE + QSIZE) * ?vs ! 2 = x mod p + 2 ^ PSIZE * (y mod p)"
  proof -
    have three: "[0..<3] = [0, 1, 2]" by (simp add: upt_rec)
    have "length ?kb = QSIZE + QSIZE + QSIZE" using sizes(1) by simp
    from bits_value_chunks [OF this] show ?thesis
      unfolding bits_value_key_bits [OF p] three by (simp add: mult_2)
  qed
  moreover have "length ?vs = 3" by simp
  ultimately show ?thesis using runs_post by (smt (verit, best))
qed

text \<open>C2: from the keys to the ephemeral key. The parties sign the message together, and the
  coordinates of the abscissa of the signature move to the second prime: the result are
  sharings of the three 254-bit limbs of the number that the two coordinates form, of the one
  signature that verifies. With a fair generator the run ends, for all bounds that are large
  enough.\<close>
theorem ephem_key_of_signature:
  assumes "wf c" "wf_prime c" "masks_nonzero c" "fair c" "pr c < 2 ^ PSIZE" "good c s" "mcl_ok M" "coords_ok c M T"
    and "length F \<le> num_players c" "int (num_players c) < m_r M" "length keys = num_players c"
    and "\<forall>p < num_players c. bl_sk (keys ! p) = poly_value F (int (p + 1)) mod m_r M \<and>
      bl_vk (keys ! p) = g1_mul M (g1_base M) (poly_value F 0)"
    and "length sigs = num_players c" "\<forall>p < num_players c. partial_sign M msg (num_players c) keys p = Inr (sigs ! p)"
    and "\<forall>p < num_players c. finite_pt M (bl_sigma (sigs ! p))" "distinct_abscissas c M T sigs"
    and "length rnds = num_players c" "\<forall>rnd \<in> set rnds. 96 \<le> length rnd"
    and "wf d" "good d u" "num_players d = num_players c"
  shows "\<exists>sigma N lbs rb t ek u' vs. (\<forall>p < num_players c. \<forall>P. bls_verify M P msg (keys ! p) = 1 \<longleftrightarrow> P = sigma) \<and>
    (\<forall>n\<ge>N. run_poc_compute_ephem_key_2primes_phase_one c M T n msg keys rnds s = Inr ((sigs, lbs, rb), t)) \<and> good c t \<and>
    run_poc_compute_ephem_key_2primes_phase_two d lbs rb u = Inr (ek, u') \<and> good d u' \<and>
    shs d ek vs \<and> length vs = 3 \<and> (\<forall>v \<in> set vs. 0 \<le> v \<and> v < 2 ^ QSIZE) \<and>
    vs ! 0 + 2 ^ QSIZE * vs ! 1 + 2 ^ (QSIZE + QSIZE) * vs ! 2 = gre (pt_x c T sigma) + 2 ^ PSIZE * gim (pt_x c T sigma)"
proof -
  let ?x = "pt_x c T (aggregate M sigs)"
  note v = aggregate_verifies [OF assms(7,9) wf_players [OF assms(1)] assms(10-14)]
  have sign: "runs (good c) (dstb_sign c M T msg keys) (\<lambda>r. fst r = sigs \<and> pt_sh c T (snd r) (aggregate M sigs))"
    by (rule keeps_conseq [OF runs_dstb_sign [OF assms(1-3,8) wf_players [OF assms(1)] assms(13-15)]]) (use assms(16) in auto)
  from settles_phase_one [OF assms(1,5,4) sign assms(17,18)] assms(6)
  obtain N r t where r: "\<forall>n\<ge>N. run_poc_compute_ephem_key_2primes_phase_one c M T n msg keys rnds s = Inr (r, t)" "good c t"
      "case r of (bls, lbs, rb) \<Rightarrow> bls = sigs \<and> bit_vectors c lbs \<and>
        rb = map2 xor_val (key_bits (pr c) (gre ?x) (gim ?x)) (map (parity_at lbs) [0..<2 * PSIZE])"
    unfolding settles_def by blast
  obtain bls lbs rb where r': "r = (bls, lbs, rb)" by (cases r)
  from r(3) have b: "bls = sigs" "bit_vectors c lbs"
    and rb: "rb = map2 xor_val (key_bits (pr c) (gre ?x) (gim ?x)) (map (parity_at lbs) [0..<2 * PSIZE])"
    unfolding r' by simp_all
  have "bit_vectors d lbs" using b(2) assms(21) by (simp add: bit_vectors_def)
  from runs_returns [OF runs_phase_two [OF assms(19) this wf_pr [OF assms(1)] assms(5), of "gre ?x" "gim ?x"] assms(20)]
  obtain ek u' vs where e: "run_poc_compute_ephem_key_2primes_phase_two d lbs rb u = Inr (ek, u')" "good d u'" "shs d ek vs" "length vs = 3"
      "\<forall>v \<in> set vs. 0 \<le> v \<and> v < 2 ^ QSIZE"
      "vs ! 0 + 2 ^ QSIZE * vs ! 1 + 2 ^ (QSIZE + QSIZE) * vs ! 2 = gre ?x + 2 ^ PSIZE * gim ?x"
    unfolding rb coords_in_field [OF assms(1)] by blast
  show ?thesis
    by (rule exI [of _ "aggregate M sigs"], intro exI conjI)
      (use v r(1,2) e in \<open>simp_all add: r' b(1)\<close>)
qed

text \<open>The example with the fair generator: only the prime of the context matters for the points.\<close>

lemma demo_fair_points:
  "coords_ok demo_fair demo_mcl demo_text" "distinct_abscissas demo_fair demo_mcl demo_text demo_sigs"
proof -
  have e: "cx_unit demo_fair = cx_unit demo" "gcong demo_fair = gcong demo"
    by (simp_all add: cx_unit_def gcong_def fun_eq_iff)
  show "coords_ok demo_fair demo_mcl demo_text"
    using demo_coords_ok unfolding coords_ok_def e demo_fair_simps(1) demo_simps(1) .
  show "distinct_abscissas demo_fair demo_mcl demo_text demo_sigs"
    using demo_signature(8) unfolding distinct_abscissas_def e demo_fair_simps(1) demo_simps(1) .
qed

theorem ephem_key_of_signature_witness:
  "\<exists>sigma N lbs rb t ek u' vs. bls_verify demo_mcl sigma [1] (demo_keys ! 0) = 1 \<and>
    (\<forall>n\<ge>N. run_poc_compute_ephem_key_2primes_phase_one demo_fair demo_mcl demo_text n [1] demo_keys [replicate 96 5, replicate 96 200] demo_state =
      Inr ((demo_sigs, lbs, rb), t)) \<and>
    run_poc_compute_ephem_key_2primes_phase_two demo lbs rb demo_state = Inr (ek, u') \<and> shs demo ek vs \<and> length vs = 3"
proof -
  have n: "num_players demo_fair = 2" "num_players demo = 2" "(0::nat) < 2" by simp_all
  have p: "pr demo_fair < 2 ^ PSIZE" by (simp add: PSIZE_def)
  have r: "length [replicate 96 5, replicate 96 (200::int)] = 2" "\<forall>rnd \<in> set [replicate 96 5, replicate 96 (200::int)]. 96 \<le> length rnd"
    by simp_all
  note d = demo_signature
  have "\<exists>sigma N lbs rb t ek u' vs. (\<forall>p < num_players demo_fair. \<forall>P. bls_verify demo_mcl P [1] (demo_keys ! p) = 1 \<longleftrightarrow> P = sigma) \<and>
    (\<forall>n\<ge>N. run_poc_compute_ephem_key_2primes_phase_one demo_fair demo_mcl demo_text n [1] demo_keys [replicate 96 5, replicate 96 200] demo_state =
      Inr ((demo_sigs, lbs, rb), t)) \<and> good demo_fair t \<and>
    run_poc_compute_ephem_key_2primes_phase_two demo lbs rb demo_state = Inr (ek, u') \<and> good demo u' \<and>
    shs demo ek vs \<and> length vs = 3 \<and> (\<forall>v \<in> set vs. 0 \<le> v \<and> v < 2 ^ QSIZE) \<and>
    vs ! 0 + 2 ^ QSIZE * vs ! 1 + 2 ^ (QSIZE + QSIZE) * vs ! 2 =
      gre (pt_x demo_fair demo_text sigma) + 2 ^ PSIZE * gim (pt_x demo_fair demo_text sigma)"
    by (rule ephem_key_of_signature [where F = "[1, 1]", OF demo_fair_wf(1,2) demo_fair_same(2) demo_fair_fair p demo_fair_wf(3)
          demo_mcl_ok demo_fair_points(1)])
      (unfold n(1,2), (rule d demo_fair_points(2) r demo_wf demo_good refl)+)
  then show ?thesis unfolding n(1) using n(3) by blast
qed

end
