(* ===== verification/Stages.thy ===== *)
theory Stages
  imports RunPoc
begin

text \<open>
  The main programs \<open>Source/poc_main.cpp\<close> and \<open>Source/poc_main2fork.cpp\<close>: the stages one after the
  other, and the hand-over of the bits between the two processes of the second program through
  the message queue of \<open>Source/ipc_msg.h\<close>.
\<close>

section \<open>The stages in order\<close>

definition get_nonce :: "octet list" where
  "get_nonce = [49, 50, 51, 52, 53, 54]"

definition get_msg :: "int \<Rightarrow> nat \<Rightarrow> int list" where
  "get_msg p n = map (\<lambda>i. to_gfp p (int i * 2)) [0..<n]"

text \<open>Stages 2-1 to 2-3: \<open>runs\<close> custody bits are computed for one key.\<close>

definition stage_two :: "ctx \<Rightarrow> nat \<Rightarrow> int list list \<Rightarrow> int list \<Rightarrow> (mpc, int list) m" where
  "stage_two d rounds local_bits reveal_bits =
     bnd (run_poc_compute_ephem_key_2primes_phase_two d local_bits reveal_bits) (\<lambda>ek.
     bnd (run_poc_compute_custody_bit_offline_2primes d [] ek) (\<lambda>pre_key.
     bnd (at ek 0) (\<lambda>ek0.
     mapM (\<lambda>_. run_poc_compute_custody_bit_online_2primes d pre_key ek0 (get_msg (pr d) CHUNK_NUM)) [0..<rounds])))"

text \<open>All stages in one process, which \<open>poc_main\<close> does, after the key generation; at the end all openings are checked.\<close>

definition poc_main_run :: "ctx \<Rightarrow> ('g1, 'g2, 'gt) mcl \<Rightarrow> 'g2 g2_text \<Rightarrow> nat \<Rightarrow> nat \<Rightarrow> ('g1, 'g2) bls list \<Rightarrow> int list list \<Rightarrow> (mpc, int list) m" where
  "poc_main_run c M T fuel rounds bls rnds =
     bnd (run_poc_compute_ephem_key_2primes_phase_one c M T fuel get_nonce bls rnds) (\<lambda>(_, local_bits, reveal_bits).
     bnd (stage_two c rounds local_bits reveal_bits) (\<lambda>res.
     bnd (Check c) (\<lambda>_. ret res)))"

lemma get_msg_plain: "1 < p \<Longrightarrow> plain_v c (get_msg p n) = (\<forall>i < n. in_field (pr c) ((int i * 2) mod p))"
  by (auto simp: plain_v_def get_msg_def to_gfp_mod)

lemma length_get_msg [simp]: "length (get_msg p n) = n"
  by (simp add: get_msg_def)

text \<open>What the second process computes from the masked bits of two numbers.\<close>

definition limbs_of :: "int \<Rightarrow> int \<Rightarrow> int list \<Rightarrow> bool" where
  "limbs_of x y vs \<longleftrightarrow> length vs = 3 \<and> (\<forall>v \<in> set vs. 0 \<le> v \<and> v < 2 ^ QSIZE) \<and>
     vs ! 0 + 2 ^ QSIZE * vs ! 1 + 2 ^ (QSIZE + QSIZE) * vs ! 2 = x + 2 ^ PSIZE * y"

definition custody_bit_of :: "ctx \<Rightarrow> int list \<Rightarrow> int" where
  "custody_bit_of d vs = prf_any d (vs ! 0 + uhf_value vs (get_msg (pr d) CHUNK_NUM)) 10"

lemma runs_stage_two:
  assumes d: "wf d" "wf_prime d" "legendre_spec d" "masks_nonzero d" and l: "bit_vectors d lbs" and p: "1 < p" "p < 2 ^ PSIZE"
  shows "runs (good d) (stage_two d rounds lbs (map2 xor_val (key_bits p x y) (map (parity_at lbs) [0..<2 * PSIZE])))
    (\<lambda>r. \<exists>vs. limbs_of (x mod p) (y mod p) vs \<and> r = replicate rounds (custody_bit_of d vs))"
  unfolding stage_two_def run_poc_compute_custody_bit_offline_2primes_def run_poc_compute_custody_bit_online_2primes_def
proof (rule keeps_bnd [OF runs_phase_two [OF d(1) l p]])
  fix ek assume "\<exists>vs. shs d ek vs \<and> length vs = 3 \<and> (\<forall>v \<in> set vs. 0 \<le> v \<and> v < 2 ^ QSIZE) \<and>
      vs ! 0 + 2 ^ QSIZE * vs ! 1 + 2 ^ (QSIZE + QSIZE) * vs ! 2 = x mod p + 2 ^ PSIZE * (y mod p)"
  then obtain vs where vs: "shs d ek vs" "limbs_of (x mod p) (y mod p) vs" by (auto simp: limbs_of_def)
  have l3: "length vs = 3" "length ek = 3" using vs shs_length [OF vs(1)] by (simp_all add: limbs_of_def)
  have k: "sh d (ek ! 0) (vs ! 0)" using vs(1) l3 by (simp add: list_all2_conv_all_nth)
  have m: "plain_v d (get_msg (pr d) CHUNK_NUM)" using wf_pr [OF d(1)] by (simp add: get_msg_plain in_field_def)
  let ?bit = "\<lambda>pre_key. poc_compute_custody_bit_online_2primes d pre_key (ek ! 0) (get_msg (pr d) CHUNK_NUM)"
  have bits: "runs (good d) (mapM (\<lambda>_. ?bit pre) [0..<rounds]) (\<lambda>r. r = replicate rounds (custody_bit_of d vs))"
    if pre: "pre_key_ok d vs pre" for pre
  proof (rule runs_post)
    show "runs (good d) (mapM (\<lambda>_. ?bit pre) [0..<rounds]) (\<lambda>ys. list_all2 (\<lambda>_ r. r = custody_bit_of d vs) [0..<rounds] ys)"
      by (rule keeps_mapM, rule keeps_conseq [OF runs_custody_online_2primes [OF d(1-3) pre k m]])
        (use d(4) in \<open>auto simp: custody_bit_of_def\<close>)
    fix ys :: "int list" assume "list_all2 (\<lambda>_ r. r = custody_bit_of d vs) [0..<rounds] ys"
    then show "ys = replicate rounds (custody_bit_of d vs)" by (auto simp: list_all2_conv_all_nth intro: nth_equalityI)
  qed
  have "runs (good d) (bnd (poc_compute_custody_bit_offline_2primes d [] ek) (\<lambda>pre_key. bnd (at ek 0) (\<lambda>ek0.
      mapM (\<lambda>_. poc_compute_custody_bit_online_2primes d pre_key ek0 (get_msg (pr d) CHUNK_NUM)) [0..<rounds])))
    (\<lambda>r. r = replicate rounds (custody_bit_of d vs))"
    by (rule keeps_bnd [OF runs_custody_offline_2primes [OF d(1) vs(1) l3(1)]]) (use l3 bits in simp)
  then show "runs (good d) (bnd (poc_compute_custody_bit_offline_2primes d [] ek) (\<lambda>pre_key. bnd (at ek 0) (\<lambda>ek0.
      mapM (\<lambda>_. poc_compute_custody_bit_online_2primes d pre_key ek0 (get_msg (pr d) CHUNK_NUM)) [0..<rounds])))
    (\<lambda>r. \<exists>vs. limbs_of (x mod p) (y mod p) vs \<and> r = replicate rounds (custody_bit_of d vs))"
    by (rule runs_post) (use vs(2) in blast)
qed

lemma settles_main_run:
  assumes c: "wf c" "wf_prime c" "legendre_spec c" "masks_nonzero c" "fair c" "pr c < 2 ^ PSIZE"
    and s: "runs (good c) (dstb_sign c M T get_nonce keys) (\<lambda>r. fst r = sigs \<and> pt_sh c T (snd r) sigma)"
    and r: "length rnds = num_players c" "\<forall>rnd \<in> set rnds. 96 \<le> length rnd"
  shows "settles (good c) (\<lambda>n. poc_main_run c M T n rounds keys rnds)
    (\<lambda>r. \<exists>vs. limbs_of (gre (pt_x c T sigma)) (gim (pt_x c T sigma)) vs \<and> r = replicate rounds (custody_bit_of c vs))"
  unfolding poc_main_run_def
proof (rule settles_bnd [OF settles_phase_one [OF c(1,6,5) s r]])
  fix q assume q: "case q of (bls, lbs, rb) \<Rightarrow> bls = sigs \<and> bit_vectors c lbs \<and>
      rb = map2 xor_val (key_bits (pr c) (gre (pt_x c T sigma)) (gim (pt_x c T sigma))) (map (parity_at lbs) [0..<2 * PSIZE])"
  obtain bls lbs rb where q': "q = (bls, lbs, rb)" by (cases q)
  from q have l: "bit_vectors c lbs" and rb: "rb = map2 xor_val (key_bits (pr c) (gre (pt_x c T sigma)) (gim (pt_x c T sigma))) (map (parity_at lbs) [0..<2 * PSIZE])"
    unfolding q' by simp_all
  let ?Q = "\<lambda>r. \<exists>vs. limbs_of (gre (pt_x c T sigma)) (gim (pt_x c T sigma)) vs \<and> r = replicate rounds (custody_bit_of c vs)"
  have two: "runs (good c) (stage_two c rounds lbs rb) ?Q"
    using runs_stage_two [OF c(1-4) l wf_pr [OF c(1)] c(6), of rounds "gre (pt_x c T sigma)" "gim (pt_x c T sigma)"]
    unfolding rb coords_in_field [OF c(1)] .
  have "runs (good c) (bnd (stage_two c rounds lbs rb) (\<lambda>res. bnd (Check c) (\<lambda>_. ret res))) ?Q"
    by (rule keeps_bnd [OF two], rule keeps_bnd [OF runs_Check [OF c(1)]], rule keeps_ret)
  then show "settles (good c) (\<lambda>n. case q of (_, local_bits, reveal_bits) \<Rightarrow>
      bnd (stage_two c rounds local_bits reveal_bits) (\<lambda>res. bnd (Check c) (\<lambda>_. ret res))) ?Q"
    unfolding q' by (simp add: settles_runs)
qed


section \<open>From one process to the other\<close>

text \<open>\<open>msgbuf_\<close>; the text has \<open>MAXSIZE\<close> bytes and keeps what it held.\<close>

definition MAXSIZE :: nat where
  "MAXSIZE = 2048"

record ipcbuf =
  mtype :: int
  mlen :: nat
  mtext :: "octet list"

definition empty_buf :: ipcbuf where
  "empty_buf = \<lparr>mtype = 0, mlen = 0, mtext = replicate MAXSIZE 0\<rparr>"

text \<open>What the program does before a send: type, length and contents.\<close>

definition fill_buf :: "int \<Rightarrow> octet list \<Rightarrow> ipcbuf \<Rightarrow> err + ipcbuf" where
  "fill_buf t bs b =
     (if MAXSIZE < length bs then Inl Out_of_range
      else Inr (b\<lparr>mtype := t, mlen := length bs, mtext := bs @ drop (length bs) (mtext b)\<rparr>))"

text \<open>The queue of the system: messages are taken in order among those of the type asked for.\<close>

definition ipc_msg_send :: "ipcbuf \<Rightarrow> ipcbuf list \<Rightarrow> ipcbuf list" where
  "ipc_msg_send b q = q @ [b]"

fun ipc_msg_recv :: "int \<Rightarrow> ipcbuf list \<Rightarrow> (ipcbuf \<times> ipcbuf list) option" where
  "ipc_msg_recv t [] = None"
| "ipc_msg_recv t (b # q) = (if mtype b = t then Some (b, q) else map_option (\<lambda>(x, q). (x, b # q)) (ipc_msg_recv t q))"

text \<open>
  The text form of big integers in a stream: \<open>operator<<\<close> and \<open>operator>>\<close> of GMP, with what is documented
  of them; an extraction takes all digits that follow, and fails at the end of the stream.
\<close>

record text_lib =
  put_number :: "int \<Rightarrow> octet list"
  get_number :: "octet list \<Rightarrow> (int \<times> octet list) option"

definition is_digit :: "octet \<Rightarrow> bool" where
  "is_digit b \<longleftrightarrow> 48 \<le> uint b \<and> uint b \<le> 57"

definition decimal :: "octet list \<Rightarrow> int" where
  "decimal ds = foldl (\<lambda>a d. 10 * a + (uint d - 48)) 0 ds"

definition text_ok :: "text_lib \<Rightarrow> bool" where
  "text_ok L \<longleftrightarrow> put_number L 0 = [48] \<and> put_number L 1 = [49] \<and> get_number L [] = None \<and>
     (\<forall>ds. ds \<noteq> [] \<and> (\<forall>d \<in> set ds. is_digit d) \<longrightarrow> get_number L ds = Some (decimal ds, []))"

text \<open>The first process: the digits without separators, after the number of bits and of digits.\<close>

definition size_bytes :: "nat \<Rightarrow> octet list" where
  "size_bytes n = le_bytes 4 (word_of_nat n)"

definition send_bits :: "text_lib \<Rightarrow> int list \<Rightarrow> int list \<Rightarrow> ipcbuf list \<Rightarrow> err + ipcbuf list" where
  "send_bits L local_bits reveal_bits q =
     (let s = concat (map (put_number L) local_bits) @ concat (map (put_number L) reveal_bits) in
      ebnd (fill_buf 1 (size_bytes (length local_bits)) empty_buf) (\<lambda>b1.
      ebnd (fill_buf 2 (size_bytes (length s)) b1) (\<lambda>b2.
      ebnd (fill_buf 3 s b2) (\<lambda>b3.
      Inr (ipc_msg_send b3 (ipc_msg_send b2 (ipc_msg_send b1 q)))))))"

text \<open>Extractions in a row; after a failed one nothing more is read, and the numbers stay as they were.\<close>

fun read_numbers :: "text_lib \<Rightarrow> nat list \<Rightarrow> octet list option \<Rightarrow> int list \<Rightarrow> int list \<times> octet list option" where
  "read_numbers L [] st xs = (xs, st)"
| "read_numbers L (i # js) None xs = read_numbers L js None xs"
| "read_numbers L (i # js) (Some s) xs =
     (case get_number L s of None \<Rightarrow> read_numbers L js None xs | Some (x, s) \<Rightarrow> read_numbers L js (Some s) (xs[i := x]))"

text \<open>The second process; \<open>None\<close> waits for ever. It reads the second vector from index 10 on.\<close>

definition recv_bits :: "text_lib \<Rightarrow> ipcbuf list \<Rightarrow> ((int list \<times> int list) \<times> ipcbuf list) option" where
  "recv_bits L q =
     Option.bind (ipc_msg_recv 1 q) (\<lambda>(b1, q). let n = le_value (take (mlen b1) (mtext b1)) in
     Option.bind (ipc_msg_recv 2 q) (\<lambda>(b2, q). let len = le_value (take (mlen b2) (mtext b2)) in
     Option.bind (ipc_msg_recv 3 q) (\<lambda>(b3, q).
     let s = take (mlen b3) (mtext b3) @ replicate (len - mlen b3) 0;
         (local_bits, st) = read_numbers L [0..<n] (Some s) (replicate n 0);
         (reveal_bits, st) = read_numbers L [10..<n] st (replicate n 0)
     in Some ((local_bits, reveal_bits), q))))"

section \<open>What arrives\<close>

lemma bits_text:
  assumes "text_ok L" "is_bits bs"
  shows "concat (map (put_number L) bs) = map (\<lambda>b. word_of_int (48 + b)) bs"
  using assms(2) by (induction bs) (use assms(1) in \<open>auto simp: text_ok_def\<close>)

lemma digits_text: "is_bits bs \<Longrightarrow> \<forall>d \<in> set (map (\<lambda>b. word_of_int (48 + b)) bs). is_digit d"
  by (auto simp: is_bits_def is_digit_def)

definition read_as_number :: "int list \<Rightarrow> int" where
  "read_as_number bs = foldl (\<lambda>a b. 10 * a + b) 0 bs"

lemma decimal_bits: "is_bits bs \<Longrightarrow> decimal (map (\<lambda>b. word_of_int (48 + b)) bs) = read_as_number bs"
proof -
  have "is_bits bs \<Longrightarrow> foldl (\<lambda>a d. 10 * a + (uint (d :: octet) - 48)) a (map (\<lambda>b. word_of_int (48 + b)) bs) = foldl (\<lambda>a b. 10 * a + b) a bs" for a
    by (induction bs arbitrary: a) auto
  then show "is_bits bs \<Longrightarrow> ?thesis" by (simp add: decimal_def read_as_number_def)
qed

lemma size_bytes_value: "n < 2 ^ 32 \<Longrightarrow> le_value (size_bytes n) = n" "length (size_bytes n) = 4"
  by (simp_all add: size_bytes_def unat_of_nat)

lemma read_stopped: "read_numbers L is None xs = (xs, None)"
  by (induction "is") simp_all

lemma read_at_end: "get_number L [] = None \<Longrightarrow> fst (read_numbers L is (Some []) xs) = xs \<and> snd (read_numbers L is (Some []) xs) \<in> {None, Some []}"
  by (cases "is") (simp_all add: read_stopped)

lemma handoff:
  assumes L: "text_ok L" and b: "is_bits local_bits" "is_bits reveal_bits" and l: "0 < length local_bits" "length local_bits + length reveal_bits \<le> MAXSIZE"
  shows "\<exists>q. send_bits L local_bits reveal_bits [] = Inr q \<and>
    recv_bits L q = Some ((read_as_number (local_bits @ reveal_bits) # replicate (length local_bits - 1) 0, replicate (length local_bits) 0), [])"
proof -
  let ?n = "length local_bits"
  define digs :: "octet list" where "digs = map (\<lambda>b. word_of_int (48 + b)) (local_bits @ reveal_bits)"
  have s: "concat (map (put_number L) local_bits) @ concat (map (put_number L) reveal_bits) = digs"
    using bits_text [OF L] b by (simp add: digs_def)
  have ls: "length digs \<le> MAXSIZE" "length digs < 2 ^ 32" "?n < 2 ^ 32" using l by (simp_all add: MAXSIZE_def digs_def)
  have four: "\<not> MAXSIZE < 4" by (simp add: MAXSIZE_def)
  have g: "get_number L [] = None" "get_number L digs = Some (read_as_number (local_bits @ reveal_bits), [])"
    using L l(1) b digits_text [of "local_bits @ reveal_bits"] decimal_bits [of "local_bits @ reveal_bits"]
    unfolding text_ok_def digs_def by auto
  obtain b1 where b1: "fill_buf 1 (size_bytes ?n) empty_buf = Inr b1" "mtype b1 = 1" "mlen b1 = 4" "take 4 (mtext b1) = size_bytes ?n"
    using size_bytes_value(2) [of ?n] four by (simp add: fill_buf_def)
  obtain b2 where b2: "fill_buf 2 (size_bytes (length digs)) b1 = Inr b2" "mtype b2 = 2" "mlen b2 = 4" "take 4 (mtext b2) = size_bytes (length digs)"
    using size_bytes_value(2) [of "length digs"] four by (simp add: fill_buf_def)
  obtain b3 where b3: "fill_buf 3 digs b2 = Inr b3" "mtype b3 = 3" "mlen b3 = length digs" "take (length digs) (mtext b3) = digs"
    using ls(1) by (simp add: fill_buf_def)
  have send: "send_bits L local_bits reveal_bits [] = Inr [b1, b2, b3]"
    unfolding send_bits_def Let_def s using b1(1) b2(1) b3(1) by (simp only: ebnd_simps) (simp add: ipc_msg_send_def)
  have up: "[0..<?n] = 0 # [1..<?n]" using l(1) by (simp add: upt_conv_Cons)
  let ?l = "(replicate ?n 0)[0 := read_as_number (local_bits @ reveal_bits)]"
  have "read_numbers L [0..<?n] (Some digs) (replicate ?n 0) = read_numbers L [1..<?n] (Some []) ?l"
    unfolding up by (simp add: g(2))
  with read_at_end [OF g(1), of "[1..<?n]" ?l]
  obtain st where r: "read_numbers L [0..<?n] (Some digs) (replicate ?n 0) = (?l, st)" "st = None \<or> st = Some []"
    by (metis empty_iff insert_iff prod.collapse)
  obtain st' where t: "read_numbers L [10..<?n] st (replicate ?n 0) = (replicate ?n 0, st')"
    using r(2) read_at_end [OF g(1), of "[10..<?n]" "replicate ?n 0"] by (metis prod.collapse read_stopped)
  have e: "take (length digs) (mtext b3) @ replicate (length digs - length digs) 0 = digs" using b3(4) by simp
  have "recv_bits L [b1, b2, b3] = Some ((?l, replicate ?n 0), [])"
    unfolding recv_bits_def Let_def using b1(2) b2(2) b3(2)
    by (simp add: b1(3,4) b2(3,4) b3(3,4) size_bytes_value(1) [OF ls(3)] size_bytes_value(1) [OF ls(2)] r(1) t del: upt_Suc)
  moreover have "?l = read_as_number (local_bits @ reveal_bits) # replicate (?n - 1) 0" using l(1) by (cases ?n) auto
  ultimately show ?thesis using send by auto
qed

lemma read_as_number_zero:
  assumes "is_bits bs"
  shows "0 \<le> read_as_number bs" "read_as_number bs = 0 \<longleftrightarrow> (\<forall>b \<in> set bs. b = 0)"
proof -
  have "0 \<le> a \<Longrightarrow> 0 \<le> foldl (\<lambda>a b. 10 * a + b) a bs \<and>
      (foldl (\<lambda>a b. 10 * a + b) a bs = 0 \<longleftrightarrow> a = 0 \<and> (\<forall>b \<in> set bs. b = 0))" for a :: int
    using assms
  proof (induction bs arbitrary: a)
    case (Cons b bs)
    from Cons.prems have "0 \<le> a" "b = 0 \<or> b = 1" by simp_all
    then have "0 \<le> 10 * a + b" "10 * a + b = 0 \<longleftrightarrow> a = 0 \<and> b = 0" by presburger+
    then show ?case using Cons.IH [of "10 * a + b"] Cons.prems by simp
  qed simp
  from this [OF order_refl] show "0 \<le> read_as_number bs" "read_as_number bs = 0 \<longleftrightarrow> (\<forall>b \<in> set bs. b = 0)"
    by (simp_all add: read_as_number_def)
qed

lemma read_as_number_first: "foldl (\<lambda>a b. 10 * a + b) x (replicate k 0) = x * 10 ^ k" for x :: int
  by (induction k arbitrary: x) simp_all

lemma read_as_number_padded: "read_as_number (x # replicate k 0) = x * 10 ^ k"
  by (simp add: read_as_number_def read_as_number_first)

text \<open>C36: the hand-over between the two processes gives back what was sent only when all bits are zero:
  the digits are sent without separators, so that the first extraction takes all of them,
  the others fail, and the second vector stays zero.\<close>
theorem handoff_keeps_only_zeros:
  assumes "text_ok L" "is_bits local_bits" "is_bits reveal_bits" "0 < length local_bits" "length reveal_bits = length local_bits"
    "2 * length local_bits \<le> MAXSIZE"
  shows "\<exists>q l r. send_bits L local_bits reveal_bits [] = Inr q \<and> recv_bits L q = Some ((l, r), []) \<and>
    length l = length local_bits \<and> length r = length reveal_bits \<and>
    (l = local_bits \<and> r = reveal_bits \<longleftrightarrow> (\<forall>b \<in> set (local_bits @ reveal_bits). b = 0))"
proof -
  let ?n = "length local_bits" and ?all = "local_bits @ reveal_bits"
  let ?N = "read_as_number ?all"
  obtain q where q: "send_bits L local_bits reveal_bits [] = Inr q" "recv_bits L q = Some ((?N # replicate (?n - 1) 0, replicate ?n 0), [])"
    using handoff [OF assms(1-4)] assms(5,6) by auto
  have z: "?N = 0 \<longleftrightarrow> (\<forall>b \<in> set ?all. b = 0)" using read_as_number_zero(2) [of ?all] assms(2,3) by simp
  have "?N # replicate (?n - 1) 0 = local_bits \<and> replicate ?n 0 = reveal_bits \<longleftrightarrow> (\<forall>b \<in> set ?all. b = 0)"
  proof
    assume e: "?N # replicate (?n - 1) 0 = local_bits \<and> replicate ?n 0 = reveal_bits"
    then have a: "?all = ?N # replicate (?n - 1 + ?n) 0" by (metis append_Cons replicate_add)
    have "?N = ?N * 10 ^ (?n - 1 + ?n)"
      using arg_cong [OF a, of read_as_number] read_as_number_padded [of ?N "?n - 1 + ?n"] by (rule trans)
    moreover have "(10 :: int) ^ 1 \<le> 10 ^ (?n - 1 + ?n)" using assms(4) by (intro power_increasing, linarith, simp)
    ultimately have "?N = 0" by (auto simp: mult_cancel_left2)
    then show "\<forall>b \<in> set ?all. b = 0" using z by simp
  next
    assume a: "\<forall>b \<in> set ?all. b = 0"
    then have "local_bits = replicate ?n 0" "reveal_bits = replicate ?n 0"
      using assms(5) by (simp_all add: replicate_eqI)
    moreover have "?N = 0" using a z by simp
    moreover have "0 # replicate (?n - 1) 0 = replicate ?n (0 :: int)" using assms(4) by (cases ?n) auto
    ultimately show "?N # replicate (?n - 1) 0 = local_bits \<and> replicate ?n 0 = reveal_bits" by simp
  qed
  then show ?thesis using q assms(4,5) by auto
qed

definition demo_text_lib :: text_lib where
  "demo_text_lib = \<lparr>put_number = (\<lambda>x. [word_of_int (48 + x)]),
     get_number = (\<lambda>s. let ds = takeWhile is_digit s in if ds = [] then None else Some (decimal ds, dropWhile is_digit s))\<rparr>"

lemma demo_text_ok: "text_ok demo_text_lib"
proof -
  have d: "takeWhile is_digit ds = ds" "dropWhile is_digit ds = []" if "\<forall>d \<in> set ds. is_digit d" for ds
    using that by (simp_all add: takeWhile_eq_all_conv dropWhile_eq_Nil_conv)
  have "get_number demo_text_lib ds = Some (decimal ds, [])" if "ds \<noteq> []" "\<forall>d \<in> set ds. is_digit d" for ds
    using that by (simp add: demo_text_lib_def Let_def d)
  then show ?thesis by (simp add: text_ok_def) (simp add: demo_text_lib_def)
qed

theorem handoff_keeps_only_zeros_witness:
  "\<exists>q l r. send_bits demo_text_lib [1, 0] [0, 1] [] = Inr q \<and> recv_bits demo_text_lib q = Some ((l, r), []) \<and> \<not> (l = [1, 0] \<and> r = [0, 1])"
proof -
  have b: "is_bits [1, 0 :: int]" "is_bits [0, 1 :: int]" "0 < length [1, 0 :: int]" "length [0, 1 :: int] = length [1, 0 :: int]"
    "2 * length [1, 0 :: int] \<le> MAXSIZE" by (simp_all add: MAXSIZE_def)
  show ?thesis using handoff_keeps_only_zeros [OF demo_text_ok b] by auto
qed

lemma demo_fair_legendre [simp]: "legendre_spec demo_fair"
  using demo_legendre_spec unfolding legendre_spec_def demo_fair_simps demo_simps .

text \<open>What the two keys sign for the nonce.\<close>

definition nonce_sigs :: "(z13, z13) bls list" where
  "nonce_sigs = [(demo_keys ! 0)\<lparr>bl_sigma := z13_of 11\<rparr>, (demo_keys ! 1)\<lparr>bl_sigma := z13_of 8\<rparr>]"

lemma nonce_signature:
  shows "\<forall>p < 2. partial_sign demo_mcl get_nonce 2 demo_keys p = Inr (nonce_sigs ! p)"
    and "length nonce_sigs = 2" "\<forall>p < 2. finite_pt demo_mcl (bl_sigma (nonce_sigs ! p))"
    and "distinct_abscissas demo_fair demo_mcl demo_text nonce_sigs"
proof -
  have of_mod: "z13_of a = z13_of (a mod 13)" for a by transfer simp
  have "z13_mul (z13_of a) b = z13_of (a * b)" for a b by transfer (simp add: mod_simps)
  then have g: "g2_mul demo_mcl (g2_hash demo_mcl get_nonce) a = z13_of (6 * a)" for a
    by (simp add: demo_mcl_def get_nonce_def)
  have n: "node_coeff 2 (Suc 0) = 2" "node_coeff 2 2 = - 1" "node_coeff 2 (Suc (Suc 0)) = - 1"
    by (simp_all add: node_coeff_def numeral_2_eq_2)
  show "\<forall>p < 2. partial_sign demo_mcl get_nonce 2 demo_keys p = Inr (nonce_sigs ! p)"
  proof (intro allI impI)
    fix p :: nat assume p: "p < 2"
    have sk: "in_field (m_r demo_mcl) (bl_sk (demo_keys ! p))"
      using p by (auto simp: less_2_cases_iff demo_keys_def in_field_def)
    have "length demo_keys = 2" by (rule demo_signature)
    then have "partial_sign demo_mcl get_nonce 2 demo_keys p =
        Inr ((demo_keys ! p)\<lparr>bl_sigma := z13_of (6 * (bl_sk (demo_keys ! p) * node_coeff 2 (p + 1)))\<rparr>)"
      using partial_sign_value [OF demo_mcl_ok p _ sk, of get_nonce] by (simp add: g)
    also have "\<dots> = Inr (nonce_sigs ! p)"
      by (rule disjE [OF less_2_cases [OF p]])
        (use n of_mod [of "24"] of_mod [of "- 18"] in \<open>simp_all add: nonce_sigs_def demo_keys_def\<close>)
    finally show "partial_sign demo_mcl get_nonce 2 demo_keys p = Inr (nonce_sigs ! p)" .
  qed
  show "length nonce_sigs = 2" by (simp add: nonce_sigs_def)
  show "\<forall>p < 2. finite_pt demo_mcl (bl_sigma (nonce_sigs ! p))"
    unfolding finite_demo by (auto simp: less_2_cases_iff nonce_sigs_def z13_val_of)
  have e: "cx_unit demo_fair = cx_unit demo" "gcong demo_fair = gcong demo"
    by (simp_all add: cx_unit_def gcong_def fun_eq_iff)
  have "distinct_abscissas demo demo_mcl demo_text nonce_sigs"
  proof -
    have "pt_x demo demo_text (z13_of 11) = Gint 6 0" "pt_x demo demo_text (z13_of 8) = Gint 3 0"
      using demo_coords(1) [of "z13_of 11"] demo_coords(1) [of "z13_of 8"] by (simp_all add: z13_val_of demo_xy_def)
    then show ?thesis
      by (auto simp: distinct_abscissas_def partial_sum_def aggregate_def nonce_sigs_def less_Suc_eq cx_unit_def minus_gint_def)
  qed
  then show "distinct_abscissas demo_fair demo_mcl demo_text nonce_sigs"
    unfolding distinct_abscissas_def e demo_fair_simps(1) demo_simps(1) .
qed


end
