(* ===== verification/Limbs.thy ===== *)
theory Limbs
  imports Prelude "HOL-Library.Word"
begin

text \<open>
  Numbers as vectors of 64-bit limbs, least significant first: the carry chains of
  \<open>Math/mpn_fixed.h\<close>. The processor's instructions behind the compiler's intrinsics
  (\<open>_addcarryx_u64\<close>, \<open>_subborrow_u64\<close>, \<open>_mulx_u64\<close>) are defined on words. Those routines of
  GMP that the code calls are parameters, gathered in \<open>mpn_lib\<close> with the laws of its manual.
\<close>

type_synonym limb = "64 word"

fun limbs_value :: "limb list \<Rightarrow> int" where
  "limbs_value [] = 0"
| "limbs_value (x # xs) = uint x + 2 ^ 64 * limbs_value xs"

section \<open>Instructions\<close>

definition addcarry :: "bool \<Rightarrow> limb \<Rightarrow> limb \<Rightarrow> limb \<times> bool" where
  "addcarry c x y = (x + y + of_bool c, 2 ^ 64 \<le> uint x + uint y + of_bool c)"

definition subborrow :: "bool \<Rightarrow> limb \<Rightarrow> limb \<Rightarrow> limb \<times> bool" where
  "subborrow c x y = (x - y - of_bool c, uint x < uint y + of_bool c)"

definition mulx :: "limb \<Rightarrow> limb \<Rightarrow> limb \<times> limb" where
  "mulx x y = (x * y, word_of_int (uint x * uint y div 2 ^ 64))"

section \<open>Carry chains\<close>

text \<open>The loops of \<open>mpn_add_n_with_carry\<close> and \<open>mpn_sub_n_borrow\<close>.\<close>

fun add_chain :: "bool \<Rightarrow> limb list \<Rightarrow> limb list \<Rightarrow> limb list \<times> bool" where
  "add_chain c (x # xs) (y # ys) =
     (let (r, c) = addcarry c x y; (rs, c) = add_chain c xs ys in (r # rs, c))"
| "add_chain c _ _ = ([], c)"

fun sub_chain :: "bool \<Rightarrow> limb list \<Rightarrow> limb list \<Rightarrow> limb list \<times> bool" where
  "sub_chain c (x # xs) (y # ys) =
     (let (r, c) = subborrow c x y; (rs, c) = sub_chain c xs ys in (r # rs, c))"
| "sub_chain c _ _ = ([], c)"

definition mpn_add_n_with_carry :: "limb list \<Rightarrow> limb list \<Rightarrow> nat \<Rightarrow> limb list \<times> bool" where
  "mpn_add_n_with_carry x y n = add_chain False (take n x) (take n y)"

definition mpn_sub_n_borrow :: "limb list \<Rightarrow> limb list \<Rightarrow> nat \<Rightarrow> limb list \<times> bool" where
  "mpn_sub_n_borrow x y n = sub_chain False (take n x) (take n y)"

text \<open>The versions for a fixed length \<open>N\<close>; the assembly of the small lengths is the same chain.\<close>

definition mpn_add_fixed_n :: "nat \<Rightarrow> limb list \<Rightarrow> limb list \<Rightarrow> limb list" where
  "mpn_add_fixed_n N x y = fst (mpn_add_n_with_carry x y N)"

definition mpn_sub_fixed_n :: "nat \<Rightarrow> limb list \<Rightarrow> limb list \<Rightarrow> limb list" where
  "mpn_sub_fixed_n N x y = fst (mpn_sub_n_borrow x y N)"

text \<open>
  \<open>mpn_addmul_1_fixed__<L, M, ADD>\<close>, for \<open>M\<close> at least \<open>L - 1\<close>: it adds a limb's multiple of \<open>y\<close>
  to the \<open>L\<close> limbs at \<open>res\<close> (or overwrites them), and leaves what follows.
\<close>

definition mpn_addmul_1_fixed :: "nat \<Rightarrow> nat \<Rightarrow> bool \<Rightarrow> limb list \<Rightarrow> limb \<Rightarrow> limb list \<Rightarrow> limb list" where
  "mpn_addmul_1_fixed L M ADD y x res =
     (let lower = map (\<lambda>j. fst (mulx x (y ! j))) [0..<M] @ replicate (L - M) 0;
          higher = map (\<lambda>j. snd (mulx x (y ! j))) [0..<M] @ replicate (L - M) 0;
          r = (if ADD then mpn_add_fixed_n L lower res else take L lower)
      in take 1 r @ mpn_add_fixed_n (L - 1) higher (drop 1 r) @ drop L res)"

section \<open>Values\<close>

lemma limbs_value_append: "limbs_value (xs @ ys) = limbs_value xs + 2 ^ (64 * length xs) * limbs_value ys"
  by (induction xs) (simp_all add: power_add algebra_simps)

lemma limbs_value_replicate [simp]: "limbs_value (replicate n 0) = 0"
  by (induction n) simp_all

lemma uint_limb: "0 \<le> uint (x :: limb)" "uint (x :: limb) < 2 ^ 64"
  using uint_lt2p [of x] by simp_all

lemma limbs_value_bounds: "0 \<le> limbs_value xs \<and> limbs_value xs < 2 ^ (64 * length xs)"
proof (induction xs)
  case Nil
  then show ?case by simp
next
  case (Cons x xs)
  have "uint x + 2 ^ 64 * limbs_value xs < 2 ^ 64 + 2 ^ 64 * limbs_value xs" using uint_limb [of x] by simp
  also have "\<dots> = 2 ^ 64 * (limbs_value xs + 1)" by (simp add: algebra_simps)
  also have "\<dots> \<le> 2 ^ 64 * 2 ^ (64 * length xs)" using Cons by (intro mult_left_mono) auto
  finally show ?case using Cons uint_limb [of x] by (simp add: power_add)
qed

lemma limbs_value_nonneg [simp]: "0 \<le> limbs_value xs"
  using limbs_value_bounds by blast

lemma limbs_value_mod: "limbs_value xs mod 2 ^ 64 = uint (xs ! 0)" if "xs \<noteq> []"
  using that uint_limb by (cases xs) auto

lemma limbs_value_inj: "length xs = length ys \<Longrightarrow> limbs_value xs = limbs_value ys \<Longrightarrow> xs = ys"
proof (induction xs ys rule: list_induct2)
  case Nil
  then show ?case by simp
next
  case (Cons x xs y ys)
  have "uint x = limbs_value (x # xs) mod 2 ^ 64" "uint y = limbs_value (y # ys) mod 2 ^ 64"
    using limbs_value_mod [of "x # xs"] limbs_value_mod [of "y # ys"] by (simp_all del: limbs_value.simps)
  then have "uint x = uint y" by (simp only: Cons.prems)
  then have "x = y" by (simp add: word_uint_eq_iff)
  then show ?case using Cons by simp
qed

lemma mod_carry: "0 \<le> s \<Longrightarrow> s < 2 * M \<Longrightarrow> s mod M = (if M \<le> s then s - M else s)" for s M :: int
  using mod_pos_pos_trivial [of "s - M" M] minus_mod_self2 [of s M] by (auto simp: mod_pos_pos_trivial)

lemma mod_borrow: "s < M \<Longrightarrow> - M \<le> s \<Longrightarrow> s mod M = (if s < 0 then s + M else s)" for s M :: int
  using mod_pos_pos_trivial [of "s + M" M] mod_add_self2 [of s M] by (auto simp: mod_pos_pos_trivial)

lemma addcarry_value:
  assumes "addcarry c x y = (r, d)"
  shows "uint r + 2 ^ 64 * of_bool d = uint x + uint y + of_bool c"
proof -
  define s where "s = uint x + uint y + of_bool c"
  have r: "uint r = s mod 2 ^ 64"
    using assms by (cases c) (auto simp: addcarry_def s_def uint_word_ariths mod_simps)
  have d: "d \<longleftrightarrow> 2 ^ 64 \<le> s" using assms unfolding addcarry_def s_def by blast
  have "0 \<le> s" "s < 2 * 2 ^ 64" unfolding s_def using uint_limb [of x] uint_limb [of y] by (cases c; simp)+
  from mod_carry [OF this] have "uint r = (if d then s - 2 ^ 64 else s)" unfolding r d .
  then show ?thesis unfolding s_def [symmetric] by (cases d) simp_all
qed

lemma subborrow_value:
  assumes "subborrow c x y = (r, d)"
  shows "uint r - 2 ^ 64 * of_bool d = uint x - uint y - of_bool c"
proof -
  define s where "s = uint x - uint y - of_bool c"
  have r: "uint r = s mod 2 ^ 64"
    using assms by (cases c) (auto simp: subborrow_def s_def uint_word_ariths mod_simps diff_diff_eq)
  have d: "d \<longleftrightarrow> s < 0" using assms unfolding subborrow_def s_def by auto
  have "0 \<le> (of_bool c :: int)" "(of_bool c :: int) \<le> 1" by simp_all
  then have "s < 2 ^ 64" "- (2 ^ 64) \<le> s" unfolding s_def using uint_limb [of x] uint_limb [of y] by linarith+
  from mod_borrow [OF this] have "uint r = (if d then s + 2 ^ 64 else s)" unfolding r d .
  then show ?thesis unfolding s_def [symmetric] by (cases d) simp_all
qed

lemma div_less_of_mult:
  fixes s M :: int
  assumes "s < M * M" "0 < M"
  shows "s div M < M"
proof -
  have "s div M * M \<le> s" using assms(2) by (simp add: minus_mod_eq_div_mult [symmetric])
  then have "s div M * M < M * M" using assms(1) by linarith
  then show ?thesis using assms(2) by (simp only: mult_less_cancel_right_pos)
qed

lemma mulx_value: "mulx x y = (l, h) \<Longrightarrow> uint l + 2 ^ 64 * uint h = uint x * uint y"
proof -
  assume a: "mulx x y = (l, h)"
  have "uint x * uint y < 2 ^ 64 * 2 ^ 64"
    using uint_limb [of x] uint_limb [of y] by (intro mult_strict_mono') auto
  then have "uint x * uint y div 2 ^ 64 < 2 ^ 64" by (intro div_less_of_mult) simp_all
  moreover have "0 \<le> uint x * uint y div 2 ^ 64" using uint_limb by (simp add: pos_imp_zdiv_nonneg_iff)
  ultimately have "uint h = uint x * uint y div 2 ^ 64"
    using a by (auto simp: mulx_def unsigned_of_int take_bit_eq_mod)
  moreover have "uint l = uint x * uint y mod 2 ^ 64" using a by (auto simp: mulx_def uint_word_ariths)
  ultimately show ?thesis by simp
qed

lemma add_chain_value:
  "length xs = length ys \<Longrightarrow> add_chain c xs ys = (rs, d) \<Longrightarrow>
     length rs = length xs \<and> limbs_value rs + 2 ^ (64 * length xs) * of_bool d = limbs_value xs + limbs_value ys + of_bool c"
proof (induction xs ys arbitrary: c rs rule: list_induct2)
  case Nil
  then show ?case by simp
next
  case (Cons x xs y ys)
  obtain r c1 where r: "addcarry c x y = (r, c1)" by fastforce
  obtain rs' where rs: "add_chain c1 xs ys = (rs', d)" "rs = r # rs'"
    using Cons.prems r by (auto split: prod.splits)
  have "limbs_value rs + 2 ^ (64 * length (x # xs)) * of_bool d =
      uint r + 2 ^ 64 * (limbs_value rs' + 2 ^ (64 * length xs) * of_bool d)"
    using rs(2) by (simp add: power_add algebra_simps)
  also have "\<dots> = (uint r + 2 ^ 64 * of_bool c1) + 2 ^ 64 * (limbs_value xs + limbs_value ys)"
    using Cons.IH [OF rs(1)] by (simp add: algebra_simps)
  also have "\<dots> = limbs_value (x # xs) + limbs_value (y # ys) + of_bool c"
    unfolding addcarry_value [OF r] by (simp add: algebra_simps)
  finally show ?case using Cons.IH [OF rs(1)] rs(2) by simp
qed

lemma sub_chain_value:
  "length xs = length ys \<Longrightarrow> sub_chain c xs ys = (rs, d) \<Longrightarrow>
     length rs = length xs \<and> limbs_value rs - 2 ^ (64 * length xs) * of_bool d = limbs_value xs - limbs_value ys - of_bool c"
proof (induction xs ys arbitrary: c rs rule: list_induct2)
  case Nil
  then show ?case by simp
next
  case (Cons x xs y ys)
  obtain r c1 where r: "subborrow c x y = (r, c1)" by fastforce
  obtain rs' where rs: "sub_chain c1 xs ys = (rs', d)" "rs = r # rs'"
    using Cons.prems r by (auto split: prod.splits)
  have "limbs_value rs - 2 ^ (64 * length (x # xs)) * of_bool d =
      uint r + 2 ^ 64 * (limbs_value rs' - 2 ^ (64 * length xs) * of_bool d)"
    using rs(2) by (simp add: power_add algebra_simps)
  also have "\<dots> = (uint r - 2 ^ 64 * of_bool c1) + 2 ^ 64 * (limbs_value xs - limbs_value ys)"
    using Cons.IH [OF rs(1)] by (simp add: algebra_simps)
  also have "\<dots> = limbs_value (x # xs) - limbs_value (y # ys) - of_bool c"
    unfolding subborrow_value [OF r] by (simp add: algebra_simps)
  finally show ?case using Cons.IH [OF rs(1)] rs(2) by simp
qed

lemma take_len: "n \<le> length xs \<Longrightarrow> length (take n xs) = n"
  by simp

lemma add_n_value:
  assumes "n \<le> length x" "n \<le> length y" "mpn_add_n_with_carry x y n = (r, d)"
  shows "length r = n" "limbs_value r + 2 ^ (64 * n) * of_bool d = limbs_value (take n x) + limbs_value (take n y)"
  using add_chain_value [of "take n x" "take n y" False r d] assms
  by (simp_all add: mpn_add_n_with_carry_def)

lemma sub_n_value:
  assumes "n \<le> length x" "n \<le> length y" "mpn_sub_n_borrow x y n = (r, d)"
  shows "length r = n" "limbs_value r - 2 ^ (64 * n) * of_bool d = limbs_value (take n x) - limbs_value (take n y)"
  using sub_chain_value [of "take n x" "take n y" False r d] assms
  by (simp_all add: mpn_sub_n_borrow_def)

lemma mod_of_carry: "0 \<le> r \<Longrightarrow> r < M \<Longrightarrow> r + M * k = s \<Longrightarrow> s mod M = r" for r M k s :: int
  by (metis mod_mult_self2 mod_pos_pos_trivial)

lemma add_fixed_value:
  assumes "n \<le> length x" "n \<le> length y"
  shows "length (mpn_add_fixed_n n x y) = n"
    "limbs_value (mpn_add_fixed_n n x y) = (limbs_value (take n x) + limbs_value (take n y)) mod 2 ^ (64 * n)"
proof -
  obtain r d where r: "mpn_add_n_with_carry x y n = (r, d)" by fastforce
  note v = add_n_value [OF assms r]
  show "length (mpn_add_fixed_n n x y) = n" using v(1) r by (simp add: mpn_add_fixed_n_def)
  show "limbs_value (mpn_add_fixed_n n x y) = (limbs_value (take n x) + limbs_value (take n y)) mod 2 ^ (64 * n)"
    using mod_of_carry [OF _ _ v(2)] limbs_value_bounds [of r] v(1) r by (simp add: mpn_add_fixed_n_def)
qed

lemma sub_fixed_value:
  assumes "n \<le> length x" "n \<le> length y"
  shows "length (mpn_sub_fixed_n n x y) = n"
    "limbs_value (mpn_sub_fixed_n n x y) = (limbs_value (take n x) - limbs_value (take n y)) mod 2 ^ (64 * n)"
proof -
  obtain r d where r: "mpn_sub_n_borrow x y n = (r, d)" by fastforce
  note v = sub_n_value [OF assms r]
  show "length (mpn_sub_fixed_n n x y) = n" using v(1) r by (simp add: mpn_sub_fixed_n_def)
  show "limbs_value (mpn_sub_fixed_n n x y) = (limbs_value (take n x) - limbs_value (take n y)) mod 2 ^ (64 * n)"
    using mod_of_carry [of "limbs_value r" "2 ^ (64 * n)" "- of_bool d"] v limbs_value_bounds [of r] r
    by (simp add: mpn_sub_fixed_n_def)
qed

lemma products_value:
  "limbs_value (map (\<lambda>v. fst (mulx x v)) ys) + 2 ^ 64 * limbs_value (map (\<lambda>v. snd (mulx x v)) ys) = uint x * limbs_value ys"
proof (induction ys)
  case Nil
  then show ?case by simp
next
  case (Cons y ys)
  let ?l = "limbs_value (map (\<lambda>v. fst (mulx x v)) ys)" and ?h = "limbs_value (map (\<lambda>v. snd (mulx x v)) ys)"
  have m: "uint (fst (mulx x y)) + 2 ^ 64 * uint (snd (mulx x y)) = uint x * uint y"
    using mulx_value [of x y "fst (mulx x y)" "snd (mulx x y)"] by simp
  have "limbs_value (map (\<lambda>v. fst (mulx x v)) (y # ys)) + 2 ^ 64 * limbs_value (map (\<lambda>v. snd (mulx x v)) (y # ys)) =
      (uint (fst (mulx x y)) + 2 ^ 64 * uint (snd (mulx x y))) + 2 ^ 64 * (?l + 2 ^ 64 * ?h)"
    unfolding list.map limbs_value.simps by (simp only: distrib_left ac_simps)
  also have "\<dots> = uint x * limbs_value (y # ys)" unfolding m Cons.IH by (simp add: algebra_simps)
  finally show ?case .
qed

lemma map_nth_take: "m \<le> length y \<Longrightarrow> map (\<lambda>j. f (y ! j)) [0..<m] = map f (take m y)"
  by (rule nth_equalityI) simp_all

lemma low_high_mod: "0 \<le> u \<Longrightarrow> u < b \<Longrightarrow> 0 < M \<Longrightarrow> u + b * (v mod M) = (u + b * v) mod (b * M)" for u b v M :: int
proof -
  assume a: "0 \<le> u" "u < b" "0 < M"
  have "(u + b * v) mod (b * M) = b * ((u + b * v) div b mod M) + (u + b * v) mod b"
    using a(3) by (intro zmod_zmult2_eq) simp
  moreover have "(u + b * v) div b = v" using a by simp
  moreover have "(u + b * v) mod b = u" using a by simp
  ultimately show ?thesis by simp
qed

lemma addmul_value:
  fixes x :: limb and ADD :: bool and y res :: "limb list" and M :: nat
  assumes "length res \<ge> Suc M" "M \<le> length y"
  defines "r \<equiv> mpn_addmul_1_fixed (Suc M) M ADD y x res"
  shows "length r = length res" "drop (Suc M) r = drop (Suc M) res"
    "limbs_value (take (Suc M) r) =
      (uint x * limbs_value (take M y) + (if ADD then limbs_value (take (Suc M) res) else 0)) mod 2 ^ (64 * Suc M)"
proof -
  define lower where "lower = map (\<lambda>v. fst (mulx x v)) (take M y) @ [0]"
  define higher where "higher = map (\<lambda>v. snd (mulx x v)) (take M y) @ [0]"
  define q where "q = (if ADD then mpn_add_fixed_n (Suc M) lower res else take (Suc M) lower)"
  have len: "length lower = Suc M" "length higher = Suc M" using assms(2) by (simp_all add: lower_def higher_def)
  have q: "length q = Suc M" "limbs_value q =
      (limbs_value lower + (if ADD then limbs_value (take (Suc M) res) else 0)) mod 2 ^ (64 * Suc M)"
  proof -
    show "length q = Suc M" using add_fixed_value(1) [of "Suc M" lower res] len assms(1) by (simp add: q_def)
    have "limbs_value lower mod 2 ^ (64 * Suc M) = limbs_value lower"
      using limbs_value_bounds [of lower] len(1) by (simp add: mod_pos_pos_trivial del: mult_Suc_right)
    then show "limbs_value q = (limbs_value lower + (if ADD then limbs_value (take (Suc M) res) else 0)) mod 2 ^ (64 * Suc M)"
      using add_fixed_value(2) [of "Suc M" lower res] len assms(1) by (simp add: q_def del: mult_Suc_right)
  qed
  then obtain q0 q1 where q01: "q = q0 # q1" "length q1 = M" by (cases q) auto
  define s where "s = mpn_add_fixed_n M higher q1"
  have s: "length s = M" "limbs_value s = (limbs_value (take M higher) + limbs_value q1) mod 2 ^ (64 * M)"
    using add_fixed_value [of M higher q1] len q01 by (simp_all add: s_def)
  have e: "map (\<lambda>j. fst (mulx x (y ! j))) [0..<M] @ replicate (Suc M - M) 0 = lower"
    "map (\<lambda>j. snd (mulx x (y ! j))) [0..<M] @ replicate (Suc M - M) 0 = higher"
    using map_nth_take [OF assms(2), of "\<lambda>v. fst (mulx x v)"] map_nth_take [OF assms(2), of "\<lambda>v. snd (mulx x v)"]
    by (simp_all add: lower_def higher_def)
  have r: "r = (q0 # s) @ drop (Suc M) res"
    unfolding r_def mpn_addmul_1_fixed_def Let_def e q_def [symmetric] s_def by (simp add: q01(1))
  show "length r = length res" "drop (Suc M) r = drop (Suc M) res"
    using r s(1) assms(1) by simp_all
  have h: "limbs_value (take M higher) = limbs_value higher" "limbs_value lower = limbs_value (map (\<lambda>v. fst (mulx x v)) (take M y))"
    "limbs_value higher = limbs_value (map (\<lambda>v. snd (mulx x v)) (take M y))"
    using assms(2) by (simp_all add: higher_def lower_def limbs_value_append)
  have "limbs_value (take (Suc M) r) = uint q0 + 2 ^ 64 * ((limbs_value higher + limbs_value q1) mod 2 ^ (64 * M))"
    using r s h(1) by simp
  also have "\<dots> = (uint q0 + 2 ^ 64 * (limbs_value higher + limbs_value q1)) mod 2 ^ (64 * Suc M)"
    using low_high_mod [of "uint q0" "2 ^ 64" "2 ^ (64 * M)" "limbs_value higher + limbs_value q1"] uint_limb [of q0]
    by (simp add: power_add)
  also have "\<dots> = (limbs_value q + 2 ^ 64 * limbs_value higher) mod 2 ^ (64 * Suc M)"
    unfolding q01(1) limbs_value.simps by (rule arg_cong [where f = "\<lambda>t. t mod 2 ^ (64 * Suc M)"]) (simp add: algebra_simps)
  also have "\<dots> = (limbs_value lower + (if ADD then limbs_value (take (Suc M) res) else 0) + 2 ^ 64 * limbs_value higher) mod 2 ^ (64 * Suc M)"
    unfolding q(2) by (rule mod_add_left_eq)
  also have "limbs_value lower + (if ADD then limbs_value (take (Suc M) res) else 0) + 2 ^ 64 * limbs_value higher =
      uint x * limbs_value (take M y) + (if ADD then limbs_value (take (Suc M) res) else 0)"
    using products_value [of x "take M y"] h by simp
  finally show "limbs_value (take (Suc M) r) =
      (uint x * limbs_value (take M y) + (if ADD then limbs_value (take (Suc M) res) else 0)) mod 2 ^ (64 * Suc M)" .
qed

end
