(* ===== verification/Montgomery.thy ===== *)
theory Montgomery
  imports Limbs Gfp
begin

text \<open>
  Montgomery arithmetic: \<open>Zp_Data\<close> of \<open>Math/Zp_Data.h\<close> and \<open>Math/Zp_Data.cpp\<close>, and the
  elements \<open>modp_\<close> of \<open>Math/modp.h\<close> and \<open>Math/modp.hpp\<close> as vectors of \<open>t\<close> limbs. Both
  multiplication routines, the one for processors with BMI2 and the one over GMP, are
  modelled on the array that they accumulate in; its old contents are an argument.
\<close>

section \<open>The library\<close>

text \<open>What the code uses of GMP on limbs and integers, with the laws of GMP's manual.\<close>

record mpn_lib =
  mpn_cmp :: "limb list \<Rightarrow> limb list \<Rightarrow> nat \<Rightarrow> int"
  mpn_mul_1 :: "limb list \<Rightarrow> nat \<Rightarrow> limb \<Rightarrow> limb list \<times> limb"
  mpn_addmul_1 :: "limb list \<Rightarrow> limb list \<Rightarrow> nat \<Rightarrow> limb \<Rightarrow> limb list \<times> limb"
  mpn_sub_n :: "limb list \<Rightarrow> limb list \<Rightarrow> nat \<Rightarrow> limb list"
  mpn_mul_n :: "limb list \<Rightarrow> limb list \<Rightarrow> nat \<Rightarrow> limb list"
  mpn_sqr :: "limb list \<Rightarrow> nat \<Rightarrow> limb list"
  mpn_sub :: "limb list \<Rightarrow> nat \<Rightarrow> limb list \<Rightarrow> nat \<Rightarrow> limb list"
  mpn_tdiv_r :: "limb list \<Rightarrow> nat \<Rightarrow> limb list \<Rightarrow> nat \<Rightarrow> limb list"
  mpn_gcdext :: "limb list \<Rightarrow> limb list \<Rightarrow> nat \<Rightarrow> limb list \<times> int"
  mpz_invert :: "int \<Rightarrow> int \<Rightarrow> int"
  mpz_probable_prime :: "int \<Rightarrow> bool"
  mpz_sizeinbase :: "int \<Rightarrow> nat \<Rightarrow> nat"

definition cmp_ok :: "mpn_lib \<Rightarrow> bool" where
  "cmp_ok L \<longleftrightarrow> (\<forall>x y n. n \<le> length x \<longrightarrow> n \<le> length y \<longrightarrow>
     (0 \<le> mpn_cmp L x y n \<longleftrightarrow> limbs_value (take n y) \<le> limbs_value (take n x)) \<and>
     (mpn_cmp L x y n = 0 \<longleftrightarrow> take n x = take n y))"

definition sub_n_ok :: "mpn_lib \<Rightarrow> bool" where
  "sub_n_ok L \<longleftrightarrow> (\<forall>x y n. n \<le> length x \<longrightarrow> n \<le> length y \<longrightarrow>
     length (mpn_sub_n L x y n) = n \<and>
     limbs_value (mpn_sub_n L x y n) = (limbs_value (take n x) - limbs_value (take n y)) mod 2 ^ (64 * n))"

definition mul_n_ok :: "mpn_lib \<Rightarrow> bool" where
  "mul_n_ok L \<longleftrightarrow> (\<forall>x y n. n \<le> length x \<longrightarrow> n \<le> length y \<longrightarrow>
     length (mpn_mul_n L x y n) = 2 * n \<and>
     limbs_value (mpn_mul_n L x y n) = limbs_value (take n x) * limbs_value (take n y))"

definition mul_1_ok :: "mpn_lib \<Rightarrow> bool" where
  "mul_1_ok L \<longleftrightarrow> (\<forall>y n v. n \<le> length y \<longrightarrow>
     length (fst (mpn_mul_1 L y n v)) = n \<and>
     limbs_value (fst (mpn_mul_1 L y n v)) + 2 ^ (64 * n) * uint (snd (mpn_mul_1 L y n v)) =
       limbs_value (take n y) * uint v)"

definition addmul_1_ok :: "mpn_lib \<Rightarrow> bool" where
  "addmul_1_ok L \<longleftrightarrow> (\<forall>r y n v. n \<le> length r \<longrightarrow> n \<le> length y \<longrightarrow>
     length (fst (mpn_addmul_1 L r y n v)) = n \<and>
     limbs_value (fst (mpn_addmul_1 L r y n v)) + 2 ^ (64 * n) * uint (snd (mpn_addmul_1 L r y n v)) =
       limbs_value (take n r) + limbs_value (take n y) * uint v)"

definition tdiv_ok :: "mpn_lib \<Rightarrow> bool" where
  "tdiv_ok L \<longleftrightarrow> (\<forall>a m d n. n \<le> m \<longrightarrow> m \<le> length a \<longrightarrow> n \<le> length d \<longrightarrow> 0 < n \<longrightarrow> d ! (n - 1) \<noteq> 0 \<longrightarrow>
     length (mpn_tdiv_r L a m d n) = n \<and>
     limbs_value (mpn_tdiv_r L a m d n) = limbs_value (take m a) mod limbs_value (take n d))"

definition sqr_ok :: "mpn_lib \<Rightarrow> bool" where
  "sqr_ok L \<longleftrightarrow> (\<forall>x n. n \<le> length x \<longrightarrow>
     length (mpn_sqr L x n) = 2 * n \<and> limbs_value (mpn_sqr L x n) = limbs_value (take n x) * limbs_value (take n x))"

definition sub_ok :: "mpn_lib \<Rightarrow> bool" where
  "sub_ok L \<longleftrightarrow> (\<forall>x n y m. m \<le> n \<longrightarrow> n \<le> length x \<longrightarrow> m \<le> length y \<longrightarrow>
     length (mpn_sub L x n y m) = n \<and>
     limbs_value (mpn_sub L x n y m) = (limbs_value (take n x) - limbs_value (take m y)) mod 2 ^ (64 * n))"

text \<open>The extended gcd returns the limbs of a cofactor and their signed number.\<close>

definition cofactor :: "limb list \<times> int \<Rightarrow> int" where
  "cofactor = (\<lambda>(s, sz). sgn sz * limbs_value (take (nat \<bar>sz\<bar>) s))"

definition gcdext_ok :: "mpn_lib \<Rightarrow> bool" where
  "gcdext_ok L \<longleftrightarrow> (\<forall>x y n. n \<le> length x \<longrightarrow> n \<le> length y \<longrightarrow>
     0 < limbs_value (take n x) \<longrightarrow> limbs_value (take n x) < limbs_value (take n y) \<longrightarrow>
     length (fst (mpn_gcdext L x y n)) = n \<and> \<bar>snd (mpn_gcdext L x y n)\<bar> \<le> int n \<and>
     \<bar>cofactor (mpn_gcdext L x y n)\<bar> < limbs_value (take n y) \<and>
     (cofactor (mpn_gcdext L x y n) * limbs_value (take n x)) mod limbs_value (take n y) =
       gcd (limbs_value (take n x)) (limbs_value (take n y)) mod limbs_value (take n y))"

definition invert_ok :: "mpn_lib \<Rightarrow> bool" where
  "invert_ok L \<longleftrightarrow> (\<forall>x m. 1 < m \<longrightarrow> coprime x m \<longrightarrow>
     0 \<le> mpz_invert L x m \<and> mpz_invert L x m < m \<and> (mpz_invert L x m * x) mod m = 1)"

definition mpn_ok :: "mpn_lib \<Rightarrow> bool" where
  "mpn_ok L \<longleftrightarrow> cmp_ok L \<and> sub_n_ok L \<and> mul_n_ok L \<and> mul_1_ok L \<and> addmul_1_ok L \<and> tdiv_ok L \<and> invert_ok L \<and>
     sqr_ok L \<and> sub_ok L \<and> gcdext_ok L"

lemma mpn_okD:
  assumes "mpn_ok L" "n \<le> length x" "n \<le> length y"
  shows "0 \<le> mpn_cmp L x y n \<longleftrightarrow> limbs_value (take n y) \<le> limbs_value (take n x)"
    "mpn_cmp L x y n = 0 \<longleftrightarrow> take n x = take n y"
    "length (mpn_sub_n L x y n) = n"
    "limbs_value (mpn_sub_n L x y n) = (limbs_value (take n x) - limbs_value (take n y)) mod 2 ^ (64 * n)"
    "length (mpn_mul_n L x y n) = 2 * n"
    "limbs_value (mpn_mul_n L x y n) = limbs_value (take n x) * limbs_value (take n y)"
  using assms by (simp_all add: mpn_ok_def cmp_ok_def sub_n_ok_def mul_n_ok_def)

lemma mul_1D:
  assumes "mpn_ok L" "n \<le> length y" "mpn_mul_1 L y n v = (lo, c)"
  shows "length lo = n" "limbs_value lo + 2 ^ (64 * n) * uint c = limbs_value (take n y) * uint v"
proof -
  have "mul_1_ok L" using assms(1) by (simp add: mpn_ok_def)
  then show "length lo = n" "limbs_value lo + 2 ^ (64 * n) * uint c = limbs_value (take n y) * uint v"
    using assms(2,3) unfolding mul_1_ok_def by (metis fst_conv, metis fst_conv snd_conv)
qed

lemma addmul_1D:
  assumes "mpn_ok L" "n \<le> length r" "n \<le> length y" "mpn_addmul_1 L r y n v = (lo, c)"
  shows "length lo = n"
    "limbs_value lo + 2 ^ (64 * n) * uint c = limbs_value (take n r) + limbs_value (take n y) * uint v"
proof -
  have "addmul_1_ok L" using assms(1) by (simp add: mpn_ok_def)
  then show "length lo = n"
    "limbs_value lo + 2 ^ (64 * n) * uint c = limbs_value (take n r) + limbs_value (take n y) * uint v"
    using assms(2-4) unfolding addmul_1_ok_def by (metis fst_conv, metis fst_conv snd_conv)
qed

definition MAX_MOD_SZ :: nat where
  "MAX_MOD_SZ = 10"

text \<open>The \<open>n\<close> low limbs of a number, as \<open>mpz_t\<close> stores them.\<close>

definition int_limbs :: "nat \<Rightarrow> int \<Rightarrow> limb list" where
  "int_limbs n x = map (\<lambda>i. word_of_int (x div 2 ^ (64 * i))) [0..<n]"

section \<open>The modulus\<close>

record zp_data =
  zp_montgomery :: bool
  zp_R :: "limb list"
  zp_R2 :: "limb list"
  zp_R3 :: "limb list"
  zp_pi :: limb
  zp_prA :: "limb list"
  zp_t :: nat
  zp_overhang :: limb
  zp_pr :: int
  zp_pr_half :: int
  zp_mask :: limb
  zp_pr_byte_length :: nat
  zp_pr_bit_length :: nat

text \<open>\<open>Zp_Data::init\<close>, for a modulus of at least two limb values; \<open>t\<close> is \<open>mpz_size\<close>.\<close>

fun limb_count :: "nat \<Rightarrow> nat" where
  "limb_count n = (if n = 0 then 0 else Suc (limb_count (n div 2 ^ 64)))"

declare limb_count.simps [simp del]

definition mpz_size :: "int \<Rightarrow> nat" where
  "mpz_size x = limb_count (nat \<bar>x\<bar>)"

definition Zp_init :: "mpn_lib \<Rightarrow> int \<Rightarrow> bool \<Rightarrow> zp_data \<Rightarrow> err + zp_data" where
  "Zp_init L p mont D =
     (if \<not> mpz_probable_prime L p then Inl (Runtime_error ''not a prime'')
      else
        let k = mpz_sizeinbase L p 2; t = mpz_size p;
            D = D\<lparr>zp_pr := p, zp_pr_half := p div 2, zp_mask := push_bit ((k - 1) mod 64) 1 - 1,
              zp_pr_byte_length := mpz_sizeinbase L p 256, zp_pr_bit_length := k,
              zp_overhang := drop_bit (63 - (k - 1) mod 64) (- 1), zp_montgomery := mont, zp_t := t\<rparr> in
        if MAX_MOD_SZ < t then Inl Invalid_params
        else
          let D = (if mont then
                let r = 2 ^ (t * 64);
                    pp = r - mpz_invert L p r;
                    D = D\<lparr>zp_pi := word_of_int pp\<rparr>;
                    r = r mod p;
                    r2 = (r * r) mod p;
                    r3 = (r2 * r) mod p
                in D\<lparr>zp_R := int_limbs MAX_MOD_SZ r, zp_R2 := int_limbs MAX_MOD_SZ r2, zp_R3 := int_limbs MAX_MOD_SZ r3\<rparr>
              else D)
          in Inr (D\<lparr>zp_prA := int_limbs (MAX_MOD_SZ + 1) p\<rparr>))"

section \<open>Addition and subtraction\<close>

definition Zp_Add :: "mpn_lib \<Rightarrow> zp_data \<Rightarrow> limb list \<Rightarrow> limb list \<Rightarrow> limb list" where
  "Zp_Add L D x y =
     (let (ans, carry) = mpn_add_n_with_carry x y (zp_t D)
      in if carry \<or> 0 \<le> mpn_cmp L ans (zp_prA D) (zp_t D)
         then fst (mpn_sub_n_borrow ans (zp_prA D) (zp_t D)) else ans)"

definition Zp_Sub :: "zp_data \<Rightarrow> limb list \<Rightarrow> limb list \<Rightarrow> limb list" where
  "Zp_Sub D x y =
     (let (ans, borrow) = mpn_sub_n_borrow x y (zp_t D)
      in if borrow then fst (mpn_add_n_with_carry ans (zp_prA D) (zp_t D)) else ans)"

section \<open>Montgomery multiplication\<close>

definition at_offset :: "nat \<Rightarrow> ('a list \<Rightarrow> 'a list) \<Rightarrow> 'a list \<Rightarrow> 'a list" where
  "at_offset i f ans = take i ans @ f (drop i ans)"

text \<open>One round of \<open>Mont_Mult_<T>\<close>, and the routine.\<close>

definition mont_step_fixed :: "mpn_lib \<Rightarrow> zp_data \<Rightarrow> nat \<Rightarrow> limb list \<Rightarrow> limb list \<Rightarrow> nat \<Rightarrow> limb list \<Rightarrow> limb list" where
  "mont_step_fixed L D T x y i ans =
     (let u = (ans ! i + x ! i * y ! 0) * zp_pi D;
          ans = at_offset i (mpn_addmul_1_fixed (T + 1) T True y (x ! i)) ans
      in at_offset i (mpn_addmul_1_fixed (T + 2) (T + 1) True (zp_prA D) u) ans)"

definition mont_first_fixed :: "mpn_lib \<Rightarrow> zp_data \<Rightarrow> nat \<Rightarrow> limb list \<Rightarrow> limb list \<Rightarrow> limb list \<Rightarrow> limb list" where
  "mont_first_fixed L D T x y ans =
     (let ans = take (T + 1) ans @ replicate T 0 @ drop (2 * T + 1) ans;
          u = x ! 0 * y ! 0 * zp_pi D;
          ans = mpn_addmul_1_fixed (T + 1) T False y (x ! 0) ans
      in mpn_addmul_1_fixed (T + 2) (T + 1) True (zp_prA D) u ans)"

definition Mont_Mult_fixed :: "mpn_lib \<Rightarrow> zp_data \<Rightarrow> nat \<Rightarrow> limb list \<Rightarrow> limb list \<Rightarrow> limb list \<Rightarrow> limb list" where
  "Mont_Mult_fixed L D T ans x y =
     (let ans = mont_first_fixed L D T x y ans;
          ans = foldl (\<lambda>ans i. mont_step_fixed L D T x y i ans) ans [1..<T]
      in if 0 \<le> mpn_cmp L (drop T ans) (zp_prA D) (T + 1)
         then mpn_sub_fixed_n T (drop T ans) (zp_prA D)
         else take T (drop T ans))"

text \<open>The same over GMP's routines, \<open>Mont_Mult\<close> with a length argument.\<close>

definition mont_step :: "mpn_lib \<Rightarrow> zp_data \<Rightarrow> nat \<Rightarrow> limb list \<Rightarrow> limb list \<Rightarrow> nat \<Rightarrow> limb list \<Rightarrow> limb list" where
  "mont_step L D t x y i ans =
     (let u = (ans ! i + x ! i * y ! 0) * zp_pi D;
          (lo, c) = mpn_addmul_1 L (drop i ans) y t (x ! i);
          ans = take i ans @ lo @ (ans ! (t + i) + c) # drop (t + i + 1) ans;
          (lo, c) = mpn_addmul_1 L (drop i ans) (zp_prA D) (t + 1) u
      in take i ans @ lo @ c # drop (t + i + 2) ans)"

definition mont_first :: "mpn_lib \<Rightarrow> zp_data \<Rightarrow> nat \<Rightarrow> limb list \<Rightarrow> limb list \<Rightarrow> limb list \<Rightarrow> limb list" where
  "mont_first L D t x y ans =
     (let u = x ! 0 * y ! 0 * zp_pi D;
          (lo, c) = mpn_mul_1 L y t (x ! 0);
          ans = lo @ c # drop (t + 1) ans;
          (lo, c) = mpn_addmul_1 L ans (zp_prA D) (t + 1) u
      in lo @ c # drop (t + 2) ans)"

definition Mont_Mult_variable :: "mpn_lib \<Rightarrow> zp_data \<Rightarrow> nat \<Rightarrow> limb list \<Rightarrow> limb list \<Rightarrow> limb list \<Rightarrow> limb list" where
  "Mont_Mult_variable L D t ans x y =
     (let ans = mont_first L D t x y ans;
          ans = foldl (\<lambda>ans i. mont_step L D t x y i ans) ans [1..<t]
      in if 0 \<le> mpn_cmp L (drop t ans) (zp_prA D) (t + 1)
         then mpn_sub_n L (drop t ans) (zp_prA D) t
         else take t (drop t ans))"

text \<open>\<open>Mont_Mult\<close> dispatches on the processor and the length.\<close>

definition Mont_Mult :: "mpn_lib \<Rightarrow> bool \<Rightarrow> zp_data \<Rightarrow> limb list \<Rightarrow> limb list \<Rightarrow> limb list \<Rightarrow> limb list" where
  "Mont_Mult L bmi2 D ans x y =
     (if \<not> bmi2 then Mont_Mult_variable L D (zp_t D) ans x y
      else if zp_t D \<in> {1..10} then Mont_Mult_fixed L D (zp_t D) ans x y
      else Mont_Mult_variable L D (zp_t D) ans x y)"

section \<open>The loop\<close>

definition mont_ok :: "mpn_lib \<Rightarrow> zp_data \<Rightarrow> bool" where
  "mont_ok L D \<longleftrightarrow>
     mpn_ok L \<and> 0 < zp_t D \<and> zp_t D \<le> MAX_MOD_SZ \<and> length (zp_prA D) = MAX_MOD_SZ + 1 \<and>
     limbs_value (take (zp_t D) (zp_prA D)) = zp_pr D \<and> zp_prA D ! zp_t D = 0 \<and> 1 < zp_pr D \<and>
     (zp_pr D * uint (zp_pi D) + 1) mod 2 ^ 64 = 0 \<and>
     zp_pr D * (2 ^ 64 + 1) \<le> 2 ^ (64 * (zp_t D + 1))"

text \<open>What one round must do to the array, whatever computes it.\<close>

definition round_ok :: "zp_data \<Rightarrow> limb list \<Rightarrow> limb \<Rightarrow> int \<Rightarrow> nat \<Rightarrow> limb list \<Rightarrow> limb list \<Rightarrow> bool" where
  "round_ok D y v w i ans ans' \<longleftrightarrow>
     length ans' = length ans \<and>
     limbs_value (take (zp_t D + 2) (drop i ans')) =
       w + uint v * limbs_value y + (w + uint v * limbs_value y) * uint (zp_pi D) mod 2 ^ 64 * zp_pr D"

lemma round_arith:
  fixes p q Y w v :: int
  defines "s \<equiv> w + v * Y"
  assumes "(p * q + 1) mod 2 ^ 64 = 0" "0 \<le> w" "w < Y + p" "0 \<le> v" "v < 2 ^ 64" "0 \<le> Y" "0 < p"
  shows "(s + s * q mod 2 ^ 64 * p) mod 2 ^ 64 = 0" "(s + s * q mod 2 ^ 64 * p) div 2 ^ 64 < Y + p"
    "0 \<le> (s + s * q mod 2 ^ 64 * p) div 2 ^ 64"
proof -
  define u where "u = s * q mod 2 ^ 64"
  have u: "0 \<le> u" "u \<le> 2 ^ 64 - 1" by (simp_all add: u_def)
  have "(s + u * p) mod 2 ^ 64 = (s + (s * q) * p) mod 2 ^ 64"
    unfolding u_def by (rule mod_add_cong [OF refl]) (rule mod_mult_left_eq)
  also have "s + (s * q) * p = s * (p * q + 1)" by (simp add: algebra_simps)
  also have "s * (p * q + 1) mod 2 ^ 64 = s * ((p * q + 1) mod 2 ^ 64) mod 2 ^ 64" by (rule mod_mult_right_eq [symmetric])
  finally show "(s + s * q mod 2 ^ 64 * p) mod 2 ^ 64 = 0" using assms(2) by (simp add: u_def)
  have "v * Y \<le> (2 ^ 64 - 1) * Y" "u * p \<le> (2 ^ 64 - 1) * p"
    using assms u by (intro mult_right_mono; simp)+
  then have "s + u * p < 2 ^ 64 * (Y + p)" using assms(4) by (simp add: s_def algebra_simps)
  then show "(s + s * q mod 2 ^ 64 * p) div 2 ^ 64 < Y + p"
    unfolding u_def [symmetric] by (simp add: div_less_iff_less_mult mult.commute)
  have "0 \<le> s" using assms by (simp add: s_def)
  then show "0 \<le> (s + s * q mod 2 ^ 64 * p) div 2 ^ 64"
    using u assms(8) unfolding u_def [symmetric] by (simp add: pos_imp_zdiv_nonneg_iff)
qed

lemma take_drop_Suc: "i < length xs \<Longrightarrow> take (Suc n) (drop i xs) = xs ! i # take n (drop (Suc i) xs)"
  by (simp add: Cons_nth_drop_Suc [symmetric])

lemma uint_zero_of_mod: "(uint (a :: limb) + 2 ^ 64 * w) mod 2 ^ 64 = 0 \<Longrightarrow> uint a = 0"
  using uint_limb [of a] by simp

text \<open>The next window of the array after a round.\<close>

lemma round_next:
  assumes D: "mont_ok L D" and r: "round_ok D y v w i ans ans'" and i: "i < length ans"
    and w: "0 \<le> w" "w < limbs_value y + zp_pr D"
  defines "w' \<equiv> limbs_value (take (zp_t D + 1) (drop (Suc i) ans'))"
  shows "w' < limbs_value y + zp_pr D" "2 ^ 64 * w' mod zp_pr D = (w + uint v * limbs_value y) mod zp_pr D"
proof -
  let ?q = "uint (zp_pi D)" and ?p = "zp_pr D" and ?s = "w + uint v * limbs_value y"
  have q: "(?p * ?q + 1) mod 2 ^ 64 = 0" "0 < ?p" using D by (simp_all add: mont_ok_def)
  note a = round_arith [OF q(1) w uint_limb [of v] limbs_value_nonneg q(2)]
  have "limbs_value (take (zp_t D + 2) (drop i ans')) = uint (ans' ! i) + 2 ^ 64 * w'"
    using take_drop_Suc [of i ans' "zp_t D + 1"] i r by (simp add: w'_def round_ok_def)
  then have t: "uint (ans' ! i) + 2 ^ 64 * w' = ?s + ?s * ?q mod 2 ^ 64 * ?p"
    using r by (simp add: round_ok_def)
  then have "(uint (ans' ! i) + 2 ^ 64 * w') mod 2 ^ 64 = 0" using a(1) by simp
  then have z: "uint (ans' ! i) = 0" by (rule uint_zero_of_mod)
  then have e: "2 ^ 64 * w' = ?s + ?s * ?q mod 2 ^ 64 * ?p" using t by linarith
  then have "w' = (?s + ?s * ?q mod 2 ^ 64 * ?p) div 2 ^ 64"
    by (metis nonzero_mult_div_cancel_left power_eq_0_iff zero_neq_numeral)
  then show "w' < limbs_value y + ?p" using a(2) by simp
  show "2 ^ 64 * w' mod ?p = ?s mod ?p" unfolding e by simp
qed

locale montgomery =
  fixes first :: "mpn_lib \<Rightarrow> zp_data \<Rightarrow> nat \<Rightarrow> limb list \<Rightarrow> limb list \<Rightarrow> limb list \<Rightarrow> limb list"
    and step :: "mpn_lib \<Rightarrow> zp_data \<Rightarrow> nat \<Rightarrow> limb list \<Rightarrow> limb list \<Rightarrow> nat \<Rightarrow> limb list \<Rightarrow> limb list"
    and clean :: "nat \<Rightarrow> nat \<Rightarrow> limb list \<Rightarrow> bool"
  assumes first_ok: "mont_ok L D \<Longrightarrow> zp_t D = T \<Longrightarrow> length ans = 2 * MAX_MOD_SZ + 1 \<Longrightarrow>
      length x = T \<Longrightarrow> length y = T \<Longrightarrow> limbs_value y < zp_pr D \<Longrightarrow>
      round_ok D y (x ! 0) 0 0 ans (first L D T x y ans) \<and> clean T 1 (first L D T x y ans)"
    and step_ok: "mont_ok L D \<Longrightarrow> zp_t D = T \<Longrightarrow> length ans = 2 * MAX_MOD_SZ + 1 \<Longrightarrow>
      length x = T \<Longrightarrow> length y = T \<Longrightarrow> limbs_value y < zp_pr D \<Longrightarrow> clean T i ans \<Longrightarrow> 0 < i \<Longrightarrow> i < T \<Longrightarrow>
      limbs_value (take (T + 1) (drop i ans)) < limbs_value y + zp_pr D \<Longrightarrow>
      round_ok D y (x ! i) (limbs_value (take (T + 1) (drop i ans))) i ans (step L D T x y i ans) \<and>
      clean T (Suc i) (step L D T x y i ans)"
begin

definition window :: "zp_data \<Rightarrow> limb list \<Rightarrow> limb list \<Rightarrow> nat \<Rightarrow> limb list \<Rightarrow> bool" where
  "window D x y k ans \<longleftrightarrow>
     length ans = 2 * MAX_MOD_SZ + 1 \<and> clean (zp_t D) k ans \<and>
     limbs_value (take (zp_t D + 1) (drop k ans)) < limbs_value y + zp_pr D \<and>
     2 ^ (64 * k) * limbs_value (take (zp_t D + 1) (drop k ans)) mod zp_pr D =
       limbs_value (take k x) * limbs_value y mod zp_pr D"

lemma window_next:
  assumes D: "mont_ok L D" and r: "round_ok D y (x ! i) w i ans ans'" and c: "clean (zp_t D) (Suc i) ans'"
    and i: "i < length ans" "length ans = 2 * MAX_MOD_SZ + 1" "i < length x" and w: "0 \<le> w" "w < limbs_value y + zp_pr D"
    and e: "2 ^ (64 * i) * w mod zp_pr D = limbs_value (take i x) * limbs_value y mod zp_pr D"
  shows "window D x y (Suc i) ans'"
proof -
  let ?p = "zp_pr D" and ?w = "limbs_value (take (zp_t D + 1) (drop (Suc i) ans'))"
  note n = round_next [OF D r i(1) w]
  have "2 ^ (64 * Suc i) * ?w mod ?p = 2 ^ (64 * i) * (2 ^ 64 * ?w) mod ?p"
    by (simp add: power_add ac_simps)
  also have "\<dots> = 2 ^ (64 * i) * (w + uint (x ! i) * limbs_value y) mod ?p"
    by (rule mod_mult_cong [OF refl n(2)])
  also have "\<dots> = (2 ^ (64 * i) * w + 2 ^ (64 * i) * uint (x ! i) * limbs_value y) mod ?p"
    by (simp only: distrib_left mult.assoc)
  also have "\<dots> = (limbs_value (take i x) * limbs_value y + 2 ^ (64 * i) * uint (x ! i) * limbs_value y) mod ?p"
    by (rule mod_add_cong [OF e refl])
  also have "\<dots> = limbs_value (take (Suc i) x) * limbs_value y mod ?p"
    using i(3) by (simp add: take_Suc_conv_app_nth limbs_value_append distrib_right)
  finally show ?thesis using n(1) c r i(2) by (simp add: window_def round_ok_def)
qed

lemma window_loop:
  assumes D: "mont_ok L D" "zp_t D = T" and l: "length ans = 2 * MAX_MOD_SZ + 1" "length x = T" "length y = T"
    and y: "limbs_value y < zp_pr D"
  shows "window D x y T (foldl (\<lambda>ans i. step L D T x y i ans) (first L D T x y ans) [1..<T])"
proof -
  have T: "0 < T" "T \<le> MAX_MOD_SZ" using D by (simp_all add: mont_ok_def)
  have p: "0 < zp_pr D" using D by (simp add: mont_ok_def)
  have "window D x y k (foldl (\<lambda>ans i. step L D T x y i ans) (first L D T x y ans) [1..<k])" if "0 < k" "k \<le> T" for k
    using that
  proof (induction k)
    case 0
    then show ?case by simp
  next
    case (Suc k)
    show ?case
    proof (cases "k = 0")
      case True
      note f = first_ok [OF D l y]
      have "window D x y (Suc 0) (first L D T x y ans)"
        by (rule window_next [OF D(1) conjunct1 [OF f]])
          (use f D(2) l T p y in \<open>auto intro: add_nonneg_pos\<close>)
      with True show ?thesis by simp
    next
      case False
      define a where "a = foldl (\<lambda>ans i. step L D T x y i ans) (first L D T x y ans) [1..<k]"
      have w: "window D x y k a" using Suc False by (simp add: a_def)
      have k: "0 < k" "k < T" "k < length a" using False Suc.prems w T by (simp_all add: window_def)
      have st: "round_ok D y (x ! k) (limbs_value (take (T + 1) (drop k a))) k a (step L D T x y k a) \<and>
          clean T (Suc k) (step L D T x y k a)"
        by (rule step_ok [OF D _ l(2,3) y _ k(1,2)]) (use w D(2) in \<open>simp_all add: window_def\<close>)
      have "window D x y (Suc k) (step L D T x y k a)"
        by (rule window_next [OF D(1) conjunct1 [OF st] _ k(3)])
          (use w D(2) st k l in \<open>simp_all add: window_def\<close>)
      then show ?thesis using k(1) by (simp add: a_def)
    qed
  qed
  then show ?thesis using T by blast
qed

text \<open>The final comparison and subtraction give the reduced Montgomery product.\<close>

lemma product_ok:
  assumes D: "mont_ok L D" "zp_t D = T" and l: "length ans = 2 * MAX_MOD_SZ + 1" "length x = T" "length y = T"
    and y: "limbs_value y < zp_pr D"
    and sub: "\<And>u. T + 1 \<le> length u \<Longrightarrow> length (sub u) = T \<and>
      limbs_value (sub u) = (limbs_value (take T u) - limbs_value (take T (zp_prA D))) mod 2 ^ (64 * T)"
  defines "a \<equiv> foldl (\<lambda>ans i. step L D T x y i ans) (first L D T x y ans) [1..<T]"
  defines "z \<equiv> if 0 \<le> mpn_cmp L (drop T a) (zp_prA D) (T + 1) then sub (drop T a) else take T (drop T a)"
  shows "length z = T" "limbs_value z < zp_pr D"
    "2 ^ (64 * T) * limbs_value z mod zp_pr D = limbs_value x * limbs_value y mod zp_pr D"
proof -
  let ?p = "zp_pr D" and ?w = "limbs_value (take (T + 1) (drop T a))"
  have T: "0 < T" "T \<le> MAX_MOD_SZ" "1 < ?p" "length (zp_prA D) = MAX_MOD_SZ + 1" "mpn_ok L"
    and pA: "limbs_value (take T (zp_prA D)) = ?p" "zp_prA D ! T = 0" using D by (simp_all add: mont_ok_def)
  have "window D x y T a" unfolding a_def by (rule window_loop [OF D l y])
  then have w: "length a = 2 * MAX_MOD_SZ + 1" "?w < limbs_value y + ?p"
      "2 ^ (64 * T) * ?w mod ?p = limbs_value x * limbs_value y mod ?p"
    using D(2) l(2) by (simp_all add: window_def)
  have la: "T + 1 \<le> length (drop T a)" "T + 1 \<le> length (zp_prA D)" using w(1) T by simp_all
  have "limbs_value (take (T + 1) (zp_prA D)) = ?p"
    using pA T by (simp add: take_Suc_conv_app_nth limbs_value_append)
  then have cmp: "0 \<le> mpn_cmp L (drop T a) (zp_prA D) (T + 1) \<longleftrightarrow> ?p \<le> ?w"
    using mpn_okD(1) [OF T(5) la] by simp
  have low: "?w = limbs_value (take T (drop T a)) + 2 ^ (64 * T) * uint (drop T a ! T)"
    using la(1) by (simp add: take_Suc_conv_app_nth limbs_value_append)
  have pb: "?p < 2 ^ (64 * T)" using limbs_value_bounds [of "take T (zp_prA D)"] pA(1) T by simp
  have "length z = T \<and> limbs_value z < ?p \<and> limbs_value z mod ?p = ?w mod ?p"
  proof (cases "?p \<le> ?w")
    case True
    then have z: "z = sub (drop T a)" using cmp by (simp add: z_def)
    have lz: "length z = T" using sub [OF la(1)] by (simp add: z)
    have "limbs_value z = (limbs_value (take T (drop T a)) - ?p) mod 2 ^ (64 * T)"
      using sub [OF la(1)] pA(1) by (simp add: z)
    also have "(limbs_value (take T (drop T a)) - ?p) mod 2 ^ (64 * T) = (?w - ?p) mod 2 ^ (64 * T)"
      unfolding low by (simp add: diff_add_eq [symmetric])
    also have "\<dots> = ?w - ?p" using True w(2) y pb by (intro mod_pos_pos_trivial) linarith+
    finally show ?thesis using w(2) y lz by simp
  next
    case False
    then have z: "z = take T (drop T a)" using cmp by (simp add: z_def)
    have "uint (drop T a ! T) = 0"
    proof (rule ccontr)
      assume "uint (drop T a ! T) \<noteq> 0"
      then have "2 ^ (64 * T) * 1 \<le> 2 ^ (64 * T) * uint (drop T a ! T)"
        using uint_limb(1) [of "drop T a ! T"] by (intro mult_left_mono) (linarith, simp)
      then show False using False low pb limbs_value_nonneg [of "take T (drop T a)"] by linarith
    qed
    then show ?thesis using False low la(1) by (simp add: z)
  qed
  then show "length z = T" "limbs_value z < ?p" "2 ^ (64 * T) * limbs_value z mod ?p = limbs_value x * limbs_value y mod ?p"
    using w(3) mod_mult_cong [OF refl, of "limbs_value z" ?p ?w "2 ^ (64 * T)"] by simp_all
qed

end

section \<open>The two routines\<close>

lemma uint_factor:
  assumes "uint a = w mod 2 ^ 64" "uint y0 = Y mod 2 ^ 64"
  shows "uint ((a + v * y0) * q :: limb) = (w + uint v * Y) * uint q mod 2 ^ 64"
proof -
  have "uint ((a + v * y0) * q) = (w mod 2 ^ 64 + uint v * (Y mod 2 ^ 64)) * uint q mod 2 ^ 64"
    unfolding assms [symmetric] by (simp add: uint_word_ariths mod_simps)
  also have "\<dots> = (w + uint v * Y) * uint q mod 2 ^ 64"
    by (rule mod_mult_cong [OF mod_add_cong [OF mod_mod_trivial mod_mult_right_eq] refl])
  finally show ?thesis .
qed

lemma no_overflow:
  fixes v :: limb
  assumes "mont_ok L D" "limbs_value y < zp_pr D" "0 \<le> w" "w < limbs_value y + zp_pr D"
  shows "w + uint v * limbs_value y < 2 ^ (64 * (zp_t D + 1))"
    "uint (u :: limb) * zp_pr D + (w + uint v * limbs_value y) < 2 ^ (64 * (zp_t D + 2))"
proof -
  have p: "zp_pr D * (2 ^ 64 + 1) \<le> 2 ^ (64 * (zp_t D + 1))" "1 < zp_pr D" using assms(1) by (simp_all add: mont_ok_def)
  have v: "uint v * limbs_value y \<le> (2 ^ 64 - 1) * limbs_value y"
    using uint_limb [of v] by (intro mult_right_mono) simp_all
  have u: "uint u * zp_pr D \<le> (2 ^ 64 - 1) * zp_pr D"
    using uint_limb [of u] p by (intro mult_right_mono) simp_all
  have "(2 ^ 64 - 1) * limbs_value y \<le> (2 ^ 64 - 1) * zp_pr D" using assms(2) by (intro mult_left_mono) simp_all
  then show a: "w + uint v * limbs_value y < 2 ^ (64 * (zp_t D + 1))"
    using v assms(2-4) p(1) by (simp add: algebra_simps)
  have "(2 ^ 64 - 1) * zp_pr D < 2 ^ (64 * (zp_t D + 1))" using p by (simp add: algebra_simps)
  then have "uint u * zp_pr D + (w + uint v * limbs_value y) < 2 * 2 ^ (64 * (zp_t D + 1))" using a u by linarith
  also have "\<dots> \<le> 2 ^ 64 * 2 ^ (64 * (zp_t D + 1))" by (intro mult_right_mono) simp_all
  finally show "uint u * zp_pr D + (w + uint v * limbs_value y) < 2 ^ (64 * (zp_t D + 2))" by (simp add: power_add)
qed

lemma prA_value:
  assumes "mont_ok L D"
  shows "limbs_value (take (zp_t D + 1) (zp_prA D)) = zp_pr D" "zp_t D + 1 \<le> length (zp_prA D)" "zp_t D \<le> 10"
    "zp_t D \<le> length (zp_prA D)" "limbs_value (take (zp_t D) (zp_prA D)) = zp_pr D" "mpn_ok L" "0 < zp_pr D"
  using assms by (simp_all add: mont_ok_def MAX_MOD_SZ_def take_Suc_conv_app_nth limbs_value_append)

lemma value_take_Suc: "n < length xs \<Longrightarrow> limbs_value (take (Suc n) xs) = limbs_value (take n xs) + 2 ^ (64 * n) * uint (xs ! n)"
  by (simp add: take_Suc_conv_app_nth limbs_value_append)

lemma fixed_round:
  fixes u v :: limb and ADD :: bool and y A :: "limb list" and T :: nat and D :: zp_data
  assumes D: "mont_ok L D" "zp_t D = T" and y: "length y = T" "limbs_value y < zp_pr D"
    and A: "T + 2 \<le> length A" "A ! (T + 1) = 0"
    and w: "w = (if ADD then limbs_value (take (T + 1) A) else 0)" "w < limbs_value y + zp_pr D"
  defines "r \<equiv> mpn_addmul_1_fixed (T + 2) (T + 1) True (zp_prA D) u (mpn_addmul_1_fixed (T + 1) T ADD y v A)"
  shows "length r = length A" "drop (T + 2) r = drop (T + 2) A"
    "limbs_value (take (T + 2) r) = w + uint v * limbs_value y + uint u * zp_pr D"
proof -
  define B where "B = mpn_addmul_1_fixed (T + 1) T ADD y v A"
  have w0: "0 \<le> w" by (simp add: w(1))
  note no = no_overflow [OF D(1) y(2) w0 w(2)]
  have B: "length B = length A" "drop (Suc T) B = drop (Suc T) A"
      "limbs_value (take (Suc T) B) = (uint v * limbs_value (take T y) + (if ADD then limbs_value (take (Suc T) A) else 0)) mod 2 ^ (64 * Suc T)"
    using addmul_value [of T A y ADD v] A(1) y(1) by (simp_all add: B_def)
  have "B ! (T + 1) = drop (Suc T) B ! 0" using A(1) B(1) by simp
  also have "\<dots> = 0" using A by (simp add: B(2))
  finally have z: "B ! Suc T = 0" by simp
  have "limbs_value (take (Suc T) B) = (w + uint v * limbs_value y) mod 2 ^ (64 * Suc T)"
    unfolding B(3) using y(1) w(1) by (simp add: add.commute)
  also have "\<dots> = w + uint v * limbs_value y"
    using no(1) D(2) w0 uint_limb(1) [of v] by (intro mod_pos_pos_trivial) simp_all
  finally have v: "limbs_value (take (T + 2) B) = w + uint v * limbs_value y"
    using value_take_Suc [of "Suc T" B] A(1) B(1) z by simp
  have R: "length r = length B" "drop (T + 2) r = drop (T + 2) B"
      "limbs_value (take (T + 2) r) = (uint u * limbs_value (take (T + 1) (zp_prA D)) + limbs_value (take (T + 2) B)) mod 2 ^ (64 * (T + 2))"
    using addmul_value [of "T + 1" B "zp_prA D" True u] A(1) B(1) prA_value(2) [OF D(1)] D(2)
    by (simp_all add: r_def B_def)
  show "length r = length A" "drop (T + 2) r = drop (T + 2) A"
    using R(1,2) B(1,2) drop_drop [of 1 "Suc T" B] drop_drop [of 1 "Suc T" A] by simp_all
  have "limbs_value (take (T + 2) r) = (uint u * zp_pr D + (w + uint v * limbs_value y)) mod 2 ^ (64 * (T + 2))"
    unfolding R(3) v using prA_value(1) [OF D(1)] D(2) by simp
  also have "\<dots> = uint u * zp_pr D + (w + uint v * limbs_value y)"
    using no(2) D w0 uint_limb(1) [of v] uint_limb(1) [of u]
    by (intro mod_pos_pos_trivial) (simp_all add: mont_ok_def)
  finally show "limbs_value (take (T + 2) r) = w + uint v * limbs_value y + uint u * zp_pr D" by simp
qed

lemma nth_above: "drop n xs = drop n ys \<Longrightarrow> length xs = length ys \<Longrightarrow> n \<le> j \<Longrightarrow> j < length xs \<Longrightarrow> xs ! j = ys ! j"
  using nth_drop [of n xs "j - n"] nth_drop [of n ys "j - n"] by simp

definition clean_fixed :: "nat \<Rightarrow> nat \<Rightarrow> limb list \<Rightarrow> bool" where
  "clean_fixed T k ans \<longleftrightarrow> (\<forall>j. k + T + 1 \<le> j \<longrightarrow> j \<le> 2 * T \<longrightarrow> ans ! j = 0)"

interpretation fixed: montgomery mont_first_fixed mont_step_fixed clean_fixed
proof
  fix L D T and ans x y :: "limb list"
  assume D: "mont_ok L D" "zp_t D = T" and l: "length ans = 2 * MAX_MOD_SZ + 1" "length x = T" "length y = T"
    and y: "limbs_value y < zp_pr D"
  have T: "0 < T" "T \<le> 10" using D by (simp_all add: mont_ok_def MAX_MOD_SZ_def)
  define A where "A = take (T + 1) ans @ replicate T 0 @ drop (2 * T + 1) ans"
  have y0: "y \<noteq> []" using T l(3) by auto
  define u where "u = x ! 0 * y ! 0 * zp_pi D"
  have lA: "length A = length ans" "T + 2 \<le> length A" using l T by (simp_all add: A_def MAX_MOD_SZ_def)
  have zA: "A ! j = 0" if "T + 1 \<le> j" "j \<le> 2 * T" for j
  proof -
    have "j - Suc T < T" using that T by linarith
    then show ?thesis using that l T by (simp add: A_def nth_append MAX_MOD_SZ_def)
  qed
  have f: "mont_first_fixed L D T x y ans = mpn_addmul_1_fixed (T + 2) (T + 1) True (zp_prA D) u (mpn_addmul_1_fixed (T + 1) T False y (x ! 0) A)"
    by (simp add: mont_first_fixed_def A_def u_def)
  have w: "0 < limbs_value y + zp_pr D" using D by (simp add: mont_ok_def add_nonneg_pos)
  note r = fixed_round [OF D l(3) y lA(2) zA, of 0 False u "x ! 0", folded f]
  have "uint u = (0 + uint (x ! 0) * limbs_value y) * uint (zp_pi D) mod 2 ^ 64"
    using uint_factor [of 0 0 "y ! 0" "limbs_value y" "x ! 0" "zp_pi D"] limbs_value_mod [of y] y0
    by (simp add: u_def)
  then have "round_ok D y (x ! 0) 0 0 ans (mont_first_fixed L D T x y ans)"
    using r w D(2) lA T by (simp add: round_ok_def)
  moreover have "clean_fixed T 1 (mont_first_fixed L D T x y ans)"
    unfolding clean_fixed_def
  proof (intro allI impI)
    fix j assume j: "1 + T + 1 \<le> j" "j \<le> 2 * T"
    have "mont_first_fixed L D T x y ans ! j = A ! j"
      by (rule nth_above [of "T + 2"]) (use r w j lA l T in \<open>simp_all add: MAX_MOD_SZ_def\<close>)
    then show "mont_first_fixed L D T x y ans ! j = 0" using zA j by simp
  qed
  ultimately show "round_ok D y (x ! 0) 0 0 ans (mont_first_fixed L D T x y ans) \<and> clean_fixed T 1 (mont_first_fixed L D T x y ans)" ..
next
  fix L D T i and ans x y :: "limb list"
  assume D: "mont_ok L D" "zp_t D = T" and l: "length ans = 2 * MAX_MOD_SZ + 1" "length x = T" "length y = T"
    and y: "limbs_value y < zp_pr D" and c: "clean_fixed T i ans" and i: "0 < i" "i < T"
    and w: "limbs_value (take (T + 1) (drop i ans)) < limbs_value y + zp_pr D"
  have T: "0 < T" "T \<le> 10" using D by (simp_all add: mont_ok_def MAX_MOD_SZ_def)
  define A where "A = drop i ans"
  have y0: "y \<noteq> []" using T l(3) by auto
  define u where "u = (ans ! i + x ! i * y ! 0) * zp_pi D"
  have lA: "length A = length ans - i" "T + 2 \<le> length A" using l T i by (simp_all add: A_def MAX_MOD_SZ_def)
  have zA: "A ! (T + 1) = 0" using c i l T by (simp add: A_def clean_fixed_def MAX_MOD_SZ_def)
  define R where "R = mpn_addmul_1_fixed (T + 2) (T + 1) True (zp_prA D) u (mpn_addmul_1_fixed (T + 1) T True y (x ! i) A)"
  have f: "mont_step_fixed L D T x y i ans = take i ans @ R"
    using i T l by (simp add: mont_step_fixed_def at_offset_def A_def u_def R_def MAX_MOD_SZ_def)
  note r = fixed_round [OF D l(3) y lA(2) zA, of "limbs_value (take (T + 1) A)" True u "x ! i", folded R_def]
  have a0: "uint (ans ! i) = limbs_value (take (T + 1) A) mod 2 ^ 64"
    using limbs_value_mod [of "take (T + 1) A"] lA l by (simp add: A_def)
  have "uint u = (limbs_value (take (T + 1) A) + uint (x ! i) * limbs_value y) * uint (zp_pi D) mod 2 ^ 64"
    unfolding u_def by (rule uint_factor [OF a0 limbs_value_mod [OF y0, symmetric]])
  moreover have "limbs_value (take (T + 2) R) = limbs_value (take (T + 1) A) + uint (x ! i) * limbs_value y + uint u * zp_pr D"
    by (rule r(3)) (use w in \<open>simp_all add: A_def\<close>)
  moreover have "drop i (take i ans @ R) = R" using l i T by (simp add: MAX_MOD_SZ_def)
  moreover have "length (take i ans @ R) = length ans" using r(1) w lA l i T by (simp add: A_def MAX_MOD_SZ_def)
  ultimately have "round_ok D y (x ! i) (limbs_value (take (T + 1) (drop i ans))) i ans (mont_step_fixed L D T x y i ans)"
    unfolding round_ok_def f D(2) A_def [symmetric] by (simp only:)
  moreover have "clean_fixed T (Suc i) (mont_step_fixed L D T x y i ans)"
    unfolding clean_fixed_def
  proof (intro allI impI)
    fix j assume j: "Suc i + T + 1 \<le> j" "j \<le> 2 * T"
    have "R ! (j - i) = A ! (j - i)"
      by (rule nth_above [of "T + 2"]) (use r w j lA l T i in \<open>simp_all add: A_def MAX_MOD_SZ_def\<close>)
    then show "mont_step_fixed L D T x y i ans ! j = 0"
      using c j i l T by (simp add: f nth_append A_def clean_fixed_def MAX_MOD_SZ_def)
  qed
  ultimately show "round_ok D y (x ! i) (limbs_value (take (T + 1) (drop i ans))) i ans (mont_step_fixed L D T x y i ans) \<and>
      clean_fixed T (Suc i) (mont_step_fixed L D T x y i ans)" ..
qed

text \<open>The routine over GMP adds the carries by hand.\<close>

lemma variable_round:
  fixes u v tp c2 :: limb and y A lo lo2 :: "limb list" and T :: nat and D :: zp_data
  assumes D: "mont_ok L D" "zp_t D = T" and y: "length y = T" "limbs_value y < zp_pr D"
    and lo: "length lo = T" "limbs_value lo + 2 ^ (64 * T) * uint tp = w + uint v * limbs_value y"
    and w: "0 \<le> w" "w < limbs_value y + zp_pr D"
    and B: "B = lo @ tp # rest"
    and lo2: "mpn_addmul_1 L B (zp_prA D) (T + 1) u = (lo2, c2)"
  shows "length lo2 = T + 1"
    "limbs_value (lo2 @ [c2]) = w + uint v * limbs_value y + uint u * zp_pr D"
proof -
  have "T + 1 \<le> length B" using lo(1) by (simp add: B)
  from addmul_1D [OF prA_value(6) [OF D(1)] this _ lo2] prA_value(2) [OF D(1)] D(2)
  have a: "length lo2 = T + 1 \<and>
      limbs_value lo2 + 2 ^ (64 * (T + 1)) * uint c2 = limbs_value (take (T + 1) B) + limbs_value (take (T + 1) (zp_prA D)) * uint u"
    by simp
  then show "length lo2 = T + 1" by simp
  have "limbs_value (take (T + 1) B) = limbs_value lo + 2 ^ (64 * T) * uint tp"
    using lo(1) by (simp add: B limbs_value_append)
  then have "limbs_value lo2 + 2 ^ (64 * (T + 1)) * uint c2 = w + uint v * limbs_value y + zp_pr D * uint u"
    using a lo(2) prA_value(1) [OF D(1)] D(2) by simp
  then show "limbs_value (lo2 @ [c2]) = w + uint v * limbs_value y + uint u * zp_pr D"
    using a by (simp add: limbs_value_append mult.commute)
qed

lemma uint_add_no_wrap: "uint a + uint b < 2 ^ 64 \<Longrightarrow> uint (a + b :: limb) = uint a + uint b"
  using uint_limb(1) [of a] uint_limb(1) [of b] by (simp add: uint_word_ariths)

interpretation variable: montgomery mont_first mont_step "\<lambda>_ _ _. True"
proof
  fix L D T and ans x y :: "limb list"
  assume D: "mont_ok L D" "zp_t D = T" and l: "length ans = 2 * MAX_MOD_SZ + 1" "length x = T" "length y = T"
    and y: "limbs_value y < zp_pr D"
  have T: "0 < T" "T \<le> 10" using D by (simp_all add: mont_ok_def MAX_MOD_SZ_def)
  have y0: "y \<noteq> []" using T l(3) by auto
  define u where "u = x ! 0 * y ! 0 * zp_pi D"
  obtain lo c where lo: "mpn_mul_1 L y T (x ! 0) = (lo, c)" by fastforce
  define B where "B = lo @ c # drop (T + 1) ans"
  obtain lo2 c2 where lo2: "mpn_addmul_1 L B (zp_prA D) (T + 1) u = (lo2, c2)" by fastforce
  have m: "length lo = T" "limbs_value lo + 2 ^ (64 * T) * uint c = 0 + uint (x ! 0) * limbs_value y"
    using mul_1D [OF prA_value(6) [OF D(1)] _ lo] l(3) by simp_all
  have f: "mont_first L D T x y ans = lo2 @ c2 # drop (T + 2) ans"
    using lo lo2 m(1) by (simp add: mont_first_def u_def [symmetric] B_def)
  have w: "(0::int) \<le> 0" "0 < limbs_value y + zp_pr D" using D by (simp_all add: mont_ok_def add_nonneg_pos)
  note r = variable_round [OF D l(3) y m w B_def lo2]
  have "uint u = (0 + uint (x ! 0) * limbs_value y) * uint (zp_pi D) mod 2 ^ 64"
    using uint_factor [of 0 0 "y ! 0" "limbs_value y" "x ! 0" "zp_pi D"] limbs_value_mod [of y] y0
    by (simp add: u_def)
  then show "round_ok D y (x ! 0) 0 0 ans (mont_first L D T x y ans) \<and> True"
    using r D(2) l T by (simp add: round_ok_def f MAX_MOD_SZ_def)
next
  fix L D T i and ans x y :: "limb list"
  assume D: "mont_ok L D" "zp_t D = T" and l: "length ans = 2 * MAX_MOD_SZ + 1" "length x = T" "length y = T"
    and y: "limbs_value y < zp_pr D" and i: "0 < i" "i < T"
    and w: "limbs_value (take (T + 1) (drop i ans)) < limbs_value y + zp_pr D"
  have T: "0 < T" "T \<le> 10" using D by (simp_all add: mont_ok_def MAX_MOD_SZ_def)
  define A where "A = drop i ans"
  have y0: "y \<noteq> []" using T l(3) by auto
  define u where "u = (ans ! i + x ! i * y ! 0) * zp_pi D"
  let ?w = "limbs_value (take (T + 1) A)"
  have lA: "length A = length ans - i" "T + 2 \<le> length A" using l T i by (simp_all add: A_def MAX_MOD_SZ_def)
  obtain lo c where lo: "mpn_addmul_1 L A y T (x ! i) = (lo, c)" by fastforce
  have m: "length lo = T" "limbs_value lo + 2 ^ (64 * T) * uint c = limbs_value (take T A) + limbs_value y * uint (x ! i)"
    using addmul_1D [OF prA_value(6) [OF D(1)] _ _ lo] l(3) lA(2) by simp_all
  have wA: "?w = limbs_value (take T A) + 2 ^ (64 * T) * uint (A ! T)"
    using value_take_Suc [of T A] lA(2) by simp
  then have tot: "limbs_value lo + 2 ^ (64 * T) * (uint (A ! T) + uint c) = ?w + uint (x ! i) * limbs_value y"
    using m(2) by (simp add: algebra_simps)
  have wy: "?w < limbs_value y + zp_pr D" using w by (simp add: A_def)
  have "?w + uint (x ! i) * limbs_value y < 2 ^ (64 * T) * 2 ^ 64"
    using no_overflow(1) [OF D(1) y limbs_value_nonneg wy, of "x ! i"] D(2) by (simp add: power_add mult.commute)
  then have "2 ^ (64 * T) * (uint (A ! T) + uint c) < 2 ^ (64 * T) * 2 ^ 64"
    using tot limbs_value_nonneg [of lo] by linarith
  then have "uint (A ! T) + uint c < 2 ^ 64" by simp
  then have top: "uint (A ! T + c) = uint (A ! T) + uint c" by (rule uint_add_no_wrap)
  define B where "B = lo @ (A ! T + c) # drop (T + 1) A"
  obtain lo2 c2 where lo2: "mpn_addmul_1 L B (zp_prA D) (T + 1) u = (lo2, c2)" by fastforce
  have "ans ! (T + i) = A ! T" using lA l by (simp add: A_def add.commute)
  moreover have "drop (T + i + 1) ans = drop (T + 1) A" "drop (T + i + 2) ans = drop (T + 2) A"
    by (simp_all add: A_def add.commute add.left_commute)
  ultimately have f: "mont_step L D T x y i ans = take i ans @ lo2 @ c2 # drop (T + 2) A"
    using lo lo2 m(1) i l T
    by (simp add: mont_step_def A_def [symmetric] u_def [symmetric] B_def MAX_MOD_SZ_def)
  have "limbs_value lo + 2 ^ (64 * T) * uint (A ! T + c) = ?w + uint (x ! i) * limbs_value y"
    using tot top by simp
  note r = variable_round [OF D l(3) y m(1) this limbs_value_nonneg wy B_def lo2]
  have a0: "uint (ans ! i) = ?w mod 2 ^ 64"
    using limbs_value_mod [of "take (T + 1) A"] lA l by (simp add: A_def)
  have "uint u = (?w + uint (x ! i) * limbs_value y) * uint (zp_pi D) mod 2 ^ 64"
    unfolding u_def by (rule uint_factor [OF a0 limbs_value_mod [OF y0, symmetric]])
  moreover have "limbs_value (lo2 @ [c2]) = ?w + uint (x ! i) * limbs_value y + uint u * zp_pr D" "length lo2 = T + 1"
    using r by simp_all
  moreover have "take (T + 2) (drop i (take i ans @ lo2 @ c2 # drop (T + 2) A)) = lo2 @ [c2]"
    using l i T r by (simp add: MAX_MOD_SZ_def)
  moreover have "length (take i ans @ lo2 @ c2 # drop (T + 2) A) = length ans"
    using r lA l i T by (simp add: A_def MAX_MOD_SZ_def)
  ultimately show "round_ok D y (x ! i) (limbs_value (take (T + 1) (drop i ans))) i ans (mont_step L D T x y i ans) \<and> True"
    unfolding round_ok_def f D(2) A_def [symmetric] by (simp only: simp_thms)
qed

section \<open>The product\<close>

lemma sub_fixed_ok:
  assumes "mont_ok L D" "zp_t D = T" "T + 1 \<le> length u"
  shows "length (mpn_sub_fixed_n T u (zp_prA D)) = T \<and>
    limbs_value (mpn_sub_fixed_n T u (zp_prA D)) = (limbs_value (take T u) - limbs_value (take T (zp_prA D))) mod 2 ^ (64 * T)"
  using sub_fixed_value [of T u "zp_prA D"] prA_value(4) [OF assms(1)] assms(2,3) by simp

lemma sub_variable_ok:
  assumes "mont_ok L D" "zp_t D = T" "T + 1 \<le> length u"
  shows "length (mpn_sub_n L u (zp_prA D) T) = T \<and>
    limbs_value (mpn_sub_n L u (zp_prA D) T) = (limbs_value (take T u) - limbs_value (take T (zp_prA D))) mod 2 ^ (64 * T)"
  using mpn_okD(3,4) [OF prA_value(6) [OF assms(1)], of T u "zp_prA D"] prA_value(4) [OF assms(1)] assms(2,3) by simp

lemma Mont_Mult_ok:
  assumes D: "mont_ok L D" "zp_t D = T" and l: "length ans = 2 * MAX_MOD_SZ + 1" "length x = T" "length y = T"
    and y: "limbs_value y < zp_pr D"
  shows "length (Mont_Mult L bmi2 D ans x y) = T" "limbs_value (Mont_Mult L bmi2 D ans x y) < zp_pr D"
    "2 ^ (64 * T) * limbs_value (Mont_Mult L bmi2 D ans x y) mod zp_pr D = limbs_value x * limbs_value y mod zp_pr D"
proof -
  note f = fixed.product_ok [OF D l y sub_fixed_ok [OF D], folded Mont_Mult_fixed_def]
  note v = variable.product_ok [OF D l y sub_variable_ok [OF D], folded Mont_Mult_variable_def]
  have e: "Mont_Mult_fixed L D T ans x y =
      (let ans = foldl (\<lambda>ans i. mont_step_fixed L D T x y i ans) (mont_first_fixed L D T x y ans) [1..<T]
       in if 0 \<le> mpn_cmp L (drop T ans) (zp_prA D) (T + 1) then mpn_sub_fixed_n T (drop T ans) (zp_prA D) else take T (drop T ans))"
    "Mont_Mult_variable L D T ans x y =
      (let ans = foldl (\<lambda>ans i. mont_step L D T x y i ans) (mont_first L D T x y ans) [1..<T]
       in if 0 \<le> mpn_cmp L (drop T ans) (zp_prA D) (T + 1) then mpn_sub_n L (drop T ans) (zp_prA D) T else take T (drop T ans))"
    by (simp_all add: Mont_Mult_fixed_def Mont_Mult_variable_def)
  have "Mont_Mult L bmi2 D ans x y = Mont_Mult_fixed L D T ans x y \<or> Mont_Mult L bmi2 D ans x y = Mont_Mult_variable L D T ans x y"
    using D(2) by (simp add: Mont_Mult_def)
  then show "length (Mont_Mult L bmi2 D ans x y) = T" "limbs_value (Mont_Mult L bmi2 D ans x y) < zp_pr D"
    "2 ^ (64 * T) * limbs_value (Mont_Mult L bmi2 D ans x y) mod zp_pr D = limbs_value x * limbs_value y mod zp_pr D"
    using f v unfolding e Let_def by (elim disjE; simp only:)+
qed

lemma coprime_pow2:
  assumes "(p * q + 1) mod 2 ^ 64 = (0 :: int)"
  shows "coprime p (2 ^ k)"
proof -
  have "2 dvd p * q + 1" using assms by (meson dvd_power dvd_trans mod_0_imp_dvd zero_less_numeral)
  then have "odd p" by (metis dvd_mult2 odd_one even_add)
  then show ?thesis by (simp add: coprime_commute)
qed

lemma mod_cancel:
  assumes "coprime k p" "0 < (p::int)" "k * a mod p = k * b mod p" "0 \<le> a" "a < p" "0 \<le> b" "b < p"
  shows "a = b"
proof -
  have "p dvd k * (a - b)" using assms(3) by (metis mod_eq_dvd_iff right_diff_distrib)
  then have "p dvd a - b" using assms(1) by (simp add: coprime_commute coprime_dvd_mult_right_iff)
  then have "a mod p = b mod p" by (simp add: mod_eq_dvd_iff)
  then show ?thesis using assms by simp
qed

text \<open>The result does not depend on the routine, nor on what the array held.\<close>

lemma Mont_Mult_unique:
  assumes D: "mont_ok L D" "zp_t D = T" and l: "length ans = 2 * MAX_MOD_SZ + 1" "length x = T" "length y = T"
    and y: "limbs_value y < zp_pr D"
    and z: "length z = T" "limbs_value z < zp_pr D"
      "2 ^ (64 * T) * limbs_value z mod zp_pr D = limbs_value x * limbs_value y mod zp_pr D"
  shows "Mont_Mult L bmi2 D ans x y = z"
proof (rule limbs_value_inj)
  note m = Mont_Mult_ok [OF D l y, of bmi2]
  show "length (Mont_Mult L bmi2 D ans x y) = length z" using m z by simp
  have "coprime (zp_pr D) (2 ^ (64 * T))" by (rule coprime_pow2 [of _ "uint (zp_pi D)"]) (use D(1) in \<open>simp add: mont_ok_def\<close>)
  then show "limbs_value (Mont_Mult L bmi2 D ans x y) = limbs_value z"
    by (intro mod_cancel [OF _ prA_value(7) [OF D(1)] trans [OF m(3) z(3) [symmetric]] limbs_value_nonneg m(2) limbs_value_nonneg z(2)])
      (simp only: coprime_commute)
qed

section \<open>Setting up the modulus\<close>

lemma int_limbs_value [simp]: "length (int_limbs n x) = n" "limbs_value (int_limbs n x) = x mod 2 ^ (64 * n)"
proof -
  show "length (int_limbs n x) = n" by (simp add: int_limbs_def)
  show "limbs_value (int_limbs n x) = x mod 2 ^ (64 * n)"
  proof (induction n)
    case 0
    then show ?case by (simp add: int_limbs_def)
  next
    case (Suc n)
    have "limbs_value (int_limbs (Suc n) x) = x mod 2 ^ (64 * n) + 2 ^ (64 * n) * (x div 2 ^ (64 * n) mod 2 ^ 64)"
      using Suc by (simp add: int_limbs_def limbs_value_append unsigned_of_int take_bit_eq_mod)
    also have "\<dots> = x mod (2 ^ (64 * n) * 2 ^ 64)"
      by (subst zmod_zmult2_eq) simp_all
    finally show ?case by (simp add: power_add mult.commute)
  qed
qed

lemma take_int_limbs: "n \<le> k \<Longrightarrow> take n (int_limbs k x) = int_limbs n x"
  by (simp add: int_limbs_def take_map)

lemma limb_count_bound: "n < 2 ^ (64 * limb_count n)"
proof (induction n rule: limb_count.induct)
  case (1 n)
  show ?case
  proof (cases "n = 0")
    case False
    then have "n div 2 ^ 64 < 2 ^ (64 * limb_count (n div 2 ^ 64))" using 1 by simp
    then have "n < 2 ^ (64 * limb_count (n div 2 ^ 64)) * 2 ^ 64" by (simp add: div_less_iff_less_mult)
    then show ?thesis using False by (simp add: limb_count.simps [of n] power_add mult.commute)
  qed (simp add: limb_count.simps)
qed

lemma mpz_size_bound: "0 \<le> x \<Longrightarrow> x < 2 ^ (64 * mpz_size x)"
  using limb_count_bound [of "nat x"] by (simp add: mpz_size_def nat_less_iff)

lemma mpz_size_pos: "0 < x \<Longrightarrow> 0 < mpz_size x"
  by (simp add: mpz_size_def limb_count.simps [of "nat x"])

lemma uint_of_int_limb: "uint (word_of_int v :: limb) = v mod 2 ^ 64"
  by (simp add: unsigned_of_int take_bit_eq_mod)

lemma init_pi:
  assumes "mpn_ok L" "1 < p" "odd p" "0 < t"
  shows "(p * uint (word_of_int (2 ^ (t * 64) - mpz_invert L p (2 ^ (t * 64))) :: limb) + 1) mod 2 ^ 64 = 0"
proof -
  let ?r = "2 ^ (t * 64) :: int" and ?i = "mpz_invert L p (2 ^ (t * 64))"
  have "invert_ok L" using assms(1) by (simp add: mpn_ok_def)
  moreover have "coprime p ?r" using assms(3) by (simp add: coprime_commute)
  moreover have "1 < ?r" using assms(4) by simp
  ultimately have i: "?i * p mod ?r = 1" unfolding invert_ok_def by blast
  have "(2 ^ 64 :: int) dvd ?r" using assms(4) by (intro le_imp_power_dvd) simp
  then have "?i * p mod 2 ^ 64 = (?i * p mod ?r) mod 2 ^ 64" by (simp add: mod_mod_cancel)
  then have i64: "?i * p mod 2 ^ 64 = 1" using i by simp
  have "?r mod 2 ^ 64 = 0" using \<open>2 ^ 64 dvd ?r\<close> by simp
  have "(p * uint (word_of_int (?r - ?i) :: limb) + 1) mod 2 ^ 64 = (p * (?r - ?i) + 1) mod 2 ^ 64"
    unfolding uint_of_int_limb by (rule mod_add_cong [OF mod_mult_right_eq refl])
  also have "p * (?r - ?i) + 1 = p * ?r - ?i * p + 1" by (simp add: algebra_simps)
  also have "(p * ?r - ?i * p + 1) mod 2 ^ 64 = (0 - 1 + 1) mod 2 ^ 64"
    by (rule mod_add_cong [OF mod_diff_cong refl]) (use i64 \<open>?r mod 2 ^ 64 = 0\<close> mod_mult_right_eq [of p ?r "2 ^ 64"] in simp_all)
  finally show ?thesis by simp
qed

end
