(* ===== verification/Modp.thy ===== *)
theory Modp
  imports Montgomery
begin

text \<open>
  The elements of the prime field as the code stores them: \<open>modp_\<close> of \<open>Math/modp.h\<close> and
  \<open>Math/modp.hpp\<close>, vectors of \<open>t\<close> limbs that hold a residue, multiplied by \<open>2 ^ (64 t)\<close>
  when the modulus uses Montgomery arithmetic. Every operation refines the operation of
  the theory \<open>Gfp\<close> on residues. \<open>buf\<close> is what the stack held where the products are built.
\<close>

section \<open>Constants and tests\<close>

definition assignZero :: "zp_data \<Rightarrow> limb list" where
  "assignZero D = replicate (zp_t D) 0"

definition assignOne :: "zp_data \<Rightarrow> limb list" where
  "assignOne D = (if zp_montgomery D then take (zp_t D) (zp_R D) else (assignZero D)[0 := 1])"

definition isZero :: "zp_data \<Rightarrow> limb list \<Rightarrow> bool" where
  "isZero D x \<longleftrightarrow> list_all (\<lambda>i. x ! i = 0) [0..<zp_t D]"

definition isOne :: "mpn_lib \<Rightarrow> zp_data \<Rightarrow> limb list \<Rightarrow> bool" where
  "isOne L D x \<longleftrightarrow>
     (if zp_montgomery D then mpn_cmp L x (zp_R D) (zp_t D) = 0
      else x ! 0 = 1 \<and> list_all (\<lambda>i. x ! i = 0) [1..<zp_t D])"

definition areEqual :: "mpn_lib \<Rightarrow> zp_data \<Rightarrow> limb list \<Rightarrow> limb list \<Rightarrow> bool" where
  "areEqual L D x y \<longleftrightarrow> mpn_cmp L x y (zp_t D) = 0"

section \<open>Arithmetic\<close>

definition modp_negate :: "mpn_lib \<Rightarrow> zp_data \<Rightarrow> limb list \<Rightarrow> limb list" where
  "modp_negate L D x = (if isZero D x then x else mpn_sub_n L (zp_prA D) x (zp_t D))"

definition modp_mul :: "mpn_lib \<Rightarrow> bool \<Rightarrow> zp_data \<Rightarrow> limb list \<Rightarrow> limb list \<Rightarrow> limb list \<Rightarrow> limb list" where
  "modp_mul L bmi2 D buf x y =
     (if zp_montgomery D then Mont_Mult L bmi2 D buf x y
      else mpn_tdiv_r L (mpn_mul_n L x y (zp_t D)) (2 * zp_t D) (zp_prA D) (zp_t D))"

definition modp_sqr :: "mpn_lib \<Rightarrow> bool \<Rightarrow> zp_data \<Rightarrow> limb list \<Rightarrow> limb list \<Rightarrow> limb list" where
  "modp_sqr L bmi2 D buf x =
     (if zp_montgomery D then Mont_Mult L bmi2 D buf x x
      else mpn_tdiv_r L (mpn_sqr L x (zp_t D)) (2 * zp_t D) (zp_prA D) (zp_t D))"

definition modp_inv :: "mpn_lib \<Rightarrow> bool \<Rightarrow> zp_data \<Rightarrow> limb list \<Rightarrow> limb list \<Rightarrow> limb list" where
  "modp_inv L bmi2 D buf x =
     (let (ans, sz) = mpn_gcdext L (take (zp_t D) x) (take (zp_t D) (zp_prA D)) (zp_t D);
          ans = (if sz < 0 then mpn_sub L (zp_prA D) (zp_t D) ans (nat (- sz))
                 else take (nat sz) ans @ replicate (zp_t D - nat sz) 0)
      in if zp_montgomery D then Mont_Mult L bmi2 D buf ans (take (zp_t D) (zp_R3 D)) else ans)"

text \<open>\<open>Power\<close>, with its shortcuts; the loop halves the exponent.\<close>

function modp_power_loop :: "mpn_lib \<Rightarrow> bool \<Rightarrow> zp_data \<Rightarrow> limb list \<Rightarrow> limb list \<Rightarrow> limb list \<Rightarrow> int \<Rightarrow> limb list" where
  "modp_power_loop L bmi2 D buf ans t ex =
     (if ex \<le> 0 then ans
      else modp_power_loop L bmi2 D buf (if ex mod 2 = 1 then modp_mul L bmi2 D buf ans t else ans)
        (modp_sqr L bmi2 D buf t) (ex div 2))"
  by pat_completeness auto
termination
  by (relation "measure (\<lambda>(L, b, D, u, ans, t, ex). nat ex)") auto

declare modp_power_loop.simps [simp del]

definition modp_power :: "mpn_lib \<Rightarrow> bool \<Rightarrow> zp_data \<Rightarrow> limb list \<Rightarrow> limb list \<Rightarrow> int \<Rightarrow> err + limb list" where
  "modp_power L bmi2 D buf x ex =
     (if ex = 1 then Inr x
      else if ex = 0 then Inr (assignOne D)
      else if ex < 0 then Inl Not_implemented
      else Inr (modp_power_loop L bmi2 D buf (assignOne D) x ex))"

section \<open>Conversion\<close>

definition modp_convert :: "mpn_lib \<Rightarrow> bool \<Rightarrow> zp_data \<Rightarrow> limb list \<Rightarrow> limb list \<Rightarrow> nat \<Rightarrow> bool \<Rightarrow> err + limb list" where
  "modp_convert L bmi2 D buf source sz negative =
     (if \<not> sz \<le> zp_t D then Inl Assertion_failed
      else
        let x = (if negative then mpn_sub L (zp_prA D) (zp_t D) source sz
                 else take sz source @ replicate (zp_t D - sz) 0)
        in Inr (if zp_montgomery D then Mont_Mult L bmi2 D buf x (take (zp_t D) (zp_R2 D)) else x))"

definition modp_convert_destroy :: "mpn_lib \<Rightarrow> bool \<Rightarrow> zp_data \<Rightarrow> limb list \<Rightarrow> int \<Rightarrow> err + limb list" where
  "modp_convert_destroy L bmi2 D buf x =
     (let xx = tdiv_r x (zp_pr D)
      in modp_convert L bmi2 D buf (int_limbs (mpz_size xx) \<bar>xx\<bar>) (mpz_size xx) (xx < 0))"

definition to_modp :: "mpn_lib \<Rightarrow> bool \<Rightarrow> zp_data \<Rightarrow> limb list \<Rightarrow> int \<Rightarrow> err + limb list" where
  "to_modp L bmi2 D buf x =
     (if x = 0 then Inr (assignZero D)
      else if x = 1 then Inr (assignOne D)
      else modp_convert_destroy L bmi2 D buf x)"

text \<open>The overload for a 32-bit \<open>int\<close>.\<close>

definition to_modp_int :: "mpn_lib \<Rightarrow> bool \<Rightarrow> zp_data \<Rightarrow> limb list \<Rightarrow> 32 word \<Rightarrow> err + limb list" where
  "to_modp_int L bmi2 D buf x =
     (let fin = (\<lambda>ans. Inr (if zp_montgomery D then Mont_Mult L bmi2 D buf ans (take (zp_t D) (zp_R2 D)) else ans))
      in if 0 \<le> sint x
         then let ans = (assignZero D)[0 := scast x]
              in fin (if zp_t D = 1 then ans[0 := ans ! 0 mod zp_prA D ! 0] else ans)
         else if zp_t D = 1 then fin ((assignZero D)[0 := (zp_prA D ! 0 + scast x) mod zp_prA D ! 0])
         else to_modp L bmi2 D buf (zp_pr D + sint x))"

definition modp_to_bigint :: "mpn_lib \<Rightarrow> bool \<Rightarrow> zp_data \<Rightarrow> limb list \<Rightarrow> limb list \<Rightarrow> int" where
  "modp_to_bigint L bmi2 D buf x =
     limbs_value (if zp_montgomery D then Mont_Mult L bmi2 D buf x ((assignZero D)[0 := 1]) else take (zp_t D) x)"

section \<open>What a vector of limbs represents\<close>

definition zp_ok :: "mpn_lib \<Rightarrow> zp_data \<Rightarrow> bool" where
  "zp_ok L D \<longleftrightarrow>
     mpn_ok L \<and> 0 < zp_t D \<and> zp_t D \<le> MAX_MOD_SZ \<and> length (zp_prA D) = MAX_MOD_SZ + 1 \<and>
     limbs_value (take (zp_t D) (zp_prA D)) = zp_pr D \<and> zp_prA D ! (zp_t D - 1) \<noteq> 0 \<and> 1 < zp_pr D \<and>
     (zp_montgomery D \<longrightarrow> mont_ok L D \<and>
        length (zp_R D) = MAX_MOD_SZ \<and> length (zp_R2 D) = MAX_MOD_SZ \<and> length (zp_R3 D) = MAX_MOD_SZ \<and>
        limbs_value (take (zp_t D) (zp_R D)) = 2 ^ (64 * zp_t D) mod zp_pr D \<and>
        limbs_value (take (zp_t D) (zp_R2 D)) = (2 ^ (64 * zp_t D)) ^ 2 mod zp_pr D \<and>
        limbs_value (take (zp_t D) (zp_R3 D)) = (2 ^ (64 * zp_t D)) ^ 3 mod zp_pr D)"

definition scale :: "zp_data \<Rightarrow> int" where
  "scale D = (if zp_montgomery D then 2 ^ (64 * zp_t D) else 1)"

definition zp_rep :: "zp_data \<Rightarrow> limb list \<Rightarrow> int \<Rightarrow> bool" where
  "zp_rep D x v \<longleftrightarrow> length x = zp_t D \<and> limbs_value x = (v * scale D) mod zp_pr D"

lemma zp_okD:
  assumes "zp_ok L D"
  shows "mpn_ok L" "0 < zp_t D" "1 < zp_pr D" "0 < zp_pr D" "zp_t D \<le> length (zp_prA D)" "zp_t D \<le> MAX_MOD_SZ"
    "limbs_value (take (zp_t D) (zp_prA D)) = zp_pr D" "zp_pr D < 2 ^ (64 * zp_t D)"
    "zp_montgomery D \<Longrightarrow> mont_ok L D"
proof -
  show v: "limbs_value (take (zp_t D) (zp_prA D)) = zp_pr D" and l: "zp_t D \<le> length (zp_prA D)"
    using assms by (simp_all add: zp_ok_def)
  show "zp_pr D < 2 ^ (64 * zp_t D)" using limbs_value_bounds [of "take (zp_t D) (zp_prA D)"] v l by simp
qed (use assms in \<open>simp_all add: zp_ok_def\<close>)

lemma rep_bounds:
  assumes "zp_ok L D" "zp_rep D x v"
  shows "length x = zp_t D" "limbs_value x < zp_pr D"
  using assms zp_okD(4) [OF assms(1)] by (simp_all add: zp_rep_def)

lemma repI:
  assumes "zp_ok L D" "length x = zp_t D" "limbs_value x < zp_pr D" "limbs_value x mod zp_pr D = (v * scale D) mod zp_pr D"
  shows "zp_rep D x v"
  using assms by (simp add: zp_rep_def)

lemma rep_cong: "zp_rep D x u \<Longrightarrow> u mod zp_pr D = v mod zp_pr D \<Longrightarrow> zp_rep D x v"
  unfolding zp_rep_def using mod_mult_cong [of u "zp_pr D" v "scale D" "scale D"] by simp

lemma scale_coprime: "zp_ok L D \<Longrightarrow> coprime (scale D) (zp_pr D)"
  using coprime_pow2 [of "zp_pr D" "uint (zp_pi D)" "64 * zp_t D"]
  by (auto simp: scale_def zp_ok_def mont_ok_def coprime_commute)

lemma rep_value_iff:
  assumes "zp_ok L D" "zp_rep D x u" "zp_rep D y v"
  shows "x = y \<longleftrightarrow> u mod zp_pr D = v mod zp_pr D"
proof
  assume "x = y"
  then have "scale D * u mod zp_pr D = scale D * v mod zp_pr D" using assms(2,3) by (simp add: zp_rep_def mult.commute)
  then have "scale D * (u mod zp_pr D) mod zp_pr D = scale D * (v mod zp_pr D) mod zp_pr D" by (simp add: mod_mult_right_eq)
  then show "u mod zp_pr D = v mod zp_pr D"
    by (rule mod_cancel [OF scale_coprime [OF assms(1)] zp_okD(4) [OF assms(1)]]) (use zp_okD(4) [OF assms(1)] in simp_all)
next
  assume "u mod zp_pr D = v mod zp_pr D"
  from rep_cong [OF assms(2) this] have "limbs_value x = limbs_value y" "length x = length y"
    using assms(3) by (simp_all add: zp_rep_def)
  then show "x = y" by (intro limbs_value_inj)
qed

section \<open>The operations on representations\<close>

lemma rep_add:
  assumes D: "zp_ok L D" and x: "zp_rep D x u" and y: "zp_rep D y v"
  shows "zp_rep D (Zp_Add L D x y) (u + v)"
proof -
  let ?p = "zp_pr D" and ?t = "zp_t D"
  note xb = rep_bounds [OF D x] and yb = rep_bounds [OF D y]
  obtain r d where r: "mpn_add_n_with_carry x y ?t = (r, d)" by fastforce
  note a = add_n_value [OF _ _ r, unfolded xb(1) yb(1), OF order_refl order_refl]
  have sum: "limbs_value r + 2 ^ (64 * ?t) * of_bool d = limbs_value x + limbs_value y" using a(2) xb(1) yb(1) by simp
  have cmp: "0 \<le> mpn_cmp L r (zp_prA D) ?t \<longleftrightarrow> ?p \<le> limbs_value r"
    using mpn_okD(1) [OF zp_okD(1) [OF D], of ?t r "zp_prA D"] a(1) zp_okD [OF D] by simp
  have s: "(limbs_value x + limbs_value y) mod ?p = ((u + v) * scale D) mod ?p"
    using x y by (simp add: zp_rep_def mod_simps distrib_right)
  show ?thesis
  proof (cases "d \<or> ?p \<le> limbs_value r")
    case True
    define z where "z = fst (mpn_sub_n_borrow r (zp_prA D) ?t)"
    have z: "length z = ?t" "limbs_value z = (limbs_value r - ?p) mod 2 ^ (64 * ?t)"
      using sub_fixed_value [of ?t r "zp_prA D"] a(1) zp_okD [OF D] by (simp_all add: mpn_sub_fixed_n_def z_def)
    have ge: "?p \<le> limbs_value x + limbs_value y"
    proof (cases d)
      assume d
      then have "limbs_value r + 2 ^ (64 * ?t) = limbs_value x + limbs_value y" using sum by simp
      then show ?thesis using zp_okD(8) [OF D] limbs_value_nonneg [of r] by linarith
    qed (use True sum in simp)
    have "(limbs_value r - ?p) mod 2 ^ (64 * ?t) = (limbs_value r + 2 ^ (64 * ?t) * of_bool d - ?p) mod 2 ^ (64 * ?t)"
      by (simp add: diff_add_eq [symmetric])
    also have "\<dots> = limbs_value x + limbs_value y - ?p"
      unfolding sum using ge xb yb zp_okD(8) [OF D] by (intro mod_pos_pos_trivial) linarith+
    finally have "limbs_value z = limbs_value x + limbs_value y - ?p" using z(2) by simp
    then have "zp_rep D z (u + v)"
      by (intro repI [OF D z(1)]) (use s xb yb in simp_all)
    then show ?thesis using True cmp r by (auto simp: Zp_Add_def z_def)
  next
    case False
    then have "limbs_value r = limbs_value x + limbs_value y" using sum by simp
    then have "zp_rep D r (u + v)" by (intro repI [OF D a(1)]) (use s False in simp_all)
    then show ?thesis using False cmp r by (simp add: Zp_Add_def)
  qed
qed

lemma rep_sub:
  assumes D: "zp_ok L D" and x: "zp_rep D x u" and y: "zp_rep D y v"
  shows "zp_rep D (Zp_Sub D x y) (u - v)"
proof -
  let ?p = "zp_pr D" and ?t = "zp_t D"
  note xb = rep_bounds [OF D x] and yb = rep_bounds [OF D y]
  obtain r d where r: "mpn_sub_n_borrow x y ?t = (r, d)" by fastforce
  note a = sub_n_value [OF _ _ r, unfolded xb(1) yb(1), OF order_refl order_refl]
  have sum: "limbs_value r - 2 ^ (64 * ?t) * of_bool d = limbs_value x - limbs_value y" using a(2) xb(1) yb(1) by simp
  have s: "(limbs_value x - limbs_value y) mod ?p = ((u - v) * scale D) mod ?p"
    using x y by (simp add: zp_rep_def mod_simps left_diff_distrib)
  have rb: "limbs_value r < 2 ^ (64 * ?t)" using limbs_value_bounds [of r] a(1) by simp
  show ?thesis
  proof (cases d)
    case True
    define z where "z = fst (mpn_add_n_with_carry r (zp_prA D) ?t)"
    have z: "length z = ?t" "limbs_value z = (limbs_value r + ?p) mod 2 ^ (64 * ?t)"
      using add_fixed_value [of ?t r "zp_prA D"] a(1) zp_okD [OF D] by (simp_all add: mpn_add_fixed_n_def z_def)
    have e: "limbs_value r + ?p = (limbs_value x - limbs_value y + ?p) + 2 ^ (64 * ?t)" using sum True by simp
    have lt: "limbs_value x - limbs_value y < 0" using sum True rb by simp
    have "(limbs_value r + ?p) mod 2 ^ (64 * ?t) = limbs_value x - limbs_value y + ?p"
      unfolding e mod_add_self2 using lt yb zp_okD(8) [OF D] limbs_value_nonneg [of x] by (intro mod_pos_pos_trivial) linarith+
    then have v: "limbs_value z = limbs_value x - limbs_value y + ?p" using z(2) by simp
    have "zp_rep D z (u - v)" by (intro repI [OF D z(1)]) (use s v lt in simp_all)
    then show ?thesis using True r by (simp add: Zp_Sub_def z_def)
  next
    case False
    then have "limbs_value r = limbs_value x - limbs_value y" using sum by simp
    moreover have "limbs_value x - limbs_value y < ?p" using xb(2) limbs_value_nonneg [of y] by linarith
    ultimately have "zp_rep D r (u - v)" by (intro repI [OF D a(1)]) (use s in simp_all)
    then show ?thesis using False r by (simp add: Zp_Sub_def)
  qed
qed

lemma isZero_value: "length x = zp_t D \<Longrightarrow> isZero D x \<longleftrightarrow> limbs_value x = 0"
proof
  assume l: "length x = zp_t D"
  {
    assume "isZero D x"
    then have "x = replicate (zp_t D) 0" using l by (auto simp: isZero_def list_all_iff intro!: nth_equalityI)
    then show "limbs_value x = 0" by simp
  next
    assume "limbs_value x = 0"
    then have "x = replicate (zp_t D) 0" using l by (intro limbs_value_inj) simp_all
    then show "isZero D x" by (simp add: isZero_def list_all_iff)
  }
qed

lemma rep_negate:
  assumes D: "zp_ok L D" and x: "zp_rep D x u"
  shows "zp_rep D (modp_negate L D x) (- u)"
proof -
  let ?p = "zp_pr D" and ?t = "zp_t D"
  note xb = rep_bounds [OF D x]
  show ?thesis
  proof (cases "limbs_value x = 0")
    case True
    then have "u * scale D mod ?p = 0" using x by (simp add: zp_rep_def)
    then have "(- u) * scale D mod ?p = 0" by (simp add: mod_eq_0_iff_dvd)
    then have "zp_rep D x (- u)" using True xb(1) by (simp add: zp_rep_def)
    then show ?thesis using True isZero_value [OF xb(1)] by (simp add: modp_negate_def)
  next
    case False
    then have pos: "0 < limbs_value x" using limbs_value_nonneg [of x] by linarith
    define z where "z = mpn_sub_n L (zp_prA D) x ?t"
    have z: "length z = ?t" "limbs_value z = (?p - limbs_value x) mod 2 ^ (64 * ?t)"
      using mpn_okD(3,4) [OF zp_okD(1) [OF D], of ?t "zp_prA D" x] zp_okD [OF D] xb(1) by (simp_all add: z_def)
    have "(?p - limbs_value x) mod 2 ^ (64 * ?t) = ?p - limbs_value x"
      using xb(2) pos zp_okD(8) [OF D] by (intro mod_pos_pos_trivial) linarith+
    then have v: "limbs_value z = ?p - limbs_value x" using z(2) by simp
    have "(?p - limbs_value x) mod ?p = (- limbs_value x) mod ?p" by simp
    also have "\<dots> = ((- u) * scale D) mod ?p" using x by (simp add: zp_rep_def mod_minus_eq)
    finally have "zp_rep D z (- u)" by (intro repI [OF D z(1)]) (use v pos in simp_all)
    then show ?thesis using False isZero_value [OF xb(1)] by (simp add: modp_negate_def z_def)
  qed
qed

text \<open>A Montgomery product divides by the scale.\<close>

lemma mont_quotient:
  assumes D: "zp_ok L D" "zp_montgomery D" and l: "length buf = 2 * MAX_MOD_SZ + 1" "length x = zp_t D" "length y = zp_t D"
    and y: "limbs_value y < zp_pr D" and e: "limbs_value x * limbs_value y mod zp_pr D = (w * scale D) mod zp_pr D"
  shows "length (Mont_Mult L bmi2 D buf x y) = zp_t D" "limbs_value (Mont_Mult L bmi2 D buf x y) = w mod zp_pr D"
proof -
  let ?z = "Mont_Mult L bmi2 D buf x y" and ?p = "zp_pr D"
  note m = Mont_Mult_ok [OF zp_okD(9) [OF D] refl l y, of bmi2]
  show "length ?z = zp_t D" using m(1) .
  have "scale D * limbs_value ?z mod ?p = (w * scale D) mod ?p" using m(3) e D(2) by (simp add: scale_def)
  also have "\<dots> = scale D * (w mod ?p) mod ?p" by (simp add: mod_mult_right_eq mult.commute [of w])
  finally have "scale D * limbs_value ?z mod ?p = scale D * (w mod ?p) mod ?p" .
  then show "limbs_value ?z = w mod ?p"
    by (rule mod_cancel [OF scale_coprime [OF D(1)] zp_okD(4) [OF D(1)]]) (use m(2) zp_okD(4) [OF D(1)] in simp_all)
qed

lemma plain_quotient:
  assumes D: "zp_ok L D" and l: "length q = 2 * zp_t D"
  shows "length (mpn_tdiv_r L q (2 * zp_t D) (zp_prA D) (zp_t D)) = zp_t D"
    "limbs_value (mpn_tdiv_r L q (2 * zp_t D) (zp_prA D) (zp_t D)) = limbs_value q mod zp_pr D"
proof -
  have "tdiv_ok L" "zp_prA D ! (zp_t D - 1) \<noteq> 0" using D by (simp_all add: zp_ok_def mpn_ok_def)
  then have "length (mpn_tdiv_r L q (2 * zp_t D) (zp_prA D) (zp_t D)) = zp_t D \<and>
      limbs_value (mpn_tdiv_r L q (2 * zp_t D) (zp_prA D) (zp_t D)) = limbs_value (take (2 * zp_t D) q) mod limbs_value (take (zp_t D) (zp_prA D))"
    unfolding tdiv_ok_def using zp_okD(2,5) [OF D] l by (metis le_add2 mult_2 order_refl)
  then show "length (mpn_tdiv_r L q (2 * zp_t D) (zp_prA D) (zp_t D)) = zp_t D"
    "limbs_value (mpn_tdiv_r L q (2 * zp_t D) (zp_prA D) (zp_t D)) = limbs_value q mod zp_pr D"
    using l zp_okD(7) [OF D] by simp_all
qed

lemma rep_mul:
  assumes D: "zp_ok L D" and x: "zp_rep D x u" and y: "zp_rep D y v" and l: "length buf = 2 * MAX_MOD_SZ + 1"
  shows "zp_rep D (modp_mul L bmi2 D buf x y) (u * v)"
proof -
  note xb = rep_bounds [OF D x] and yb = rep_bounds [OF D y]
  have e: "limbs_value x * limbs_value y mod zp_pr D = (u * scale D) * (v * scale D) mod zp_pr D"
    using x y by (simp add: zp_rep_def mod_mult_eq)
  show ?thesis
  proof (cases "zp_montgomery D")
    case True
    have "limbs_value x * limbs_value y mod zp_pr D = (u * v * scale D) * scale D mod zp_pr D"
      unfolding e by (simp add: ac_simps)
    from mont_quotient [OF D True l xb(1) yb(1) yb(2) this]
    show ?thesis using True by (simp add: modp_mul_def zp_rep_def)
  next
    case False
    have "length (mpn_mul_n L x y (zp_t D)) = 2 * zp_t D" "limbs_value (mpn_mul_n L x y (zp_t D)) = limbs_value x * limbs_value y"
      using mpn_okD(5,6) [OF zp_okD(1) [OF D], of "zp_t D" x y] xb yb by simp_all
    from plain_quotient [OF D this(1)] this(2) e False
    show ?thesis by (simp add: modp_mul_def zp_rep_def scale_def)
  qed
qed

lemma rep_sqr:
  assumes D: "zp_ok L D" and x: "zp_rep D x u" and l: "length buf = 2 * MAX_MOD_SZ + 1"
  shows "zp_rep D (modp_sqr L bmi2 D buf x) (u * u)"
proof (cases "zp_montgomery D")
  case True
  then show ?thesis using rep_mul [OF D x x l, of bmi2] by (simp add: modp_sqr_def modp_mul_def)
next
  case False
  note xb = rep_bounds [OF D x]
  have "sqr_ok L" using zp_okD(1) [OF D] by (simp add: mpn_ok_def)
  then have q: "length (mpn_sqr L x (zp_t D)) = 2 * zp_t D" "limbs_value (mpn_sqr L x (zp_t D)) = limbs_value x * limbs_value x"
    using xb(1) by (simp_all add: sqr_ok_def)
  have "limbs_value x * limbs_value x mod zp_pr D = (u * u) mod zp_pr D"
    using x False by (simp add: zp_rep_def scale_def mod_mult_eq)
  with plain_quotient [OF D q(1)] q(2) False show ?thesis by (simp add: modp_sqr_def zp_rep_def scale_def)
qed

lemma gcdextD:
  assumes "mpn_ok L" "n \<le> length x" "n \<le> length y" "0 < limbs_value (take n x)" "limbs_value (take n x) < limbs_value (take n y)"
    "mpn_gcdext L x y n = (s, sz)"
  shows "length s = n" "\<bar>sz\<bar> \<le> int n" "\<bar>cofactor (s, sz)\<bar> < limbs_value (take n y)"
    "(cofactor (s, sz) * limbs_value (take n x)) mod limbs_value (take n y) = gcd (limbs_value (take n x)) (limbs_value (take n y)) mod limbs_value (take n y)"
proof -
  have "gcdext_ok L" using assms(1) by (simp add: mpn_ok_def)
  then have "length (fst (mpn_gcdext L x y n)) = n \<and> \<bar>snd (mpn_gcdext L x y n)\<bar> \<le> int n \<and>
     \<bar>cofactor (mpn_gcdext L x y n)\<bar> < limbs_value (take n y) \<and>
     (cofactor (mpn_gcdext L x y n) * limbs_value (take n x)) mod limbs_value (take n y) =
       gcd (limbs_value (take n x)) (limbs_value (take n y)) mod limbs_value (take n y)"
    unfolding gcdext_ok_def using assms(2-5) by blast
  then show "length s = n" "\<bar>sz\<bar> \<le> int n" "\<bar>cofactor (s, sz)\<bar> < limbs_value (take n y)"
    "(cofactor (s, sz) * limbs_value (take n x)) mod limbs_value (take n y) = gcd (limbs_value (take n x)) (limbs_value (take n y)) mod limbs_value (take n y)"
    unfolding assms(6) by simp_all
qed

text \<open>The cofactor, taken from the modulus when it is negative.\<close>

lemma cofactor_limbs:
  assumes D: "zp_ok L D" and s: "length s = zp_t D" "\<bar>sz\<bar> \<le> int (zp_t D)" "\<bar>cofactor (s, sz)\<bar> < zp_pr D"
  defines "z \<equiv> if sz < 0 then mpn_sub L (zp_prA D) (zp_t D) s (nat (- sz)) else take (nat sz) s @ replicate (zp_t D - nat sz) 0"
  shows "length z = zp_t D" "limbs_value z \<le> zp_pr D" "limbs_value z mod zp_pr D = cofactor (s, sz) mod zp_pr D"
proof -
  let ?p = "zp_pr D" and ?t = "zp_t D"
  have "length z = ?t \<and> limbs_value z \<le> ?p \<and> limbs_value z mod ?p = cofactor (s, sz) mod ?p"
  proof (cases "sz < 0")
    case True
    let ?v = "limbs_value (take (nat (- sz)) s)"
    have "sub_ok L" using zp_okD(1) [OF D] by (simp add: mpn_ok_def)
    then have z: "length z = ?t" "limbs_value z = (?p - ?v) mod 2 ^ (64 * ?t)"
      unfolding sub_ok_def using True s zp_okD(5,7) [OF D] by (simp_all add: z_def nat_le_iff)
    have c: "cofactor (s, sz) = - ?v" using True by (simp add: cofactor_def)
    have v: "?v < ?p" "0 \<le> ?v" using s(3) c by simp_all
    have "(?p - ?v) mod 2 ^ (64 * ?t) = ?p - ?v" using v zp_okD(8) [OF D] by (intro mod_pos_pos_trivial) linarith+
    then have lz: "limbs_value z = ?p - ?v" using z(2) by simp
    have "(?p - ?v) mod ?p = (- ?v) mod ?p" by simp
    then show ?thesis using z(1) lz v by (simp add: c)
  next
    case False
    then have z: "z = take (nat sz) s @ replicate (?t - nat sz) 0" by (simp add: z_def)
    have c: "cofactor (s, sz) = limbs_value (take (nat sz) s)" using False by (cases "sz = 0") (simp_all add: cofactor_def)
    show ?thesis using s False by (simp add: z c limbs_value_append nat_le_iff)
  qed
  then show "length z = ?t" "limbs_value z \<le> ?p" "limbs_value z mod ?p = cofactor (s, sz) mod ?p" by simp_all
qed

lemma take_R:
  assumes "zp_ok L D" "zp_montgomery D"
  shows "length (take (zp_t D) (zp_R D)) = zp_t D" "limbs_value (take (zp_t D) (zp_R D)) = scale D mod zp_pr D"
    "length (take (zp_t D) (zp_R2 D)) = zp_t D" "limbs_value (take (zp_t D) (zp_R2 D)) = scale D ^ 2 mod zp_pr D"
    "length (take (zp_t D) (zp_R3 D)) = zp_t D" "limbs_value (take (zp_t D) (zp_R3 D)) = scale D ^ 3 mod zp_pr D"
  using assms by (simp_all add: zp_ok_def scale_def)

lemma rep_inv:
  assumes D: "zp_ok L D" and x: "zp_rep D x u" and l: "length buf = 2 * MAX_MOD_SZ + 1" and u: "coprime u (zp_pr D)"
  shows "\<exists>w. zp_rep D (modp_inv L bmi2 D buf x) w \<and> (w * u) mod zp_pr D = 1"
proof -
  let ?p = "zp_pr D" and ?t = "zp_t D" and ?s = "scale D"
  note xb = rep_bounds [OF D x]
  have p: "1 < ?p" using zp_okD(3) [OF D] .
  have cop: "coprime (u * ?s) ?p" using u scale_coprime [OF D] by simp
  have vx: "limbs_value x = (u * ?s) mod ?p" using x by (simp add: zp_rep_def)
  then have cx: "gcd (limbs_value x) ?p = 1" using cop by (simp add: gcd_red_int [symmetric] coprime_iff_gcd_eq_1 gcd.commute)
  have "limbs_value x \<noteq> 0" using cx p by auto
  then have pos: "0 < limbs_value x" using limbs_value_nonneg [of x] by linarith
  obtain s sz where g: "mpn_gcdext L (take ?t x) (take ?t (zp_prA D)) ?t = (s, sz)" by fastforce
  let ?c = "cofactor (s, sz)"
  have gg: "length s = ?t" "\<bar>sz\<bar> \<le> int ?t" "\<bar>?c\<bar> < ?p" "?c * limbs_value x mod ?p = 1"
    using gcdextD [OF zp_okD(1) [OF D] _ _ _ _ g] xb zp_okD [OF D] pos cx p by simp_all
  define z where "z = (if sz < 0 then mpn_sub L (zp_prA D) ?t s (nat (- sz)) else take (nat sz) s @ replicate (?t - nat sz) 0)"
  note zz = cofactor_limbs [OF D gg(1-3), folded z_def]
  have inv: "modp_inv L bmi2 D buf x = (if zp_montgomery D then Mont_Mult L bmi2 D buf z (take ?t (zp_R3 D)) else z)"
    using g by (simp add: modp_inv_def z_def)
  have cs: "(?c * ?s * u) mod ?p = 1"
  proof -
    have "?c * ?s * u = ?c * (u * ?s)" by (simp add: ac_simps)
    then have "(?c * ?s * u) mod ?p = ?c * limbs_value x mod ?p" by (simp only: vx mod_mult_right_eq)
    then show ?thesis using gg(4) by simp
  qed
  have "limbs_value z \<noteq> ?p"
  proof
    assume "limbs_value z = ?p"
    then have "?c mod ?p = 0" using zz(3) by simp
    then have "(?c * limbs_value x) mod ?p = 0" by (metis mod_mult_left_eq mod_0 mult_zero_left)
    then show False using gg(4) by simp
  qed
  then have zp: "limbs_value z < ?p" using zz(2) by simp
  show ?thesis
  proof (intro exI [of _ "?c * ?s"] conjI cs)
    show "zp_rep D (modp_inv L bmi2 D buf x) (?c * ?s)"
    proof (cases "zp_montgomery D")
      case True
      note R = take_R(5,6) [OF D True]
      have "limbs_value z * limbs_value (take ?t (zp_R3 D)) mod ?p = ?c * ?s ^ 3 mod ?p"
        by (rule mod_mult_cong [OF zz(3)]) (simp add: R(2))
      also have "?c * ?s ^ 3 = (?c * ?s * ?s) * ?s" by (simp add: power3_eq_cube ac_simps)
      finally show ?thesis
        using mont_quotient [OF D True l zz(1) R(1), of "?c * ?s * ?s"] R(2) zp_okD(4) [OF D] True
        by (simp add: inv zp_rep_def)
    next
      case False
      then show ?thesis using zz zp by (simp add: inv zp_rep_def scale_def)
    qed
  qed
qed

lemma rep_zero: "zp_ok L D \<Longrightarrow> zp_rep D (assignZero D) 0"
  by (simp add: zp_rep_def assignZero_def)

lemma one_limbs:
  assumes "zp_ok L D"
  shows "length ((assignZero D)[0 := 1]) = zp_t D" "limbs_value ((assignZero D)[0 := 1]) = 1"
proof -
  show "length ((assignZero D)[0 := 1]) = zp_t D" by (simp add: assignZero_def)
  obtain k where "zp_t D = Suc k" using zp_okD(2) [OF assms] by (cases "zp_t D") auto
  then show "limbs_value ((assignZero D)[0 := 1]) = 1" by (simp add: assignZero_def)
qed

lemma rep_one:
  assumes "zp_ok L D"
  shows "zp_rep D (assignOne D) 1"
  using take_R(1,2) [OF assms] one_limbs [OF assms] zp_okD(3) [OF assms]
  by (auto simp: zp_rep_def assignOne_def scale_def)

lemma to_bigint_value:
  assumes D: "zp_ok L D" and x: "zp_rep D x u" and l: "length buf = 2 * MAX_MOD_SZ + 1"
  shows "modp_to_bigint L bmi2 D buf x = u mod zp_pr D"
proof (cases "zp_montgomery D")
  case True
  note o = one_limbs [OF D]
  have "limbs_value x * limbs_value ((assignZero D)[0 := 1]) mod zp_pr D = (u * scale D) mod zp_pr D"
    using o(2) x by (simp add: zp_rep_def)
  from mont_quotient(2) [OF D True l rep_bounds(1) [OF D x] o(1) _ this] o(2) zp_okD(3) [OF D] True
  show ?thesis by (simp add: modp_to_bigint_def)
next
  case False
  then show ?thesis using x rep_bounds(1) [OF D x] by (simp add: modp_to_bigint_def zp_rep_def scale_def)
qed

lemma limb_count_le: "n < 2 ^ (64 * k) \<Longrightarrow> limb_count n \<le> k"
proof (induction n arbitrary: k rule: limb_count.induct)
  case (1 n)
  show ?case
  proof (cases "n = 0")
    case False
    then obtain j where k: "k = Suc j" using "1.prems" by (cases k) auto
    then have "n < 2 ^ 64 * 2 ^ (64 * j)" using "1.prems" by (simp add: power_add)
    then have "n div 2 ^ 64 < 2 ^ (64 * j)" by (simp add: div_less_iff_less_mult mult.commute)
    then show ?thesis using "1.IH" [OF False] False k by (simp add: limb_count.simps [of n])
  qed (simp add: limb_count.simps)
qed

lemma mpz_size_le: "\<bar>x\<bar> < 2 ^ (64 * k) \<Longrightarrow> mpz_size x \<le> k"
  unfolding mpz_size_def by (rule limb_count_le) (simp add: nat_less_iff)

lemma mpz_size_abs [simp]: "\<bar>x\<bar> < 2 ^ (64 * mpz_size x)"
  using limb_count_bound [of "nat \<bar>x\<bar>"] by (simp add: mpz_size_def nat_less_iff)

text \<open>The final Montgomery factor of a conversion.\<close>

lemma rep_from_plain:
  assumes D: "zp_ok L D" and l: "length buf = 2 * MAX_MOD_SZ + 1" and x: "length x = zp_t D" "limbs_value x < zp_pr D"
    and v: "limbs_value x mod zp_pr D = v mod zp_pr D"
  shows "zp_rep D (if zp_montgomery D then Mont_Mult L bmi2 D buf x (take (zp_t D) (zp_R2 D)) else x) v"
proof (cases "zp_montgomery D")
  case True
  note R = take_R(3,4) [OF D True]
  have "limbs_value x * limbs_value (take (zp_t D) (zp_R2 D)) mod zp_pr D = v * scale D ^ 2 mod zp_pr D"
    by (rule mod_mult_cong [OF v]) (simp add: R(2))
  also have "v * scale D ^ 2 = (v * scale D) * scale D" by (simp add: power2_eq_square)
  finally show ?thesis
    using mont_quotient [OF D True l x(1) R(1), of "v * scale D"] R(2) zp_okD(4) [OF D] True by (simp add: zp_rep_def)
next
  case False
  then show ?thesis using x v by (simp add: zp_rep_def scale_def)
qed

lemma rep_convert_destroy:
  assumes D: "zp_ok L D" and l: "length buf = 2 * MAX_MOD_SZ + 1"
  shows "\<exists>x. modp_convert_destroy L bmi2 D buf v = Inr x \<and> zp_rep D x v"
proof -
  let ?p = "zp_pr D" and ?t = "zp_t D"
  define xx where "xx = tdiv_r v ?p"
  have b: "\<bar>xx\<bar> < ?p" unfolding xx_def using zp_okD(4) [OF D] by (rule tdiv_r_bound)
  then have sz: "mpz_size xx \<le> ?t" using zp_okD(8) [OF D] by (intro mpz_size_le) simp
  define src where "src = int_limbs (mpz_size xx) \<bar>xx\<bar>"
  have src: "length src = mpz_size xx" "limbs_value src = \<bar>xx\<bar>" by (simp_all add: src_def)
  define x where "x = (if xx < 0 then mpn_sub L (zp_prA D) ?t src (mpz_size xx) else take (mpz_size xx) src @ replicate (?t - mpz_size xx) 0)"
  have "length x = ?t \<and> limbs_value x < ?p \<and> limbs_value x mod ?p = xx mod ?p"
  proof (cases "xx < 0")
    case True
    have "sub_ok L" using zp_okD(1) [OF D] by (simp add: mpn_ok_def)
    then have x: "length x = ?t" "limbs_value x = (?p - \<bar>xx\<bar>) mod 2 ^ (64 * ?t)"
      unfolding sub_ok_def using True sz src zp_okD(5,7) [OF D] by (simp_all add: x_def)
    have "(?p - \<bar>xx\<bar>) mod 2 ^ (64 * ?t) = ?p - \<bar>xx\<bar>"
      using b zp_okD(8) [OF D] by (intro mod_pos_pos_trivial) linarith+
    then have "limbs_value x = xx + ?p" using x(2) True by simp
    then show ?thesis using x(1) True by simp
  next
    case False
    then show ?thesis using b sz src by (simp add: x_def limbs_value_append)
  qed
  then have x: "length x = ?t" "limbs_value x < ?p" "limbs_value x mod ?p = v mod ?p"
    by (simp_all add: xx_def tdiv_r_cong)
  have "modp_convert_destroy L bmi2 D buf v = Inr (if zp_montgomery D then Mont_Mult L bmi2 D buf x (take ?t (zp_R2 D)) else x)"
    unfolding modp_convert_destroy_def modp_convert_def Let_def x_def src_def xx_def [symmetric] using sz by (simp only: not_False_eq_True simp_thms if_False)
  then show ?thesis using rep_from_plain [OF D l x] by blast
qed

lemma rep_to_modp:
  assumes D: "zp_ok L D" and l: "length buf = 2 * MAX_MOD_SZ + 1"
  shows "\<exists>x. to_modp L bmi2 D buf v = Inr x \<and> zp_rep D x v"
  using rep_zero [OF D] rep_one [OF D] rep_convert_destroy [OF assms, of bmi2 v] by (simp add: to_modp_def)

section \<open>Small integers\<close>

lemma scast_value: "uint (scast (x :: 32 word) :: limb) = sint x mod 2 ^ 64"
  unfolding scast_eq by (rule uint_of_int_limb)

lemma sint_range: "- (2 ^ 31) \<le> sint (x :: 32 word)" "sint (x :: 32 word) < 2 ^ 31"
  using sint_ge [of x] sint_lt [of x] by simp_all

lemma limbs_value_first: "0 < t \<Longrightarrow> limbs_value ((replicate t 0)[0 := w]) = uint w"
  by (cases t) simp_all

lemma rep_plain_limbs:
  assumes D: "zp_ok L D" and l: "length buf = 2 * MAX_MOD_SZ + 1" and v: "uint w < zp_pr D" "uint w mod zp_pr D = v mod zp_pr D"
  shows "zp_rep D (if zp_montgomery D then Mont_Mult L bmi2 D buf ((assignZero D)[0 := w]) (take (zp_t D) (zp_R2 D)) else (assignZero D)[0 := w]) v"
  by (rule rep_from_plain [OF D l]) (use v zp_okD(2) [OF D] in \<open>simp_all add: assignZero_def limbs_value_first\<close>)

lemma top_limb: "xs \<noteq> [] \<Longrightarrow> last xs \<noteq> 0 \<Longrightarrow> 2 ^ (64 * (length xs - 1)) \<le> limbs_value xs"
proof (induction xs)
  case (Cons w xs)
  show ?case
  proof (cases "xs = []")
    case True
    then have "0 < uint w" using Cons.prems uint_0_iff [of w] by (simp add: less_le)
    then show ?thesis using True by simp
  next
    case False
    then have "2 ^ (64 * (length xs - 1)) \<le> limbs_value xs" using Cons by simp
    then have "2 ^ 64 * 2 ^ (64 * (length xs - 1)) \<le> 2 ^ 64 * limbs_value xs" by simp
    moreover have "64 + 64 * (length xs - 1) = 64 * length xs" using False by (cases xs) auto
    then have "2 ^ 64 * 2 ^ (64 * (length xs - 1)) = (2 ^ (64 * length xs) :: int)" by (simp only: power_add [symmetric])
    ultimately show ?thesis using uint_nonnegative [of w] by (simp add: add_increasing)
  qed
qed simp

lemma zp_pr_large: "zp_ok L D \<Longrightarrow> 2 ^ (64 * (zp_t D - 1)) \<le> zp_pr D"
proof -
  assume D: "zp_ok L D"
  let ?xs = "take (zp_t D) (zp_prA D)"
  have l: "length ?xs = zp_t D" using zp_okD(5) [OF D] by simp
  then have ne: "?xs \<noteq> []" using zp_okD(2) [OF D] by auto
  have "last ?xs = zp_prA D ! (zp_t D - 1)" unfolding last_conv_nth [OF ne] l using zp_okD(2) [OF D] by simp
  moreover have "zp_prA D ! (zp_t D - 1) \<noteq> 0" using D unfolding zp_ok_def by blast
  ultimately show ?thesis using top_limb [OF ne] unfolding l zp_okD(7) [OF D] by simp
qed

lemma prA_single: "zp_ok L D \<Longrightarrow> zp_t D = 1 \<Longrightarrow> uint (zp_prA D ! 0) = zp_pr D"
  using zp_okD(5,7) [of L D] by (cases "zp_prA D") simp_all

text \<open>A modulus of one limb below \<open>2 ^ 31\<close> would make the sum with a negative integer wrap.\<close>

lemma rep_to_modp_int:
  assumes D: "zp_ok L D" and l: "length buf = 2 * MAX_MOD_SZ + 1" and x: "0 \<le> sint x \<or> zp_t D \<noteq> 1 \<or> 2 ^ 31 \<le> zp_pr D"
  shows "\<exists>a. to_modp_int L bmi2 D buf x = Inr a \<and> zp_rep D a (sint x)"
proof -
  have fin: "\<exists>a. Inr (if zp_montgomery D then Mont_Mult L bmi2 D buf ((assignZero D)[0 := w]) (take (zp_t D) (zp_R2 D))
        else (assignZero D)[0 := w]) = Inr a \<and> zp_rep D a (sint x)"
    if "uint w < zp_pr D" "uint w mod zp_pr D = sint x mod zp_pr D" for w
    using rep_plain_limbs [OF D l that] by blast
  note p = zp_okD(3,4) [OF D] and r = sint_range [of x]
  consider "0 \<le> sint x" "zp_t D = 1" | "0 \<le> sint x" "zp_t D \<noteq> 1" | "sint x < 0" "zp_t D = 1" | "sint x < 0" "zp_t D \<noteq> 1"
    by linarith
  then show ?thesis
  proof cases
    case 1
    have "sint x mod 2 ^ 64 = sint x" using 1 r by simp
    then have w: "uint (scast x mod zp_prA D ! 0 :: limb) = sint x mod zp_pr D"
      using prA_single [OF D 1(2)] by (simp only: uint_mod_distrib scast_value)
    have "uint (scast x mod zp_prA D ! 0 :: limb) < zp_pr D" "uint (scast x mod zp_prA D ! 0 :: limb) mod zp_pr D = sint x mod zp_pr D"
      unfolding w using p by simp_all
    from fin [OF this] show ?thesis using 1 by (cases "zp_montgomery D") (simp_all add: to_modp_int_def assignZero_def)
  next
    case 2
    have "64 \<le> 64 * (zp_t D - 1)" using 2 zp_okD(2) [OF D] by simp
    then have "(2::int) ^ 64 \<le> 2 ^ (64 * (zp_t D - 1))" by (rule power_increasing) simp
    then have "sint x < zp_pr D" using zp_pr_large [OF D] r by simp
    moreover have "sint x mod 2 ^ 64 = sint x" using 2 r by simp
    then have w: "uint (scast x :: limb) = sint x" by (simp only: scast_value)
    ultimately have "uint (scast x :: limb) < zp_pr D" "uint (scast x :: limb) mod zp_pr D = sint x mod zp_pr D"
      by simp_all
    from fin [OF this] show ?thesis using 2 by (simp add: to_modp_int_def)
  next
    case 3
    have "(zp_pr D + sint x) mod 2 ^ 64 = zp_pr D + sint x"
      using 3 x r zp_okD(8) [OF D] by (intro mod_pos_pos_trivial) simp_all
    then have "uint (zp_prA D ! 0 + scast x) = zp_pr D + sint x"
      unfolding uint_word_ariths scast_value prA_single [OF D 3(2)] by (simp add: mod_simps)
    then have w: "uint ((zp_prA D ! 0 + scast x) mod zp_prA D ! 0) = (zp_pr D + sint x) mod zp_pr D"
      using prA_single [OF D 3(2)] by (simp only: uint_mod_distrib)
    have "uint ((zp_prA D ! 0 + scast x) mod zp_prA D ! 0) < zp_pr D"
      "uint ((zp_prA D ! 0 + scast x) mod zp_prA D ! 0) mod zp_pr D = sint x mod zp_pr D"
      unfolding w using p by simp_all
    from fin [OF this] show ?thesis using 3 by (simp add: to_modp_int_def)
  next
    case 4
    obtain a where a: "to_modp L bmi2 D buf (zp_pr D + sint x) = Inr a" "zp_rep D a (zp_pr D + sint x)"
      using rep_to_modp [OF D l] by blast
    have "zp_rep D a (sint x)" by (rule rep_cong [OF a(2)]) simp
    then show ?thesis using 4 a(1) by (simp add: to_modp_int_def)
  qed
qed

section \<open>Powers\<close>

lemma nat_halves:
  assumes "0 < ex"
  shows "nat ex = 2 * nat (ex div 2) + (if ex mod 2 = 1 then 1 else 0)"
proof -
  obtain k where "ex = 2 * k \<or> ex = 2 * k + 1" by (metis oddE evenE)
  then show ?thesis using assms by (elim disjE) (simp_all add: nat_mult_distrib nat_add_distrib)
qed

lemma rep_power_loop:
  assumes D: "zp_ok L D" and l: "length buf = 2 * MAX_MOD_SZ + 1" and "zp_rep D ans a" "zp_rep D t b"
  shows "zp_rep D (modp_power_loop L bmi2 D buf ans t ex) (a * b ^ nat ex)"
  using assms(3,4)
proof (induction "nat ex" arbitrary: ans t a b ex rule: less_induct)
  case less
  show ?case
  proof (cases "ex \<le> 0")
    case True
    then show ?thesis using less.prems by (simp add: modp_power_loop.simps)
  next
    case False
    then have d: "nat (ex div 2) < nat ex" by simp
    have n: "nat ex = 2 * nat (ex div 2) + (if ex mod 2 = 1 then 1 else 0)" using False by (intro nat_halves) simp
    have pw: "b ^ nat ex = (b * b) ^ nat (ex div 2) * (if ex mod 2 = 1 then b else 1)"
      unfolding n by (simp add: power_add power_mult power2_eq_square)
    note s = rep_sqr [OF D less.prems(2) l, of bmi2]
    show ?thesis
    proof (cases "ex mod 2 = 1")
      case True
      note less.hyps [OF d rep_mul [OF D less.prems l, of bmi2] s]
      then show ?thesis using True False pw by (simp add: modp_power_loop.simps [of _ _ _ _ _ _ ex] ac_simps)
    next
      case even: False
      note less.hyps [OF d less.prems(1) s]
      then show ?thesis using even False pw by (simp add: modp_power_loop.simps [of _ _ _ _ _ _ ex])
    qed
  qed
qed

lemma rep_power:
  assumes D: "zp_ok L D" and l: "length buf = 2 * MAX_MOD_SZ + 1" and x: "zp_rep D x u" and e: "0 \<le> ex"
  shows "\<exists>y. modp_power L bmi2 D buf x ex = Inr y \<and> zp_rep D y (u ^ nat ex)"
  using rep_power_loop [OF D l rep_one [OF D] x, of bmi2 ex] rep_one [OF D] x e by (simp add: modp_power_def)

section \<open>Tests\<close>

lemma rep_areEqual:
  assumes "zp_ok L D" "zp_rep D x u" "zp_rep D y v"
  shows "areEqual L D x y \<longleftrightarrow> u mod zp_pr D = v mod zp_pr D"
  using mpn_okD(2) [OF zp_okD(1) [OF assms(1)], of "zp_t D" x y] rep_bounds(1) [OF assms(1,2)] rep_bounds(1) [OF assms(1,3)]
    rep_value_iff [OF assms] by (simp add: areEqual_def)

lemma rep_isZero: "zp_ok L D \<Longrightarrow> zp_rep D x u \<Longrightarrow> isZero D x \<longleftrightarrow> u mod zp_pr D = 0"
  using isZero_value [of x D] rep_zero [of L D] rep_value_iff [of L D x u "assignZero D" 0] rep_bounds(1) [of L D x u] isZero_value [of "assignZero D" D]
  by (metis assignZero_def isZero_value length_replicate limbs_value_inj limbs_value_replicate mod_0 rep_bounds(1))

lemma isOne_iff:
  assumes D: "zp_ok L D" and x: "length x = zp_t D"
  shows "isOne L D x \<longleftrightarrow> x = assignOne D"
proof (cases "zp_montgomery D")
  case True
  have "zp_t D \<le> length (zp_R D)" using D True by (simp add: zp_ok_def)
  then show ?thesis using True x mpn_okD(2) [OF zp_okD(1) [OF D], of "zp_t D" x "zp_R D"] by (simp add: isOne_def assignOne_def)
next
  case False
  have "isOne L D x \<longleftrightarrow> (\<forall>i<zp_t D. x ! i = (assignOne D) ! i)"
    using False zp_okD(2) [OF D] by (auto simp: isOne_def assignOne_def assignZero_def list_all_iff nth_list_update)
  also have "\<dots> \<longleftrightarrow> x = assignOne D"
    using x False by (auto simp: assignOne_def assignZero_def list_eq_iff_nth_eq)
  finally show ?thesis .
qed

lemma rep_isOne: "zp_ok L D \<Longrightarrow> zp_rep D x u \<Longrightarrow> isOne L D x \<longleftrightarrow> u mod zp_pr D = 1 mod zp_pr D"
  using isOne_iff [of L D x] rep_one [of L D] rep_value_iff [of L D x u "assignOne D" 1] rep_bounds(1) [of L D x u] by simp

section \<open>Setting up\<close>

lemma limb_count_ge: "0 < n \<Longrightarrow> 2 ^ (64 * (limb_count n - 1)) \<le> n"
proof (induction n rule: limb_count.induct)
  case (1 n)
  let ?q = "n div 2 ^ 64"
  show ?case
  proof (cases "?q = 0")
    case True
    then show ?thesis using 1 by (simp add: limb_count.simps [of n] limb_count.simps [of 0])
  next
    case False
    then have "2 ^ (64 * (limb_count ?q - 1)) \<le> ?q" using 1 by simp
    then have "2 ^ (64 * (limb_count ?q - 1)) * 2 ^ 64 \<le> ?q * 2 ^ 64" by (rule mult_le_mono1)
    also have "?q * 2 ^ 64 \<le> n" by simp
    also have "2 ^ (64 * (limb_count ?q - 1)) * 2 ^ 64 = (2::nat) ^ (64 * limb_count ?q)"

    proof -
      obtain c where "limb_count ?q = Suc c" using limb_count.simps [of ?q] False by auto
      then show ?thesis by (simp add: power_add)
    qed
    finally show ?thesis using "1.prems" by (simp add: limb_count.simps [of n])
  qed
qed

lemma mpz_size_ge: "0 < p \<Longrightarrow> 2 ^ (64 * (mpz_size p - 1)) \<le> p"
  using limb_count_ge [of "nat p"] by (simp add: mpz_size_def le_nat_iff)

lemma int_limbs_nth: "i < n \<Longrightarrow> int_limbs n x ! i = word_of_int (x div 2 ^ (64 * i))"
  by (simp add: int_limbs_def)

lemma div_bound: "0 < k \<Longrightarrow> p < m * k \<Longrightarrow> p div k < (m :: int)"
proof (rule ccontr)
  assume a: "0 < k" "p < m * k" "\<not> p div k < m"
  then have "m * k \<le> p div k * k" by simp
  also have "\<dots> \<le> p" using div_mult_mod_eq [of p k] pos_mod_sign [OF a(1), of p] by linarith
  finally show False using a by simp
qed

lemma init_prA:
  assumes "1 < p" "mpz_size p \<le> MAX_MOD_SZ"
  shows "limbs_value (take (mpz_size p) (int_limbs (MAX_MOD_SZ + 1) p)) = p"
    "int_limbs (MAX_MOD_SZ + 1) p ! (mpz_size p - 1) \<noteq> 0" "int_limbs (MAX_MOD_SZ + 1) p ! mpz_size p = 0"
proof -
  let ?t = "mpz_size p"
  have b: "p < 2 ^ (64 * ?t)" and t: "0 < ?t" using mpz_size_bound [of p] mpz_size_pos [of p] assms by simp_all
  show "limbs_value (take ?t (int_limbs (MAX_MOD_SZ + 1) p)) = p"
    using assms b by (simp add: take_int_limbs)
  show "int_limbs (MAX_MOD_SZ + 1) p ! ?t = 0"
    using assms b by (simp add: int_limbs_nth)
  have "2 ^ (64 * ?t) = (2 ^ 64 * 2 ^ (64 * (?t - 1)) :: int)" using t by (cases ?t) (simp_all add: power_add)
  then have "p div 2 ^ (64 * (?t - 1)) < 2 ^ 64" using b by (intro div_bound) simp_all
  moreover have "0 < p div 2 ^ (64 * (?t - 1))" using mpz_size_ge [of p] assms by (simp add: pos_imp_zdiv_pos_iff)
  ultimately have "uint (word_of_int (p div 2 ^ (64 * (?t - 1))) :: limb) \<noteq> 0"
    unfolding uint_of_int_limb by simp
  then have "word_of_int (p div 2 ^ (64 * (?t - 1))) \<noteq> (0 :: limb)" by auto
  then show "int_limbs (MAX_MOD_SZ + 1) p ! (?t - 1) \<noteq> 0" using assms t by (simp add: int_limbs_nth)
qed

definition modulus_ok :: "mpn_lib \<Rightarrow> int \<Rightarrow> bool \<Rightarrow> bool" where
  "modulus_ok L p mont \<longleftrightarrow>
     mpn_ok L \<and> mpz_probable_prime L p \<and> 1 < p \<and> mpz_size p \<le> MAX_MOD_SZ \<and>
     (mont \<longrightarrow> odd p \<and> p * (2 ^ 64 + 1) \<le> 2 ^ (64 * (mpz_size p + 1)))"

lemma init_ok:
  assumes "modulus_ok L p mont"
  shows "\<exists>D. Zp_init L p mont D0 = Inr D \<and> zp_ok L D \<and> zp_pr D = p \<and> zp_montgomery D = mont \<and> zp_t D = mpz_size p"
proof -
  note a = assms [unfolded modulus_ok_def]
  have p: "1 < p" using a by blast
  have t: "0 < mpz_size p" "mpz_size p \<le> MAX_MOD_SZ" using mpz_size_pos [of p] p a by simp_all
  have b: "p < 2 ^ (64 * mpz_size p)" using mpz_size_bound [of p] p by simp
  let ?r = "2 ^ (64 * mpz_size p) :: int"
  have R: "limbs_value (int_limbs (mpz_size p) (x mod p)) = x mod p" for x
  proof -
    have "x mod p < ?r" using b p pos_mod_bound [of p x] by linarith
    then show ?thesis using p by simp
  qed
  have r2: "(?r mod p) * (?r mod p) mod p = ?r ^ 2 mod p" by (simp add: mod_mult_eq power2_eq_square)
  have r3: "(?r ^ 2 mod p) * (?r mod p) mod p = ?r ^ 3 mod p" by (simp only: mod_mult_eq power3_eq_cube power2_eq_square)
  have pi: "mont \<Longrightarrow> (p * uint (word_of_int (2 ^ (mpz_size p * 64) - mpz_invert L p (2 ^ (mpz_size p * 64))) :: limb) + 1) mod 2 ^ 64 = 0"
    using init_pi [of L p "mpz_size p"] a p t by blast
  define pi0 where "pi0 = (word_of_int (2 ^ (mpz_size p * 64) - mpz_invert L p (2 ^ (mpz_size p * 64))) :: limb)"
  define k where "k = mpz_sizeinbase L p 2"
  define D where "D = (let D = D0\<lparr>zp_pr := p, zp_pr_half := p div 2, zp_mask := push_bit ((k - 1) mod 64) 1 - 1,
              zp_pr_byte_length := mpz_sizeinbase L p 256, zp_pr_bit_length := k,
              zp_overhang := drop_bit (63 - (k - 1) mod 64) (- 1), zp_montgomery := mont, zp_t := mpz_size p\<rparr>;
      D = (if mont then D\<lparr>zp_pi := pi0, zp_R := int_limbs MAX_MOD_SZ (?r mod p), zp_R2 := int_limbs MAX_MOD_SZ (?r ^ 2 mod p),
             zp_R3 := int_limbs MAX_MOD_SZ (?r ^ 3 mod p)\<rparr> else D)
      in D\<lparr>zp_prA := int_limbs (MAX_MOD_SZ + 1) p\<rparr>)"
  have D: "Zp_init L p mont D0 = Inr D"
    using a t unfolding Zp_init_def Let_def D_def mult.commute [of "mpz_size p" 64] pi0_def k_def r2 r3
    by (simp only: not_le [symmetric] simp_thms if_False if_True)
  have f: "zp_pr D = p" "zp_montgomery D = mont" "zp_t D = mpz_size p" "zp_prA D = int_limbs (MAX_MOD_SZ + 1) p"
    by (simp_all add: D_def Let_def)
  have m: "mont \<Longrightarrow> zp_pi D = pi0 \<and>
      zp_R D = int_limbs MAX_MOD_SZ (?r mod p) \<and> zp_R2 D = int_limbs MAX_MOD_SZ (?r ^ 2 mod p) \<and> zp_R3 D = int_limbs MAX_MOD_SZ (?r ^ 3 mod p)"
    by (simp add: D_def Let_def)
  have "mont_ok L D" if mont
    unfolding mont_ok_def f using m [OF that] pi [OF that, folded pi0_def] init_prA [OF p t(2)] a t p that by simp
  then have "zp_ok L D"
    unfolding zp_ok_def f using m init_prA [OF p t(2)] a t p R
    by (simp add: take_int_limbs)
  then show ?thesis using D f by blast
qed

end
