(* ===== verification/Refine.thy ===== *)
theory Refine
  imports Modp Demo
begin

text \<open>
  The vectors of limbs refine the field: over any library that keeps GMP's laws, in plain
  and in Montgomery form, the operations of the theory \<open>Modp\<close> on canonical vectors are those of
  the theory \<open>Gfp\<close> on the numbers they stand for. A computed library shows that the laws can hold.
\<close>

section \<open>A computed library\<close>

fun egcd :: "int \<Rightarrow> int \<Rightarrow> int \<times> int \<times> int" where
  "egcd a b = (if b \<le> 0 then (a, 1, 0) else let (g, s, t) = egcd b (a mod b) in (g, t, s - (a div b) * t))"

declare egcd.simps [simp del]

lemma egcd_value:
  assumes "0 \<le> a" "0 \<le> b" "egcd a b = (g, s, t)"
  shows "g = gcd a b \<and> s * a + t * b = g"
  using assms
proof (induction a b arbitrary: g s t rule: egcd.induct)
  case (1 a b)
  show ?case
  proof (cases "b \<le> 0")
    case True
    then have b: "b = 0" using "1.prems"(2) by simp
    then have "g = a" "s = 1" using "1.prems"(3) by (simp_all add: egcd.simps [of a 0])
    with b show ?thesis using "1.prems"(1) by simp
  next
    case False
    obtain g' s' t' where r: "egcd b (a mod b) = (g', s', t')" by (cases "egcd b (a mod b)") auto
    then have e: "g = g'" "s = t'" "t = s' - (a div b) * t'" using False "1.prems"(3) by (auto simp: egcd.simps [of a b])
    have ih: "g' = gcd b (a mod b)" "s' * b + t' * (a mod b) = g'"
      using "1.IH" [OF False _ _ r] False "1.prems" by simp_all
    have "s * a + t * b = s' * b + t' * (a - (a div b) * b)" by (simp add: e algebra_simps)
    also have "\<dots> = g" using ih(2) by (simp only: minus_div_mult_eq_mod e)
    finally have "s * a + t * b = g" .
    then show ?thesis using ih(1) e(1) gcd_red_int [of a b] by simp
  qed
qed

text \<open>The digits of a number in a base above one.\<close>

fun digits :: "nat \<Rightarrow> nat \<Rightarrow> nat list" where
  "digits b n = (if b < 2 \<or> n < b then [n] else n mod b # digits b (n div b))"

declare digits.simps [simp del]

definition demo_mpn :: mpn_lib where
  "demo_mpn = \<lparr>mpn_cmp = (\<lambda>x y n. limbs_value (take n x) - limbs_value (take n y)),
     mpn_mul_1 = (\<lambda>y n v. let w = limbs_value (take n y) * uint v in (int_limbs n w, word_of_int (w div 2 ^ (64 * n)))),
     mpn_addmul_1 = (\<lambda>r y n v. let w = limbs_value (take n r) + limbs_value (take n y) * uint v
       in (int_limbs n w, word_of_int (w div 2 ^ (64 * n)))),
     mpn_sub_n = (\<lambda>x y n. int_limbs n (limbs_value (take n x) - limbs_value (take n y))),
     mpn_mul_n = (\<lambda>x y n. int_limbs (2 * n) (limbs_value (take n x) * limbs_value (take n y))),
     mpn_sqr = (\<lambda>x n. int_limbs (2 * n) (limbs_value (take n x) * limbs_value (take n x))),
     mpn_sub = (\<lambda>x n y m. int_limbs n (limbs_value (take n x) - limbs_value (take m y))),
     mpn_tdiv_r = (\<lambda>a m d n. int_limbs n (limbs_value (take m a) mod limbs_value (take n d))),
     mpn_gcdext = (\<lambda>x y n. (int_limbs n (fst (snd (egcd (limbs_value (take n x)) (limbs_value (take n y)))) mod limbs_value (take n y)), int n)),
     mpz_invert = (\<lambda>x m. fst (snd (egcd (x mod m) m)) mod m),
     mpz_probable_prime = (\<lambda>p. True),
     mpz_sizeinbase = (\<lambda>x b. length (digits b (nat \<bar>x\<bar>)))\<rparr>"

lemma take_value: "0 \<le> limbs_value (take n x)" "n \<le> length x \<Longrightarrow> limbs_value (take n x) < 2 ^ (64 * n)"
  using limbs_value_bounds [of "take n x"] by simp_all

lemma square_bound: "0 \<le> a \<Longrightarrow> 0 \<le> b \<Longrightarrow> a < 2 ^ (64 * n) \<Longrightarrow> b < 2 ^ (64 * n) \<Longrightarrow> (a * b :: int) < 2 ^ (64 * (2 * n))"
  using mult_strict_mono [of a "2 ^ (64 * n)" b "2 ^ (64 * n)"] by (simp add: power_add [symmetric])

lemma carry_split:
  assumes "0 \<le> w" "w < 2 ^ (64 * n) * 2 ^ 64"
  shows "limbs_value (int_limbs n w) + 2 ^ (64 * n) * uint (word_of_int (w div 2 ^ (64 * n)) :: limb) = w"
proof -
  have "w div 2 ^ (64 * n) < 2 ^ 64" using assms by (intro div_bound) (simp_all only: mult.commute, simp)
  then have "uint (word_of_int (w div 2 ^ (64 * n)) :: limb) = w div 2 ^ (64 * n)"
    unfolding uint_of_int_limb using assms(1) by (intro mod_pos_pos_trivial) (simp_all add: pos_imp_zdiv_nonneg_iff)
  then show ?thesis by simp
qed

lemma demo_cmp: "cmp_ok demo_mpn"
proof -
  have "limbs_value (take n x) = limbs_value (take n y) \<longleftrightarrow> take n x = take n y" if "n \<le> length x" "n \<le> length y" for x y n
    using limbs_value_inj [of "take n x" "take n y"] that by auto
  then show ?thesis by (simp add: cmp_ok_def demo_mpn_def)
qed

lemma demo_products: "mul_n_ok demo_mpn" "sqr_ok demo_mpn"
  unfolding mul_n_ok_def sqr_ok_def demo_mpn_def using square_bound [OF take_value(1) take_value(1) take_value(2) take_value(2)] by simp_all

lemma demo_differences: "sub_n_ok demo_mpn" "sub_ok demo_mpn"
  unfolding sub_n_ok_def sub_ok_def demo_mpn_def by simp_all

lemma mod_nonneg: "0 \<le> a \<Longrightarrow> 0 \<le> b \<Longrightarrow> 0 \<le> a mod (b :: int)"
  by (cases "b = 0") simp_all

lemma demo_tdiv: "tdiv_ok demo_mpn"
proof -
  have "limbs_value (take m a) mod limbs_value (take n d) < 2 ^ (64 * n)" if "n \<le> length d" "0 < n" "d ! (n - 1) \<noteq> 0" for a d m n
  proof -
    have "take n d \<noteq> []" "length (take n d) = n" using that by auto
    moreover have "last (take n d) \<noteq> 0" using that last_conv_nth [OF \<open>take n d \<noteq> []\<close>] by simp
    ultimately have "2 ^ (64 * (n - 1)) \<le> limbs_value (take n d)" using top_limb [of "take n d"] by simp
    moreover have "(0::int) < 2 ^ (64 * (n - 1))" by simp
    ultimately have "0 < limbs_value (take n d)" by linarith
    then show ?thesis using pos_mod_bound take_value(2) [OF that(1)] order.strict_trans by blast
  qed
  then have "(limbs_value (take m a) mod limbs_value (take n d)) mod 2 ^ (64 * n) = limbs_value (take m a) mod limbs_value (take n d)"
    if "n \<le> length d" "0 < n" "d ! (n - 1) \<noteq> 0" for a d m n
    by (rule mod_pos_pos_trivial [OF mod_nonneg [OF take_value(1) take_value(1)]]) (use that in \<open>blast+\<close>)
  then show ?thesis by (simp add: tdiv_ok_def demo_mpn_def)
qed

lemma demo_carries: "mul_1_ok demo_mpn" "addmul_1_ok demo_mpn"
proof -
  have m: "limbs_value (take n y) * uint v \<le> (2 ^ (64 * n) - 1) * (2 ^ 64 - 1)" if "n \<le> length y" for y n and v :: limb
    using take_value [of n y] that uint_limb [of v] by (intro mult_mono) linarith+
  have k: "(K - 1) * (2 ^ 64 - 1) + (K - 1) < K * (2 ^ 64 :: int)" if "0 < K" for K :: int
    using that by (simp add: algebra_simps)
  have b: "limbs_value (take n r) + limbs_value (take n y) * uint v < 2 ^ (64 * n) * 2 ^ 64" if "n \<le> length y" "n \<le> length r" for r y n and v :: limb
    using m [OF that(1), of v] take_value(2) [OF that(2)] k [OF zero_less_power [of 2 "64 * n"]] by linarith
  have b0: "limbs_value (take n y) * uint v < 2 ^ (64 * n) * 2 ^ 64" if "n \<le> length y" for y n and v :: limb
    using m [OF that, of v] k [OF zero_less_power [of 2 "64 * n"]] take_value(1) [of n y] zero_less_power [of "2::int" "64 * n"] by linarith
  have nn: "0 \<le> limbs_value (take n y) * uint v" for y n and v :: limb by simp
  show "mul_1_ok demo_mpn"
    unfolding mul_1_ok_def demo_mpn_def using carry_split [OF nn b0] by (simp add: Let_def del: int_limbs_value(2)) 
  show "addmul_1_ok demo_mpn"
    unfolding addmul_1_ok_def demo_mpn_def using carry_split [OF add_nonneg_nonneg [OF take_value(1) nn] b]
    by (simp add: Let_def del: int_limbs_value(2)) 
qed

lemma demo_inverses: "invert_ok demo_mpn" "gcdext_ok demo_mpn"
proof -
  define bez where "bez x m = fst (snd (egcd x m)) mod m" for x m :: int
  have bz: "(bez x m * x) mod m = gcd x m mod m" if "0 \<le> x" "0 < m" for x m
  proof -
    obtain g s t where r: "egcd x m = (g, s, t)" by (cases "egcd x m") auto
    note v = egcd_value [OF that(1) less_imp_le [OF that(2)] r]
    have "(bez x m * x) mod m = (s * x) mod m" by (simp add: bez_def r mod_mult_left_eq)
    also have "\<dots> = (s * x + t * m) mod m" by simp
    finally show ?thesis using v by simp
  qed
  have i: "mpz_invert demo_mpn x m = bez (x mod m) m" for x m by (simp add: demo_mpn_def bez_def)
  show "invert_ok demo_mpn"
    unfolding invert_ok_def i
  proof (intro allI impI)
    fix x m :: int
    assume m: "1 < m" and c: "coprime x m"
    have "(bez (x mod m) m * x) mod m = (bez (x mod m) m * (x mod m)) mod m" by (simp add: mod_mult_right_eq)
    also have "\<dots> = gcd (x mod m) m mod m" using m by (intro bz) simp_all
    also have "gcd (x mod m) m = 1" using c gcd_red_int [of x m] by (metis coprime_imp_gcd_eq_1 gcd.commute)
    finally show "0 \<le> bez (x mod m) m \<and> bez (x mod m) m < m \<and> (bez (x mod m) m * x) mod m = 1"
      using m by (simp add: bez_def)
  qed
  have g: "mpn_gcdext demo_mpn x y n = (int_limbs n (bez (limbs_value (take n x)) (limbs_value (take n y))), int n)" for x y n
    by (simp add: demo_mpn_def bez_def)
  show "gcdext_ok demo_mpn"
    unfolding gcdext_ok_def g
  proof (intro allI impI)
    fix x y :: "limb list" and n
    let ?x = "limbs_value (take n x)" and ?y = "limbs_value (take n y)"
    assume a: "n \<le> length x" "n \<le> length y" "0 < ?x" "?x < ?y"
    have n: "0 < n" using a(3) by (cases n) simp_all
    have y: "0 < ?y" using a(3,4) by linarith
    have r: "0 \<le> bez ?x ?y" "bez ?x ?y < ?y" using y by (simp_all add: bez_def)
    then have "bez ?x ?y < 2 ^ (64 * n)" using take_value(2) [OF a(2)] by linarith
    then have "cofactor (int_limbs n (bez ?x ?y), int n) = bez ?x ?y" using n r by (simp add: cofactor_def)
    then show "length (fst (int_limbs n (bez ?x ?y), int n)) = n \<and> \<bar>snd (int_limbs n (bez ?x ?y), int n)\<bar> \<le> int n \<and>
        \<bar>cofactor (int_limbs n (bez ?x ?y), int n)\<bar> < ?y \<and>
        (cofactor (int_limbs n (bez ?x ?y), int n) * ?x) mod ?y = gcd ?x ?y mod ?y"
      using bz [of ?x ?y] r y a(3) by simp
  qed
qed

lemma demo_mpn_ok: "mpn_ok demo_mpn"
  using demo_cmp demo_products demo_differences demo_tdiv demo_carries demo_inverses by (simp add: mpn_ok_def)

section \<open>Canonical vectors\<close>

definition canonical :: "zp_data \<Rightarrow> limb list \<Rightarrow> bool" where
  "canonical D x \<longleftrightarrow> length x = zp_t D \<and> limbs_value x < zp_pr D"

lemma rep_canonical: "zp_ok L D \<Longrightarrow> zp_rep D x u \<Longrightarrow> canonical D x"
  using rep_bounds by (simp add: canonical_def)

text \<open>A canonical vector stands for the number that \<open>to_bigint\<close> reads from it.\<close>

lemma canonical_rep:
  assumes D: "zp_ok L D" and x: "canonical D x" and l: "length buf = 2 * MAX_MOD_SZ + 1"
  shows "zp_rep D x (modp_to_bigint L bmi2 D buf x)"
proof (cases "zp_montgomery D")
  case True
  note o = one_limbs [OF D]
  have x': "length x = zp_t D" "limbs_value x < zp_pr D" using x by (simp_all add: canonical_def)
  have y: "limbs_value ((assignZero D)[0 := 1]) < zp_pr D" using o(2) zp_okD(3) [OF D] by simp
  have m: "2 ^ (64 * zp_t D) * limbs_value (Mont_Mult L bmi2 D buf x ((assignZero D)[0 := 1])) mod zp_pr D =
      limbs_value x * limbs_value ((assignZero D)[0 := 1]) mod zp_pr D"
    by (rule Mont_Mult_ok(3) [OF zp_okD(9) [OF D True] refl l x'(1) o(1) y])
  show ?thesis
  proof (rule repI [OF D x'])
    show "limbs_value x mod zp_pr D = (modp_to_bigint L bmi2 D buf x * scale D) mod zp_pr D"
      using m o(2) True by (simp add: modp_to_bigint_def scale_def mult.commute)
  qed
next
  case False
  then show ?thesis using x zp_okD(4) [OF D] by (simp add: canonical_def zp_rep_def modp_to_bigint_def scale_def)
qed

lemma canonical_eq:
  assumes "zp_ok L D" "canonical D x" "canonical D y" "length buf = 2 * MAX_MOD_SZ + 1"
  shows "x = y \<longleftrightarrow> modp_to_bigint L bmi2 D buf x = modp_to_bigint L bmi2 D buf y"
  using rep_value_iff [OF assms(1) canonical_rep [OF assms(1,2,4), of bmi2] canonical_rep [OF assms(1,3,4), of bmi2]]
    to_bigint_value [OF assms(1) canonical_rep [OF assms(1,2,4), of bmi2] assms(4), of bmi2]
    to_bigint_value [OF assms(1) canonical_rep [OF assms(1,3,4), of bmi2] assms(4), of bmi2] by metis

definition demo_zp :: zp_data where
  "demo_zp = \<lparr>zp_montgomery = False, zp_R = [], zp_R2 = [], zp_R3 = [], zp_pi = 0, zp_prA = [], zp_t = 10, zp_overhang = 0,
     zp_pr = 0, zp_pr_half = 0, zp_mask = 0, zp_pr_byte_length = 0, zp_pr_bit_length = 0\<rparr>"

lemma demo_modulus: "modulus_ok demo_mpn 7 True"
  using demo_mpn_ok by (simp add: modulus_ok_def mpz_size_def limb_count.simps MAX_MOD_SZ_def demo_mpn_def [THEN arg_cong [of _ _ mpz_probable_prime]])

lemma demo_buf: "length (replicate 21 w) = 2 * MAX_MOD_SZ + 1"
  by (simp add: MAX_MOD_SZ_def)

lemma demo_canonical: "Zp_init demo_mpn 7 True demo_zp = Inr D \<Longrightarrow> canonical D [3] \<and> canonical D [5]"
  using init_ok [OF demo_modulus, of demo_zp] by (auto simp: canonical_def mpz_size_def limb_count.simps)

text \<open>C19: \<open>Zp_Data::init\<close> accepts an odd prime with the head room that the Montgomery loop needs
  (or any prime, in plain form), and afterwards the routines on limbs refine the field:
  sums, differences, negatives, products and squares of canonical vectors are canonical, and
  \<open>to_bigint\<close> maps them to the operations of \<open>Gfp\<close>, with or without BMI2 and whatever the
  accumulator held.
\<close>
theorem modp_refines_gfp:
  assumes "modulus_ok L p mont" "length buf = 2 * MAX_MOD_SZ + 1"
  shows "\<exists>D. Zp_init L p mont D0 = Inr D \<and>
    (\<forall>x y. canonical D x \<and> canonical D y \<longrightarrow>
      (let v = modp_to_bigint L bmi2 D buf in
        in_field p (v x) \<and>
        canonical D (Zp_Add L D x y) \<and> v (Zp_Add L D x y) = gf_add p (v x) (v y) \<and>
        canonical D (Zp_Sub D x y) \<and> v (Zp_Sub D x y) = gf_sub p (v x) (v y) \<and>
        canonical D (modp_negate L D x) \<and> v (modp_negate L D x) = gf_neg p (v x) \<and>
        canonical D (modp_mul L bmi2 D buf x y) \<and> v (modp_mul L bmi2 D buf x y) = gf_mul p (v x) (v y) \<and>
        canonical D (modp_sqr L bmi2 D buf x) \<and> v (modp_sqr L bmi2 D buf x) = gf_mul p (v x) (v x)))"
proof -
  obtain D where D: "Zp_init L p mont D0 = Inr D" "zp_ok L D" "zp_pr D = p" using init_ok [OF assms(1)] by blast
  note l = assms(2)
  define v where "v = modp_to_bigint L bmi2 D buf"
  have val: "v z = u mod p" "canonical D z" if "zp_rep D z u" for z u
    using to_bigint_value [OF D(2) that l] rep_canonical [OF D(2) that] D(3) by (simp_all add: v_def)
  have "in_field p (v x) \<and>
        canonical D (Zp_Add L D x y) \<and> v (Zp_Add L D x y) = gf_add p (v x) (v y) \<and>
        canonical D (Zp_Sub D x y) \<and> v (Zp_Sub D x y) = gf_sub p (v x) (v y) \<and>
        canonical D (modp_negate L D x) \<and> v (modp_negate L D x) = gf_neg p (v x) \<and>
        canonical D (modp_mul L bmi2 D buf x y) \<and> v (modp_mul L bmi2 D buf x y) = gf_mul p (v x) (v y) \<and>
        canonical D (modp_sqr L bmi2 D buf x) \<and> v (modp_sqr L bmi2 D buf x) = gf_mul p (v x) (v x)"
    if c: "canonical D x" "canonical D y" for x y
  proof -
    have r: "zp_rep D x (v x)" "zp_rep D y (v y)" using canonical_rep [OF D(2) _ l] c by (simp_all add: v_def)
    have f: "in_field p (v x)" "in_field p (v y)"
      using val(1) [OF r(1)] val(1) [OF r(2)] zp_okD(4) [OF D(2)] D(3) by (metis in_field_mod)+
    note add = val [OF rep_add [OF D(2) r]] and sub = val [OF rep_sub [OF D(2) r]]
      and neg = val [OF rep_negate [OF D(2) r(1)]] and mul = val [OF rep_mul [OF D(2) r l, of bmi2]]
      and sqr = val [OF rep_sqr [OF D(2) r(1) l, of bmi2]]
    have "gf_neg p (v x) = (- v x) mod p" using gf_neg_cong [of p "v x"] in_field_id [OF in_field_neg [OF f(1)]] by simp
    then show ?thesis using f add sub neg mul sqr by (simp add: gf_add_eq gf_sub_eq gf_mul_def)
  qed
  then show ?thesis using D(1) unfolding v_def by (auto simp: Let_def)
qed

theorem modp_refines_gfp_witness:
  "\<exists>D. Zp_init demo_mpn 7 True demo_zp = Inr D \<and>
     modp_to_bigint demo_mpn True D (replicate 21 9) (modp_mul demo_mpn True D (replicate 21 9) [3] [5]) =
       gf_mul 7 (modp_to_bigint demo_mpn True D (replicate 21 9) [3]) (modp_to_bigint demo_mpn True D (replicate 21 9) [5])"
  using modp_refines_gfp [OF demo_modulus demo_buf [of 9], of demo_zp True] demo_canonical by (auto simp: Let_def)

text \<open>C39: conversion. Every integer is taken in, gives a canonical vector, and is read back
  as its residue, the one \<open>to_gfp\<close> computes; vectors of equal residues are equal, and
  \<open>areEqual\<close>, \<open>isZero\<close> and \<open>isOne\<close> decide the residue.
\<close>
theorem conversion_round_trip:
  assumes "modulus_ok L p mont" "length buf = 2 * MAX_MOD_SZ + 1"
  shows "\<exists>D. Zp_init L p mont D0 = Inr D \<and>
    (\<forall>u v. \<exists>x y. to_modp L bmi2 D buf u = Inr x \<and> to_modp L bmi2 D buf v = Inr y \<and> canonical D x \<and>
       modp_to_bigint L bmi2 D buf x = to_gfp p u \<and>
       (areEqual L D x y \<longleftrightarrow> u mod p = v mod p) \<and> (x = y \<longleftrightarrow> u mod p = v mod p) \<and>
       (isZero D x \<longleftrightarrow> u mod p = 0) \<and> (isOne L D x \<longleftrightarrow> u mod p = 1))"
proof -
  obtain D where D: "Zp_init L p mont D0 = Inr D" "zp_ok L D" "zp_pr D = p" using init_ok [OF assms(1)] by blast
  note l = assms(2)
  have p: "1 < p" using zp_okD(3) [OF D(2)] D(3) by simp
  {
    fix u v
    obtain x y where x: "to_modp L bmi2 D buf u = Inr x" "zp_rep D x u" and y: "to_modp L bmi2 D buf v = Inr y" "zp_rep D y v"
      using rep_to_modp [OF D(2) l] by blast
    have "\<exists>x y. to_modp L bmi2 D buf u = Inr x \<and> to_modp L bmi2 D buf v = Inr y \<and> canonical D x \<and>
       modp_to_bigint L bmi2 D buf x = to_gfp p u \<and>
       (areEqual L D x y \<longleftrightarrow> u mod p = v mod p) \<and> (x = y \<longleftrightarrow> u mod p = v mod p) \<and>
       (isZero D x \<longleftrightarrow> u mod p = 0) \<and> (isOne L D x \<longleftrightarrow> u mod p = 1)"
    proof (intro exI conjI)
      show "to_modp L bmi2 D buf u = Inr x" "to_modp L bmi2 D buf v = Inr y" using x y by blast+
      show "canonical D x" by (rule rep_canonical [OF D(2) x(2)])
      show "modp_to_bigint L bmi2 D buf x = to_gfp p u" unfolding to_bigint_value [OF D(2) x(2) l] to_gfp_mod [OF p] D(3) ..
      show "areEqual L D x y \<longleftrightarrow> u mod p = v mod p" unfolding rep_areEqual [OF D(2) x(2) y(2)] D(3) ..
      show "x = y \<longleftrightarrow> u mod p = v mod p" unfolding rep_value_iff [OF D(2) x(2) y(2)] D(3) ..
      show "isZero D x \<longleftrightarrow> u mod p = 0" unfolding rep_isZero [OF D(2) x(2)] D(3) ..
      show "isOne L D x \<longleftrightarrow> u mod p = 1" using rep_isOne [OF D(2) x(2)] D(3) mod_pos_pos_trivial [of 1 p] p by simp
    qed
  }
  then show ?thesis using D(1) by blast
qed

theorem conversion_round_trip_witness:
  "\<exists>D x. Zp_init demo_mpn 7 True demo_zp = Inr D \<and> to_modp demo_mpn False D (replicate 21 9) (- 4) = Inr x \<and>
     modp_to_bigint demo_mpn False D (replicate 21 9) x = 3"
proof -
  obtain D x where "Zp_init demo_mpn 7 True demo_zp = Inr D" "to_modp demo_mpn False D (replicate 21 9) (- 4) = Inr x"
    "modp_to_bigint demo_mpn False D (replicate 21 9) x = to_gfp 7 (- 4)"
    using conversion_round_trip [OF demo_modulus demo_buf [of 9], of demo_zp False] by blast
  moreover have "to_gfp 7 (- 4) = 3" by (simp add: to_gfp_mod)
  ultimately show ?thesis by metis
qed

text \<open>Inversion and powers. The inverse of the vector of a number prime to \<open>p\<close> and the
  powers of the vector of any number with a non-negative exponent are those of the field; a
  negative exponent is refused.
\<close>
theorem inverse_and_power_refine:
  assumes "modulus_ok L p mont" "length buf = 2 * MAX_MOD_SZ + 1" "gcdext_spec f"
  shows "\<exists>D. Zp_init L p mont D0 = Inr D \<and>
    (\<forall>u. \<exists>x. to_modp L bmi2 D buf u = Inr x \<and>
      (coprime u p \<longrightarrow> modp_to_bigint L bmi2 D buf (modp_inv L bmi2 D buf x) = gf_inv f p (u mod p)) \<and>
      (\<forall>ex. if 0 \<le> ex
        then (\<exists>y. modp_power L bmi2 D buf x ex = Inr y \<and> Power p (u mod p) ex = Inr (modp_to_bigint L bmi2 D buf y))
        else modp_power L bmi2 D buf x ex = Inl Not_implemented))"
proof -
  obtain D where D: "Zp_init L p mont D0 = Inr D" "zp_ok L D" "zp_pr D = p" using init_ok [OF assms(1)] by blast
  note l = assms(2)
  have p: "1 < p" using zp_okD(3) [OF D(2)] D(3) by simp
  have val: "modp_to_bigint L bmi2 D buf z = u mod p" if "zp_rep D z u" for z u
    using to_bigint_value [OF D(2) that l] D(3) by simp
  {
    fix u
    obtain x where x: "to_modp L bmi2 D buf u = Inr x" and r: "zp_rep D x u" using rep_to_modp [OF D(2) l] by blast
    let ?u = "u mod p"
    have f: "0 \<le> ?u" "?u < p" using p by simp_all
    have inv: "modp_to_bigint L bmi2 D buf (modp_inv L bmi2 D buf x) = gf_inv f p ?u" if c0: "coprime u p"
    proof -
      have c: "coprime ?u p" using that gcd_red_int [of u p] by (simp add: coprime_iff_gcd_eq_1 gcd.commute)
      have "0 < ?u" using c f p by (cases "?u = 0") (simp_all add: less_le)
      from gf_inv_cong [OF assms(3) this f(2) c] have g: "(gf_inv f p ?u * ?u) mod p = 1 mod p" "in_field p (gf_inv f p ?u)"
        by simp_all
      obtain w where w: "zp_rep D (modp_inv L bmi2 D buf x) w" "(w * u) mod p = 1"
        using rep_inv [OF D(2) r l, of bmi2] c0 unfolding D(3) by blast
      have p0: "0 < p" using p by simp
      have "?u * (w mod p) mod p = ?u * gf_inv f p ?u mod p"
        using w(2) g(1) p by (simp add: mod_mult_eq mult.commute)
      then have "w mod p = gf_inv f p ?u"
        by (rule mod_cancel [OF c p0]) (use g(2) p in \<open>simp_all add: in_field_def\<close>)
      then show ?thesis using val [OF w(1)] by simp
    qed
    have pow: "\<exists>y. modp_power L bmi2 D buf x ex = Inr y \<and> Power p ?u ex = Inr (modp_to_bigint L bmi2 D buf y)" if e: "0 \<le> ex" for ex
    proof -
      obtain y where y: "modp_power L bmi2 D buf x ex = Inr y" "zp_rep D y (u ^ nat ex)" using rep_power [OF D(2) l r e] by blast
      have "Power p ?u ex = Inr (?u ^ nat ex mod p)"
        using e f p power_loop_value [OF e, of p 1 ?u] in_field_id [OF power_loop_range [of p 1 ?u ex]]
        by (auto simp: Power_def in_field_def)
      then show ?thesis using y(1) val [OF y(2)] by (simp add: power_mod)
    qed
    have "\<exists>x. to_modp L bmi2 D buf u = Inr x \<and>
      (coprime u p \<longrightarrow> modp_to_bigint L bmi2 D buf (modp_inv L bmi2 D buf x) = gf_inv f p ?u) \<and>
      (\<forall>ex. if 0 \<le> ex
        then (\<exists>y. modp_power L bmi2 D buf x ex = Inr y \<and> Power p ?u ex = Inr (modp_to_bigint L bmi2 D buf y))
        else modp_power L bmi2 D buf x ex = Inl Not_implemented)"
      using x inv pow by (intro exI [of _ x]) (simp add: modp_power_def)
  }
  then show ?thesis using D(1) by blast
qed

theorem inverse_and_power_refine_witness:
  "\<exists>D x. Zp_init demo_mpn 7 True demo_zp = Inr D \<and> to_modp demo_mpn True D (replicate 21 9) 3 = Inr x \<and>
     modp_to_bigint demo_mpn True D (replicate 21 9) (modp_inv demo_mpn True D (replicate 21 9) x) = gf_inv demo_gcdext 7 3"
proof -
  obtain D where D: "Zp_init demo_mpn 7 True demo_zp = Inr D"
    "\<exists>x. to_modp demo_mpn True D (replicate 21 9) 3 = Inr x \<and>
      (coprime 3 (7::int) \<longrightarrow> modp_to_bigint demo_mpn True D (replicate 21 9) (modp_inv demo_mpn True D (replicate 21 9) x) = gf_inv demo_gcdext 7 (3 mod 7))"
    using inverse_and_power_refine [OF demo_modulus demo_buf [of 9] demo_gcdext_spec, of demo_zp True] by blast
  moreover have "coprime 3 (7::int)" by (rule prime_int_coprime [OF demo_prime]) simp_all
  ultimately show ?thesis by auto
qed

text \<open>C20: both Montgomery routines, the one for BMI2 and the one over GMP, return the same
  limbs whatever the accumulator on the stack held before: the reduced
  product divided by \<open>2 ^ (64 t)\<close>.
\<close>
theorem montgomery_routines_agree:
  assumes "modulus_ok L p True" "length buf = 2 * MAX_MOD_SZ + 1" "length buf' = 2 * MAX_MOD_SZ + 1"
  shows "\<exists>D. Zp_init L p True D0 = Inr D \<and>
    (\<forall>x y. length x = zp_t D \<longrightarrow> canonical D y \<longrightarrow>
      Mont_Mult_fixed L D (zp_t D) buf x y = Mont_Mult_variable L D (zp_t D) buf' x y \<and>
      canonical D (Mont_Mult_fixed L D (zp_t D) buf x y) \<and>
      (2 ^ (64 * zp_t D) * limbs_value (Mont_Mult_fixed L D (zp_t D) buf x y)) mod p = (limbs_value x * limbs_value y) mod p)"
proof -
  obtain D where D: "Zp_init L p True D0 = Inr D" "zp_ok L D" "zp_pr D = p" "zp_montgomery D" using init_ok [OF assms(1)] by blast
  have m: "mont_ok L D" using zp_okD(9) [OF D(2,4)] .
  have t: "zp_t D \<in> {1..10}" using zp_okD(2,6) [OF D(2)] by (simp add: MAX_MOD_SZ_def)
  have e: "Mont_Mult L True D b x y = Mont_Mult_fixed L D (zp_t D) b x y"
    "Mont_Mult L False D b x y = Mont_Mult_variable L D (zp_t D) b x y" for b x y
    using t by (simp_all add: Mont_Mult_def)
  {
    fix x y :: "limb list" assume x: "length x = zp_t D" and y: "canonical D y"
    have y': "length y = zp_t D" "limbs_value y < zp_pr D" using y by (simp_all add: canonical_def)
    note a = Mont_Mult_ok [OF m refl assms(2) x y', where ?bmi2.0 = True] and b = Mont_Mult_ok [OF m refl assms(3) x y', where ?bmi2.0 = False]
    have "Mont_Mult L True D buf x y = Mont_Mult L False D buf' x y"
      by (rule Mont_Mult_unique [OF m refl assms(2) x y' b])
    then have "Mont_Mult_fixed L D (zp_t D) buf x y = Mont_Mult_variable L D (zp_t D) buf' x y \<and>
      canonical D (Mont_Mult_fixed L D (zp_t D) buf x y) \<and>
      (2 ^ (64 * zp_t D) * limbs_value (Mont_Mult_fixed L D (zp_t D) buf x y)) mod p = (limbs_value x * limbs_value y) mod p"
      using a D(3) unfolding e canonical_def by simp
  }
  then show ?thesis using D(1) by blast
qed

theorem montgomery_routines_agree_witness:
  "\<exists>D. Zp_init demo_mpn 7 True demo_zp = Inr D \<and>
     Mont_Mult_fixed demo_mpn D (zp_t D) (replicate 21 9) [3] [5] = Mont_Mult_variable demo_mpn D (zp_t D) (replicate 21 4) [3] [5]"
  using montgomery_routines_agree [OF demo_modulus demo_buf [of 9] demo_buf [of 4], of demo_zp] demo_canonical
  by (fastforce simp: canonical_def)

end
