(* ===== verification/HeadRoom.thy ===== *)
theory HeadRoom
  imports Refine
begin

text \<open>
  What the Montgomery loop does to a prime without head room. In round \<open>i\<close> the carry out of
  limb \<open>t + i\<close> is dropped; for a modulus whose top limb has all its bits set
  the window of \<open>t + 1\<close> limbs can overflow there. One such product is computed step by step.
\<close>

definition edge :: int where "edge = 2 ^ 128 - 159"

definition edge_zp :: zp_data where
  "edge_zp = \<lparr>zp_montgomery = True, zp_R = [159, 0, 0, 0, 0, 0, 0, 0, 0, 0], zp_R2 = [25281, 0, 0, 0, 0, 0, 0, 0, 0, 0], zp_R3 = [4019679, 0, 0, 0, 0, 0, 0, 0, 0, 0],
     zp_pi = 13109950190749555551, zp_prA = [18446744073709551457, 18446744073709551615, 0, 0, 0, 0, 0, 0, 0, 0, 0], zp_t = 2, zp_overhang = mask 64, zp_pr = edge,
     zp_pr_half = edge div 2, zp_mask = push_bit 63 1 - 1, zp_pr_byte_length = 16, zp_pr_bit_length = 128\<rparr>"

definition edge_limbs :: "limb list" where
  "edge_limbs = [18446744073709551456, 18446744073709551615]"

lemma edge_invert: "mpz_invert demo_mpn edge (2 ^ 128) = 104866892950477891256008526818595234977"
proof (rule mod_cancel [of edge])
  have "odd edge" by (simp add: edge_def)
  then show c: "coprime edge (2 ^ 128)" by (metis coprime_power_right_iff coprime_right_2_iff_odd)
  have "invert_ok demo_mpn" using demo_mpn_ok by (simp add: mpn_ok_def)
  then have i: "0 \<le> mpz_invert demo_mpn edge (2 ^ 128) \<and> mpz_invert demo_mpn edge (2 ^ 128) < 2 ^ 128 \<and>
      (mpz_invert demo_mpn edge (2 ^ 128) * edge) mod 2 ^ 128 = 1"
    unfolding invert_ok_def using c by (metis one_less_numeral_iff one_less_power semiring_norm(76) zero_less_numeral)
  then show "0 \<le> mpz_invert demo_mpn edge (2 ^ 128)" "mpz_invert demo_mpn edge (2 ^ 128) < 2 ^ 128"
    "edge * mpz_invert demo_mpn edge (2 ^ 128) mod 2 ^ 128 = edge * 104866892950477891256008526818595234977 mod 2 ^ 128"
    by (simp_all add: mult.commute edge_def)
qed simp_all

lemma edge_init: "Zp_init demo_mpn edge True demo_zp = Inr edge_zp"
proof -
  have u: "[0..<10] = [0, 1, 2, 3, 4, 5, 6, 7, 8, 9::nat]" "[0..<11] = [0, 1, 2, 3, 4, 5, 6, 7, 8, 9, 10::nat]" by code_simp+
  have "mpz_size edge = 2" by (simp add: edge_def mpz_size_def limb_count.simps)
  moreover have "mpz_sizeinbase demo_mpn edge 2 = 128" "mpz_sizeinbase demo_mpn edge 256 = 16"
    by (simp_all add: demo_mpn_def edge_def digits.simps)
  moreover have "mpz_probable_prime demo_mpn edge" by (simp add: demo_mpn_def)
  ultimately show ?thesis using edge_invert by (simp add: Zp_init_def MAX_MOD_SZ_def edge_zp_def edge_def demo_zp_def int_limbs_def u)
qed

lemma edge_first: "mont_first_fixed demo_mpn edge_zp 2 edge_limbs edge_limbs (replicate 21 0) = [0, 18446744073709551343, 13109950190749555551, 1, 0, 0, 0, 0, 0, 0, 0, 0, 0, 0, 0, 0, 0, 0, 0, 0, 0]"
  apply (simp add: mont_first_fixed_def mpn_addmul_1_fixed_def Let_def edge_limbs_def edge_zp_def)
  apply (simp add: eval_nat_numeral)
  apply (simp add: mulx_def addcarry_def mpn_add_fixed_n_def mpn_add_n_with_carry_def)
  done

lemma edge_step: "mont_step_fixed demo_mpn edge_zp 2 edge_limbs edge_limbs 1 [0, 18446744073709551343, 13109950190749555551, 1, 0, 0, 0, 0, 0, 0, 0, 0, 0, 0, 0, 0, 0, 0, 0, 0, 0] = [0, 0, 13109950190749555282, 12761898415773903633, 0, 0, 0, 0, 0, 0, 0, 0, 0, 0, 0, 0, 0, 0, 0, 0, 0]"
  apply (simp add: mont_step_fixed_def at_offset_def mpn_addmul_1_fixed_def Let_def edge_limbs_def edge_zp_def)
  apply (simp add: eval_nat_numeral)
  apply (simp add: mulx_def addcarry_def mpn_add_fixed_n_def mpn_add_n_with_carry_def)
  done

lemma edge_product: "Mont_Mult_fixed demo_mpn edge_zp 2 (replicate 21 0) edge_limbs edge_limbs = [13109950190749555282, 12761898415773903633]"
proof -
  have u: "[1..<2] = [1::nat]" by (simp add: upt_rec)
  show ?thesis
    unfolding Mont_Mult_fixed_def edge_first u foldl.simps edge_step Let_def
    by (simp add: edge_zp_def demo_mpn_def mpn_sub_fixed_n_def mpn_sub_n_borrow_def subborrow_def)
qed

end
