(* ===== verification/Correlator.thy ===== *)
theory Correlator
  imports Prelude
begin

text \<open>
  Correlated oblivious transfer between two parties: the template \<open>OTCorrelator\<close> of
  \<open>OT/OTCorrelator.hpp\<close> over matrices of squares (\<open>OT/BitMatrix.hpp\<close>). The template is
  instantiated with squares of 128-bit words and of field elements; both are modelled by a
  record of the operations on rows. The laws that make the correlation work are a locale.
\<close>

section \<open>Squares and matrices\<close>

datatype ot_role = RECEIVER | SENDER | BOTH

definition has_role :: "ot_role \<Rightarrow> ot_role \<Rightarrow> bool" where
  "has_role r q \<longleftrightarrow> r = BOTH \<or> r = q"

text \<open>
  The part type of a matrix: the operations on rows, the number of rows that they touch
  and the number of rows there are.
\<close>

record 'r part =
  row_zero :: 'r
  row_add :: "'r \<Rightarrow> 'r \<Rightarrow> 'r"
  row_sub :: "'r \<Rightarrow> 'r \<Rightarrow> 'r"
  used_rows :: nat
  N_ROWS :: nat

type_synonym 'r square = "'r list"
type_synonym 'r matrix = "'r square list"

definition sq_sub :: "'r part \<Rightarrow> 'r square \<Rightarrow> 'r square \<Rightarrow> 'r square" where
  "sq_sub P sq other = map (\<lambda>r. if r < used_rows P then row_sub P (sq ! r) (other ! r) else sq ! r) [0..<length sq]"

definition sq_rsub :: "'r part \<Rightarrow> 'r square \<Rightarrow> 'r square \<Rightarrow> 'r square" where
  "sq_rsub P sq other = map (\<lambda>r. if r < used_rows P then row_sub P (other ! r) (sq ! r) else sq ! r) [0..<length sq]"

definition sq_sub_value :: "'r part \<Rightarrow> 'r square \<Rightarrow> 'r \<Rightarrow> 'r square" where
  "sq_sub_value P sq v = map (\<lambda>r. if r < used_rows P then row_sub P (sq ! r) v else sq ! r) [0..<length sq]"

definition sq_conditional_add :: "'r part \<Rightarrow> bool list \<Rightarrow> 'r square \<Rightarrow> nat \<Rightarrow> 'r square \<Rightarrow> 'r square" where
  "sq_conditional_add P conditions other off sq =
     map (\<lambda>r. if r < used_rows P \<and> conditions ! (N_ROWS P * off + r) then row_add P (sq ! r) (other ! r) else sq ! r)
       [0..<length sq]"

text \<open>\<open>Slice\<close>: an operation on the squares from \<open>start\<close> to \<open>start + size\<close>.\<close>

definition on_slice :: "nat \<Rightarrow> nat \<Rightarrow> (nat \<Rightarrow> 'r square \<Rightarrow> 'r square) \<Rightarrow> 'r matrix \<Rightarrow> 'r matrix" where
  "on_slice start slice f bm =
     map (\<lambda>i. if start \<le> i \<and> i < start + slice then f i (bm ! i) else bm ! i) [0..<length bm]"

definition slice_ok :: "nat \<Rightarrow> nat \<Rightarrow> 'r matrix \<Rightarrow> bool" where
  "slice_ok start slice bm \<longleftrightarrow> start + slice \<le> length bm"

definition resize_vertical :: "'r part \<Rightarrow> nat \<Rightarrow> 'r matrix \<Rightarrow> 'r matrix" where
  "resize_vertical P n bm = resize (replicate (N_ROWS P) (row_zero P)) ((n + N_ROWS P - 1) div N_ROWS P) bm"

section \<open>One party's side\<close>

text \<open>
  \<open>g_sender r\<close> and \<open>g_receiver r\<close> are the streams of rows drawn from the generators
  \<open>G_sender[r]\<close> and \<open>G_receiver[r]\<close>, \<open>sent_pos\<close> and \<open>recv_pos\<close> how far they have been read.
\<close>

record 'r correlator =
  nbaseOTs :: nat
  baseReceiverInput :: "bool list"
  g_sender :: "nat \<Rightarrow> (nat \<Rightarrow> 'r) \<times> (nat \<Rightarrow> 'r)"
  g_receiver :: "nat \<Rightarrow> nat \<Rightarrow> 'r"
  sent_pos :: nat
  recv_pos :: nat
  receiverOutputMatrix :: "'r matrix"
  t1_matrix :: "'r matrix"
  u_matrix :: "'r matrix"
  senderOutputMatrix :: "'r matrix"

definition co_resize :: "'r part \<Rightarrow> nat \<Rightarrow> 'r correlator \<Rightarrow> 'r correlator" where
  "co_resize P nOTs co = co\<lparr>
     t1_matrix := resize_vertical P nOTs (t1_matrix co), u_matrix := resize_vertical P nOTs (u_matrix co),
     senderOutputMatrix := resize_vertical P nOTs (senderOutputMatrix co),
     receiverOutputMatrix := resize_vertical P nOTs (receiverOutputMatrix co)\<rparr>"

definition randomize_slice :: "nat \<Rightarrow> nat \<Rightarrow> nat \<Rightarrow> (nat \<Rightarrow> nat \<Rightarrow> 'r) \<Rightarrow> nat \<Rightarrow> 'r matrix \<Rightarrow> 'r matrix" where
  "randomize_slice start slice nbase g pos =
     on_slice start slice (\<lambda>i sq. map (\<lambda>r. g r (pos + (i - start))) [0..<nbase] @ drop nbase sq)"

definition expand :: "ot_role \<Rightarrow> nat \<Rightarrow> nat \<Rightarrow> 'r correlator \<Rightarrow> err + 'r correlator" where
  "expand role start slice co =
     (if \<not> (slice_ok start slice (receiverOutputMatrix co) \<and> slice_ok start slice (senderOutputMatrix co) \<and>
            slice_ok start slice (t1_matrix co)) then Inl Invalid_argument
      else
        let co = (if has_role role RECEIVER then
              co\<lparr>receiverOutputMatrix := randomize_slice start slice (nbaseOTs co) (\<lambda>r. fst (g_sender co r)) (sent_pos co) (receiverOutputMatrix co),
                 t1_matrix := randomize_slice start slice (nbaseOTs co) (\<lambda>r. snd (g_sender co r)) (sent_pos co) (t1_matrix co),
                 sent_pos := sent_pos co + slice\<rparr> else co)
        in Inr (if has_role role SENDER then
              co\<lparr>senderOutputMatrix := randomize_slice start slice (nbaseOTs co) (g_receiver co) (recv_pos co) (senderOutputMatrix co),
                 recv_pos := recv_pos co + slice\<rparr> else co))"

definition setup_for_correlation :: "bool list \<Rightarrow> 'r matrix \<times> 'r matrix \<Rightarrow> 'r matrix \<Rightarrow> 'r part \<Rightarrow> 'r correlator \<Rightarrow> 'r correlator" where
  "setup_for_correlation input outs out P co = co\<lparr>baseReceiverInput := input,
     receiverOutputMatrix := fst outs, t1_matrix := snd outs,
     u_matrix := resize (replicate (N_ROWS P) (row_zero P)) (length (snd outs)) (u_matrix co), senderOutputMatrix := out\<rparr>"

text \<open>
  \<open>correlate\<close>, before and after the exchange. The bits of \<open>newReceiverInput\<close> are given as
  its rows, each as wide as a row of the matrix.
\<close>

definition correlate_send :: "'r part \<Rightarrow> ot_role \<Rightarrow> nat \<Rightarrow> nat \<Rightarrow> 'r list \<Rightarrow> nat \<Rightarrow> 'r correlator \<Rightarrow> err + 'r correlator \<times> 'r matrix" where
  "correlate_send P role start slice newReceiverInput rep co =
     (if \<not> (slice_ok start slice (receiverOutputMatrix co) \<and> slice_ok start slice (senderOutputMatrix co) \<and>
            slice_ok start slice (t1_matrix co) \<and> slice_ok start slice (u_matrix co)) then Inl Invalid_argument
      else if has_role role RECEIVER then
        if length newReceiverInput * rep < start + slice then Inl Invalid_length
        else
          let t1_matrix' = on_slice start slice (\<lambda>i sq. sq_rsub P sq (receiverOutputMatrix co ! i)) (t1_matrix co);
              t1_matrix' = on_slice start slice (\<lambda>i sq. sq_sub_value P sq (newReceiverInput ! (i div rep))) t1_matrix'
          in Inr (co\<lparr>t1_matrix := t1_matrix'\<rparr>, take slice (drop start t1_matrix'))
      else Inr (co, []))"

definition correlate_receive :: "'r part \<Rightarrow> ot_role \<Rightarrow> nat \<Rightarrow> nat \<Rightarrow> bool \<Rightarrow> 'r matrix \<Rightarrow> 'r correlator \<Rightarrow> 'r correlator" where
  "correlate_receive P role start slice useConstantBase msg co =
     (if has_role role SENDER then
        let u' = on_slice start slice (\<lambda>i sq. map (\<lambda>r. if r < used_rows P then msg ! (i - start) ! r else sq ! r) [0..<length sq]) (u_matrix co)
        in co\<lparr>u_matrix := u', senderOutputMatrix := on_slice start slice (\<lambda>i.
             sq_conditional_add P (baseReceiverInput co) (u' ! i) (if useConstantBase then 0 else i)) (senderOutputMatrix co)\<rparr>
      else co)"

text \<open>\<open>reduce_squares\<close>; \<open>to\<close> reads a square as one value.\<close>

definition reduce_squares :: "'r part \<Rightarrow> ('r square \<Rightarrow> 'v) \<Rightarrow> nat \<Rightarrow> nat \<Rightarrow> 'r correlator \<Rightarrow> err + 'r correlator \<times> 'v list" where
  "reduce_squares P to nTriples start co =
     (if length (receiverOutputMatrix co) < nTriples + start then Inl Invalid_length
      else
        let bm = on_slice start nTriples (\<lambda>j sq. sq_sub P sq (senderOutputMatrix co ! j)) (receiverOutputMatrix co)
        in Inr (co\<lparr>receiverOutputMatrix := bm\<rparr>, map (\<lambda>j. to (bm ! (j + start))) [0..<nTriples]))"

section \<open>Reading the results\<close>

lemma on_slice_length [simp]: "length (on_slice start slice f bm) = length bm"
  by (simp add: on_slice_def)

lemma on_slice_nth [simp]:
  "i < length bm \<Longrightarrow> on_slice start slice f bm ! i = (if start \<le> i \<and> i < start + slice then f i (bm ! i) else bm ! i)"
  by (simp add: on_slice_def)

lemma sq_lengths [simp]:
  "length (sq_sub P sq x) = length sq" "length (sq_rsub P sq x) = length sq" "length (sq_sub_value P sq v) = length sq"
  "length (sq_conditional_add P cs x k sq) = length sq"
  by (simp_all add: sq_sub_def sq_rsub_def sq_sub_value_def sq_conditional_add_def)

lemma sq_nth [simp]:
  assumes "r < length sq" "r < used_rows P"
  shows "sq_sub P sq x ! r = row_sub P (sq ! r) (x ! r)" "sq_rsub P sq x ! r = row_sub P (x ! r) (sq ! r)"
    "sq_sub_value P sq v ! r = row_sub P (sq ! r) v"
    "sq_conditional_add P cs x k sq ! r = (if cs ! (N_ROWS P * k + r) then row_add P (sq ! r) (x ! r) else sq ! r)"
  using assms by (simp_all add: sq_sub_def sq_rsub_def sq_sub_value_def sq_conditional_add_def)

text \<open>The matrices of a party have as many squares as needed, with all their rows.\<close>

definition tall :: "'r part \<Rightarrow> nat \<Rightarrow> 'r matrix \<Rightarrow> bool" where
  "tall P n bm \<longleftrightarrow> n \<le> length bm \<and> (\<forall>i < length bm. length (bm ! i) = N_ROWS P)"

definition spacious :: "'r part \<Rightarrow> nat \<Rightarrow> 'r correlator \<Rightarrow> bool" where
  "spacious P n co \<longleftrightarrow> used_rows P \<le> N_ROWS P \<and> tall P n (receiverOutputMatrix co) \<and> tall P n (t1_matrix co) \<and>
     tall P n (u_matrix co) \<and> tall P n (senderOutputMatrix co)"


lemma spacious_slices:
  "spacious P n co \<Longrightarrow> start + slice \<le> n \<Longrightarrow> slice_ok start slice (receiverOutputMatrix co) \<and>
     slice_ok start slice (senderOutputMatrix co) \<and> slice_ok start slice (t1_matrix co) \<and> slice_ok start slice (u_matrix co)"
  by (auto simp: spacious_def tall_def slice_ok_def)

lemma spaciousD:
  assumes "spacious P n co" "i < n"
  shows "i < length (receiverOutputMatrix co)" "length (receiverOutputMatrix co ! i) = N_ROWS P"
    "i < length (t1_matrix co)" "length (t1_matrix co ! i) = N_ROWS P"
    "i < length (u_matrix co)" "length (u_matrix co ! i) = N_ROWS P"
    "i < length (senderOutputMatrix co)" "length (senderOutputMatrix co ! i) = N_ROWS P" "used_rows P \<le> N_ROWS P"
  using assms by (auto simp: spacious_def tall_def)

lemma tall_on_slice: "tall P n bm \<Longrightarrow> (\<And>i sq. length sq = N_ROWS P \<Longrightarrow> length (f i sq) = N_ROWS P) \<Longrightarrow> tall P n (on_slice start slice f bm)"
  by (auto simp: tall_def)

text \<open>
  What the generators or the hashed transfers give at first: the sender holds one of the
  receiver's two rows, by its bit.
\<close>

definition base_index :: "'r part \<Rightarrow> bool \<Rightarrow> nat \<Rightarrow> nat \<Rightarrow> nat" where
  "base_index P useConstantBase i r = N_ROWS P * (if useConstantBase then 0 else i) + r"

definition base_correlated :: "'r part \<Rightarrow> ('r \<Rightarrow> bool) \<Rightarrow> bool \<Rightarrow> nat \<Rightarrow> nat \<Rightarrow> 'r correlator \<Rightarrow> 'r correlator \<Rightarrow> bool" where
  "base_correlated P ok useConstantBase start slice S R \<longleftrightarrow>
     (\<forall>i r. start \<le> i \<longrightarrow> i < start + slice \<longrightarrow> r < used_rows P \<longrightarrow>
        ok (receiverOutputMatrix S ! i ! r) \<and> ok (t1_matrix S ! i ! r) \<and>
        senderOutputMatrix R ! i ! r =
          (if baseReceiverInput R ! base_index P useConstantBase i r then t1_matrix S ! i ! r else receiverOutputMatrix S ! i ! r))"

text \<open>The laws of rows that make the correlation work.\<close>

locale row_group =
  fixes P :: "'r part" and ok :: "'r \<Rightarrow> bool"
  assumes sub_ok: "ok a \<Longrightarrow> ok b \<Longrightarrow> ok (row_sub P a b)"
    and add_back: "ok a \<Longrightarrow> ok b \<Longrightarrow> ok x \<Longrightarrow> row_add P b (row_sub P (row_sub P a b) x) = row_sub P a x"
begin

lemma message_state:
  assumes S: "spacious P n S" and e: "correlate_send P role start slice xs rep S = Inr (S', msg)"
  shows "\<exists>m. S' = S\<lparr>t1_matrix := m\<rparr> \<and> tall P n m"
proof (cases "has_role role RECEIVER")
  case True
  define t where "t = on_slice start slice (\<lambda>i sq. sq_sub_value P sq (xs ! (i div rep)))
    (on_slice start slice (\<lambda>i sq. sq_rsub P sq (receiverOutputMatrix S ! i)) (t1_matrix S))"
  have "S' = S\<lparr>t1_matrix := t\<rparr>" using e True by (auto simp: correlate_send_def t_def Let_def split: if_splits)
  moreover have "tall P n t" unfolding t_def using S by (intro tall_on_slice) (simp_all add: spacious_def)
  ultimately show ?thesis by blast
next
  case False
  then have "S' = S\<lparr>t1_matrix := t1_matrix S\<rparr>" using e by (auto simp: correlate_send_def split: if_splits)
  then show ?thesis using S unfolding spacious_def by blast
qed

lemma message_row:
  assumes S: "spacious P (start + slice) S" and e: "correlate_send P role start slice xs rep S = Inr (S', msg)" "has_role role RECEIVER"
    and i: "start \<le> i" "i < start + slice" "r < used_rows P"
  shows "msg ! (i - start) ! r = row_sub P (row_sub P (receiverOutputMatrix S ! i ! r) (t1_matrix S ! i ! r)) (xs ! (i div rep))"
proof -
  note sp = spaciousD [OF S i(2)]
  define t where "t = on_slice start slice (\<lambda>i sq. sq_sub_value P sq (xs ! (i div rep)))
    (on_slice start slice (\<lambda>i sq. sq_rsub P sq (receiverOutputMatrix S ! i)) (t1_matrix S))"
  have m: "msg = take slice (drop start t)"
    using e by (auto simp: correlate_send_def t_def Let_def split: if_splits)
  have "t ! i ! r = row_sub P (row_sub P (receiverOutputMatrix S ! i ! r) (t1_matrix S ! i ! r)) (xs ! (i div rep))"
    using sp i by (simp add: t_def)
  moreover have "msg ! (i - start) = t ! i" unfolding m using i sp by (simp add: t_def)
  ultimately show ?thesis by simp
qed

lemma send_returns:
  assumes "spacious P (start + slice) S" "start + slice \<le> length xs * rep"
  shows "\<exists>S' msg. correlate_send P role start slice xs rep S = Inr (S', msg)"
  using spacious_slices [OF assms(1), of start slice] assms(2) by (simp add: correlate_send_def Let_def)

text \<open>Afterwards the sender's row differs from the receiver's by the value where its bit is set.\<close>

lemma correlated:
  assumes S: "spacious P (start + slice) S" and R: "spacious P (start + slice) R"
    and base: "base_correlated P ok const start slice S R" and x: "\<And>i. start \<le> i \<Longrightarrow> i < start + slice \<Longrightarrow> ok (xs ! (i div rep))"
    and e: "correlate_send P roleS start slice xs rep S = Inr (S', msg)" "has_role roleS RECEIVER" "has_role roleR SENDER"
    and i: "start \<le> i" "i < start + slice" "r < used_rows P"
  shows "senderOutputMatrix (correlate_receive P roleR start slice const msg R) ! i ! r =
    (if baseReceiverInput R ! base_index P const i r then row_sub P (receiverOutputMatrix S ! i ! r) (xs ! (i div rep))
     else receiverOutputMatrix S ! i ! r)"
proof -
  note sp = spaciousD [OF R i(2)]
  have b: "ok (receiverOutputMatrix S ! i ! r)" "ok (t1_matrix S ! i ! r)"
    "senderOutputMatrix R ! i ! r = (if baseReceiverInput R ! base_index P const i r then t1_matrix S ! i ! r else receiverOutputMatrix S ! i ! r)"
    using base i unfolding base_correlated_def by blast+
  define u where "u = on_slice start slice (\<lambda>i sq. map (\<lambda>r. if r < used_rows P then msg ! (i - start) ! r else sq ! r) [0..<length sq]) (u_matrix R)"
  have "u ! i ! r = msg ! (i - start) ! r" using sp i by (simp add: u_def)
  moreover have "senderOutputMatrix (correlate_receive P roleR start slice const msg R) ! i ! r =
      (if baseReceiverInput R ! base_index P const i r then row_add P (senderOutputMatrix R ! i ! r) (u ! i ! r) else senderOutputMatrix R ! i ! r)"
    using sp i e(3) by (simp add: correlate_receive_def Let_def u_def base_index_def)
  ultimately show ?thesis
    using b message_row [OF S e(1,2) i] add_back [OF b(1,2) x [OF i(1,2)]] by simp
qed

end

lemma expand_returns:
  "spacious P (start + slice) co \<Longrightarrow> \<exists>co'. expand role start slice co = Inr co'"
  using spacious_slices [of P "start + slice" co start slice] by (simp add: expand_def Let_def)

text \<open>What an expansion leaves of the rest, and the rows that it writes.\<close>

lemma randomize_slice_nth:
  assumes "tall P (start + slice) bm" "nb \<le> N_ROWS P" "start \<le> i" "i < start + slice" "r < nb"
  shows "randomize_slice start slice nb g pos bm ! i ! r = g r (pos + (i - start))"
  using assms by (simp add: randomize_slice_def tall_def nth_append)

lemma randomize_slice_tall:
  "tall P n bm \<Longrightarrow> nb \<le> N_ROWS P \<Longrightarrow> tall P n (randomize_slice start slice nb g pos bm)"
  unfolding randomize_slice_def by (rule tall_on_slice) simp_all

text \<open>Two sides with matching seeds: one knows, row by row, the seed that its bit selects.\<close>

definition seeded :: "'r part \<Rightarrow> ('r \<Rightarrow> bool) \<Rightarrow> 'r correlator \<Rightarrow> 'r correlator \<Rightarrow> bool" where
  "seeded P ok S R \<longleftrightarrow> nbaseOTs S = nbaseOTs R \<and> sent_pos S = recv_pos R \<and>
     used_rows P \<le> nbaseOTs S \<and> nbaseOTs S \<le> N_ROWS P \<and>
     (\<forall>r < nbaseOTs S. g_receiver R r = (if baseReceiverInput R ! r then snd (g_sender S r) else fst (g_sender S r)) \<and>
        (\<forall>k. ok (fst (g_sender S r) k) \<and> ok (snd (g_sender S r) k)))"

lemma expand_result:
  assumes "expand role start slice co = Inr co'" "spacious P n co" "nbaseOTs co \<le> N_ROWS P"
  shows "spacious P n co'" "nbaseOTs co' = nbaseOTs co" "g_sender co' = g_sender co" "g_receiver co' = g_receiver co"
    "baseReceiverInput co' = baseReceiverInput co"
    "sent_pos co' = (if has_role role RECEIVER then sent_pos co + slice else sent_pos co)"
    "recv_pos co' = (if has_role role SENDER then recv_pos co + slice else recv_pos co)"
    "has_role role RECEIVER \<Longrightarrow> receiverOutputMatrix co' = randomize_slice start slice (nbaseOTs co) (\<lambda>r. fst (g_sender co r)) (sent_pos co) (receiverOutputMatrix co)"
    "has_role role RECEIVER \<Longrightarrow> t1_matrix co' = randomize_slice start slice (nbaseOTs co) (\<lambda>r. snd (g_sender co r)) (sent_pos co) (t1_matrix co)"
    "has_role role SENDER \<Longrightarrow> senderOutputMatrix co' = randomize_slice start slice (nbaseOTs co) (g_receiver co) (recv_pos co) (senderOutputMatrix co)"
  using assms by (auto simp: expand_def Let_def spacious_def randomize_slice_tall split: if_splits)

lemma expand_correlated:
  assumes s: "seeded P ok S R" and S: "spacious P (start + slice) S" and R: "spacious P (start + slice) R"
    and e: "expand roleS start slice S = Inr S'" "expand roleR start slice R = Inr R'" "has_role roleS RECEIVER" "has_role roleR SENDER"
  shows "base_correlated P ok True start slice S' R'"
proof -
  have nb: "nbaseOTs S \<le> N_ROWS P" "nbaseOTs R = nbaseOTs S" "used_rows P \<le> nbaseOTs S" "recv_pos R = sent_pos S"
    using s by (simp_all add: seeded_def)
  have nbR: "nbaseOTs R \<le> N_ROWS P" using nb by simp
  note x = expand_result [OF e(1) S nb(1)] and y = expand_result [OF e(2) R nbR]
  show ?thesis
    unfolding base_correlated_def
  proof (intro allI impI)
    fix i r assume i: "start \<le> i" "i < start + slice" and r: "r < used_rows P"
    have rn: "r < nbaseOTs S" using r nb by simp
    have t: "tall P (start + slice) (receiverOutputMatrix S)" "tall P (start + slice) (t1_matrix S)" "tall P (start + slice) (senderOutputMatrix R)"
      using S R by (simp_all add: spacious_def)
    have g: "g_receiver R r = (if baseReceiverInput R ! r then snd (g_sender S r) else fst (g_sender S r))"
      "ok (fst (g_sender S r) k)" "ok (snd (g_sender S r) k)" for k
      using s rn by (simp_all add: seeded_def)
    have q: "randomize_slice start slice (nbaseOTs R) (g_receiver R) (recv_pos R) (senderOutputMatrix R) ! i ! r = g_receiver R r (recv_pos R + (i - start))"
      by (rule randomize_slice_nth [OF t(3) nbR i]) (simp add: nb rn)
    show "ok (receiverOutputMatrix S' ! i ! r) \<and> ok (t1_matrix S' ! i ! r) \<and>
        senderOutputMatrix R' ! i ! r =
          (if baseReceiverInput R' ! base_index P True i r then t1_matrix S' ! i ! r else receiverOutputMatrix S' ! i ! r)"
      unfolding x(8) [OF e(3)] x(9) [OF e(3)] y(10) [OF e(4)] y(5)
        randomize_slice_nth [OF t(1) nb(1) i rn] randomize_slice_nth [OF t(2) nb(1) i rn] q
      using g by (simp add: base_index_def nb)
  qed
qed

end
