(* ===== verification/OtExt.thy ===== *)
theory OtExt
  imports Correlator "HOL-Library.Word"
begin

text \<open>
  Extension of oblivious transfer: \<open>OTExtension\<close> and \<open>OTExtensionWithMatrix\<close>
  (\<open>OT/OTExtension.h\<close>, \<open>OT/OTExtension.cpp\<close>, \<open>OT/OTExtensionWithMatrix.cpp\<close>) over squares of
  128 words of 128 bits (\<open>OT/square128.cpp\<close>). The pseudo-random generators, the hash of the
  outputs and the coins of the correlation check are arguments; the transfers of the base
  seeds have taken place.
\<close>

unbundle bit_operations_syntax

section \<open>Words\<close>

type_synonym row = "128 word"

definition bits_row :: "bool list \<Rightarrow> row" where
  "bits_row bs = horner_sum of_bool 2 bs"

definition row_bits :: "row \<Rightarrow> bool list" where
  "row_bits w = map (bit w) [0..<128]"

definition bit_part :: "row part" where
  "bit_part = \<lparr>row_zero = 0, row_add = (XOR), row_sub = (XOR), used_rows = 128, N_ROWS = 128\<rparr>"

lemma bit_part_simps [simp]:
  "row_zero bit_part = 0" "row_add bit_part = (XOR)" "row_sub bit_part = (XOR)" "used_rows bit_part = 128" "N_ROWS bit_part = 128"
  by (simp_all add: bit_part_def)

interpretation bit_rows: row_group bit_part "\<lambda>_. True"
  by unfold_locales (auto intro!: bit_word_eqI simp: bit_simps)

text \<open>Row \<open>r\<close> of the transposed square holds the bits at \<open>r\<close> of all rows.\<close>

definition transpose :: "row square \<Rightarrow> row square" where
  "transpose sq = map (\<lambda>r. bits_row (map (\<lambda>j. bit (sq ! j) r) [0..<128])) [0..<128]"

lemma bit_bits_row: "bit (bits_row bs) n \<longleftrightarrow> n < 128 \<and> n < length bs \<and> bs ! n"
  by (simp add: bits_row_def bit_horner_sum_bit_word_iff)

lemma bit_transpose: "r < 128 \<Longrightarrow> bit (transpose sq ! r) j \<longleftrightarrow> j < 128 \<and> bit (sq ! j) r"
  by (auto simp: transpose_def bit_bits_row)

text \<open>The row of a transfer: transfer \<open>k\<close> is row \<open>k mod 128\<close> of square \<open>k div 128\<close>.\<close>

definition row_at :: "row matrix \<Rightarrow> nat \<Rightarrow> row" where
  "row_at bm k = bm ! (k div 128) ! (k mod 128)"

section \<open>Products of polynomials over bits\<close>

fun xor_sum :: "(nat \<Rightarrow> 'a :: semiring_bit_operations) \<Rightarrow> nat \<Rightarrow> 'a" where
  "xor_sum f 0 = 0"
| "xor_sum f (Suc n) = xor_sum f n XOR f n"

text \<open>\<open>mul128\<close>, with both halves of its result as one word.\<close>

definition mul128 :: "row \<Rightarrow> row \<Rightarrow> 256 word" where
  "mul128 a b = xor_sum (\<lambda>i. if bit b i then push_bit i (ucast a) else 0) 128"

lemma xor_sum_cong: "(\<And>i. i < n \<Longrightarrow> f i = g i) \<Longrightarrow> xor_sum f n = xor_sum g n"
  by (induction n) simp_all

lemma xor_sum_zero [simp]: "xor_sum (\<lambda>_. 0) n = 0"
  by (induction n) simp_all

lemma xor_sum_xor: "xor_sum (\<lambda>i. f i XOR g i) n = xor_sum f n XOR xor_sum g n"
  by (induction n) (simp_all add: xor.assoc xor.left_commute)

lemma xor_sum_swap: "xor_sum (\<lambda>i. xor_sum (\<lambda>j. f i j) m) n = xor_sum (\<lambda>j. xor_sum (\<lambda>i. f i j) n) m"
  by (induction n) (simp_all add: xor_sum_xor)

lemma xor_sum_push: "push_bit k (xor_sum f n :: 'a :: len word) = xor_sum (\<lambda>i. push_bit k (f i)) n"
  by (induction n) (simp_all add: push_bit_xor)

lemma xor_sum_single: "k < n \<Longrightarrow> xor_sum (\<lambda>i. if i = k then x else 0) n = (x :: 'a :: len word)"
proof (induction n)
  case (Suc n)
  show ?case
  proof (cases "k < n")
    case False
    then have "k = n" using Suc.prems by simp
    moreover have "xor_sum (\<lambda>i. if i = k then x else 0) n = xor_sum (\<lambda>_. 0) n" using False by (intro xor_sum_cong) simp
    ultimately show ?thesis by simp
  qed (use Suc in simp)
qed simp

lemma bit_xor_sum_powers:
  "m \<le> 256 \<Longrightarrow> bit (xor_sum (\<lambda>j. if P j then push_bit j 1 else 0) m :: 256 word) n \<longleftrightarrow> n < m \<and> P n"
proof (induction m)
  case (Suc m)
  then show ?case by (auto simp: bit_simps less_Suc_eq)
qed simp

lemma ucast_powers: "(ucast (a :: row) :: 256 word) = xor_sum (\<lambda>j. if bit a j then push_bit j 1 else 0) 128"
  by (rule bit_word_eqI) (auto simp: bit_xor_sum_powers bit_simps dest: bit_imp_le_length)

lemma mul128_double: "mul128 a b = xor_sum (\<lambda>i. xor_sum (\<lambda>j. if bit a j \<and> bit b i then push_bit (i + j) 1 else 0) 128) 128"
  unfolding mul128_def
proof (rule xor_sum_cong)
  fix i :: nat
  show "(if bit b i then push_bit i (ucast a) else 0) =
      (xor_sum (\<lambda>j. if bit a j \<and> bit b i then push_bit (i + j) 1 else 0) 128 :: 256 word)"
  proof (cases "bit b i")
    case True
    have "push_bit i (ucast a :: 256 word) = xor_sum (\<lambda>j. push_bit i (if bit a j then push_bit j 1 else 0)) 128"
      unfolding ucast_powers xor_sum_push ..
    also have "\<dots> = xor_sum (\<lambda>j. if bit a j \<and> bit b i then push_bit (i + j) 1 else 0) 128"
      by (rule xor_sum_cong) (simp add: True push_bit_eq_mult power_add)
    finally show ?thesis using True by simp
  qed simp
qed

lemma mul128_commute: "mul128 a b = mul128 b a"
proof -
  have "mul128 a b = xor_sum (\<lambda>j. xor_sum (\<lambda>i. if bit a j \<and> bit b i then push_bit (i + j) 1 else 0) 128) 128"
    unfolding mul128_double by (rule xor_sum_swap)
  also have "\<dots> = mul128 b a" unfolding mul128_double by (intro xor_sum_cong) (simp add: add.commute conj_commute)
  finally show ?thesis .
qed

lemma mul128_xor: "mul128 (a XOR b) c = mul128 a c XOR mul128 b c"
  unfolding mul128_def xor_sum_xor [symmetric]
  by (rule xor_sum_cong) (simp add: push_bit_xor unsigned_xor_eq)

lemma mul128_zero [simp]: "mul128 0 c = 0"
proof -
  have "mul128 0 c = xor_sum (\<lambda>_. 0) 128" unfolding mul128_def by (rule xor_sum_cong) auto
  then show ?thesis by simp
qed

lemma mul128_sum: "mul128 (xor_sum f n) c = xor_sum (\<lambda>i. mul128 (f i) c) n"
  by (induction n) (simp_all add: mul128_xor)


section \<open>One party's side\<close>

text \<open>
  \<open>words\<close> is the stream of the party's own generator \<open>G\<close>; \<open>correlator.more\<close> is not used.
\<close>

record extension =
  passive_only :: bool
  words :: "nat \<Rightarrow> 64 word"
  words_read :: nat
  ex_co :: "row correlator"

definition set_word :: "nat \<Rightarrow> 64 word \<Rightarrow> bool list \<Rightarrow> bool list" where
  "set_word i w bs = take (64 * i) bs @ map (bit w) [0..<64] @ drop (64 * i + 64) bs"

definition rounded :: "nat \<Rightarrow> nat" where
  "rounded n = (n + 127) div 128 * 128"

definition padded_input :: "nat \<Rightarrow> bool list \<Rightarrow> extension \<Rightarrow> bool list" where
  "padded_input nOTs newReceiverInput E =
     foldl (\<lambda>bs i. set_word (nOTs div 64 - i - 1) (words E (words_read E + i)) bs) (resize False nOTs newReceiverInput) [0..<4]"

definition input_rows :: "bool list \<Rightarrow> row list" where
  "input_rows bs = map (\<lambda>i. bits_row (take 128 (drop (128 * i) bs))) [0..<length bs div 128]"

text \<open>\<open>extend_correlated\<close> up to the message of \<open>correlate\<close>; the number of subloops is one.\<close>

definition extend_send :: "nat \<Rightarrow> bool list \<Rightarrow> extension \<Rightarrow> err + extension \<times> row matrix \<times> bool list" where
  "extend_send nOTs_requested newReceiverBits E =
     (if nOTs_requested \<noteq> length newReceiverBits then Inl (Runtime_error ''wrong number of choice bits'')
      else
        let nOTs = rounded nOTs_requested + 2 * 128; slice = nOTs div 128;
            x = padded_input nOTs newReceiverBits E
        in case expand BOTH 0 slice (co_resize bit_part nOTs (ex_co E)) of Inl e \<Rightarrow> Inl e
           | Inr co \<Rightarrow> (case correlate_send bit_part BOTH 0 slice (input_rows x) 1 co of Inl e \<Rightarrow> Inl e
             | Inr (co, msg) \<Rightarrow> Inr (E\<lparr>ex_co := co, words_read := words_read E + 4\<rparr>, msg, x)))"

definition extend_receive :: "nat \<Rightarrow> row matrix \<Rightarrow> extension \<Rightarrow> extension" where
  "extend_receive nOTs_requested msg E =
     (let slice = (rounded nOTs_requested + 2 * 128) div 128;
          co = correlate_receive bit_part BOTH 0 slice True msg (ex_co E)
      in E\<lparr>ex_co := co\<lparr>receiverOutputMatrix := on_slice 0 slice (\<lambda>_. transpose) (receiverOutputMatrix co),
           senderOutputMatrix := on_slice 0 slice (\<lambda>_. transpose) (senderOutputMatrix co)\<rparr>\<rparr>)"

text \<open>\<open>check_correlation\<close>: what a party computes and sends, and what it checks of the other's.\<close>

definition check_sums :: "(nat \<Rightarrow> row) \<Rightarrow> nat \<Rightarrow> bool list \<Rightarrow> extension \<Rightarrow> row \<times> 256 word \<times> 256 word" where
  "check_sums chi nOTs x E =
     (xor_sum (\<lambda>i. if x ! i then chi i else 0) nOTs,
      xor_sum (\<lambda>i. mul128 (row_at (receiverOutputMatrix (ex_co E)) i) (chi i)) nOTs,
      xor_sum (\<lambda>i. mul128 (row_at (senderOutputMatrix (ex_co E)) i) (chi i)) nOTs)"

definition check_iteration :: "row \<Rightarrow> 256 word \<Rightarrow> row \<Rightarrow> 256 word \<Rightarrow> bool" where
  "check_iteration delta q received_x received_t \<longleftrightarrow> mul128 received_x delta XOR q = received_t"

definition check_correlation :: "(nat \<Rightarrow> row) \<Rightarrow> nat \<Rightarrow> bool list \<Rightarrow> row \<times> 256 word \<Rightarrow> extension \<Rightarrow> err + unit" where
  "check_correlation chi nOTs x received E =
     (if nbaseOTs (ex_co E) \<noteq> 128 then Inl Not_implemented
      else let (_, _, q) = check_sums chi nOTs x E
        in if check_iteration (bits_row (baseReceiverInput (ex_co E))) q (fst received) (snd received) then Inr ()
           else Inl (Runtime_error ''correlation check''))"

definition extend_resize :: "nat \<Rightarrow> extension \<Rightarrow> extension" where
  "extend_resize nOTs_requested E =
     (let k = rounded nOTs_requested div 128; co = ex_co E; z = replicate 128 0
      in E\<lparr>ex_co := co\<lparr>receiverOutputMatrix := resize z k (receiverOutputMatrix co),
           senderOutputMatrix := resize z k (senderOutputMatrix co)\<rparr>\<rparr>)"

section \<open>Both parties\<close>

text \<open>
  \<open>extend_correlated\<close> of two parties that each play both roles. \<open>chi\<close> are the coins of the
  check, drawn from their joint generator.
\<close>

definition extend_correlated :: "(nat \<Rightarrow> row) \<Rightarrow> nat \<Rightarrow> bool list \<Rightarrow> bool list \<Rightarrow> extension \<Rightarrow> extension \<Rightarrow> err + extension \<times> extension" where
  "extend_correlated chi n xA xB A B =
     (if n = 0 then Inr (A, B)
      else case (extend_send n xA A, extend_send n xB B) of
        (Inl e, _) \<Rightarrow> Inl e
      | (_, Inl e) \<Rightarrow> Inl e
      | (Inr (A, mA, pA), Inr (B, mB, pB)) \<Rightarrow>
          let A = extend_receive n mB A; B = extend_receive n mA B; nOTs = rounded n + 2 * 128;
              (rA, tA, _) = check_sums chi nOTs pA A; (rB, tB, _) = check_sums chi nOTs pB B
          in case (if passive_only A then Inr () else check_correlation chi nOTs pA (rB, tB) A,
                   if passive_only B then Inr () else check_correlation chi nOTs pB (rA, tA) B) of
               (Inl e, _) \<Rightarrow> Inl e
             | (_, Inl e) \<Rightarrow> Inl e
             | _ \<Rightarrow> Inr (extend_resize n A, extend_resize n B))"

text \<open>
  \<open>hash_outputs\<close>: it fills the rows of the first \<open>nOTs\<close> transfers; \<open>H\<close> is the hash.
\<close>

definition hash_rows :: "'v part \<Rightarrow> (row \<Rightarrow> 'v) \<Rightarrow> nat \<Rightarrow> (nat \<Rightarrow> row) \<Rightarrow> 'v matrix \<Rightarrow> 'v matrix" where
  "hash_rows P H nOTs f out =
     map (\<lambda>i. map (\<lambda>r. if i * N_ROWS P + r < nOTs then H (f (i * N_ROWS P + r)) else out ! i ! r) [0..<N_ROWS P])
       [0..<length out]"

definition hash_outputs :: "'v part \<Rightarrow> (row \<Rightarrow> 'v) \<Rightarrow> nat \<Rightarrow> 'v matrix \<times> 'v matrix \<Rightarrow> 'v matrix \<Rightarrow> extension \<Rightarrow>
    err + ('v matrix \<times> 'v matrix) \<times> 'v matrix" where
  "hash_outputs P H nOTs senderOutput receiverOutput E =
     (let n = (nOTs + N_ROWS P - 1) div N_ROWS P * N_ROWS P;
          s0 = resize_vertical P n (fst senderOutput); s1 = resize_vertical P n (snd senderOutput);
          r = resize_vertical P n receiverOutput; q = row_at (senderOutputMatrix (ex_co E));
          delta = bits_row (baseReceiverInput (ex_co E))
      in if nOTs mod 8 \<noteq> 0 then Inl (Runtime_error ''number of OTs must be divisible by 8'')
         else Inr ((hash_rows P H nOTs q s0, hash_rows P H nOTs (\<lambda>k. q k XOR delta) s1),
                   hash_rows P H nOTs (row_at (receiverOutputMatrix (ex_co E))) r))"


section \<open>What the extension gives\<close>

definition delta_row :: "extension \<Rightarrow> row" where
  "delta_row E = bits_row (baseReceiverInput (ex_co E))"

definition ext_shaped :: "extension \<Rightarrow> bool" where
  "ext_shaped E \<longleftrightarrow> spacious bit_part 0 (ex_co E) \<and> nbaseOTs (ex_co E) = 128 \<and> length (baseReceiverInput (ex_co E)) = 128"

text \<open>Party \<open>A\<close>'s base seeds match what party \<open>B\<close> got for its bits.\<close>

definition ext_pair :: "extension \<Rightarrow> extension \<Rightarrow> bool" where
  "ext_pair A B \<longleftrightarrow> ext_shaped A \<and> ext_shaped B \<and> seeded bit_part (\<lambda>_. True) (ex_co A) (ex_co B)"

lemma resize_vertical_tall: "tall P 0 bm \<Longrightarrow> 0 < N_ROWS P \<Longrightarrow> n \<le> k * N_ROWS P \<Longrightarrow> k * N_ROWS P < n + N_ROWS P \<Longrightarrow> tall P k (resize_vertical P n bm)"
proof -
  assume a: "tall P 0 bm" "0 < N_ROWS P" "n \<le> k * N_ROWS P" "k * N_ROWS P < n + N_ROWS P"
  have "(n + N_ROWS P - 1) div N_ROWS P = k"
    by (rule div_nat_eqI) (use a in \<open>simp_all add: mult.commute\<close>)
  then show ?thesis using a(1) by (auto simp: tall_def resize_vertical_def resize_def nth_append)
qed

lemma rounded_div [simp]: "(rounded n + 256) div 128 = rounded n div 128 + 2" "128 * (rounded n div 128) = rounded n" "rounded n mod 128 = 0"
  by (simp_all add: rounded_def)

lemma rounded_ge: "n \<le> rounded n"
proof -
  have "n + 127 = (n + 127) div 128 * 128 + (n + 127) mod 128" by simp
  moreover have "(n + 127) mod 128 < 128" by simp
  ultimately show ?thesis unfolding rounded_def by linarith
qed

lemma rounded_words: "64 * ((rounded n + 256) div 64) = rounded n + 256" "4 \<le> (rounded n + 256) div 64"
proof -
  obtain r where r: "rounded n = 128 * r" by (simp add: rounded_def)
  have "(128 * r + 256) div 64 = 2 * r + (4 :: nat)" by (rule div_nat_eqI) simp_all
  then show "64 * ((rounded n + 256) div 64) = rounded n + 256" "4 \<le> (rounded n + 256) div 64" by (simp_all add: r)
qed

lemma padded_length [simp]: "length (padded_input (rounded n + 256) xs E) = rounded n + 256"
proof -
  have w: "length (set_word i w bs) = length bs" if "64 * i + 64 \<le> length bs" for i w bs
    using that by (simp add: set_word_def)
  have f: "length (foldl (\<lambda>bs i. set_word (k - i - 1) (g i) bs) bs [0..<m]) = length bs" if "64 * k = length bs" "m \<le> k" for k g bs m
    using that(2)
  proof (induction m)
    case (Suc m)
    then have l: "length (foldl (\<lambda>bs i. set_word (k - i - 1) (g i) bs) bs [0..<m]) = length bs" by simp
    have "64 * (k - m - 1) + 64 \<le> length bs" using that(1) Suc.prems by (simp add: diff_mult_distrib2)
    then show ?case using l by (simp add: w)
  qed simp
  have "length (resize False (rounded n + 256) xs) = rounded n + 256" by simp
  then show ?thesis unfolding padded_input_def using rounded_words [of n] by (subst f) (simp_all only:)
qed

lemma set_word_below: "k < 64 * i \<Longrightarrow> 64 * i \<le> length bs \<Longrightarrow> set_word i w bs ! k = bs ! k"
  by (simp add: set_word_def nth_append)

lemma padded_prefix:
  assumes "k < rounded n" "length xs = n" "k < n"
  shows "padded_input (rounded n + 256) xs E ! k = xs ! k"
proof -
  let ?K = "(rounded n + 256) div 64"
  have K: "64 * ?K = rounded n + 256" by (rule rounded_words)
  have f: "length (foldl (\<lambda>bs i. set_word (?K - i - 1) (g i) bs) bs [0..<m]) = length bs \<and>
      foldl (\<lambda>bs i. set_word (?K - i - 1) (g i) bs) bs [0..<m] ! k = bs ! k"
    if "length bs = rounded n + 256" "m \<le> 4" for g bs m
    using that(2)
  proof (induction m)
    case (Suc m)
    let ?b = "foldl (\<lambda>bs i. set_word (?K - i - 1) (g i) bs) bs [0..<m]"
    have b: "length ?b = rounded n + 256" "?b ! k = bs ! k" using Suc that(1) by simp_all
    have i: "k < 64 * (?K - m - 1)" "64 * (?K - m - 1) + 64 \<le> rounded n + 256"
      using assms(1) K Suc.prems by linarith+
    have "length (set_word (?K - m - 1) (g m) ?b) = length ?b" using i b(1) by (simp add: set_word_def)
    then show ?case using b i set_word_below [OF i(1), of ?b "g m"] that(1) by simp
  qed simp
  have "resize False (rounded n + 256) xs ! k = xs ! k" using assms by (simp add: resize_def nth_append)
  then show ?thesis unfolding padded_input_def using f [of "resize False (rounded n + 256) xs" 4 "\<lambda>i. words E (words_read E + i)"] by simp
qed

lemma input_rows_bit:
  assumes "length bs = 128 * m" "i < m" "s < 128"
  shows "bit (input_rows bs ! i) s \<longleftrightarrow> bs ! (128 * i + s)"
  using assms by (simp add: input_rows_def bit_bits_row)


lemma co_resize_spacious:
  assumes "spacious bit_part 0 co" "n = 128 * k"
  shows "spacious bit_part k (co_resize bit_part n co)"
  using assms resize_vertical_tall [of bit_part _ n k] by (simp add: spacious_def co_resize_def)

lemma co_resize_fields [simp]:
  "nbaseOTs (co_resize P n co) = nbaseOTs co" "baseReceiverInput (co_resize P n co) = baseReceiverInput co"
  "g_sender (co_resize P n co) = g_sender co" "g_receiver (co_resize P n co) = g_receiver co"
  "sent_pos (co_resize P n co) = sent_pos co" "recv_pos (co_resize P n co) = recv_pos co"
  by (simp_all add: co_resize_def)

lemma seeded_resize [simp]: "seeded P ok (co_resize P n S) (co_resize P n R) \<longleftrightarrow> seeded P ok S R"
  by (simp add: seeded_def)

lemma has_role_both [simp]: "has_role BOTH r"
  by (simp add: has_role_def)

text \<open>One party up to its message: what the later steps need of the state.\<close>

definition sent_state :: "nat \<Rightarrow> bool list \<Rightarrow> extension \<Rightarrow> extension \<Rightarrow> row matrix \<Rightarrow> row correlator \<Rightarrow> bool" where
  "sent_state n x E E' msg co \<longleftrightarrow>
     expand BOTH 0 (rounded n div 128 + 2) (co_resize bit_part (rounded n + 256) (ex_co E)) = Inr co \<and>
     correlate_send bit_part BOTH 0 (rounded n div 128 + 2) (input_rows x) 1 co = Inr (ex_co E', msg) \<and>
     length x = rounded n + 256 \<and> E' = E\<lparr>ex_co := ex_co E', words_read := words_read E + 4\<rparr>"

lemma sent_state_spacious:
  assumes "ext_shaped E" "sent_state n x E E' msg co"
  shows "spacious bit_part (rounded n div 128 + 2) (co_resize bit_part (rounded n + 256) (ex_co E))"
    "spacious bit_part (rounded n div 128 + 2) co" "spacious bit_part (rounded n div 128 + 2) (ex_co E')"
proof -
  let ?k = "rounded n div 128 + 2"
  have r: "rounded n + 256 = 128 * ?k" by simp
  show a: "spacious bit_part ?k (co_resize bit_part (rounded n + 256) (ex_co E))"
    using assms(1) by (intro co_resize_spacious) (simp_all add: ext_shaped_def)
  show b: "spacious bit_part ?k co"
    by (rule expand_result(1) [OF _ a]) (use assms in \<open>auto simp: sent_state_def ext_shaped_def\<close>)
  obtain m where "ex_co E' = co\<lparr>t1_matrix := m\<rparr>" "tall bit_part ?k m"
    using bit_rows.message_state [of ?k co BOTH 0 ?k "input_rows x" 1 "ex_co E'" msg] b assms(2) by (auto simp: sent_state_def)
  then show "spacious bit_part ?k (ex_co E')" using b by (simp add: spacious_def)
qed

lemma extend_send_state:
  assumes "ext_shaped E" "length xs = n"
  shows "\<exists>E' msg co. extend_send n xs E = Inr (E', msg, padded_input (rounded n + 256) xs E) \<and>
    sent_state n (padded_input (rounded n + 256) xs E) E E' msg co"
proof -
  let ?k = "rounded n div 128 + 2" and ?x = "padded_input (rounded n + 256) xs E"
  have a: "spacious bit_part (0 + ?k) (co_resize bit_part (rounded n + 256) (ex_co E))"
    using assms(1) by (simp, intro co_resize_spacious) (simp_all add: ext_shaped_def)
  obtain co where co: "expand BOTH 0 ?k (co_resize bit_part (rounded n + 256) (ex_co E)) = Inr co"
    using expand_returns [OF a] by blast
  have b: "spacious bit_part (0 + ?k) co" using expand_result(1) [OF co a] assms(1) by (simp add: ext_shaped_def)
  have l: "0 + ?k \<le> length (input_rows ?x) * 1" by (simp add: input_rows_def)
  obtain S msg where S: "correlate_send bit_part BOTH 0 ?k (input_rows ?x) 1 co = Inr (S, msg)"
    using bit_rows.send_returns [OF b l] by blast
  let ?E = "E\<lparr>ex_co := S, words_read := words_read E + 4\<rparr>"
  have "extend_send n xs E = Inr (?E, msg, ?x)" using assms(2) co S by (simp add: extend_send_def Let_def)
  moreover have "sent_state n ?x E ?E msg co" using co S by (simp add: sent_state_def)
  ultimately show ?thesis by blast
qed

lemma sent_state_fields:
  assumes "ext_shaped E" "sent_state n x E E' msg co"
  shows "baseReceiverInput (ex_co E') = baseReceiverInput (ex_co E)" "nbaseOTs (ex_co E') = 128"
    "receiverOutputMatrix (ex_co E') = receiverOutputMatrix co" "senderOutputMatrix (ex_co E') = senderOutputMatrix co"
    "g_sender (ex_co E') = g_sender (ex_co E)" "g_receiver (ex_co E') = g_receiver (ex_co E)"
    "sent_pos (ex_co E') = sent_pos (ex_co E) + (rounded n div 128 + 2)" "recv_pos (ex_co E') = recv_pos (ex_co E) + (rounded n div 128 + 2)"
    "baseReceiverInput co = baseReceiverInput (ex_co E)"
proof -
  let ?k = "rounded n div 128 + 2"
  have e: "expand BOTH 0 ?k (co_resize bit_part (rounded n + 256) (ex_co E)) = Inr co"
    "nbaseOTs (co_resize bit_part (rounded n + 256) (ex_co E)) \<le> N_ROWS bit_part" "nbaseOTs (ex_co E) = 128"
    using assms by (simp_all add: sent_state_def ext_shaped_def)
  note x = expand_result [OF e(1) sent_state_spacious(1) [OF assms] e(2)]
  obtain m where "ex_co E' = co\<lparr>t1_matrix := m\<rparr>"
    using bit_rows.message_state [of ?k co BOTH 0 ?k "input_rows x" 1 "ex_co E'" msg] sent_state_spacious(2) [OF assms] assms(2)
    by (auto simp: sent_state_def)
  then show "baseReceiverInput (ex_co E') = baseReceiverInput (ex_co E)" "nbaseOTs (ex_co E') = 128"
    "receiverOutputMatrix (ex_co E') = receiverOutputMatrix co" "senderOutputMatrix (ex_co E') = senderOutputMatrix co"
    "g_sender (ex_co E') = g_sender (ex_co E)" "g_receiver (ex_co E') = g_receiver (ex_co E)"
    "sent_pos (ex_co E') = sent_pos (ex_co E) + (rounded n div 128 + 2)" "recv_pos (ex_co E') = recv_pos (ex_co E) + (rounded n div 128 + 2)"
    "baseReceiverInput co = baseReceiverInput (ex_co E)"
    using x(2-7) e(3) by simp_all
qed

text \<open>After the exchange the rows of the two parties differ by the sender's bits, where the choice bit is set.\<close>

lemma extend_rows:
  assumes p: "ext_pair A B" and A: "sent_state n x A A' mA coA" and B: "sent_state n y B B' mB coB"
    and k: "k < rounded n + 256"
  shows "row_at (receiverOutputMatrix (ex_co (extend_receive n mB A'))) k =
    row_at (senderOutputMatrix (ex_co (extend_receive n mA B'))) k XOR (if x ! k then delta_row B else 0)"
proof (rule bit_word_eqI)
  let ?s = "rounded n div 128 + 2" and ?i = "k div 128" and ?r = "k mod 128"
  fix j assume j: "j < LENGTH(128)"
  have sh: "ext_shaped A" "ext_shaped B" "seeded bit_part (\<lambda>_. True) (ex_co A) (ex_co B)" using p by (simp_all add: ext_pair_def)
  have "k < ?s * 128"
  proof -
    define q where "q = rounded n div 128"
    have "rounded n = 128 * q" using rounded_div(2) [of n] by (simp only: q_def)
    then show ?thesis using k by (simp add: q_def [symmetric])
  qed
  then have i: "?i < ?s" by (rule less_mult_imp_div_less)
  note spA = sent_state_spacious [OF sh(1) A] and spB = sent_state_spacious [OF sh(2) B]
  note fA = sent_state_fields [OF sh(1) A] and fB = sent_state_fields [OF sh(2) B]
  have eA: "expand BOTH 0 ?s (co_resize bit_part (rounded n + 256) (ex_co A)) = Inr coA"
    "correlate_send bit_part BOTH 0 ?s (input_rows x) 1 coA = Inr (ex_co A', mA)" "length x = 128 * ?s"
    using A by (simp_all add: sent_state_def)
  have eB: "expand BOTH 0 ?s (co_resize bit_part (rounded n + 256) (ex_co B)) = Inr coB" using B by (simp add: sent_state_def)
  have "base_correlated bit_part (\<lambda>_. True) True 0 ?s coA coB"
    by (rule expand_correlated [OF _ _ _ eA(1) eB]) (use sh(3) spA(1) spB(1) in simp_all)
  then have base: "base_correlated bit_part (\<lambda>_. True) True 0 ?s coA (ex_co B')"
    by (simp add: base_correlated_def fB)
  have c: "senderOutputMatrix (correlate_receive bit_part BOTH 0 ?s True mA (ex_co B')) ! ?i ! j =
      (if baseReceiverInput (ex_co B') ! base_index bit_part True ?i j
       then row_sub bit_part (receiverOutputMatrix coA ! ?i ! j) (input_rows x ! (?i div 1)) else receiverOutputMatrix coA ! ?i ! j)"
    by (rule bit_rows.correlated [OF _ _ base _ eA(2)]) (use spA(2) spB(3) i j in simp_all)
  have cr: "spacious bit_part ?s (correlate_receive bit_part BOTH 0 ?s True m (ex_co E))" if "spacious bit_part ?s (ex_co E)" for m E
    using that by (auto simp: correlate_receive_def Let_def spacious_def intro!: tall_on_slice)
  have R: "receiverOutputMatrix (correlate_receive bit_part BOTH 0 s True mB (ex_co A')) = receiverOutputMatrix coA" for s
    by (simp add: correlate_receive_def Let_def fA)
  have lA: "?i < length (receiverOutputMatrix coA)" using spaciousD(1) [OF spA(2) i] .
  have lB: "?i < length (senderOutputMatrix (correlate_receive bit_part BOTH 0 ?s True mA (ex_co B')))"
    using spaciousD(7) [OF cr [OF spB(3)] i] .
  have left: "row_at (receiverOutputMatrix (ex_co (extend_receive n mB A'))) k = transpose (receiverOutputMatrix coA ! ?i) ! ?r"
    using lA i by (simp add: extend_receive_def Let_def row_at_def R)
  have right: "row_at (senderOutputMatrix (ex_co (extend_receive n mA B'))) k =
      transpose (senderOutputMatrix (correlate_receive bit_part BOTH 0 ?s True mA (ex_co B')) ! ?i) ! ?r"
    using lB i by (simp add: extend_receive_def Let_def row_at_def)
  have d: "bit (delta_row B) j \<longleftrightarrow> baseReceiverInput (ex_co B) ! j"
    using sh(2) j by (simp add: delta_row_def bit_bits_row ext_shaped_def)
  have xb: "bit (input_rows x ! ?i) ?r \<longleftrightarrow> x ! k" using input_rows_bit [OF eA(3) i, of ?r] by simp
  show "bit (row_at (receiverOutputMatrix (ex_co (extend_receive n mB A'))) k) j \<longleftrightarrow>
      bit (row_at (senderOutputMatrix (ex_co (extend_receive n mA B'))) k XOR (if x ! k then delta_row B else 0)) j"
    unfolding left right using j xb d by (simp add: bit_transpose bit_xor_iff c base_index_def fB del: add_2_eq_Suc')
qed


text \<open>The check of the correlation accepts.\<close>

lemma check_passes:
  assumes rows: "\<And>k. k < m \<Longrightarrow> row_at (receiverOutputMatrix (ex_co A)) k = row_at (senderOutputMatrix (ex_co B)) k XOR (if x ! k then delta_row B else 0)"
    and a: "check_sums chi m x A = (rx, rt, ra)" and nb: "nbaseOTs (ex_co B) = 128"
  shows "check_correlation chi m y (rx, rt) B = Inr ()"
proof -
  let ?q = "xor_sum (\<lambda>i. mul128 (row_at (senderOutputMatrix (ex_co B)) i) (chi i)) m"
  have "rt = xor_sum (\<lambda>i. mul128 (row_at (senderOutputMatrix (ex_co B)) i XOR (if x ! i then delta_row B else 0)) (chi i)) m"
    using a rows by (auto simp: check_sums_def intro!: xor_sum_cong)
  also have "\<dots> = ?q XOR xor_sum (\<lambda>i. mul128 (if x ! i then delta_row B else 0) (chi i)) m"
    by (simp add: mul128_xor xor_sum_xor)
  also have "xor_sum (\<lambda>i. mul128 (if x ! i then delta_row B else 0) (chi i)) m = xor_sum (\<lambda>i. mul128 (if x ! i then chi i else 0) (delta_row B)) m"
    by (rule xor_sum_cong) (simp add: mul128_commute [of "delta_row B"])
  also have "\<dots> = mul128 rx (delta_row B)" using a by (auto simp: check_sums_def mul128_sum)
  finally have "mul128 rx (delta_row B) XOR ?q = rt" by (simp add: xor.commute)
  then show ?thesis using nb by (simp add: check_correlation_def check_sums_def check_iteration_def delta_row_def)
qed

text \<open>
  Both directions of an extension: it returns, every row of the receiver is the sender's,
  shifted by the sender's bits where the choice bit is set, and the seeds still match.
\<close>

definition transferred :: "nat \<Rightarrow> bool list \<Rightarrow> extension \<Rightarrow> extension \<Rightarrow> bool" where
  "transferred n x A B \<longleftrightarrow> (\<forall>k < n. row_at (receiverOutputMatrix (ex_co A)) k =
     row_at (senderOutputMatrix (ex_co B)) k XOR (if x ! k then delta_row B else 0))"

lemma extend_one:
  assumes "ext_pair A B" "ext_shaped B" "length x = n" "length y = n"
    and A: "sent_state n (padded_input (rounded n + 256) x A) A A' mA coA" and B: "sent_state n (padded_input (rounded n + 256) y B) B B' mB coB"
  shows "transferred n x (extend_resize n (extend_receive n mB A')) (extend_resize n (extend_receive n mA B'))"
  unfolding transferred_def
proof (intro allI impI)
  fix k assume k: "k < n"
  have shA: "ext_shaped A" using assms(1) by (simp add: ext_pair_def)
  have kr: "k < rounded n" using k rounded_ge [of n] by simp
  have rw: "row_at (receiverOutputMatrix (ex_co (extend_receive n mB A'))) k =
    row_at (senderOutputMatrix (ex_co (extend_receive n mA B'))) k XOR (if x ! k then delta_row B else 0)"
    using extend_rows [OF assms(1) A B, of k] kr padded_prefix [OF kr assms(3) k, of A] by simp
  have "k < rounded n div 128 * 128" using kr rounded_div(2) [of n] by linarith
  then have q: "k div 128 < rounded n div 128" by (rule less_mult_imp_div_less)
  have l: "k div 128 < length (receiverOutputMatrix (ex_co (extend_receive n mB A')))" "k div 128 < length (senderOutputMatrix (ex_co (extend_receive n mA B')))"
    using q spaciousD(1,7) [OF sent_state_spacious(3) [OF shA A]] spaciousD(1,7) [OF sent_state_spacious(3) [OF assms(2) B]]
    by (simp_all add: extend_receive_def correlate_receive_def Let_def)
  have d: "delta_row (extend_resize n (extend_receive n mA B')) = delta_row B"
    using sent_state_fields(1) [OF assms(2) B]
    by (simp add: delta_row_def extend_resize_def extend_receive_def correlate_receive_def Let_def)
  show "row_at (receiverOutputMatrix (ex_co (extend_resize n (extend_receive n mB A')))) k =
     row_at (senderOutputMatrix (ex_co (extend_resize n (extend_receive n mA B')))) k XOR
     (if x ! k then delta_row (extend_resize n (extend_receive n mA B')) else 0)"
    unfolding d using rw q l by (simp add: extend_resize_def Let_def row_at_def resize_def nth_append)
qed

lemma extend_shaped:
  assumes "ext_shaped A" "sent_state n x A A' mA coA"
  shows "ext_shaped (extend_resize n (extend_receive n mB A'))"
proof -
  note f = sent_state_fields [OF assms] and sp = sent_state_spacious(3) [OF assms]
  have t: "tall bit_part 0 m'" if "tall bit_part k m'" for k m' using that by (simp add: tall_def)
  have r: "tall bit_part 0 (resize (replicate 128 0) k m')" if "tall bit_part 0 m'" for k and m' :: "row matrix"
    using that by (auto simp: tall_def resize_def nth_append)
  have tr: "length (transpose sq) = 128" for sq by (simp add: transpose_def)
  show ?thesis
    using f(1,2) sp assms(1)
    by (auto simp: ext_shaped_def extend_resize_def extend_receive_def correlate_receive_def Let_def spacious_def tr
        intro!: r tall_on_slice t)
qed

lemma extend_seeded:
  assumes p: "ext_pair A B" and A: "sent_state n x A A' mA coA" and B: "sent_state n y B B' mB coB"
  shows "seeded bit_part (\<lambda>_. True) (ex_co (extend_resize n (extend_receive n mB A'))) (ex_co (extend_resize n (extend_receive n mA B')))"
proof -
  have sh: "ext_shaped A" "ext_shaped B" "seeded bit_part (\<lambda>_. True) (ex_co A) (ex_co B)" using p by (simp_all add: ext_pair_def)
  show ?thesis
    using sh sent_state_fields [OF sh(1) A] sent_state_fields [OF sh(2) B]
    by (simp add: seeded_def extend_resize_def extend_receive_def correlate_receive_def Let_def ext_shaped_def)
qed

lemma extend_ok:
  assumes "ext_pair A B" "ext_pair B A" "length xA = n" "length xB = n" "0 < n"
  shows "\<exists>A' B'. extend_correlated chi n xA xB A B = Inr (A', B') \<and> ext_pair A' B' \<and> ext_pair B' A' \<and>
    transferred n xA A' B' \<and> transferred n xB B' A' \<and>
    baseReceiverInput (ex_co A') = baseReceiverInput (ex_co A) \<and> baseReceiverInput (ex_co B') = baseReceiverInput (ex_co B)"
proof -
  have sh: "ext_shaped A" "ext_shaped B" using assms(1) by (simp_all add: ext_pair_def)
  let ?pA = "padded_input (rounded n + 256) xA A" and ?pB = "padded_input (rounded n + 256) xB B"
  obtain A1 mA coA where A: "extend_send n xA A = Inr (A1, mA, ?pA)" "sent_state n ?pA A A1 mA coA"
    using extend_send_state [OF sh(1) assms(3)] by blast
  obtain B1 mB coB where B: "extend_send n xB B = Inr (B1, mB, ?pB)" "sent_state n ?pB B B1 mB coB"
    using extend_send_state [OF sh(2) assms(4)] by blast
  let ?A = "extend_receive n mB A1" and ?B = "extend_receive n mA B1" and ?m = "rounded n + 256"
  obtain rA tA qA where cA: "check_sums chi ?m ?pA ?A = (rA, tA, qA)" by (cases "check_sums chi ?m ?pA ?A") auto
  obtain rB tB qB where cB: "check_sums chi ?m ?pB ?B = (rB, tB, qB)" by (cases "check_sums chi ?m ?pB ?B") auto
  have dA: "delta_row ?A = delta_row A" "delta_row ?B = delta_row B"
    using sent_state_fields(1) [OF sh(1) A(2)] sent_state_fields(1) [OF sh(2) B(2)]
    by (simp_all add: delta_row_def extend_receive_def correlate_receive_def Let_def)
  have nb: "nbaseOTs (ex_co ?A) = 128" "nbaseOTs (ex_co ?B) = 128"
    using sent_state_fields(2) [OF sh(1) A(2)] sent_state_fields(2) [OF sh(2) B(2)]
    by (simp_all add: extend_receive_def correlate_receive_def Let_def)
  have kB: "check_correlation chi ?m ?pB (rA, tA) ?B = Inr ()"
    by (rule check_passes [OF _ cA nb(2)]) (simp add: dA extend_rows [OF assms(1) A(2) B(2)])
  have kA: "check_correlation chi ?m ?pA (rB, tB) ?A = Inr ()"
    by (rule check_passes [OF _ cB nb(1)]) (simp add: dA extend_rows [OF assms(2) B(2) A(2)])
  have r: "extend_correlated chi n xA xB A B = Inr (extend_resize n ?A, extend_resize n ?B)"
    using assms(5) A(1) B(1) cA cB kA kB by (simp add: extend_correlated_def Let_def)
  have bi: "baseReceiverInput (ex_co (extend_resize n ?A)) = baseReceiverInput (ex_co A)" "baseReceiverInput (ex_co (extend_resize n ?B)) = baseReceiverInput (ex_co B)"
    using sent_state_fields(1) [OF sh(1) A(2)] sent_state_fields(1) [OF sh(2) B(2)]
    by (simp_all add: extend_resize_def extend_receive_def correlate_receive_def Let_def)
  show ?thesis
    using r bi extend_one [OF assms(1) sh(2) assms(3,4) A(2) B(2)] extend_one [OF assms(2) sh(1) assms(4,3) B(2) A(2)]
      extend_shaped [OF sh(1) A(2), of mB] extend_shaped [OF sh(2) B(2), of mA] extend_seeded [OF assms(1) A(2) B(2)] extend_seeded [OF assms(2) B(2) A(2)]
    by (auto simp: ext_pair_def)
qed

section \<open>Hashed transfers\<close>

lemma hash_rows_at:
  assumes "tall P m out" "k < m * N_ROWS P" "k < nOTs" "0 < N_ROWS P"
  shows "hash_rows P H nOTs f out ! (k div N_ROWS P) ! (k mod N_ROWS P) = H (f k)"
proof -
  have "k div N_ROWS P < m" using assms(2) by (simp add: less_mult_imp_div_less)
  then show ?thesis using assms by (simp add: hash_rows_def tall_def div_mult_mod_eq)
qed

text \<open>The receiver's output is the sender's for the choice bit.\<close>

lemma hash_transferred:
  assumes t: "transferred n x A B" and k: "k < n" and n: "n mod 8 = 0" and P: "0 < N_ROWS P"
    and shA: "tall P 0 rA" and shB: "tall P 0 s0" "tall P 0 s1"
    and hA: "hash_outputs P H n sA rA A = Inr (sA', rA')" and hB: "hash_outputs P H n (s0, s1) rB B = Inr ((s0', s1'), rB')"
  shows "rA' ! (k div N_ROWS P) ! (k mod N_ROWS P) = (if x ! k then s1' else s0') ! (k div N_ROWS P) ! (k mod N_ROWS P)"
proof -
  let ?N = "N_ROWS P" and ?m = "(n + N_ROWS P - 1) div N_ROWS P"
  have v: "tall P ?m (resize_vertical P (?m * ?N) bm)" if "tall P 0 bm" for bm
    by (rule resize_vertical_tall [OF that P]) (use P in simp_all)
  have km: "k < ?m * ?N"
  proof -
    have "n \<le> (n + ?N - 1) div ?N * ?N"
      using P div_mult_mod_eq [of "n + ?N - 1" ?N] mod_less_divisor [OF P, of "n + ?N - 1"] by linarith
    then show ?thesis using k by simp
  qed
  have rA': "rA' = hash_rows P H n (row_at (receiverOutputMatrix (ex_co A))) (resize_vertical P (?m * ?N) rA)"
    using hA n by (simp add: hash_outputs_def Let_def)
  have s': "s0' = hash_rows P H n (row_at (senderOutputMatrix (ex_co B))) (resize_vertical P (?m * ?N) s0)"
    "s1' = hash_rows P H n (\<lambda>k. row_at (senderOutputMatrix (ex_co B)) k XOR delta_row B) (resize_vertical P (?m * ?N) s1)"
    using hB n by (simp_all add: hash_outputs_def Let_def delta_row_def)
  have e: "row_at (receiverOutputMatrix (ex_co A)) k = row_at (senderOutputMatrix (ex_co B)) k XOR (if x ! k then delta_row B else 0)"
    using t k by (simp add: transferred_def)
  show ?thesis
    unfolding rA' s' using hash_rows_at [OF v [OF shA] km k P] hash_rows_at [OF v [OF shB(1)] km k P] hash_rows_at [OF v [OF shB(2)] km k P] e
    by simp
qed

end
