(* ===== verification/FieldSquares.thy ===== *)
theory FieldSquares
  imports OtExt MacCheck
begin

text \<open>
  The squares of field elements of \<open>Math/Square.hpp\<close>, and correlation and reduction of
  \<open>OT/OTCorrelator.hpp\<close> on them at two parties. The field keeps plain representations here
  (\<open>OTPrep::set_protocol\<close> sets it up without Montgomery arithmetic), so that the bits of an
  element are those of its residue.
\<close>

section \<open>Squares of field elements\<close>

definition field_part :: "int \<Rightarrow> nat \<Rightarrow> nat \<Rightarrow> int part" where
  "field_part p len L = \<lparr>row_zero = 0, row_add = gf_add p, row_sub = gf_sub p, used_rows = len, N_ROWS = 64 * L\<rparr>"

lemma field_part_simps [simp]:
  "row_zero (field_part p len L) = 0" "row_add (field_part p len L) = gf_add p" "row_sub (field_part p len L) = gf_sub p"
  "used_rows (field_part p len L) = len" "N_ROWS (field_part p len L) = 64 * L"
  by (simp_all add: field_part_def)

interpretation field_rows: row_group "field_part p len L" "in_field p" for p len L
proof unfold_locales
  fix a b x assume a: "in_field p a" "in_field p b" "in_field p x"
  then have i: "in_field p (gf_sub p (gf_sub p a b) x)" by blast
  have "gf_sub p (gf_sub p a b) x mod p = ((a - b) - x) mod p"
    unfolding gf_sub_cong by (rule mod_diff_cong) (simp_all add: gf_sub_cong)
  then have "(b + gf_sub p (gf_sub p a b) x) mod p = (b + ((a - b) - x)) mod p" by (rule mod_add_cong [OF refl])
  then have "gf_add p b (gf_sub p (gf_sub p a b) x) mod p = gf_sub p a x mod p" by (simp add: gf_add_cong gf_sub_cong)
  then show "row_add (field_part p len L) b (row_sub (field_part p len L) (row_sub (field_part p len L) a b) x) = row_sub (field_part p len L) a x"
    using in_field_id [OF in_field_add [OF a(2) i]] in_field_id [OF in_field_sub [OF a(1,3)]] by simp
qed auto

text \<open>\<open>Square::to\<close>: the rows, shifted by their index, are added up in \<open>2 L\<close> limbs and reduced.\<close>

definition square_to :: "int \<Rightarrow> nat \<Rightarrow> nat \<Rightarrow> int square \<Rightarrow> int" where
  "square_to p len L sq =
     foldl (\<lambda>s i. (sq ! i * 2 ^ (64 * (i div 64)) * 2 ^ (i mod 64) + s) mod 2 ^ (128 * L)) 0 [0..<len] mod p"

definition square_value :: "nat \<Rightarrow> int square \<Rightarrow> int" where
  "square_value len sq = (\<Sum>i<len. sq ! i * 2 ^ i)"

lemma square_to_value:
  assumes p: "p \<le> 2 ^ len" "len \<le> 64 * L" "0 < p" and sq: "\<And>i. i < len \<Longrightarrow> in_field p (sq ! i)"
  shows "square_to p len L sq = square_value len sq mod p"
proof -
  let ?f = "\<lambda>s i. (sq ! i * 2 ^ (64 * (i div 64)) * 2 ^ (i mod 64) + s) mod 2 ^ (128 * L)"
  have b: "0 \<le> square_value n sq \<and> square_value n sq \<le> (p - 1) * (2 ^ n - 1)" if "n \<le> len" for n
    using that
  proof (induction n)
    case (Suc n)
    have f: "0 \<le> sq ! n" "sq ! n \<le> p - 1" using sq [of n] Suc.prems by (auto simp: in_field_def)
    then have "sq ! n * 2 ^ n \<le> (p - 1) * 2 ^ n" by (intro mult_right_mono) simp_all
    then show ?case using Suc f by (simp add: square_value_def algebra_simps)
  qed (simp add: square_value_def)
  have fits: "square_value n sq < 2 ^ (128 * L)" if "n \<le> len" for n
  proof -
    have n: "(2::int) ^ n \<le> 2 ^ len" using that by (intro power_increasing) simp_all
    have "(p - 1) * (2 ^ n - 1) \<le> 2 ^ len * 2 ^ len - 1"
    proof -
      have "(p - 1) * (2 ^ n - 1) \<le> (2 ^ len - 1) * (2 ^ len - 1)" using p n one_le_power [of "2::int" n] one_le_power [of "2::int" len] by (intro mult_mono) linarith+
      also have "\<dots> \<le> 2 ^ len * 2 ^ len - 1" by (simp add: algebra_simps)
      finally show ?thesis .
    qed
    also have "\<dots> < 2 ^ len * 2 ^ len" by simp
    also have "(2::int) ^ len * 2 ^ len \<le> 2 ^ (128 * L)"
      unfolding power_add [symmetric] using p(2) by (intro power_increasing) simp_all
    finally show ?thesis using b [OF that] by linarith
  qed
  have "foldl ?f 0 [0..<n] = square_value n sq" if "n \<le> len" for n
    using that
  proof (induction n)
    case (Suc n)
    have e: "sq ! n * 2 ^ (64 * (n div 64)) * 2 ^ (n mod 64) = sq ! n * (2 ^ n :: int)"
      unfolding mult.assoc power_add [symmetric] by (simp add: mult_div_mod_eq)
    have "foldl ?f 0 [0..<Suc n] = (sq ! n * 2 ^ n + square_value n sq) mod 2 ^ (128 * L)"
      using Suc by (simp add: e)
    also have "sq ! n * 2 ^ n + square_value n sq = square_value (Suc n) sq" by (simp add: square_value_def)
    also have "\<dots> mod 2 ^ (128 * L) = \<dots>" using b [OF Suc.prems] fits [OF Suc.prems] by (intro mod_pos_pos_trivial) simp_all
    finally show ?case .
  qed (simp add: square_value_def)
  then show ?thesis by (simp add: square_to_def)
qed

section \<open>Correlation in both directions\<close>

definition correlate :: "'r part \<Rightarrow> ot_role \<Rightarrow> ot_role \<Rightarrow> nat \<Rightarrow> nat \<Rightarrow> 'r list \<Rightarrow> 'r list \<Rightarrow> bool \<Rightarrow> nat \<Rightarrow>
    'r correlator \<Rightarrow> 'r correlator \<Rightarrow> err + 'r correlator \<times> 'r correlator" where
  "correlate P roleA roleB start cnt xA xB useConstantBase rep A B =
     ebnd (correlate_send P roleA start cnt xA rep A) (\<lambda>(A, mA).
     ebnd (correlate_send P roleB start cnt xB rep B) (\<lambda>(B, mB).
     Inr (correlate_receive P roleA start cnt useConstantBase mB A, correlate_receive P roleB start cnt useConstantBase mA B)))"

text \<open>What \<open>B\<close> holds as a sender when \<open>A\<close> put in \<open>x\<close>.\<close>

definition holds_difference :: "int \<Rightarrow> nat \<Rightarrow> nat \<Rightarrow> bool \<Rightarrow> nat \<Rightarrow> int list \<Rightarrow> nat \<Rightarrow> int correlator \<Rightarrow> int correlator \<Rightarrow> bool" where
  "holds_difference p len L const n x rep A B \<longleftrightarrow>
     (\<forall>i < n. \<forall>r < len. in_field p (receiverOutputMatrix A ! i ! r) \<and>
        senderOutputMatrix B ! i ! r =
          (if baseReceiverInput B ! base_index (field_part p len L) const i r
           then gf_sub p (receiverOutputMatrix A ! i ! r) (x ! (i div rep)) else receiverOutputMatrix A ! i ! r))"

text \<open>The number that the bits of a sender form, for square \<open>i\<close>.\<close>

definition base_value :: "nat \<Rightarrow> nat \<Rightarrow> bool \<Rightarrow> int correlator \<Rightarrow> nat \<Rightarrow> int" where
  "base_value len L const B i = (\<Sum>r<len. of_bool (baseReceiverInput B ! (64 * L * (if const then 0 else i) + r)) * 2 ^ r)"

lemma weighted_difference: "(\<Sum>r<n. (t r - b r * v) * 2 ^ r) = (\<Sum>r<n. t r * 2 ^ r) - (\<Sum>r<n. b r * 2 ^ r) * (v :: int)"
  by (induction n) (simp_all add: algebra_simps)

lemma difference_value:
  assumes "holds_difference p len L const n x rep A B" "i < n"
  shows "square_value len (senderOutputMatrix B ! i) mod p =
    (square_value len (receiverOutputMatrix A ! i) - base_value len L const B i * x ! (i div rep)) mod p"
proof -
  let ?b = "\<lambda>r. of_bool (baseReceiverInput B ! (64 * L * (if const then 0 else i) + r)) :: int"
  have "(\<Sum>r<len. senderOutputMatrix B ! i ! r * 2 ^ r) mod p = (\<Sum>r<len. (receiverOutputMatrix A ! i ! r - ?b r * x ! (i div rep)) * 2 ^ r) mod p"
  proof (rule mod_sum_cong)
    fix r assume "r \<in> {..<len}"
    then have "senderOutputMatrix B ! i ! r mod p = (receiverOutputMatrix A ! i ! r - ?b r * x ! (i div rep)) mod p"
      using assms unfolding holds_difference_def base_index_def by (simp add: gf_sub_cong)
    then show "senderOutputMatrix B ! i ! r * 2 ^ r mod p = (receiverOutputMatrix A ! i ! r - ?b r * x ! (i div rep)) * 2 ^ r mod p"
      by (rule mod_mult_cong) simp
  qed
  also have "(\<Sum>r<len. (receiverOutputMatrix A ! i ! r - ?b r * x ! (i div rep)) * 2 ^ r) =
      square_value len (receiverOutputMatrix A ! i) - base_value len L const B i * x ! (i div rep)"
    unfolding square_value_def base_value_def by (rule weighted_difference)
  finally show ?thesis by (simp add: square_value_def)
qed


lemma spacious_mono: "spacious P N co \<Longrightarrow> n \<le> N \<Longrightarrow> spacious P n co"
  by (auto simp: spacious_def tall_def)

lemma correlate_ok:
  assumes AN: "spacious P N A" and BN: "spacious P N B" and nN: "n \<le> N" and P: "P = field_part p len L"
    and bA: "base_correlated P (in_field p) const 0 n A B" and bB: "base_correlated P (in_field p) const 0 n B A"
    and x: "n \<le> length xA * rep" "n \<le> length xB * rep" "\<And>i. i < n \<Longrightarrow> in_field p (xA ! (i div rep)) \<and> in_field p (xB ! (i div rep))"
  shows "\<exists>A' B'. correlate P BOTH BOTH 0 n xA xB const rep A B = Inr (A', B') \<and>
    holds_difference p len L const n xA rep A' B' \<and> holds_difference p len L const n xB rep B' A' \<and>
    (\<exists>m u s. A' = A\<lparr>t1_matrix := m, u_matrix := u, senderOutputMatrix := s\<rparr>) \<and> spacious P N A' \<and>
    (\<exists>m u s. B' = B\<lparr>t1_matrix := m, u_matrix := u, senderOutputMatrix := s\<rparr>) \<and> spacious P N B'"
proof -
  have A: "spacious P n A" and B: "spacious P n B" using AN BN nN by (auto intro: spacious_mono)
  obtain A1 mA where A1: "correlate_send P BOTH 0 n xA rep A = Inr (A1, mA)"
    using field_rows.send_returns [of p len L 0 n A xA rep BOTH] A x(1) unfolding P by auto
  obtain B1 mB where B1: "correlate_send P BOTH 0 n xB rep B = Inr (B1, mB)"
    using field_rows.send_returns [of p len L 0 n B xB rep BOTH] B x(2) unfolding P by auto
  obtain tA where tA: "A1 = A\<lparr>t1_matrix := tA\<rparr>" "tall P N tA"
    using field_rows.message_state [of p len L N A BOTH 0 n xA rep A1 mA] AN A1 unfolding P by auto
  obtain tB where tB: "B1 = B\<lparr>t1_matrix := tB\<rparr>" "tall P N tB"
    using field_rows.message_state [of p len L N B BOTH 0 n xB rep B1 mB] BN B1 unfolding P by auto
  let ?A = "correlate_receive P BOTH 0 n const mB A1" and ?B = "correlate_receive P BOTH 0 n const mA B1"
  have spN: "spacious P N A1" "spacious P N B1" using AN BN tA tB by (simp_all add: spacious_def)
  then have sp: "spacious P n A1" "spacious P n B1" using nN by (auto intro: spacious_mono)
  have cr: "spacious P N (correlate_receive P BOTH 0 n const m E)" if "spacious P N E" for m E
    using that by (auto simp: correlate_receive_def Let_def spacious_def intro!: tall_on_slice)
  have rA: "receiverOutputMatrix ?A = receiverOutputMatrix A" "baseReceiverInput ?A = baseReceiverInput A"
    and rB: "receiverOutputMatrix ?B = receiverOutputMatrix B" "baseReceiverInput ?B = baseReceiverInput B"
    by (simp_all add: correlate_receive_def Let_def tA tB)
  have bA1: "base_correlated P (in_field p) const 0 n A B1" and bB1: "base_correlated P (in_field p) const 0 n B A1"
    using bA bB by (simp_all add: base_correlated_def tA tB)
  have "holds_difference p len L const n xA rep ?A ?B"
    unfolding holds_difference_def rA rB
  proof (intro allI impI conjI)
    fix i r assume i: "i < n" "r < len"
    show "in_field p (receiverOutputMatrix A ! i ! r)" using bA i by (simp add: base_correlated_def P)
    show "senderOutputMatrix ?B ! i ! r = (if baseReceiverInput B ! base_index (field_part p len L) const i r
        then gf_sub p (receiverOutputMatrix A ! i ! r) (xA ! (i div rep)) else receiverOutputMatrix A ! i ! r)"
      using field_rows.correlated [of p len L 0 n A B1 const xA rep BOTH A1 mA BOTH i r] A sp(2) bA1 x(3) A1 i tB
      by (simp add: P)
  qed
  moreover have "holds_difference p len L const n xB rep ?B ?A"
    unfolding holds_difference_def rA rB
  proof (intro allI impI conjI)
    fix i r assume i: "i < n" "r < len"
    show "in_field p (receiverOutputMatrix B ! i ! r)" using bB i by (simp add: base_correlated_def P)
    show "senderOutputMatrix ?A ! i ! r = (if baseReceiverInput A ! base_index (field_part p len L) const i r
        then gf_sub p (receiverOutputMatrix B ! i ! r) (xB ! (i div rep)) else receiverOutputMatrix B ! i ! r)"
      using field_rows.correlated [of p len L 0 n B A1 const xB rep BOTH B1 mB BOTH i r] B sp(1) bB1 x(3) B1 i tA
      by (simp add: P)
  qed
  moreover have "\<exists>m u s. ?A = A\<lparr>t1_matrix := m, u_matrix := u, senderOutputMatrix := s\<rparr>" "\<exists>m u s. ?B = B\<lparr>t1_matrix := m, u_matrix := u, senderOutputMatrix := s\<rparr>"
    unfolding tA tB correlate_receive_def Let_def has_role_both if_True by auto
  ultimately show ?thesis using A1 B1 cr [OF spN(1)] cr [OF spN(2)] by (simp add: correlate_def)
qed


section \<open>Reducing the squares\<close>

definition rows_in_field :: "int \<Rightarrow> nat \<Rightarrow> nat \<Rightarrow> int matrix \<Rightarrow> bool" where
  "rows_in_field p len n bm \<longleftrightarrow> (\<forall>i < n. \<forall>r < len. in_field p (bm ! i ! r))"

lemma reduce_ok:
  assumes P: "P = field_part p len L" and p: "p \<le> 2 ^ len" "0 < p" and AN: "spacious P N A" and nN: "n \<le> N"
    and f: "rows_in_field p len n (receiverOutputMatrix A)" "rows_in_field p len n (senderOutputMatrix A)"
  shows "\<exists>m out. reduce_squares P (square_to p len L) n 0 A = Inr (A\<lparr>receiverOutputMatrix := m\<rparr>, out) \<and>
    spacious P N (A\<lparr>receiverOutputMatrix := m\<rparr>) \<and> length out = n \<and> (\<forall>i < n. in_field p (out ! i) \<and>
      out ! i mod p = (square_value len (receiverOutputMatrix A ! i) - square_value len (senderOutputMatrix A ! i)) mod p)"
proof -
  have A: "spacious P n A" using AN nN by (rule spacious_mono)
  let ?bm = "on_slice 0 n (\<lambda>j sq. sq_sub P sq (senderOutputMatrix A ! j)) (receiverOutputMatrix A)"
  let ?out = "map (\<lambda>j. square_to p len L (?bm ! (j + 0))) [0..<n]"
  have l: "n \<le> length (receiverOutputMatrix A)" "len \<le> 64 * L" using A by (simp_all add: spacious_def tall_def P)
  have o: "in_field p (?out ! i) \<and> ?out ! i mod p =
      (square_value len (receiverOutputMatrix A ! i) - square_value len (senderOutputMatrix A ! i)) mod p" if i: "i < n" for i
  proof -
    note sp = spaciousD [OF A i]
    have row: "?bm ! i ! r = gf_sub p (receiverOutputMatrix A ! i ! r) (senderOutputMatrix A ! i ! r)" if "r < len" for r
      using that sp i by (simp add: P)
    have "in_field p (?bm ! i ! r)" if "r < len" for r
      using f i that unfolding rows_in_field_def row [OF that] by blast
    then have "square_to p len L (?bm ! i) = square_value len (?bm ! i) mod p"
      by (rule square_to_value [OF p(1) l(2) p(2)])
    then have e: "?out ! i = square_value len (?bm ! i) mod p" using i by simp
    have "square_value len (?bm ! i) mod p = (\<Sum>r<len. (receiverOutputMatrix A ! i ! r - senderOutputMatrix A ! i ! r) * 2 ^ r) mod p"
      unfolding square_value_def
    proof (rule mod_sum_cong)
      fix r assume "r \<in> {..<len}"
      then have "?bm ! i ! r mod p = (receiverOutputMatrix A ! i ! r - senderOutputMatrix A ! i ! r) mod p" by (simp add: row gf_sub_cong)
      then show "?bm ! i ! r * 2 ^ r mod p = (receiverOutputMatrix A ! i ! r - senderOutputMatrix A ! i ! r) * 2 ^ r mod p"
        by (rule mod_mult_cong) simp
    qed
    then show ?thesis using e p by (simp add: square_value_def in_field_def sum_subtractf left_diff_distrib)
  qed
  have "tall P N ?bm" using AN by (intro tall_on_slice) (simp_all add: spacious_def)
  then have "spacious P N (A\<lparr>receiverOutputMatrix := ?bm\<rparr>)" using AN by (simp add: spacious_def)
  moreover have "reduce_squares P (square_to p len L) n 0 A = Inr (A\<lparr>receiverOutputMatrix := ?bm\<rparr>, ?out)"
    using l by (simp add: reduce_squares_def Let_def)
  ultimately show ?thesis using o
    by (intro exI [of _ ?bm] exI [of _ ?out]) simp
qed

text \<open>
  A correlation and its reduction at both parties: the outputs add up to each one's value
  times the number the other's bits form.
\<close>

definition correlate_reduce :: "int \<Rightarrow> nat \<Rightarrow> nat \<Rightarrow> nat \<Rightarrow> int list \<Rightarrow> int list \<Rightarrow> bool \<Rightarrow> nat \<Rightarrow> int correlator \<Rightarrow> int correlator \<Rightarrow>
    err + (int correlator \<times> int list) \<times> (int correlator \<times> int list)" where
  "correlate_reduce p len L cnt xA xB const rep A B =
     ebnd (correlate (field_part p len L) BOTH BOTH 0 cnt xA xB const rep A B) (\<lambda>(A, B).
     ebnd (reduce_squares (field_part p len L) (square_to p len L) cnt 0 A) (\<lambda>rA.
     ebnd (reduce_squares (field_part p len L) (square_to p len L) cnt 0 B) (\<lambda>rB. Inr (rA, rB))))"

definition cross_terms :: "int \<Rightarrow> nat \<Rightarrow> (nat \<Rightarrow> int) \<Rightarrow> (nat \<Rightarrow> int) \<Rightarrow> int list \<Rightarrow> int list \<Rightarrow> bool" where
  "cross_terms p n fA fB oA oB \<longleftrightarrow> length oA = n \<and> length oB = n \<and>
     (\<forall>i < n. in_field p (oA ! i) \<and> in_field p (oB ! i) \<and> (oA ! i + oB ! i) mod p = (fA i + fB i) mod p)"

definition same_setup :: "'r correlator \<Rightarrow> 'r correlator \<Rightarrow> bool" where
  "same_setup A' A \<longleftrightarrow> nbaseOTs A' = nbaseOTs A \<and> baseReceiverInput A' = baseReceiverInput A \<and>
     g_sender A' = g_sender A \<and> g_receiver A' = g_receiver A \<and> sent_pos A' = sent_pos A \<and> recv_pos A' = recv_pos A"

lemma same_setupD:
  assumes "same_setup A' A"
  shows "nbaseOTs A' = nbaseOTs A" "baseReceiverInput A' = baseReceiverInput A" "g_sender A' = g_sender A"
    "g_receiver A' = g_receiver A" "sent_pos A' = sent_pos A" "recv_pos A' = recv_pos A"
  using assms by (auto simp: same_setup_def)

lemma holds_in_field:
  assumes "holds_difference p len L const n x rep A B" "\<And>i. i < n \<Longrightarrow> in_field p (x ! (i div rep))"
  shows "rows_in_field p len n (receiverOutputMatrix A)" "rows_in_field p len n (senderOutputMatrix B)"
  using assms by (auto simp: holds_difference_def rows_in_field_def)

lemma correlate_reduce_ok:
  assumes P: "P = field_part p len L" and p: "p \<le> 2 ^ len" "0 < p" and A: "spacious P N A" and B: "spacious P N B" and nN: "n \<le> N"
    and bA: "base_correlated P (in_field p) const 0 n A B" and bB: "base_correlated P (in_field p) const 0 n B A"
    and x: "n \<le> length xA * rep" "n \<le> length xB * rep" "\<And>i. i < n \<Longrightarrow> in_field p (xA ! (i div rep)) \<and> in_field p (xB ! (i div rep))"
  shows "\<exists>A' B' oA oB. correlate_reduce p len L n xA xB const rep A B = Inr ((A', oA), (B', oB)) \<and>
    spacious P N A' \<and> spacious P N B' \<and> same_setup A' A \<and> same_setup B' B \<and>
    cross_terms p n (\<lambda>i. base_value len L const B i * xA ! (i div rep)) (\<lambda>i. base_value len L const A i * xB ! (i div rep)) oA oB"
proof -
  obtain A1 B1 where c: "correlate P BOTH BOTH 0 n xA xB const rep A B = Inr (A1, B1)"
    "holds_difference p len L const n xA rep A1 B1" "holds_difference p len L const n xB rep B1 A1"
    and sA: "\<exists>m u s. A1 = A\<lparr>t1_matrix := m, u_matrix := u, senderOutputMatrix := s\<rparr>" "spacious P N A1"
    and sB: "\<exists>m u s. B1 = B\<lparr>t1_matrix := m, u_matrix := u, senderOutputMatrix := s\<rparr>" "spacious P N B1"
    using correlate_ok [OF A B nN P bA bB x] by blast
  have fA: "rows_in_field p len n (receiverOutputMatrix A1)" "rows_in_field p len n (senderOutputMatrix B1)"
    by (rule holds_in_field [OF c(2)]; use x(3) in simp)+
  have fB: "rows_in_field p len n (receiverOutputMatrix B1)" "rows_in_field p len n (senderOutputMatrix A1)"
    by (rule holds_in_field [OF c(3)]; use x(3) in simp)+
  obtain mA oA where rA: "reduce_squares P (square_to p len L) n 0 A1 = Inr (A1\<lparr>receiverOutputMatrix := mA\<rparr>, oA)"
    "spacious P N (A1\<lparr>receiverOutputMatrix := mA\<rparr>)" "length oA = n"
    and oA: "\<forall>i < n. in_field p (oA ! i) \<and>
      oA ! i mod p = (square_value len (receiverOutputMatrix A1 ! i) - square_value len (senderOutputMatrix A1 ! i)) mod p"
    using reduce_ok [OF P p sA(2) nN fA(1) fB(2)] by blast
  obtain mB oB where rB: "reduce_squares P (square_to p len L) n 0 B1 = Inr (B1\<lparr>receiverOutputMatrix := mB\<rparr>, oB)"
    "spacious P N (B1\<lparr>receiverOutputMatrix := mB\<rparr>)" "length oB = n"
    and oB: "\<forall>i < n. in_field p (oB ! i) \<and>
      oB ! i mod p = (square_value len (receiverOutputMatrix B1 ! i) - square_value len (senderOutputMatrix B1 ! i)) mod p"
    using reduce_ok [OF P p sB(2) nN fB(1) fA(2)] by blast
  have base: "base_value len L const A1 = base_value len L const A" "base_value len L const B1 = base_value len L const B"
    using sA(1) sB(1) by (auto simp: base_value_def)
  have "(oA ! i + oB ! i) mod p = (base_value len L const B i * xA ! (i div rep) + base_value len L const A i * xB ! (i div rep)) mod p"
    if i: "i < n" for i
  proof -
    let ?tA = "square_value len (receiverOutputMatrix A1 ! i)" and ?tB = "square_value len (receiverOutputMatrix B1 ! i)"
    let ?qA = "square_value len (senderOutputMatrix A1 ! i)" and ?qB = "square_value len (senderOutputMatrix B1 ! i)"
    let ?u = "base_value len L const B i * xA ! (i div rep)" and ?v = "base_value len L const A i * xB ! (i div rep)"
    have "?qB mod p = (?tA - ?u) mod p" "?qA mod p = (?tB - ?v) mod p"
      using difference_value [OF c(2) i] difference_value [OF c(3) i] by (simp_all add: base)
    then have "((?tA - ?qA) + (?tB - ?qB)) mod p = ((?tA - (?tB - ?v)) + (?tB - (?tA - ?u))) mod p"
      by (intro mod_add_cong mod_diff_cong) simp_all
    moreover have "(oA ! i + oB ! i) mod p = ((?tA - ?qA) + (?tB - ?qB)) mod p"
      using oA oB i by (intro mod_add_cong) simp_all
    ultimately show ?thesis by (simp add: algebra_simps)
  qed
  then have "cross_terms p n (\<lambda>i. base_value len L const B i * xA ! (i div rep)) (\<lambda>i. base_value len L const A i * xB ! (i div rep)) oA oB"
    using oA oB rA(3) rB(3) by (simp add: cross_terms_def)
  moreover have "same_setup (A1\<lparr>receiverOutputMatrix := mA\<rparr>) A" "same_setup (B1\<lparr>receiverOutputMatrix := mB\<rparr>) B"
    using sA(1) sB(1) by (auto simp: same_setup_def)
  moreover have "correlate_reduce p len L n xA xB const rep A B = Inr ((A1\<lparr>receiverOutputMatrix := mA\<rparr>, oA), (B1\<lparr>receiverOutputMatrix := mB\<rparr>, oB))"
    using c(1) rA(1) rB(1) unfolding correlate_reduce_def P by simp
  ultimately show ?thesis using rA(2) rB(2) by blast
qed

text \<open>The bits of a value below \<open>2 ^ len\<close> form the value.\<close>

definition value_bits :: "nat \<Rightarrow> int \<Rightarrow> bool list" where
  "value_bits L v = map (bit v) [0..<64 * L]"

text \<open>A bit vector by its portions of \<open>T::size()\<close> bytes.\<close>

definition portion_bits :: "nat \<Rightarrow> int list \<Rightarrow> bool list" where
  "portion_bits L vs = concat (map (value_bits L) vs)"

lemma length_value_bits [simp]: "length (value_bits L v) = 64 * L"
  by (simp add: value_bits_def)

lemma length_portion_bits [simp]: "length (portion_bits L vs) = 64 * L * length vs"
  by (induction vs) (simp_all add: portion_bits_def)

lemma portion_bits_nth:
  "i < length vs \<Longrightarrow> r < 64 * L \<Longrightarrow> portion_bits L vs ! (64 * L * i + r) \<longleftrightarrow> bit (vs ! i) r"
proof (induction vs arbitrary: i)
  case (Cons v vs)
  show ?case
  proof (cases i)
    case 0
    then show ?thesis using Cons.prems by (simp add: portion_bits_def nth_append value_bits_def)
  next
    case (Suc k)
    then have "portion_bits L (v # vs) ! (64 * L * i + r) = portion_bits L vs ! (64 * L * k + r)"
      by (simp add: portion_bits_def nth_append algebra_simps)
    then show ?thesis using Suc Cons by simp
  qed
qed simp

lemma bits_form_value:
  assumes "0 \<le> v" "v < 2 ^ len"
  shows "(\<Sum>r<len. of_bool (bit v r) * 2 ^ r) = (v :: int)"
proof -
  have "(\<Sum>r<len. of_bool (bit v r) * 2 ^ r) = take_bit len v"
    unfolding take_bit_sum by (rule sum.cong) (auto simp: push_bit_eq_mult)
  then show ?thesis using assms by (simp add: take_bit_int_eq_self)
qed

lemma base_value_portion:
  assumes "baseReceiverInput B = portion_bits L vs" "i < length vs" "in_field p (vs ! i)" "p \<le> 2 ^ len" "len \<le> 64 * L"
  shows "base_value len L False B i = vs ! i"
proof -
  have "base_value len L False B i = (\<Sum>r<len. of_bool (bit (vs ! i) r) * 2 ^ r)"
    unfolding base_value_def by (rule sum.cong) (use assms in \<open>auto simp: portion_bits_nth\<close>)
  then show ?thesis using bits_form_value [of "vs ! i" len] assms(3,4) by (simp add: in_field_def)
qed

lemma base_value_key:
  assumes "baseReceiverInput B = value_bits L k" "in_field p k" "p \<le> 2 ^ len" "len \<le> 64 * L"
  shows "base_value len L True B i = k"
proof -
  have "base_value len L True B i = (\<Sum>r<len. of_bool (bit k r) * 2 ^ r)"
    unfolding base_value_def by (rule sum.cong) (use assms in \<open>auto simp: value_bits_def\<close>)
  then show ?thesis using bits_form_value [of k len] assms(2,3) by (simp add: in_field_def)
qed

end
