(* ===== verification/Multiplier.thy ===== *)
theory Multiplier
  imports FieldSquares
begin

text \<open>
  The multipliers behind the triples: \<open>OTMultiplier\<close> and \<open>MascotMultiplier\<close> of
  \<open>OT/OTMultiplier.hpp\<close>, each run by one party against one other. Every operation is given
  for both parties at once, with the messages of one being what the other receives.
\<close>

section \<open>One party's multiplier\<close>

text \<open>
  The prime with its bit length and number of limbs, the generator of field elements by its
  seed, and the hashes into the field and onto rows.
\<close>

record ot_env =
  o_prime :: int
  o_length :: nat
  o_limbs :: nat
  prg_stream :: "row \<Rightarrow> nat \<Rightarrow> int"
  hash_field :: "row \<Rightarrow> int"
  hash_row :: "row \<Rightarrow> row"

definition fpart :: "ot_env \<Rightarrow> int part" where
  "fpart e = field_part (o_prime e) (o_length e) (o_limbs e)"

definition env_ok :: "ot_env \<Rightarrow> bool" where
  "env_ok e \<longleftrightarrow> 0 < o_prime e \<and> o_prime e \<le> 2 ^ o_length e \<and> o_length e \<le> 64 * o_limbs e \<and> 0 < o_limbs e \<and>
     (\<forall>s k. in_field (o_prime e) (prg_stream e s k)) \<and> (\<forall>w. in_field (o_prime e) (hash_field e w))"

record multiplier =
  rot_ext :: extension
  auth_ot_ext :: "int correlator"
  otCorrelator :: "int correlator"
  c_output :: "int list"
  macs :: "int list list"
  input_macs :: "int list"

text \<open>\<open>OTExtension::init\<close> of the authenticator; the seeds are rows of 128 bits.\<close>

definition ot_init :: "ot_env \<Rightarrow> bool list \<Rightarrow> row matrix \<Rightarrow> row matrix \<Rightarrow> row matrix \<Rightarrow> int correlator \<Rightarrow> err + int correlator" where
  "ot_init e keyBits s0 s1 out co =
     (if list_ex (\<lambda>i. row_at s0 i = row_at s1 i) [0..<length keyBits] then Inl (Runtime_error ''base sender outputs are the same'')
      else Inr (co\<lparr>nbaseOTs := length keyBits, baseReceiverInput := keyBits,
        g_sender := (\<lambda>i. (prg_stream e (row_at s0 i), prg_stream e (row_at s1 i))),
        g_receiver := (\<lambda>i. prg_stream e (row_at out i)), sent_pos := 0, recv_pos := 0\<rparr>))"

text \<open>\<open>OTExtensionWithMatrix::hash_outputs\<close> in place; the second result is \<open>senderOutputMatrices[1]\<close>.\<close>

definition hash_own :: "ot_env \<Rightarrow> nat \<Rightarrow> extension \<Rightarrow> err + extension \<times> row matrix" where
  "hash_own e nOTs E =
     ebnd (hash_outputs bit_part (hash_row e) nOTs (senderOutputMatrix (ex_co E), []) (receiverOutputMatrix (ex_co E)) E) (\<lambda>((s0, s1), r).
     Inr (E\<lparr>ex_co := (ex_co E)\<lparr>receiverOutputMatrix := r, senderOutputMatrix := s0\<rparr>\<rparr>, s1))"

section \<open>Two parties\<close>

text \<open>The start of \<open>OTMultiplier::multiply\<close>: the bits of the MAC keys are transferred.\<close>

definition key_setup :: "ot_env \<Rightarrow> (nat \<Rightarrow> row) \<Rightarrow> int \<Rightarrow> int \<Rightarrow> multiplier \<Rightarrow> multiplier \<Rightarrow> err + multiplier \<times> multiplier" where
  "key_setup e chi kA kB A B =
     (let xA = value_bits (o_limbs e) kA; xB = value_bits (o_limbs e) kB in
      ebnd (extend_correlated chi (length xA) xA xB (rot_ext A) (rot_ext B)) (\<lambda>(EA, EB).
      ebnd (hash_own e (length xA) EA) (\<lambda>(EA, s1A).
      ebnd (hash_own e (length xB) EB) (\<lambda>(EB, s1B).
      ebnd (ot_init e xA (senderOutputMatrix (ex_co EA)) s1A (receiverOutputMatrix (ex_co EA)) (auth_ot_ext A)) (\<lambda>cA.
      ebnd (ot_init e xB (senderOutputMatrix (ex_co EB)) s1B (receiverOutputMatrix (ex_co EB)) (auth_ot_ext B)) (\<lambda>cB.
      Inr (A\<lparr>rot_ext := EA, auth_ot_ext := cA\<rparr>, B\<lparr>rot_ext := EB, auth_ot_ext := cB\<rparr>)))))))"

definition start_triples :: "ot_env \<Rightarrow> nat \<Rightarrow> multiplier \<Rightarrow> multiplier" where
  "start_triples e nPreamp M =
     M\<lparr>otCorrelator := co_resize (fpart e) (64 * o_limbs e * nPreamp) (otCorrelator M),
       rot_ext := (rot_ext M)\<lparr>ex_co := co_resize bit_part (64 * o_limbs e * nPreamp + 2 * 128) (ex_co (rot_ext M))\<rparr>\<rparr>"

text \<open>
  A round of \<open>multiplyForTriples\<close> up to \<open>reduce_squares\<close>, for the portions of
  \<open>valueBits[0]\<close> and \<open>valueBits[1]\<close>. \<open>otCorrelator.matrices\<close> are the receiver's matrix and \<open>t1\<close>.
\<close>

definition multiplyForTriples :: "ot_env \<Rightarrow> (nat \<Rightarrow> row) \<Rightarrow> nat \<Rightarrow> nat \<Rightarrow> int list \<times> int list \<Rightarrow> int list \<times> int list \<Rightarrow>
    multiplier \<Rightarrow> multiplier \<Rightarrow> err + multiplier \<times> multiplier" where
  "multiplyForTriples e chi nPreamp nAmplify vA vB A B =
     (let P = fpart e; xA = portion_bits (o_limbs e) (fst vA); xB = portion_bits (o_limbs e) (fst vB); cA = otCorrelator A; cB = otCorrelator B in
      ebnd (extend_correlated chi (length xA) xA xB (rot_ext A) (rot_ext B)) (\<lambda>(EA, EB).
      ebnd (hash_outputs P (hash_field e) (length xA) (receiverOutputMatrix cA, t1_matrix cA) (senderOutputMatrix cA) EA) (\<lambda>(sA, rA).
      ebnd (hash_outputs P (hash_field e) (length xB) (receiverOutputMatrix cB, t1_matrix cB) (senderOutputMatrix cB) EB) (\<lambda>(sB, rB).
      ebnd (correlate_reduce (o_prime e) (o_length e) (o_limbs e) nPreamp (snd vA) (snd vB) False nAmplify
         (setup_for_correlation xA sA rA P cA) (setup_for_correlation xB sB rB P cB)) (\<lambda>((cA, oA), (cB, oB)).
      Inr (A\<lparr>rot_ext := EA, otCorrelator := cA, c_output := oA\<rparr>, B\<lparr>rot_ext := EB, otCorrelator := cB, c_output := oB\<rparr>))))))"

text \<open>Authentication in \<open>MascotMultiplier::after_correlation\<close>, with the check and without \<open>fewer_rounds\<close>.\<close>

definition authenticate :: "ot_env \<Rightarrow> nat \<Rightarrow> int list \<Rightarrow> int list \<Rightarrow> int correlator \<Rightarrow> int correlator \<Rightarrow>
    err + (int correlator \<times> int list) \<times> (int correlator \<times> int list)" where
  "authenticate e nValues xA xB A B =
     ebnd (expand BOTH 0 nValues A) (\<lambda>A. ebnd (expand BOTH 0 nValues B) (\<lambda>B.
     correlate_reduce (o_prime e) (o_length e) (o_limbs e) nValues xA xB True 1 A B))"

definition after_correlation :: "ot_env \<Rightarrow> nat \<Rightarrow> int list list \<Rightarrow> int list list \<Rightarrow> multiplier \<Rightarrow> multiplier \<Rightarrow> err + multiplier \<times> multiplier" where
  "after_correlation e nTriples valueA valueB A B =
     (let size = co_resize (fpart e) (2 * nTriples * (64 * o_limbs e)) in
      ebnd (authenticate e (2 * nTriples) (valueA ! 0) (valueB ! 0) (size (auth_ot_ext A)) (size (auth_ot_ext B))) (\<lambda>((cA, m0A), (cB, m0B)).
      ebnd (authenticate e nTriples (valueA ! 1) (valueB ! 1) cA cB) (\<lambda>((cA, m1A), (cB, m1B)).
      ebnd (authenticate e (2 * nTriples) (valueA ! 2) (valueB ! 2) cA cB) (\<lambda>((cA, m2A), (cB, m2B)).
      Inr (A\<lparr>auth_ot_ext := cA, macs := [m0A, m1A, m2A]\<rparr>, B\<lparr>auth_ot_ext := cB, macs := [m0B, m1B, m2B]\<rparr>)))))"

text \<open>\<open>multiplyForInputs\<close>: \<open>A\<close> owns the inputs, \<open>B\<close> is another party.\<close>

definition multiplyForInputs :: "ot_env \<Rightarrow> nat \<Rightarrow> int list \<Rightarrow> multiplier \<Rightarrow> multiplier \<Rightarrow> err + multiplier \<times> multiplier" where
  "multiplyForInputs e n_inputs xs A B =
     (let P = fpart e; nOTs = n_inputs * (64 * o_limbs e); to = square_to (o_prime e) (o_length e) (o_limbs e) in
      ebnd (expand RECEIVER 0 n_inputs (co_resize P nOTs (auth_ot_ext A))) (\<lambda>cA.
      ebnd (expand SENDER 0 n_inputs (co_resize P nOTs (auth_ot_ext B))) (\<lambda>cB.
      ebnd (correlate P RECEIVER SENDER 0 n_inputs xs [] True 1 cA cB) (\<lambda>(cA, cB).
      Inr (A\<lparr>auth_ot_ext := cA, input_macs := map (\<lambda>j. to (receiverOutputMatrix cA ! j)) [0..<n_inputs]\<rparr>,
           B\<lparr>auth_ot_ext := cB, input_macs := map (\<lambda>j. gf_neg (o_prime e) (to (senderOutputMatrix cB ! j))) [0..<n_inputs]\<rparr>)))))"


section \<open>What two parties keep\<close>

definition pair_ok :: "ot_env \<Rightarrow> int \<Rightarrow> int \<Rightarrow> multiplier \<Rightarrow> multiplier \<Rightarrow> bool" where
  "pair_ok e kA kB A B \<longleftrightarrow> ext_pair (rot_ext A) (rot_ext B) \<and> ext_pair (rot_ext B) (rot_ext A) \<and>
     seeded (fpart e) (in_field (o_prime e)) (auth_ot_ext A) (auth_ot_ext B) \<and>
     seeded (fpart e) (in_field (o_prime e)) (auth_ot_ext B) (auth_ot_ext A) \<and>
     baseReceiverInput (auth_ot_ext A) = value_bits (o_limbs e) kA \<and> baseReceiverInput (auth_ot_ext B) = value_bits (o_limbs e) kB \<and>
     spacious (fpart e) 0 (auth_ot_ext A) \<and> spacious (fpart e) 0 (auth_ot_ext B) \<and>
     spacious (fpart e) 0 (otCorrelator A) \<and> spacious (fpart e) 0 (otCorrelator B)"

text \<open>Before the keys are transferred.\<close>

definition fresh_pair :: "ot_env \<Rightarrow> multiplier \<Rightarrow> multiplier \<Rightarrow> bool" where
  "fresh_pair e A B \<longleftrightarrow> ext_pair (rot_ext A) (rot_ext B) \<and> ext_pair (rot_ext B) (rot_ext A) \<and>
     spacious (fpart e) 0 (auth_ot_ext A) \<and> spacious (fpart e) 0 (auth_ot_ext B) \<and>
     spacious (fpart e) 0 (otCorrelator A) \<and> spacious (fpart e) 0 (otCorrelator B)"

lemma fpart_simps [simp]:
  "row_zero (fpart e) = 0" "used_rows (fpart e) = o_length e" "N_ROWS (fpart e) = 64 * o_limbs e"
  by (simp_all add: fpart_def)

lemma tall_zero: "tall P n bm \<Longrightarrow> tall P 0 bm"
  by (simp add: tall_def)

lemma spacious_zero: "spacious P n co \<Longrightarrow> spacious P 0 co"
  by (auto simp: spacious_def tall_def)

lemma resize_spacious: "spacious P 0 co \<Longrightarrow> 0 < N_ROWS P \<Longrightarrow> spacious P k (co_resize P (k * N_ROWS P) co)"
  using resize_vertical_tall [of P _ "k * N_ROWS P" k] by (simp add: spacious_def co_resize_def)

lemma ext_shaped_matrices:
  "ext_shaped E \<Longrightarrow> tall bit_part 0 r \<Longrightarrow> tall bit_part 0 s \<Longrightarrow>
   ext_shaped (E\<lparr>ex_co := (ex_co E)\<lparr>receiverOutputMatrix := r, senderOutputMatrix := s\<rparr>\<rparr>)"
  by (simp add: ext_shaped_def spacious_def)

lemma seeded_setup: "same_setup S' S \<Longrightarrow> same_setup R' R \<Longrightarrow> seeded P ok S' R' \<longleftrightarrow> seeded P ok S R"
  by (simp add: seeded_def same_setup_def)

lemma hash_rows_tall: "length out = m \<Longrightarrow> tall P m (hash_rows P H n f out)"
  by (auto simp: tall_def hash_rows_def)

lemma resize_vertical_length: "length (resize_vertical P n bm) = (n + N_ROWS P - 1) div N_ROWS P"
  by (simp add: resize_vertical_def)

lemma round_up_blocks: "0 < N \<Longrightarrow> (n + N - 1) div N = k \<Longrightarrow> (k * N + N - 1) div N = (k :: nat)"
  by (rule div_nat_eqI) (simp_all add: mult.commute)

lemma hash_outputs_ok:
  assumes N: "0 < N_ROWS P" and n: "n mod 8 = 0" and t: "tall P 0 a0" "tall P 0 a1" "tall P 0 b"
    and k: "(n + N_ROWS P - 1) div N_ROWS P = k"
  shows "\<exists>s0 s1 r. hash_outputs P H n (a0, a1) b E = Inr ((s0, s1), r) \<and> tall P k s0 \<and> tall P k s1 \<and> tall P k r \<and>
    (\<forall>i < n. (\<exists>w. s0 ! (i div N_ROWS P) ! (i mod N_ROWS P) = H w) \<and> (\<exists>w. s1 ! (i div N_ROWS P) ! (i mod N_ROWS P) = H w))"
proof -
  let ?N = "N_ROWS P"
  have l: "length (resize_vertical P (k * ?N) bm) = k" for bm :: "'a matrix"
    using round_up_blocks [OF N k] by (simp add: resize_vertical_length)
  have v: "tall P k (resize_vertical P (k * ?N) bm)" if "tall P 0 bm" for bm :: "'a matrix"
    by (rule resize_vertical_tall [OF that N]) (use N in simp_all)
  have kn: "i < k * ?N" if "i < n" for i
  proof -
    have "n \<le> (n + ?N - 1) div ?N * ?N"
      using N div_mult_mod_eq [of "n + ?N - 1" ?N] mod_less_divisor [OF N, of "n + ?N - 1"] by linarith
    then show ?thesis using that k by simp
  qed
  show ?thesis
    using n k l hash_rows_at [OF v [OF t(1)] kn _ N] hash_rows_at [OF v [OF t(2)] kn _ N]
    by (auto simp: hash_outputs_def Let_def intro!: hash_rows_tall)
qed

text \<open>The authenticators hold the seeds that the other party's key bits select.\<close>

lemma ot_init_seeded:
  assumes e: "env_ok e" and l: "length kA = 64 * o_limbs e" "length kB = 64 * o_limbs e"
    and S: "ot_init e kA s0 s1 rA S = Inr S'" and R: "ot_init e kB q0 q1 out R = Inr R'"
    and t: "\<And>i. i < 64 * o_limbs e \<Longrightarrow> row_at out i = (if kB ! i then row_at s1 i else row_at s0 i)"
  shows "seeded (fpart e) (in_field (o_prime e)) S' R'"
  using assms by (auto simp: seeded_def ot_init_def env_ok_def split: if_splits)


definition hashed_state :: "row matrix \<Rightarrow> row matrix \<Rightarrow> extension \<Rightarrow> extension" where
  "hashed_state r s E = E\<lparr>ex_co := (ex_co E)\<lparr>receiverOutputMatrix := r, senderOutputMatrix := s\<rparr>\<rparr>"

lemma hash_own_ok:
  assumes "ext_shaped E" "n mod 8 = 0"
  shows "\<exists>s0 s1 r. hash_own e n E = Inr (hashed_state r s0 E, s1) \<and>
    hash_outputs bit_part (hash_row e) n (senderOutputMatrix (ex_co E), []) (receiverOutputMatrix (ex_co E)) E = Inr ((s0, s1), r) \<and>
    ext_shaped (hashed_state r s0 E)"
proof -
  have t: "tall bit_part 0 (senderOutputMatrix (ex_co E))" "tall bit_part 0 ([] :: row matrix)" "tall bit_part 0 (receiverOutputMatrix (ex_co E))"
    using assms(1) by (simp_all add: ext_shaped_def spacious_def tall_def)
  obtain s0 s1 r where h: "hash_outputs bit_part (hash_row e) n (senderOutputMatrix (ex_co E), []) (receiverOutputMatrix (ex_co E)) E = Inr ((s0, s1), r)"
    "tall bit_part ((n + N_ROWS bit_part - 1) div N_ROWS bit_part) s0" "tall bit_part ((n + N_ROWS bit_part - 1) div N_ROWS bit_part) r"
    using hash_outputs_ok [OF _ assms(2) t refl, of "hash_row e" E] by auto
  then have "ext_shaped (hashed_state r s0 E)"
    unfolding hashed_state_def by (intro ext_shaped_matrices assms(1)) (auto dest: tall_zero)
  then show ?thesis using h(1) by (auto simp: hash_own_def hashed_state_def)
qed

lemma hashed_state_simps [simp]:
  "senderOutputMatrix (ex_co (hashed_state r s E)) = s" "receiverOutputMatrix (ex_co (hashed_state r s E)) = r"
  by (simp_all add: hashed_state_def)

lemma hashed_pair:
  "ext_pair A B \<Longrightarrow> ext_shaped (hashed_state r s A) \<Longrightarrow> ext_shaped (hashed_state r' s' B) \<Longrightarrow>
   ext_pair (hashed_state r s A) (hashed_state r' s' B)"
  by (simp add: ext_pair_def hashed_state_def seeded_def)

text \<open>The row that a party got is the other's for its bit.\<close>

lemma hashed_rows:
  assumes t: "transferred n x A B" and i: "i < n" "n mod 8 = 0" and sh: "ext_shaped A" "ext_shaped B"
    and hA: "hash_outputs bit_part H n (senderOutputMatrix (ex_co A), []) (receiverOutputMatrix (ex_co A)) A = Inr (qA, r)"
    and hB: "hash_outputs bit_part H n (senderOutputMatrix (ex_co B), []) (receiverOutputMatrix (ex_co B)) B = Inr ((s0, s1), qB)"
  shows "row_at r i = (if x ! i then row_at s1 i else row_at s0 i)"
proof -
  have tl: "tall bit_part 0 (receiverOutputMatrix (ex_co A))" "tall bit_part 0 (senderOutputMatrix (ex_co B))" "tall bit_part 0 ([] :: row matrix)"
    using sh by (simp_all add: ext_shaped_def spacious_def tall_def)
  obtain q0 q1 where qA: "qA = (q0, q1)" by (cases qA)
  show ?thesis
    using hash_transferred [OF t i(1,2) _ tl hA [unfolded qA] hB] by (simp add: row_at_def)
qed

lemma key_setup_ok:
  assumes e: "env_ok e" and f: "fresh_pair e A B"
  shows "key_setup e chi kA kB A B = Inl (Runtime_error ''base sender outputs are the same'') \<or>
    (\<exists>A' B'. key_setup e chi kA kB A B = Inr (A', B') \<and> pair_ok e kA kB A' B')"
proof -
  let ?n = "64 * o_limbs e" and ?xA = "value_bits (o_limbs e) kA" and ?xB = "value_bits (o_limbs e) kB"
  have n: "0 < ?n" "?n mod 8 = 0" using e by (simp_all add: env_ok_def mod_eq_0_iff_dvd dvd_mult2)
  have p: "ext_pair (rot_ext A) (rot_ext B)" "ext_pair (rot_ext B) (rot_ext A)" using f by (simp_all add: fresh_pair_def)
  obtain EA EB where E: "extend_correlated chi ?n ?xA ?xB (rot_ext A) (rot_ext B) = Inr (EA, EB)" "ext_pair EA EB" "ext_pair EB EA"
    "transferred ?n ?xA EA EB" "transferred ?n ?xB EB EA"
    using extend_ok [OF p _ _ n(1), of ?xA ?xB chi] by auto
  have sh: "ext_shaped EA" "ext_shaped EB" using E(2) by (simp_all add: ext_pair_def)
  obtain a0 a1 rA where hA: "hash_own e ?n EA = Inr (hashed_state rA a0 EA, a1)" "ext_shaped (hashed_state rA a0 EA)"
    "hash_outputs bit_part (hash_row e) ?n (senderOutputMatrix (ex_co EA), []) (receiverOutputMatrix (ex_co EA)) EA = Inr ((a0, a1), rA)"
    using hash_own_ok [OF sh(1) n(2)] by blast
  obtain b0 b1 rB where hB: "hash_own e ?n EB = Inr (hashed_state rB b0 EB, b1)" "ext_shaped (hashed_state rB b0 EB)"
    "hash_outputs bit_part (hash_row e) ?n (senderOutputMatrix (ex_co EB), []) (receiverOutputMatrix (ex_co EB)) EB = Inr ((b0, b1), rB)"
    using hash_own_ok [OF sh(2) n(2)] by blast
  have rows: "row_at rA i = (if ?xA ! i then row_at b1 i else row_at b0 i)" "row_at rB i = (if ?xB ! i then row_at a1 i else row_at a0 i)" if "i < ?n" for i
    using hashed_rows [OF E(4) that n(2) sh hA(3) hB(3)] hashed_rows [OF E(5) that n(2) sh(2,1) hB(3) hA(3)] by blast+
  show ?thesis
  proof (cases "ot_init e ?xA a0 a1 rA (auth_ot_ext A)")
    case (Inl err)
    then have "err = Runtime_error ''base sender outputs are the same''" by (simp add: ot_init_def split: if_splits)
    then show ?thesis using E(1) hA(1) hB(1) Inl by (simp add: key_setup_def Let_def)
  next
    case A': (Inr cA)
    show ?thesis
    proof (cases "ot_init e ?xB b0 b1 rB (auth_ot_ext B)")
      case (Inl err)
      then have "err = Runtime_error ''base sender outputs are the same''" by (simp add: ot_init_def split: if_splits)
      then show ?thesis using E(1) hA(1) hB(1) A' Inl by (simp add: key_setup_def Let_def)
    next
      case (Inr cB)
      let ?A = "A\<lparr>rot_ext := hashed_state rA a0 EA, auth_ot_ext := cA\<rparr>" and ?B = "B\<lparr>rot_ext := hashed_state rB b0 EB, auth_ot_ext := cB\<rparr>"
      have "key_setup e chi kA kB A B = Inr (?A, ?B)"
        using E(1) hA(1) hB(1) A' Inr by (simp add: key_setup_def Let_def)
      moreover have "seeded (fpart e) (in_field (o_prime e)) cA cB" "seeded (fpart e) (in_field (o_prime e)) cB cA"
        by (rule ot_init_seeded [OF e _ _ A' Inr]; simp add: rows) (rule ot_init_seeded [OF e _ _ Inr A']; simp add: rows)
      moreover have "baseReceiverInput cA = ?xA" "baseReceiverInput cB = ?xB"
        "spacious (fpart e) 0 cA" "spacious (fpart e) 0 cB"
        using A' Inr f by (auto simp: ot_init_def fresh_pair_def spacious_def split: if_splits)
      moreover have "ext_pair (hashed_state rA a0 EA) (hashed_state rB b0 EB)" "ext_pair (hashed_state rB b0 EB) (hashed_state rA a0 EA)"
        by (rule hashed_pair [OF E(2) hA(2) hB(2)], rule hashed_pair [OF E(3) hB(2) hA(2)])
      ultimately show ?thesis using f by (simp add: pair_ok_def fresh_pair_def)
    qed
  qed
qed


section \<open>Products\<close>

lemma resize_shaped: "spacious P 0 co \<Longrightarrow> spacious P 0 (co_resize P k co)"
  by (auto simp: spacious_def co_resize_def tall_def resize_vertical_def resize_def nth_append)

lemma start_triples_pair:
  assumes "pair_ok e kA kB A B"
  shows "pair_ok e kA kB (start_triples e n A) (start_triples e n B)"
proof -
  have x: "ext_shaped (E\<lparr>ex_co := co_resize bit_part k (ex_co E)\<rparr>)" if "ext_shaped E" for k and E :: extension
    using that by (simp add: ext_shaped_def resize_shaped)
  show ?thesis using assms by (simp add: pair_ok_def start_triples_def ext_pair_def x resize_shaped)
qed

text \<open>After the transfer of the bits of its values, each party holds the other's hashed rows for them.\<close>

lemma value_transfer:
  assumes e: "env_ok e" and n: "0 < n" and t: "transferred (64 * o_limbs e * n) xB EB EA"
    and sA: "spacious (fpart e) 0 cA" and sB: "spacious (fpart e) 0 cB"
    and hA: "hash_outputs (fpart e) (hash_field e) (64 * o_limbs e * n) (receiverOutputMatrix cA, t1_matrix cA) (senderOutputMatrix cA) EA = Inr (outA, rA)"
    and hB: "hash_outputs (fpart e) (hash_field e) (64 * o_limbs e * n) (receiverOutputMatrix cB, t1_matrix cB) (senderOutputMatrix cB) EB = Inr (outB, rB)"
  shows "base_correlated (fpart e) (in_field (o_prime e)) False 0 n
    (setup_for_correlation xA outA rA (fpart e) cA) (setup_for_correlation xB outB rB (fpart e) cB)"
  unfolding base_correlated_def
proof (intro allI impI)
  let ?N = "64 * o_limbs e" and ?P = "fpart e"
  fix i r assume "0 \<le> i" and i: "i < 0 + n" and r: "r < used_rows ?P"
  have N: "0 < N_ROWS ?P" "r < ?N" and lH: "\<And>w. in_field (o_prime e) (hash_field e w)" using e r by (auto simp: env_ok_def)
  have d: "(?N * i + r) div N_ROWS ?P = i" "(?N * i + r) mod N_ROWS ?P = r" using N by simp_all
  have k: "?N * i + r < ?N * n"
  proof -
    have "?N * i + r < ?N * i + ?N" using N(2) by simp
    also have "\<dots> = ?N * Suc i" by simp
    also have "\<dots> \<le> ?N * n" using i by (intro mult_le_mono2) simp
    finally show ?thesis .
  qed
  have m8: "?N * n mod 8 = 0" by (simp add: mod_eq_0_iff_dvd dvd_mult2)
  have tl: "tall ?P 0 (receiverOutputMatrix co)" "tall ?P 0 (t1_matrix co)" "tall ?P 0 (senderOutputMatrix co)" if "spacious ?P 0 co" for co
    using that by (simp_all add: spacious_def)
  obtain s0 s1 q where ok: "hash_outputs ?P (hash_field e) (?N * n) (receiverOutputMatrix cA, t1_matrix cA) (senderOutputMatrix cA) EA = Inr ((s0, s1), q)"
    "\<And>i. i < ?N * n \<Longrightarrow> (\<exists>w. s0 ! (i div N_ROWS ?P) ! (i mod N_ROWS ?P) = hash_field e w) \<and> (\<exists>w. s1 ! (i div N_ROWS ?P) ! (i mod N_ROWS ?P) = hash_field e w)"
    using hash_outputs_ok [OF N(1) m8 tl [OF sA] refl, of "hash_field e" EA] by blast
  have out: "outA = (s0, s1)" "rA = q" using ok(1) hA by simp_all
  have f: "in_field (o_prime e) (s0 ! i ! r)" "in_field (o_prime e) (s1 ! i ! r)"
    using ok(2) [OF k] lH unfolding d by auto
  have "rB ! i ! r = (if xB ! (?N * i + r) then s1 else s0) ! i ! r"
    using hash_transferred [OF t k m8 N(1) tl(3) [OF sB] tl(1,2) [OF sA] hB hA [unfolded out]] unfolding d .
  then show "in_field (o_prime e) (receiverOutputMatrix (setup_for_correlation xA outA rA ?P cA) ! i ! r) \<and>
      in_field (o_prime e) (t1_matrix (setup_for_correlation xA outA rA ?P cA) ! i ! r) \<and>
      senderOutputMatrix (setup_for_correlation xB outB rB ?P cB) ! i ! r =
        (if baseReceiverInput (setup_for_correlation xB outB rB ?P cB) ! base_index ?P False i r
         then t1_matrix (setup_for_correlation xA outA rA ?P cA) ! i ! r else receiverOutputMatrix (setup_for_correlation xA outA rA ?P cA) ! i ! r)"
    using f by (simp add: setup_for_correlation_def out base_index_def)
qed

lemma setup_spacious:
  assumes "spacious P 0 co" "tall P n (fst outs)" "tall P n (snd outs)" "tall P n out"
  shows "spacious P n (setup_for_correlation x outs out P co)"
  using assms by (auto simp: spacious_def setup_for_correlation_def tall_def resize_def nth_append)

lemma multiplyForTriples_ok:
  assumes e: "env_ok e" and pr: "pair_ok e kA kB A B" and n: "0 < n" "0 < rep"
    and a: "length (fst vA) = n" "length (fst vB) = n" and b: "n \<le> length (snd vA) * rep" "n \<le> length (snd vB) * rep"
    and f: "\<forall>x \<in> set (fst vA) \<union> set (fst vB) \<union> set (snd vA) \<union> set (snd vB). in_field (o_prime e) x"
  shows "\<exists>A' B'. multiplyForTriples e chi n rep vA vB A B = Inr (A', B') \<and> pair_ok e kA kB A' B' \<and>
    cross_terms (o_prime e) n (\<lambda>i. fst vB ! i * snd vA ! (i div rep)) (\<lambda>i. fst vA ! i * snd vB ! (i div rep)) (c_output A') (c_output B')"
proof -
  let ?p = "o_prime e" and ?L = "o_limbs e" and ?len = "o_length e" and ?P = "fpart e" and ?n = "64 * o_limbs e * n"
  let ?xA = "portion_bits ?L (fst vA)" and ?xB = "portion_bits ?L (fst vB)" and ?cA = "otCorrelator A" and ?cB = "otCorrelator B"
  have eo: "0 < ?p" "?p \<le> 2 ^ ?len" "?len \<le> 64 * ?L" "0 < ?L" using e by (simp_all add: env_ok_def)
  have m: "0 < ?n" "?n mod 8 = 0" using n eo by (simp_all add: mod_eq_0_iff_dvd dvd_mult2)
  have p: "ext_pair (rot_ext A) (rot_ext B)" "ext_pair (rot_ext B) (rot_ext A)" "spacious ?P 0 ?cA" "spacious ?P 0 ?cB"
    using pr by (simp_all add: pair_ok_def)
  obtain EA EB where E: "extend_correlated chi ?n ?xA ?xB (rot_ext A) (rot_ext B) = Inr (EA, EB)" "ext_pair EA EB" "ext_pair EB EA"
    "transferred ?n ?xA EA EB" "transferred ?n ?xB EB EA"
    using extend_ok [OF p(1,2) _ _ m(1), of ?xA ?xB chi] a by auto
  have N: "0 < N_ROWS ?P" and blocks: "(?n + N_ROWS ?P - 1) div N_ROWS ?P = n"
    using eo(4) by (simp, intro div_nat_eqI) (simp_all add: mult.commute)
  have tl: "tall ?P 0 (receiverOutputMatrix co)" "tall ?P 0 (t1_matrix co)" "tall ?P 0 (senderOutputMatrix co)" if "spacious ?P 0 co" for co
    using that by (simp_all add: spacious_def)
  obtain a0 a1 rA where hA: "hash_outputs ?P (hash_field e) ?n (receiverOutputMatrix ?cA, t1_matrix ?cA) (senderOutputMatrix ?cA) EA = Inr ((a0, a1), rA)"
    "tall ?P n a0" "tall ?P n a1" "tall ?P n rA"
    using hash_outputs_ok [OF N m(2) tl [OF p(3)] blocks, of "hash_field e" EA] by blast
  obtain b0 b1 rB where hB: "hash_outputs ?P (hash_field e) ?n (receiverOutputMatrix ?cB, t1_matrix ?cB) (senderOutputMatrix ?cB) EB = Inr ((b0, b1), rB)"
    "tall ?P n b0" "tall ?P n b1" "tall ?P n rB"
    using hash_outputs_ok [OF N m(2) tl [OF p(4)] blocks, of "hash_field e" EB] by blast
  let ?sA = "setup_for_correlation ?xA (a0, a1) rA ?P ?cA" and ?sB = "setup_for_correlation ?xB (b0, b1) rB ?P ?cB"
  have bA: "base_correlated ?P (in_field ?p) False 0 n ?sA ?sB" by (rule value_transfer [OF e n(1) E(5) p(3,4) hA(1) hB(1)])
  have bB: "base_correlated ?P (in_field ?p) False 0 n ?sB ?sA" by (rule value_transfer [OF e n(1) E(4) p(4,3) hB(1) hA(1)])
  have sp: "spacious ?P n ?sA" "spacious ?P n ?sB" by (rule setup_spacious; use p hA hB in simp)+
  have fx: "in_field ?p (snd vA ! (i div rep)) \<and> in_field ?p (snd vB ! (i div rep))" if "i < n" for i
  proof -
    have "i div rep < length (snd vA)" "i div rep < length (snd vB)" using that b n(2) by (simp_all add: div_less_iff_less_mult)
    then show ?thesis using f by auto
  qed
  have P: "?P = field_part ?p ?len ?L" by (simp add: fpart_def)
  obtain cA cB oA oB where c: "correlate_reduce ?p ?len ?L n (snd vA) (snd vB) False rep ?sA ?sB = Inr ((cA, oA), (cB, oB))"
    "spacious ?P n cA" "spacious ?P n cB"
    and x: "cross_terms ?p n (\<lambda>i. base_value ?len ?L False ?sB i * snd vA ! (i div rep)) (\<lambda>i. base_value ?len ?L False ?sA i * snd vB ! (i div rep)) oA oB"
    using correlate_reduce_ok [OF P eo(2,1) sp order_refl bA bB b fx] by blast
  have base: "base_value ?len ?L False ?sB i = fst vB ! i" "base_value ?len ?L False ?sA i = fst vA ! i" if "i < n" for i
    by (rule base_value_portion; use that a f eo in \<open>simp add: setup_for_correlation_def\<close>)+
  let ?A = "A\<lparr>rot_ext := EA, otCorrelator := cA, c_output := oA\<rparr>" and ?B = "B\<lparr>rot_ext := EB, otCorrelator := cB, c_output := oB\<rparr>"
  have x': "cross_terms ?p n (\<lambda>i. fst vB ! i * snd vA ! (i div rep)) (\<lambda>i. fst vA ! i * snd vB ! (i div rep)) (c_output ?A) (c_output ?B)"
    using x unfolding cross_terms_def by (simp add: base)
  have r: "multiplyForTriples e chi n rep vA vB A B = Inr (?A, ?B)"
    using E(1) hA(1) hB(1) c(1) a by (simp add: multiplyForTriples_def Let_def)
  have k: "pair_ok e kA kB ?A ?B"
    using pr E(2,3) spacious_zero [OF c(2)] spacious_zero [OF c(3)] by (simp add: pair_ok_def)
  show ?thesis using x' r k by blast
qed


section \<open>MACs\<close>

definition auth_ok :: "ot_env \<Rightarrow> int \<Rightarrow> int \<Rightarrow> nat \<Rightarrow> int correlator \<Rightarrow> int correlator \<Rightarrow> bool" where
  "auth_ok e kA kB N A B \<longleftrightarrow> seeded (fpart e) (in_field (o_prime e)) A B \<and> seeded (fpart e) (in_field (o_prime e)) B A \<and>
     baseReceiverInput A = value_bits (o_limbs e) kA \<and> baseReceiverInput B = value_bits (o_limbs e) kB \<and>
     spacious (fpart e) N A \<and> spacious (fpart e) N B"

lemma pair_auth:
  "pair_ok e kA kB A B \<longleftrightarrow> ext_pair (rot_ext A) (rot_ext B) \<and> ext_pair (rot_ext B) (rot_ext A) \<and>
     auth_ok e kA kB 0 (auth_ot_ext A) (auth_ot_ext B) \<and> spacious (fpart e) 0 (otCorrelator A) \<and> spacious (fpart e) 0 (otCorrelator B)"
  by (auto simp: pair_ok_def auth_ok_def)

lemma auth_resize:
  assumes "env_ok e" "auth_ok e kA kB 0 A B"
  shows "auth_ok e kA kB N (co_resize (fpart e) (N * (64 * o_limbs e)) A) (co_resize (fpart e) (N * (64 * o_limbs e)) B)"
  using assms resize_spacious [of "fpart e" _ N] by (simp add: auth_ok_def env_ok_def)

lemma auth_shrink: "auth_ok e kA kB N A B \<Longrightarrow> auth_ok e kA kB 0 A B"
  by (auto simp: auth_ok_def spacious_def tall_def)

text \<open>An expansion writes matching rows, and both sides read equally far.\<close>

lemma expand_pair:
  assumes k: "auth_ok e kA kB N A B" and cnt: "cnt \<le> N"
    and x: "expand roleA 0 cnt A = Inr A'" "expand roleB 0 cnt B = Inr B'" and r: "has_role roleA RECEIVER" "has_role roleB SENDER"
    and s: "has_role roleA SENDER = has_role roleB RECEIVER"
  shows "auth_ok e kA kB N A' B'" "base_correlated (fpart e) (in_field (o_prime e)) True 0 cnt A' B'"
proof -
  let ?P = "fpart e"
  have sd: "seeded ?P (in_field (o_prime e)) A B" "seeded ?P (in_field (o_prime e)) B A" "spacious ?P N A" "spacious ?P N B"
    using k by (simp_all add: auth_ok_def)
  have nb: "nbaseOTs A \<le> N_ROWS ?P" "nbaseOTs B \<le> N_ROWS ?P" using sd by (simp_all add: seeded_def)
  note a = expand_result [OF x(1) sd(3) nb(1)] and b = expand_result [OF x(2) sd(4) nb(2)]
  have "seeded ?P (in_field (o_prime e)) A' B'" using sd(1) r unfolding seeded_def a(2-6) b(2-5,7) by simp
  moreover have "seeded ?P (in_field (o_prime e)) B' A'" using sd(2) s unfolding seeded_def a(2-5,7) b(2-6) by simp
  ultimately show "auth_ok e kA kB N A' B'" using k a(1,5) b(1,5) by (simp add: auth_ok_def)
  have c: "spacious ?P (0 + cnt) A" "spacious ?P (0 + cnt) B" using sd cnt by (auto intro: spacious_mono)
  show "base_correlated ?P (in_field (o_prime e)) True 0 cnt A' B'"
    by (rule expand_correlated [OF sd(1) c x r])
qed

lemma auth_swap: "auth_ok e kA kB N A B \<longleftrightarrow> auth_ok e kB kA N B A"
  by (auto simp: auth_ok_def)

lemma authenticate_ok:
  assumes e: "env_ok e" and k: "auth_ok e kA kB N A B" and cnt: "cnt \<le> N"
    and l: "cnt \<le> length xA" "cnt \<le> length xB" and f: "\<forall>x \<in> set xA \<union> set xB. in_field (o_prime e) x"
    and key: "in_field (o_prime e) kA" "in_field (o_prime e) kB"
  shows "\<exists>A' B' oA oB. authenticate e cnt xA xB A B = Inr ((A', oA), (B', oB)) \<and> auth_ok e kA kB N A' B' \<and>
    cross_terms (o_prime e) cnt (\<lambda>i. kB * xA ! i) (\<lambda>i. kA * xB ! i) oA oB"
proof -
  let ?p = "o_prime e" and ?L = "o_limbs e" and ?len = "o_length e" and ?P = "fpart e"
  have eo: "0 < ?p" "?p \<le> 2 ^ ?len" "?len \<le> 64 * ?L" using e by (simp_all add: env_ok_def)
  have P: "?P = field_part ?p ?len ?L" by (simp add: fpart_def)
  have c: "spacious ?P (0 + cnt) A" "spacious ?P (0 + cnt) B" using k cnt by (auto simp: auth_ok_def intro: spacious_mono)
  obtain A1 where A1: "expand BOTH 0 cnt A = Inr A1" using expand_returns [OF c(1)] by blast
  obtain B1 where B1: "expand BOTH 0 cnt B = Inr B1" using expand_returns [OF c(2)] by blast
  have k1: "auth_ok e kA kB N A1 B1" "base_correlated ?P (in_field ?p) True 0 cnt A1 B1"
    by (rule expand_pair [OF k cnt A1 B1]; simp)+
  have k2: "base_correlated ?P (in_field ?p) True 0 cnt B1 A1"
    by (rule expand_pair(2) [OF k [unfolded auth_swap [of e kA]] cnt B1 A1]; simp)
  have sp: "spacious ?P N A1" "spacious ?P N B1" using k1(1) by (simp_all add: auth_ok_def)
  have x: "cnt \<le> length xA * 1" "cnt \<le> length xB * 1" "\<And>i. i < cnt \<Longrightarrow> in_field ?p (xA ! (i div 1)) \<and> in_field ?p (xB ! (i div 1))"
    using l f by simp_all
  obtain cA cB oA oB where r: "correlate_reduce ?p ?len ?L cnt xA xB True 1 A1 B1 = Inr ((cA, oA), (cB, oB))"
    "spacious ?P N cA" "spacious ?P N cB" "same_setup cA A1" "same_setup cB B1"
    and t: "cross_terms ?p cnt (\<lambda>i. base_value ?len ?L True B1 i * xA ! (i div 1)) (\<lambda>i. base_value ?len ?L True A1 i * xB ! (i div 1)) oA oB"
    using correlate_reduce_ok [OF P eo(2,1) sp cnt k1(2) k2 x] by blast
  have b: "base_value ?len ?L True A1 i = kA" "base_value ?len ?L True B1 i = kB" for i
    by (rule base_value_key; use k1(1) key eo in \<open>simp add: auth_ok_def\<close>)+
  have "auth_ok e kA kB N cA cB" using k1(1) r seeded_setup [OF r(4,5)] seeded_setup [OF r(5,4)]
    by (simp add: auth_ok_def same_setupD(2))
  moreover have "authenticate e cnt xA xB A B = Inr ((cA, oA), (cB, oB))" using A1 B1 r(1) by (simp add: authenticate_def)
  ultimately show ?thesis using t by (auto simp: b)
qed


text \<open>
  The MACs of \<open>a\<close>, \<open>b\<close> and \<open>c\<close>: entry \<open>j\<close> of \<open>macs ! l\<close> at the two parties adds up to each
  one's value times the other's key.
\<close>

definition authenticated :: "ot_env \<Rightarrow> int \<Rightarrow> int \<Rightarrow> nat \<Rightarrow> int list list \<Rightarrow> int list list \<Rightarrow> multiplier \<Rightarrow> multiplier \<Rightarrow> bool" where
  "authenticated e kA kB n valueA valueB A B \<longleftrightarrow> length (macs A) = 3 \<and> length (macs B) = 3 \<and>
     (\<forall>l < 3. cross_terms (o_prime e) (if l = 1 then n else 2 * n) (\<lambda>i. kB * valueA ! l ! i) (\<lambda>i. kA * valueB ! l ! i) (macs A ! l) (macs B ! l))"

lemma less_three: "(\<forall>l < (3 :: nat). Q l) \<longleftrightarrow> Q 0 \<and> Q 1 \<and> Q 2"
proof -
  have "l < 3 \<longleftrightarrow> l = 0 \<or> l = 1 \<or> l = 2" for l :: nat by linarith
  then show ?thesis by auto
qed

lemma after_correlation_ok:
  assumes e: "env_ok e" and pr: "pair_ok e kA kB A B" and key: "in_field (o_prime e) kA" "in_field (o_prime e) kB"
    and l: "\<And>l. l < 3 \<Longrightarrow> (if l = 1 then n else 2 * n) \<le> length (valueA ! l) \<and> (if l = 1 then n else 2 * n) \<le> length (valueB ! l)"
    and f: "\<And>l x. l < 3 \<Longrightarrow> x \<in> set (valueA ! l) \<union> set (valueB ! l) \<Longrightarrow> in_field (o_prime e) x"
  shows "\<exists>A' B'. after_correlation e n valueA valueB A B = Inr (A', B') \<and> pair_ok e kA kB A' B' \<and>
    authenticated e kA kB n valueA valueB A' B'"
proof -
  let ?r = "co_resize (fpart e) (2 * n * (64 * o_limbs e))" and ?p = "o_prime e"
  have k0: "auth_ok e kA kB (2 * n) (?r (auth_ot_ext A)) (?r (auth_ot_ext B))"
    using auth_resize [OF e, of kA kB "auth_ot_ext A" "auth_ot_ext B" "2 * n"] pr by (simp add: pair_auth)
  have fl: "\<forall>x \<in> set (valueA ! l) \<union> set (valueB ! l). in_field ?p x" if "l < 3" for l using f that by blast
  have nums: "(0::nat) < 3" "(1::nat) < 3" "(2::nat) < 3" by simp_all
  have l0: "2 * n \<le> length (valueA ! 0)" "2 * n \<le> length (valueB ! 0)" and l1: "n \<le> length (valueA ! 1)" "n \<le> length (valueB ! 1)"
    and l2: "2 * n \<le> length (valueA ! 2)" "2 * n \<le> length (valueB ! 2)"
    using l [of 0] l [of 1] l [of 2] by simp_all
  obtain c0 d0 m0 q0 where s0: "authenticate e (2 * n) (valueA ! 0) (valueB ! 0) (?r (auth_ot_ext A)) (?r (auth_ot_ext B)) = Inr ((c0, m0), (d0, q0))"
    "auth_ok e kA kB (2 * n) c0 d0" and t0: "cross_terms ?p (2 * n) (\<lambda>i. kB * valueA ! 0 ! i) (\<lambda>i. kA * valueB ! 0 ! i) m0 q0"
    using authenticate_ok [OF e k0 order_refl l0 fl [OF nums(1)] key] by blast
  have le: "n \<le> 2 * n" by simp
  obtain c1 d1 m1 q1 where s1: "authenticate e n (valueA ! 1) (valueB ! 1) c0 d0 = Inr ((c1, m1), (d1, q1))"
    "auth_ok e kA kB (2 * n) c1 d1" and t1: "cross_terms ?p n (\<lambda>i. kB * valueA ! 1 ! i) (\<lambda>i. kA * valueB ! 1 ! i) m1 q1"
    using authenticate_ok [OF e s0(2) le l1 fl [OF nums(2)] key] by blast
  obtain c2 d2 m2 q2 where s2: "authenticate e (2 * n) (valueA ! 2) (valueB ! 2) c1 d1 = Inr ((c2, m2), (d2, q2))"
    "auth_ok e kA kB (2 * n) c2 d2" and t2: "cross_terms ?p (2 * n) (\<lambda>i. kB * valueA ! 2 ! i) (\<lambda>i. kA * valueB ! 2 ! i) m2 q2"
    using authenticate_ok [OF e s1(2) order_refl l2 fl [OF nums(3)] key] by blast
  let ?A = "A\<lparr>auth_ot_ext := c2, macs := [m0, m1, m2]\<rparr>" and ?B = "B\<lparr>auth_ot_ext := d2, macs := [q0, q1, q2]\<rparr>"
  have "after_correlation e n valueA valueB A B = Inr (?A, ?B)"
    using s0(1) s1(1) s2(1) by (simp add: after_correlation_def Let_def)
  moreover have "pair_ok e kA kB ?A ?B" using pr auth_shrink [OF s2(2)] by (simp add: pair_auth)
  moreover have "authenticated e kA kB n valueA valueB ?A ?B" using t0 t1 t2 by (simp add: authenticated_def less_three)
  ultimately show ?thesis by blast
qed

section \<open>Inputs\<close>

lemma correlate_one:
  assumes AN: "spacious P N A" and BN: "spacious P N B" and nN: "n \<le> N" and P: "P = field_part p len L"
    and bA: "base_correlated P (in_field p) const 0 n A B" and x: "n \<le> length xA" "\<And>i. i < n \<Longrightarrow> in_field p (xA ! i)"
  shows "\<exists>A' B'. correlate P RECEIVER SENDER 0 n xA [] const 1 A B = Inr (A', B') \<and> holds_difference p len L const n xA 1 A' B' \<and>
    same_setup A' A \<and> same_setup B' B \<and> spacious P N A' \<and> spacious P N B'"
proof -
  have A: "spacious P (0 + n) A" and B: "spacious P (0 + n) B" using AN BN nN by (auto intro: spacious_mono)
  obtain A1 mA where A1: "correlate_send P RECEIVER 0 n xA 1 A = Inr (A1, mA)"
    using field_rows.send_returns [of p len L 0 n A xA 1 RECEIVER] A x(1) unfolding P by auto
  obtain tA where tA: "A1 = A\<lparr>t1_matrix := tA\<rparr>" "tall P N tA"
    using field_rows.message_state [of p len L N A RECEIVER 0 n xA 1 A1 mA] AN A1 unfolding P by auto
  have B1: "correlate_send P SENDER 0 n [] 1 B = Inr (B, [])"
    using spacious_slices [OF B, of 0 n] by (simp add: correlate_send_def has_role_def)
  let ?B = "correlate_receive P SENDER 0 n const mA B"
  have A2: "correlate_receive P RECEIVER 0 n const [] A1 = A1" by (simp add: correlate_receive_def has_role_def)
  have sB: "spacious P N ?B"
    using BN by (auto simp: correlate_receive_def Let_def spacious_def intro!: tall_on_slice)
  have ss: "same_setup A1 A" "same_setup ?B B" by (simp_all add: same_setup_def tA correlate_receive_def Let_def)
  have "holds_difference p len L const n xA 1 A1 ?B"
    unfolding holds_difference_def same_setupD(2) [OF ss(2)]
  proof (intro allI impI conjI)
    fix i r assume i: "i < n" "r < len"
    show "in_field p (receiverOutputMatrix A1 ! i ! r)" using bA i by (simp add: base_correlated_def P tA)
    show "senderOutputMatrix ?B ! i ! r = (if baseReceiverInput B ! base_index (field_part p len L) const i r
        then gf_sub p (receiverOutputMatrix A1 ! i ! r) (xA ! (i div 1)) else receiverOutputMatrix A1 ! i ! r)"
      using field_rows.correlated [of p len L 0 n A B const xA 1 RECEIVER A1 mA SENDER i r] A B bA x(2) A1 i
      by (simp add: P tA has_role_def)
  qed
  then show ?thesis using A1 B1 A2 sB ss AN tA by (auto simp: correlate_def spacious_def)
qed

lemma negated_difference:
  assumes "q mod p = (t - d) mod (p :: int)"
  shows "(t mod p + gf_neg p (q mod p)) mod p = d mod p"
proof -
  have "(t mod p + gf_neg p (q mod p)) mod p = (t - q) mod p"
    using gf_neg_cong [of p "q mod p"] by (metis mod_add_cong mod_mod_trivial mod_minus_eq uminus_add_conv_diff add.commute)
  also have "\<dots> = (t - (t - d)) mod p" by (rule mod_diff_cong) (simp_all add: assms)
  finally show ?thesis by simp
qed

lemma multiplyForInputs_ok:
  assumes e: "env_ok e" and pr: "pair_ok e kA kB A B" and key: "in_field (o_prime e) kB"
    and l: "length xs = n" and f: "\<forall>x \<in> set xs. in_field (o_prime e) x"
  shows "\<exists>A' B'. multiplyForInputs e n xs A B = Inr (A', B') \<and> pair_ok e kA kB A' B' \<and>
    cross_terms (o_prime e) n (\<lambda>i. kB * xs ! i) (\<lambda>_. 0) (input_macs A') (input_macs B')"
proof -
  let ?p = "o_prime e" and ?L = "o_limbs e" and ?len = "o_length e" and ?P = "fpart e" and ?r = "co_resize (fpart e) (n * (64 * o_limbs e))"
  have eo: "0 < ?p" "?p \<le> 2 ^ ?len" "?len \<le> 64 * ?L" using e by (simp_all add: env_ok_def)
  have P: "?P = field_part ?p ?len ?L" by (simp add: fpart_def)
  have k: "auth_ok e kA kB n (?r (auth_ot_ext A)) (?r (auth_ot_ext B))"
    using auth_resize [OF e, of kA kB "auth_ot_ext A" "auth_ot_ext B" n] pr by (simp add: pair_auth)
  have c: "spacious ?P (0 + n) (?r (auth_ot_ext A))" "spacious ?P (0 + n) (?r (auth_ot_ext B))" using k by (simp_all add: auth_ok_def)
  obtain A1 where A1: "expand RECEIVER 0 n (?r (auth_ot_ext A)) = Inr A1" using expand_returns [OF c(1)] by blast
  obtain B1 where B1: "expand SENDER 0 n (?r (auth_ot_ext B)) = Inr B1" using expand_returns [OF c(2)] by blast
  have k1: "auth_ok e kA kB n A1 B1" "base_correlated ?P (in_field ?p) True 0 n A1 B1"
    by (rule expand_pair [OF k order_refl A1 B1]; simp add: has_role_def)+
  have sp: "spacious ?P n A1" "spacious ?P n B1" using k1(1) by (simp_all add: auth_ok_def)
  have x: "n \<le> length xs" "\<And>i. i < n \<Longrightarrow> in_field ?p (xs ! i)" using l f by simp_all
  obtain cA cB where r: "correlate ?P RECEIVER SENDER 0 n xs [] True 1 A1 B1 = Inr (cA, cB)"
    "holds_difference ?p ?len ?L True n xs 1 cA cB" "same_setup cA A1" "same_setup cB B1" "spacious ?P n cA" "spacious ?P n cB"
    using correlate_one [OF sp order_refl P k1(2) x] by blast
  have xi: "in_field ?p (xs ! (i div 1))" if "i < n" for i using x(2) [OF that] by simp
  have b: "base_value ?len ?L True cB i = kB" for i
    by (rule base_value_key) (use k1(1) r(4) key eo in \<open>simp_all add: auth_ok_def same_setupD(2)\<close>)
  note fl = holds_in_field [OF r(2) xi]
  let ?to = "square_to ?p ?len ?L"
  have tA: "?to (receiverOutputMatrix cA ! i) = square_value ?len (receiverOutputMatrix cA ! i) mod ?p"
    "?to (senderOutputMatrix cB ! i) = square_value ?len (senderOutputMatrix cB ! i) mod ?p" if "i < n" for i
    using square_to_value [OF eo(2,3,1)] fl that unfolding rows_in_field_def by blast+
  let ?A = "A\<lparr>auth_ot_ext := cA, input_macs := map (\<lambda>j. ?to (receiverOutputMatrix cA ! j)) [0..<n]\<rparr>"
  let ?B = "B\<lparr>auth_ot_ext := cB, input_macs := map (\<lambda>j. gf_neg ?p (?to (senderOutputMatrix cB ! j))) [0..<n]\<rparr>"
  have "multiplyForInputs e n xs A B = Inr (?A, ?B)" using A1 B1 r(1) by (simp add: multiplyForInputs_def Let_def)
  moreover have "pair_ok e kA kB ?A ?B"
    using pr k1(1) r(5,6) seeded_setup [OF r(3,4)] seeded_setup [OF r(4,3)] spacious_zero
    by (auto simp: pair_auth auth_ok_def same_setupD(2) [OF r(3)] same_setupD(2) [OF r(4)])
  moreover have "cross_terms ?p n (\<lambda>i. kB * xs ! i) (\<lambda>_. 0) (input_macs ?A) (input_macs ?B)"
    unfolding cross_terms_def
  proof (intro conjI allI impI)
    fix i assume i: "i < n"
    have m: "in_field ?p (v mod ?p)" for v using eo(1) by (simp add: in_field_def)
    show "in_field ?p (input_macs ?A ! i)" using i m by (simp add: tA)
    show "in_field ?p (input_macs ?B ! i)" using i m by (simp add: tA in_field_neg)
    have "(square_value ?len (receiverOutputMatrix cA ! i) mod ?p + gf_neg ?p (square_value ?len (senderOutputMatrix cB ! i) mod ?p)) mod ?p =
        (kB * xs ! i) mod ?p"
      using negated_difference [OF difference_value [OF r(2) i]] by (simp add: b)
    then show "(input_macs ?A ! i + input_macs ?B ! i) mod ?p = (kB * xs ! i + 0) mod ?p" using i by (simp add: tA)
  qed simp_all
  ultimately show ?thesis by blast
qed

end
