(* ===== verification/TripleRounds.thy ===== *)
theory TripleRounds
  imports Multiplier
begin

text \<open>
  The rounds of \<open>OTTripleGenerator\<close> and \<open>SimpleMascotTripleGenerator\<close>
  (\<open>OT/NPartyTripleGenerator.hpp\<close>) with the triples of \<open>OT/Triple.hpp\<close>, at all parties. Every
  two parties run a pair of multipliers; the threads of a party work on different multipliers,
  so that the pairs are run one after the other here.
\<close>

section \<open>Running the multipliers of all pairs\<close>

type_synonym multipliers = "nat \<Rightarrow> nat \<Rightarrow> multiplier"

definition put :: "nat \<Rightarrow> nat \<Rightarrow> multiplier \<Rightarrow> multipliers \<Rightarrow> multipliers" where
  "put i j m M = (\<lambda>a b. if a = i \<and> b = j then m else M a b)"

definition party_pairs :: "nat \<Rightarrow> (nat \<times> nat) list" where
  "party_pairs n = filter (\<lambda>(i, j). i < j) (List.product [0..<n] [0..<n])"

fun all_pairs :: "(nat \<Rightarrow> nat \<Rightarrow> multiplier \<Rightarrow> multiplier \<Rightarrow> err + multiplier \<times> multiplier) \<Rightarrow> (nat \<times> nat) list \<Rightarrow> multipliers \<Rightarrow> err + multipliers" where
  "all_pairs f [] M = Inr M"
| "all_pairs f (ij # ps) M =
     ebnd (f (fst ij) (snd ij) (M (fst ij) (snd ij)) (M (snd ij) (fst ij))) (\<lambda>(A, B).
     all_pairs f ps (put (snd ij) (fst ij) B (put (fst ij) (snd ij) A M)))"

lemma put_simps [simp]:
  "put i j m M i j = m" "a \<noteq> i \<or> b \<noteq> j \<Longrightarrow> put i j m M a b = M a b"
  by (auto simp: put_def)

lemma set_party_pairs [simp]: "set (party_pairs n) = {(i, j). i < j \<and> j < n}"
  by (auto simp: party_pairs_def)

lemma distinct_party_pairs: "distinct (party_pairs n)"
  by (simp add: party_pairs_def distinct_product)

lemma all_pairs_ok:
  assumes "distinct ps" "\<And>i j. (i, j) \<in> set ps \<Longrightarrow> i < j"
    and "\<And>i j. (i, j) \<in> set ps \<Longrightarrow> \<exists>A B. f i j (M i j) (M j i) = Inr (A, B) \<and> Q i j A B"
  shows "\<exists>M'. all_pairs f ps M = Inr M' \<and> (\<forall>i j. (i, j) \<in> set ps \<longrightarrow> Q i j (M' i j) (M' j i)) \<and>
    (\<forall>i j. (i, j) \<notin> set ps \<and> (j, i) \<notin> set ps \<longrightarrow> M' i j = M i j)"
  using assms
proof (induction ps arbitrary: M)
  case (Cons ij ps)
  obtain i j where ij: "ij = (i, j)" by (cases ij)
  have lt: "i < j" using Cons.prems(2) [of i j] ij by simp
  obtain A B where AB: "f i j (M i j) (M j i) = Inr (A, B)" "Q i j A B" using Cons.prems(3) [of i j] ij by auto
  let ?M = "put j i B (put i j A M)"
  have same: "?M a b = M a b" "?M b a = M b a" if "(a, b) \<in> set ps" for a b
  proof -
    have "a < b" "(a, b) \<noteq> (i, j)" using that Cons.prems(1,2) ij by auto
    then show "?M a b = M a b" "?M b a = M b a" using lt by (auto simp: put_def)
  qed
  have step: "\<exists>A B. f a b (?M a b) (?M b a) = Inr (A, B) \<and> Q a b A B" if "(a, b) \<in> set ps" for a b
    using Cons.prems(3) [of a b] that same [OF that] by simp
  obtain M' where M': "all_pairs f ps ?M = Inr M'" "\<And>a b. (a, b) \<in> set ps \<Longrightarrow> Q a b (M' a b) (M' b a)"
    "\<And>a b. (a, b) \<notin> set ps \<Longrightarrow> (b, a) \<notin> set ps \<Longrightarrow> M' a b = ?M a b"
    using Cons.IH [of ?M] Cons.prems(1,2) step by (auto simp: ij)
  have nin: "(i, j) \<notin> set ps" "(j, i) \<notin> set ps" using Cons.prems(1) Cons.prems(2) [of j i] lt ij by auto
  have "M' i j = A" "M' j i = B" using M'(3) [OF nin] M'(3) [OF nin(2,1)] lt by (simp_all add: put_def)
  then have "Q i j (M' i j) (M' j i)" using AB(2) by simp
  moreover have "M' a b = M a b" if "(a, b) \<notin> set (ij # ps)" "(b, a) \<notin> set (ij # ps)" for a b
    using that M'(3) [of a b] lt by (auto simp: ij put_def)
  ultimately show ?case using AB(1) M' by (auto simp: ij)
qed simp

text \<open>What all pairs give together.\<close>

definition every_pair :: "nat \<Rightarrow> (nat \<Rightarrow> nat \<Rightarrow> multiplier \<Rightarrow> multiplier \<Rightarrow> bool) \<Rightarrow> multipliers \<Rightarrow> bool" where
  "every_pair n Q M \<longleftrightarrow> (\<forall>i j. i < j \<and> j < n \<longrightarrow> Q i j (M i j) (M j i))"

lemma run_pairs:
  assumes "every_pair n Q M" "\<And>i j A B. i < j \<Longrightarrow> j < n \<Longrightarrow> Q i j A B \<Longrightarrow> \<exists>A' B'. f i j A B = Inr (A', B') \<and> R i j A' B'"
  shows "\<exists>M'. all_pairs f (party_pairs n) M = Inr M' \<and> every_pair n R M'"
  using all_pairs_ok [OF distinct_party_pairs [of n], where f = f and M = M and Q = R] assms by (auto simp: every_pair_def)

section \<open>Sums over the pairs\<close>

lemma sum_pairs:
  "(\<Sum>i<Suc n. \<Sum>k \<in> {..<Suc n} - {i}. g i k) = (\<Sum>i<n. \<Sum>k \<in> {..<n} - {i}. g i k) + (\<Sum>i<n. g i n + g n i :: int)"
proof -
  have "(\<Sum>k \<in> {..<Suc n} - {i}. g i k) = (\<Sum>k \<in> {..<n} - {i}. g i k) + g i n" if "i < n" for i
  proof -
    have "{..<Suc n} - {i} = insert n ({..<n} - {i})" using that by auto
    then show ?thesis by simp
  qed
  then have "(\<Sum>i<n. \<Sum>k \<in> {..<Suc n} - {i}. g i k) = (\<Sum>i<n. (\<Sum>k \<in> {..<n} - {i}. g i k) + g i n)" by simp
  moreover have "{..<Suc n} - {n} = {..<n}" by auto
  ultimately show ?thesis by (simp add: sum.distrib)
qed

lemma sum_pairs_cong:
  assumes "\<And>i k. i < k \<Longrightarrow> k < (n :: nat) \<Longrightarrow> (g i k + g k i) mod p = (h i k + h k i) mod (p :: int)"
  shows "(\<Sum>i<n. \<Sum>k \<in> {..<n} - {i}. g i k) mod p = (\<Sum>i<n. \<Sum>k \<in> {..<n} - {i}. h i k) mod p"
  using assms
proof (induction n)
  case (Suc n)
  have "(\<Sum>i<n. g i n + g n i) mod p = (\<Sum>i<n. h i n + h n i) mod p" by (rule mod_sum_cong) (use Suc.prems in simp)
  then show ?case unfolding sum_pairs using Suc by (intro mod_add_cong) auto
qed simp

text \<open>
  Every party adds its own product and what its multipliers give: together that is the product
  of the sums.
\<close>

definition own_sum :: "int \<Rightarrow> nat \<Rightarrow> nat \<Rightarrow> int \<Rightarrow> (nat \<Rightarrow> int) \<Rightarrow> int" where
  "own_sum p n i own out = foldl (gf_add p) own (map out (filter (\<lambda>k. k \<noteq> i) [0..<n]))"

lemma own_sum_cong:
  assumes "i < n"
  shows "own_sum p n i own out mod p = (own + (\<Sum>k \<in> {..<n} - {i}. out k)) mod p"
proof -
  have "sum_list (map out (filter (\<lambda>k. k \<noteq> i) [0..<n])) = (\<Sum>k \<in> {..<n} - {i}. out k)"
    by (subst sum_list_distinct_conv_sum_set) (auto intro: sum.cong)
  then show ?thesis by (simp add: own_sum_def foldl_gf_add)
qed

lemma own_sum_field:
  "in_field p own \<Longrightarrow> (\<And>k. k < n \<Longrightarrow> k \<noteq> i \<Longrightarrow> in_field p (out k)) \<Longrightarrow> in_field p (own_sum p n i own out)"
  unfolding own_sum_def by (rule foldl_gf_add_field) auto

lemma pair_products:
  assumes "\<And>i k. i < k \<Longrightarrow> k < n \<Longrightarrow> (out i k + out k i) mod p = (a k * b i + a i * b k) mod (p :: int)"
  shows "(\<Sum>i<n. own_sum p n i (gf_mul p (a i) (b i)) (out i)) mod p = ((\<Sum>i<n. a i) * (\<Sum>i<n. b i)) mod p"
proof -
  have "(\<Sum>i<n. own_sum p n i (gf_mul p (a i) (b i)) (out i)) mod p = (\<Sum>i<n. a i * b i + (\<Sum>k \<in> {..<n} - {i}. out i k)) mod p"
  proof (rule mod_sum_cong)
    fix i assume "i \<in> {..<n}"
    then have "own_sum p n i (gf_mul p (a i) (b i)) (out i) mod p = (gf_mul p (a i) (b i) + (\<Sum>k \<in> {..<n} - {i}. out i k)) mod p"
      by (intro own_sum_cong) simp
    also have "\<dots> = (a i * b i + (\<Sum>k \<in> {..<n} - {i}. out i k)) mod p"
      by (rule mod_add_cong) (simp_all add: gf_mul_cong)
    finally show "own_sum p n i (gf_mul p (a i) (b i)) (out i) mod p = (a i * b i + (\<Sum>k \<in> {..<n} - {i}. out i k)) mod p" .
  qed
  also have "\<dots> = ((\<Sum>i<n. a i * b i) + (\<Sum>i<n. \<Sum>k \<in> {..<n} - {i}. out i k)) mod p" by (simp add: sum.distrib)
  also have "\<dots> = ((\<Sum>i<n. a i * b i) + (\<Sum>i<n. \<Sum>k \<in> {..<n} - {i}. a i * b k)) mod p"
    by (rule mod_add_cong [OF refl], rule sum_pairs_cong) (simp add: assms algebra_simps)
  also have "(\<Sum>i<n. a i * b i) + (\<Sum>i<n. \<Sum>k \<in> {..<n} - {i}. a i * b k) = (\<Sum>i<n. \<Sum>k<n. a i * b k)"
    unfolding sum.distrib [symmetric] by (rule sum.cong [OF refl]) (simp add: sum.remove [of "{..<n}"])
  also have "\<dots> = (\<Sum>i<n. a i) * (\<Sum>i<n. b i)" by (simp add: sum_product)
  finally show ?thesis .
qed

section \<open>Triples\<close>

text \<open>\<open>Triple<T, N>\<close>: \<open>N\<close> pairs of a factor and its product with one \<open>b\<close>.\<close>

record 'a Triple =
  tr_a :: "'a list"
  tr_b :: 'a
  tr_c :: "'a list"

text \<open>\<open>Triple::amplify\<close> from zero, with the coefficients in the order they are drawn.\<close>

definition combine :: "int \<Rightarrow> (nat \<Rightarrow> int) \<Rightarrow> int list \<Rightarrow> int" where
  "combine p r xs = foldl (\<lambda>s j. gf_add p s (gf_mul p (r j) (xs ! j))) 0 [0..<length xs]"

definition amplify :: "int \<Rightarrow> nat \<Rightarrow> (nat \<Rightarrow> int) \<Rightarrow> int Triple \<Rightarrow> int Triple" where
  "amplify p N r T =
     \<lparr>tr_a = map (\<lambda>i. combine p (\<lambda>j. r (i * length (tr_a T) + j)) (tr_a T)) [0..<N], tr_b = tr_b T,
      tr_c = map (\<lambda>i. combine p (\<lambda>j. r (i * length (tr_a T) + j)) (tr_c T)) [0..<N]\<rparr>"

text \<open>\<open>PlainTriple::to\<close>: triple \<open>i\<close> goes into the portions of \<open>valueBits[0]\<close> and \<open>valueBits[2]\<close>.\<close>

definition to_bits :: "nat \<Rightarrow> nat \<Rightarrow> int Triple \<Rightarrow> int list list \<Rightarrow> int list list" where
  "to_bits rep i T valueBits =
     foldl (\<lambda>v j. v[0 := (v ! 0)[i * rep + j := tr_a T ! j], 2 := (v ! 2)[i * rep + j := tr_c T ! j]])
       valueBits [0..<length (tr_a T)]"

text \<open>\<open>Triple::repeat\<close> of a triple with two factors, with the check; the default case is not reached.\<close>

definition tr_repeat :: "nat \<Rightarrow> nat" where
  "tr_repeat l = (if l = 1 then 1 else 2)"

text \<open>\<open>ShareTriple::from\<close> at party \<open>i\<close>: a value with its MAC share.\<close>

definition share_from :: "ctx \<Rightarrow> multipliers \<Rightarrow> nat \<Rightarrow> nat \<Rightarrow> nat \<Rightarrow> nat \<Rightarrow> int \<Rightarrow> share" where
  "share_from c M i iTriple l j value =
     \<lparr>share_a = value, share_mac = own_sum (pr c) (num_players c) i (gf_mul (pr c) value (alphas c ! i))
        (\<lambda>k. macs (M i k) ! l ! (iTriple * tr_repeat l + j))\<rparr>"

definition triple_from :: "ctx \<Rightarrow> multipliers \<Rightarrow> nat \<Rightarrow> nat \<Rightarrow> int Triple \<Rightarrow> share Triple" where
  "triple_from c M i iTriple T =
     \<lparr>tr_a = map (\<lambda>j. share_from c M i iTriple 0 j (tr_a T ! j)) [0..<tr_repeat 0],
      tr_b = share_from c M i iTriple 1 0 (tr_b T),
      tr_c = map (\<lambda>j. share_from c M i iTriple 2 j (tr_c T ! j)) [0..<tr_repeat 2]\<rparr>"

text \<open>The parties' triples, read as one triple of joint shares.\<close>

definition joint_triple :: "share Triple list \<Rightarrow> jshare Triple" where
  "joint_triple Ts = \<lparr>tr_a = map (\<lambda>j. map (\<lambda>T. tr_a T ! j) Ts) [0..<2], tr_b = map tr_b Ts,
     tr_c = map (\<lambda>j. map (\<lambda>T. tr_c T ! j) Ts) [0..<2]\<rparr>"

end
