(* ===== verification/TripleGen.thy ===== *)
theory TripleGen
  imports TripleRounds
begin

text \<open>
  \<open>SimpleMascotTripleGenerator::generateTriples\<close> up to the sacrifice
  (\<open>OT/NPartyTripleGenerator.hpp\<close>), with the parameters that \<open>MascotParams\<close> sets: MACs,
  amplification by three, the check, no Fiat-Shamir and one loop.
\<close>

section \<open>The generator\<close>

definition N_AMPLIFY :: nat where
  "N_AMPLIFY = 3"

text \<open>
  Sources of randomness: the elements of each party's \<open>share_prg\<close>, the \<open>j\<close>-th element from
  the \<open>k\<close>-th common seed, the shares that the owner of input masks draws in the round of that seed,
  and the coins of the check of the \<open>k\<close>-th extension between two parties.
\<close>

record gen_env =
  o_env :: ot_env
  share_prg :: "nat \<Rightarrow> nat \<Rightarrow> int"
  seed_coin :: "nat \<Rightarrow> nat \<Rightarrow> int"
  semi_prg :: "nat \<Rightarrow> nat \<Rightarrow> int"
  chi_coin :: "nat \<Rightarrow> nat \<Rightarrow> nat \<Rightarrow> nat \<Rightarrow> row"

record generator =
  ot_multipliers :: multipliers
  drawn :: "nat \<Rightarrow> nat"
  seeds :: nat
  extensions :: nat

text \<open>\<open>valueBits\<close> of party \<open>i\<close>, by portions: two vectors are random, the third is filled later.\<close>

definition value_bits_of :: "gen_env \<Rightarrow> (nat \<Rightarrow> nat) \<Rightarrow> nat \<Rightarrow> nat \<Rightarrow> nat \<Rightarrow> int list list" where
  "value_bits_of g pos nPreamp nTriples i =
     [map (\<lambda>k. share_prg g i (pos i + k)) [0..<nPreamp], map (\<lambda>k. share_prg g i (pos i + nPreamp + k)) [0..<nTriples],
      replicate nPreamp 0]"

definition preamp_triple :: "ctx \<Rightarrow> multipliers \<Rightarrow> nat \<Rightarrow> int list list \<Rightarrow> nat \<Rightarrow> int Triple" where
  "preamp_triple c M i vals t =
     \<lparr>tr_a = map (\<lambda>m. vals ! 0 ! (t * N_AMPLIFY + m)) [0..<N_AMPLIFY], tr_b = vals ! 1 ! t,
      tr_c = map (\<lambda>m. own_sum (pr c) (num_players c) i
         (gf_mul (pr c) (vals ! 0 ! (t * N_AMPLIFY + m)) (vals ! 1 ! ((t * N_AMPLIFY + m) div N_AMPLIFY)))
         (\<lambda>k. c_output (M i k) ! (t * N_AMPLIFY + m))) [0..<N_AMPLIFY]\<rparr>"

definition plainTripleRound :: "ctx \<Rightarrow> gen_env \<Rightarrow> nat \<Rightarrow> generator \<Rightarrow> err + generator \<times> (nat \<Rightarrow> int list list) \<times> (nat \<Rightarrow> int Triple list)" where
  "plainTripleRound c g nTriples G =
     (let nPreamp = nTriples * N_AMPLIFY; vals = value_bits_of g (drawn G) nPreamp nTriples in
      ebnd (all_pairs (\<lambda>i j. multiplyForTriples (o_env g) (chi_coin g (extensions G) i j) nPreamp N_AMPLIFY
          (vals i ! 0, vals i ! 1) (vals j ! 0, vals j ! 1)) (party_pairs (num_players c)) (ot_multipliers G)) (\<lambda>M.
      Inr (G\<lparr>ot_multipliers := M, drawn := (\<lambda>i. drawn G i + nPreamp + nTriples), extensions := Suc (extensions G)\<rparr>, vals,
        \<lambda>i. map (preamp_triple c M i (vals i)) [0..<nTriples])))"

text \<open>The multipliers of a party, before the loop and for the MACs.\<close>

definition start_all :: "ot_env \<Rightarrow> nat \<Rightarrow> multipliers \<Rightarrow> multipliers" where
  "start_all e nPreamp M = (\<lambda>i j. start_triples e nPreamp (M i j))"

text \<open>One seed for all triples of the loop: six coefficients for each triple.\<close>

definition amplified :: "ctx \<Rightarrow> (nat \<Rightarrow> int) \<Rightarrow> int Triple list \<Rightarrow> int Triple list" where
  "amplified c r pre = map (\<lambda>t. amplify (pr c) 2 (\<lambda>k. r (2 * N_AMPLIFY * t + k)) (pre ! t)) [0..<length pre]"

definition fill_bits :: "int Triple list \<Rightarrow> int list list \<Rightarrow> int list list" where
  "fill_bits Ts vals = foldl (\<lambda>v t. to_bits 2 t (Ts ! t) v) vals [0..<length Ts]"

definition uncheckedTriples :: "ctx \<Rightarrow> gen_env \<Rightarrow> nat \<Rightarrow> generator \<Rightarrow> err + generator \<times> jshare Triple list" where
  "uncheckedTriples c g nTriples G =
     (let n = num_players c; r = seed_coin g (seeds G) in
      ebnd (plainTripleRound c g nTriples (G\<lparr>ot_multipliers := start_all (o_env g) (nTriples * N_AMPLIFY) (ot_multipliers G)\<rparr>)) (\<lambda>(G, vals, pre).
      let amp = (\<lambda>i. amplified c r (pre i)); vals = (\<lambda>i. fill_bits (amp i) (vals i)) in
      ebnd (all_pairs (\<lambda>i j. after_correlation (o_env g) nTriples (vals i) (vals j)) (party_pairs n) (ot_multipliers G)) (\<lambda>M.
      Inr (G\<lparr>ot_multipliers := M, seeds := Suc (seeds G)\<rparr>,
        map (\<lambda>t. joint_triple (map (\<lambda>i. triple_from c M i t (amp i ! t)) [0..<n])) [0..<nTriples]))))"

section \<open>Valid generators\<close>

definition gen_env_ok :: "ctx \<Rightarrow> gen_env \<Rightarrow> bool" where
  "gen_env_ok c g \<longleftrightarrow> wf_field c \<and> env_ok (o_env g) \<and> o_prime (o_env g) = pr c \<and>
     (\<forall>i k. in_field (pr c) (share_prg g i k)) \<and> (\<forall>k j. in_field (pr c) (seed_coin g k j)) \<and>
     (\<forall>k j. in_field (pr c) (semi_prg g k j))"

definition generator_ok :: "ctx \<Rightarrow> gen_env \<Rightarrow> generator \<Rightarrow> bool" where
  "generator_ok c g G \<longleftrightarrow> every_pair (num_players c) (\<lambda>i j. pair_ok (o_env g) (alphas c ! i) (alphas c ! j)) (ot_multipliers G)"

text \<open>The sums of what the parties drew: the factors that a preamplified triple stands for.\<close>

definition sum_a :: "ctx \<Rightarrow> gen_env \<Rightarrow> (nat \<Rightarrow> nat) \<Rightarrow> nat \<Rightarrow> int" where
  "sum_a c g pos k = (\<Sum>i<num_players c. share_prg g i (pos i + k))"

definition sum_b :: "ctx \<Rightarrow> gen_env \<Rightarrow> (nat \<Rightarrow> nat) \<Rightarrow> nat \<Rightarrow> nat \<Rightarrow> int" where
  "sum_b c g pos nTriples t = (\<Sum>i<num_players c. share_prg g i (pos i + nTriples * N_AMPLIFY + t))"

lemma value_bits_nth [simp]:
  "k < nPreamp \<Longrightarrow> value_bits_of g pos nPreamp nTriples i ! 0 ! k = share_prg g i (pos i + k)"
  "t < nTriples \<Longrightarrow> value_bits_of g pos nPreamp nTriples i ! 1 ! t = share_prg g i (pos i + nPreamp + t)"
  by (simp_all add: value_bits_of_def)

lemma value_bits_length [simp]:
  "length (value_bits_of g pos nPreamp nTriples i) = 3"
  "length (value_bits_of g pos nPreamp nTriples i ! 0) = nPreamp"
  "length (value_bits_of g pos nPreamp nTriples i ! 1) = nTriples"
  "length (value_bits_of g pos nPreamp nTriples i ! 2) = nPreamp"
  by (simp_all add: value_bits_of_def)

lemmas value_bits_Suc [simp] = value_bits_nth(2) [unfolded One_nat_def] value_bits_length(3) [unfolded One_nat_def]

section \<open>Preamplified triples\<close>

definition outputs_ok :: "ctx \<Rightarrow> gen_env \<Rightarrow> (nat \<Rightarrow> nat) \<Rightarrow> nat \<Rightarrow> multipliers \<Rightarrow> bool" where
  "outputs_ok c g pos nTriples M \<longleftrightarrow>
     (\<forall>i k j. i < k \<and> k < num_players c \<and> j < nTriples * N_AMPLIFY \<longrightarrow>
        in_field (pr c) (c_output (M i k) ! j) \<and> in_field (pr c) (c_output (M k i) ! j) \<and>
        (c_output (M i k) ! j + c_output (M k i) ! j) mod pr c =
          (share_prg g k (pos k + j) * share_prg g i (pos i + nTriples * N_AMPLIFY + j div N_AMPLIFY) +
           share_prg g i (pos i + j) * share_prg g k (pos k + nTriples * N_AMPLIFY + j div N_AMPLIFY)) mod pr c)"

lemma plain_round_ok:
  assumes g: "gen_env_ok c g" and G: "generator_ok c g G" and n: "0 < nTriples"
  shows "\<exists>M. plainTripleRound c g nTriples G =
      Inr (G\<lparr>ot_multipliers := M, drawn := (\<lambda>i. drawn G i + nTriples * N_AMPLIFY + nTriples), extensions := Suc (extensions G)\<rparr>,
        value_bits_of g (drawn G) (nTriples * N_AMPLIFY) nTriples,
        \<lambda>i. map (preamp_triple c M i (value_bits_of g (drawn G) (nTriples * N_AMPLIFY) nTriples i)) [0..<nTriples]) \<and>
    generator_ok c g (G\<lparr>ot_multipliers := M\<rparr>) \<and> outputs_ok c g (drawn G) nTriples M"
proof -
  let ?n = "num_players c" and ?m = "nTriples * N_AMPLIFY"
  let ?v = "value_bits_of g (drawn G) ?m nTriples"
  let ?f = "\<lambda>i j. multiplyForTriples (o_env g) (chi_coin g (extensions G) i j) ?m N_AMPLIFY (?v i ! 0, ?v i ! 1) (?v j ! 0, ?v j ! 1)"
  let ?R = "\<lambda>i j A B. pair_ok (o_env g) (alphas c ! i) (alphas c ! j) A B \<and>
    cross_terms (pr c) ?m (\<lambda>k. ?v j ! 0 ! k * ?v i ! 1 ! (k div N_AMPLIFY)) (\<lambda>k. ?v i ! 0 ! k * ?v j ! 1 ! (k div N_AMPLIFY)) (c_output A) (c_output B)"
  have e: "env_ok (o_env g)" "o_prime (o_env g) = pr c" "\<And>i k. in_field (pr c) (share_prg g i k)" using g by (simp_all add: gen_env_ok_def)
  have N3: "0 < N_AMPLIFY" by (simp add: N_AMPLIFY_def)
  have m: "0 < ?m" using n N3 by simp
  have f: "\<forall>x \<in> set (?v i ! 0) \<union> set (?v j ! 0) \<union> set (?v i ! 1) \<union> set (?v j ! 1). in_field (pr c) x" for i j
    using e(3) by (auto simp: value_bits_of_def)
  have step: "\<exists>A' B'. ?f i j A B = Inr (A', B') \<and> ?R i j A' B'" if "pair_ok (o_env g) (alphas c ! i) (alphas c ! j) A B" for i j A B
    using multiplyForTriples_ok [OF e(1) that m N3, of "(?v i ! 0, ?v i ! 1)" "(?v j ! 0, ?v j ! 1)" "chi_coin g (extensions G) i j"]
      f [of i j] by (simp add: e(2))
  have "\<exists>M. all_pairs ?f (party_pairs ?n) (ot_multipliers G) = Inr M \<and> every_pair ?n ?R M"
    by (rule run_pairs [OF G [unfolded generator_ok_def]]) (rule step)
  then obtain M where M: "all_pairs ?f (party_pairs ?n) (ot_multipliers G) = Inr M" "every_pair ?n ?R M" by blast
  have "outputs_ok c g (drawn G) nTriples M"
    unfolding outputs_ok_def
  proof (intro allI impI)
    fix i k j assume a: "i < k \<and> k < ?n \<and> j < ?m"
    have q: "j div N_AMPLIFY < nTriples" using a by (simp add: less_mult_imp_div_less)
    have "cross_terms (pr c) ?m (\<lambda>j. ?v k ! 0 ! j * ?v i ! 1 ! (j div N_AMPLIFY)) (\<lambda>j. ?v i ! 0 ! j * ?v k ! 1 ! (j div N_AMPLIFY))
        (c_output (M i k)) (c_output (M k i))" using M(2) a by (simp add: every_pair_def)
    then show "in_field (pr c) (c_output (M i k) ! j) \<and> in_field (pr c) (c_output (M k i) ! j) \<and>
        (c_output (M i k) ! j + c_output (M k i) ! j) mod pr c =
          (share_prg g k (drawn G k + j) * share_prg g i (drawn G i + ?m + j div N_AMPLIFY) +
           share_prg g i (drawn G i + j) * share_prg g k (drawn G k + ?m + j div N_AMPLIFY)) mod pr c"
      using a q by (simp add: cross_terms_def)
  qed
  moreover have "generator_ok c g (G\<lparr>ot_multipliers := M\<rparr>)" using M(2) by (simp add: generator_ok_def every_pair_def)
  ultimately show ?thesis using M(1) unfolding plainTripleRound_def Let_def by (intro exI [of _ M]) simp
qed

text \<open>The products of the parties add up to the product of the sums.\<close>

lemma plain_products:
  assumes g: "gen_env_ok c g" and o: "outputs_ok c g pos nTriples M" and t: "t < nTriples" and m: "m < N_AMPLIFY"
  shows "(\<Sum>i<num_players c. tr_c (preamp_triple c M i (value_bits_of g pos (nTriples * N_AMPLIFY) nTriples i) t) ! m) mod pr c =
    (sum_a c g pos (t * N_AMPLIFY + m) * sum_b c g pos nTriples t) mod pr c"
    "i < num_players c \<Longrightarrow> in_field (pr c) (tr_c (preamp_triple c M i (value_bits_of g pos (nTriples * N_AMPLIFY) nTriples i) t) ! m)"
proof -
  let ?j = "t * N_AMPLIFY + m" and ?m = "nTriples * N_AMPLIFY"
  have j: "?j < ?m" "?j div N_AMPLIFY = t"
  proof -
    have "?j < Suc t * N_AMPLIFY" using m by simp
    also have "\<dots> \<le> ?m" using t by (intro mult_le_mono1) simp
    finally show "?j < ?m" .
  qed (use m in simp)
  have v: "tr_c (preamp_triple c M i (value_bits_of g pos ?m nTriples i) t) ! m =
      own_sum (pr c) (num_players c) i (gf_mul (pr c) (share_prg g i (pos i + ?j)) (share_prg g i (pos i + ?m + t))) (\<lambda>k. c_output (M i k) ! ?j)" for i
    using m j t by (simp add: preamp_triple_def)
  show "(\<Sum>i<num_players c. tr_c (preamp_triple c M i (value_bits_of g pos ?m nTriples i) t) ! m) mod pr c =
    (sum_a c g pos ?j * sum_b c g pos nTriples t) mod pr c"
    unfolding v sum_a_def sum_b_def
    by (rule pair_products) (use o j in \<open>simp add: outputs_ok_def\<close>)
  have p: "0 < pr c" using g by (simp add: gen_env_ok_def wf_field_def)
  show "in_field (pr c) (tr_c (preamp_triple c M i (value_bits_of g pos ?m nTriples i) t) ! m)" if i: "i < num_players c"
    unfolding v
  proof (rule own_sum_field)
    fix k assume "k < num_players c" "k \<noteq> i"
    then show "in_field (pr c) (c_output (M i k) ! ?j)" using o j i unfolding outputs_ok_def by (cases "i < k") auto
  qed (use p in \<open>simp add: in_field_mul\<close>)
qed


section \<open>Amplification\<close>

lemma combine_cong: "combine p r xs mod p = (\<Sum>j<length xs. r j * xs ! j) mod p"
proof -
  have "foldl (\<lambda>s j. gf_add p s (gf_mul p (r j) (xs ! j))) 0 [0..<n] mod p = (\<Sum>j<n. r j * xs ! j) mod p" for n
  proof (induction n)
    case (Suc n)
    have "gf_add p (foldl (\<lambda>s j. gf_add p s (gf_mul p (r j) (xs ! j))) 0 [0..<n]) (gf_mul p (r n) (xs ! n)) mod p =
        ((\<Sum>j<n. r j * xs ! j) + r n * xs ! n) mod p"
      unfolding gf_add_cong by (rule mod_add_cong [OF Suc gf_mul_cong])
    then show ?case by simp
  qed simp
  then show ?thesis by (simp add: combine_def)
qed

lemma combine_field: "0 < p \<Longrightarrow> in_field p (combine p r xs)"
proof -
  assume p: "0 < p"
  have "in_field p (foldl (\<lambda>s j. gf_add p s (gf_mul p (r j) (xs ! j))) 0 [0..<n])" for n
  proof (induction n)
    case 0
    then show ?case using p by (simp add: in_field_def)
  next
    case (Suc n)
    then show ?case using p by (simp add: in_field_add in_field_mul)
  qed
  then show ?thesis by (simp add: combine_def)
qed

text \<open>Amplifying preserves the products: each new pair is a combination of the old ones.\<close>

lemma combine_sum:
  assumes "\<And>i. i < n \<Longrightarrow> length (x i) = m" "\<And>j. j < m \<Longrightarrow> (\<Sum>i<n. x i ! j) mod p = y j mod p"
  shows "(\<Sum>i<n. combine p r (x i)) mod p = (\<Sum>j<m. r j * y j) mod p"
proof -
  have "(\<Sum>i<n. combine p r (x i)) mod p = (\<Sum>i<n. \<Sum>j<m. r j * x i ! j) mod p"
    by (rule mod_sum_cong) (use assms(1) in \<open>simp add: combine_cong\<close>)
  also have "(\<Sum>i<n. \<Sum>j<m. r j * x i ! j) = (\<Sum>j<m. r j * (\<Sum>i<n. x i ! j))"
    by (subst sum.swap) (simp add: sum_distrib_left)
  also have "\<dots> mod p = (\<Sum>j<m. r j * y j) mod p"
    by (rule mod_sum_cong, rule mod_mult_cong [OF refl]) (simp add: assms(2))
  finally show ?thesis .
qed

lemma two_pairs: "[0..<2] = [0, Suc 0]"
  by (simp add: upt_rec)

lemma amplified_nth:
  assumes "t < length pre" "j < 2" "length (tr_a (pre ! t)) = N_AMPLIFY"
  shows "tr_a (amplified c r pre ! t) ! j = combine (pr c) (\<lambda>k. r (2 * N_AMPLIFY * t + (j * N_AMPLIFY + k))) (tr_a (pre ! t))"
    "tr_c (amplified c r pre ! t) ! j = combine (pr c) (\<lambda>k. r (2 * N_AMPLIFY * t + (j * N_AMPLIFY + k))) (tr_c (pre ! t))"
    "tr_b (amplified c r pre ! t) = tr_b (pre ! t)" "length (tr_a (amplified c r pre ! t)) = 2"
  using assms by (simp_all add: amplified_def amplify_def)

section \<open>Filling the bit vectors\<close>

lemma to_bits_two:
  assumes "length v = 3" "length (tr_a T) = 2"
  shows "to_bits 2 i T v = [(v ! 0)[i * 2 := tr_a T ! 0, i * 2 + 1 := tr_a T ! 1], v ! 1, (v ! 2)[i * 2 := tr_c T ! 0, i * 2 + 1 := tr_c T ! 1]]"
proof -
  obtain x y z where "v = [x, y, z]" using assms(1) by (auto simp: numeral_3_eq_3 length_Suc_conv)
  then show ?thesis by (simp add: to_bits_def assms(2) two_pairs)
qed

definition written :: "nat \<Rightarrow> (int \<Rightarrow> bool) \<Rightarrow> (nat \<Rightarrow> nat \<Rightarrow> int) \<Rightarrow> int list \<Rightarrow> int list \<Rightarrow> bool" where
  "written k ok val xs ys \<longleftrightarrow> length ys = length xs \<and> (\<forall>y \<in> set ys. ok y) \<and> (\<forall>t < k. \<forall>j < 2. ys ! (t * 2 + j) = val t j)"

lemma written_Suc:
  assumes "written k ok val xs ys" "2 * Suc k \<le> length xs" "ok (val k 0)" "ok (val k 1)"
  shows "written (Suc k) ok val xs (ys[k * 2 := val k 0, k * 2 + 1 := val k 1])"
proof -
  have l: "length ys = length xs" using assms(1) by (simp add: written_def)
  have "ys[k * 2 := val k 0, k * 2 + 1 := val k 1] ! (t * 2 + j) = val t j" if "t < Suc k" "j < 2" for t j
  proof (cases "t = k")
    case True
    then show ?thesis using that(2) [THEN less_2_cases] assms(2) l by (auto simp: nth_list_update)
  next
    case False
    then have "t < k" "t * 2 + j \<noteq> k * 2" "t * 2 + j \<noteq> k * 2 + 1" using that by auto
    then show ?thesis using assms(1) that(2) by (simp add: written_def)
  qed
  moreover have "ok y" if "y \<in> set (ys[k * 2 := val k 0, k * 2 + 1 := val k 1])" for y
    using that assms(1,3,4) set_update_subset_insert [of "ys[k * 2 := val k 0]" "k * 2 + 1" "val k 1"] set_update_subset_insert [of ys "k * 2" "val k 0"]
    by (auto simp: written_def)
  ultimately show ?thesis using l by (simp add: written_def)
qed

lemma fill_bits_ok:
  assumes v: "length vals = 3" and l: "2 * length Ts \<le> length (vals ! 0)" "2 * length Ts \<le> length (vals ! 2)"
    and T: "\<And>t. t < length Ts \<Longrightarrow> length (tr_a (Ts ! t)) = 2"
    and ok: "\<And>x. x \<in> set (vals ! 0) \<union> set (vals ! 2) \<Longrightarrow> ok x"
    and okT: "\<And>t j. t < length Ts \<Longrightarrow> j < 2 \<Longrightarrow> ok (tr_a (Ts ! t) ! j) \<and> ok (tr_c (Ts ! t) ! j)"
  shows "written (length Ts) ok (\<lambda>t j. tr_a (Ts ! t) ! j) (vals ! 0) (fill_bits Ts vals ! 0)"
    "fill_bits Ts vals ! 1 = vals ! 1" "written (length Ts) ok (\<lambda>t j. tr_c (Ts ! t) ! j) (vals ! 2) (fill_bits Ts vals ! 2)"
    "length (fill_bits Ts vals) = 3"
proof -
  let ?F = "\<lambda>k. foldl (\<lambda>v t. to_bits 2 t (Ts ! t) v) vals [0..<k]"
  have "length (?F k) = 3 \<and> written k ok (\<lambda>t j. tr_a (Ts ! t) ! j) (vals ! 0) (?F k ! 0) \<and> ?F k ! 1 = vals ! 1 \<and>
      written k ok (\<lambda>t j. tr_c (Ts ! t) ! j) (vals ! 2) (?F k ! 2)" if "k \<le> length Ts" for k
    using that
  proof (induction k)
    case 0
    then show ?case using v ok by (simp add: written_def)
  next
    case (Suc k)
    then have IH: "length (?F k) = 3" "written k ok (\<lambda>t j. tr_a (Ts ! t) ! j) (vals ! 0) (?F k ! 0)" "?F k ! 1 = vals ! 1"
      "written k ok (\<lambda>t j. tr_c (Ts ! t) ! j) (vals ! 2) (?F k ! 2)" by simp_all
    have k: "k < length Ts" using Suc.prems by simp
    have e: "?F (Suc k) = [(?F k ! 0)[k * 2 := tr_a (Ts ! k) ! 0, k * 2 + 1 := tr_a (Ts ! k) ! 1], ?F k ! 1,
        (?F k ! 2)[k * 2 := tr_c (Ts ! k) ! 0, k * 2 + 1 := tr_c (Ts ! k) ! 1]]"
      using to_bits_two [OF IH(1) T [OF k], of k] by simp
    have o: "ok (tr_a (Ts ! k) ! j) \<and> ok (tr_c (Ts ! k) ! j)" if "j < 2" for j using okT [OF k that] .
    have wa: "written (Suc k) ok (\<lambda>t j. tr_a (Ts ! t) ! j) (vals ! 0) ((?F k ! 0)[k * 2 := tr_a (Ts ! k) ! 0, k * 2 + 1 := tr_a (Ts ! k) ! 1])"
      by (rule written_Suc [OF IH(2)]) (use l(1) k o in auto)
    have wc: "written (Suc k) ok (\<lambda>t j. tr_c (Ts ! t) ! j) (vals ! 2) ((?F k ! 2)[k * 2 := tr_c (Ts ! k) ! 0, k * 2 + 1 := tr_c (Ts ! k) ! 1])"
      by (rule written_Suc [OF IH(4)]) (use l(2) k o in auto)
    show ?case unfolding e using wa wc IH(3) by simp
  qed
  from this [of "length Ts"] show "written (length Ts) ok (\<lambda>t j. tr_a (Ts ! t) ! j) (vals ! 0) (fill_bits Ts vals ! 0)"
    "fill_bits Ts vals ! 1 = vals ! 1" "written (length Ts) ok (\<lambda>t j. tr_c (Ts ! t) ! j) (vals ! 2) (fill_bits Ts vals ! 2)"
    "length (fill_bits Ts vals) = 3"
    by (simp_all add: fill_bits_def)
qed


section \<open>Authenticated triples\<close>

definition all_authenticated :: "ctx \<Rightarrow> gen_env \<Rightarrow> nat \<Rightarrow> (nat \<Rightarrow> int list list) \<Rightarrow> multipliers \<Rightarrow> bool" where
  "all_authenticated c g nTriples vals M \<longleftrightarrow>
     every_pair (num_players c) (\<lambda>i j. authenticated (o_env g) (alphas c ! i) (alphas c ! j) nTriples (vals i) (vals j)) M"

lemma share_from_sh:
  assumes g: "gen_env_ok c g" and M: "all_authenticated c g nTriples vals M" and l: "l < 3" and t: "t < nTriples" "j < tr_repeat l"
    and v: "\<And>i. i < num_players c \<Longrightarrow> in_field (pr c) (v i) \<and> vals i ! l ! (t * tr_repeat l + j) = v i"
    and x: "(\<Sum>i<num_players c. v i) mod pr c = x mod pr c"
  shows "sh c (map (\<lambda>i. share_from c M i t l j (v i)) [0..<num_players c]) x"
proof -
  let ?n = "num_players c" and ?q = "t * tr_repeat l + j"
  have p: "0 < pr c" "o_prime (o_env g) = pr c" using g by (auto simp: gen_env_ok_def wf_field_def)
  have q: "?q < (if l = 1 then nTriples else 2 * nTriples)" using t by (auto simp: tr_repeat_def split: if_splits)
  have ct: "cross_terms (pr c) (if l = 1 then nTriples else 2 * nTriples) (\<lambda>z. alphas c ! k * vals i ! l ! z) (\<lambda>z. alphas c ! i * vals k ! l ! z)
      (macs (M i k) ! l) (macs (M k i) ! l)" if "i < k" "k < ?n" for i k
    using M l that by (simp add: all_authenticated_def every_pair_def authenticated_def p(2))
  have o: "in_field (pr c) (macs (M i k) ! l ! ?q) \<and> in_field (pr c) (macs (M k i) ! l ! ?q) \<and>
      (macs (M i k) ! l ! ?q + macs (M k i) ! l ! ?q) mod pr c = (v k * alphas c ! i + v i * alphas c ! k) mod pr c" if "i < k" "k < ?n" for i k
    using ct [OF that] q v [of i] v [of k] that by (simp add: cross_terms_def algebra_simps)
  let ?mac = "\<lambda>i. own_sum (pr c) ?n i (gf_mul (pr c) (v i) (alphas c ! i)) (\<lambda>k. macs (M i k) ! l ! ?q)"
  have "(\<Sum>i<?n. ?mac i) mod pr c = ((\<Sum>i<?n. v i) * (\<Sum>i<?n. alphas c ! i)) mod pr c"
    by (rule pair_products) (use o in blast)
  also have "\<dots> = (x * alpha c) mod pr c" by (rule mod_mult_cong [OF x]) (simp add: sum_alphas)
  finally have m: "(\<Sum>i<?n. ?mac i) mod pr c = (alpha c * x) mod pr c" by (simp add: mult.commute)
  have f: "in_field (pr c) (?mac i)" if i: "i < ?n" for i
  proof (rule own_sum_field)
    fix k assume "k < ?n" "k \<noteq> i"
    then show "in_field (pr c) (macs (M i k) ! l ! ?q)" using o [of i k] o [of k i] i by (cases "i < k") auto
  qed (use p in \<open>simp add: in_field_mul\<close>)
  show ?thesis
    using v f x m by (auto simp: sh_def share_from_def share_in_field_def comp_def interv_sum_list_conv_sum_set_nat atLeast0LessThan)
qed

text \<open>The triple \<open>t\<close> of a loop stands for these factors.\<close>

definition factor :: "ctx \<Rightarrow> gen_env \<Rightarrow> generator \<Rightarrow> nat \<Rightarrow> nat \<Rightarrow> int" where
  "factor c g G t j = (\<Sum>m<N_AMPLIFY. seed_coin g (seeds G) (2 * N_AMPLIFY * t + (j * N_AMPLIFY + m)) * sum_a c g (drawn G) (t * N_AMPLIFY + m))"

definition unchecked_is :: "ctx \<Rightarrow> jshare Triple \<Rightarrow> (nat \<Rightarrow> int) \<Rightarrow> int \<Rightarrow> bool" where
  "unchecked_is c T x y \<longleftrightarrow> sh c (tr_b T) y \<and> length (tr_a T) = 2 \<and> length (tr_c T) = 2 \<and>
     (\<forall>j < 2. sh c (tr_a T ! j) (x j) \<and> sh c (tr_c T ! j) (x j * y))"

text \<open>What a party amplifies, as functions of the party.\<close>

lemma amplified_sums:
  assumes g: "gen_env_ok c g" and o: "outputs_ok c g (drawn G) nTriples M" and t: "t < nTriples" and j: "j < 2"
    and amp: "amp = (\<lambda>i. amplified c (seed_coin g (seeds G)) (map (preamp_triple c M i (value_bits_of g (drawn G) (nTriples * N_AMPLIFY) nTriples i)) [0..<nTriples]))"
  shows "(\<Sum>i<num_players c. tr_a (amp i ! t) ! j) mod pr c = factor c g G t j mod pr c"
    "(\<Sum>i<num_players c. tr_c (amp i ! t) ! j) mod pr c = (factor c g G t j * sum_b c g (drawn G) nTriples t) mod pr c"
    "in_field (pr c) (tr_a (amp i ! t) ! j)" "in_field (pr c) (tr_c (amp i ! t) ! j)" "length (tr_a (amp i ! t)) = 2"
    "tr_b (amp i ! t) = share_prg g i (drawn G i + nTriples * N_AMPLIFY + t)"
proof -
  let ?v = "value_bits_of g (drawn G) (nTriples * N_AMPLIFY) nTriples" and ?r = "\<lambda>k. seed_coin g (seeds G) (2 * N_AMPLIFY * t + (j * N_AMPLIFY + k))"
  let ?P = "\<lambda>i. preamp_triple c M i (?v i) t"
  have p: "0 < pr c" using g by (simp add: gen_env_ok_def wf_field_def)
  have l: "length (tr_a (?P i)) = N_AMPLIFY" "length (tr_c (?P i)) = N_AMPLIFY" for i by (simp_all add: preamp_triple_def)
  have e: "tr_a (amp i ! t) ! j = combine (pr c) ?r (tr_a (?P i))" "tr_c (amp i ! t) ! j = combine (pr c) ?r (tr_c (?P i))"
    "length (tr_a (amp i ! t)) = 2" "tr_b (amp i ! t) = tr_b (?P i)" for i
    unfolding amp using t j l by (simp_all add: amplified_nth)
  have a: "tr_a (?P i) ! m = share_prg g i (drawn G i + (t * N_AMPLIFY + m))" if "m < N_AMPLIFY" for i m
  proof -
    have "t * N_AMPLIFY + m < Suc t * N_AMPLIFY" using that by simp
    also have "\<dots> \<le> nTriples * N_AMPLIFY" using t by (intro mult_le_mono1) simp
    finally show ?thesis using that by (simp add: preamp_triple_def)
  qed
  show "(\<Sum>i<num_players c. tr_a (amp i ! t) ! j) mod pr c = factor c g G t j mod pr c"
    unfolding e factor_def by (rule combine_sum) (simp_all add: l a sum_a_def)
  have "(\<Sum>i<num_players c. tr_c (amp i ! t) ! j) mod pr c =
      (\<Sum>m<N_AMPLIFY. ?r m * (sum_a c g (drawn G) (t * N_AMPLIFY + m) * sum_b c g (drawn G) nTriples t)) mod pr c"
    unfolding e by (rule combine_sum) (simp_all add: l plain_products(1) [OF g o t])
  then show "(\<Sum>i<num_players c. tr_c (amp i ! t) ! j) mod pr c = (factor c g G t j * sum_b c g (drawn G) nTriples t) mod pr c"
    by (simp add: factor_def sum_distrib_right mult.assoc)
  show "in_field (pr c) (tr_a (amp i ! t) ! j)" "in_field (pr c) (tr_c (amp i ! t) ! j)" "length (tr_a (amp i ! t)) = 2"
    unfolding e by (simp_all add: combine_field p)
  show "tr_b (amp i ! t) = share_prg g i (drawn G i + nTriples * N_AMPLIFY + t)"
    unfolding e using t by (simp add: preamp_triple_def)
qed


lemma start_all_ok: "generator_ok c g G \<Longrightarrow> generator_ok c g (G\<lparr>ot_multipliers := start_all (o_env g) k (ot_multipliers G)\<rparr>)"
  using start_triples_pair by (auto simp: generator_ok_def every_pair_def start_all_def)

lemma unchecked_triples_ok:
  assumes g: "gen_env_ok c g" and G: "generator_ok c g G" and n: "0 < nTriples"
  shows "\<exists>M Ts. uncheckedTriples c g nTriples G =
      Inr (G\<lparr>ot_multipliers := M, drawn := (\<lambda>i. drawn G i + nTriples * N_AMPLIFY + nTriples), extensions := Suc (extensions G), seeds := Suc (seeds G)\<rparr>, Ts) \<and>
    generator_ok c g (G\<lparr>ot_multipliers := M\<rparr>) \<and> length Ts = nTriples \<and>
    (\<forall>t < nTriples. unchecked_is c (Ts ! t) (factor c g G t) (sum_b c g (drawn G) nTriples t))"
proof -
  let ?n = "num_players c" and ?r = "seed_coin g (seeds G)" and ?v = "value_bits_of g (drawn G) (nTriples * N_AMPLIFY) nTriples"
  let ?G = "G\<lparr>ot_multipliers := start_all (o_env g) (nTriples * N_AMPLIFY) (ot_multipliers G)\<rparr>"
  obtain M0 where M0: "plainTripleRound c g nTriples ?G =
      Inr (?G\<lparr>ot_multipliers := M0, drawn := (\<lambda>i. drawn G i + nTriples * N_AMPLIFY + nTriples), extensions := Suc (extensions G)\<rparr>, ?v,
        \<lambda>i. map (preamp_triple c M0 i (?v i)) [0..<nTriples])"
    "generator_ok c g (?G\<lparr>ot_multipliers := M0\<rparr>)" "outputs_ok c g (drawn G) nTriples M0"
    using plain_round_ok [OF g start_all_ok [OF G] n, of "nTriples * N_AMPLIFY"] by auto
  define amp where "amp = (\<lambda>i. amplified c ?r (map (preamp_triple c M0 i (?v i)) [0..<nTriples]))"
  define vals where "vals = (\<lambda>i. fill_bits (amp i) (?v i))"
  have e: "env_ok (o_env g)" "o_prime (o_env g) = pr c" "\<And>i k. in_field (pr c) (share_prg g i k)" and p: "0 < pr c"
    using g by (simp_all add: gen_env_ok_def wf_field_def)
  have al: "in_field (pr c) (alphas c ! i)" if "i < ?n" for i using g that by (simp add: gen_env_ok_def wf_field_def num_players_def)
  have len: "length (amp i) = nTriples" for i by (simp add: amp_def amplified_def)
  note sums = amplified_sums [OF g M0(3) _ _ amp_def]
  have N3: "2 * nTriples \<le> nTriples * N_AMPLIFY" by (simp add: N_AMPLIFY_def)
  have fill: "written nTriples (in_field (pr c)) (\<lambda>t j. tr_a (amp i ! t) ! j) (?v i ! 0) (vals i ! 0)" "vals i ! 1 = ?v i ! 1"
    "written nTriples (in_field (pr c)) (\<lambda>t j. tr_c (amp i ! t) ! j) (?v i ! 2) (vals i ! 2)" "length (vals i) = 3" for i
  proof -
    have a: "length (?v i) = 3" "2 * length (amp i) \<le> length (?v i ! 0)" "2 * length (amp i) \<le> length (?v i ! 2)" using N3 len by simp_all
    have b: "length (tr_a (amp i ! t)) = 2" if "t < length (amp i)" for t using sums(5) [of t 0] that len by simp
    have d: "in_field (pr c) x" if "x \<in> set (?v i ! 0) \<union> set (?v i ! 2)" for x
      using that e(3) p by (auto simp: value_bits_of_def in_field_def)
    have f: "in_field (pr c) (tr_a (amp i ! t) ! j) \<and> in_field (pr c) (tr_c (amp i ! t) ! j)" if "t < length (amp i)" "j < 2" for t j
      using sums(3,4) that len by simp
    note F = fill_bits_ok [of "?v i" "amp i" "in_field (pr c)", OF a b d f]
    show "written nTriples (in_field (pr c)) (\<lambda>t j. tr_a (amp i ! t) ! j) (?v i ! 0) (vals i ! 0)" "vals i ! 1 = ?v i ! 1"
      "written nTriples (in_field (pr c)) (\<lambda>t j. tr_c (amp i ! t) ! j) (?v i ! 2) (vals i ! 2)" "length (vals i) = 3"
      using F unfolding len vals_def by simp_all
  qed
  have l3: "l = 0 \<or> l = 1 \<or> l = 2" if "l < 3" for l :: nat using that by linarith
  have vl: "(if l = 1 then nTriples else 2 * nTriples) \<le> length (vals i ! l)" if "l < 3" for l i
    using l3 [OF that] fill [of i] N3 by (auto simp: written_def)
  have vf: "in_field (pr c) x" if "l < 3" "x \<in> set (vals i ! l)" for l i x
    using l3 [OF that(1)] fill [of i] that(2) e(3) by (auto simp: written_def value_bits_of_def)
  have vals_at: "vals i ! 0 ! (t * tr_repeat 0 + j) = tr_a (amp i ! t) ! j" "vals i ! 2 ! (t * tr_repeat 2 + j) = tr_c (amp i ! t) ! j"
    "vals i ! 1 ! (t * tr_repeat 1 + 0) = tr_b (amp i ! t)" if "t < nTriples" "j < 2" for i t j
    using fill [of i] that sums(6) [OF that] by (simp_all add: written_def tr_repeat_def)
  let ?f = "\<lambda>i j. after_correlation (o_env g) nTriples (vals i) (vals j)"
  let ?R = "\<lambda>i j A B. pair_ok (o_env g) (alphas c ! i) (alphas c ! j) A B \<and> authenticated (o_env g) (alphas c ! i) (alphas c ! j) nTriples (vals i) (vals j) A B"
  have "\<exists>M. all_pairs ?f (party_pairs ?n) M0 = Inr M \<and> every_pair ?n ?R M"
  proof (rule run_pairs)
    show "every_pair ?n (\<lambda>i j. pair_ok (o_env g) (alphas c ! i) (alphas c ! j)) M0" using M0(2) by (simp add: generator_ok_def)
  next
    fix i j A B assume ij: "i < j" "j < ?n" and pr: "pair_ok (o_env g) (alphas c ! i) (alphas c ! j) A B"
    show "\<exists>A' B'. ?f i j A B = Inr (A', B') \<and> ?R i j A' B'"
      by (rule after_correlation_ok [OF e(1) pr]) (use ij al vl vf in \<open>auto simp: e(2)\<close>)
  qed
  then obtain M where M: "all_pairs ?f (party_pairs ?n) M0 = Inr M" "every_pair ?n ?R M" by blast
  have auth: "all_authenticated c g nTriples vals M" and ok: "generator_ok c g (G\<lparr>ot_multipliers := M\<rparr>)"
    using M(2) by (simp_all add: all_authenticated_def generator_ok_def every_pair_def)
  let ?Ts = "map (\<lambda>t. joint_triple (map (\<lambda>i. triple_from c M i t (amp i ! t)) [0..<?n])) [0..<nTriples]"
  have "unchecked_is c (?Ts ! t) (factor c g G t) (sum_b c g (drawn G) nTriples t)" if t: "t < nTriples" for t
  proof -
    have joint: "?Ts ! t = \<lparr>tr_a = map (\<lambda>j. map (\<lambda>i. share_from c M i t 0 j (tr_a (amp i ! t) ! j)) [0..<?n]) [0..<2],
        tr_b = map (\<lambda>i. share_from c M i t 1 0 (tr_b (amp i ! t))) [0..<?n],
        tr_c = map (\<lambda>j. map (\<lambda>i. share_from c M i t 2 j (tr_c (amp i ! t) ! j)) [0..<?n]) [0..<2]\<rparr>"
      using t by (simp add: joint_triple_def triple_from_def tr_repeat_def comp_def)
    have "sh c (map (\<lambda>i. share_from c M i t 0 j (tr_a (amp i ! t) ! j)) [0..<?n]) (factor c g G t j)" if "j < 2" for j
      by (rule share_from_sh [OF g auth _ t]) (use that t vals_at sums in \<open>auto simp: tr_repeat_def\<close>)
    moreover have "sh c (map (\<lambda>i. share_from c M i t 2 j (tr_c (amp i ! t) ! j)) [0..<?n]) (factor c g G t j * sum_b c g (drawn G) nTriples t)" if "j < 2" for j
      by (rule share_from_sh [OF g auth _ t]) (use that t vals_at sums in \<open>auto simp: tr_repeat_def\<close>)
    moreover have "sh c (map (\<lambda>i. share_from c M i t 1 0 (tr_b (amp i ! t))) [0..<?n]) (sum_b c g (drawn G) nTriples t)"
      by (rule share_from_sh [OF g auth _ t]) (use t vals_at [OF t, of 0] sums(6) [OF t, of 0] e(3) in \<open>auto simp: tr_repeat_def sum_b_def\<close>)
    ultimately show ?thesis unfolding joint unchecked_is_def by simp
  qed
  moreover have "uncheckedTriples c g nTriples G =
      Inr (G\<lparr>ot_multipliers := M, drawn := (\<lambda>i. drawn G i + nTriples * N_AMPLIFY + nTriples), extensions := Suc (extensions G), seeds := Suc (seeds G)\<rparr>, ?Ts)"
    using M0(1) M(1) by (simp add: uncheckedTriples_def Let_def amp_def vals_def)
  ultimately show ?thesis using ok by (intro exI [of _ M] exI [of _ ?Ts]) simp
qed

end
