(* ===== verification/Sacrifice.thy ===== *)
theory Sacrifice
  imports TripleGen Opening
begin

text \<open>
  The sacrifice of \<open>MascotTripleGenerator\<close> (\<open>OT/NPartyTripleGenerator.hpp\<close>,
  \<open>TripleToSacrifice\<close> of \<open>OT/Triple.hpp\<close>): one of two products with the same \<open>b\<close> is spent to
  check the other.
\<close>

section \<open>The sacrifice\<close>

definition prepare_sacrifice :: "ctx \<Rightarrow> int \<Rightarrow> jshare Triple \<Rightarrow> jshare Triple" where
  "prepare_sacrifice c t T =
     \<lparr>tr_a = [j_sub c (j_mul c (tr_a T ! 0) t) (tr_a T ! 1)], tr_b = tr_b T,
      tr_c = [j_sub c (j_mul c (tr_c T ! 0) t) (tr_c T ! 1)]\<rparr>"

definition computeCheckShare :: "ctx \<Rightarrow> jshare Triple \<Rightarrow> int \<Rightarrow> jshare" where
  "computeCheckShare c T maskedA = j_sub c (tr_c T ! 0) (j_mul c (tr_b T) maskedA)"

definition add_checks :: "ctx \<Rightarrow> jshare list \<Rightarrow> (mpc, unit list) m" where
  "add_checks c Ss = mapM (\<lambda>S. AddToCheck c S 0) Ss"

definition sacrifice :: "ctx \<Rightarrow> nat \<Rightarrow> (nat \<Rightarrow> int) \<Rightarrow> jshare Triple list \<Rightarrow> (mpc, unit) m" where
  "sacrifice c len r Ts =
     bnd (check (40 \<le> len) Assertion_failed) (\<lambda>_.
     let masked = map (\<lambda>j. prepare_sacrifice c (r j) (Ts ! j)) [0..<length Ts] in
     bnd (POpen c (map (\<lambda>T. tr_a T ! 0) masked)) (\<lambda>opened.
     bnd (add_checks c (map2 (computeCheckShare c) masked opened)) (\<lambda>_. Check c)))"

text \<open>\<open>generateTriples\<close>: the coefficients of the sacrifice follow those of the amplification.\<close>

definition generateTriples :: "ctx \<Rightarrow> gen_env \<Rightarrow> nat \<Rightarrow> generator \<Rightarrow> (mpc, generator \<times> jshare Triple list) m" where
  "generateTriples c g nTriples G =
     (case uncheckedTriples c g nTriples G of Inl e \<Rightarrow> throw e
      | Inr (G', Ts) \<Rightarrow>
          bnd (sacrifice c (o_length (o_env g)) (\<lambda>j. seed_coin g (seeds G) (2 * N_AMPLIFY * nTriples + j)) Ts) (\<lambda>_. ret (G', Ts)))"

text \<open>What \<open>MascotTriplePrep::buffer_triples\<close> takes from the generator.\<close>

definition buffered :: "jshare Triple list \<Rightarrow> (jshare \<times> jshare \<times> jshare) list" where
  "buffered Ts = map (\<lambda>T. (tr_a T ! 0, tr_b T, tr_c T ! 0)) Ts"

section \<open>Honest triples pass\<close>

lemma AddToCheck_ok:
  assumes "wf_field c" "mac_inv c s" "sh c S 0"
  shows "\<exists>t. AddToCheck c S 0 s = Inr ((), t) \<and> mac_inv c t \<and> prep_part t = prep_part s"
proof -
  let ?n = "num_players c"
  let ?t = "s\<lparr>mc_macs := map2 (\<lambda>v sec. v @ [share_mac sec]) (mc_macs s) S, mc_vals := map (\<lambda>v. v @ [0]) (mc_vals s),
    popen_cnt := Suc (popen_cnt s)\<rparr>"
  have l: "length (mc_macs s) = ?n" "length (mc_vals s) = ?n" "length S = ?n" using assms(2,3) by (simp_all add: mac_inv_def sh_def)
  have m: "map2 (\<lambda>v sec. v @ [share_mac sec]) (mc_macs s) S = map (\<lambda>i. mc_macs s ! i @ map (\<lambda>S. share_mac (S ! i)) [S]) [0..<?n]"
    "map (\<lambda>v. v @ [0]) (mc_vals s) = map (\<lambda>i. mc_vals s ! i @ map (\<lambda>x. x mod pr c) [0]) [0..<?n]"
    using l by (auto intro: nth_equalityI)
  have "mac_inv c ?t"
    using mac_inv_append [OF assms(2), where Ss = "[S]" and xs = "[0]" and a = "op_values s" and b = "op_pos s" and d = "values_opened s"] assms(3)
    unfolding m by (simp add: mac_inv_def)
  then obtain t where t: "check_if_needed c ?t = Inr ((), t)" "mac_inv c t" "cleared ?t t"
    using check_if_needed_ok [OF assms(1)] by blast
  have "AddToCheck c S 0 s = Inr ((), t)" using t(1) by (simp add: AddToCheck_def bnd_def modify_def)
  moreover have "prep_part t = prep_part s" using cleared_parts [OF t(3)] by (simp add: prep_part_def)
  ultimately show ?thesis using t(2) by blast
qed

lemma add_checks_ok:
  assumes "wf_field c" "mac_inv c s" "\<forall>S \<in> set Ss. sh c S 0"
  shows "\<exists>us t. add_checks c Ss s = Inr (us, t) \<and> mac_inv c t \<and> prep_part t = prep_part s"
  using assms(2,3)
proof (induction Ss arbitrary: s)
  case Nil
  then show ?case by (simp add: add_checks_def ret_def)
next
  case (Cons S Ss)
  obtain t where t: "AddToCheck c S 0 s = Inr ((), t)" "mac_inv c t" "prep_part t = prep_part s"
    using AddToCheck_ok [OF assms(1) Cons.prems(1), of S] Cons.prems(2) by auto
  obtain us u where "add_checks c Ss t = Inr (us, u)" "mac_inv c u" "prep_part u = prep_part t"
    using Cons.IH [OF t(2)] Cons.prems(2) by auto
  then show ?case using t by (simp add: add_checks_def bnd_def ret_def)
qed

text \<open>The value of a check share: the defect of one product against that of the other.\<close>

definition candidate :: "ctx \<Rightarrow> jshare Triple \<Rightarrow> (nat \<Rightarrow> int) \<Rightarrow> int \<Rightarrow> (nat \<Rightarrow> int) \<Rightarrow> bool" where
  "candidate c T x y z \<longleftrightarrow> sh c (tr_b T) y \<and> (\<forall>j < 2. sh c (tr_a T ! j) (x j) \<and> sh c (tr_c T ! j) (z j))"

definition defect :: "int \<Rightarrow> (nat \<Rightarrow> int) \<Rightarrow> int \<Rightarrow> (nat \<Rightarrow> int) \<Rightarrow> int" where
  "defect t x y z = t * (z 0 - x 0 * y) - (z 1 - x 1 * y)"

lemma masked_sh:
  assumes "wf_field c" "candidate c T x y z"
  shows "sh c (tr_a (prepare_sacrifice c t T) ! 0) (x 0 * t - x 1)"
    "sh c (computeCheckShare c (prepare_sacrifice c t T) ((x 0 * t - x 1) mod pr c)) (defect t x y z)"
proof -
  have s: "sh c (tr_a T ! 0) (x 0)" "sh c (tr_a T ! 1) (x 1)" "sh c (tr_c T ! 0) (z 0)" "sh c (tr_c T ! 1) (z 1)" "sh c (tr_b T) y"
    using assms(2) by (auto simp: candidate_def)
  show a: "sh c (tr_a (prepare_sacrifice c t T) ! 0) (x 0 * t - x 1)"
    using sh_sub [OF sh_mul [OF assms(1) s(1)] s(2)] by (simp add: prepare_sacrifice_def)
  have "sh c (computeCheckShare c (prepare_sacrifice c t T) ((x 0 * t - x 1) mod pr c)) ((z 0 * t - z 1) - y * ((x 0 * t - x 1) mod pr c))"
    using sh_sub [OF sh_sub [OF sh_mul [OF assms(1) s(3)] s(4)] sh_mul [OF assms(1) s(5)]] by (simp add: prepare_sacrifice_def computeCheckShare_def)
  moreover have "((z 0 * t - z 1) - y * ((x 0 * t - x 1) mod pr c)) mod pr c = defect t x y z mod pr c"
  proof -
    have "((z 0 * t - z 1) - y * ((x 0 * t - x 1) mod pr c)) mod pr c = ((z 0 * t - z 1) - y * (x 0 * t - x 1)) mod pr c"
      by (rule mod_diff_cong [OF refl]) (simp add: mod_mult_right_eq)
    then show ?thesis by (simp add: defect_def algebra_simps)
  qed
  ultimately show "sh c (computeCheckShare c (prepare_sacrifice c t T) ((x 0 * t - x 1) mod pr c)) (defect t x y z)" by (rule sh_cong)
qed

text \<open>The openings of the sacrifice and the check shares after them.\<close>

lemma sacrifice_opens:
  assumes c: "wf_field c" and s: "mac_inv c s" and T: "\<And>j. j < length Ts \<Longrightarrow> candidate c (Ts ! j) (x j) (y j) (z j)" and len: "40 \<le> len"
  shows "\<exists>t Ss. mac_inv c t \<and> prep_part t = prep_part s \<and> popen_cnt t \<le> popen_cnt s + length Ts \<and>
    sacrifice c len r Ts s = bnd (add_checks c Ss) (\<lambda>_. Check c) t \<and>
    list_all2 (sh c) Ss (map (\<lambda>j. defect (r j) (x j) (y j) (z j)) [0..<length Ts])"
proof -
  let ?k = "length Ts" and ?P = "\<lambda>j. prepare_sacrifice c (r j) (Ts ! j)" and ?v = "\<lambda>j. x j 0 * r j - x j 1"
  let ?masked = "map ?P [0..<?k]"
  have "list_all2 (sh c) (map (\<lambda>T. tr_a T ! 0) ?masked) (map ?v [0..<?k])"
    using masked_sh(1) [OF c T] by (simp add: list_all2_conv_all_nth)
  then obtain t where t: "POpen c (map (\<lambda>T. tr_a T ! 0) ?masked) s = Inr (map (\<lambda>x. x mod pr c) (map ?v [0..<?k]), t)"
    "mac_inv c t" "prep_part t = prep_part s" "popen_cnt t \<le> popen_cnt s + length (map (\<lambda>T. tr_a T ! 0) ?masked)"
    using POpen_ok [OF c s] by blast
  let ?Ss = "map2 (computeCheckShare c) ?masked (map (\<lambda>x. x mod pr c) (map ?v [0..<?k]))"
  have "list_all2 (sh c) ?Ss (map (\<lambda>j. defect (r j) (x j) (y j) (z j)) [0..<?k])"
    using masked_sh(2) [OF c T] by (simp add: list_all2_conv_all_nth)
  moreover have "sacrifice c len r Ts s = bnd (add_checks c ?Ss) (\<lambda>_. Check c) t"
    using t(1) len unfolding sacrifice_def Let_def by (simp add: bnd_def [of "POpen c _"])
  ultimately show ?thesis using t(2-4) by auto
qed

lemma sacrifice_honest:
  assumes c: "wf_field c" and s: "mac_inv c s" and T: "\<And>j. j < length Ts \<Longrightarrow> unchecked_is c (Ts ! j) (x j) (y j)" and len: "40 \<le> len"
  shows "\<exists>t. sacrifice c len r Ts s = Inr ((), t) \<and> mac_inv c t \<and> prep_part t = prep_part s"
proof -
  have T': "candidate c (Ts ! j) (x j) (y j) (\<lambda>i. x j i * y j)" if "j < length Ts" for j
    using T [OF that] by (simp add: unchecked_is_def candidate_def)
  obtain t Ss where t: "mac_inv c t" "prep_part t = prep_part s"
    "sacrifice c len r Ts s = bnd (add_checks c Ss) (\<lambda>_. Check c) t"
    "list_all2 (sh c) Ss (map (\<lambda>j. defect (r j) (x j) (y j) (\<lambda>i. x j i * y j)) [0..<length Ts])"
    using sacrifice_opens [OF c s T' len, of r] by blast
  have "\<forall>S \<in> set Ss. sh c S 0" using t(4) by (auto simp: list_all2_conv_all_nth in_set_conv_nth defect_def)
  then obtain us u where u: "add_checks c Ss t = Inr (us, u)" "mac_inv c u" "prep_part u = prep_part t"
    using add_checks_ok [OF c t(1)] by blast
  obtain v where v: "Check c u = Inr ((), v)" "mac_inv c v" "cleared u v" using Check_ok [OF c u(2)] by blast
  show ?thesis using t(2,3) u v cleared_parts [OF v(3)] by (simp add: bnd_def)
qed

lemma generate_triples_ok:
  assumes g: "gen_env_ok c g" "40 \<le> o_length (o_env g)" and G: "generator_ok c g G" and n: "0 < nTriples" and s: "mac_inv c s"
  shows "\<exists>G' Ts t. generateTriples c g nTriples G s = Inr ((G', Ts), t) \<and> mac_inv c t \<and> prep_part t = prep_part s \<and>
    generator_ok c g G' \<and> length Ts = nTriples \<and>
    (\<forall>j < nTriples. unchecked_is c (Ts ! j) (factor c g G j) (sum_b c g (drawn G) nTriples j))"
proof -
  have c: "wf_field c" using g(1) by (simp add: gen_env_ok_def)
  obtain G' Ts where u: "uncheckedTriples c g nTriples G = Inr (G', Ts)" "length Ts = nTriples" "generator_ok c g G'"
    "\<forall>j < nTriples. unchecked_is c (Ts ! j) (factor c g G j) (sum_b c g (drawn G) nTriples j)"
    using unchecked_triples_ok [OF g(1) G n] by (auto simp: generator_ok_def)
  have T: "unchecked_is c (Ts ! j) (factor c g G j) (sum_b c g (drawn G) nTriples j)" if "j < length Ts" for j
    using u(2,4) that by simp
  obtain t where "sacrifice c (o_length (o_env g)) (\<lambda>j. seed_coin g (seeds G) (2 * N_AMPLIFY * nTriples + j)) Ts s = Inr ((), t)"
    "mac_inv c t" "prep_part t = prep_part s"
    using sacrifice_honest [OF c s T g(2)] by blast
  then show ?thesis using u by (auto simp: generateTriples_def bnd_def ret_def)
qed

lemma buffered_triples:
  assumes "length Ts = n" "\<forall>j < n. unchecked_is c (Ts ! j) (x j) (y j)" "j < n"
  shows "triple_is c (buffered Ts ! j) (x j 0) (y j)"
  using assms by (simp add: buffered_def triple_is_def unchecked_is_def)


section \<open>Wrong triples\<close>

lemma mac_inv_pending:
  assumes "wf_field c" "mac_inv c s"
  shows "\<exists>x. pending_checks c s x x"
proof -
  have n: "0 < num_players c" using assms(1) by (simp add: wf_field_def num_players_def)
  define z where "z = (\<lambda>j. mc_vals s ! 0 ! j)"
  have "(\<forall>i < num_players c. mc_vals s ! i ! j = z j) \<and> (\<Sum>i<num_players c. mc_macs s ! i ! j) mod pr c = (alpha c * z j) mod pr c"
    if j: "j < popen_cnt s" for j
  proof -
    obtain x where "\<forall>i < num_players c. mc_vals s ! i ! j = x" "(\<Sum>i<num_players c. mc_macs s ! i ! j) mod pr c = (alpha c * x) mod pr c"
      using assms(2) j unfolding mac_inv_def by blast
    then show ?thesis using n by (simp add: z_def)
  qed
  then have "pending_checks c s z z" using assms(2) by (auto simp: mac_inv_def pending_checks_def)
  then show ?thesis by blast
qed

lemma AddToCheck_pending:
  assumes n: "0 < num_players c" and s: "pending_checks c s x y" and S: "sh c S w" and m: "Suc (popen_cnt s) < POPEN_MAX"
  shows "\<exists>t. AddToCheck c S v s = Inr ((), t) \<and> popen_cnt t = Suc (popen_cnt s) \<and>
    pending_checks c t (x(popen_cnt s := w)) (y(popen_cnt s := v))"
proof -
  let ?n = "num_players c" and ?k = "popen_cnt s"
  let ?t = "s\<lparr>mc_macs := map2 (\<lambda>v sec. v @ [share_mac sec]) (mc_macs s) S, mc_vals := map (\<lambda>u. u @ [v]) (mc_vals s), popen_cnt := Suc ?k\<rparr>"
  have l: "length (mc_macs s) = ?n" "length (mc_vals s) = ?n" "length S = ?n" using s S by (simp_all add: pending_checks_def sh_def)
  have old: "length (mc_vals s ! i) = ?k" "length (mc_macs s ! i) = ?k" if "i < ?n" for i using s that by (simp_all add: pending_checks_def)
  have mac: "(\<Sum>i<?n. share_mac (S ! i)) mod pr c = (alpha c * w) mod pr c"
    using S sum_list_share [of S ?n share_mac] by (simp add: sh_def)
  have fld: "in_field (pr c) (share_mac (S ! i))" if "i < ?n" for i
    using S that l(3) nth_mem [of i S] by (auto simp: sh_def share_in_field_def)
  have p: "pending_checks c ?t (x(?k := w)) (y(?k := v))"
    unfolding pending_checks_def
  proof (intro conjI allI impI)
    fix i assume i: "i < ?n"
    have vm: "mc_vals ?t ! i = mc_vals s ! i @ [v]" "mc_macs ?t ! i = mc_macs s ! i @ [share_mac (S ! i)]" using i l by simp_all
    show "length (mc_vals ?t ! i) = popen_cnt ?t" "length (mc_macs ?t ! i) = popen_cnt ?t" unfolding vm using old [OF i] by simp_all
    fix j assume j: "j < popen_cnt ?t"
    have prev: "in_field (pr c) (mc_macs s ! i ! j) \<and> mc_vals s ! i ! j = y j" if "j < ?k" using s i that by (simp add: pending_checks_def)
    show "in_field (pr c) (mc_macs ?t ! i ! j)" "mc_vals ?t ! i ! j = (y(?k := v)) j"
      unfolding vm nth_append old [OF i] using prev fld [OF i] j by auto
  next
    fix j assume j: "j < popen_cnt ?t"
    have "(\<Sum>i<?n. mc_macs ?t ! i ! j) = (\<Sum>i<?n. if j < ?k then mc_macs s ! i ! j else share_mac (S ! i))"
      by (rule sum.cong) (use l old j in \<open>auto simp: nth_append less_Suc_eq\<close>)
    then show "(\<Sum>i<?n. mc_macs ?t ! i ! j) mod pr c = (alpha c * (x(?k := w)) j) mod pr c"
      using s mac j by (cases "j < ?k") (auto simp: pending_checks_def)
  qed (use l in simp_all)
  have "waiting_for_check ?t = Suc ?k" using no_pending [OF p n] by simp
  then have "check_if_needed c ?t = Inr ((), ?t)" using m by (simp add: check_if_needed_def bnd_def gets_def ret_def)
  then have "AddToCheck c S v s = Inr ((), ?t)" by (simp add: AddToCheck_def bnd_def modify_def)
  then show ?thesis using p by (intro exI [of _ ?t]) simp
qed

lemma add_checks_pending:
  assumes "0 < num_players c" "pending_checks c s x y" "list_all2 (sh c) Ss ws" "popen_cnt s + length Ss < POPEN_MAX"
  shows "\<exists>us t x' y'. add_checks c Ss s = Inr (us, t) \<and> pending_checks c t x' y' \<and> popen_cnt t = popen_cnt s + length Ss \<and>
    (\<forall>j < popen_cnt s. x' j = x j \<and> y' j = y j) \<and> (\<forall>j < length Ss. x' (popen_cnt s + j) = ws ! j \<and> y' (popen_cnt s + j) = 0)"
  using assms(2-4)
proof (induction Ss arbitrary: s x y ws)
  case Nil
  then show ?case by (auto simp: add_checks_def ret_def)
next
  case (Cons S Ss)
  obtain w ws' where ws: "ws = w # ws'" "sh c S w" "list_all2 (sh c) Ss ws'" using Cons.prems(2) by (cases ws) auto
  let ?k = "popen_cnt s"
  obtain t where t: "AddToCheck c S 0 s = Inr ((), t)" "popen_cnt t = Suc ?k" "pending_checks c t (x(?k := w)) (y(?k := 0))"
    using AddToCheck_pending [OF assms(1) Cons.prems(1) ws(2), of 0] Cons.prems(3) by auto
  have m: "popen_cnt t + length Ss < POPEN_MAX" using Cons.prems(3) t(2) by simp
  obtain us u x' y' where u: "add_checks c Ss t = Inr (us, u)" "pending_checks c u x' y'" "popen_cnt u = Suc ?k + length Ss"
    "\<forall>j < Suc ?k. x' j = (x(?k := w)) j \<and> y' j = (y(?k := 0)) j" "\<forall>j < length Ss. x' (Suc ?k + j) = ws' ! j \<and> y' (Suc ?k + j) = 0"
    using Cons.IH [OF t(3) ws(3) m] unfolding t(2) by auto
  have old: "\<forall>j < ?k. x' j = x j \<and> y' j = y j" using u(4) by auto
  have new: "\<forall>j < length (S # Ss). x' (?k + j) = ws ! j \<and> y' (?k + j) = 0"
  proof (intro allI impI)
    fix j assume j: "j < length (S # Ss)"
    show "x' (?k + j) = ws ! j \<and> y' (?k + j) = 0"
      using u(4) u(5) [rule_format, of "j - 1"] j by (cases j) (auto simp: ws(1))
  qed
  have "add_checks c (S # Ss) s = Inr (() # us, u)" using t(1) u(1) by (simp add: add_checks_def bnd_def ret_def)
  then show ?case using u(2,3) old new by (intro exI [of _ "() # us"] exI [of _ u] exI [of _ x'] exI [of _ y']) simp
qed

text \<open>
  What the sacrifice decides, with \<open>k\<close> openings already pending and the coins of the \<open>q\<close>-th
  random combination.
\<close>

definition sacrifice_accepts :: "ctx \<Rightarrow> nat \<Rightarrow> nat \<Rightarrow> int list \<Rightarrow> bool" where
  "sacrifice_accepts c k q ds =
     (if k + length ds < 10 then \<forall>j < length ds. ds ! j mod pr c = 0
      else (\<Sum>j<length ds. mc_coin c q (k + j) * ds ! j) mod pr c = 0)"

lemma sacrifice_decides:
  assumes c: "wf_field c" "prime_int (pr c)" "alpha c mod pr c \<noteq> 0" and s: "mac_inv c s"
    and T: "\<And>j. j < length Ts \<Longrightarrow> candidate c (Ts ! j) (x j) (y j) (z j)" and len: "40 \<le> len"
    and m: "popen_cnt s + 2 * length Ts < POPEN_MAX"
  shows "\<exists>k q. k \<le> popen_cnt s + length Ts \<and>
    (if sacrifice_accepts c k q (map (\<lambda>j. defect (r j) (x j) (y j) (z j)) [0..<length Ts])
     then \<exists>u. sacrifice c len r Ts s = Inr ((), u) else sacrifice c len r Ts s = Inl Mac_fail)"
proof -
  let ?ds = "map (\<lambda>j. defect (r j) (x j) (y j) (z j)) [0..<length Ts]"
  obtain t Ss where t: "mac_inv c t" "popen_cnt t \<le> popen_cnt s + length Ts"
    "sacrifice c len r Ts s = bnd (add_checks c Ss) (\<lambda>_. Check c) t" "list_all2 (sh c) Ss ?ds"
    using sacrifice_opens [OF c(1) s T len, of r] by blast
  have l: "length Ss = length Ts" using list_all2_lengthD [OF t(4)] by simp
  obtain v where v: "pending_checks c t v v" using mac_inv_pending [OF c(1) t(1)] by blast
  have n: "0 < num_players c" using c(1) by (simp add: wf_field_def num_players_def)
  let ?k = "popen_cnt t"
  obtain us u x' y' where u: "add_checks c Ss t = Inr (us, u)" "pending_checks c u x' y'" "popen_cnt u = ?k + length Ts"
    "\<forall>j < ?k. x' j = v j \<and> y' j = v j" "\<forall>j < length Ts. x' (?k + j) = ?ds ! j \<and> y' (?k + j) = 0"
    using add_checks_pending [OF n v t(4)] m t(2) unfolding l by auto
  have each: "(\<forall>j < ?k + length Ts. y' j mod pr c = x' j mod pr c) \<longleftrightarrow> (\<forall>j < length Ts. ?ds ! j mod pr c = 0)"
  proof (intro iffI allI impI)
    fix j assume a: "\<forall>j < ?k + length Ts. y' j mod pr c = x' j mod pr c" and j: "j < length Ts"
    have "0 mod pr c = ?ds ! j mod pr c" using a [rule_format, of "?k + j"] u(5) j by simp
    then show "?ds ! j mod pr c = 0" by (metis mod_0)
  next
    fix j assume a: "\<forall>j < length Ts. ?ds ! j mod pr c = 0" and j: "j < ?k + length Ts"
    show "y' j mod pr c = x' j mod pr c"
    proof (cases "j < ?k")
      case False
      then obtain i where "j = ?k + i" "i < length Ts" using j by (metis add_diff_inverse_nat nat_add_left_cancel_less)
      then show ?thesis using a u(5) by (metis mod_0)
    qed (use u(4) in simp)
  qed
  let ?h = "mc_coin c (mc_checks u)"
  have split: "(\<Sum>j<a + b. f j) = (\<Sum>j<a. f j) + (\<Sum>j<b. f (a + j))" for a b and f :: "nat \<Rightarrow> int"
    by (induction b) (simp_all add: add.assoc)
  have "(\<Sum>j<?k. ?h j * (y' j - x' j)) = 0" using u(4) by (intro sum.neutral) auto
  moreover have "(\<Sum>j<length Ts. ?h (?k + j) * (y' (?k + j) - x' (?k + j))) = (\<Sum>j<length Ts. - (?h (?k + j) * ?ds ! j))"
    by (rule sum.cong) (use u(5) in auto)
  ultimately have "(\<Sum>j<?k + length Ts. ?h j * (y' j - x' j)) = - (\<Sum>j<length Ts. ?h (?k + j) * ?ds ! j)"
    unfolding split sum_negf by simp
  then have comb: "(\<Sum>j<?k + length Ts. ?h j * (y' j - x' j)) mod pr c = 0 \<longleftrightarrow> (\<Sum>j<length Ts. ?h (?k + j) * ?ds ! j) mod pr c = 0"
    by (simp only: mod_eq_0_iff_dvd dvd_minus_iff)
  have "openings_valid c u x' y' \<longleftrightarrow> sacrifice_accepts c ?k (mc_checks u) ?ds"
    unfolding openings_valid_def sacrifice_accepts_def u(3) each comb by simp
  then have "sacrifice c len r Ts s = (if sacrifice_accepts c ?k (mc_checks u) ?ds then Inr ((), after_check u) else Inl Mac_fail)"
    unfolding t(3) using Check_pending [OF c u(2)] u(1) by (simp add: bnd_def)
  then show ?thesis using t(2) by (intro exI [of _ ?k] exI [of _ "mc_checks u"]) auto
qed

lemma one_coin:
  assumes "prime_int p" "defect t x y z mod p = 0" "defect t' x y z mod p = 0" "(z 0 - x 0 * y) mod p \<noteq> 0"
  shows "t mod p = t' mod p"
proof -
  have "p dvd defect t x y z - defect t' x y z" using assms(2,3) by (intro dvd_diff) (simp_all add: mod_eq_0_iff_dvd)
  moreover have "defect t x y z - defect t' x y z = (t - t') * (z 0 - x 0 * y)" by (simp add: defect_def algebra_simps)
  ultimately have m: "((t - t') * (z 0 - x 0 * y)) mod p = 0" by (simp add: mod_eq_0_iff_dvd)
  have "(t - t') mod p = 0" using prime_int_mult [OF assms(1) m] assms(4) by auto
  then show ?thesis by (simp add: mod_eq_dvd_iff mod_eq_0_iff_dvd)
qed

end
