(* ===== verification/Residues.thy ===== *)
theory Residues
  imports Prf Complex_Main
begin

text \<open>
  Squares modulo an odd prime: a polynomial has no more roots than its degree, Fermat's little
  theorem and Euler's criterion, which the square roots of \<open>Math/bigint.cpp\<close> rest on.
\<close>

section \<open>Residues\<close>

definition units :: "int \<Rightarrow> int set" where
  "units p = {1..<p}"

lemma units_mod: "1 < p \<Longrightarrow> x mod p \<in> units p \<longleftrightarrow> x mod p \<noteq> 0"
  using pos_mod_bound [of p x] pos_mod_sign [of p x] by (auto simp: units_def simp del: pos_mod_sign pos_mod_bound)

lemma cong_iff: "x mod p = y mod p \<longleftrightarrow> (x - y) mod p = (0 :: int)"
  by (simp add: mod_eq_dvd_iff dvd_eq_mod_eq_0)

lemma prime_factor: "prime_int p \<Longrightarrow> (x * y) mod p = 0 \<Longrightarrow> x mod p \<noteq> 0 \<Longrightarrow> y mod p = 0"
  by (drule (1) prime_int_mult) simp

lemma prime_times: "prime_int p \<Longrightarrow> x mod p \<noteq> 0 \<Longrightarrow> y mod p \<noteq> 0 \<Longrightarrow> (x * y) mod p \<noteq> 0"
  by (metis prime_factor)

lemma prime_cancel:
  assumes "prime_int p" "(k * x) mod p = (k * y) mod p" "k mod p \<noteq> 0"
  shows "x mod p = y mod p"
proof -
  have "(k * (x - y)) mod p = 0" using assms(2) unfolding cong_iff [of "k * x"] by (simp add: right_diff_distrib)
  then show ?thesis unfolding cong_iff [of x] by (rule prime_factor [OF assms(1) _ assms(3)])
qed

lemma prime_prod:
  assumes "prime_int p" "finite A" "\<And>x. x \<in> A \<Longrightarrow> f x mod p \<noteq> 0"
  shows "(\<Prod>x\<in>A. f x) mod p \<noteq> (0 :: int)"
  using assms(2,3)
proof (induction A)
  case empty
  then show ?case using assms(1) by (simp add: prime_int_def)
next
  case (insert a A)
  then show ?case using prime_int_mult [OF assms(1), of "f a" "\<Prod>x\<in>A. f x"] by auto
qed

lemma prime_power_nonzero: "prime_int p \<Longrightarrow> x mod p \<noteq> 0 \<Longrightarrow> (x ^ k) mod p \<noteq> 0"
  using prime_prod [of p "{..<k}" "\<lambda>_. x"] by simp

section \<open>Roots of polynomials\<close>

lemma roots_bound:
  assumes p: "prime_int p"
  shows "a n mod p \<noteq> 0 \<Longrightarrow> R \<subseteq> {0..<p} \<Longrightarrow> \<forall>x\<in>R. (\<Sum>i\<le>n. a i * x ^ i) mod p = 0 \<Longrightarrow> card R \<le> n"
proof (induction n arbitrary: a R)
  case 0
  then have "R = {}" by auto
  then show ?case by simp
next
  case (Suc n)
  show ?case
  proof (cases "R = {}")
    case False
    then obtain r where r: "r \<in> R" by blast
    define b where "b j = (\<Sum>i = Suc j..Suc n. a i * r ^ (i - j - 1))" for j
    have "(\<Sum>j\<le>n. b j * x ^ j) mod p = 0" if "x \<in> R - {r}" for x
    proof -
      have "(\<Sum>i\<le>Suc n. a i * x ^ i) - (\<Sum>i\<le>Suc n. a i * r ^ i) = (x - r) * (\<Sum>j\<le>n. b j * x ^ j)"
        using polyfun_diff [of "Suc n" a x r] by (simp add: b_def lessThan_Suc_atMost)
      moreover have "((\<Sum>i\<le>Suc n. a i * x ^ i) - (\<Sum>i\<le>Suc n. a i * r ^ i)) mod p = 0"
        using Suc.prems(3) r that by (intro iffD1 [OF cong_iff]) auto
      ultimately have "((x - r) * (\<Sum>j\<le>n. b j * x ^ j)) mod p = 0" by simp
      moreover have "(x - r) mod p \<noteq> 0"
        using Suc.prems(2) r that unfolding cong_iff [symmetric] by (auto simp: subset_iff)
      ultimately show ?thesis by (rule prime_factor [OF p])
    qed
    moreover have "b n mod p \<noteq> 0" using Suc.prems(1) by (simp add: b_def)
    ultimately have "card (R - {r}) \<le> n" using Suc.prems(2) by (intro Suc.IH [of b]) auto
    moreover have "finite R" using Suc.prems(2) finite_subset by blast
    ultimately show ?thesis using r by (simp add: card_Diff_singleton)
  qed simp
qed

lemma power_roots_bound:
  assumes p: "prime_int p" and h: "0 < h" and R: "R \<subseteq> {0..<p}" "\<forall>x\<in>R. x ^ h mod p = 1"
  shows "card R \<le> h"
proof -
  let ?a = "\<lambda>i. if i = h then 1 else if i = 0 then - 1 else 0 :: int"
  have a: "?a h mod p \<noteq> 0" using p by (simp add: prime_int_def)
  have s: "(\<Sum>i\<le>h. ?a i * x ^ i) = x ^ h - 1" for x
  proof -
    have "(\<Sum>i\<le>h. ?a i * x ^ i) = (\<Sum>i\<in>{0, h}. ?a i * x ^ i)"
      by (rule sum.mono_neutral_right) (use h in auto)
    then show ?thesis using h by simp
  qed
  have "1 mod p = 1" using p by (simp add: prime_int_def)
  then have "\<forall>x\<in>R. (\<Sum>i\<le>h. ?a i * x ^ i) mod p = 0"
    unfolding s using R(2) by (simp add: cong_iff [symmetric])
  then show ?thesis by (rule roots_bound [where a = ?a, OF p a R(1)])
qed

section \<open>Fermat and Euler\<close>

lemma multiples_permute:
  assumes p: "prime_int p" and x: "x mod p \<noteq> 0"
  shows "bij_betw (\<lambda>k. (k * x) mod p) (units p) (units p)"
proof -
  have p1: "1 < p" using p by (simp add: prime_int_def)
  have inj: "inj_on (\<lambda>k. (k * x) mod p) (units p)"
  proof (rule inj_onI)
    fix k l assume k: "k \<in> units p" "l \<in> units p" "(k * x) mod p = (l * x) mod p"
    then have "k mod p = l mod p" using prime_cancel [OF p, of x k l] x by (simp add: mult.commute)
    then show "k = l" using k by (simp add: units_def)
  qed
  have "(k * x) mod p \<in> units p" if "k \<in> units p" for k
  proof -
    have "k mod p \<noteq> 0" using that by (simp add: units_def)
    then show ?thesis unfolding units_mod [OF p1] by (rule prime_times [OF p _ x])
  qed
  then have "(\<lambda>k. (k * x) mod p) ` units p \<subseteq> units p" by blast
  then have "(\<lambda>k. (k * x) mod p) ` units p = units p"
    using inj by (intro endo_inj_surj) (simp_all add: units_def)
  then show ?thesis using inj by (simp add: bij_betw_def)
qed

lemma fermat:
  assumes p: "prime_int p" and x: "x mod p \<noteq> 0"
  shows "x ^ nat (p - 1) mod p = 1"
proof -
  have p1: "1 < p" using p by (simp add: prime_int_def)
  let ?P = "\<Prod>k\<in>units p. k"
  have e: "(\<Prod>k\<in>units p. (k * x) mod p) = ?P"
    using prod.reindex_bij_betw [OF multiples_permute [OF p x], of "\<lambda>k. k"] by simp
  have "(\<Prod>k\<in>units p. k * x) = ?P * (\<Prod>k\<in>units p. x)" by (rule prod.distrib)
  also have "(\<Prod>k\<in>units p. x) = x ^ nat (p - 1)" unfolding prod_constant units_def card_atLeastLessThan_int by simp
  finally have "(\<Prod>k\<in>units p. k * x) = ?P * x ^ nat (p - 1)" .
  moreover have "(\<Prod>k\<in>units p. k * x) mod p = ?P mod p"
    using mod_prod_eq [of "\<lambda>k. k * x" p "units p"] unfolding e by (rule sym)
  ultimately have "(?P * x ^ nat (p - 1)) mod p = (?P * 1) mod p" by (simp only: mult_1_right)
  moreover have "?P mod p \<noteq> 0" by (rule prime_prod [OF p]) (simp_all add: units_def)
  ultimately have "x ^ nat (p - 1) mod p = 1 mod p" by (rule prime_cancel [OF p])
  then show ?thesis using p1 by simp
qed

definition half :: "int \<Rightarrow> nat" where
  "half p = nat ((p - 1) div 2)"

lemma half_double: "odd p \<Longrightarrow> 1 < p \<Longrightarrow> nat (p - 1) = 2 * half p \<and> 0 < half p \<and> int (half p) < p"
  by (auto simp: half_def elim!: oddE)

lemma square_halves:
  assumes p: "prime_int p" and xy: "0 < x" "x < p" "0 < y" "x + y < p" "x * x mod p = y * y mod p"
  shows "x = y"
proof -
  have "((x + y) * (x - y)) mod p = 0" using xy(5) unfolding cong_iff [of "x * x"] by (simp add: algebra_simps)
  moreover have "(x + y) mod p \<noteq> 0" using xy by simp
  ultimately have "x mod p = y mod p" unfolding cong_iff [of x] by (rule prime_factor [OF p])
  then show ?thesis using xy by simp
qed

lemma euler_square:
  assumes p: "prime_int p" "odd p" and x: "x mod p \<noteq> 0" "is_square_mod x p"
  shows "x ^ half p mod p = 1"
proof -
  obtain y where y: "(y * y) mod p = x mod p" using x(2) by (auto simp: is_square_mod_def)
  have "y mod p \<noteq> 0"
  proof
    assume "y mod p = 0"
    then have "(y * y) mod p = 0" by (simp add: mod_eq_0_iff_dvd)
    then show False using x(1) y by simp
  qed
  moreover have "x ^ half p mod p = (y * y) ^ half p mod p"
    using power_mod [of x p "half p"] power_mod [of "y * y" p "half p"] y by simp
  moreover have "(y * y) ^ half p = y ^ nat (p - 1)"
    using half_double [of p] p by (simp add: prime_int_def power_mult power2_eq_square)
  ultimately show ?thesis using fermat [OF p(1)] by simp
qed

lemma euler_nonsquare:
  assumes p: "prime_int p" "odd p" and x: "x mod p \<noteq> 0" "\<not> is_square_mod x p"
  shows "x ^ half p mod p = p - 1"
proof -
  have p1: "1 < p" using p by (simp add: prime_int_def)
  define S where "S = (\<lambda>i. (i * i) mod p) ` {1..int (half p)}"
  have b: "2 * int (half p) < p" using half_double [OF p(2) p1] by linarith
  have "inj_on (\<lambda>i. (i * i) mod p) {1..int (half p)}"
  proof (rule inj_onI)
    fix i j assume "i \<in> {1..int (half p)}" "j \<in> {1..int (half p)}" and e: "(i * i) mod p = (j * j) mod p"
    then have "0 < i" "i < p" "0 < j" "i + j < p" using b by simp_all
    then show "i = j" using e by (rule square_halves [OF p(1)])
  qed
  then have card: "card S = half p" by (simp add: S_def card_image)
  have roots: "\<forall>s\<in>S. s ^ half p mod p = 1"
  proof
    fix s assume "s \<in> S"
    then obtain i where i: "1 \<le> i" "i \<le> int (half p)" "s = (i * i) mod p" by (auto simp: S_def)
    then have "i mod p \<noteq> 0" using half_double [OF p(2) p1] by simp
    then have "s mod p \<noteq> 0" using prime_times [OF p(1), of i i] i(3) by simp
    moreover have "is_square_mod s p" using i(3) by (auto simp: is_square_mod_def)
    ultimately show "s ^ half p mod p = 1" by (rule euler_square [OF p])
  qed
  have sub: "insert (x mod p) S \<subseteq> {0..<p}" using p1 by (auto simp: S_def)
  have "x mod p \<notin> S" using x(2) by (auto simp: S_def is_square_mod_def)
  then have c: "card (insert (x mod p) S) = Suc (half p)" using card by (simp add: S_def)
  have no: "x ^ half p mod p \<noteq> 1"
  proof
    assume "x ^ half p mod p = 1"
    then have "\<forall>s\<in>insert (x mod p) S. s ^ half p mod p = 1" using roots by (simp add: power_mod)
    then have "card (insert (x mod p) S) \<le> half p"
      using half_double [OF p(2) p1] by (intro power_roots_bound [OF p(1) _ sub]) auto
    then show False using c by simp
  qed
  have "(x ^ half p - 1) * (x ^ half p + 1) = x ^ nat (p - 1) - 1"
    using half_double [OF p(2) p1] by (simp add: ring_distribs power_add [symmetric] mult_2)
  moreover have "x ^ nat (p - 1) mod p = 1 mod p" using fermat [OF p(1) x(1)] p1 by simp
  ultimately have "((x ^ half p - 1) * (x ^ half p + 1)) mod p = 0" by (simp only: cong_iff [of "x ^ nat (p - 1)"])
  moreover have "(x ^ half p - 1) mod p \<noteq> 0" using no p1 cong_iff [of "x ^ half p" p 1] by simp
  ultimately have "(x ^ half p + 1) mod p = 0" by (rule prime_factor [OF p(1)])
  then have "(x ^ half p - (- 1)) mod p = 0" by simp
  then have "x ^ half p mod p = (- 1) mod p" unfolding cong_iff [of "x ^ half p"] .
  also have "\<dots> = p - 1" using p1 by (simp add: zmod_minus1)
  finally show ?thesis .
qed

end
