(* ===== verification/Sqrt.thy ===== *)
theory Sqrt
  imports Residues
begin

text \<open>
  Square roots modulo a prime: \<open>sqrRootMod\<close> of \<open>Math/bigint.cpp\<close> (with Shanks' algorithm) and
  \<open>gfp_::sqrRoot\<close> of \<open>Math/gfp.hpp\<close>. Loops that need not end are partial functions: \<open>None\<close> is a
  run that does not return. GMP's modular power, its Legendre symbol and its generator of random
  numbers are parameters; the generator is a stream, read from a position on.
\<close>

section \<open>The algorithm\<close>

record sqrt_lib =
  mpz_powm :: "int \<Rightarrow> int \<Rightarrow> int \<Rightarrow> int"
  mpz_legendre :: "int \<Rightarrow> int \<Rightarrow> int"
  z_range :: "int \<Rightarrow> nat \<Rightarrow> int"

text \<open>Draws numbers until one is not a square.\<close>

partial_function (option) find_nonresidue :: "sqrt_lib \<Rightarrow> int \<Rightarrow> nat \<Rightarrow> (int \<times> nat) option" where
  "find_nonresidue L p k =
     (if mpz_legendre L (z_range L p k) p \<noteq> - 1 then find_nonresidue L p (Suc k) else Some (z_range L p k, Suc k))"

text \<open>Splits \<open>p - 1\<close> into a power of two and an odd factor.\<close>

partial_function (option) split_even :: "int \<Rightarrow> int \<Rightarrow> (int \<times> int) option" where
  "split_even q e = (if even q then split_even (q div 2) (e + 1) else Some (q, e))"

text \<open>The smallest \<open>m \<ge> 1\<close> with \<open>b ^ (2 ^ m) = 1\<close>; \<open>temp\<close> holds the current power.\<close>

partial_function (option) order_two :: "int \<Rightarrow> int \<Rightarrow> int \<Rightarrow> int option" where
  "order_two p temp m = (if temp \<noteq> 1 then order_two p (tdiv_r (temp * temp) p) (m + 1) else Some m)"

fun square_times :: "int \<Rightarrow> nat \<Rightarrow> int \<Rightarrow> int" where
  "square_times p 0 t = t"
| "square_times p (Suc k) t = square_times p k (tdiv_r (t * t) p)"

partial_function (option) shanks :: "int \<Rightarrow> int \<Rightarrow> int \<Rightarrow> int \<Rightarrow> int \<Rightarrow> int option" where
  "shanks p x y b r =
     (if b \<noteq> 1 then
        Option.bind (order_two p (tdiv_r (b * b) p) 1) (\<lambda>m.
          shanks p (tdiv_r (x * square_times p (nat (r - m - 1)) y) p)
            (tdiv_r (square_times p (nat (r - m - 1)) y * square_times p (nat (r - m - 1)) y) p)
            (tdiv_r (b * tdiv_r (square_times p (nat (r - m - 1)) y * square_times p (nat (r - m - 1)) y) p) p) m)
      else Some x)"

definition shanks_root :: "sqrt_lib \<Rightarrow> int \<Rightarrow> nat \<Rightarrow> int \<Rightarrow> (int \<times> nat) option" where
  "shanks_root L p k a =
     Option.bind (find_nonresidue L p k) (\<lambda>(n, k').
     Option.bind (split_even (p - 1) 0) (\<lambda>(q, e).
     let y = mpz_powm L n q p; x = mpz_powm L a ((q - 1) div 2) p in
     Option.bind (shanks p (tdiv_r (a * x) p) y (tdiv_r (a * x * x) p) e) (\<lambda>ans. Some (ans, k'))))"

definition sqrRootMod :: "sqrt_lib \<Rightarrow> int \<Rightarrow> nat \<Rightarrow> int \<Rightarrow> (err + int \<times> nat) option" where
  "sqrRootMod L p k a =
     (if a = 0 then Some (Inr (0, k))
      else if mpz_legendre L a p \<noteq> 1 then Some (Inl (Runtime_error ''cannot compute square root of non-square''))
      else if (p div 2) mod 2 = 1 then Some (Inr (mpz_powm L a ((p + 1) div 4) p, k))
      else map_option Inr (shanks_root L p k a))"

text \<open>\<open>gfp_::sqrRoot\<close>: of the two roots, the odd one.\<close>

definition sqrRoot :: "sqrt_lib \<Rightarrow> int \<Rightarrow> nat \<Rightarrow> int \<Rightarrow> (err + int \<times> nat) option" where
  "sqrRoot L p k a =
     map_option (\<lambda>r. case r of Inl e \<Rightarrow> Inl e
       | Inr (ti, k') \<Rightarrow> Inr (to_gfp p (if odd ti then ti else p - ti), k')) (sqrRootMod L p k a)"

section \<open>Assumptions\<close>

definition sqrt_ok :: "sqrt_lib \<Rightarrow> int \<Rightarrow> bool" where
  "sqrt_ok L p \<longleftrightarrow>
     (\<forall>b e. 0 \<le> e \<longrightarrow> mpz_powm L b e p = b ^ nat e mod p) \<and> (\<forall>k. in_field p (z_range L p k)) \<and>
     (\<forall>a. mpz_legendre L a p = (if a mod p = 0 then 0 else if is_square_mod a p then 1 else - 1))"

text \<open>The generator does not draw squares for ever.\<close>

definition fair_range :: "sqrt_lib \<Rightarrow> int \<Rightarrow> bool" where
  "fair_range L p \<longleftrightarrow> (\<forall>k. \<exists>j\<ge>k. mpz_legendre L (z_range L p j) p = - 1)"

section \<open>The loops\<close>

lemma tdiv_r_mod [simp]: "0 < p \<Longrightarrow> 0 \<le> x \<Longrightarrow> tdiv_r x p = x mod p"
  by (cases "x = 0") (auto simp: tdiv_r_def)

lemma find_nonresidue_ends:
  "mpz_legendre L (z_range L p j) p = - 1 \<Longrightarrow> k \<le> j \<Longrightarrow>
   \<exists>i. find_nonresidue L p k = Some (z_range L p i, Suc i) \<and> mpz_legendre L (z_range L p i) p = - 1"
proof (induction "j - k" arbitrary: k)
  case 0
  then show ?case by (subst find_nonresidue.simps) auto
next
  case (Suc d)
  show ?case
  proof (cases "mpz_legendre L (z_range L p k) p = - 1")
    case True
    then show ?thesis by (subst find_nonresidue.simps) auto
  next
    case False
    have "d = j - Suc k" "Suc k \<le> j" using Suc.hyps(2) by simp_all
    then obtain i where "find_nonresidue L p (Suc k) = Some (z_range L p i, Suc i)" "mpz_legendre L (z_range L p i) p = - 1"
      using Suc.hyps(1) Suc.prems(1) by blast
    then show ?thesis using False by (subst find_nonresidue.simps) auto
  qed
qed

lemma split_even_value:
  "0 < q \<Longrightarrow> \<exists>d k. split_even q e = Some (d, e + int k) \<and> odd d \<and> 0 < d \<and> q = d * 2 ^ k"
proof (induction "nat q" arbitrary: q e rule: less_induct)
  case less
  show ?case
  proof (cases "even q")
    case True
    have h: "0 < q div 2" using True less.prems by presburger
    moreover have "nat (q div 2) < nat q" using less.prems by simp
    ultimately obtain d k where d: "split_even (q div 2) (e + 1) = Some (d, e + 1 + int k)" "odd d" "0 < d" "q div 2 = d * 2 ^ k"
      using less.hyps by blast
    have "q = d * 2 ^ Suc k" using True d(4) by auto
    moreover have "split_even q e = Some (d, e + int (Suc k))" using True d(1) by (subst split_even.simps) simp
    ultimately show ?thesis using d(2,3) by blast
  next
    case False
    then have "split_even q e = Some (q, e + int 0) \<and> odd q \<and> 0 < q \<and> q = q * 2 ^ 0"
      using less.prems by (subst split_even.simps) simp
    then show ?thesis by blast
  qed
qed

lemma square_times_value: "0 < p \<Longrightarrow> in_field p t \<Longrightarrow> square_times p k t = t ^ (2 ^ k) mod p"
proof (induction k arbitrary: t)
  case 0
  then show ?case by (simp add: in_field_def)
next
  case (Suc k)
  have "square_times p (Suc k) t = ((t * t) mod p) ^ (2 ^ k) mod p"
    using Suc.prems Suc.IH [of "(t * t) mod p"] by (simp add: in_field_def)
  also have "\<dots> = t ^ (2 ^ Suc k) mod p" by (simp add: power_mod power_mult power2_eq_square)
  finally show ?case .
qed

lemma order_two_least:
  assumes p: "1 < p" and fin: "b ^ (2 ^ M) mod p = 1" and m: "m \<le> M" "1 \<le> m" and least: "b ^ (2 ^ (m - 1)) mod p \<noteq> 1"
  shows "\<exists>k. order_two p (b ^ (2 ^ m) mod p) (int m) = Some (int k) \<and> 1 \<le> k \<and> k \<le> M \<and>
    b ^ (2 ^ k) mod p = 1 \<and> b ^ (2 ^ (k - 1)) mod p \<noteq> 1"
  using m least
proof (induction "M - m" arbitrary: m)
  case 0
  then have "m = M" by simp
  then show ?case using fin 0 by (subst order_two.simps) auto
next
  case (Suc d)
  show ?case
  proof (cases "b ^ (2 ^ m) mod p = 1")
    case True
    then show ?thesis using Suc.prems by (subst order_two.simps) auto
  next
    case False
    have s: "tdiv_r (b ^ (2 ^ m) mod p * (b ^ (2 ^ m) mod p)) p = b ^ (2 ^ Suc m) mod p"
      using p by (simp add: mod_mult_eq power_mult power2_eq_square mult.commute [of 2])
    have h: "d = M - Suc m" "Suc m \<le> M" "1 \<le> Suc m" "b ^ (2 ^ (Suc m - 1)) mod p \<noteq> 1" using Suc.hyps(2) False by simp_all
    obtain k where k: "order_two p (b ^ (2 ^ Suc m) mod p) (int (Suc m)) = Some (int k)" "1 \<le> k" "k \<le> M"
      "b ^ (2 ^ k) mod p = 1" "b ^ (2 ^ (k - 1)) mod p \<noteq> 1"
      using Suc.hyps(1) [OF h] by blast
    have "order_two p (b ^ (2 ^ m) mod p) (int m) = Some (int k)"
      using False k(1) unfolding s [symmetric] by (subst order_two.simps) (simp add: add.commute)
    then show ?thesis using k by blast
  qed
qed

text \<open>The power \<open>- 1\<close> of the lower half of a square root of one.\<close>

lemma minus_one_root:
  assumes p: "prime_int p" and z: "(z * z) mod p = 1" "z mod p \<noteq> 1"
  shows "z mod p = p - 1"
proof -
  have p1: "1 < p" using p by (simp add: prime_int_def)
  have "(z * z) mod p = 1 mod p" using z(1) p1 by simp
  then have "((z - 1) * (z + 1)) mod p = 0" unfolding cong_iff [of "z * z"] by (simp add: algebra_simps)
  moreover have "(z - 1) mod p \<noteq> 0" using z(2) p1 unfolding cong_iff [symmetric] by simp
  ultimately have "(z + 1) mod p = 0" by (rule prime_factor [OF p])
  then have "(z - (- 1)) mod p = 0" by simp
  then have "z mod p = (- 1) mod p" by (simp only: cong_iff)
  also have "\<dots> = p - 1" using p1 by (simp add: zmod_minus1)
  finally show ?thesis .
qed

lemma minus_one_square: "1 < p \<Longrightarrow> x mod p = p - 1 \<Longrightarrow> y mod p = p - 1 \<Longrightarrow> (x * y) mod p = (1 :: int)"
proof -
  assume p: "1 < p" and e: "x mod p = p - 1" "y mod p = p - 1"
  have "x mod p = (- 1) mod p" "y mod p = (- 1) mod p" using p e by (simp_all add: zmod_minus1)
  then have "(x * y) mod p = ((- 1) * (- 1)) mod p" by (rule mod_mult_cong)
  then show ?thesis using p by simp
qed

text \<open>The loop keeps \<open>x\<^sup>2 = a b\<close>, and the order of \<open>b\<close> falls below that of \<open>y\<close>.\<close>

definition shanks_inv :: "int \<Rightarrow> int \<Rightarrow> int \<Rightarrow> int \<Rightarrow> int \<Rightarrow> nat \<Rightarrow> bool" where
  "shanks_inv p a x y b r \<longleftrightarrow> 0 < r \<and> in_field p x \<and> in_field p y \<and> in_field p b \<and> (x * x) mod p = (a * b) mod p \<and>
     y ^ (2 ^ (r - 1)) mod p = p - 1 \<and> b ^ (2 ^ (r - 1)) mod p = 1"

lemma power_two_split: "k < r \<Longrightarrow> (x ^ (2 ^ (r - k - 1))) ^ (2 ^ k) = (x :: int) ^ (2 ^ (r - 1))"
  by (simp add: power_mult [symmetric] power_add [symmetric])

lemma shanks_step:
  assumes p: "prime_int p" and I: "shanks_inv p a x y b r" and b: "b \<noteq> 1"
    and m: "1 \<le> m" "m < r" "b ^ (2 ^ m) mod p = 1" "b ^ (2 ^ (m - 1)) mod p \<noteq> 1"
  defines "t \<equiv> y ^ (2 ^ (r - m - 1)) mod p"
  shows "shanks_inv p a ((x * t) mod p) ((t * t) mod p) ((b * ((t * t) mod p)) mod p) m"
proof -
  have p1: "1 < p" using p by (simp add: prime_int_def)
  note i = I [unfolded shanks_inv_def]
  have xx: "(x * x) mod p = (a * b) mod p" using i by (elim conjE)
  have tt: "(t * t) mod p = (y ^ (2 ^ (r - m - 1)) * y ^ (2 ^ (r - m - 1))) mod p"
    unfolding t_def by (rule mod_mult_eq)
  have e: "r - (m - 1) - 1 = Suc (r - m - 1)" using m(1,2) by simp
  have "((t * t) mod p) ^ (2 ^ (m - 1)) mod p = (y ^ (2 ^ (r - (m - 1) - 1))) ^ (2 ^ (m - 1)) mod p"
    unfolding tt e power_mod by (simp add: power_mult power2_eq_square mult.commute [of 2])
  also have "\<dots> = p - 1" using power_two_split [of "m - 1" r y] m(2) i by simp
  finally have y: "((t * t) mod p) ^ (2 ^ (m - 1)) mod p = p - 1" .
  have half: "b ^ (2 ^ (m - 1)) * b ^ (2 ^ (m - 1)) = b ^ (2 ^ m)"
    using m(1) by (cases m) (simp_all add: power_add [symmetric] mult_2)
  have "b ^ (2 ^ (m - 1)) mod p = p - 1"
    by (rule minus_one_root [OF p _ m(4)]) (simp only: half m(3))
  from minus_one_square [OF p1 this y]
  have b': "((b * ((t * t) mod p)) mod p) ^ (2 ^ (m - 1)) mod p = 1"
    by (simp only: power_mod power_mult_distrib)
  have "(x * t * (x * t)) mod p = ((x * x) * (t * t)) mod p" by (simp add: mult_ac)
  also have "\<dots> = ((a * b) * (t * t)) mod p" by (rule mod_mult_cong [OF xx refl])
  also have "\<dots> = (a * (b * (t * t))) mod p" by (simp add: mult_ac)
  finally have "((x * t) mod p * ((x * t) mod p)) mod p = (a * ((b * ((t * t) mod p)) mod p)) mod p"
    by (simp only: mod_mult_left_eq mod_mult_right_eq)
  then show ?thesis using m(1) p1 y b' by (simp add: shanks_inv_def in_field_def)
qed

lemma shanks_returns:
  assumes p: "prime_int p"
  shows "shanks_inv p a x y b r \<Longrightarrow> \<exists>z. shanks p x y b (int r) = Some z \<and> in_field p z \<and> (z * z) mod p = a mod p"
proof (induction r arbitrary: x y b rule: less_induct)
  case (less r)
  have p1: "1 < p" using p by (simp add: prime_int_def)
  note i = less.prems [unfolded shanks_inv_def]
  show ?case
  proof (cases "b = 1")
    case True
    from i True have "(x * x) mod p = a mod p" by (metis mult_1_right)
    then show ?thesis using i True by (subst shanks.simps) simp
  next
    case False
    have r: "1 \<le> r - 1"
    proof (rule ccontr)
      assume "\<not> 1 \<le> r - 1"
      then have "b mod p = 1" using i by simp
      then show False using False i by (simp add: in_field_def)
    qed
    have b0: "b ^ (2 ^ (1 - 1)) mod p \<noteq> 1" using False i by (simp add: in_field_def)
    obtain m where m: "order_two p (b ^ (2 ^ 1) mod p) (int 1) = Some (int m)" "1 \<le> m" "m \<le> r - 1"
      "b ^ (2 ^ m) mod p = 1" "b ^ (2 ^ (m - 1)) mod p \<noteq> 1"
      using order_two_least [OF p1 _ r _ b0] i by blast
    have mr: "m < r" using m(3) r by simp
    define t where "t = y ^ (2 ^ (r - m - 1)) mod p"
    have "square_times p (nat (int r - int m - 1)) y = t"
      using square_times_value [of p y] p1 i mr unfolding t_def by (simp add: nat_diff_distrib' of_nat_diff)
    moreover have "order_two p (tdiv_r (b * b) p) 1 = Some (int m)" using m(1) i p1 by (simp add: power2_eq_square in_field_def)
    moreover have "0 \<le> t" "0 \<le> x" "0 \<le> b" using p1 i by (simp_all add: t_def in_field_def)
    ultimately have s: "shanks p x y b (int r) =
        shanks p ((x * t) mod p) ((t * t) mod p) ((b * ((t * t) mod p)) mod p) (int m)"
      using False p1 by (subst shanks.simps) simp
    show ?thesis unfolding s
      using shanks_step [OF p less.prems False m(2) mr m(4,5)] by (intro less.IH [OF mr]) (simp add: t_def)
  qed
qed

section \<open>The roots\<close>

lemma shanks_root_value:
  assumes p: "prime_int p" "odd p" and L: "sqrt_ok L p" "fair_range L p" and a: "in_field p a" "a \<noteq> 0" "is_square_mod a p"
  shows "\<exists>z k'. shanks_root L p k a = Some (z, k') \<and> in_field p z \<and> (z * z) mod p = a"
proof -
  have p1: "1 < p" using p by (simp add: prime_int_def)
  obtain j where "j \<ge> k" "mpz_legendre L (z_range L p j) p = - 1" using L(2) by (auto simp: fair_range_def)
  then obtain i where n: "find_nonresidue L p k = Some (z_range L p i, Suc i)" "mpz_legendre L (z_range L p i) p = - 1"
    using find_nonresidue_ends by blast
  obtain d e where q: "split_even (p - 1) 0 = Some (d, int e)" "odd d" "0 < d" "p - 1 = d * 2 ^ e"
    using split_even_value [of "p - 1" 0] p1 by auto
  have e: "0 < e" using p(2) q(2,4) by (cases e) auto
  have "half p = nat (d * 2 ^ (e - 1))" using e q(4) by (cases e) (simp_all add: half_def)
  then have h: "half p = nat d * 2 ^ (e - 1)" using q(3) by (simp add: nat_mult_distrib nat_power_eq)
  define n where "n = z_range L p i"
  have n': "n mod p \<noteq> 0" "\<not> is_square_mod n p" using n(2) L(1) by (auto simp: sqrt_ok_def n_def split: if_splits)
  have y: "mpz_powm L n d p = n ^ nat d mod p" and x: "mpz_powm L a ((d - 1) div 2) p = a ^ nat ((d - 1) div 2) mod p"
    using L(1) q(3) by (simp_all add: sqrt_ok_def)
  define u where "u = a ^ nat ((d - 1) div 2) mod p"
  have dd: "nat d = Suc (nat ((d - 1) div 2) + nat ((d - 1) div 2))" using q(2,3) by (auto elim!: oddE)
  have "(a * u * u) mod p = (a * (a ^ nat ((d - 1) div 2) * a ^ nat ((d - 1) div 2))) mod p"
    unfolding u_def mult.assoc by (metis mod_mult_eq mod_mult_right_eq)
  then have b: "(a * u * u) mod p = a ^ nat d mod p" unfolding dd by (simp add: power_add)
  have "a mod p \<noteq> 0" using a by (simp add: in_field_def)
  then have ah: "(a ^ nat d mod p) ^ (2 ^ (e - 1)) mod p = 1"
    using euler_square [OF p _ a(3)] by (simp add: power_mod h power_mult)
  have nh: "(n ^ nat d mod p) ^ (2 ^ (e - 1)) mod p = p - 1"
    using euler_nonsquare [OF p n'] by (simp add: power_mod h power_mult)
  have u0: "0 \<le> u" using p1 by (simp add: u_def)
  have "((a * u) mod p * ((a * u) mod p)) mod p = (a * ((a * u * u) mod p)) mod p"
    unfolding mod_mult_left_eq mod_mult_right_eq by (simp only: mult_ac)
  then have I: "shanks_inv p a ((a * u) mod p) (n ^ nat d mod p) ((a * u * u) mod p) e"
    using e p1 ah nh by (simp add: shanks_inv_def in_field_def b)
  obtain z where z: "shanks p ((a * u) mod p) (n ^ nat d mod p) ((a * u * u) mod p) (int e) = Some z" "in_field p z"
    "(z * z) mod p = a mod p" using shanks_returns [OF p(1) I] by blast
  have "shanks_root L p k a = Some (z, Suc i)"
    using n(1) q(1) z(1) y x a(1) u0 p1 by (simp add: shanks_root_def Let_def n_def [symmetric] u_def [symmetric] in_field_def)
  then show ?thesis using z(2,3) a(1) by (simp add: in_field_def)
qed

lemma sqrRootMod_value:
  assumes p: "prime_int p" "odd p" and L: "sqrt_ok L p" "fair_range L p" and a: "in_field p a"
  shows "if is_square_mod a p then \<exists>z k'. sqrRootMod L p k a = Some (Inr (z, k')) \<and> in_field p z \<and> (z * z) mod p = a
    else sqrRootMod L p k a = Some (Inl (Runtime_error ''cannot compute square root of non-square''))"
proof -
  have p1: "1 < p" using p by (simp add: prime_int_def)
  have z: "is_square_mod 0 p" by (auto simp: is_square_mod_def intro: exI [of _ 0])
  have a': "a mod p = a" using a by (simp add: in_field_def)
  show ?thesis
  proof (cases "a \<noteq> 0 \<and> is_square_mod a p")
    case False
    then show ?thesis using L(1) a a' z by (auto simp: sqrRootMod_def sqrt_ok_def in_field_def)
  next
    case True
    then have leg: "mpz_legendre L a p = 1" using L(1) a' by (simp add: sqrt_ok_def)
    have eu: "a ^ half p mod p = 1" by (rule euler_square [OF p]) (use True a' in auto)
    show ?thesis
    proof (cases "(p div 2) mod 2 = 1")
      case three: True
      have "p mod 4 = 3" using three p(2) by presburger
      then obtain d where "p = 4 * d + 3" "0 \<le> d" using p1 by (metis mult.commute div_mod_decomp_int pos_imp_zdiv_nonneg_iff zero_less_numeral less_imp_le le_less_trans zero_le_one)
      then have e: "nat ((p + 1) div 4) + nat ((p + 1) div 4) = Suc (half p)" "0 \<le> (p + 1) div 4"
        by (simp_all add: half_def)
      have "(a ^ nat ((p + 1) div 4) mod p * (a ^ nat ((p + 1) div 4) mod p)) mod p = (a * a ^ half p) mod p"
        unfolding mod_mult_eq power_add [symmetric] e(1) by simp
      also have "\<dots> = (a * (a ^ half p mod p)) mod p" by (simp only: mod_mult_right_eq)
      also have "\<dots> = a" unfolding eu by (simp add: a')
      finally have z: "(a ^ nat ((p + 1) div 4) mod p * (a ^ nat ((p + 1) div 4) mod p)) mod p = a" .
      have "mpz_powm L a ((p + 1) div 4) p = a ^ nat ((p + 1) div 4) mod p" using L(1) e(2) by (simp only: sqrt_ok_def)
      then have "sqrRootMod L p k a = Some (Inr (a ^ nat ((p + 1) div 4) mod p, k))"
        unfolding sqrRootMod_def using True leg three by (simp only: if_False if_True simp_thms)
      moreover have "in_field p (a ^ nat ((p + 1) div 4) mod p)" using p1 by (simp add: in_field_def)
      ultimately show ?thesis using z True by auto
    next
      case False
      then show ?thesis using shanks_root_value [OF p L a, of k] True leg by (auto simp: sqrRootMod_def)
    qed
  qed
qed

definition root_of :: "int \<Rightarrow> int \<Rightarrow> int \<Rightarrow> bool" where
  "root_of p a z \<longleftrightarrow> in_field p z \<and> (z * z) mod p = a mod p \<and> (z = 0 \<or> odd z)"

lemma root_of_unique:
  assumes p: "prime_int p" "odd p" and z: "root_of p a z" "root_of p a w"
  shows "z = w"
proof -
  have "(z * z) mod p = (w * w) mod p" using z by (simp add: root_of_def)
  then have "((z - w) * (z + w)) mod p = 0" unfolding cong_iff [of "z * z"] by (simp add: algebra_simps)
  from prime_int_mult [OF p(1) this] show ?thesis
  proof (elim disjE)
    assume "(z - w) mod p = 0"
    then have "z mod p = w mod p" by (simp only: cong_iff)
    then show ?thesis using z by (simp add: root_of_def in_field_def)
  next
    assume 2: "(z + w) mod p = 0"
    have b: "0 \<le> z" "z < p" "0 \<le> w" "w < p" using z by (simp_all add: root_of_def in_field_def)
    obtain k where k: "z + w = p * k" using 2 by (auto simp: mod_eq_0_iff_dvd dvd_def)
    have "k < 2"
    proof (rule ccontr)
      assume "\<not> k < 2"
      then have "p * 2 \<le> p * k" using b by (intro mult_left_mono) auto
      then show False using k b by linarith
    qed
    moreover have "0 \<le> k" using k b by (metis add_nonneg_nonneg zero_le_mult_iff le_less_trans not_le)
    ultimately have "k = 0 \<or> k = 1" by linarith
    then show ?thesis
    proof
      assume "k = 0"
      then show ?thesis using k b by simp
    next
      assume "k = 1"
      then show ?thesis using k b z p(2) by (auto simp: root_of_def)
    qed
  qed
qed

lemma sqrRoot_root:
  assumes p: "prime_int p" "odd p" and L: "sqrt_ok L p" "fair_range L p" and a: "in_field p a"
  shows "if is_square_mod a p then \<exists>z k'. sqrRoot L p k a = Some (Inr (z, k')) \<and> root_of p a z
    else sqrRoot L p k a = Some (Inl (Runtime_error ''cannot compute square root of non-square''))"
proof (cases "is_square_mod a p")
  case True
  have p1: "1 < p" using p by (simp add: prime_int_def)
  obtain z k' where z: "sqrRootMod L p k a = Some (Inr (z, k'))" "in_field p z" "(z * z) mod p = a"
    using sqrRootMod_value [OF assms, of k] True by auto
  define w where "w = to_gfp p (if odd z then z else p - z)"
  have w: "w = (if odd z then z else if z = 0 then 0 else p - z)"
    using z(2) p1 by (auto simp: w_def to_gfp_mod in_field_def zmod_zminus1_eq_if)
  have "((p - z) * (p - z)) mod p = (z * z) mod p" unfolding cong_iff [of "(p - z) * (p - z)"]
    by (simp add: algebra_simps)
  then have "root_of p a w" using z(2,3) a p(2) unfolding w root_of_def by (auto simp: in_field_def)
  moreover have "sqrRoot L p k a = Some (Inr (w, k'))" using z(1) by (simp add: sqrRoot_def w_def)
  ultimately show ?thesis using True by auto
next
  case False
  then show ?thesis using sqrRootMod_value [OF assms, of k] by (simp add: sqrRoot_def)
qed

end
