(* ===== verification/RandomBits.thy ===== *)
theory RandomBits
  imports Sacrifice Sqrt
begin

text \<open>
  Random bits from triples: \<open>MascotTripleGenerator::generateBitsFromTriples\<close>
  (\<open>OT/NPartyTripleGenerator.hpp\<close>). The square of the first factor is opened, each party takes
  the odd square root of it, and the quotient of the factor and the root, \<open>1\<close> or \<open>- 1\<close>, is mapped to a bit.
\<close>

section \<open>Quotients of shares\<close>

text \<open>\<open>Share_::operator/\<close>, by a public value.\<close>

definition share_div :: "(int \<Rightarrow> int \<Rightarrow> int \<times> int) \<Rightarrow> int \<Rightarrow> share \<Rightarrow> int \<Rightarrow> share" where
  "share_div f p S x = \<lparr>share_a = gf_mul p (share_a S) (gf_inv f p x), share_mac = gf_mul p (share_mac S) (gf_inv f p x)\<rparr>"

definition j_div :: "ctx \<Rightarrow> jshare \<Rightarrow> int \<Rightarrow> jshare" where
  "j_div c S x = map (\<lambda>s. share_div (gcdext c) (pr c) s x) S"

lemma j_div_mul: "j_div c S x = j_mul c S (gf_inv (gcdext c) (pr c) x)"
  by (simp add: j_div_def j_mul_def share_div_def share_mul_def gf_mul_def mult.commute)

lemma sh_div: "wf_field c \<Longrightarrow> sh c S u \<Longrightarrow> sh c (j_div c S x) (u * gf_inv (gcdext c) (pr c) x)"
  unfolding j_div_mul by (rule sh_mul)

section \<open>The bits\<close>

text \<open>The roots that one party computes, from a position of its random numbers on.\<close>

fun party_roots :: "sqrt_lib \<Rightarrow> int \<Rightarrow> nat \<Rightarrow> int list \<Rightarrow> (err + int list \<times> nat) option" where
  "party_roots L p k [] = Some (Inr ([], k))"
| "party_roots L p k (v # vs) =
     (case sqrRoot L p k v of None \<Rightarrow> None | Some (Inl e) \<Rightarrow> Some (Inl e)
      | Some (Inr (z, k)) \<Rightarrow> map_option (\<lambda>r. case r of Inl e \<Rightarrow> Inl e | Inr (zs, k) \<Rightarrow> Inr (z # zs, k)) (party_roots L p k vs))"

fun all_parties :: "(err + 'a) option list \<Rightarrow> err + 'a list" where
  "all_parties [] = Inr []"
| "all_parties (None # rs) = Inl Diverges"
| "all_parties (Some (Inl e) # rs) = Inl e"
| "all_parties (Some (Inr x) # rs) = ebnd (all_parties rs) (\<lambda>xs. Inr (x # xs))"

text \<open>The parties go on together when they found the same roots.\<close>

definition common_roots :: "(err + int list \<times> nat) option list \<Rightarrow> err + int list \<times> nat list" where
  "common_roots rs = ebnd (all_parties rs) (\<lambda>rs.
     if map fst rs \<noteq> replicate (length rs) (fst (rs ! 0)) then Inl Disagreement else Inr (fst (rs ! 0), map snd rs))"

definition bit_of :: "ctx \<Rightarrow> jshare \<Rightarrow> int \<Rightarrow> jshare" where
  "bit_of c S z = j_div c (j_add c (j_div c S z) (j_constant c 1)) (to_gfp (pr c) 2)"

definition bits_from :: "ctx \<Rightarrow> jshare Triple list \<Rightarrow> int list \<Rightarrow> jshare list" where
  "bits_from c Ts roots = map (\<lambda>(T, z). bit_of c (tr_a T ! 0) z) (filter (\<lambda>(T, z). z \<noteq> 0) (zip Ts roots))"

definition generateBitsFromTriples :: "ctx \<Rightarrow> sqrt_lib list \<Rightarrow> nat list \<Rightarrow> jshare Triple list \<Rightarrow> (mpc, jshare list \<times> nat list) m" where
  "generateBitsFromTriples c Ls ks Ts =
     bnd (POpen c (map (\<lambda>T. j_add c (tr_a T ! 0) (tr_b T)) Ts)) (\<lambda>opened.
     bnd (POpen c (map2 (\<lambda>T v. j_sub c (j_mul c (tr_a T ! 0) v) (tr_c T ! 0)) Ts opened)) (\<lambda>opened.
     bnd (Check c) (\<lambda>_.
     case common_roots (map (\<lambda>i. party_roots (Ls ! i) (pr c) (ks ! i) opened) [0..<num_players c]) of
       Inl e \<Rightarrow> throw e | Inr (roots, ks) \<Rightarrow> ret (bits_from c Ts roots, ks))))"

text \<open>\<open>generate\<close> with \<open>generateBits\<close> set: the triples are generated and checked as always.\<close>

definition generateBits :: "ctx \<Rightarrow> gen_env \<Rightarrow> sqrt_lib list \<Rightarrow> nat \<Rightarrow> generator \<Rightarrow> nat list \<Rightarrow> (mpc, generator \<times> jshare list \<times> nat list) m" where
  "generateBits c g Ls nTriples G ks =
     bnd (generateTriples c g nTriples G) (\<lambda>(G', Ts).
     bnd (generateBitsFromTriples c Ls ks Ts) (\<lambda>(bs, ks). ret (G', bs, ks)))"

section \<open>They are bits\<close>

text \<open>The odd root of \<open>a ^ 2\<close> is \<open>a\<close> or \<open>- a\<close>, whichever is odd.\<close>

definition odd_root :: "int \<Rightarrow> int \<Rightarrow> int" where
  "odd_root p a = (if odd (a mod p) then a mod p else (- a) mod p)"

lemma odd_root_zero: "1 < p \<Longrightarrow> odd_root p a = 0 \<longleftrightarrow> a mod p = 0"
  using pos_mod_bound [of p a] by (auto simp: odd_root_def zmod_zminus1_eq_if simp del: pos_mod_bound)

lemma root_of_square:
  assumes "1 < p" "odd p"
  shows "root_of p ((a * a) mod p) (odd_root p a)"
proof -
  have "(odd_root p a * odd_root p a) mod p = (a * a) mod p"
    using mod_mult_eq [of a p a] mod_mult_eq [of "- a" p "- a"] by (simp add: odd_root_def)
  moreover have "in_field p (odd_root p a)" using assms(1) by (simp add: odd_root_def in_field_def)
  moreover have "odd_root p a = 0 \<or> odd (odd_root p a)"
    using assms by (auto simp: odd_root_def zmod_zminus1_eq_if)
  ultimately show ?thesis by (simp add: root_of_def)
qed

lemma party_roots_value:
  assumes p: "prime_int p" "odd p" and L: "sqrt_ok L p" "fair_range L p"
  shows "\<exists>k'. party_roots L p k (map (\<lambda>a. (a * a) mod p) as) = Some (Inr (map (odd_root p) as, k'))"
proof (induction as arbitrary: k)
  case (Cons a as)
  have p1: "1 < p" using p by (simp add: prime_int_def)
  have "is_square_mod ((a * a) mod p) p" by (auto simp: is_square_mod_def)
  moreover have "in_field p ((a * a) mod p)" using p1 by (simp add: in_field_def)
  ultimately obtain z k' where z: "sqrRoot L p k ((a * a) mod p) = Some (Inr (z, k'))" "root_of p ((a * a) mod p) z"
    using sqrRoot_root [OF p L, of "(a * a) mod p" k] by auto
  have "z = odd_root p a" by (rule root_of_unique [OF p z(2) root_of_square [OF p1 p(2)]])
  then show ?case using z(1) Cons.IH [of k'] by auto
qed simp

lemma common_roots_value:
  assumes "\<And>i. i < length rs \<Longrightarrow> \<exists>k. rs ! i = Some (Inr (zs, k))" "rs \<noteq> []"
  shows "\<exists>ks. common_roots rs = Inr (zs, ks) \<and> length ks = length rs"
proof -
  have "\<exists>xs. all_parties rs = Inr xs \<and> length xs = length rs \<and> map fst xs = replicate (length rs) zs"
    using assms(1)
  proof (induction rs)
    case (Cons r rs)
    then obtain k where "r = Some (Inr (zs, k))" by fastforce
    moreover obtain xs where "all_parties rs = Inr xs" "length xs = length rs" "map fst xs = replicate (length rs) zs"
      using Cons.IH Cons.prems by fastforce
    ultimately show ?case by (simp add: ebnd_def)
  qed simp
  then obtain xs where xs: "all_parties rs = Inr xs" "length xs = length rs" "map fst xs = replicate (length rs) zs" by blast
  have "fst (xs ! 0) = map fst xs ! 0" using xs(2) assms(2) by (simp add: nth_map)
  then have "fst (xs ! 0) = zs" using xs(2,3) assms(2) by simp
  then show ?thesis using xs by (simp add: common_roots_def ebnd_def)
qed

lemma bit_of_value:
  assumes c: "wf_field c" "wf_prime c" "odd (pr c)" and S: "sh c S a" and a: "a mod pr c \<noteq> 0"
  shows "sh c (bit_of c S (odd_root (pr c) a)) ((a mod pr c) mod 2)"
proof -
  let ?p = "pr c" and ?z = "odd_root (pr c) a"
  let ?w = "gf_inv (gcdext c) ?p ?z" and ?h = "gf_inv (gcdext c) ?p 2"
  have p1: "1 < ?p" using c(1) by (simp add: wf_field_def)
  then have p2: "2 < ?p" using c(3) by (cases "?p = 2") auto
  have z: "in_field ?p ?z" "?z \<noteq> 0" using root_of_square [OF p1 c(3)] odd_root_zero [OF p1] a by (auto simp: root_of_def)
  have w: "(?w * ?z) mod ?p = 1 mod ?p" by (rule prime_inverse [OF c(2) z])
  have h: "(?h * 2) mod ?p = 1 mod ?p" using p2 by (intro prime_inverse [OF c(2)]) (simp_all add: in_field_def)
  have "sh c (j_add c (j_div c S ?z) (j_constant c 1)) (a * ?w + 1)"
    using p1 by (intro sh_add sh_div sh_constant c(1) S) (simp add: in_field_def)
  then have b: "sh c (bit_of c S ?z) ((a * ?w + 1) * ?h)"
    unfolding bit_of_def using p2 by (simp add: sh_div [OF c(1)] to_gfp_mod)
  have "((a * ?w + 1) * ?h) mod ?p = ((a mod ?p) mod 2) mod ?p"
  proof (cases "odd (a mod ?p)")
    case True
    then have "a mod ?p = ?z mod ?p" by (simp add: odd_root_def)
    then have "(a * ?w) mod ?p = (?z * ?w) mod ?p" by (rule mod_mult_cong) (rule refl)
    then have "(a * ?w) mod ?p = 1 mod ?p" using w by (simp only: mult.commute)
    then have "(a * ?w + 1) mod ?p = (1 + 1) mod ?p" by (rule mod_add_cong) (rule refl)
    then have "((a * ?w + 1) * ?h) mod ?p = ((1 + 1) * ?h) mod ?p" by (rule mod_mult_cong) (rule refl)
    then show ?thesis using h True by (simp add: mult.commute odd_iff_mod_2_eq_one)
  next
    case False
    then have "a mod ?p = (- ?z) mod ?p" by (simp add: odd_root_def mod_minus_eq)
    then have "(a * ?w) mod ?p = (- ?z * ?w) mod ?p" by (rule mod_mult_cong) (rule refl)
    then have "(a * ?w + ?w * ?z) mod ?p = (- ?z * ?w + 1) mod ?p" using w by (rule mod_add_cong)
    moreover have "(a * ?w + 1) mod ?p = (a * ?w + ?w * ?z) mod ?p" by (rule mod_add_cong [OF refl w [symmetric]])
    moreover have "(- ?z * ?w + ?w * ?z) mod ?p = (- ?z * ?w + 1) mod ?p" by (rule mod_add_cong [OF refl w])
    ultimately have "(a * ?w + 1) mod ?p = 0 mod ?p" by (simp add: mult.commute)
    then have "((a * ?w + 1) * ?h) mod ?p = (0 * ?h) mod ?p" by (rule mod_mult_cong) (rule refl)
    then show ?thesis using False by (simp add: even_iff_mod_2_eq_zero)
  qed
  then show ?thesis by (rule sh_cong [OF b])
qed

lemma bits_from_values:
  assumes c: "wf_field c" "wf_prime c" "odd (pr c)" and T: "list_all2 (\<lambda>T a. sh c (tr_a T ! 0) a) Ts as"
  shows "list_all2 (sh c) (bits_from c Ts (map (odd_root (pr c)) as)) (map (\<lambda>a. (a mod pr c) mod 2) (filter (\<lambda>a. a mod pr c \<noteq> 0) as))"
  using T
proof (induction Ts as rule: list_all2_induct)
  case Nil
  then show ?case by (simp add: bits_from_def)
next
  case (Cons T Ts a as)
  have "1 < pr c" using c(1) by (simp add: wf_field_def)
  then show ?case using Cons odd_root_zero [of "pr c" a] bit_of_value [OF c, of "tr_a T ! 0" a] by (simp add: bits_from_def)
qed

text \<open>From the products of the triples to their squares.\<close>

lemma opened_squares:
  assumes c: "wf_field c" and T: "\<And>j. j < length Ts \<Longrightarrow> triple_is c (tr_a (Ts ! j) ! 0, tr_b (Ts ! j), tr_c (Ts ! j) ! 0) (x j) (y j)"
  shows "list_all2 (sh c) (map (\<lambda>T. j_add c (tr_a T ! 0) (tr_b T)) Ts) (map (\<lambda>j. x j + y j) [0..<length Ts])"
    "list_all2 (sh c) (map2 (\<lambda>T v. j_sub c (j_mul c (tr_a T ! 0) v) (tr_c T ! 0)) Ts (map (\<lambda>v. v mod pr c) (map (\<lambda>j. x j + y j) [0..<length Ts])))
      (map (\<lambda>j. x j * x j) [0..<length Ts])"
proof -
  show "list_all2 (sh c) (map (\<lambda>T. j_add c (tr_a T ! 0) (tr_b T)) Ts) (map (\<lambda>j. x j + y j) [0..<length Ts])"
    using T by (auto simp: list_all2_conv_all_nth triple_is_def intro!: sh_add)
  have "sh c (j_sub c (j_mul c (tr_a (Ts ! j) ! 0) ((x j + y j) mod pr c)) (tr_c (Ts ! j) ! 0)) (x j * x j)" if j: "j < length Ts" for j
  proof -
    have "sh c (j_sub c (j_mul c (tr_a (Ts ! j) ! 0) ((x j + y j) mod pr c)) (tr_c (Ts ! j) ! 0)) (x j * ((x j + y j) mod pr c) - x j * y j)"
      using T [OF j] by (auto simp: triple_is_def intro!: sh_sub sh_mul c)
    moreover have "(x j * ((x j + y j) mod pr c) - x j * y j) mod pr c = (x j * (x j + y j) - x j * y j) mod pr c"
      by (intro mod_diff_cong refl) (rule mod_mult_right_eq)
    moreover have "x j * (x j + y j) - x j * y j = x j * x j" by (simp add: algebra_simps)
    ultimately show ?thesis by (simp only:) (rule sh_cong)
  qed
  then show "list_all2 (sh c) (map2 (\<lambda>T v. j_sub c (j_mul c (tr_a T ! 0) v) (tr_c T ! 0)) Ts (map (\<lambda>v. v mod pr c) (map (\<lambda>j. x j + y j) [0..<length Ts])))
      (map (\<lambda>j. x j * x j) [0..<length Ts])"
    by (simp add: list_all2_conv_all_nth)
qed

definition roots_ok :: "ctx \<Rightarrow> sqrt_lib list \<Rightarrow> bool" where
  "roots_ok c Ls \<longleftrightarrow> (\<forall>i < num_players c. sqrt_ok (Ls ! i) (pr c) \<and> fair_range (Ls ! i) (pr c))"

lemma bits_from_triples_ok:
  assumes c: "wf_field c" "wf_prime c" "odd (pr c)" and L: "roots_ok c Ls" and s: "mac_inv c s"
    and T: "\<And>j. j < length Ts \<Longrightarrow> triple_is c (tr_a (Ts ! j) ! 0, tr_b (Ts ! j), tr_c (Ts ! j) ! 0) (x j) (y j)"
  shows "\<exists>bs ks' t. generateBitsFromTriples c Ls ks Ts s = Inr ((bs, ks'), t) \<and> mac_inv c t \<and> prep_part t = prep_part s \<and> length ks' = num_players c \<and>
    list_all2 (sh c) bs (map (\<lambda>a. (a mod pr c) mod 2) (filter (\<lambda>a. a mod pr c \<noteq> 0) (map x [0..<length Ts])))"
proof -
  let ?as = "map x [0..<length Ts]" and ?vs = "map (\<lambda>j. x j + y j) [0..<length Ts]" and ?p = "pr c" and ?n = "num_players c"
  let ?S1 = "map (\<lambda>T. j_add c (tr_a T ! 0) (tr_b T)) Ts"
  let ?S2 = "map2 (\<lambda>T v. j_sub c (j_mul c (tr_a T ! 0) v) (tr_c T ! 0)) Ts (map (\<lambda>v. v mod ?p) ?vs)"
  let ?sq = "map (\<lambda>a. (a * a) mod ?p) ?as"
  obtain t where t: "POpen c ?S1 s = Inr (map (\<lambda>v. v mod ?p) ?vs, t)" "mac_inv c t" "prep_part t = prep_part s"
    using POpen_ok [OF c(1) s opened_squares(1) [OF c(1) T]] by blast
  obtain u where u: "POpen c ?S2 t = Inr (map (\<lambda>v. v mod ?p) (map (\<lambda>j. x j * x j) [0..<length Ts]), u)" "mac_inv c u" "prep_part u = prep_part t"
    using POpen_ok [OF c(1) t(2) opened_squares(2) [OF c(1) T]] by blast
  obtain v where v: "Check c u = Inr ((), v)" "mac_inv c v" "cleared u v" using Check_ok [OF c(1) u(2)] by blast
  have sq: "map (\<lambda>v. v mod ?p) (map (\<lambda>j. x j * x j) [0..<length Ts]) = ?sq" by simp
  let ?rs = "map (\<lambda>i. party_roots (Ls ! i) ?p (ks ! i) ?sq) [0..<?n]"
  have "\<exists>k. ?rs ! i = Some (Inr (map (odd_root ?p) ?as, k))" if "i < length ?rs" for i
    using party_roots_value [of ?p "Ls ! i" "ks ! i" ?as] L c(2,3) that by (simp add: roots_ok_def wf_prime_def)
  moreover have "?rs \<noteq> []" using c(1) by (simp add: wf_field_def num_players_def)
  ultimately obtain ks' where ks': "common_roots ?rs = Inr (map (odd_root ?p) ?as, ks')" "length ks' = ?n"
    using common_roots_value [of ?rs] by auto
  have "list_all2 (\<lambda>T a. sh c (tr_a T ! 0) a) Ts ?as" using T by (simp add: list_all2_conv_all_nth triple_is_def)
  note b = bits_from_values [OF c this]
  have "generateBitsFromTriples c Ls ks Ts s = Inr ((bits_from c Ts (map (odd_root ?p) ?as), ks'), v)"
    unfolding generateBitsFromTriples_def bnd_def t(1) sum.case prod.case u(1) v(1) sq ks'(1) ret_def by simp
  then show ?thesis using v(2) cleared_parts [OF v(3)] t(3) u(3) ks'(2) b by auto
qed

lemma generate_bits_ok:
  assumes g: "gen_env_ok c g" "40 \<le> o_length (o_env g)" and c: "wf_prime c" "odd (pr c)" "roots_ok c Ls"
    and G: "generator_ok c g G" and n: "0 < nTriples" and s: "mac_inv c s"
  shows "\<exists>G' bs ks' t. generateBits c g Ls nTriples G ks s = Inr ((G', bs, ks'), t) \<and> mac_inv c t \<and> prep_part t = prep_part s \<and>
    generator_ok c g G' \<and> length ks' = num_players c \<and>
    list_all2 (sh c) bs (map (\<lambda>a. (a mod pr c) mod 2) (filter (\<lambda>a. a mod pr c \<noteq> 0) (map (\<lambda>j. factor c g G j 0) [0..<nTriples])))"
proof -
  have w: "wf_field c" using g(1) by (simp add: gen_env_ok_def)
  obtain G' Ts t where t: "generateTriples c g nTriples G s = Inr ((G', Ts), t)" "mac_inv c t" "prep_part t = prep_part s"
    "generator_ok c g G'" "length Ts = nTriples"
    "\<forall>j < nTriples. unchecked_is c (Ts ! j) (factor c g G j) (sum_b c g (drawn G) nTriples j)"
    using generate_triples_ok [OF g G n s] by blast
  have T: "triple_is c (tr_a (Ts ! j) ! 0, tr_b (Ts ! j), tr_c (Ts ! j) ! 0) (factor c g G j 0) (sum_b c g (drawn G) nTriples j)"
    if "j < length Ts" for j using t(5,6) that by (simp add: unchecked_is_def triple_is_def)
  obtain bs ks' u where "generateBitsFromTriples c Ls ks Ts t = Inr ((bs, ks'), u)" "mac_inv c u" "prep_part u = prep_part t"
    "length ks' = num_players c"
    "list_all2 (sh c) bs (map (\<lambda>a. (a mod pr c) mod 2) (filter (\<lambda>a. a mod pr c \<noteq> 0) (map (\<lambda>j. factor c g G j 0) [0..<length Ts])))"
    using bits_from_triples_ok [OF w c t(2) T] by blast
  then show ?thesis using t by (simp add: generateBits_def bnd_def ret_def)
qed

end
