(* ===== verification/MaskInputs.thy ===== *)
theory MaskInputs
  imports TripleGen Opening
begin

text \<open>
  Input masks: \<open>NPartyTripleGenerator::generateInputs\<close> (\<open>OT/NPartyTripleGenerator.hpp\<close>) and
  \<open>SemiInput::add_mine\<close> (\<open>Protocols/SemiInput.hpp\<close>). The owner draws the masks and sends out shares of them;
  the multipliers between the owner and every other party give the MACs, which one random
  combination of all masks checks.
\<close>

section \<open>Shares of the owner's masks\<close>

text \<open>The party after the last random share gets the rest.\<close>

function add_mine_from :: "int \<Rightarrow> nat \<Rightarrow> (nat \<Rightarrow> int) \<Rightarrow> int \<Rightarrow> nat \<Rightarrow> int \<Rightarrow> int list" where
  "add_mine_from p n r input i acc =
     (if i < n then
        let share = (if i < n - 1 then r i else gf_sub p input acc)
        in share # add_mine_from p n r input (Suc i) (gf_add p acc share)
      else [])"
  by pat_completeness auto
termination by (relation "measure (\<lambda>(_, n, _, _, i, _). n - i)") auto

declare add_mine_from.simps [simp del]

definition add_mine :: "int \<Rightarrow> nat \<Rightarrow> (nat \<Rightarrow> int) \<Rightarrow> int \<Rightarrow> int list" where
  "add_mine p n r input = add_mine_from p n r input 0 0"

section \<open>Generation\<close>

text \<open>Only the multipliers between the owner and another party have work to do.\<close>

definition input_job :: "ot_env \<Rightarrow> nat \<Rightarrow> int list \<Rightarrow> nat \<Rightarrow> nat \<Rightarrow> nat \<Rightarrow> multiplier \<Rightarrow> multiplier \<Rightarrow> err + multiplier \<times> multiplier" where
  "input_job e n_inputs xs player i j A B =
     (if player = i then multiplyForInputs e n_inputs xs A B
      else if player = j then ebnd (multiplyForInputs e n_inputs xs B A) (\<lambda>(B, A). Inr (A, B))
      else Inr (A, B))"

definition input_share :: "ctx \<Rightarrow> multipliers \<Rightarrow> nat \<Rightarrow> nat \<Rightarrow> int list \<Rightarrow> int \<Rightarrow> nat \<Rightarrow> share" where
  "input_share c M player j shares secret i =
     \<lparr>share_a = shares ! i, share_mac =
        (if i = player
         then own_sum (pr c) (num_players c) i (gf_mul (pr c) secret (alphas c ! i)) (\<lambda>k. input_macs (M i k) ! j)
         else input_macs (M i player) ! j)\<rparr>"

text \<open>A new \<open>MAC_Check\<close>, with nothing to check.\<close>

definition new_check :: "ctx \<Rightarrow> mpc" where
  "new_check c = \<lparr>triples = [], squares = [], bits = [], inputs = [], triple_calls = 0, bit_calls = 0,
     input_calls = (\<lambda>_. 0), use_triples = 0, use_squares = 0, use_bits = 0, use_inputs = (\<lambda>_. 0),
     op_values = replicate (num_players c) [], op_pos = 0, mc_vals = replicate (num_players c) [],
     mc_macs = replicate (num_players c) [], popen_cnt = 0, values_opened = 0, mc_checks = 0\<rparr>"

definition input_sum :: "ctx \<Rightarrow> (nat \<Rightarrow> int) \<Rightarrow> (jshare \<times> int) list \<Rightarrow> jshare" where
  "input_sum c r ins = foldl (\<lambda>s j. j_add c s (j_mul c (fst (ins ! j)) (r j))) (j_zero c) [0..<length ins]"

definition generateInputs :: "ctx \<Rightarrow> gen_env \<Rightarrow> nat \<Rightarrow> nat \<Rightarrow> generator \<Rightarrow> err + generator \<times> (jshare \<times> int) list" where
  "generateInputs c g player nTriples G =
     (let n = num_players c; nInputs = nTriples * 10; w = 64 * o_limbs (o_env g); toCheck = nInputs + (w + w - 1) div w;
          secrets = map (\<lambda>j. share_prg g player (drawn G player + j)) [0..<toCheck] in
      ebnd (all_pairs (input_job (o_env g) toCheck secrets player) (party_pairs n) (ot_multipliers G)) (\<lambda>M.
      let ins = map (\<lambda>j. (map (input_share c M player j (add_mine (pr c) n (\<lambda>i. semi_prg g (seeds G) (j * (n - 1) + i)) (secrets ! j)) (secrets ! j))
            [0..<n], secrets ! j)) [0..<toCheck];
          check_sum = input_sum c (seed_coin g (seeds G)) ins
      in case bnd (POpen c [check_sum]) (\<lambda>_. Check c) (new_check c) of
           Inl e \<Rightarrow> Inl e
         | Inr _ \<Rightarrow> Inr (G\<lparr>ot_multipliers := M, drawn := (drawn G)(player := drawn G player + toCheck), seeds := Suc (seeds G)\<rparr>,
             take nInputs ins)))"

section \<open>The masks are valid\<close>

lemma add_mine_from_value:
  assumes "1 < p" "\<And>i. in_field p (r i)" "in_field p input"
  shows "i < n \<Longrightarrow> in_field p acc \<Longrightarrow>
    length (add_mine_from p n r input i acc) = n - i \<and> (\<forall>x \<in> set (add_mine_from p n r input i acc). in_field p x) \<and>
    (acc + sum_list (add_mine_from p n r input i acc)) mod p = input mod p"
proof (induction "n - i" arbitrary: i acc)
  case (Suc d)
  show ?case
  proof (cases "i < n - 1")
    case True
    let ?s = "gf_add p acc (r i)"
    have f: "in_field p ?s" using assms Suc.prems by (intro in_field_add) auto
    have "d = n - Suc i" "Suc i < n" using True Suc.hyps(2) by simp_all
    then have ih: "length (add_mine_from p n r input (Suc i) ?s) = n - Suc i" "\<forall>x \<in> set (add_mine_from p n r input (Suc i) ?s). in_field p x"
      "(?s + sum_list (add_mine_from p n r input (Suc i) ?s)) mod p = input mod p"
      using Suc.hyps(1) f by blast+
    have "(acc + (r i + sum_list (add_mine_from p n r input (Suc i) ?s))) mod p = (?s + sum_list (add_mine_from p n r input (Suc i) ?s)) mod p"
      unfolding add.assoc [symmetric] by (rule mod_add_cong) (simp_all add: gf_add_cong)
    then show ?thesis using ih True Suc.prems assms by (subst (1 2 3) add_mine_from.simps) (simp add: Let_def)
  next
    case False
    then have e: "n = Suc i" using Suc.prems by simp
    have "(acc + gf_sub p input acc) mod p = (acc + (input - acc)) mod p" by (rule mod_add_cong) (simp_all add: gf_sub_cong)
    moreover have "in_field p (gf_sub p input acc)" using assms Suc.prems by (intro in_field_sub) auto
    moreover have "add_mine_from p n r input i acc = [gf_sub p input acc]"
      unfolding e by (subst add_mine_from.simps, subst add_mine_from.simps) (simp add: Let_def)
    ultimately show ?thesis using e by simp
  qed
qed simp

lemma add_mine_value:
  assumes "1 < p" "\<And>i. in_field p (r i)" "in_field p input" "0 < n"
  shows "length (add_mine p n r input) = n" "\<forall>x \<in> set (add_mine p n r input). in_field p x"
    "sum_list (add_mine p n r input) mod p = input mod p"
  using add_mine_from_value [OF assms(1-3), of 0 n 0] assms(1,4) by (simp_all add: add_mine_def in_field_def)

lemma pair_ok_swap: "pair_ok e kA kB A B \<Longrightarrow> pair_ok e kB kA B A"
  by (auto simp: pair_ok_def)

text \<open>What the multipliers of a pair hold after the job: nothing new unless one of the two is the owner.\<close>

definition input_pair :: "ctx \<Rightarrow> gen_env \<Rightarrow> int list \<Rightarrow> nat \<Rightarrow> nat \<Rightarrow> multiplier \<Rightarrow> multiplier \<Rightarrow> bool" where
  "input_pair c g xs i j A B \<longleftrightarrow>
     cross_terms (pr c) (length xs) (\<lambda>k. alphas c ! j * xs ! k) (\<lambda>_. 0) (input_macs A) (input_macs B)"

lemma input_job_ok:
  assumes g: "gen_env_ok c g" and k: "in_field (pr c) (alphas c ! i)" "in_field (pr c) (alphas c ! j)"
    and pr: "pair_ok (o_env g) (alphas c ! i) (alphas c ! j) A B" and xs: "\<forall>x \<in> set xs. in_field (pr c) x" and ij: "i \<noteq> j"
  shows "\<exists>A' B'. input_job (o_env g) (length xs) xs player i j A B = Inr (A', B') \<and>
    pair_ok (o_env g) (alphas c ! i) (alphas c ! j) A' B' \<and>
    (player = i \<longrightarrow> input_pair c g xs i j A' B') \<and> (player = j \<longrightarrow> input_pair c g xs j i B' A')"
proof -
  have e: "env_ok (o_env g)" "o_prime (o_env g) = pr c" using g by (simp_all add: gen_env_ok_def)
  have f: "in_field (o_prime (o_env g)) (alphas c ! i)" "in_field (o_prime (o_env g)) (alphas c ! j)" "\<forall>x \<in> set xs. in_field (o_prime (o_env g)) x"
    using k xs e(2) by simp_all
  consider "player = i" | "player = j" | "player \<noteq> i" "player \<noteq> j" by blast
  then show ?thesis
  proof cases
    case 1
    then show ?thesis using multiplyForInputs_ok [OF e(1) pr f(2) refl f(3)] ij e(2) by (auto simp: input_job_def input_pair_def)
  next
    case 2
    obtain B' A' where "multiplyForInputs (o_env g) (length xs) xs B A = Inr (B', A')" "pair_ok (o_env g) (alphas c ! j) (alphas c ! i) B' A'"
      "cross_terms (o_prime (o_env g)) (length xs) (\<lambda>k. alphas c ! i * xs ! k) (\<lambda>_. 0) (input_macs B') (input_macs A')"
      using multiplyForInputs_ok [OF e(1) pair_ok_swap [OF pr] f(1) refl f(3)] by blast
    then show ?thesis using 2 ij e(2) by (auto simp: input_job_def input_pair_def intro: pair_ok_swap)
  next
    case 3
    then show ?thesis using pr by (simp add: input_job_def)
  qed
qed

text \<open>The MAC of the owner and those of the others add up.\<close>

lemma input_share_sh:
  assumes c: "wf_field c" and pl: "player < num_players c" and j: "j < length xs" and x: "in_field (pr c) (xs ! j)"
    and M: "\<And>k. k < num_players c \<Longrightarrow> k \<noteq> player \<Longrightarrow> input_pair c g xs player k (M player k) (M k player)"
    and s: "length ss = num_players c" "\<forall>s \<in> set ss. in_field (pr c) s" "sum_list ss mod pr c = (xs ! j) mod pr c"
  shows "sh c (map (input_share c M player j ss (xs ! j)) [0..<num_players c]) (xs ! j)"
proof -
  let ?p = "pr c" and ?n = "num_players c" and ?x = "xs ! j" and ?own = "\<lambda>k. input_macs (M player k) ! j" and ?other = "\<lambda>k. input_macs (M k player) ! j"
  let ?mac = "\<lambda>i. share_mac (input_share c M player j ss ?x i)"
  have p: "0 < ?p" using c by (simp add: wf_field_def)
  have o: "in_field ?p (?own k)" "in_field ?p (?other k)" "(?own k + ?other k) mod ?p = (alphas c ! k * ?x) mod ?p"
    if "k < ?n" "k \<noteq> player" for k
    using M [OF that] j by (simp_all add: input_pair_def cross_terms_def)
  have fm: "in_field ?p (?mac i)" if i: "i < ?n" for i
  proof (cases "i = player")
    case True
    then show ?thesis unfolding input_share_def
      using own_sum_field [of ?p "gf_mul ?p ?x (alphas c ! player)" ?n player ?own] o(1) p by (simp add: in_field_mul)
  next
    case False
    then show ?thesis using o(2) i by (simp add: input_share_def)
  qed
  have "(\<Sum>i<?n. ?mac i) = ?mac player + (\<Sum>k \<in> {..<?n} - {player}. ?mac k)"
    using pl by (intro sum.remove) auto
  also have "(\<Sum>k \<in> {..<?n} - {player}. ?mac k) = (\<Sum>k \<in> {..<?n} - {player}. ?other k)"
    by (rule sum.cong) (simp_all add: input_share_def)
  finally have "(\<Sum>i<?n. ?mac i) mod ?p = (?mac player + (\<Sum>k \<in> {..<?n} - {player}. ?other k)) mod ?p" by simp
  also have "\<dots> = ((gf_mul ?p ?x (alphas c ! player) + (\<Sum>k \<in> {..<?n} - {player}. ?own k)) + (\<Sum>k \<in> {..<?n} - {player}. ?other k)) mod ?p"
    by (rule mod_add_cong [OF _ refl]) (simp add: input_share_def own_sum_cong [OF pl])
  also have "\<dots> = (gf_mul ?p ?x (alphas c ! player) + (\<Sum>k \<in> {..<?n} - {player}. ?own k + ?other k)) mod ?p"
    by (simp add: sum.distrib add.assoc)
  also have "\<dots> = (?x * alphas c ! player + (\<Sum>k \<in> {..<?n} - {player}. alphas c ! k * ?x)) mod ?p"
    by (intro mod_add_cong gf_mul_cong mod_sum_cong) (use o(3) in auto)
  also have "?x * alphas c ! player + (\<Sum>k \<in> {..<?n} - {player}. alphas c ! k * ?x) = (\<Sum>k<?n. alphas c ! k * ?x)"
    using pl by (subst sum.remove [of "{..<?n}" player]) (auto simp: mult.commute)
  also have "\<dots> = alpha c * ?x" by (simp add: sum_alphas [symmetric] sum_distrib_right)
  finally have m: "(\<Sum>i<?n. ?mac i) mod ?p = (alpha c * ?x) mod ?p" .
  have "map (\<lambda>i. ss ! i) [0..<?n] = ss" using s(1) by (metis map_nth)
  then have a: "map share_a (map (input_share c M player j ss ?x) [0..<?n]) = ss" by (simp add: input_share_def comp_def)
  have "\<forall>S \<in> set (map (input_share c M player j ss ?x) [0..<?n]). share_in_field ?p S"
    using fm s(1,2) by (auto simp: share_in_field_def input_share_def)
  then show ?thesis using s m unfolding sh_def a
    by (simp add: comp_def interv_sum_list_conv_sum_set_nat atLeast0LessThan)
qed

lemma input_sum_sh:
  assumes c: "wf_field c" and ins: "\<And>j. j < length ins \<Longrightarrow> sh c (fst (ins ! j)) (v j)"
  shows "sh c (input_sum c r ins) (\<Sum>j<length ins. v j * r j)"
proof -
  have "k \<le> length ins \<Longrightarrow> sh c (foldl (\<lambda>s j. j_add c s (j_mul c (fst (ins ! j)) (r j))) (j_zero c) [0..<k]) (\<Sum>j<k. v j * r j)" for k
  proof (induction k)
    case 0
    then show ?case using sh_zero [OF c] by simp
  next
    case (Suc k)
    then have "sh c (foldl (\<lambda>s j. j_add c s (j_mul c (fst (ins ! j)) (r j))) (j_zero c) [0..<k]) (\<Sum>j<k. v j * r j)" "k < length ins" by simp_all
    then show ?case using sh_add [OF _ sh_mul [OF c ins]] by simp
  qed
  then show ?thesis by (simp add: input_sum_def)
qed

lemma new_check_inv [simp]: "mac_inv c (new_check c)"
  by (simp add: mac_inv_def new_check_def)

lemma check_opened:
  assumes "wf_field c" "sh c S x"
  shows "\<exists>t. bnd (POpen c [S]) (\<lambda>_. Check c) (new_check c) = Inr ((), t)"
proof -
  obtain t where t: "POpen c [S] (new_check c) = Inr (map (\<lambda>x. x mod pr c) [x], t)" "mac_inv c t"
    using POpen_ok [OF assms(1) new_check_inv, of "[S]" "[x]"] assms(2) by auto
  then show ?thesis using Check_ok [OF assms(1) t(2)] by (auto simp: bnd_def)
qed

lemma generate_inputs_ok:
  assumes g: "gen_env_ok c g" and G: "generator_ok c g G" and pl: "player < num_players c"
  shows "\<exists>G' ins. generateInputs c g player nTriples G = Inr (G', ins) \<and> generator_ok c g G' \<and> length ins = nTriples * 10 \<and>
    (\<forall>j < nTriples * 10. input_ok c (ins ! j) \<and> snd (ins ! j) = share_prg g player (drawn G player + j))"
proof -
  let ?n = "num_players c" and ?m = "nTriples * 10" and ?p = "pr c"
  have c: "wf_field c" and e: "env_ok (o_env g)" "o_prime (o_env g) = pr c" and d: "\<And>i k. in_field (pr c) (share_prg g i k)"
    "\<And>k j. in_field (pr c) (semi_prg g k j)" using g by (simp_all add: gen_env_ok_def)
  have p: "1 < ?p" using c by (simp add: wf_field_def)
  have ks: "in_field ?p (alphas c ! i)" if "i < ?n" for i using c that by (simp add: wf_field_def num_players_def)
  define w where "w = 64 * o_limbs (o_env g)"
  have w: "?m + (w + w - 1) div w = Suc ?m"
  proof -
    have "0 < w" using e(1) by (simp add: w_def env_ok_def)
    then have "(w - 1 + w) div w = 1" by (simp only: div_add_self2) simp
    moreover have "w + w - 1 = w - 1 + w" using \<open>0 < w\<close> by simp
    ultimately show ?thesis by simp
  qed
  define xs where "xs = map (\<lambda>j. share_prg g player (drawn G player + j)) [0..<Suc ?m]"
  have lx: "length xs = Suc ?m" by (simp add: xs_def)
  have fx: "\<forall>x \<in> set xs. in_field ?p x" using d by (auto simp: xs_def)
  have x: "xs ! j = share_prg g player (drawn G player + j)" if "j < Suc ?m" for j using that by (simp add: xs_def del: upt_Suc)
  let ?R = "\<lambda>i j A B. pair_ok (o_env g) (alphas c ! i) (alphas c ! j) A B \<and>
    (player = i \<longrightarrow> input_pair c g xs i j A B) \<and> (player = j \<longrightarrow> input_pair c g xs j i B A)"
  have "\<exists>M. all_pairs (input_job (o_env g) (length xs) xs player) (party_pairs ?n) (ot_multipliers G) = Inr M \<and> every_pair ?n ?R M"
  proof (rule run_pairs [OF G [unfolded generator_ok_def]])
    fix i j A B assume a: "i < j" "j < ?n" "pair_ok (o_env g) (alphas c ! i) (alphas c ! j) A B"
    then show "\<exists>A' B'. input_job (o_env g) (length xs) xs player i j A B = Inr (A', B') \<and> ?R i j A' B'"
      using input_job_ok [OF g ks ks a(3) fx, of player] by simp
  qed
  then obtain M where M: "all_pairs (input_job (o_env g) (Suc ?m) xs player) (party_pairs ?n) (ot_multipliers G) = Inr M"
    "every_pair ?n ?R M" unfolding lx by blast
  have pairs: "input_pair c g xs player k (M player k) (M k player)" if "k < ?n" "k \<noteq> player" for k
    using M(2) pl that by (cases "player < k") (auto simp: every_pair_def)
  define ss where "ss j = add_mine ?p ?n (\<lambda>i. semi_prg g (seeds G) (j * (?n - 1) + i)) (xs ! j)" for j
  define ins where "ins = map (\<lambda>j. (map (input_share c M player j (ss j) (xs ! j)) [0..<?n], xs ! j)) [0..<Suc ?m]"
  have li: "length ins = Suc ?m" by (simp add: ins_def)
  have sh: "sh c (fst (ins ! j)) (xs ! j)" "snd (ins ! j) = xs ! j" if j: "j < Suc ?m" for j
  proof -
    have q: "in_field ?p (xs ! j)" "j < length xs" "0 < ?n" using fx j lx pl by auto
    have "sh c (map (input_share c M player j (ss j) (xs ! j)) [0..<?n]) (xs ! j)"
      unfolding ss_def by (rule input_share_sh [OF c pl q(2,1) pairs add_mine_value [OF p d(2) q(1,3)]])
    then show "sh c (fst (ins ! j)) (xs ! j)" "snd (ins ! j) = xs ! j" using j by (simp_all add: ins_def del: upt_Suc)
  qed
  obtain t where t: "bnd (POpen c [input_sum c (seed_coin g (seeds G)) ins]) (\<lambda>_. Check c) (new_check c) = Inr ((), t)"
    using check_opened [OF c input_sum_sh [OF c, of ins "\<lambda>j. xs ! j"]] sh(1) li by auto
  let ?G = "G\<lparr>ot_multipliers := M, drawn := (drawn G)(player := drawn G player + Suc ?m), seeds := Suc (seeds G)\<rparr>"
  have "generateInputs c g player nTriples G = Inr (?G, take ?m ins)"
    using M(1) t [unfolded ins_def ss_def] unfolding generateInputs_def Let_def w_def [symmetric] w xs_def [symmetric] ins_def ss_def
    by (simp del: upt_Suc)
  moreover have "generator_ok c g ?G" using M(2) by (simp add: generator_ok_def every_pair_def)
  moreover have "length (take ?m ins) = ?m" using li by simp
  moreover have "input_ok c (take ?m ins ! j) \<and> snd (take ?m ins ! j) = share_prg g player (drawn G player + j)" if "j < ?m" for j
    using that sh [of j] x [of j] d(1) by (simp add: input_ok_def)
  ultimately show ?thesis by blast
qed

end
