(* ===== verification/Supply.thy ===== *)
theory Supply
  imports RandomBits MaskInputs
begin

text \<open>
  The preprocessing classes of \<open>Protocols/MascotPrep.hpp\<close> and \<open>Protocols/ReplicatedPrep.hpp\<close> on top of
  the generator: what the theory \<open>Prep\<close> takes from a parameter of its context is generated here. One
  generator serves the requests for triples, bits and input masks in whatever order they come;
  a relation of labelled steps describes the runs.
\<close>

section \<open>Buffers that the generator fills\<close>

record stock =
  su_prep :: mpc
  su_gen :: generator
  su_rand :: "nat list"

definition on_prep :: "(mpc, 'a) m \<Rightarrow> (stock, 'a) m" where
  "on_prep p = (\<lambda>s. case p (su_prep s) of Inl e \<Rightarrow> Inl e | Inr (x, t) \<Rightarrow> Inr (x, s\<lparr>su_prep := t\<rparr>))"

definition fill_triples :: "ctx \<Rightarrow> gen_env \<Rightarrow> nat \<Rightarrow> (stock, unit) m" where
  "fill_triples c g nTriples =
     bnd (gets su_gen) (\<lambda>G.
     bnd (on_prep (generateTriples c g nTriples G)) (\<lambda>(G', Ts).
     bnd (modify (su_gen_update (\<lambda>_. G'))) (\<lambda>_.
     bnd (check (length Ts \<noteq> 0) Assertion_failed) (\<lambda>_.
     on_prep (modify (\<lambda>s. s\<lparr>triples := triples s @ buffered Ts\<rparr>))))))"

definition fill_bits_buffer :: "ctx \<Rightarrow> gen_env \<Rightarrow> sqrt_lib list \<Rightarrow> nat \<Rightarrow> (stock, unit) m" where
  "fill_bits_buffer c g Ls nTriples =
     bnd (gets su_gen) (\<lambda>G. bnd (gets su_rand) (\<lambda>ks.
     bnd (on_prep (generateBits c g Ls nTriples G ks)) (\<lambda>(G', bs, ks').
     bnd (modify (\<lambda>s. s\<lparr>su_gen := G', su_rand := ks'\<rparr>)) (\<lambda>_.
     bnd (check (length bs \<noteq> 0) Assertion_failed) (\<lambda>_.
     on_prep (modify (\<lambda>s. s\<lparr>bits := bits s @ bs\<rparr>)))))))"

definition fill_inputs :: "ctx \<Rightarrow> gen_env \<Rightarrow> nat \<Rightarrow> nat \<Rightarrow> (stock, unit) m" where
  "fill_inputs c g nTriples player =
     bnd (gets su_gen) (\<lambda>G.
     case generateInputs c g player nTriples G of Inl e \<Rightarrow> throw e
     | Inr (G', ins) \<Rightarrow>
       bnd (modify (su_gen_update (\<lambda>_. G'))) (\<lambda>_.
       on_prep (modify (\<lambda>s. let xss = (if length (inputs s) \<le> player then resize [] (player + 1) (inputs s) else inputs s)
         in s\<lparr>inputs := xss[player := xss ! player @ ins]\<rparr>))))"

section \<open>What the online phase takes\<close>

definition request_triple :: "ctx \<Rightarrow> gen_env \<Rightarrow> nat \<Rightarrow> (stock, jshare \<times> jshare \<times> jshare) m" where
  "request_triple c g nTriples =
     bnd (gets (\<lambda>s. triples (su_prep s))) (\<lambda>ts.
     bnd (if ts = [] then fill_triples c g nTriples else ret ()) (\<lambda>_.
     bnd (gets (\<lambda>s. triples (su_prep s))) (\<lambda>ts.
     bnd (check (ts \<noteq> []) Assertion_failed) (\<lambda>_.
     bnd (on_prep (modify (\<lambda>s. s\<lparr>triples := butlast ts\<rparr>))) (\<lambda>_. ret (last ts))))))"

definition request_bit :: "ctx \<Rightarrow> gen_env \<Rightarrow> sqrt_lib list \<Rightarrow> nat \<Rightarrow> (stock, jshare) m" where
  "request_bit c g Ls nTriples =
     bnd (gets (\<lambda>s. bits (su_prep s))) (\<lambda>bs.
     bnd (if bs = [] then fill_bits_buffer c g Ls nTriples else ret ()) (\<lambda>_.
     bnd (gets (\<lambda>s. bits (su_prep s))) (\<lambda>bs.
     bnd (on_prep (modify (\<lambda>s. s\<lparr>bits := butlast bs\<rparr>))) (\<lambda>_. ret (last bs)))))"

definition request_input :: "ctx \<Rightarrow> gen_env \<Rightarrow> nat \<Rightarrow> nat \<Rightarrow> (stock, jshare \<times> int) m" where
  "request_input c g nTriples i =
     bnd (on_prep (modify (\<lambda>s. s\<lparr>inputs := resize [] (max (length (inputs s)) (Suc i)) (inputs s)\<rparr>))) (\<lambda>_.
     bnd (gets (\<lambda>s. inputs (su_prep s) ! i)) (\<lambda>is.
     bnd (if is = [] then fill_inputs c g nTriples i else ret ()) (\<lambda>_.
     bnd (gets (\<lambda>s. inputs (su_prep s) ! i)) (\<lambda>is.
     bnd (check (is \<noteq> []) Out_of_range) (\<lambda>_.
     bnd (on_prep (modify (\<lambda>s. s\<lparr>inputs := (inputs s)[i := butlast is]\<rparr>))) (\<lambda>_. ret (last is)))))))"

section \<open>Runs\<close>

datatype handed = Got_triple "jshare \<times> jshare \<times> jshare" | Got_bit jshare | Got_input nat "jshare \<times> int"

text \<open>One request that is served.\<close>

inductive serve :: "ctx \<Rightarrow> gen_env \<Rightarrow> sqrt_lib list \<Rightarrow> nat \<Rightarrow> stock \<Rightarrow> handed \<Rightarrow> stock \<Rightarrow> bool"
  for c g Ls nTriples where
  serve_triple: "request_triple c g nTriples s = Inr (t, s') \<Longrightarrow> serve c g Ls nTriples s (Got_triple t) s'"
| serve_bit: "request_bit c g Ls nTriples s = Inr (b, s') \<Longrightarrow> serve c g Ls nTriples s (Got_bit b) s'"
| serve_input: "i < num_players c \<Longrightarrow> request_input c g nTriples i s = Inr (x, s') \<Longrightarrow> serve c g Ls nTriples s (Got_input i x) s'"

inductive serves :: "ctx \<Rightarrow> gen_env \<Rightarrow> sqrt_lib list \<Rightarrow> nat \<Rightarrow> stock \<Rightarrow> handed list \<Rightarrow> stock \<Rightarrow> bool"
  for c g Ls nTriples where
  serves_none: "serves c g Ls nTriples s [] s"
| serves_more: "serve c g Ls nTriples s h s' \<Longrightarrow> serves c g Ls nTriples s' hs t \<Longrightarrow> serves c g Ls nTriples s (h # hs) t"

inductive_cases serve_cases: "serve c g Ls nTriples s (Got_triple t) s'" "serve c g Ls nTriples s (Got_bit b) s'" "serve c g Ls nTriples s (Got_input i x) s'"
inductive_simps serves_simps [simp]: "serves c g Ls nTriples s [] t" "serves c g Ls nTriples s (h # hs) t"

section \<open>The invariant\<close>

fun handed_ok :: "ctx \<Rightarrow> handed \<Rightarrow> bool" where
  "handed_ok c (Got_triple t) = (\<exists>u v. triple_is c t u v)"
| "handed_ok c (Got_bit b) = bit_ok c b"
| "handed_ok c (Got_input i x) = input_ok c x"

definition supply_ok :: "ctx \<Rightarrow> gen_env \<Rightarrow> stock \<Rightarrow> bool" where
  "supply_ok c g s \<longleftrightarrow> mac_inv c (su_prep s) \<and> generator_ok c g (su_gen s) \<and>
     (\<forall>t \<in> set (triples (su_prep s)). handed_ok c (Got_triple t)) \<and> (\<forall>b \<in> set (bits (su_prep s)). handed_ok c (Got_bit b)) \<and>
     (\<forall>is \<in> set (inputs (su_prep s)). \<forall>x \<in> set is. input_ok c x)"

text \<open>What the environment is assumed to be.\<close>

definition supply_env :: "ctx \<Rightarrow> gen_env \<Rightarrow> sqrt_lib list \<Rightarrow> nat \<Rightarrow> bool" where
  "supply_env c g Ls nTriples \<longleftrightarrow> gen_env_ok c g \<and> 40 \<le> o_length (o_env g) \<and> wf_prime c \<and> odd (pr c) \<and> roots_ok c Ls \<and> 0 < nTriples"

lemma prep_part_fields:
  "prep_part t = prep_part s \<longleftrightarrow> triples t = triples s \<and> squares t = squares s \<and> bits t = bits s \<and> inputs t = inputs s \<and>
    triple_calls t = triple_calls s \<and> bit_calls t = bit_calls s \<and> input_calls t = input_calls s \<and> use_triples t = use_triples s \<and>
    use_squares t = use_squares s \<and> use_bits t = use_bits s \<and> use_inputs t = use_inputs s"
  by (simp add: prep_part_def)

lemma fill_triples_ok:
  assumes e: "supply_env c g Ls nTriples" and s: "supply_ok c g s"
  shows "\<exists>t. fill_triples c g nTriples s = Inr ((), t) \<and> supply_ok c g t \<and> triples (su_prep t) \<noteq> []"
proof -
  obtain G' Ts t where t: "generateTriples c g nTriples (su_gen s) (su_prep s) = Inr ((G', Ts), t)" "mac_inv c t" "prep_part t = prep_part (su_prep s)"
    "generator_ok c g G'" "length Ts = nTriples" "\<forall>j < nTriples. unchecked_is c (Ts ! j) (factor c g (su_gen s) j) (sum_b c g (drawn (su_gen s)) nTriples j)"
    using generate_triples_ok [of c g "su_gen s" nTriples "su_prep s"] e s by (auto simp: supply_env_def supply_ok_def)
  have b: "handed_ok c (Got_triple x)" if x: "x \<in> set (buffered Ts)" for x
  proof -
    obtain j where "j < length (buffered Ts)" "x = buffered Ts ! j" using x by (auto simp: in_set_conv_nth)
    then show ?thesis using buffered_triples [OF t(5,6), of j] t(5) by (auto simp: buffered_def)
  qed
  have n: "nTriples \<noteq> 0" using e by (simp add: supply_env_def)
  then have ne: "Ts \<noteq> []" using t(5) by auto
  let ?t = "s\<lparr>su_prep := t\<lparr>triples := triples t @ buffered Ts\<rparr>, su_gen := G'\<rparr>"
  have "fill_triples c g nTriples s = Inr ((), ?t)"
    using t(1) ne by (simp add: fill_triples_def monad_defs on_prep_def)
  moreover have "supply_ok c g ?t" using s t b by (auto simp: supply_ok_def prep_part_fields)
  moreover have "triples (su_prep ?t) \<noteq> []" using t(5) n by (auto simp: buffered_def)
  ultimately show ?thesis by blast
qed

text \<open>The bits of a batch are the parities of its factors that are not zero.\<close>

definition next_bits :: "ctx \<Rightarrow> gen_env \<Rightarrow> nat \<Rightarrow> generator \<Rightarrow> int list" where
  "next_bits c g nTriples G = map (\<lambda>a. (a mod pr c) mod 2) (filter (\<lambda>a. a mod pr c \<noteq> 0) (map (\<lambda>j. factor c g G j 0) [0..<nTriples]))"

lemma fill_bits_buffer_ok:
  assumes e: "supply_env c g Ls nTriples" and s: "supply_ok c g s"
  shows "if next_bits c g nTriples (su_gen s) = [] then fill_bits_buffer c g Ls nTriples s = Inl Assertion_failed
    else \<exists>t. fill_bits_buffer c g Ls nTriples s = Inr ((), t) \<and> supply_ok c g t \<and> bits (su_prep t) \<noteq> []"
proof -
  obtain G' bs ks' t where t: "generateBits c g Ls nTriples (su_gen s) (su_rand s) (su_prep s) = Inr ((G', bs, ks'), t)" "mac_inv c t"
    "prep_part t = prep_part (su_prep s)" "generator_ok c g G'" "list_all2 (sh c) bs (next_bits c g nTriples (su_gen s))"
    using generate_bits_ok [of c g Ls "su_gen s" nTriples "su_prep s" "su_rand s"] e s
    by (auto simp: supply_env_def supply_ok_def next_bits_def)
  have b: "bit_ok c b" if "b \<in> set bs" for b
  proof -
    from that obtain j where j: "j < length bs" "bs ! j = b" unfolding in_set_conv_nth by blast
    have v: "sh c b (next_bits c g nTriples (su_gen s) ! j)" using list_all2_nthD [OF t(5) j(1)] j(2) by simp
    have "next_bits c g nTriples (su_gen s) ! j \<in> set (next_bits c g nTriples (su_gen s))" using j t(5) by (simp add: list_all2_lengthD)
    then have "next_bits c g nTriples (su_gen s) ! j = 0 \<or> next_bits c g nTriples (su_gen s) ! j = 1"
      by (auto simp: next_bits_def)
    then show ?thesis using v by (auto simp: bit_ok_def)
  qed
  have l: "bs = [] \<longleftrightarrow> next_bits c g nTriples (su_gen s) = []" using list_all2_lengthD [OF t(5)] by (metis length_0_conv)
  let ?t = "s\<lparr>su_prep := t\<lparr>bits := bits t @ bs\<rparr>, su_gen := G', su_rand := ks'\<rparr>"
  show ?thesis
  proof (cases "bs = []")
    case True
    then show ?thesis using t(1) l by (simp add: fill_bits_buffer_def monad_defs on_prep_def)
  next
    case False
    have "fill_bits_buffer c g Ls nTriples s = Inr ((), ?t)"
      using t(1) False by (simp add: fill_bits_buffer_def monad_defs on_prep_def)
    moreover have "supply_ok c g ?t" using s t b by (auto simp: supply_ok_def prep_part_fields)
    ultimately show ?thesis using False l by auto
  qed
qed

lemma fill_inputs_ok:
  assumes e: "supply_env c g Ls nTriples" and s: "supply_ok c g s" and i: "i < num_players c" "i < length (inputs (su_prep s))"
  shows "\<exists>t. fill_inputs c g nTriples i s = Inr ((), t) \<and> supply_ok c g t \<and> i < length (inputs (su_prep t)) \<and> inputs (su_prep t) ! i \<noteq> []"
proof -
  obtain G' ins where r: "generateInputs c g i nTriples (su_gen s) = Inr (G', ins)" "generator_ok c g G'" "length ins = nTriples * 10"
    "\<forall>j < nTriples * 10. input_ok c (ins ! j)"
    using generate_inputs_ok [of c g "su_gen s" i nTriples] e s i by (auto simp: supply_env_def supply_ok_def)
  let ?is = "inputs (su_prep s)"
  let ?t = "s\<lparr>su_gen := G', su_prep := (su_prep s)\<lparr>inputs := ?is[i := ?is ! i @ ins]\<rparr>\<rparr>"
  have ins: "\<forall>x \<in> set ins. input_ok c x" using r(3,4) by (metis in_set_conv_nth)
  have ne: "ins \<noteq> []" using r(3) e by (auto simp: supply_env_def)
  have "fill_inputs c g nTriples i s = Inr ((), ?t)"
    using r(1) i(2) by (simp add: fill_inputs_def monad_defs on_prep_def Let_def)
  moreover have "\<forall>x \<in> set (?is ! i). input_ok c x" using s nth_mem [OF i(2)] unfolding supply_ok_def by blast
  then have "supply_ok c g ?t"
    using s r(2) ins i(2) by (auto simp: supply_ok_def dest!: set_update_subset_insert [THEN subsetD] split: if_splits)
  ultimately show ?thesis using i(2) ne by auto
qed

section \<open>Requests\<close>

lemma request_triple_ok:
  assumes e: "supply_env c g Ls nTriples" and s: "supply_ok c g s"
  shows "\<exists>x t. request_triple c g nTriples s = Inr (x, t) \<and> supply_ok c g t \<and> handed_ok c (Got_triple x)"
proof -
  have pop: "\<exists>x t. bnd (gets (\<lambda>s. triples (su_prep s))) (\<lambda>ts. bnd (check (ts \<noteq> []) Assertion_failed) (\<lambda>_.
      bnd (on_prep (modify (\<lambda>s. s\<lparr>triples := butlast ts\<rparr>))) (\<lambda>_. ret (last ts)))) u = Inr (x, t) \<and> supply_ok c g t \<and> handed_ok c (Got_triple x)"
    if u: "supply_ok c g u" "triples (su_prep u) \<noteq> []" for u
    using u by (auto simp: monad_defs on_prep_def supply_ok_def dest: in_set_butlastD)
  show ?thesis
  proof (cases "triples (su_prep s) = []")
    case True
    obtain u where u: "fill_triples c g nTriples s = Inr ((), u)" "supply_ok c g u" "triples (su_prep u) \<noteq> []"
      using fill_triples_ok [OF e s] by blast
    show ?thesis using pop [OF u(2,3)] u(1) True by (simp add: request_triple_def monad_defs)
  next
    case False
    then show ?thesis using pop [OF s False] by (simp add: request_triple_def monad_defs)
  qed
qed

lemma request_bit_ok:
  assumes e: "supply_env c g Ls nTriples" and s: "supply_ok c g s"
  shows "if bits (su_prep s) = [] \<and> next_bits c g nTriples (su_gen s) = [] then request_bit c g Ls nTriples s = Inl Assertion_failed
    else \<exists>x t. request_bit c g Ls nTriples s = Inr (x, t) \<and> supply_ok c g t \<and> handed_ok c (Got_bit x)"
proof -
  have pop: "\<exists>x t. bnd (gets (\<lambda>s. bits (su_prep s))) (\<lambda>bs.
      bnd (on_prep (modify (\<lambda>s. s\<lparr>bits := butlast bs\<rparr>))) (\<lambda>_. ret (last bs))) u = Inr (x, t) \<and> supply_ok c g t \<and> handed_ok c (Got_bit x)"
    if u: "supply_ok c g u" "bits (su_prep u) \<noteq> []" for u
    using u by (auto simp: monad_defs on_prep_def supply_ok_def dest: in_set_butlastD)
  show ?thesis
  proof (cases "bits (su_prep s) = []")
    case True
    note f = fill_bits_buffer_ok [OF e s]
    show ?thesis
    proof (cases "next_bits c g nTriples (su_gen s) = []")
      case none: True
      then show ?thesis using f True by (simp add: request_bit_def monad_defs)
    next
      case False
      obtain u where u: "fill_bits_buffer c g Ls nTriples s = Inr ((), u)" "supply_ok c g u" "bits (su_prep u) \<noteq> []"
        using f False by auto
      show ?thesis using pop [OF u(2,3)] u(1) True False by (simp add: request_bit_def monad_defs)
    qed
  next
    case False
    then show ?thesis using pop [OF s False] by (simp add: request_bit_def monad_defs)
  qed
qed

lemma request_input_ok:
  assumes e: "supply_env c g Ls nTriples" and s: "supply_ok c g s" and i: "i < num_players c"
  shows "\<exists>x t. request_input c g nTriples i s = Inr (x, t) \<and> supply_ok c g t \<and> handed_ok c (Got_input i x)"
proof -
  let ?s = "s\<lparr>su_prep := (su_prep s)\<lparr>inputs := resize [] (max (length (inputs (su_prep s))) (Suc i)) (inputs (su_prep s))\<rparr>\<rparr>"
  have s': "supply_ok c g ?s" using s by (auto simp: supply_ok_def resize_def dest: in_set_takeD split: if_splits)
  have l: "i < length (inputs (su_prep ?s))" by simp
  have pop: "\<exists>x t. bnd (gets (\<lambda>s. inputs (su_prep s) ! i)) (\<lambda>is. bnd (check (is \<noteq> []) Out_of_range) (\<lambda>_.
      bnd (on_prep (modify (\<lambda>s. s\<lparr>inputs := (inputs s)[i := butlast is]\<rparr>))) (\<lambda>_. ret (last is)))) u = Inr (x, t) \<and>
      supply_ok c g t \<and> handed_ok c (Got_input i x)"
    if u: "supply_ok c g u" "i < length (inputs (su_prep u))" "inputs (su_prep u) ! i \<noteq> []" for u
  proof -
    have v: "\<forall>x \<in> set (inputs (su_prep u) ! i). input_ok c x"
      using u(1) nth_mem [OF u(2)] unfolding supply_ok_def by blast
    then have "\<forall>x \<in> set (butlast (inputs (su_prep u) ! i)). input_ok c x" "input_ok c (last (inputs (su_prep u) ! i))"
      using u(3) by (auto dest: in_set_butlastD)
    then show ?thesis using u
      by (auto simp: monad_defs on_prep_def supply_ok_def dest!: set_update_subset_insert [THEN subsetD])
  qed
  show ?thesis
  proof (cases "inputs (su_prep ?s) ! i = []")
    case True
    obtain u where u: "fill_inputs c g nTriples i ?s = Inr ((), u)" "supply_ok c g u" "i < length (inputs (su_prep u))" "inputs (su_prep u) ! i \<noteq> []"
      using fill_inputs_ok [OF e s' i l] by blast
    show ?thesis using pop [OF u(2-4)] u(1) True by (simp add: request_input_def monad_defs on_prep_def)
  next
    case False
    then show ?thesis using pop [OF s' l False] by (simp add: request_input_def monad_defs on_prep_def)
  qed
qed

text \<open>One step keeps the invariant, and so does every run.\<close>

lemma serve_ok:
  assumes e: "supply_env c g Ls nTriples" and s: "supply_ok c g s" and h: "serve c g Ls nTriples s h s'"
  shows "supply_ok c g s' \<and> handed_ok c h"
  using h
proof (cases rule: serve.cases)
  case (serve_triple t)
  then show ?thesis using request_triple_ok [OF e s] by auto
next
  case (serve_bit b)
  then show ?thesis using request_bit_ok [OF e s] by (auto split: if_splits)
next
  case (serve_input i x)
  then show ?thesis using request_input_ok [OF e s, of i] by auto
qed

lemma serves_ok:
  assumes e: "supply_env c g Ls nTriples"
  shows "serves c g Ls nTriples s hs t \<Longrightarrow> supply_ok c g s \<Longrightarrow> supply_ok c g t \<and> (\<forall>h \<in> set hs. handed_ok c h)"
proof (induction rule: serves.induct)
  case (serves_more s h s' hs t)
  then show ?case using serve_ok [OF e serves_more.prems serves_more.hyps(1)] by auto
qed simp

end
