(* ===== verification/Proth.thy ===== *)
theory Proth
  imports Sqrt Demo
begin

text \<open>
  Proth's criterion, by which a prime of realistic length is at hand for the examples: the
  protocols check that the prime has at least 40 bits. Then a computed library for square roots.
\<close>

section \<open>Prime factors\<close>

lemma least_factor:
  assumes N: "1 < (N :: int)" "\<not> prime_int N"
  shows "\<exists>q. prime_int q \<and> q dvd N \<and> q * q \<le> N"
proof -
  let ?D = "\<lambda>m. 2 \<le> m \<and> int m dvd N"
  obtain d where d: "2 \<le> d" "d < N" "d dvd N" using N by (auto simp: prime_int_def)
  then have "?D (nat d)" by auto
  define m where "m = (LEAST m. ?D m)"
  have m: "?D m" unfolding m_def using \<open>?D (nat d)\<close> by (rule LeastI)
  have least: "m \<le> k" if "?D k" for k unfolding m_def using that by (rule Least_le)
  have "prime_int (int m)"
    unfolding prime_int_def
  proof (intro conjI ballI notI)
    show "1 < int m" using m by simp
    fix e assume e: "e \<in> {2..<int m}" "e dvd int m"
    then have "?D (nat e)" using m dvd_trans by auto
    then have "m \<le> nat e" by (rule least)
    then show False using e(1) by (simp add: le_nat_iff)
  qed
  moreover obtain e where e: "N = int m * e" using m by (auto elim: dvdE)
  have "0 < e"
  proof (rule ccontr)
    assume "\<not> 0 < e"
    then have "int m * e \<le> 0" by (intro mult_nonneg_nonpos) auto
    then show False using e N(1) by simp
  qed
  moreover have "e \<noteq> 1"
  proof
    assume "e = 1"
    then have "int m = N" using e by simp
    then show False using least [OF \<open>?D (nat d)\<close>] d(1,2) by linarith
  qed
  ultimately have "?D (nat e)" using e by auto
  then have "int m * int m \<le> N" using least [of "nat e"] \<open>0 < e\<close> unfolding e by (intro mult_left_mono) auto
  then show ?thesis using \<open>prime_int (int m)\<close> m by blast
qed

lemma mod_dvd_cong: "(q :: int) dvd N \<Longrightarrow> x mod N = y mod N \<Longrightarrow> x mod q = y mod q"
  by (metis mod_mod_cancel)

lemma minus_one_odd_power: "1 < q \<Longrightarrow> odd m \<Longrightarrow> x mod q = (- 1) mod (q :: int) \<Longrightarrow> x ^ m mod q = (- 1) mod q"
  by (metis power_minus_odd power_mod power_one)

lemma proth:
  assumes N: "N = int k * 2 ^ n + 1" "int k < 2 ^ n" "0 < n" "0 < k" and a: "a ^ (k * 2 ^ (n - 1)) mod N = N - 1"
  shows "prime_int N"
proof (rule ccontr)
  assume np: "\<not> prime_int N"
  have "2 ^ 1 \<le> (2 :: int) ^ n" using N(3) by (intro power_increasing) auto
  then have "1 * 2 \<le> int k * 2 ^ n" using N(4) by (intro mult_mono) auto
  then have N2: "2 < N" using N(1) by simp
  obtain q where q: "prime_int q" "q dvd N" "q * q \<le> N" using least_factor [of N] np N2 by auto
  have q1: "1 < q" using q(1) by (simp add: prime_int_def)
  have "odd N" using N(1,3) by simp
  then have oq: "odd q" using q(2) dvd_trans by blast
  define b where "b = a ^ k"
  have "b ^ (2 ^ (n - 1)) mod N = (- 1) mod N" using a N2 by (simp add: b_def power_mult [symmetric] zmod_minus1)
  then have b1: "b ^ (2 ^ (n - 1)) mod q = (- 1) mod q" by (rule mod_dvd_cong [OF q(2)])
  have b0: "b mod q \<noteq> 0"
  proof
    assume "b mod q = 0"
    then have "q dvd b" by (simp add: mod_eq_0_iff_dvd)
    then have "q dvd b ^ (2 ^ (n - 1))" by (rule dvd_trans) (rule dvd_power, simp)
    then have "(- 1) mod q = 0" using b1 by (simp add: mod_eq_0_iff_dvd)
    then show False using q1 by (simp add: zmod_minus1)
  qed
  obtain m j where m: "odd m" "0 < m" "q - 1 = m * 2 ^ j" using split_even_value [of "q - 1" 0] q1 by auto
  have e: "nat (q - 1) = nat m * 2 ^ j" using m(2,3) by (simp add: nat_mult_distrib nat_power_eq)
  have om: "odd (nat m)" using m(1,2) by (simp add: even_nat_iff)
  have f: "b ^ nat (q - 1) mod q = 1" by (rule fermat [OF q(1) b0])
  have "n \<le> j"
  proof (rule ccontr)
    assume "\<not> n \<le> j"
    then have s: "2 ^ (n - 1) = (2 ^ j * 2 ^ (n - 1 - j) :: nat)" by (simp add: power_add [symmetric])
    have "(b ^ (2 ^ (n - 1))) ^ nat m mod q = (- 1) mod q" by (rule minus_one_odd_power [OF q1 om b1])
    moreover have "(b ^ (2 ^ (n - 1))) ^ nat m = (b ^ nat (q - 1)) ^ (2 ^ (n - 1 - j))"
      unfolding e s by (simp add: power_mult [symmetric] mult_ac)
    moreover have "(b ^ nat (q - 1)) ^ (2 ^ (n - 1 - j)) mod q = 1" using f q1 by (metis power_mod power_one mod_pos_pos_trivial zero_le_one)
    ultimately have "(- 1) mod q = 1" by simp
    then show False using q1 oq by (simp add: zmod_minus1)
  qed
  then have "2 ^ n \<le> q - 1" using m(2,3) power_increasing [of n j "2 :: int"]
    by (metis le_less_trans less_imp_le mult_le_cancel_right1 not_less one_le_numeral zero_le_numeral zero_le_power int_one_le_iff_zero_less order_trans)
  then have "(2 ^ n + 1) * (2 ^ n + 1) \<le> q * q" using q1 by (intro mult_mono) auto
  moreover have "N < (2 ^ n + 1) * (2 ^ n + 1)"
  proof -
    have "int k * 2 ^ n < 2 ^ n * 2 ^ n" using N(2) by (intro mult_strict_right_mono) auto
    moreover have "(2 ^ n + 1) * (2 ^ n + 1) = 2 ^ n * 2 ^ n + 2 * 2 ^ n + (1 :: int)" by (simp add: algebra_simps)
    moreover have "0 < (2 :: int) ^ n" by simp
    ultimately show ?thesis unfolding N(1) by linarith
  qed
  ultimately show False using q(3) by linarith
qed

section \<open>A prime of 43 bits\<close>

definition proth_prime :: int where
  "proth_prime = 3 * 2 ^ 41 + 1"

lemma proth_prime_value: "proth_prime = 6597069766657"
  by (simp add: proth_prime_def)

lemma proth_power: "5 ^ (3 * 2 ^ 40) mod proth_prime = proth_prime - 1"
proof -
  have "square_times proth_prime 40 125 = proth_prime - 1"
    unfolding proth_prime_value by code_simp
  moreover have "square_times proth_prime 40 125 = 125 ^ (2 ^ 40) mod proth_prime"
  proof (rule square_times_value)
    show "0 < proth_prime" "in_field proth_prime 125" by (simp_all add: proth_prime_value in_field_def)
  qed
  moreover have "(5 :: int) ^ (3 * 2 ^ 40) = (5 ^ 3) ^ (2 ^ 40)" by (rule power_mult)
  moreover have "(5 :: int) ^ 3 = 125" by simp
  ultimately show ?thesis by (simp only:)
qed

lemma proth_prime [simp]: "prime_int proth_prime"
proof (rule proth [of _ 3 41 5])
  have "(41 :: nat) - 1 = 40" by simp
  then show "5 ^ (3 * 2 ^ (41 - 1)) mod proth_prime = proth_prime - 1" using proth_power by (simp only:)
  show "proth_prime = int 3 * 2 ^ 41 + 1" by (simp add: proth_prime_def)
qed simp_all

section \<open>A library\<close>

definition demo_roots :: sqrt_lib where
  "demo_roots = \<lparr>mpz_powm = (\<lambda>b e p. b ^ nat e mod p), mpz_legendre = demo_legendre, z_range = (\<lambda>p k. 5 mod p)\<rparr>"

lemma demo_legendre_value:
  assumes "1 < p"
  shows "demo_legendre a p = (if a mod p = 0 then 0 else if is_square_mod a p then 1 else - 1)"
proof -
  have "is_square_mod a p \<longleftrightarrow> list_ex (\<lambda>y. (y * y) mod p = a mod p) [0..p - 1]"
  proof
    assume "is_square_mod a p"
    then obtain y where "(y * y) mod p = a mod p" by (auto simp: is_square_mod_def)
    then have "(y mod p) * (y mod p) mod p = a mod p" by (simp add: mod_mult_eq)
    then show "list_ex (\<lambda>y. (y * y) mod p = a mod p) [0..p - 1]"
      using assms unfolding list_ex_iff by (intro bexI [of _ "y mod p"]) auto
  qed (auto simp: list_ex_iff is_square_mod_def)
  then show ?thesis by (simp add: demo_legendre_def)
qed

lemma demo_roots_ok [simp]: "1 < p \<Longrightarrow> sqrt_ok demo_roots p"
  by (simp add: sqrt_ok_def demo_roots_def demo_legendre_value in_field_def)

lemma demo_roots_fair [simp]: "fair_range demo_roots proth_prime"
proof -
  have five: "5 mod proth_prime = 5" by (simp add: proth_prime_value)
  have h: "half proth_prime = 3 * 2 ^ 40" by (simp add: half_def proth_prime_def)
  have "\<not> is_square_mod 5 proth_prime"
  proof
    assume "is_square_mod 5 proth_prime"
    then have "5 ^ half proth_prime mod proth_prime = 1"
      by (intro euler_square) (simp_all add: five, simp add: proth_prime_value)
    then have "proth_prime - 1 = 1" unfolding h proth_power .
    then show False by (simp add: proth_prime_value)
  qed
  then have "demo_legendre 5 proth_prime = - 1"
    using five by (subst demo_legendre_value) (simp_all add: proth_prime_value)
  then show ?thesis by (auto simp: fair_range_def demo_roots_def five)
qed

end
