(* ===== verification/Mascot.thy ===== *)
theory Mascot
  imports Supply Proth
begin

text \<open>
  Two parties that generate triples: the field of \<open>proth_prime\<close> elements (43 bits) in one limb, and
  multipliers whose base seeds match. The examples for the properties of triple generation
  are stated over them.
\<close>

definition two_parties :: ctx where
  "two_parties = demo\<lparr>pr := proth_prime, alphas := [3, 2]\<rparr>"

definition demo_ot :: ot_env where
  "demo_ot = \<lparr>o_prime = proth_prime, o_length = 43, o_limbs = 1, prg_stream = (\<lambda>s k. (uint s + int k) mod proth_prime),
     hash_field = (\<lambda>w. uint w mod proth_prime), hash_row = (\<lambda>w. w)\<rparr>"

definition demo_gen :: gen_env where
  "demo_gen = \<lparr>o_env = demo_ot, share_prg = (\<lambda>i k. int (5 * i + k) mod proth_prime), seed_coin = (\<lambda>k j. int (k + 3 * j) mod proth_prime),
     semi_prg = (\<lambda>k j. int (k + 7 * j) mod proth_prime), chi_coin = (\<lambda>_ _ _ i. of_nat i)\<rparr>"

text \<open>All bits of the base transfers are set, so that the second rows are known.\<close>

definition demo_extension :: extension where
  "demo_extension = \<lparr>passive_only = False, words = (\<lambda>_. 0), words_read = 0, ex_co =
     \<lparr>nbaseOTs = 128, baseReceiverInput = replicate 128 True, g_sender = (\<lambda>r. (\<lambda>k. of_nat (r + k), \<lambda>k. of_nat (2 * r + k))),
       g_receiver = (\<lambda>r k. of_nat (2 * r + k)), sent_pos = 0, recv_pos = 0, receiverOutputMatrix = [], t1_matrix = [],
       u_matrix = [], senderOutputMatrix = []\<rparr>\<rparr>"

definition demo_auth :: "int \<Rightarrow> int correlator" where
  "demo_auth key = \<lparr>nbaseOTs = 64, baseReceiverInput = value_bits 1 key, g_sender = (\<lambda>r. (\<lambda>k. int k mod proth_prime, \<lambda>k. int (r + k) mod proth_prime)),
     g_receiver = (\<lambda>r k. if value_bits 1 key ! r then int (r + k) mod proth_prime else int k mod proth_prime),
     sent_pos = 0, recv_pos = 0, receiverOutputMatrix = [], t1_matrix = [], u_matrix = [], senderOutputMatrix = []\<rparr>"

definition demo_multiplier :: "int \<Rightarrow> multiplier" where
  "demo_multiplier key = \<lparr>rot_ext = demo_extension, auth_ot_ext = demo_auth key, otCorrelator = demo_auth key, c_output = [], macs = [], input_macs = []\<rparr>"

definition demo_generator :: generator where
  "demo_generator = \<lparr>ot_multipliers = (\<lambda>i _. demo_multiplier ([3, 2] ! i)), drawn = (\<lambda>_. 0), seeds = 0, extensions = 0\<rparr>"

lemma two_parties_simps [simp]:
  "pr two_parties = proth_prime" "alphas two_parties = [3, 2]" "num_players two_parties = 2" "o_env demo_gen = demo_ot"
  "o_prime demo_ot = proth_prime" "o_length demo_ot = 43" "o_limbs demo_ot = 1"
  by (simp_all add: two_parties_def demo_def num_players_def demo_gen_def demo_ot_def)

lemma demo_ext_pair [simp]: "ext_pair demo_extension demo_extension"
  by (simp add: ext_pair_def ext_shaped_def demo_extension_def spacious_def tall_def seeded_def)

lemma demo_gen_ok [simp]: "gen_env_ok two_parties demo_gen"
  by (auto simp: gen_env_ok_def wf_field_def env_ok_def in_field_def demo_gen_def demo_ot_def proth_prime_value)

lemma demo_pair_ok: "pair_ok demo_ot a b (demo_multiplier a) (demo_multiplier b)"
  by (auto simp: pair_ok_def demo_multiplier_def demo_auth_def seeded_def spacious_def tall_def in_field_def proth_prime_value)

lemma demo_generator_ok [simp]: "generator_ok two_parties demo_gen demo_generator"
  using demo_pair_ok [of 3 2] by (auto simp: generator_ok_def every_pair_def demo_generator_def less_2_cases_iff)

lemma demo_mac_inv [simp]: "mac_inv two_parties demo_state" "mac_inv demo demo_state"
  by (auto simp: mac_inv_def demo_state_def less_2_cases_iff)

lemma two_parties_more [simp]: "gcdext two_parties = demo_gcdext" "wf_field two_parties" "wf_prime two_parties" "odd proth_prime"
  "roots_ok two_parties [demo_roots, demo_roots]"
  by (auto simp: two_parties_def demo_def wf_field_def wf_prime_def in_field_def roots_ok_def num_players_def proth_prime_value [symmetric]
      less_Suc_eq, simp_all add: proth_prime_value)

definition demo_supply :: stock where
  "demo_supply = \<lparr>su_prep = demo_state, su_gen = demo_generator, su_rand = [0, 0]\<rparr>"

lemma demo_supply_ok [simp]: "supply_ok two_parties demo_gen demo_supply" "supply_env two_parties demo_gen [demo_roots, demo_roots] 2"
proof -
  have "triples demo_state = []" "bits demo_state = []" "inputs demo_state = []" by (simp_all add: demo_state_def)
  then show "supply_ok two_parties demo_gen demo_supply" by (simp add: supply_ok_def demo_supply_def)
  show "supply_env two_parties demo_gen [demo_roots, demo_roots] 2" by (simp add: supply_env_def)
qed

section \<open>Properties\<close>



text \<open>C9: parties that follow the protocol generate valid triples: \<open>generateTriples\<close> returns,
  with no error from the extension, the correlation or the sacrifice, and every triple that it
  puts into the buffer consists of valid authenticated sharings of the factors, which are sums
  over the parties' random values, and of their product.\<close>
theorem generated_triples_valid:
  assumes "gen_env_ok c g" "40 \<le> o_length (o_env g)" "generator_ok c g G" "0 < nTriples" "mac_inv c s"
  shows "\<exists>G' Ts t. generateTriples c g nTriples G s = Inr ((G', Ts), t) \<and> generator_ok c g G' \<and> mac_inv c t \<and>
    length (buffered Ts) = nTriples \<and>
    (\<forall>j < nTriples. triple_is c (buffered Ts ! j) (factor c g G j 0) (sum_b c g (drawn G) nTriples j))"
proof -
  obtain G' Ts t where r: "generateTriples c g nTriples G s = Inr ((G', Ts), t)" "mac_inv c t" "generator_ok c g G'" "length Ts = nTriples"
    and u: "\<forall>j < nTriples. unchecked_is c (Ts ! j) (factor c g G j) (sum_b c g (drawn G) nTriples j)"
    using generate_triples_ok [OF assms] by blast
  have "triple_is c (buffered Ts ! j) (factor c g G j 0) (sum_b c g (drawn G) nTriples j)" if "j < nTriples" for j
    by (rule buffered_triples [OF r(4) u that])
  then show ?thesis using r by (auto simp: buffered_def)
qed

theorem generated_triples_valid_witness:
  "\<exists>G' Ts t. generateTriples two_parties demo_gen 2 demo_generator demo_state = Inr ((G', Ts), t) \<and>
    generator_ok two_parties demo_gen G' \<and> mac_inv two_parties t \<and> length (buffered Ts) = 2 \<and>
    (\<forall>j < 2. triple_is two_parties (buffered Ts ! j) (factor two_parties demo_gen demo_generator j 0) (sum_b two_parties demo_gen (drawn demo_generator) 2 j))"
  by (rule generated_triples_valid) simp_all

text \<open>C10: the sacrifice of a triple decides by its two defects: with coefficient \<open>t\<close> it accepts
  exactly when \<open>t\<close> times the defect of the product that is kept equals the defect of the one that is
  spent, and otherwise throws \<open>mac_fail\<close>; a wrong product is accepted for at most one coefficient
  of the field, whatever the other product is.\<close>
theorem sacrifice_catches:
  assumes "wf_field c" "prime_int (pr c)" "alpha c mod pr c \<noteq> 0" "mac_inv c s" "popen_cnt s < 8"
    "candidate c T x y z" "40 \<le> len"
  shows "(if (t * (z 0 - x 0 * y)) mod pr c = (z 1 - x 1 * y) mod pr c
      then \<exists>u. sacrifice c len (\<lambda>_. t) [T] s = Inr ((), u) else sacrifice c len (\<lambda>_. t) [T] s = Inl Mac_fail) \<and>
    ((z 0 - x 0 * y) mod pr c \<noteq> 0 \<longrightarrow>
      (\<forall>t' u u'. sacrifice c len (\<lambda>_. t) [T] s = Inr u \<and> sacrifice c len (\<lambda>_. t') [T] s = Inr u' \<longrightarrow> t mod pr c = t' mod pr c))"
proof -
  have d: "(if defect t x y z mod pr c = 0 then \<exists>u. sacrifice c len (\<lambda>_. t) [T] s = Inr ((), u)
      else sacrifice c len (\<lambda>_. t) [T] s = Inl Mac_fail)" for t
  proof -
    have T: "candidate c ([T] ! j) x y z" if "j < length [T]" for j using assms(6) that by simp
    have m: "popen_cnt s + 2 * length [T] < POPEN_MAX" using assms(5) by (simp add: POPEN_MAX_def)
    obtain k q where "k \<le> popen_cnt s + 1" "if sacrifice_accepts c k q [defect t x y z]
        then \<exists>u. sacrifice c len (\<lambda>_. t) [T] s = Inr ((), u) else sacrifice c len (\<lambda>_. t) [T] s = Inl Mac_fail"
      using sacrifice_decides [OF assms(1-4) T assms(7) m, of "\<lambda>_. t"] by auto
    then show ?thesis using assms(5) by (simp add: sacrifice_accepts_def)
  qed
  have e: "defect t x y z mod pr c = 0 \<longleftrightarrow> (t * (z 0 - x 0 * y)) mod pr c = (z 1 - x 1 * y) mod pr c" for t
    unfolding defect_def by (rule diff_zero)
  have acc: "defect t x y z mod pr c = 0" if "sacrifice c len (\<lambda>_. t) [T] s = Inr u" for t u
    using d [of t] that by (auto split: if_splits)
  show ?thesis using d [of t] one_coin [OF assms(2) acc acc] unfolding e [symmetric] by blast
qed

definition demo_candidate :: "jshare Triple" where
  "demo_candidate = \<lparr>tr_a = [demo_share 2, demo_share 4], tr_b = demo_share 5, tr_c = [demo_share 4, demo_share 6]\<rparr>"

theorem sacrifice_catches_witness:
  "sacrifice demo 40 (\<lambda>_. 1) [demo_candidate] demo_state = Inl Mac_fail"
proof -
  let ?x = "\<lambda>j :: nat. if j = 0 then 2 else 4 :: int" and ?z = "\<lambda>j :: nat. if j = 0 then 4 else 6 :: int"
  have c: "candidate demo demo_candidate ?x 5 ?z"
    by (auto simp: candidate_def demo_candidate_def less_2_cases_iff)
  have p: "prime_int (pr demo)" "alpha demo mod pr demo \<noteq> 0" "popen_cnt demo_state < 8" by (simp_all add: demo_state_def)
  show ?thesis
    using sacrifice_catches [OF demo_wf_field p(1,2) demo_mac_inv(2) p(3) c, of 40 1] by simp
qed

text \<open>C15: \<open>gfp_::sqrRoot\<close> returns for every element that is a square, for both kinds of primes and
  whatever non-residue is drawn, with the root that is odd (or zero); there is only one such
  root, so that all parties go on with the same one. For other elements it throws.\<close>
theorem square_root_common:
  assumes "prime_int p" "odd p" "sqrt_ok L p" "fair_range L p" "in_field p a"
  shows "if is_square_mod a p
    then \<exists>z. root_of p a z \<and> (\<forall>w. root_of p a w \<longrightarrow> w = z) \<and> (\<forall>k. \<exists>k'. sqrRoot L p k a = Some (Inr (z, k')))
    else \<forall>k. sqrRoot L p k a = Some (Inl (Runtime_error ''cannot compute square root of non-square''))"
proof (cases "is_square_mod a p")
  case True
  then obtain z where z: "root_of p a z" using sqrRoot_root [OF assms, of 0] by auto
  have "\<exists>k'. sqrRoot L p k a = Some (Inr (z, k'))" for k
  proof -
    obtain w k' where w: "sqrRoot L p k a = Some (Inr (w, k'))" "root_of p a w" using sqrRoot_root [OF assms, of k] True by auto
    show ?thesis using w(1) root_of_unique [OF assms(1,2) w(2) z] by blast
  qed
  then show ?thesis using True z root_of_unique [OF assms(1,2)] by (simp only: if_True) blast
qed (use sqrRoot_root [OF assms] in simp)

theorem square_root_common_witness:
  "\<exists>z. root_of proth_prime 4 z \<and> (\<forall>w. root_of proth_prime 4 w \<longrightarrow> w = z) \<and>
    (\<forall>k. \<exists>k'. sqrRoot demo_roots proth_prime k 4 = Some (Inr (z, k')))"
proof -
  have "is_square_mod 4 proth_prime" unfolding is_square_mod_def by (rule exI [of _ 2]) simp
  moreover have "1 < proth_prime" "in_field proth_prime 4" by (simp_all add: proth_prime_value in_field_def)
  ultimately show ?thesis using square_root_common [OF proth_prime _ demo_roots_ok demo_roots_fair, of 4] by simp
qed

text \<open>C13: honest parties generate valid bits: the products of the generated triples become squares that are opened,
  and every bit that is kept shares the parity of a factor that is not zero.\<close>
theorem generated_bits_valid:
  assumes "gen_env_ok c g" "40 \<le> o_length (o_env g)" "wf_prime c" "odd (pr c)" "roots_ok c Ls" "generator_ok c g G" "0 < nTriples" "mac_inv c s"
  shows "\<exists>G' bs ks' t. generateBits c g Ls nTriples G ks s = Inr ((G', bs, ks'), t) \<and> mac_inv c t \<and> generator_ok c g G' \<and>
    list_all2 (sh c) bs (map (\<lambda>a. (a mod pr c) mod 2) (filter (\<lambda>a. a mod pr c \<noteq> 0) (map (\<lambda>j. factor c g G j 0) [0..<nTriples])))"
  using generate_bits_ok [OF assms] by blast

theorem generated_bits_valid_witness:
  "\<exists>G' bs ks' t. generateBits two_parties demo_gen [demo_roots, demo_roots] 1 demo_generator [0, 0] demo_state = Inr ((G', bs, ks'), t) \<and>
    mac_inv two_parties t \<and> generator_ok two_parties demo_gen G' \<and>
    list_all2 (sh two_parties) bs (map (\<lambda>a. (a mod pr two_parties) mod 2)
      (filter (\<lambda>a. a mod pr two_parties \<noteq> 0) (map (\<lambda>j. factor two_parties demo_gen demo_generator j 0) [0..<1])))"
  by (rule generated_bits_valid) simp_all

text \<open>C14: honest parties generate valid input masks: every mask is what its owner drew, shared with a MAC
  that is the product with the key, and the check of their combination passes.\<close>
theorem generated_inputs_valid:
  assumes "gen_env_ok c g" "generator_ok c g G" "player < num_players c"
  shows "\<exists>G' ins. generateInputs c g player nTriples G = Inr (G', ins) \<and> generator_ok c g G' \<and> length ins = nTriples * 10 \<and>
    (\<forall>j < nTriples * 10. input_ok c (ins ! j) \<and> snd (ins ! j) = share_prg g player (drawn G player + j))"
  using generate_inputs_ok [OF assms] .

theorem generated_inputs_valid_witness:
  "\<exists>G' ins. generateInputs two_parties demo_gen 1 1 demo_generator = Inr (G', ins) \<and> generator_ok two_parties demo_gen G' \<and>
    length ins = 1 * 10 \<and> (\<forall>j < 1 * 10. input_ok two_parties (ins ! j) \<and> snd (ins ! j) = share_prg demo_gen 1 (drawn demo_generator 1 + j))"
  by (rule generated_inputs_valid) simp_all

text \<open>C11: one generator serves requests for triples, bits and input masks in any order: after every
  run of requests the buffers hold valid objects only and all that was handed out is valid; another triple and
  another input mask can always be had, and another bit unless all factors of the next batch are zero.\<close>
theorem supply_valid:
  assumes "supply_env c g Ls nTriples" "supply_ok c g s" "serves c g Ls nTriples s hs t"
  shows "supply_ok c g t \<and> (\<forall>h \<in> set hs. handed_ok c h) \<and>
    (\<exists>x u. serve c g Ls nTriples t (Got_triple x) u) \<and> (\<forall>i < num_players c. \<exists>x u. serve c g Ls nTriples t (Got_input i x) u) \<and>
    ((\<exists>x u. serve c g Ls nTriples t (Got_bit x) u) \<or> request_bit c g Ls nTriples t = Inl Assertion_failed \<and> next_bits c g nTriples (su_gen t) = [])"
proof -
  have t: "supply_ok c g t" "\<forall>h \<in> set hs. handed_ok c h" using serves_ok [OF assms(1,3,2)] by simp_all
  have "\<exists>x u. serve c g Ls nTriples t (Got_triple x) u" using request_triple_ok [OF assms(1) t(1)] serve_triple by blast
  moreover have "\<exists>x u. serve c g Ls nTriples t (Got_input i x) u" if "i < num_players c" for i
    using request_input_ok [OF assms(1) t(1) that] serve_input [OF that] by blast
  moreover have "(\<exists>x u. serve c g Ls nTriples t (Got_bit x) u) \<or> request_bit c g Ls nTriples t = Inl Assertion_failed \<and> next_bits c g nTriples (su_gen t) = []"
  proof (cases "bits (su_prep t) = [] \<and> next_bits c g nTriples (su_gen t) = []")
    case False
    then obtain x u where "request_bit c g Ls nTriples t = Inr (x, u)" using request_bit_ok [OF assms(1) t(1)] by (simp only: if_False) blast
    then show ?thesis using serve_bit by blast
  qed (use request_bit_ok [OF assms(1) t(1)] in simp)
  ultimately show ?thesis using t by blast
qed

theorem supply_valid_witness:
  "\<exists>x u. serve two_parties demo_gen [demo_roots, demo_roots] 2 demo_supply (Got_triple x) u"
  using supply_valid [OF demo_supply_ok(2,1) serves_none] by blast

end
