(* ===== verification/Spec2Isabelle.thy ===== *)
theory Spec2Isabelle
  imports Points Stages HeadRoom Mascot
begin

text \<open>
  Verification of the proof-of-custody computations and of the multi-party layer below them.

  \<^bold>\<open>The program.\<close> A set of parties holds a BLS secret key in shares. For a file of 256 KiB they
  compute, without any of them learning the key, the custody bit of the file: they sign a
  nonce together (the signature is their ephemeral key), hash the file with a polynomial whose
  variables are limbs of that signature, and take a Legendre symbol. The computation runs in
  MASCOT/SPDZ: every secret value is shared additively with a MAC, products use
  preprocessed triples, and opened values are checked against the MACs. The signature lives in
  the base field of BLS12-381 (381 bits) and the hash in a second prime field; the ephemeral key
  moves from one to the other bit by bit, masked by random bits that are shared in both.

  \<^bold>\<open>How it is modelled.\<close> The code is the same at all parties, so the joint state of the
  protocol is modelled: a shared value is the list of the parties' shares (\<open>jshare\<close>), and the
  state \<open>mpc\<close> holds what the parties' \<open>Tree_MAC_Check\<close> and \<open>Preprocessing\<close> objects hold. A
  stateful operation is a program of the state and error monad of \<open>Prelude\<close>: it takes the
  state to a result and a new state, or to one of the errors \<open>err\<close> (each \<open>throw\<close>, failed
  \<open>assert\<close>, access outside a vector and endless recursion of the code has its constructor).
  The operations that answer other parties (key generation, commitments, shares) are modelled as
  one party's, with arbitrary messages from the others as arguments. The judgement
  \<open>keeps I m Q E\<close> of \<open>Prelude\<close> is total: from a state with \<open>I\<close> the program \<open>m\<close> ends in a state
  with \<open>I\<close>, with a result in \<open>Q\<close> or an error in \<open>E\<close>; \<open>runs\<close> is the case without errors. The
  invariant \<open>good\<close> of the online layer says that every buffered triple, square, bit and input
  mask is valid and that the pending openings agree with their MACs.

  \<^bold>\<open>The theories\<close> (source files under \<open>src/\<close>).
  \<^item> \<open>Prelude\<close>: errors, the monad, \<open>keeps\<close> and its rules, bit vectors.
  \<^item> \<open>Gfp\<close>: \<open>Math/gfp.h\<close>, \<open>Math/gfp.hpp\<close>, \<open>Math/modp.hpp\<close>, \<open>Math/Zp_Data.h\<close>. Field operations with the
    comparisons and borrows of the code; they are arithmetic modulo the prime.
  \<^item> \<open>Shares\<close>: \<open>Protocols/Share.h\<close>. Shares with MACs, their local operations, the relation \<open>sh\<close> (an
    authenticated sharing of a value).
  \<^item> \<open>TreeSum\<close>, \<open>MacCheck\<close>, \<open>Opening\<close>: \<open>Protocols/MAC_Check.h\<close>, \<open>MAC_Check.hpp\<close>, \<open>MAC_Check_Base.hpp\<close>. Opening
    through the tree of sums and the tree of broadcasts, the queue of values to check, the
    single and the combined check.
  \<^item> \<open>Prep\<close>, \<open>Beaver\<close>, \<open>InputP\<close>: \<open>Protocols/ReplicatedPrep.hpp\<close>, \<open>Protocols/MascotPrep.hpp\<close>,
    \<open>Processor/Data_Files.h\<close>, \<open>Protocols/Beaver.hpp\<close>, \<open>Processor/Input.hpp\<close>. Buffers of preprocessing
    and their refill, multiplication, secret input.
  \<^item> \<open>Online\<close>, \<open>BitOps\<close>, \<open>Compare\<close>, \<open>Convert\<close>, \<open>Prf\<close>: the operations of \<open>POC/OnlineOp.hpp\<close> in its order;
    \<open>Arithmetic\<close>, \<open>Binary\<close> and \<open>Attempts\<close> hold what they guarantee.
  \<^item> \<open>Cplx\<close>, \<open>Curves\<close>: \<open>POC/Complex.h\<close>, \<open>POC/Group.hpp\<close>. The quadratic extension and the point additions of both
    groups in three coordinate systems; \<open>CurveLaws\<close> and \<open>Points\<close> show that they compute the
    chord sum.
  \<^item> \<open>Lagrange\<close>, \<open>Vss\<close>, \<open>Bls\<close>: \<open>Math/Lagrange.cpp\<close>, \<open>POC/vss.cpp\<close>, \<open>POC/bls.cpp\<close>, \<open>Math/bls12_381.cpp\<close>. Shamir and
    Feldman sharing, key generation, partial and distributed signature; \<open>Threshold\<close> and
    \<open>Signature\<close> hold what they guarantee.
  \<^item> \<open>Octet\<close>, \<open>Commit\<close>: \<open>Tools/octetStream.cpp\<close>, \<open>Tools/octetStream.h\<close>, \<open>Networking/data.h\<close>, \<open>Tools/Commit.cpp\<close>,
    \<open>Tools/Subroutines.cpp\<close>. Byte streams on bounded memory, commitments, joint randomness.
  \<^item> \<open>Poc\<close>, \<open>RunPoc\<close>: \<open>POC/poc.hpp\<close>, \<open>POC/RunPoc.hpp\<close>. Custody bit and transfer of the ephemeral key; \<open>Custody\<close> and
    \<open>RunPoc\<close> hold the end-to-end results. \<open>Stages\<close>: \<open>Source/poc_main.cpp\<close>, \<open>Source/poc_main2fork.cpp\<close>,
    \<open>Source/ipc_msg.h\<close>. The main program, and what its two processes send each other.
  \<^item> \<open>Limbs\<close>, \<open>Montgomery\<close>, \<open>Modp\<close>: \<open>Math/mpn_fixed.h\<close>, \<open>Math/Zp_Data.h\<close>, \<open>Math/Zp_Data.cpp\<close>, \<open>Math/modp.h\<close>, \<open>Math/modp.hpp\<close>. Carry
    chains, the set-up of a modulus, both Montgomery multiplications and the elements as vectors of limbs;
    \<open>Refine\<close> shows that they refine the field, \<open>HeadRoom\<close> what happens to a prime without head room.
  \<^item> \<open>Correlator\<close>, \<open>OtExt\<close>, \<open>FieldSquares\<close>, \<open>Multiplier\<close>: \<open>OT/OTCorrelator.hpp\<close>, \<open>OT/BitMatrix.hpp\<close>, \<open>Math/Square.hpp\<close>,
    \<open>OT/OTExtensionWithMatrix.cpp\<close>, \<open>OT/OTExtension.cpp\<close>, \<open>OT/OTMultiplier.hpp\<close>. Correlated oblivious transfers, their
    extension with the correlation check, and the multipliers that two parties run on them.
  \<^item> \<open>TripleRounds\<close>, \<open>TripleGen\<close>, \<open>Sacrifice\<close>, \<open>RandomBits\<close>, \<open>MaskInputs\<close>: \<open>OT/NPartyTripleGenerator.hpp\<close>, \<open>OT/Triple.hpp\<close>,
    \<open>Protocols/SemiInput.hpp\<close>. Triples between all parties: products, amplification, authentication and sacrifice;
    bits from triples; input masks. \<open>Supply\<close> puts the generator behind the buffers of \<open>Protocols/MascotPrep.hpp\<close>, as a
    relation of requests that are served; \<open>Mascot\<close> holds what they guarantee.
  \<^item> \<open>Residues\<close>, \<open>Sqrt\<close>: \<open>Math/bigint.cpp\<close>, \<open>Math/gfp.hpp\<close>. Fermat's theorem and Euler's criterion; square roots with
    Shanks' algorithm. \<open>Proth\<close> proves a number of 43 bits prime, for examples of realistic length.
  \<^item> \<open>Demo\<close>: a concrete context of two players over the field of seven elements, for the examples.

  \<^bold>\<open>Interfaces.\<close> Five locales state contracts between parts. \<open>gate_tree\<close> (\<open>BitOps\<close>): a gate on shared bits
  that \<open>KXOR\<close> and \<open>KOR\<close> fold in a balanced tree, interpreted on both gates. \<open>shared_ring\<close>
  (\<open>CurveLaws\<close>): operations on shared and public elements of a commutative ring, which the point
  additions use, interpreted on the field (\<open>G1\<close>) and on its quadratic extension (\<open>G2\<close>). \<open>codec\<close>
  (\<open>Octet\<close>): a writer and a reader of one type that agree on the bytes, interpreted on every type the
  stream has. \<open>montgomery\<close> (\<open>Montgomery\<close>): the steps of a Montgomery multiplication on limbs,
  interpreted on the routine of fixed length and on the one over GMP. \<open>row_group\<close> (\<open>Correlator\<close>): rows that the
  correlated transfers add and subtract, interpreted on squares of bits (\<open>OtExt\<close>) and of field elements (\<open>FieldSquares\<close>).

  \<^bold>\<open>What the lemmas show.\<close> Local operations preserve \<open>sh\<close>; each operation of the online layer \<open>runs\<close>
  with the value that its name says (or the error that the code throws, exactly when it
  throws it); the preprocessing invariant is preserved by everything; the tree of sums equals the
  plain sum; the check decides agreement with the MACs; commitments bind up to a collision
  of the hash; stored data are read back; the key generation gives shares of one polynomial and
  rejects everything inconsistent; the oblivious transfers deliver what the choice bits select, the generator's
  triples, bits and input masks are valid, and a wrong product survives the sacrifice for at most one
  coefficient; every vector operation on limbs is the field operation; the distributed signature is the threshold signature; the
  ephemeral key arrives in the second field unchanged; the custody bit is the residue
  bit of the hash; the main program returns it in every round. The bits that one process hands to the other as text
  arrive only when all are zero.

  \<^bold>\<open>Bounds.\<close> One loop of the online layer need not end: \<open>pre_rand\<close> draws random bits until they are below the
  prime. Its model takes the number of attempts as fuel; \<open>Attempts\<close> shows that with a generator
  that does not avoid the numbers below the prime for ever some attempt succeeds, and that
  all larger fuels give the same result (\<open>settles\<close>), so that the properties about \<open>A2B\<close> and the ephemeral key
  are about runs that end. The loops of the square root are partial functions (\<open>None\<close> does not return); they are shown to
  return when the random numbers are not squares for ever. All other recursions are structural or have
  a measure. Elements on limbs are right when \<open>p (2 ^ 64 + 1) \<le> 2 ^ (64 (t + 1))\<close>, which the primes of the protocol satisfy;
  \<open>HeadRoom\<close> shows that the bound is needed.

  \<^bold>\<open>Parameters.\<close> Code that is not in the repository is an argument with its documented laws: GMP's extended
  gcd, Legendre symbol, powers and digits (\<open>gcdext_spec\<close>, \<open>legendre_spec\<close>, \<open>sqrt_ok\<close>, \<open>gmp_ok\<close>) and routines on limbs
  (\<open>mpn_ok\<close>), libsodium's hash (\<open>hash_ok\<close>), the pairing library mcl (\<open>fr_ok\<close>, \<open>mcl_ok\<close>). Random numbers, the streams that
  pseudo-random generators expand a seed to, and the hash of the transfers are arguments; the properties hold for all of them.
  The text form of big integers in C++ streams is a
  parameter too (\<open>text_ok\<close>). The base transfers are in the starting state (\<open>ext_pair\<close>, \<open>fresh_pair\<close>: one party holds both seeds, the other
  the one its bit selects). The online layer takes its batches of triples, bits and input masks from arguments of the
  context that are assumed valid (\<open>wf\<close>); that the generator's are is shown from \<open>TripleGen\<close> to \<open>Supply\<close>.

  \<^bold>\<open>Not modelled.\<close> The base transfers and the generators for other rings, sockets, threads and TLS, the bytecode
  machine, the other protocols of the framework, binary circuits, fields of characteristic two, printing, timers and
  counters, the arguments of the main programs. The stages over a single prime in \<open>POC/RunPoc.hpp\<close> call functions of the class
  \<open>POC\<close> without the object and are never instantiated.
\<close>

end
